(* ===== verification/Magus_Prelude.thy ===== *)
theory Magus_Prelude
  imports Main "HOL-Library.Char_ord" "HOL-Library.List_Lexorder" "HOL-Library.Product_Lexorder"
    "HOL-Library.Signed_Division"
begin

text \<open>
  What every component of the development shares: the names of Go's basic types and
  errors, the Go library functions the source calls on slices and strings, and the
  generic lemmas on lists, counters and finite relations the component proofs rest on.

  Go's \<open>int\<close>, \<open>int32\<close> and \<open>int64\<close> are \<open>int\<close> or \<open>nat\<close> where
  the code's own bounds keep them far from the width (node ids, slot counts, durations); where
  a caller's number enters a sum that nothing bounds, the sum goes through \<open>wrap64\<close>;
  where the code works on the bits of a word it is a \<open>64 word\<close>.
\<close>

named_theorems invariant_intros
  \<open>facts that an operation of a component keeps the component's invariant\<close>

type_synonym path = string
type_synonym nanos = int

text \<open>Arithmetic on Go's 64-bit \<open>int\<close>, where a sum may leave its range: it wraps round.\<close>

definition wrap64 :: "int \<Rightarrow> int" where
  "wrap64 x = (x + 2 ^ 63) mod 2 ^ 64 - 2 ^ 63"

lemma wrap64_id: "- (2 ^ 63) \<le> x \<Longrightarrow> x < 2 ^ 63 \<Longrightarrow> wrap64 x = x"
  by (simp add: wrap64_def)

lemma wrap64_over: "2 ^ 63 \<le> x \<Longrightarrow> x < 2 ^ 64 \<Longrightarrow> wrap64 x = x - 2 ^ 64"
proof -
  assume x: "2 ^ 63 \<le> x" "x < 2 ^ 64"
  have "(x + 2 ^ 63) mod 2 ^ 64 = (x + 2 ^ 63 - 2 ^ 64) mod 2 ^ 64" by (rule minus_mod_self2 [symmetric])
  also have "\<dots> = x + 2 ^ 63 - 2 ^ 64" using x by (intro mod_pos_pos_trivial) simp_all
  finally show ?thesis by (simp add: wrap64_def)
qed

section \<open>Go's slices\<close>

text \<open>\<open>slices.Compact\<close> drops each element equal to the one before it.\<close>

abbreviation compact :: "'a list \<Rightarrow> 'a list" where
  "compact \<equiv> remdups_adj"

text \<open>\<open>slices.Delete(s, i, i+1)\<close> and \<open>slices.Insert(s, i, x)\<close>.\<close>

definition delete_at :: "nat \<Rightarrow> 'a list \<Rightarrow> 'a list" where
  "delete_at i xs = take i xs @ drop (Suc i) xs"

definition insert_at :: "nat \<Rightarrow> 'a \<Rightarrow> 'a list \<Rightarrow> 'a list" where
  "insert_at i x xs = take i xs @ x # drop i xs"

text \<open>\<open>slices.IndexFunc\<close>: the first index where the test holds, \<open>None\<close> for -1.\<close>

fun index_func :: "('a \<Rightarrow> bool) \<Rightarrow> 'a list \<Rightarrow> nat option" where
  "index_func p [] = None"
| "index_func p (x # xs) = (if p x then Some 0 else map_option Suc (index_func p xs))"

lemma index_func_Some:
  "index_func p xs = Some i \<Longrightarrow>
    i < length xs \<and> p (xs ! i) \<and> (\<forall>x \<in> set (take i xs). \<not> p x)"
  by (induction xs arbitrary: i) (auto split: if_splits)

lemma index_func_None: "index_func p xs = None \<longleftrightarrow> (\<forall>x \<in> set xs. \<not> p x)"
  by (induction xs) auto

lemma set_map_filter_iff: "set (List.map_filter f xs) = {y. \<exists>x \<in> set xs. f x = Some y}"
  by (force simp: List.map_filter_def)

lemma length_delete_at [simp]: "i < length xs \<Longrightarrow> length (delete_at i xs) = length xs - 1"
  by (simp add: delete_at_def)

lemma set_delete_at: "set (delete_at i xs) \<subseteq> set xs"
  by (auto simp: delete_at_def dest: in_set_takeD in_set_dropD)

lemma length_insert_at [simp]: "i \<le> length xs \<Longrightarrow> length (insert_at i x xs) = Suc (length xs)"
  by (simp add: insert_at_def)

lemma set_insert_at [simp]: "set (insert_at i x xs) = insert x (set xs)"
proof -
  have "set xs = set (take i xs) \<union> set (drop i xs)"
    by (metis append_take_drop_id set_append)
  then show ?thesis by (auto simp: insert_at_def)
qed

lemma distinct_insert_at: "distinct (insert_at i x xs) \<longleftrightarrow> x \<notin> set xs \<and> distinct xs"
proof -
  have "distinct (as @ x # bs) \<longleftrightarrow> distinct (x # (as @ bs))" for as bs by auto
  then have "distinct (insert_at i x xs) \<longleftrightarrow> distinct (x # (take i xs @ drop i xs))"
    unfolding insert_at_def .
  then show ?thesis by (simp only: append_take_drop_id distinct.simps)
qed

lemma distinct_delete_at: "distinct xs \<Longrightarrow> distinct (delete_at i xs)"
proof -
  assume d: "distinct xs"
  then have "set (take i xs) \<inter> set (drop (Suc i) xs) = {}"
    using set_take_disj_set_drop_if_distinct [OF d, of i "Suc i"] by simp
  with d show ?thesis by (simp add: delete_at_def)
qed

text \<open>\<open>strings.Join\<close>.\<close>

fun strings_join :: "string \<Rightarrow> string list \<Rightarrow> string" where
  "strings_join sep [] = ''''"
| "strings_join sep [x] = x"
| "strings_join sep (x # xs) = x @ sep @ strings_join sep xs"

section \<open>Sorting\<close>

lemma sorted_list_of_setI: "sorted xs \<Longrightarrow> distinct xs \<Longrightarrow> set xs = A \<Longrightarrow> xs = sorted_list_of_set A"
  by (rule sorted_distinct_set_unique) auto

lemma distinct_compact: "sorted xs \<Longrightarrow> distinct (compact xs)"
  by (induction xs rule: remdups_adj.induct) auto

lemma compact_sort: "set (compact (sort xs)) = set xs" "distinct (compact (sort xs))"
  "sorted (compact (sort xs))"
  by (simp_all add: distinct_compact sorted_remdups_adj)

text \<open>A loop that keeps the least element that passes a test.\<close>

lemma foldl_least_None:
  "foldl (\<lambda>f t. if P t \<and> (case f of None \<Rightarrow> True | Some g \<Rightarrow> t < g) then Some t else f) acc ts = None \<longleftrightarrow>
    acc = None \<and> (\<forall>t \<in> set ts. \<not> P t)"
  by (induction ts arbitrary: acc) (auto split: option.splits)

lemma foldl_least_Some:
  fixes r :: "'a::linorder"
  assumes "foldl (\<lambda>f t. if P t \<and> (case f of None \<Rightarrow> True | Some g \<Rightarrow> t < g) then Some t else f) acc ts = Some r"
  shows "(acc = Some r \<or> r \<in> set ts \<and> P r) \<and> (\<forall>t \<in> set ts. P t \<longrightarrow> r \<le> t) \<and> (\<forall>g. acc = Some g \<longrightarrow> r \<le> g)"
  using assms
proof (induction ts arbitrary: acc)
  case (Cons t ts)
  let ?acc = "if P t \<and> (case acc of None \<Rightarrow> True | Some g \<Rightarrow> t < g) then Some t else acc"
  have "foldl (\<lambda>f t. if P t \<and> (case f of None \<Rightarrow> True | Some g \<Rightarrow> t < g) then Some t else f) ?acc ts = Some r"
    using Cons.prems by simp
  from Cons.IH [OF this] show ?case by (auto split: if_splits option.splits)
qed simp

section \<open>Prefix sums\<close>

lemma sum_list_take_Suc:
  "i < length xs \<Longrightarrow> sum_list (take (Suc i) xs) = sum_list (take i xs) + (xs ! i :: nat)"
  by (simp add: take_Suc_conv_app_nth)

lemma sum_list_take_le: "sum_list (take i xs) \<le> sum_list (xs :: nat list)"
  by (metis append_take_drop_id le_add1 sum_list_append)

section \<open>Integer division\<close>

lemma le_div_iff_int: "0 < d \<Longrightarrow> k \<le> x div d \<longleftrightarrow> k * d \<le> x" for d :: int
proof
  assume d: "0 < d" and "k \<le> x div d"
  then have "k * d \<le> x div d * d" by (intro mult_right_mono) auto
  also have "\<dots> \<le> x" using d div_mult_mod_eq [of x d] pos_mod_sign [of d x] by linarith
  finally show "k * d \<le> x" .
next
  assume d: "0 < d" and "k * d \<le> x"
  then have "k * d div d \<le> x div d" by (intro zdiv_mono1)
  then show "k \<le> x div d" using d by simp
qed

lemma sdiv_nonneg: "0 \<le> a \<Longrightarrow> 0 < b \<Longrightarrow> a sdiv b = a div b" for b :: int
  by (cases "a = 0") (auto simp: signed_divide_int_def sgn_if)

section \<open>Decimal numbers\<close>

text \<open>\<open>strconv.Itoa\<close> and the \<open>%d\<close> of \<open>fmt\<close>.\<close>

definition digit :: "nat \<Rightarrow> char" where
  "digit n = ''0123456789'' ! n"

fun show_nat :: "nat \<Rightarrow> string" where
  "show_nat n = (if n < 10 then [digit n] else show_nat (n div 10) @ [digit (n mod 10)])"

declare show_nat.simps [simp del]

definition show_int :: "int \<Rightarrow> string" where
  "show_int i = (if i < 0 then CHR ''-'' # show_nat (nat (- i)) else show_nat (nat i))"

definition digit_value :: "char \<Rightarrow> nat" where
  "digit_value c = of_char c - 48"

definition read_nat :: "string \<Rightarrow> nat" where
  "read_nat s = foldl (\<lambda>n c. 10 * n + digit_value c) 0 s"

lemma less_10_cases: "n < 10 \<Longrightarrow> n \<in> {0, 1, 2, 3, 4, 5, 6, 7, 8, 9::nat}"
  by auto

lemma digit_value_digit: "n < 10 \<Longrightarrow> digit_value (digit n) = n"
  by (drule less_10_cases) (auto simp: digit_def digit_value_def)

definition digit_char :: "char \<Rightarrow> bool" where
  "digit_char c \<longleftrightarrow> 48 \<le> (of_char c :: nat) \<and> (of_char c :: nat) \<le> 57"

lemma digit_char_digit: "n < 10 \<Longrightarrow> digit_char (digit n)"
  by (drule less_10_cases) (auto simp: digit_def digit_char_def)

lemma read_show_nat [simp]: "read_nat (show_nat n) = n"
proof (induction n rule: show_nat.induct)
  case (1 n)
  then show ?case
    by (subst show_nat.simps) (auto simp: read_nat_def digit_value_digit)
qed

lemma show_nat_inj [simp]: "show_nat m = show_nat n \<longleftrightarrow> m = n"
  by (metis read_show_nat)

lemma show_nat_chars: "list_all digit_char (show_nat n)"
proof (induction n rule: show_nat.induct)
  case (1 n)
  then show ?case by (subst show_nat.simps) (simp add: digit_char_digit)
qed

lemma show_nat_ne [simp]: "show_nat n \<noteq> []"
  by (subst show_nat.simps) simp

lemma minus_show_nat [simp]: "CHR ''-'' # s \<noteq> show_nat n" "show_nat n \<noteq> CHR ''-'' # s"
proof -
  show "CHR ''-'' # s \<noteq> show_nat n"
  proof
    assume "CHR ''-'' # s = show_nat n"
    then have "list_all digit_char (CHR ''-'' # s)" using show_nat_chars [of n] by simp
    then show False by (simp add: digit_char_def)
  qed
  then show "show_nat n \<noteq> CHR ''-'' # s" by metis
qed

lemma show_int_chars: "list_all (\<lambda>c. digit_char c \<or> c = CHR ''-'') (show_int i)"
  using show_nat_chars by (simp add: show_int_def list_all_iff)

lemma show_int_inj [simp]: "show_int i = show_int j \<longleftrightarrow> i = j"
  by (auto simp: show_int_def)

text \<open>Two fields joined by a separator neither first field holds are told apart.\<close>

lemma separator_inj:
  assumes "list_all P xs" "list_all P ys" "\<not> P c" "xs @ c # us = ys @ c # vs"
  shows "xs = ys \<and> us = vs"
proof -
  have "takeWhile P (xs @ c # us) = xs" "takeWhile P (ys @ c # vs) = ys"
    using assms(1-3) by (simp_all add: list_all_iff takeWhile_tail)
  then have "xs = ys" using assms(4) by simp
  with assms(4) show ?thesis by simp
qed

section \<open>Counting marks in an array\<close>

text \<open>
  The termination measure of the worklist loops: an update changes how many entries
  satisfy \<open>P\<close> by the entry that changed only.
\<close>

lemma length_filter_update:
  "i < length xs \<Longrightarrow>
    length (filter P (xs[i := y])) + (if P (xs ! i) then 1 else 0) =
    length (filter P xs) + (if P y then 1 else 0)"
proof (induction xs arbitrary: i)
  case (Cons x xs)
  then show ?case by (cases i) (force split: if_splits)+
qed simp

section \<open>Finite relations\<close>

text \<open>A finite set closed under predecessors holds a cycle.\<close>

lemma pred_closed_cyclic:
  assumes fin: "finite S" and ne: "S \<noteq> {}"
    and pred: "\<And>w. w \<in> S \<Longrightarrow> \<exists>v \<in> S. (v, w) \<in> E"
  shows "\<not> acyclic E"
proof
  assume "acyclic E"
  then have ac: "acyclic (E \<inter> S \<times> S)" by (rule acyclic_subset) auto
  have "finite (E \<inter> S \<times> S)" using fin by auto
  then have "wf (E \<inter> S \<times> S)" using ac by (rule finite_acyclic_wf)
  then obtain z where "z \<in> S" and "\<And>y. (y, z) \<in> E \<inter> S \<times> S \<Longrightarrow> y \<notin> S"
    using ne by (metis wfE_min ex_in_conv)
  then show False using pred [of z] by blast
qed

text \<open>An order in which every predecessor of an element stands before it.\<close>

definition topo_sorted :: "('a \<times> 'a) set \<Rightarrow> 'a list \<Rightarrow> bool" where
  "topo_sorted E xs \<longleftrightarrow> (\<forall>i < length xs. \<forall>v. (v, xs ! i) \<in> E \<longrightarrow> v \<in> set (take i xs))"

lemma topo_sorted_snoc:
  "topo_sorted E xs \<Longrightarrow> (\<And>v. (v, x) \<in> E \<Longrightarrow> v \<in> set xs) \<Longrightarrow> topo_sorted E (xs @ [x])"
  by (auto simp: topo_sorted_def nth_append less_Suc_eq)

lemma topo_sorted_Nil [simp]: "topo_sorted E []"
  by (simp add: topo_sorted_def)

lemma topo_sorted_rev:
  assumes ts: "topo_sorted E xs" and d: "distinct xs" and E: "E \<subseteq> set xs \<times> set xs"
  shows "topo_sorted (E\<inverse>) (rev xs)"
  unfolding topo_sorted_def
proof (intro allI impI)
  fix i v assume i: "i < length (rev xs)" and vE: "(v, rev xs ! i) \<in> E\<inverse>"
  let ?j = "length xs - Suc i"
  have x: "rev xs ! i = xs ! ?j" using i by (simp add: rev_nth)
  have "v \<in> set xs" using vE E by blast
  then obtain k where k: "k < length xs" "xs ! k = v" by (auto simp: in_set_conv_nth)
  with vE x ts have "xs ! ?j \<in> set (take k xs)" by (auto simp: topo_sorted_def)
  then obtain m where m: "m < k" "xs ! m = xs ! ?j" using k by (auto simp: in_set_conv_nth)
  have "m = ?j" using m k i d by (metis diff_less length_rev less_trans nth_eq_iff_index_eq
        gr_implies_not_zero neq0_conv zero_less_Suc)
  with m have "?j < k" by simp
  then have "rev xs ! (length xs - Suc k) = v" "length xs - Suc k < i"
    using k i by (auto simp: rev_nth)
  then show "v \<in> set (take i (rev xs))" using i by (auto simp: in_set_conv_nth)
qed

lemma topo_sorted_acyclic:
  assumes ts: "topo_sorted E xs" and d: "distinct xs" and E: "E \<subseteq> set xs \<times> set xs"
  shows "acyclic E"
proof -
  let ?pos = "\<lambda>v. LEAST i. i < length xs \<and> xs ! i = v"
  have pos: "?pos (xs ! i) = i" if "i < length xs" for i
    using that d by (intro Least_equality) (auto simp: nth_eq_iff_index_eq)
  have "E \<subseteq> measure ?pos"
  proof safe
    fix v w assume vw: "(v, w) \<in> E"
    then have "w \<in> set xs" using E by blast
    then obtain i where i: "i < length xs" "xs ! i = w" by (auto simp: in_set_conv_nth)
    with ts vw have "v \<in> set (take i xs)" by (auto simp: topo_sorted_def)
    then obtain j where "j < i" "xs ! j = v" using i by (auto simp: in_set_conv_nth)
    with i pos [of i] pos [of j] show "(v, w) \<in> measure ?pos" by auto
  qed
  then show ?thesis by (meson wf_acyclic wf_measure wf_subset)
qed

end
