(* ===== verification/Dep_Graph.thy ===== *)
theory Dep_Graph
  imports Magus_Prelude
begin

text \<open>
  The project dependency graph, \<open>src/internal/graph/dependency/graph.go\<close>: the
  \<open>Builder\<close> that accumulates nodes and edges, and \<open>Build\<close>, which renumbers the
  nodes in lexicographic order, detects cycles with Kahn's algorithm and freezes the
  adjacency into compressed sparse rows. Observers and timings report on a build and
  decide nothing, so they are left out. An \<open>ID\<close> is an \<open>int\<close> at the interface,
  where a caller may pass any \<open>int32\<close>, and a \<open>nat\<close> inside the arrays.
\<close>

section \<open>The builder\<close>

definition NoID :: int where
  "NoID = -1"

datatype edge_error =
    SelfLoop path          \<comment> \<open>\<open>self-loop on ...\<close>\<close>
  | FromOutOfRange int     \<comment> \<open>\<open>from id ... out of range\<close>\<close>
  | ToOutOfRange int       \<comment> \<open>\<open>to id ... out of range\<close>\<close>
  | IndexPanic             \<comment> \<open>the run-time panic of a negative slice index\<close>

record builder =
  pathToBuilderID :: "path \<rightharpoonup> nat"
  builderPaths :: "path list"
  rawEdges :: "(nat \<times> nat) list"
  edgeSeen :: "(nat \<times> nat) set"

definition new_builder :: builder where
  "new_builder = \<lparr>pathToBuilderID = Map.empty, builderPaths = [], rawEdges = [], edgeSeen = {}\<rparr>"

definition add_node :: "builder \<Rightarrow> path \<Rightarrow> builder \<times> int" where
  "add_node b p =
     (case pathToBuilderID b p of
        Some i \<Rightarrow> (b, int i)
      | None \<Rightarrow>
          let i = length (builderPaths b)
          in (b\<lparr>pathToBuilderID := (pathToBuilderID b)(p \<mapsto> i),
                builderPaths := builderPaths b @ [p]\<rparr>, int i))"

definition add_edge :: "builder \<Rightarrow> int \<Rightarrow> int \<Rightarrow> edge_error + builder" where
  "add_edge b from to =
     (let n = int (length (builderPaths b))
      in if from = to then
           (if from < n
            then (if from < 0 then Inl IndexPanic else Inl (SelfLoop (builderPaths b ! nat from)))
            else Inl (SelfLoop ''''))
         else if from \<ge> n \<or> from < 0 then Inl (FromOutOfRange from)
         else if to \<ge> n \<or> to < 0 then Inl (ToOutOfRange to)
         else if (nat from, nat to) \<in> edgeSeen b then Inr b
         else Inr (b\<lparr>edgeSeen := insert (nat from, nat to) (edgeSeen b),
                     rawEdges := rawEdges b @ [(nat from, nat to)]\<rparr>))"

text \<open>What \<open>AddNode\<close> and \<open>AddEdge\<close> keep of a builder.\<close>

definition wf_builder :: "builder \<Rightarrow> bool" where
  "wf_builder b \<longleftrightarrow>
     distinct (builderPaths b) \<and>
     (\<forall>p i. pathToBuilderID b p = Some i \<longleftrightarrow> i < length (builderPaths b) \<and> builderPaths b ! i = p) \<and>
     edgeSeen b = set (rawEdges b) \<and> distinct (rawEdges b) \<and>
     (\<forall>(f, t) \<in> set (rawEdges b). f < length (builderPaths b) \<and> t < length (builderPaths b) \<and> f \<noteq> t)"

text \<open>The edges a builder stands for, between paths.\<close>

definition builder_edges :: "builder \<Rightarrow> (path \<times> path) set" where
  "builder_edges b = (\<lambda>(f, t). (builderPaths b ! f, builderPaths b ! t)) ` set (rawEdges b)"

lemma wf_new_builder [invariant_intros]: "wf_builder new_builder"
  by (simp add: wf_builder_def new_builder_def)

lemma wf_add_node [invariant_intros]:
  assumes "wf_builder b"
  shows "wf_builder (fst (add_node b p))"
proof (cases "pathToBuilderID b p")
  case None
  then have new: "p \<notin> set (builderPaths b)"
    using assms unfolding wf_builder_def in_set_conv_nth by (metis option.distinct(1))
  have ids: "pathToBuilderID b q = Some i \<longleftrightarrow> i < length (builderPaths b) \<and> builderPaths b ! i = q" for q i
    using assms by (simp add: wf_builder_def)
  have "((pathToBuilderID b)(p \<mapsto> length (builderPaths b))) q = Some i \<longleftrightarrow>
      i < Suc (length (builderPaths b)) \<and> (builderPaths b @ [p]) ! i = q" for q i
    using new ids [of q i] by (auto simp: nth_append less_Suc_eq in_set_conv_nth)
  with None new assms show ?thesis
    by (auto simp: add_node_def wf_builder_def Let_def less_Suc_eq)
qed (simp add: add_node_def assms)

lemma wf_add_edge [invariant_intros]:
  "wf_builder b \<Longrightarrow> add_edge b f t = Inr b' \<Longrightarrow> wf_builder b'"
  by (auto simp: add_edge_def wf_builder_def Let_def split: if_splits)

lemma builder_edges_add_edge:
  assumes "wf_builder b" "add_edge b f t = Inr b'"
  shows "builder_edges b' = insert (builderPaths b ! nat f, builderPaths b ! nat t) (builder_edges b)"
  using assms by (auto simp: add_edge_def builder_edges_def wf_builder_def Let_def split: if_splits)

lemma builder_edges_add_node:
  assumes "wf_builder b"
  shows "builder_edges (fst (add_node b p)) = builder_edges b"
proof (cases "pathToBuilderID b p")
  case None
  have "(builderPaths b @ [p]) ! f = builderPaths b ! f \<and> (builderPaths b @ [p]) ! t = builderPaths b ! t"
    if "(f, t) \<in> set (rawEdges b)" for f t
    using assms that by (auto simp: wf_builder_def nth_append)
  with None show ?thesis
    by (auto simp: add_node_def builder_edges_def Let_def intro!: image_cong)
qed (simp add: add_node_def)

section \<open>The frozen graph\<close>

record graph =
  gn :: nat
  idByPath :: "path \<rightharpoonup> nat"
  pathByID :: "path list"
  fwdOff :: "nat list"
  fwdT :: "nat list"
  revOff :: "nat list"
  revT :: "nat list"
  topo :: "nat list"

text \<open>\<open>idByPath[p] = ID(lexIdx)\<close> over the sorted paths.\<close>

definition number_paths :: "path list \<Rightarrow> (path \<rightharpoonup> nat)" where
  "number_paths ps = foldl (\<lambda>m (i, p). m(p \<mapsto> i)) Map.empty (enumerate 0 ps)"

text \<open>Go's map read: the zero value for a key that is absent.\<close>

definition id_or_zero :: "(path \<rightharpoonup> nat) \<Rightarrow> path \<Rightarrow> nat" where
  "id_or_zero m p = (case m p of Some i \<Rightarrow> i | None \<Rightarrow> 0)"

definition renumber_edges :: "builder \<Rightarrow> (path \<rightharpoonup> nat) \<Rightarrow> (nat \<times> nat) list" where
  "renumber_edges b m =
     map (\<lambda>(f, t). (id_or_zero m (builderPaths b ! f), id_or_zero m (builderPaths b ! t))) (rawEdges b)"

text \<open>The adjacency rows: appended in edge order, then sorted and compacted.\<close>

definition append_row :: "nat list list \<Rightarrow> nat \<Rightarrow> nat \<Rightarrow> nat list list" where
  "append_row rows v w = rows[v := rows ! v @ [w]]"

definition fwd_rows :: "nat \<Rightarrow> (nat \<times> nat) list \<Rightarrow> nat list list" where
  "fwd_rows n es =
     map (\<lambda>r. if length r > 1 then compact (sort r) else r)
       (foldl (\<lambda>rows (f, t). append_row rows f t) (replicate n []) es)"

definition rev_rows :: "nat \<Rightarrow> nat list list \<Rightarrow> nat list list" where
  "rev_rows n fwd =
     map (\<lambda>r. if length r > 1 then sort r else r)
       (foldl (\<lambda>rows v. foldl (\<lambda>rows w. append_row rows w v) rows (fwd ! v))
          (replicate n []) [0..<n])"

text \<open>Kahn's algorithm. \<open>in_degrees\<close> counts each node's incoming edges.\<close>

definition in_degrees :: "nat \<Rightarrow> nat list list \<Rightarrow> int list" where
  "in_degrees n fwd =
     foldl (\<lambda>d v. foldl (\<lambda>d w. d[w := d ! w + 1]) d (fwd ! v)) (replicate n 0) [0..<n]"

text \<open>
  One edge of a dequeued node: its target loses an incoming edge and is queued once it
  has none. The target is below \<open>n\<close> in every row the builder makes (Go would panic on
  another), which \<open>kahn\<close> needs to end.
\<close>

definition relax :: "int list \<times> nat list \<Rightarrow> nat \<Rightarrow> int list \<times> nat list" where
  "relax s w =
     (case s of (d, q) \<Rightarrow>
        if w < length d then
          (let d' = d[w := d ! w - 1] in (d', if d' ! w = 0 then q @ [w] else q))
        else s)"

text \<open>
  The main loop: \<open>q\<close> is the queue from \<open>head\<close> on, \<open>out\<close> the order so far.
\<close>

definition pending_degrees :: "int list \<Rightarrow> nat" where
  "pending_degrees d = length (filter (\<lambda>x. 0 < x) d)"

lemma relax_measure:
  "relax (d, q) w = (d', q') \<Longrightarrow>
    pending_degrees d' + length q' \<le> pending_degrees d + length q"
proof -
  assume r: "relax (d, q) w = (d', q')"
  show ?thesis
  proof (cases "w < length d")
    case True
    then obtain as x bs where d: "d = as @ x # bs" "w = length as"
      by (metis id_take_nth_drop length_take min.absorb4)
    with r have "d' = as @ (x - 1) # bs" "q' = (if x - 1 = 0 then q @ [w] else q)"
      by (auto simp: relax_def Let_def split: if_splits)
    then show ?thesis by (simp add: d pending_degrees_def)
  qed (use r in \<open>simp add: relax_def\<close>)
qed

lemma relax_row_measure:
  "foldl relax (d, q) ws = (d', q') \<Longrightarrow>
    pending_degrees d' + length q' \<le> pending_degrees d + length q"
proof (induction ws arbitrary: d q)
  case (Cons w ws)
  obtain d1 q1 where s1: "relax (d, q) w = (d1, q1)" by force
  with Cons.prems have "foldl relax (d1, q1) ws = (d', q')" by simp
  from Cons.IH [OF this] relax_measure [OF s1] show ?case by linarith
qed simp

function kahn :: "nat list list \<Rightarrow> int list \<Rightarrow> nat list \<Rightarrow> nat list \<Rightarrow> nat list" where
  "kahn fwd d [] out = out"
| "kahn fwd d (v # q) out =
     (case foldl relax (d, q) (fwd ! v) of (d', q') \<Rightarrow> kahn fwd d' q' (out @ [v]))"
  by pat_completeness auto
termination
  by (relation "measure (\<lambda>(fwd, d, q, out). pending_degrees d + length q)")
     (auto dest!: relax_row_measure [OF sym])

definition kahn_order :: "nat \<Rightarrow> nat list list \<Rightarrow> nat list" where
  "kahn_order n fwd =
     (let d = in_degrees n fwd in kahn fwd d (filter (\<lambda>v. d ! v = 0) [0..<n]) [])"

text \<open>Compressed sparse rows: row \<open>i\<close> occupies \<open>tgt\<close> from \<open>off[i]\<close> to \<open>off[i+1]\<close>.\<close>

fun csr_offsets :: "nat \<Rightarrow> nat list list \<Rightarrow> nat list" where
  "csr_offsets acc [] = [acc]"
| "csr_offsets acc (r # rs) = acc # csr_offsets (acc + length r) rs"

definition fill_row :: "nat list \<Rightarrow> nat \<Rightarrow> nat list \<Rightarrow> nat list" where
  "fill_row tgt base r = foldl (\<lambda>t (j, w). t[base + j := w]) tgt (enumerate 0 r)"

definition build_csr :: "nat list list \<Rightarrow> nat list \<times> nat list" where
  "build_csr adj =
     (let off = csr_offsets 0 adj;
          tgt = foldl (\<lambda>t (i, r). fill_row t (off ! i) r) (replicate (last off) 0) (enumerate 0 adj)
      in (off, tgt))"

datatype build_error = ErrCycle

definition empty_graph :: graph where
  "empty_graph = \<lparr>gn = 0, idByPath = Map.empty, pathByID = [], fwdOff = [], fwdT = [],
     revOff = [], revT = [], topo = []\<rparr>"

definition build :: "builder \<Rightarrow> build_error + graph" where
  "build b =
     (let n = length (builderPaths b)
      in if n = 0 then Inr empty_graph
         else
           let sorted_paths = sort (builderPaths b);
               ids = number_paths sorted_paths;
               fwd = fwd_rows n (renumber_edges b ids);
               rev = rev_rows n fwd;
               order = kahn_order n fwd
           in if length order \<noteq> n then Inl ErrCycle
              else case build_csr fwd of (fo, ft) \<Rightarrow>
                   case build_csr rev of (ro, rt) \<Rightarrow>
                     Inr \<lparr>gn = n, idByPath = ids, pathByID = sorted_paths, fwdOff = fo, fwdT = ft,
                          revOff = ro, revT = rt, topo = order\<rparr>)"

section \<open>Reading the graph\<close>

definition graph_id :: "graph \<Rightarrow> path \<Rightarrow> nat option" where
  "graph_id g p = idByPath g p"

definition graph_path :: "graph \<Rightarrow> int \<Rightarrow> path option" where
  "graph_path g i = (if i < 0 \<or> i \<ge> int (gn g) then None else Some (pathByID g ! nat i))"

definition csr_row :: "nat list \<Rightarrow> nat list \<Rightarrow> nat \<Rightarrow> nat list" where
  "csr_row off tgt v = map (\<lambda>i. tgt ! i) [off ! v ..< off ! Suc v]"

definition graph_nodes :: "graph \<Rightarrow> nat list" where
  "graph_nodes g = [0..<gn g]"

definition successors :: "graph \<Rightarrow> int \<Rightarrow> nat list" where
  "successors g i = (if i < 0 \<or> i \<ge> int (gn g) then [] else csr_row (fwdOff g) (fwdT g) (nat i))"

definition predecessors :: "graph \<Rightarrow> int \<Rightarrow> nat list" where
  "predecessors g i = (if i < 0 \<or> i \<ge> int (gn g) then [] else csr_row (revOff g) (revT g) (nat i))"

definition topo_order :: "graph \<Rightarrow> nat list" where
  "topo_order g = topo g"

end
