(* ===== verification/Dep_Graph_Correct.thy ===== *)
theory Dep_Graph_Correct
  imports Dep_Graph
begin

text \<open>
  What \<open>Build\<close> promises: the rows of the frozen graph are the builder's edges, the
  order it stores puts a dependent before its dependencies, and it fails exactly when
  the edges hold a cycle.
\<close>

section \<open>The adjacency rows\<close>

lemma length_append_rows [simp]:
  "length (foldl (\<lambda>rows (f, t). append_row rows f t) rows es) = length rows"
  by (induction es arbitrary: rows) (auto simp: append_row_def split: prod.split)

lemma append_rows_nth:
  assumes "v < length rows"
  shows "foldl (\<lambda>rows (f, t). append_row rows f t) rows es ! v =
    rows ! v @ map snd (filter (\<lambda>e. fst e = v) es)"
  using assms
  by (induction es arbitrary: rows) (auto simp: append_row_def nth_list_update split: prod.split)

lemma length_fwd_rows [simp]: "length (fwd_rows n es) = n"
  by (simp add: fwd_rows_def)

lemma fwd_rows_nth:
  assumes "v < n"
  shows "set (fwd_rows n es ! v) = {w. (v, w) \<in> set es}"
    and "distinct (fwd_rows n es ! v)" and "sorted (fwd_rows n es ! v)"
proof -
  let ?r = "map snd (filter (\<lambda>e. fst e = v) es)"
  have row: "fwd_rows n es ! v = (if length ?r > 1 then compact (sort ?r) else ?r)"
    using assms by (simp add: fwd_rows_def append_rows_nth)
  have short: "distinct xs \<and> sorted xs" if "\<not> length xs > 1" for xs :: "nat list"
    using that by (cases xs; cases "tl xs") auto
  show "set (fwd_rows n es ! v) = {w. (v, w) \<in> set es}" unfolding row by force
  show "distinct (fwd_rows n es ! v)" and "sorted (fwd_rows n es ! v)"
    using short [of ?r] compact_sort [of ?r] unfolding row by (auto split: if_splits)
qed

lemma nested_append_rows:
  "foldl (\<lambda>rows v. foldl (\<lambda>rows w. append_row rows w v) rows (fwd v)) rows vs =
   foldl (\<lambda>rows (f, t). append_row rows f t) rows (concat (map (\<lambda>v. map (\<lambda>w. (w, v)) (fwd v)) vs))"
  by (induction vs arbitrary: rows) (simp_all add: foldl_map)

lemma length_rev_rows [simp]: "length (rev_rows n fwd) = n"
  by (simp add: rev_rows_def nested_append_rows)

lemma filter_pairs: "filter (\<lambda>e. fst e = w) (map (\<lambda>x. (x, v)) xs) = map (\<lambda>x. (x, v)) (filter (\<lambda>x. x = w) xs)"
  by (induction xs) auto

lemma distinct_filter_eq:
  "distinct xs \<Longrightarrow> filter (\<lambda>x. x = w) xs = (if w \<in> set xs then [w] else [])"
  by (induction xs) auto

lemma rev_rows_nth:
  assumes "w < n" and d: "\<And>v. v < n \<Longrightarrow> distinct (fwd ! v)"
  shows "rev_rows n fwd ! w = filter (\<lambda>v. w \<in> set (fwd ! v)) [0..<n]"
proof -
  have "map snd (filter (\<lambda>e. fst e = w) (concat (map (\<lambda>v. map (\<lambda>w. (w, v)) (fwd ! v)) vs))) =
      filter (\<lambda>v. w \<in> set (fwd ! v)) vs" if "set vs \<subseteq> {..<n}" for vs
    using that by (induction vs) (auto simp: filter_pairs distinct_filter_eq d)
  from this [of "[0..<n]"]
  have "map snd (filter (\<lambda>e. fst e = w) (concat (map (\<lambda>v. map (\<lambda>w. (w, v)) (fwd ! v)) [0..<n]))) =
      filter (\<lambda>v. w \<in> set (fwd ! v)) [0..<n]" by (simp add: atLeast_upt)
  with assms(1) show ?thesis
    by (auto simp: rev_rows_def nested_append_rows append_rows_nth intro!: sorted_sort_id sorted_wrt_filter)
qed

section \<open>Kahn's algorithm\<close>

lemma length_in_degree_row [simp]: "length (foldl (\<lambda>d w. d[w := d ! w + 1]) d ws) = length d"
  by (induction ws arbitrary: d) auto

lemma in_degree_row:
  "w < length d \<Longrightarrow>
    foldl (\<lambda>d w. d[w := d ! w + 1]) d ws ! w = d ! w + int (count_list ws w)"
  by (induction ws arbitrary: d) (auto simp: nth_list_update)

lemma count_list_distinct: "distinct xs \<Longrightarrow> count_list xs w = (if w \<in> set xs then 1 else 0)"
  by (induction xs) (auto simp: count_notin)

lemma in_degrees_fold:
  assumes "w < length d" and "\<And>v. v \<in> set vs \<Longrightarrow> distinct (fwd ! v)" and "distinct vs"
  shows "foldl (\<lambda>d v. foldl (\<lambda>d w. d[w := d ! w + 1]) d (fwd ! v)) d vs ! w =
    d ! w + int (card {v \<in> set vs. w \<in> set (fwd ! v)})"
  using assms
proof (induction vs arbitrary: d)
  case (Cons v vs)
  have one: "count_list (fwd ! v) w = (if w \<in> set (fwd ! v) then 1 else 0)"
    using Cons.prems(2) [of v] by (simp add: count_list_distinct)
  have "{u \<in> set (v # vs). w \<in> set (fwd ! u)} =
      (if w \<in> set (fwd ! v) then insert v {u \<in> set vs. w \<in> set (fwd ! u)}
       else {u \<in> set vs. w \<in> set (fwd ! u)})" by auto
  then have "card {u \<in> set (v # vs). w \<in> set (fwd ! u)} =
      (if w \<in> set (fwd ! v) then 1 else 0) + card {u \<in> set vs. w \<in> set (fwd ! u)}"
    using Cons.prems(3) by simp
  with Cons one show ?case by (simp add: in_degree_row)
qed simp

lemma length_in_degrees [simp]: "length (in_degrees n fwd) = n"
proof -
  have "length (foldl (\<lambda>d v. foldl (\<lambda>d w. d[w := d ! w + 1]) d (fwd ! v)) d vs) = length d" for d :: "int list" and vs
    by (induction vs arbitrary: d) auto
  then show ?thesis by (simp add: in_degrees_def)
qed

lemma in_degrees_nth:
  "w < n \<Longrightarrow> (\<And>v. v < n \<Longrightarrow> distinct (fwd ! v)) \<Longrightarrow>
    in_degrees n fwd ! w = int (card {v. v < n \<and> w \<in> set (fwd ! v)})"
  unfolding in_degrees_def
  by (subst in_degrees_fold) (auto intro!: arg_cong [where f = card])

text \<open>Relaxing a whole row of distinct targets.\<close>

lemma relax_row:
  assumes "foldl relax (d, q) ws = (d', q')" and "distinct ws" and "set ws \<subseteq> {..<length d}"
  shows "length d' = length d"
    and "\<And>w. w < length d \<Longrightarrow> d' ! w = d ! w - (if w \<in> set ws then 1 else 0)"
    and "q' = q @ filter (\<lambda>w. d' ! w = 0) ws"
proof -
  have "length d' = length d \<and>
    (\<forall>w < length d. d' ! w = d ! w - (if w \<in> set ws then 1 else 0)) \<and>
    q' = q @ filter (\<lambda>w. d' ! w = 0) ws"
    using assms
  proof (induction ws arbitrary: d q)
    case (Cons w ws)
    let ?d = "d[w := d ! w - 1]" let ?q = "if d ! w - 1 = 0 then q @ [w] else q"
    have w: "w < length d" using Cons.prems(3) by simp
    then have "relax (d, q) w = (?d, ?q)" by (simp add: relax_def Let_def)
    then have "foldl relax (?d, ?q) ws = (d', q')"
      using Cons.prems(1) by simp
    from Cons.IH [OF this] Cons.prems
    have ih: "length d' = length d" "\<And>x. x < length d \<Longrightarrow> d' ! x = ?d ! x - (if x \<in> set ws then 1 else 0)"
      "q' = ?q @ filter (\<lambda>w. d' ! w = 0) ws" by auto
    have "d' ! w = d ! w - 1" using ih(2) [OF w] w Cons.prems(2) by simp
    with ih w show ?case by (auto simp: nth_list_update)
  qed simp
  then show "length d' = length d"
    and "\<And>w. w < length d \<Longrightarrow> d' ! w = d ! w - (if w \<in> set ws then 1 else 0)"
    and "q' = q @ filter (\<lambda>w. d' ! w = 0) ws" by auto
qed

definition row_edges :: "nat list list \<Rightarrow> (nat \<times> nat) set" where
  "row_edges fwd = {(v, w). v < length fwd \<and> w \<in> set (fwd ! v)}"

definition rows_ok :: "nat \<Rightarrow> nat list list \<Rightarrow> bool" where
  "rows_ok n fwd \<longleftrightarrow> length fwd = n \<and> (\<forall>v < n. distinct (fwd ! v) \<and> set (fwd ! v) \<subseteq> {..<n})"

text \<open>
  The invariant of the loop: the counters are the edges from nodes not yet output, and
  the nodes output or queued are exactly those whose counter is 0.
\<close>

definition kahn_inv :: "nat \<Rightarrow> nat list list \<Rightarrow> int list \<Rightarrow> nat list \<Rightarrow> nat list \<Rightarrow> bool" where
  "kahn_inv n fwd d q out \<longleftrightarrow>
     length d = n \<and> distinct (out @ q) \<and> set (out @ q) \<subseteq> {..<n} \<and>
     (\<forall>w < n. d ! w = int (card {v. v < n \<and> v \<notin> set out \<and> w \<in> set (fwd ! v)})) \<and>
     (\<forall>w < n. w \<in> set (out @ q) \<longleftrightarrow> d ! w = 0) \<and>
     topo_sorted (row_edges fwd) out"

lemma kahn_inv_count:
  "kahn_inv n fwd d q out \<Longrightarrow> w < n \<Longrightarrow>
    d ! w = int (card {v. v < n \<and> v \<notin> set out \<and> w \<in> set (fwd ! v)})"
  and kahn_inv_zero: "kahn_inv n fwd d q out \<Longrightarrow> w < n \<Longrightarrow> w \<in> set (out @ q) \<longleftrightarrow> d ! w = 0"
  unfolding kahn_inv_def by blast+

lemma kahn_inv_ready:
  assumes "kahn_inv n fwd d q out" and "rows_ok n fwd" and "w \<in> set q" and "(v, w) \<in> row_edges fwd"
  shows "v \<in> set out"
proof (rule ccontr)
  assume "v \<notin> set out"
  have "w < n" and "d ! w = 0"
    using assms(1,3) unfolding kahn_inv_def by (auto 4 3)
  then have "card {v. v < n \<and> v \<notin> set out \<and> w \<in> set (fwd ! v)} = 0"
    using assms(1) by (auto simp: kahn_inv_def)
  then have "{v. v < n \<and> v \<notin> set out \<and> w \<in> set (fwd ! v)} = {}" by simp
  with \<open>v \<notin> set out\<close> assms(2,4) show False by (auto simp: row_edges_def rows_ok_def)
qed

lemma kahn_inv_step:
  assumes inv: "kahn_inv n fwd d (v # q) out" and ok: "rows_ok n fwd"
    and r: "foldl relax (d, q) (fwd ! v) = (d', q')"
  shows "kahn_inv n fwd d' q' (out @ [v])"
proof -
  have v: "v < n" "v \<notin> set out" "v \<notin> set q" and len: "length d = n"
    using inv by (auto simp: kahn_inv_def)
  have row: "distinct (fwd ! v)" "set (fwd ! v) \<subseteq> {..<length d}"
    using ok v(1) len by (auto simp: rows_ok_def)
  note rr = relax_row [OF r row]
  have cnt: "d' ! w = int (card {u. u < n \<and> u \<notin> set (out @ [v]) \<and> w \<in> set (fwd ! u)})"
    if w: "w < n" for w
  proof -
    let ?A = "{u. u < n \<and> u \<notin> set out \<and> w \<in> set (fwd ! u)}"
    have "{u. u < n \<and> u \<notin> set (out @ [v]) \<and> w \<in> set (fwd ! u)} = ?A - {v}" by auto
    moreover have "v \<in> ?A \<longleftrightarrow> w \<in> set (fwd ! v)" using v by auto
    moreover have "finite ?A" by simp
    moreover have "d ! w = int (card ?A)" using inv w by (simp add: kahn_inv_def)
    ultimately show ?thesis
      using rr(2) [of w] w len card_gt_0_iff [of ?A]
      by (auto simp: card_Diff_singleton_if int_ops)
  qed
  have zero: "d ! w = 0 \<longleftrightarrow> w \<in> set (out @ v # q)" if "w < n" for w
    using inv that by (auto simp: kahn_inv_def)
  have pos: "d ! w \<ge> 0" "d' ! w \<ge> 0" if "w < n" for w
    using inv cnt that by (auto simp: kahn_inv_def)
  have fresh: "w \<notin> set (out @ v # q)" if "w \<in> set (fwd ! v)" for w
  proof -
    have "w < n" using row(2) that len by auto
    with rr(2) [of w] pos [of w] that len zero [of w] show ?thesis by auto
  qed
  have "topo_sorted (row_edges fwd) (out @ [v])"
    using inv kahn_inv_ready [OF inv ok] by (intro topo_sorted_snoc) (auto simp: kahn_inv_def)
  moreover have "distinct (out @ [v] @ q')" "set (out @ [v] @ q') \<subseteq> {..<n}"
    using inv fresh row rr(3) len by (auto simp: kahn_inv_def)
  moreover have "w \<in> set ((out @ [v]) @ q') \<longleftrightarrow> d' ! w = 0" if "w < n" for w
    using that zero [OF that] rr(2) [of w] rr(3) fresh [of w] pos [OF that] len by auto
  ultimately show ?thesis using cnt rr(1) len by (simp add: kahn_inv_def)
qed

lemma kahn_inv_kahn:
  "kahn_inv n fwd d q out \<Longrightarrow> rows_ok n fwd \<Longrightarrow> \<exists>d'. kahn_inv n fwd d' [] (kahn fwd d q out)"
proof (induction fwd d q out rule: kahn.induct)
  case (2 fwd d v q out)
  obtain d' q' where r: "foldl relax (d, q) (fwd ! v) = (d', q')" by force
  with 2 show ?case by (auto dest: kahn_inv_step)
qed auto

lemma kahn_inv_init:
  "rows_ok n fwd \<Longrightarrow>
    kahn_inv n fwd (in_degrees n fwd) (filter (\<lambda>v. in_degrees n fwd ! v = 0) [0..<n]) []"
  by (auto simp: kahn_inv_def in_degrees_nth rows_ok_def)

lemma kahn_order_inv:
  "rows_ok n fwd \<Longrightarrow> \<exists>d. kahn_inv n fwd d [] (kahn_order n fwd)"
  unfolding kahn_order_def Let_def by (rule kahn_inv_kahn [OF kahn_inv_init])

lemma kahn_order_sound:
  assumes "rows_ok n fwd"
  shows "distinct (kahn_order n fwd)" "set (kahn_order n fwd) \<subseteq> {..<n}"
    "topo_sorted (row_edges fwd) (kahn_order n fwd)"
  using kahn_order_inv [OF assms] by (auto simp: kahn_inv_def)

lemma kahn_order_complete_iff:
  assumes ok: "rows_ok n fwd"
  shows "length (kahn_order n fwd) = n \<longleftrightarrow> acyclic (row_edges fwd)"
proof
  note s = kahn_order_sound [OF ok]
  assume "length (kahn_order n fwd) = n"
  then have "card (set (kahn_order n fwd)) = card {..<n}" using s(1) by (simp add: distinct_card)
  then have "set (kahn_order n fwd) = {..<n}" using s(2) by (simp add: card_subset_eq)
  then have "row_edges fwd \<subseteq> set (kahn_order n fwd) \<times> set (kahn_order n fwd)"
    using ok by (auto simp: row_edges_def rows_ok_def)
  with s show "acyclic (row_edges fwd)" by (blast intro: topo_sorted_acyclic)
next
  let ?out = "kahn_order n fwd"
  obtain d where inv: "kahn_inv n fwd d [] ?out" using kahn_order_inv [OF ok] by blast
  assume ac: "acyclic (row_edges fwd)"
  have "{..<n} - set ?out = {}"
  proof (rule ccontr)
    assume ne: "{..<n} - set ?out \<noteq> {}"
    have pred: "\<exists>v \<in> {..<n} - set ?out. (v, w) \<in> row_edges fwd" if w: "w \<in> {..<n} - set ?out" for w
    proof -
      have "d ! w \<noteq> 0" using kahn_inv_zero [OF inv, of w] w by simp
      then have "card {v. v < n \<and> v \<notin> set ?out \<and> w \<in> set (fwd ! v)} \<noteq> 0"
        using kahn_inv_count [OF inv, of w] w by (simp only: lessThan_iff Diff_iff)
      then have "{v. v < n \<and> v \<notin> set ?out \<and> w \<in> set (fwd ! v)} \<noteq> {}" by (intro notI) simp
      then obtain v where "v < n" "v \<notin> set ?out" "w \<in> set (fwd ! v)" by blast
      with ok show ?thesis by (auto simp: row_edges_def rows_ok_def)
    qed
    have "\<not> acyclic (row_edges fwd)"
      by (rule pred_closed_cyclic [OF _ ne pred]) simp_all
    with ac show False by simp
  qed
  then have "set ?out = {..<n}" using kahn_order_sound(2) [OF ok] by auto
  then show "length ?out = n" using kahn_order_sound(1) [OF ok] by (metis card_lessThan distinct_card)
qed

section \<open>Compressed sparse rows\<close>

lemma length_csr_offsets [simp]: "length (csr_offsets acc adj) = Suc (length adj)"
  by (induction adj arbitrary: acc) auto

lemma csr_offsets_nth:
  "i \<le> length adj \<Longrightarrow> csr_offsets acc adj ! i = acc + length (concat (take i adj))"
  by (induction adj arbitrary: acc i) (auto simp: nth_Cons split: nat.splits)

lemma csr_offsets_not_Nil [simp]: "csr_offsets acc adj \<noteq> []"
  by (cases adj) auto

lemma last_csr_offsets: "last (csr_offsets acc adj) = acc + length (concat adj)"
  by (induction adj arbitrary: acc) auto

lemma fill_row_aux:
  "base + k + length r \<le> length t \<Longrightarrow>
    foldl (\<lambda>t (j, w). t[base + j := w]) t (enumerate k r) =
    take (base + k) t @ r @ drop (base + k + length r) t"
proof (induction r arbitrary: k t)
  case (Cons w r)
  have "take (Suc (base + k)) (t[base + k := w]) = take (base + k) t @ [w]"
    using Cons.prems by (simp add: take_Suc_conv_app_nth)
  with Cons.IH [of "Suc k" "t[base + k := w]"] Cons.prems show ?case by simp
qed simp

lemma fill_row_eq:
  "base + length r \<le> length t \<Longrightarrow>
    fill_row t base r = take base t @ r @ drop (base + length r) t"
  unfolding fill_row_def using fill_row_aux [of base 0 r t] by simp

lemma fill_rows_aux:
  assumes "acc + length (concat rs) \<le> length t"
    and "\<And>i. i < length rs \<Longrightarrow> off ! (k + i) = acc + length (concat (take i rs))"
  shows "foldl (\<lambda>t (i, r). fill_row t (off ! i) r) t (enumerate k rs) =
    take acc t @ concat rs @ drop (acc + length (concat rs)) t"
  using assms
proof (induction rs arbitrary: k t acc)
  case (Cons r rs)
  have "off ! k = acc" using Cons.prems(2) [of 0] by simp
  with Cons.prems(1) have step: "fill_row t (off ! k) r = take acc t @ r @ drop (acc + length r) t"
    by (simp add: fill_row_eq)
  have "off ! (Suc k + i) = (acc + length r) + length (concat (take i rs))" if "i < length rs" for i
    using Cons.prems(2) [of "Suc i"] that by simp
  from Cons.IH [OF _ this, of "take acc t @ r @ drop (acc + length r) t"] Cons.prems(1)
  show ?case by (simp add: step ac_simps)
qed simp

lemma build_csr_eq: "build_csr adj = (csr_offsets 0 adj, concat adj)"
proof -
  have "foldl (\<lambda>t (i, r). fill_row t (csr_offsets 0 adj ! i) r)
      (replicate (last (csr_offsets 0 adj)) 0) (enumerate 0 adj) =
      take 0 (replicate (last (csr_offsets 0 adj)) 0) @ concat adj @
      drop (0 + length (concat adj)) (replicate (last (csr_offsets 0 adj)) 0)"
    by (rule fill_rows_aux) (simp_all add: last_csr_offsets csr_offsets_nth)
  then show ?thesis by (simp add: build_csr_def Let_def last_csr_offsets)
qed

lemma csr_row_eq:
  assumes "v < length adj"
  shows "csr_row (csr_offsets 0 adj) (concat adj) v = adj ! v"
proof -
  let ?pre = "concat (take v adj)"
  have split: "concat adj = ?pre @ adj ! v @ concat (drop (Suc v) adj)"
    using assms by (metis concat.simps(2) concat_append id_take_nth_drop)
  have "csr_offsets 0 adj ! v = length ?pre" "csr_offsets 0 adj ! Suc v = length ?pre + length (adj ! v)"
    using assms by (auto simp: csr_offsets_nth take_Suc_conv_app_nth)
  then have "csr_row (csr_offsets 0 adj) (concat adj) v =
      map (\<lambda>i. concat adj ! (i + length ?pre)) [0..<length (adj ! v)]"
    by (simp add: csr_row_def map_add_upt [symmetric] add.commute)
  also have "\<dots> = adj ! v" by (rule nth_equalityI) (auto simp: split nth_append)
  finally show ?thesis .
qed

section \<open>The frozen graph\<close>

text \<open>The edge relation a graph stands for, and what every frozen graph satisfies.\<close>

definition succs :: "graph \<Rightarrow> nat \<Rightarrow> nat list" where
  "succs g v = csr_row (fwdOff g) (fwdT g) v"

definition preds :: "graph \<Rightarrow> nat \<Rightarrow> nat list" where
  "preds g v = csr_row (revOff g) (revT g) v"

definition graph_edges :: "graph \<Rightarrow> (nat \<times> nat) set" where
  "graph_edges g = {(v, w). v < gn g \<and> w \<in> set (succs g v)}"

definition wf_graph :: "graph \<Rightarrow> bool" where
  "wf_graph g \<longleftrightarrow>
     length (pathByID g) = gn g \<and> distinct (pathByID g) \<and> sorted (pathByID g) \<and>
     (\<forall>p i. idByPath g p = Some i \<longleftrightarrow> i < gn g \<and> pathByID g ! i = p) \<and>
     (\<forall>v < gn g. distinct (succs g v) \<and> sorted (succs g v) \<and> set (succs g v) \<subseteq> {..<gn g}) \<and>
     (\<forall>w < gn g. distinct (preds g w) \<and> sorted (preds g w) \<and>
        set (preds g w) = {v. v < gn g \<and> w \<in> set (succs g v)}) \<and>
     distinct (topo g) \<and> set (topo g) = {..<gn g} \<and> topo_sorted (graph_edges g) (topo g)"

definition path_edges :: "graph \<Rightarrow> (path \<times> path) set" where
  "path_edges g = (\<lambda>(v, w). (pathByID g ! v, pathByID g ! w)) ` graph_edges g"

lemma number_paths_iff:
  assumes "distinct ps"
  shows "number_paths ps p = Some i \<longleftrightarrow> i < length ps \<and> ps ! i = p"
proof -
  have "foldl (\<lambda>m (i, p). m(p \<mapsto> i)) m (enumerate k ps) p =
      (if p \<in> set ps then Some (k + (THE j. j < length ps \<and> ps ! j = p)) else m p)" for m k
    using assms
  proof (induction ps arbitrary: m k)
    case (Cons q ps)
    show ?case
    proof (cases "p \<in> set ps")
      case True
      then obtain j where j: "j < length ps" "ps ! j = p" by (auto simp: in_set_conv_nth)
      have "(THE j. j < length ps \<and> ps ! j = p) = j"
        using j Cons.prems by (auto simp: nth_eq_iff_index_eq)
      moreover have "(THE j. j < length (q # ps) \<and> (q # ps) ! j = p) = Suc j"
        using j Cons.prems by (intro the_equality) (auto simp: nth_Cons nth_eq_iff_index_eq split: nat.splits)
      ultimately show ?thesis using Cons True by simp
    next
      case False
      then have "(THE j. j < length (q # ps) \<and> (q # ps) ! j = q) = 0"
        using Cons.prems by (intro the_equality) (auto simp: nth_Cons in_set_conv_nth split: nat.splits)
      with False Cons show ?thesis by auto
    qed
  qed simp
  from this [of Map.empty 0] have eq: "number_paths ps p =
      (if p \<in> set ps then Some (THE j. j < length ps \<and> ps ! j = p) else None)"
    by (simp add: number_paths_def)
  have "(THE j. j < length ps \<and> ps ! j = p) = i" if "i < length ps" "ps ! i = p" for i
    using that assms by (auto simp: nth_eq_iff_index_eq)
  with eq show ?thesis by (auto simp: in_set_conv_nth)
qed

lemma renumber_edges_set:
  assumes wf: "wf_builder b" and ids: "ids = number_paths (sort (builderPaths b))"
  shows "set (renumber_edges b ids) =
    {(v, w). v < length (builderPaths b) \<and> w < length (builderPaths b) \<and>
      (sort (builderPaths b) ! v, sort (builderPaths b) ! w) \<in> builder_edges b}" (is "_ = ?R")
proof -
  let ?ps = "builderPaths b" and ?n = "length (builderPaths b)"
  have d: "distinct (sort ?ps)" using wf by (simp add: wf_builder_def)
  have idx: "id_or_zero ids (?ps ! f) < ?n \<and> sort ?ps ! id_or_zero ids (?ps ! f) = ?ps ! f"
    if "f < ?n" for f
  proof -
    have "?ps ! f \<in> set (sort ?ps)" using that by simp
    then obtain i where "i < ?n" "sort ?ps ! i = ?ps ! f" by (metis in_set_conv_nth length_sort)
    then have "ids (?ps ! f) = Some i" by (simp add: ids number_paths_iff [OF d])
    with \<open>i < ?n\<close> \<open>sort ?ps ! i = ?ps ! f\<close> show ?thesis by (simp add: id_or_zero_def)
  qed
  have uniq: "v = id_or_zero ids p" if "v < ?n" "sort ?ps ! v = p" for v p
    using that by (simp add: id_or_zero_def ids number_paths_iff [OF d, THEN iffD2])
  have rng: "f < ?n \<and> t < ?n" if "(f, t) \<in> set (rawEdges b)" for f t
    using wf that by (auto simp: wf_builder_def)
  show ?thesis
  proof (intro set_eqI iffI)
    fix e assume "e \<in> set (renumber_edges b ids)"
    then obtain f t where "(f, t) \<in> set (rawEdges b)"
      and "e = (id_or_zero ids (?ps ! f), id_or_zero ids (?ps ! t))"
      by (auto simp: renumber_edges_def)
    with rng idx show "e \<in> ?R" by (auto simp: builder_edges_def intro: rev_image_eqI)
  next
    fix e assume "e \<in> ?R"
    then obtain v w f t where e: "e = (v, w)" "v < ?n" "w < ?n" "(f, t) \<in> set (rawEdges b)"
      "sort ?ps ! v = ?ps ! f" "sort ?ps ! w = ?ps ! t" by (auto simp: builder_edges_def)
    then have "e = (id_or_zero ids (?ps ! f), id_or_zero ids (?ps ! t))" using uniq by simp
    with e(4) show "e \<in> set (renumber_edges b ids)"
      by (auto simp: renumber_edges_def intro: rev_image_eqI)
  qed
qed

text \<open>The rows and the order \<open>Build\<close> computes, named for the proofs below.\<close>

definition built_fwd :: "builder \<Rightarrow> nat list list" where
  "built_fwd b = fwd_rows (length (builderPaths b))
     (renumber_edges b (number_paths (sort (builderPaths b))))"

lemma built_fwd_row:
  assumes "wf_builder b" "v < length (builderPaths b)"
  shows "set (built_fwd b ! v) = {w. w < length (builderPaths b) \<and>
      (sort (builderPaths b) ! v, sort (builderPaths b) ! w) \<in> builder_edges b}"
    and "distinct (built_fwd b ! v)" and "sorted (built_fwd b ! v)"
  using assms fwd_rows_nth [OF assms(2)] renumber_edges_set [OF assms(1) refl]
  by (auto simp: built_fwd_def)

lemma rows_ok_built: "wf_builder b \<Longrightarrow> rows_ok (length (builderPaths b)) (built_fwd b)"
  by (auto simp: rows_ok_def built_fwd_row) (simp add: built_fwd_def)

lemma build_Inr:
  assumes "build b = Inr g" and "builderPaths b \<noteq> []"
  shows "gn g = length (builderPaths b)" "pathByID g = sort (builderPaths b)"
    "idByPath g = number_paths (sort (builderPaths b))"
    "topo g = kahn_order (gn g) (built_fwd b)" "length (topo g) = gn g"
    "v < gn g \<Longrightarrow> succs g v = built_fwd b ! v"
    "v < gn g \<Longrightarrow> preds g v = rev_rows (gn g) (built_fwd b) ! v"
proof -
  let ?n = "length (builderPaths b)"
  have len: "length (built_fwd b) = ?n" by (simp add: built_fwd_def)
  have ok: "length (kahn_order ?n (built_fwd b)) = ?n"
    and g: "g = \<lparr>gn = ?n, idByPath = number_paths (sort (builderPaths b)),
      pathByID = sort (builderPaths b), fwdOff = csr_offsets 0 (built_fwd b), fwdT = concat (built_fwd b),
      revOff = csr_offsets 0 (rev_rows ?n (built_fwd b)), revT = concat (rev_rows ?n (built_fwd b)),
      topo = kahn_order ?n (built_fwd b)\<rparr>"
    using assms by (auto simp: build_def Let_def build_csr_eq built_fwd_def split: if_splits)
  show "gn g = length (builderPaths b)" "pathByID g = sort (builderPaths b)"
    "idByPath g = number_paths (sort (builderPaths b))"
    "topo g = kahn_order (gn g) (built_fwd b)" "length (topo g) = gn g"
    "v < gn g \<Longrightarrow> succs g v = built_fwd b ! v"
    "v < gn g \<Longrightarrow> preds g v = rev_rows (gn g) (built_fwd b) ! v"
    using ok len by (simp_all add: g succs_def preds_def csr_row_eq)
qed

lemma graph_edges_built:
  assumes "wf_builder b" "build b = Inr g" "builderPaths b \<noteq> []"
  shows "graph_edges g = row_edges (built_fwd b)"
  using build_Inr [OF assms(2,3)] by (auto simp: graph_edges_def row_edges_def built_fwd_def)

lemma wf_empty_graph: "wf_graph empty_graph"
  by (simp add: wf_graph_def empty_graph_def)

lemma build_wf:
  assumes wf: "wf_builder b" and "build b = Inr g"
  shows "wf_graph g"
proof (cases "builderPaths b = []")
  case True
  with assms(2) have "g = empty_graph" by (simp add: build_def)
  then show ?thesis by (simp add: wf_empty_graph)
next
  case False
  note g = build_Inr [OF assms(2) False]
  have ok: "rows_ok (gn g) (built_fwd b)" using rows_ok_built [OF wf] g(1) by simp
  note k = kahn_order_sound [OF ok, folded g(4)]
  have "set (topo g) = {..<gn g}"
    using k(1,2) g(5) by (metis card_lessThan card_subset_eq distinct_card finite_lessThan)
  moreover have "preds g w = filter (\<lambda>v. w \<in> set (succs g v)) [0..<gn g]" if "w < gn g" for w
  proof -
    have "preds g w = filter (\<lambda>v. w \<in> set (built_fwd b ! v)) [0..<gn g]"
      using ok that unfolding g(7) [OF that] by (intro rev_rows_nth) (auto simp: rows_ok_def)
    also have "\<dots> = filter (\<lambda>v. w \<in> set (succs g v)) [0..<gn g]"
      by (intro filter_cong) (auto simp: g(6))
    finally show ?thesis .
  qed
  ultimately show ?thesis
    using k ok wf g(1,2,3) graph_edges_built [OF wf assms(2) False] built_fwd_row [OF wf]
    by (auto simp: wf_graph_def g(6) rows_ok_def number_paths_iff wf_builder_def
        intro!: sorted_wrt_filter)
qed

lemma row_edges_image:
  assumes wf: "wf_builder b"
  shows "(\<lambda>(v, w). (sort (builderPaths b) ! v, sort (builderPaths b) ! w)) ` row_edges (built_fwd b) =
    builder_edges b"
proof (intro set_eqI iffI)
  let ?sp = "sort (builderPaths b)"
  fix e assume "e \<in> (\<lambda>(v, w). (?sp ! v, ?sp ! w)) ` row_edges (built_fwd b)"
  then show "e \<in> builder_edges b"
    using built_fwd_row(1) [OF wf] by (auto simp: row_edges_def built_fwd_def)
next
  let ?n = "length (builderPaths b)" and ?sp = "sort (builderPaths b)"
  fix e assume e: "e \<in> builder_edges b"
  then obtain f t where ft: "e = (builderPaths b ! f, builderPaths b ! t)" "f < ?n" "t < ?n"
    using wf by (auto simp: builder_edges_def wf_builder_def)
  then have "builderPaths b ! f \<in> set ?sp" "builderPaths b ! t \<in> set ?sp" by simp_all
  then obtain v w where "v < ?n" "w < ?n" "e = (?sp ! v, ?sp ! w)"
    unfolding ft(1) in_set_conv_nth by auto
  with e show "e \<in> (\<lambda>(v, w). (?sp ! v, ?sp ! w)) ` row_edges (built_fwd b)"
    using built_fwd_row(1) [OF wf] by (auto simp: row_edges_def built_fwd_def intro!: rev_image_eqI)
qed

lemma wf_builder_no_paths: "wf_builder b \<Longrightarrow> builderPaths b = [] \<Longrightarrow> builder_edges b = {}"
  by (cases "rawEdges b") (auto simp: wf_builder_def builder_edges_def)

lemma build_path_edges:
  assumes wf: "wf_builder b" and "build b = Inr g"
  shows "path_edges g = builder_edges b"
proof (cases "builderPaths b = []")
  case True
  with assms show ?thesis
    by (auto simp: wf_builder_no_paths build_def empty_graph_def path_edges_def graph_edges_def)
next
  case False
  then show ?thesis
    using row_edges_image [OF wf] graph_edges_built [OF assms False] build_Inr(2) [OF assms(2) False]
    by (simp add: path_edges_def)
qed

lemma acyclic_inj_image:
  assumes inj: "inj_on f A" and R: "R \<subseteq> A \<times> A"
  shows "acyclic ((\<lambda>(x, y). (f x, f y)) ` R) \<longleftrightarrow> acyclic R"
proof -
  let ?R = "(\<lambda>(x, y). (f x, f y)) ` R"
  have up: "(f x, f y) \<in> ?R\<^sup>+" if "(x, y) \<in> R\<^sup>+" for x y
    using that by induction (auto intro: trancl_into_trancl rev_image_eqI)
  have down: "\<exists>x y. x \<in> A \<and> y \<in> A \<and> a = f x \<and> b = f y \<and> (x, y) \<in> R\<^sup>+" if "(a, b) \<in> ?R\<^sup>+" for a b
    using that
  proof induction
    case (base b)
    then show ?case using R by auto
  next
    case (step b c)
    then obtain x y y' z where "x \<in> A" "y \<in> A" "a = f x" "b = f y" "(x, y) \<in> R\<^sup>+"
      "b = f y'" "c = f z" "(y', z) \<in> R" by auto
    moreover from this R inj have "y = y'" "z \<in> A" by (auto dest: inj_onD)
    ultimately show ?case by (blast intro: trancl_into_trancl)
  qed
  have dom: "x \<in> A \<and> y \<in> A" if "(x, y) \<in> R\<^sup>+" for x y
    using that R by induction auto
  show ?thesis unfolding acyclic_def using up down inj dom by (metis inj_onD)
qed

lemma build_Inl_iff:
  assumes wf: "wf_builder b"
  shows "(\<exists>g. build b = Inr g) \<longleftrightarrow> acyclic (builder_edges b)"
proof (cases "builderPaths b = []")
  case True
  with wf show ?thesis by (simp add: build_def wf_builder_no_paths acyclic_def)
next
  case False
  let ?n = "length (builderPaths b)" and ?sp = "sort (builderPaths b)"
  have d: "distinct ?sp" using wf by (simp add: wf_builder_def)
  have "(\<exists>g. build b = Inr g) \<longleftrightarrow> length (kahn_order ?n (built_fwd b)) = ?n"
    using False by (auto simp: build_def Let_def build_csr_eq built_fwd_def split: if_splits)
  also have "\<dots> \<longleftrightarrow> acyclic (row_edges (built_fwd b))"
    by (rule kahn_order_complete_iff [OF rows_ok_built [OF wf]])
  also have "\<dots> \<longleftrightarrow> acyclic ((\<lambda>(v, w). (?sp ! v, ?sp ! w)) ` row_edges (built_fwd b))"
    by (rule acyclic_inj_image [symmetric, of _ "{..<?n}"])
       (use d rows_ok_built [OF wf] in
        \<open>auto simp: inj_on_def nth_eq_iff_index_eq row_edges_def rows_ok_def\<close>)
  finally show ?thesis by (simp add: row_edges_image [OF wf])
qed

end
