(* ===== verification/Dep_Query.thy ===== *)
theory Dep_Query
  imports Dep_Graph_Correct "HOL-Library.Word"
begin

unbundle bit_operations_syntax

text \<open>
  The queries over a frozen graph: the depth-first walk of
  \<open>src/internal/graph/dependency/query.go\<close> that small graphs use, and the transitive
  closure as rows of 64-bit words of \<open>src/internal/graph/dependency/closure.go\<close> that
  large ones use. Both are shown to answer the same question.
\<close>

section \<open>The walk over predecessors\<close>

text \<open>
  \<open>visited\<close> is the mark array and the stack is held top first. A row never names a
  node past the array (Go would panic on one), which the walk needs to end.
\<close>

definition push_seed :: "nat \<Rightarrow> bool list \<times> nat list \<Rightarrow> int \<Rightarrow> bool list \<times> nat list" where
  "push_seed n s i =
     (case s of (vis, st) \<Rightarrow>
        if i \<ge> 0 \<and> i < int n \<and> \<not> vis ! nat i then (vis[nat i := True], nat i # st) else s)"

definition push_unvisited :: "bool list \<times> nat list \<Rightarrow> nat \<Rightarrow> bool list \<times> nat list" where
  "push_unvisited s p =
     (case s of (vis, st) \<Rightarrow>
        if p < length vis \<and> \<not> vis ! p then (vis[p := True], p # st) else s)"

definition unmarked :: "bool list \<Rightarrow> nat" where
  "unmarked vis = length (filter Not vis)"

lemma push_unvisited_measure:
  "push_unvisited (vis, st) p = (vis', st') \<Longrightarrow>
    unmarked vis' + length st' = unmarked vis + length st"
  using length_filter_update [of p vis Not True]
  by (auto simp: push_unvisited_def unmarked_def split: if_splits)

lemma push_row_measure:
  "foldl push_unvisited (vis, st) ps = (vis', st') \<Longrightarrow>
    unmarked vis' + length st' = unmarked vis + length st"
proof (induction ps arbitrary: vis st)
  case (Cons p ps)
  obtain v1 s1 where s1: "push_unvisited (vis, st) p = (v1, s1)" by force
  with Cons.prems have "foldl push_unvisited (v1, s1) ps = (vis', st')" by simp
  from Cons.IH [OF this] push_unvisited_measure [OF s1] show ?case by simp
qed simp

function walk_preds :: "graph \<Rightarrow> bool list \<Rightarrow> nat list \<Rightarrow> nat list \<Rightarrow> nat list" where
  "walk_preds g vis [] dst = dst"
| "walk_preds g vis (cur # st) dst =
     (case foldl push_unvisited (vis, st) (preds g cur) of
        (vis', st') \<Rightarrow> walk_preds g vis' st' (dst @ [cur]))"
  by pat_completeness auto
termination
  by (relation "measure (\<lambda>(g, vis, st, dst). unmarked vis + length st)")
     (auto dest!: push_row_measure [OF sym])

definition reverse_closure_bfs :: "graph \<Rightarrow> nat list \<Rightarrow> int list \<Rightarrow> nat list" where
  "reverse_closure_bfs g dst seeds =
     (case foldl (push_seed (gn g)) (replicate (gn g) False, []) seeds of
        (vis, st) \<Rightarrow> sort (walk_preds g vis st dst))"

section \<open>The bitset closure\<close>

record bit_closure =
  cn :: nat
  cwords :: nat
  cfwd :: "64 word list"
  crev :: "64 word list"

text \<open>\<open>row[v/64] |= 1 << (v % 64)\<close> on the row of \<open>v\<close>.\<close>

definition set_self :: "nat \<Rightarrow> 64 word list \<Rightarrow> nat \<Rightarrow> 64 word list" where
  "set_self k ws v = ws[v * k + v div 64 := ws ! (v * k + v div 64) OR push_bit (v mod 64) 1]"

text \<open>\<open>row[j] |= wRow[j]\<close> for every \<open>j\<close>: the row of \<open>w\<close> into the row of \<open>v\<close>.\<close>

definition or_row :: "nat \<Rightarrow> nat \<Rightarrow> 64 word list \<Rightarrow> nat \<Rightarrow> 64 word list" where
  "or_row k v ws w = foldl (\<lambda>ws j. ws[v * k + j := ws ! (v * k + j) OR ws ! (w * k + j)]) ws [0..<k]"

definition sweep :: "nat \<Rightarrow> (nat \<Rightarrow> nat list) \<Rightarrow> 64 word list \<Rightarrow> nat list \<Rightarrow> 64 word list" where
  "sweep k nbrs = foldl (\<lambda>ws v. foldl (or_row k v) (set_self k ws v) (nbrs v))"

definition build_closure :: "graph \<Rightarrow> bit_closure" where
  "build_closure g =
     (let n = gn g; k = (n + 63) div 64
      in \<lparr>cn = n, cwords = k,
          cfwd = sweep k (succs g) (replicate (n * k) 0) (rev (topo g)),
          crev = sweep k (preds g) (replicate (n * k) 0) (topo g)\<rparr>)"

definition fwd_row :: "bit_closure \<Rightarrow> nat \<Rightarrow> 64 word list" where
  "fwd_row c v = take (cwords c) (drop (v * cwords c) (cfwd c))"

definition rev_row :: "bit_closure \<Rightarrow> nat \<Rightarrow> 64 word list" where
  "rev_row c v = take (cwords c) (drop (v * cwords c) (crev c))"

text \<open>\<open>row[v/64]>>(v%64)&1 == 1\<close>.\<close>

definition row_has :: "64 word list \<Rightarrow> nat \<Rightarrow> bool" where
  "row_has row v \<longleftrightarrow> (drop_bit (v mod 64) (row ! (v div 64))) AND 1 = 1"

text \<open>\<open>None\<close> is the run-time panic of an index out of range or a negative shift.\<close>

definition closure_reachable :: "bit_closure \<Rightarrow> int \<Rightarrow> int \<Rightarrow> bool option" where
  "closure_reachable c u v =
     (if u < 0 \<or> u \<ge> int (cn c) \<or> v < 0 \<or> v div 64 \<ge> int (cwords c) then None
      else Some (row_has (fwd_row c (nat u)) (nat v)))"

definition or_mask :: "bit_closure \<Rightarrow> nat \<Rightarrow> 64 word list \<Rightarrow> int \<Rightarrow> 64 word list" where
  "or_mask c n msk s =
     (if s < 0 \<or> s \<ge> int n then msk
      else foldl (\<lambda>m j. m[j := m ! j OR rev_row c (nat s) ! j]) msk [0..<cwords c])"

definition closure_reverse :: "bit_closure \<Rightarrow> nat list \<Rightarrow> int list \<Rightarrow> nat \<Rightarrow> nat list" where
  "closure_reverse c dst seeds n =
     (let msk = foldl (or_mask c n) (replicate (cwords c) 0) seeds
      in dst @ filter (row_has msk) [0..<cn c])"

text \<open>\<open>bits.OnesCount64\<close>.\<close>

definition ones_count :: "64 word \<Rightarrow> nat" where
  "ones_count w = length (filter (bit w) [0..<64])"

definition blast_radius :: "bit_closure \<Rightarrow> nat list" where
  "blast_radius c = map (\<lambda>v. sum_list (map ones_count (rev_row c v))) [0..<cn c]"

definition ccd :: "bit_closure \<Rightarrow> nat" where
  "ccd c = sum_list (map (\<lambda>v. sum_list (map ones_count (fwd_row c v))) [0..<cn c])"

section \<open>The graph's own queries\<close>

definition closureThreshold :: nat where
  "closureThreshold = 256"

definition reachable :: "graph \<Rightarrow> int \<Rightarrow> int \<Rightarrow> bool option" where
  "reachable g u v = closure_reachable (build_closure g) u v"

definition reverse_closure :: "graph \<Rightarrow> nat list \<Rightarrow> int list \<Rightarrow> nat list" where
  "reverse_closure g dst seeds =
     (if gn g < closureThreshold then reverse_closure_bfs g dst seeds
      else closure_reverse (build_closure g) dst seeds (gn g))"

definition graph_blast_radius :: "graph \<Rightarrow> nat list" where
  "graph_blast_radius g = blast_radius (build_closure g)"

section \<open>Correctness of the walk\<close>

text \<open>The seeds that name a node, and what reaches one of them.\<close>

definition seed_nodes :: "nat \<Rightarrow> int list \<Rightarrow> nat set" where
  "seed_nodes n seeds = {nat s | s. s \<in> set seeds \<and> 0 \<le> s \<and> s < int n}"

definition reaching :: "graph \<Rightarrow> int list \<Rightarrow> nat set" where
  "reaching g seeds = {v. \<exists>s \<in> seed_nodes (gn g) seeds. (v, s) \<in> (graph_edges g)\<^sup>*}"

definition marks :: "bool list \<Rightarrow> nat set" where
  "marks vis = {v. v < length vis \<and> vis ! v}"

lemma marks_update: "p < length vis \<Longrightarrow> marks (vis[p := True]) = insert p (marks vis)"
  by (auto simp: marks_def nth_list_update)

lemma seed_nodes_Cons [simp]:
  "seed_nodes n (s # ss) = (if 0 \<le> s \<and> s < int n then insert (nat s) (seed_nodes n ss) else seed_nodes n ss)"
  by (auto simp: seed_nodes_def)

lemma seed_nodes_Nil [simp]: "seed_nodes n [] = {}"
  by (simp add: seed_nodes_def)

lemma push_seeds:
  assumes "foldl (push_seed n) (vis, st) seeds = (vis', st')" "length vis = n"
    "distinct st" "set st = marks vis"
  shows "length vis' = n \<and> distinct st' \<and> set st' = marks vis' \<and>
    marks vis' = marks vis \<union> seed_nodes n seeds"
  using assms
proof (induction seeds arbitrary: vis st)
  case (Cons s seeds)
  show ?case
  proof (cases "0 \<le> s \<and> s < int n \<and> \<not> vis ! nat s")
    case True
    then have m: "marks (vis[nat s := True]) = insert (nat s) (marks vis)"
      using Cons.prems(2) by (intro marks_update) (simp add: nat_less_iff)
    have "nat s \<notin> set st" using True Cons.prems by (simp add: marks_def)
    with Cons.IH [of "vis[nat s := True]" "nat s # st"] True Cons.prems m show ?thesis
      by (simp add: push_seed_def)
  next
    case False
    then have "push_seed n (vis, st) s = (vis, st)" by (auto simp: push_seed_def)
    with Cons.prems(1) have "foldl (push_seed n) (vis, st) seeds = (vis', st')" by simp
    have "nat s \<in> marks vis" if "0 \<le> s \<and> s < int n"
      using that False Cons.prems(2) by (auto simp: marks_def)
    with Cons.IH [OF \<open>foldl _ _ seeds = _\<close> Cons.prems(2-4)] show ?thesis by auto
  qed
qed simp

lemma push_row:
  assumes "foldl push_unvisited (vis, st) ps = (vis', st')" "set ps \<subseteq> {..<length vis}"
    "distinct (dst @ st)" "set (dst @ st) = marks vis"
  shows "length vis' = length vis \<and> distinct (dst @ st') \<and> set (dst @ st') = marks vis' \<and>
    marks vis' = marks vis \<union> set ps"
  using assms
proof (induction ps arbitrary: vis st)
  case (Cons p ps)
  show ?case
  proof (cases "vis ! p")
    case True
    then have "p \<in> marks vis" using Cons.prems(2) by (simp add: marks_def)
    with True Cons show ?thesis by (auto simp: push_unvisited_def)
  next
    case False
    then have m: "marks (vis[p := True]) = insert p (marks vis)"
      using Cons.prems by (simp add: marks_update)
    have "p \<notin> set (dst @ st)" using False unfolding Cons.prems(4) marks_def by simp
    with Cons.IH [of "vis[p := True]" "p # st"] False Cons.prems m show ?thesis
      by (auto simp: push_unvisited_def)
  qed
qed simp

lemma preds_iff:
  "wf_graph g \<Longrightarrow> w < gn g \<Longrightarrow> v \<in> set (preds g w) \<longleftrightarrow> (v, w) \<in> graph_edges g"
  by (auto simp: wf_graph_def graph_edges_def)

lemma graph_edges_bound: "wf_graph g \<Longrightarrow> graph_edges g \<subseteq> {..<gn g} \<times> {..<gn g}"
  by (auto simp: wf_graph_def graph_edges_def)

text \<open>
  The walk: the marked nodes are the output and the stack, they all reach a seed, and
  the predecessors of an output node are marked.
\<close>

lemma walk_preds_correct:
  assumes "wf_graph g" "length vis = gn g" "distinct (dst @ st)" "set (dst @ st) = marks vis"
    "\<And>w v. w \<in> set dst \<Longrightarrow> (v, w) \<in> graph_edges g \<Longrightarrow> v \<in> marks vis"
  shows "distinct (walk_preds g vis st dst) \<and>
    set (walk_preds g vis st dst) = {v. \<exists>s \<in> marks vis. (v, s) \<in> (graph_edges g)\<^sup>*}"
  using assms
proof (induction g vis st dst rule: walk_preds.induct)
  case (1 g vis dst)
  have "v \<in> marks vis" if "(v, s) \<in> (graph_edges g)\<^sup>*" "s \<in> marks vis" for v s
    using that
  proof (induction rule: converse_rtrancl_induct)
    case (step y z)
    then show ?case using 1(4,5) by simp
  qed
  then have "{v. \<exists>s \<in> marks vis. (v, s) \<in> (graph_edges g)\<^sup>*} = marks vis" by blast
  with 1(3,4) show ?case by simp
next
  case (2 g vis cur st dst)
  obtain vis' st' where f: "foldl push_unvisited (vis, st) (preds g cur) = (vis', st')" by force
  have cur: "cur < gn g" using 2(3,5) by (auto simp: marks_def)
  have sub: "set (preds g cur) \<subseteq> {..<length vis}"
    using 2(2,3) cur by (auto simp: wf_graph_def)
  have dist: "distinct ((dst @ [cur]) @ st)" "set ((dst @ [cur]) @ st) = marks vis"
    using 2(4,5) by auto
  note p = push_row [OF f sub dist]
  have "distinct (walk_preds g vis' st' (dst @ [cur])) \<and> set (walk_preds g vis' st' (dst @ [cur])) =
      {v. \<exists>s \<in> marks vis'. (v, s) \<in> (graph_edges g)\<^sup>*}"
  proof (rule 2(1) [OF f [symmetric]])
    show "v \<in> marks vis'" if "w \<in> set (dst @ [cur])" "(v, w) \<in> graph_edges g" for w v
      using that 2(6) p preds_iff [OF 2(2) cur] by auto
  qed (use 2(2,3) p in auto)
  moreover have "(\<exists>s \<in> marks vis'. (v, s) \<in> (graph_edges g)\<^sup>*) \<longleftrightarrow>
      (\<exists>s \<in> marks vis. (v, s) \<in> (graph_edges g)\<^sup>*)" for v
  proof -
    have "cur \<in> marks vis" using 2(5) by auto
    moreover have "(v, cur) \<in> (graph_edges g)\<^sup>*" if "(v, s) \<in> (graph_edges g)\<^sup>*" "s \<in> set (preds g cur)" for s
      using that preds_iff [OF 2(2) cur] by (simp add: rtrancl.rtrancl_into_rtrancl)
    ultimately show ?thesis using p by auto
  qed
  ultimately show ?case by (simp add: f)
qed

lemma reverse_closure_bfs_correct:
  assumes "wf_graph g"
  shows "reverse_closure_bfs g [] seeds = sorted_list_of_set (reaching g seeds)"
proof -
  obtain vis st where f: "foldl (push_seed (gn g)) (replicate (gn g) False, []) seeds = (vis, st)" by force
  have "marks (replicate (gn g) False) = {}" by (simp add: marks_def)
  with push_seeds [OF f] have p: "length vis = gn g" "distinct st" "set st = marks vis"
    "marks vis = seed_nodes (gn g) seeds" by auto
  have "distinct (walk_preds g vis st []) \<and> set (walk_preds g vis st []) = reaching g seeds"
    using walk_preds_correct [OF assms p(1), of "[]" st] p by (simp add: reaching_def)
  then show ?thesis
    by (simp add: reverse_closure_bfs_def f sorted_list_of_set_sort_remdups [symmetric] distinct_remdups_id)
       (metis distinct_remdups_id sorted_list_of_set_sort_remdups)
qed

end
