(* ===== verification/Dep_Closure.thy ===== *)
theory Dep_Closure
  imports Dep_Query
begin

text \<open>
  The bitset closure refines the reflexive transitive closure of the edges: after the two
  sweeps of \<open>buildClosure\<close>, bit \<open>u\<close> of row \<open>v\<close> says whether \<open>v\<close> reaches \<open>u\<close>
  (forward) or \<open>u\<close> reaches \<open>v\<close> (reverse). From that, both strategies of
  \<open>ReverseClosure\<close> compute the same list.
\<close>

section \<open>Rows of words as sets\<close>

definition row_bit :: "nat \<Rightarrow> 64 word list \<Rightarrow> nat \<Rightarrow> nat \<Rightarrow> bool" where
  "row_bit k ws v u \<longleftrightarrow> bit (ws ! (v * k + u div 64)) (u mod 64)"

lemma row_index_eq:
  assumes "j < k" "j' < k" "v * k + j = v' * k + (j' :: nat)"
  shows "v = v' \<and> j = j'"
proof -
  have "(v * k + j) div k = v" "(v' * k + j') div k = v'" using assms(1,2) by auto
  with assms(3) show ?thesis by auto
qed

lemma row_index_less: "v < n \<Longrightarrow> j < k \<Longrightarrow> v * k + j < n * (k :: nat)"
proof -
  assume "v < n" "j < k"
  then have "v * k + j < Suc v * k" by simp
  also have "\<dots> \<le> n * k" using \<open>v < n\<close> by (intro mult_le_mono1) simp
  finally show ?thesis .
qed

lemma div_64_less: "u < 64 * k \<Longrightarrow> u div 64 < (k :: nat)"
  by (simp add: less_mult_imp_div_less mult.commute)

lemma bit_set_bit: "m < 64 \<Longrightarrow> bit (a OR (2 :: 64 word) ^ m) i \<longleftrightarrow> bit a i \<or> i = m"
  by (auto simp: bit_or_iff bit_exp_iff)

lemma length_set_self [simp]: "length (set_self k ws v) = length ws"
  by (simp add: set_self_def)

lemma row_bit_set_self:
  assumes "length ws = n * k" "v < n" "v' < n" "v < 64 * k" "u < 64 * k"
  shows "row_bit k (set_self k ws v) v' u \<longleftrightarrow> row_bit k ws v' u \<or> v' = v \<and> u = v"
proof -
  let ?i = "v * k + v div 64" and ?j = "v' * k + u div 64"
  have "?i < length ws" using assms by (simp add: row_index_less div_64_less)
  moreover have "?i = ?j \<longleftrightarrow> v = v' \<and> v div 64 = u div 64"
    using row_index_eq [of "v div 64" k "u div 64" v v'] assms div_64_less by auto
  moreover have "u = v \<longleftrightarrow> v div 64 = u div 64 \<and> u mod 64 = v mod 64"
    by (metis div_mult_mod_eq)
  ultimately show ?thesis
    by (auto simp: row_bit_def set_self_def nth_list_update bit_set_bit)
qed

lemma or_row_aux:
  assumes "length ws = n * k" "v < n" "w < n" "v \<noteq> w" "m \<le> k"
  shows "length (foldl (\<lambda>ws j. ws[v * k + j := ws ! (v * k + j) OR ws ! (w * k + j)]) ws [0..<m]) = n * k \<and>
    (\<forall>x < n. \<forall>j < k. foldl (\<lambda>ws j. ws[v * k + j := ws ! (v * k + j) OR ws ! (w * k + j)]) ws [0..<m] ! (x * k + j) =
      (if x = v \<and> j < m then ws ! (v * k + j) OR ws ! (w * k + j) else ws ! (x * k + j)))"
  using assms(5)
proof (induction m)
  case (Suc m)
  let ?ws = "foldl (\<lambda>ws j. ws[v * k + j := ws ! (v * k + j) OR ws ! (w * k + j)]) ws [0..<m]"
  from Suc have m: "m < k" and ih: "length ?ws = n * k"
    "\<And>x j. x < n \<Longrightarrow> j < k \<Longrightarrow> ?ws ! (x * k + j) =
      (if x = v \<and> j < m then ws ! (v * k + j) OR ws ! (w * k + j) else ws ! (x * k + j))" by auto
  have "?ws[v * k + m := ?ws ! (v * k + m) OR ?ws ! (w * k + m)] ! (x * k + j) =
      (if x = v \<and> j < Suc m then ws ! (v * k + j) OR ws ! (w * k + j) else ws ! (x * k + j))"
    if "x < n" "j < k" for x j
  proof (cases "x = v \<and> j = m")
    case True
    then show ?thesis using ih m assms(2-4) by (simp add: row_index_less)
  next
    case False
    then have "v * k + m \<noteq> x * k + j" using row_index_eq [of m k j v x] m that by auto
    with False show ?thesis using ih(2) [OF that] by (auto simp: less_Suc_eq)
  qed
  with ih(1) show ?case by simp
qed (use assms in simp)

lemma length_or_row: "length ws = n * k \<Longrightarrow> v < n \<Longrightarrow> w < n \<Longrightarrow> v \<noteq> w \<Longrightarrow> length (or_row k v ws w) = n * k"
  using or_row_aux [of ws n k v w k] by (simp add: or_row_def)

lemma row_bit_or_row:
  assumes "length ws = n * k" "v < n" "w < n" "v \<noteq> w" "x < n" "u < 64 * k"
  shows "row_bit k (or_row k v ws w) x u \<longleftrightarrow> row_bit k ws x u \<or> x = v \<and> row_bit k ws w u"
  using or_row_aux [OF assms(1-4) order_refl] assms(5,6) div_64_less [OF assms(6)]
  by (auto simp: row_bit_def or_row_def bit_or_iff)

lemma or_rows:
  assumes "length ws = n * k" "v < n" "set nb \<subseteq> {..<n} - {v}"
  shows "length (foldl (or_row k v) ws nb) = n * k \<and>
    (\<forall>x < n. \<forall>u < 64 * k. row_bit k (foldl (or_row k v) ws nb) x u \<longleftrightarrow>
       row_bit k ws x u \<or> x = v \<and> (\<exists>w \<in> set nb. row_bit k ws w u))"
  using assms
proof (induction nb arbitrary: ws)
  case (Cons w nb)
  have w: "w < n" "v \<noteq> w" using Cons.prems(3) by auto
  have len: "length (or_row k v ws w) = n * k" using Cons.prems w by (simp add: length_or_row)
  have one: "row_bit k (or_row k v ws w) x u \<longleftrightarrow> row_bit k ws x u \<or> x = v \<and> row_bit k ws w u"
    if "x < n" "u < 64 * k" for x u
    by (rule row_bit_or_row [OF Cons.prems(1,2) w that])
  have ih: "length (foldl (or_row k v) (or_row k v ws w) nb) = n * k \<and>
    (\<forall>x < n. \<forall>u < 64 * k. row_bit k (foldl (or_row k v) (or_row k v ws w) nb) x u \<longleftrightarrow>
       row_bit k (or_row k v ws w) x u \<or> x = v \<and> (\<exists>w' \<in> set nb. row_bit k (or_row k v ws w) w' u))"
    using Cons.IH [OF len Cons.prems(2)] Cons.prems(3) by simp
  have same: "row_bit k (or_row k v ws w) w' u \<longleftrightarrow> row_bit k ws w' u" if "w' \<in> set nb" "u < 64 * k" for w' u
    using one [of w' u] that Cons.prems(3) by auto
  have "row_bit k (foldl (or_row k v) ws (w # nb)) x u \<longleftrightarrow>
       row_bit k ws x u \<or> x = v \<and> (\<exists>w' \<in> set (w # nb). row_bit k ws w' u)" if "x < n" "u < 64 * k" for x u
    using ih one [OF that] same that by auto
  with ih show ?case by simp
qed simp

section \<open>A sweep in dependency order computes the closure\<close>

definition nbr_rel :: "nat \<Rightarrow> (nat \<Rightarrow> nat list) \<Rightarrow> (nat \<times> nat) set" where
  "nbr_rel n nbrs = {(v, w). v < n \<and> w \<in> set (nbrs v)}"

lemma rtrancl_nbr:
  "(v, u) \<in> (nbr_rel n nbrs)\<^sup>* \<longleftrightarrow> v = u \<or> v < n \<and> (\<exists>w \<in> set (nbrs v). (w, u) \<in> (nbr_rel n nbrs)\<^sup>*)"
  by (auto simp: nbr_rel_def elim: converse_rtranclE intro: converse_rtrancl_into_rtrancl)

lemma sweep_inv:
  assumes len: "length ws = n * k" and n: "n \<le> 64 * k"
    and order: "distinct (seen @ todo)" "set (seen @ todo) \<subseteq> {..<n}"
    and nb: "\<And>i. i < length todo \<Longrightarrow> set (nbrs (todo ! i)) \<subseteq> set seen \<union> set (take i todo)"
    and inv: "\<And>v u. v < n \<Longrightarrow> u < 64 * k \<Longrightarrow>
      row_bit k ws v u \<longleftrightarrow> v \<in> set seen \<and> (v, u) \<in> (nbr_rel n nbrs)\<^sup>*"
  shows "length (sweep k nbrs ws todo) = n * k \<and>
    (\<forall>v < n. \<forall>u < 64 * k. row_bit k (sweep k nbrs ws todo) v u \<longleftrightarrow>
       v \<in> set (seen @ todo) \<and> (v, u) \<in> (nbr_rel n nbrs)\<^sup>*)"
  using assms
proof (induction todo arbitrary: ws seen)
  case (Cons v todo)
  let ?ws = "foldl (or_row k v) (set_self k ws v) (nbrs v)"
  have v: "v < n" "v < 64 * k" "v \<notin> set seen" using Cons.prems(2-4) by auto
  have nv: "set (nbrs v) \<subseteq> set seen" using Cons.prems(5) [of 0] by simp
  then have sub: "set (nbrs v) \<subseteq> {..<n} - {v}" using v(3) Cons.prems(4) by auto
  have l1: "length (set_self k ws v) = n * k" using Cons.prems(1) by simp
  note r1 = row_bit_set_self [OF Cons.prems(1) v(1) _ v(2)]
  note r2 = or_rows [OF l1 v(1) sub]
  have step: "row_bit k ?ws x u \<longleftrightarrow> x \<in> set (seen @ [v]) \<and> (x, u) \<in> (nbr_rel n nbrs)\<^sup>*"
    if x: "x < n" "u < 64 * k" for x u
  proof (cases "x = v")
    case True
    have "row_bit k (set_self k ws v) w u \<longleftrightarrow> (w, u) \<in> (nbr_rel n nbrs)\<^sup>*" if "w \<in> set (nbrs v)" for w
      using that r1 [of w u] Cons.prems(6) [of w u] x sub nv by auto
    moreover have "row_bit k (set_self k ws v) v u \<longleftrightarrow> u = v"
      using r1 [of v u] Cons.prems(6) [of v u] v x by auto
    ultimately show ?thesis using r2 x v(1) True rtrancl_nbr [of v u n nbrs] by auto
  next
    case False
    then show ?thesis using r2 r1 [of x u] Cons.prems(6) [of x u] x by auto
  qed
  have "length (sweep k nbrs ?ws todo) = n * k \<and>
    (\<forall>x < n. \<forall>u < 64 * k. row_bit k (sweep k nbrs ?ws todo) x u \<longleftrightarrow>
       x \<in> set ((seen @ [v]) @ todo) \<and> (x, u) \<in> (nbr_rel n nbrs)\<^sup>*)"
  proof (rule Cons.IH [OF _ Cons.prems(2) _ _ _ step])
    show "set (nbrs (todo ! i)) \<subseteq> set (seen @ [v]) \<union> set (take i todo)" if "i < length todo" for i
      using Cons.prems(5) [of "Suc i"] that by auto
  qed (use Cons.prems(3,4) r2 in auto)
  then show ?case by (simp add: sweep_def)
qed (simp add: sweep_def)

lemma sweep_closure:
  assumes "n \<le> 64 * k" "distinct xs" "set xs = {..<n}"
    and nb: "\<And>v. v < n \<Longrightarrow> set (nbrs v) \<subseteq> {..<n}"
    and ts: "topo_sorted ((nbr_rel n nbrs)\<inverse>) xs"
  shows "length (sweep k nbrs (replicate (n * k) 0) xs) = n * k"
    and "\<And>v u. v < n \<Longrightarrow> u < 64 * k \<Longrightarrow>
      row_bit k (sweep k nbrs (replicate (n * k) 0) xs) v u \<longleftrightarrow> (v, u) \<in> (nbr_rel n nbrs)\<^sup>*"
proof -
  have nbs: "set (nbrs (xs ! i)) \<subseteq> set [] \<union> set (take i xs)" if i: "i < length xs" for i
  proof
    fix w assume "w \<in> set (nbrs (xs ! i))"
    moreover have "xs ! i < n" using i assms(3) nth_mem [OF i] by simp
    ultimately have "(w, xs ! i) \<in> (nbr_rel n nbrs)\<inverse>" by (simp add: nbr_rel_def)
    with ts i show "w \<in> set [] \<union> set (take i xs)" by (auto simp: topo_sorted_def)
  qed
  have "row_bit k (replicate (n * k) 0) v u \<longleftrightarrow> v \<in> set [] \<and> (v, u) \<in> (nbr_rel n nbrs)\<^sup>*"
    if "v < n" "u < 64 * k" for v u
    using that by (simp add: row_bit_def row_index_less div_64_less)
  from sweep_inv [of "replicate (n * k) 0" n k "[]" xs, OF _ assms(1) _ _ nbs this] assms(2,3)
  show "length (sweep k nbrs (replicate (n * k) 0) xs) = n * k"
    and "\<And>v u. v < n \<Longrightarrow> u < 64 * k \<Longrightarrow>
      row_bit k (sweep k nbrs (replicate (n * k) 0) xs) v u \<longleftrightarrow> (v, u) \<in> (nbr_rel n nbrs)\<^sup>*"
    by auto
qed

section \<open>The closure of a frozen graph\<close>

lemma words_enough: "n \<le> 64 * ((n + 63) div 64)" for n :: nat
  by simp

lemma nbr_rel_succs: "nbr_rel (gn g) (succs g) = graph_edges g"
  by (simp add: nbr_rel_def graph_edges_def)

lemma nbr_rel_preds: "wf_graph g \<Longrightarrow> nbr_rel (gn g) (preds g) = (graph_edges g)\<inverse>"
  using graph_edges_bound [of g] by (auto simp: nbr_rel_def preds_iff)

lemma build_closure_words:
  assumes g: "wf_graph g"
  defines "k \<equiv> (gn g + 63) div 64"
  shows "length (cfwd (build_closure g)) = gn g * k" "length (crev (build_closure g)) = gn g * k"
    and "\<And>v u. v < gn g \<Longrightarrow> u < 64 * k \<Longrightarrow>
      row_bit k (cfwd (build_closure g)) v u \<longleftrightarrow> (v, u) \<in> (graph_edges g)\<^sup>*"
    and "\<And>v u. v < gn g \<Longrightarrow> u < 64 * k \<Longrightarrow>
      row_bit k (crev (build_closure g)) v u \<longleftrightarrow> (u, v) \<in> (graph_edges g)\<^sup>*"
proof -
  have n: "gn g \<le> 64 * k" unfolding k_def by (rule words_enough)
  have ts: "topo_sorted (graph_edges g) (topo g)" "distinct (topo g)" "set (topo g) = {..<gn g}"
    using g by (auto simp: wf_graph_def)
  have rows: "set (succs g v) \<subseteq> {..<gn g}" "set (preds g v) \<subseteq> {..<gn g}" if "v < gn g" for v
    using g that by (auto simp: wf_graph_def)
  have "topo_sorted ((graph_edges g)\<inverse>) (rev (topo g))"
    using topo_sorted_rev [OF ts(1,2)] graph_edges_bound [OF g] ts(3) by simp
  then have tf: "topo_sorted ((nbr_rel (gn g) (succs g))\<inverse>) (rev (topo g))"
    by (simp add: nbr_rel_succs)
  have tr: "topo_sorted ((nbr_rel (gn g) (preds g))\<inverse>) (topo g)"
    using ts(1) by (simp add: nbr_rel_preds [OF g])
  have rt: "distinct (rev (topo g))" "set (rev (topo g)) = {..<gn g}" using ts by simp_all
  note f = sweep_closure [OF n rt rows(1) tf, unfolded nbr_rel_succs]
  note r = sweep_closure [OF n ts(2,3) rows(2) tr, unfolded nbr_rel_preds [OF g]]
  show "length (cfwd (build_closure g)) = gn g * k" "length (crev (build_closure g)) = gn g * k"
    using f(1) r(1) by (simp_all add: build_closure_def Let_def k_def)
  show "\<And>v u. v < gn g \<Longrightarrow> u < 64 * k \<Longrightarrow>
      row_bit k (cfwd (build_closure g)) v u \<longleftrightarrow> (v, u) \<in> (graph_edges g)\<^sup>*"
    and "\<And>v u. v < gn g \<Longrightarrow> u < 64 * k \<Longrightarrow>
      row_bit k (crev (build_closure g)) v u \<longleftrightarrow> (u, v) \<in> (graph_edges g)\<^sup>*"
    using f(2) r(2) by (simp_all add: build_closure_def Let_def k_def rtrancl_converse)
qed

section \<open>What the closure answers\<close>

lemma row_has_iff: "row_has row u \<longleftrightarrow> bit (row ! (u div 64)) (u mod 64)"
  by (simp add: row_has_def bit_iff_odd_drop_bit and_one_eq odd_iff_mod_2_eq_one)

lemma build_closure_sizes [simp]:
  "cn (build_closure g) = gn g" "cwords (build_closure g) = (gn g + 63) div 64"
  by (simp_all add: build_closure_def Let_def)

lemma fwd_row_has:
  assumes "wf_graph g" "v < gn g" "u < 64 * cwords (build_closure g)"
  shows "row_has (fwd_row (build_closure g) v) u \<longleftrightarrow> (v, u) \<in> (graph_edges g)\<^sup>*"
  using build_closure_words(1,3) [OF assms(1)] assms(2,3) div_64_less [of u]
  by (simp add: row_has_iff fwd_row_def row_bit_def row_index_less less_imp_le)

lemma rev_row_nth:
  assumes "wf_graph g" "v < gn g" "j < cwords (build_closure g)"
  shows "rev_row (build_closure g) v ! j = crev (build_closure g) ! (v * cwords (build_closure g) + j)"
  using build_closure_words(2) [OF assms(1)] assms(2,3)
  by (simp add: rev_row_def row_index_less less_imp_le)

lemma rev_row_has:
  assumes "wf_graph g" "v < gn g" "u < 64 * cwords (build_closure g)"
  shows "row_has (rev_row (build_closure g) v) u \<longleftrightarrow> (u, v) \<in> (graph_edges g)\<^sup>*"
  using build_closure_words(4) [OF assms(1)] assms(2,3) div_64_less [OF assms(3)]
  by (simp add: row_has_iff rev_row_nth [OF assms(1,2)] row_bit_def)

lemma closure_row_length:
  assumes "wf_graph g" "v < gn g"
  shows "length (fwd_row (build_closure g) v) = cwords (build_closure g)"
    "length (rev_row (build_closure g) v) = cwords (build_closure g)"
proof -
  let ?k = "cwords (build_closure g)"
  have "v * ?k + ?k \<le> gn g * ?k"
    using assms(2) by (metis add.commute mult_Suc mult_le_mono1 Suc_leI)
  then show "length (fwd_row (build_closure g) v) = ?k" "length (rev_row (build_closure g) v) = ?k"
    using build_closure_words(1,2) [OF assms(1)] by (simp_all add: fwd_row_def rev_row_def)
qed

lemma or_mask_words:
  "length (foldl (\<lambda>m j. m[j := m ! j OR row ! j]) msk [0..<m]) = length msk \<and>
   (m \<le> length msk \<longrightarrow> (\<forall>i < length msk. foldl (\<lambda>m j. m[j := m ! j OR row ! j]) msk [0..<m] ! i =
     (if i < m then msk ! i OR row ! i else (msk ! i :: 64 word))))"
  by (induction m) (auto simp: nth_list_update less_Suc_eq)

lemma or_mask_step:
  assumes g: "wf_graph g" and len: "length msk = cwords (build_closure g)"
  shows "length (or_mask (build_closure g) (gn g) msk s) = length msk"
    and "u < 64 * cwords (build_closure g) \<Longrightarrow>
      row_has (or_mask (build_closure g) (gn g) msk s) u \<longleftrightarrow>
      row_has msk u \<or> 0 \<le> s \<and> s < int (gn g) \<and> (u, nat s) \<in> (graph_edges g)\<^sup>*"
proof -
  let ?k = "cwords (build_closure g)"
  note w = or_mask_words [of "rev_row (build_closure g) (nat s)" msk ?k]
  show "length (or_mask (build_closure g) (gn g) msk s) = length msk"
    using w by (simp add: or_mask_def)
  assume u: "u < 64 * ?k"
  show "row_has (or_mask (build_closure g) (gn g) msk s) u \<longleftrightarrow>
      row_has msk u \<or> 0 \<le> s \<and> s < int (gn g) \<and> (u, nat s) \<in> (graph_edges g)\<^sup>*"
  proof (cases "0 \<le> s \<and> s < int (gn g)")
    case True
    then have "row_has (rev_row (build_closure g) (nat s)) u \<longleftrightarrow> (u, nat s) \<in> (graph_edges g)\<^sup>*"
      using g u by (intro rev_row_has) auto
    with True w len div_64_less [OF u] show ?thesis
      by (simp add: or_mask_def row_has_iff bit_or_iff)
  qed (auto simp: or_mask_def)
qed

lemma or_masks:
  assumes "wf_graph g" "length msk = cwords (build_closure g)" "u < 64 * cwords (build_closure g)"
  shows "row_has (foldl (or_mask (build_closure g) (gn g)) msk seeds) u \<longleftrightarrow>
    row_has msk u \<or> (\<exists>s \<in> seed_nodes (gn g) seeds. (u, s) \<in> (graph_edges g)\<^sup>*)"
  using assms(2)
proof (induction seeds arbitrary: msk)
  case (Cons s seeds)
  have "length (or_mask (build_closure g) (gn g) msk s) = cwords (build_closure g)"
    using or_mask_step(1) [OF assms(1) Cons.prems] Cons.prems by simp
  from Cons.IH [OF this] or_mask_step(2) [OF assms(1) Cons.prems assms(3), of s]
  show ?case by auto
qed simp

lemma closure_reverse_correct:
  assumes g: "wf_graph g"
  shows "closure_reverse (build_closure g) [] seeds (gn g) = sorted_list_of_set (reaching g seeds)"
proof -
  let ?m = "foldl (or_mask (build_closure g) (gn g)) (replicate (cwords (build_closure g)) 0) seeds"
  have sub: "reaching g seeds \<subseteq> {..<gn g}"
  proof
    fix v assume "v \<in> reaching g seeds"
    then obtain s where "s \<in> seed_nodes (gn g) seeds" "(v, s) \<in> (graph_edges g)\<^sup>*"
      by (auto simp: reaching_def)
    moreover from this have "s < gn g" by (auto simp: seed_nodes_def nat_less_iff)
    ultimately have "s < gn g" "(v, s) \<in> (graph_edges g)\<^sup>*" by simp_all
    then show "v \<in> {..<gn g}" using graph_edges_bound [OF g] by (auto elim: converse_rtranclE)
  qed
  have "row_has ?m u \<longleftrightarrow> u \<in> reaching g seeds" if "u < gn g" for u
  proof -
    have u: "u < 64 * cwords (build_closure g)" using that words_enough [of "gn g"] by simp
    have "\<not> row_has (replicate (cwords (build_closure g)) 0) u"
      using div_64_less [OF u] by (simp add: row_has_iff)
    with or_masks [OF g _ u] show ?thesis by (simp add: reaching_def)
  qed
  then have st: "set (filter (row_has ?m) [0..<gn g]) = reaching g seeds" using sub by auto
  have so: "sorted (filter (row_has ?m) [0..<gn g])" "distinct (filter (row_has ?m) [0..<gn g])"
    by (simp_all add: sorted_wrt_filter)
  have "filter (row_has ?m) [0..<gn g] = sorted_list_of_set (reaching g seeds)"
    by (rule sorted_list_of_setI [OF so st])
  then show ?thesis by (simp only: closure_reverse_def Let_def append_Nil build_closure_sizes(1))
qed

lemma reverse_closure_correct:
  "wf_graph g \<Longrightarrow> reverse_closure g [] seeds = sorted_list_of_set (reaching g seeds)"
  by (simp add: reverse_closure_def reverse_closure_bfs_correct closure_reverse_correct)

lemma reachable_correct:
  assumes g: "wf_graph g" and u: "u < gn g" and v: "v < gn g"
  shows "reachable g (int u) (int v) = Some ((u, v) \<in> (graph_edges g)\<^sup>*)"
proof -
  have "v < 64 * cwords (build_closure g)" using v words_enough [of "gn g"] by simp
  with fwd_row_has [OF g u this] u div_64_less [OF this] show ?thesis
    by (simp add: reachable_def closure_reachable_def zdiv_int [symmetric])
qed

section \<open>Counting bits\<close>

lemma ones_count_card: "ones_count w = card {i. i < 64 \<and> bit w i}"
proof -
  have "{i. i < 64 \<and> bit w i} = set (filter (bit w) [0..<64])" by auto
  moreover have "distinct (filter (bit w) [0..<64])" by simp
  ultimately show ?thesis unfolding ones_count_def by (simp only: distinct_card)
qed

lemma sum_ones_count:
  "sum_list (map ones_count row) = card {u. u < 64 * length row \<and> row_has row u}"
proof (induction row rule: rev_induct)
  case (snoc w row)
  let ?L = "length row"
  let ?A = "{u. u < 64 * ?L \<and> row_has row u}" and ?B = "(\<lambda>i. 64 * ?L + i) ` {i. i < 64 \<and> bit w i}"
  have low: "row_has (row @ [w]) u \<longleftrightarrow> row_has row u" if "u < 64 * ?L" for u
    using div_64_less [OF that] by (simp add: row_has_iff nth_append)
  have high: "row_has (row @ [w]) (64 * ?L + i) \<longleftrightarrow> bit w i" if "i < 64" for i
    using that by (simp add: row_has_iff nth_append)
  have "{u. u < 64 * length (row @ [w]) \<and> row_has (row @ [w]) u} = ?A \<union> ?B"
  proof (intro set_eqI iffI)
    fix u assume u: "u \<in> {u. u < 64 * length (row @ [w]) \<and> row_has (row @ [w]) u}"
    show "u \<in> ?A \<union> ?B"
    proof (cases "u < 64 * ?L")
      case False
      then obtain i where i: "u = 64 * ?L + i" using le_Suc_ex not_less by blast
      with u have "i < 64" by simp
      with high [OF this] u i show ?thesis by auto
    qed (use u low in auto)
  qed (use low high in auto)
  moreover have "?A \<inter> ?B = {}" by auto
  moreover have "card ?B = card {i. i < 64 \<and> bit w i}" by (intro card_image) simp
  ultimately show ?case using snoc.IH by (simp add: card_Un_disjoint ones_count_card)
qed (simp add: row_has_iff)

lemma blast_radius_nth:
  assumes g: "wf_graph g" and v: "v < gn g"
  shows "graph_blast_radius g ! v = card {u. (u, v) \<in> (graph_edges g)\<^sup>*}"
proof -
  let ?row = "rev_row (build_closure g) v"
  have "graph_blast_radius g ! v = card {u. u < 64 * length ?row \<and> row_has ?row u}"
    using v by (simp add: graph_blast_radius_def blast_radius_def sum_ones_count)
  also have "{u. u < 64 * length ?row \<and> row_has ?row u} = {u. (u, v) \<in> (graph_edges g)\<^sup>*}"
  proof -
    have "u < 64 * length ?row" if "(u, v) \<in> (graph_edges g)\<^sup>*" for u
    proof -
      have "u < gn g" using that v graph_edges_bound [OF g] by (auto elim: converse_rtranclE)
      then show ?thesis using words_enough [of "gn g"] closure_row_length(2) [OF g v] by simp
    qed
    then show ?thesis using rev_row_has [OF g v] closure_row_length(2) [OF g v] by auto
  qed
  finally show ?thesis .
qed

end
