(* ===== verification/Dep_Paths.thy ===== *)
theory Dep_Paths
  imports Dep_Query
begin

text \<open>
  \<open>PathsFromSeeds\<close> of \<open>src/internal/graph/dependency/query.go\<close>: a breadth-first
  search from the target along its dependencies that reports, for each seed it meets, the
  chain back to the target. Shown here: the loop that follows parents always ends, every
  seed that the target reaches gets exactly one chain, and that chain is a shortest one.
\<close>

section \<open>The search\<close>

text \<open>
  \<open>for c := cur; c != NoID; c = parent[c]\<close>. Nothing in its text bounds the loop, so it
  has fuel; one unit per node is enough (\<open>parent_chain_enough\<close> below).
\<close>

fun parent_chain :: "nat \<Rightarrow> int list \<Rightarrow> int \<Rightarrow> nat list option" where
  "parent_chain fuel par c =
     (if c = NoID then Some []
      else case fuel of
             0 \<Rightarrow> None
           | Suc f \<Rightarrow> map_option ((#) (nat c)) (parent_chain f par (par ! nat c)))"

declare parent_chain.simps [simp del]

definition enqueue_dep :: "nat \<Rightarrow> bool list \<times> int list \<times> nat list \<Rightarrow> nat \<Rightarrow> bool list \<times> int list \<times> nat list" where
  "enqueue_dep cur s dep =
     (case s of (vis, par, q) \<Rightarrow>
        if dep < length vis \<and> \<not> vis ! dep
        then (vis[dep := True], par[dep := int cur], q @ [dep]) else s)"

lemma enqueue_dep_measure:
  "foldl (enqueue_dep cur) (vis, par, q) ds = (vis', par', q') \<Longrightarrow>
    unmarked vis' + length q' = unmarked vis + length q"
proof (induction ds arbitrary: vis par q)
  case (Cons d ds)
  obtain v1 p1 q1 where s1: "enqueue_dep cur (vis, par, q) d = (v1, p1, q1)" by (metis prod_cases3)
  then have "unmarked v1 + length q1 = unmarked vis + length q"
    using length_filter_update [of d vis Not True]
    by (auto simp: enqueue_dep_def unmarked_def split: if_splits)
  moreover from s1 Cons.prems have "foldl (enqueue_dep cur) (v1, p1, q1) ds = (vis', par', q')" by simp
  ultimately show ?case using Cons.IH by simp
qed simp

function search_paths ::
  "graph \<Rightarrow> bool list \<Rightarrow> bool list \<Rightarrow> int list \<Rightarrow> nat list \<Rightarrow> (nat \<times> nat list) list \<Rightarrow>
    (nat \<times> nat list) list option" where
  "search_paths g seedSet vis par [] out = Some out"
| "search_paths g seedSet vis par (cur # q) out =
     (let out' = (if seedSet ! cur
                  then map_option (\<lambda>chain. out @ [(cur, chain)]) (parent_chain (gn g) par (int cur))
                  else Some out)
      in case out' of
           None \<Rightarrow> None
         | Some out'' \<Rightarrow>
             (case foldl (enqueue_dep cur) (vis, par, q) (succs g cur) of
                (vis', par', q') \<Rightarrow> search_paths g seedSet vis' par' q' out''))"
  by pat_completeness auto
termination
  by (relation "measure (\<lambda>(g, ss, vis, par, q, out). unmarked vis + length q)")
     (auto dest!: enqueue_dep_measure [OF sym])

definition seed_marks :: "nat \<Rightarrow> int list \<Rightarrow> bool list" where
  "seed_marks n seeds =
     foldl (\<lambda>m s. if 0 \<le> s \<and> s < int n then m[nat s := True] else m) (replicate n False) seeds"

definition paths_from_seeds :: "graph \<Rightarrow> int \<Rightarrow> int list \<Rightarrow> (nat \<times> nat list) list option" where
  "paths_from_seeds g target seeds =
     (if target < 0 \<or> target \<ge> int (gn g) then Some []
      else map_option (sort_key fst)
             (search_paths g (seed_marks (gn g) seeds) ((replicate (gn g) False)[nat target := True])
                (replicate (gn g) NoID) [nat target] []))"

section \<open>The invariant of the search\<close>

text \<open>
  \<open>lev\<close> is the depth at which a node was met. The queue holds nodes of at most two
  consecutive depths, in order, which is what makes the chains shortest.
\<close>

definition met :: "graph \<Rightarrow> nat \<Rightarrow> (nat \<Rightarrow> nat) \<Rightarrow> bool list \<Rightarrow> int list \<Rightarrow> nat list \<Rightarrow> nat list \<Rightarrow> bool" where
  "met g t lev vis par fin q \<longleftrightarrow>
     length vis = gn g \<and> length par = gn g \<and>
     distinct (fin @ q) \<and> set (fin @ q) = marks vis \<and> t \<in> set (fin @ q) \<and> par ! t = NoID \<and> lev t = 0 \<and>
     (\<forall>v \<in> set (fin @ q). v \<noteq> t \<longrightarrow>
        (\<exists>u \<in> set fin. par ! v = int u \<and> (u, v) \<in> graph_edges g \<and> lev v = Suc (lev u))) \<and>
     sorted (map lev (fin @ q)) \<and> (\<forall>i < length (fin @ q). lev ((fin @ q) ! i) \<le> i)"

definition near :: "(nat \<Rightarrow> nat) \<Rightarrow> nat list \<Rightarrow> nat list \<Rightarrow> bool" where
  "near lev fin q \<longleftrightarrow> (q \<noteq> [] \<longrightarrow> (\<forall>v \<in> set (fin @ q). lev v \<le> Suc (lev (hd q))))"

definition explored :: "graph \<Rightarrow> (nat \<Rightarrow> nat) \<Rightarrow> nat set \<Rightarrow> nat set \<Rightarrow> bool" where
  "explored g lev us vs \<longleftrightarrow>
     (\<forall>u \<in> us. \<forall>w. (u, w) \<in> graph_edges g \<longrightarrow> w \<in> vs \<and> lev w \<le> Suc (lev u))"

lemma met_length: "met g t lev vis par fin q \<Longrightarrow> length (fin @ q) \<le> gn g"
proof -
  assume m: "met g t lev vis par fin q"
  have "length (fin @ q) = card (marks vis)" using m by (metis met_def distinct_card)
  also have "\<dots> \<le> card {..<length vis}" by (intro card_mono) (auto simp: marks_def)
  finally show ?thesis using m by (simp add: met_def)
qed

lemma met_level_bound: "met g t lev vis par fin q \<Longrightarrow> v \<in> set (fin @ q) \<Longrightarrow> lev v < gn g"
proof -
  assume m: "met g t lev vis par fin q" and v: "v \<in> set (fin @ q)"
  from v obtain i where "i < length (fin @ q)" "(fin @ q) ! i = v" by (metis in_set_conv_nth)
  with m met_length [OF m] show ?thesis by (auto simp: met_def)
qed

text \<open>One new dependency of the node being processed.\<close>

lemma met_new:
  assumes m: "met g t lev vis par (fin @ [cur]) q"
    and e: "(cur, d) \<in> graph_edges g" and d: "d < gn g" "\<not> vis ! d"
    and top: "\<forall>v \<in> set (fin @ [cur] @ q). lev v \<le> Suc (lev cur)"
  shows "met g t (lev(d := Suc (lev cur))) (vis[d := True]) (par[d := int cur]) (fin @ [cur]) (q @ [d])"
proof -
  let ?xs = "(fin @ [cur]) @ q" and ?lev = "lev(d := Suc (lev cur))"
  have new: "d \<notin> set ?xs" and dt: "d \<noteq> t" using m d unfolding met_def marks_def by auto
  have same: "map ?lev ?xs = map lev ?xs" using new by (intro map_cong) auto
  have idx: "lev cur \<le> length fin"
    using m unfolding met_def by (metis Suc_lessI length_append length_append_singleton lessI
        less_Suc_eq_le nth_append_length nth_append trans_less_add1)
  have lv: "?lev ((?xs @ [d]) ! i) \<le> i" if "i < length (?xs @ [d])" for i
  proof (cases "i < length ?xs")
    case True
    then have "?xs ! i \<noteq> d" using new nth_mem by metis
    moreover have "(?xs @ [d]) ! i = ?xs ! i" using True by (rule nth_append_left)
    moreover have "lev (?xs ! i) \<le> i" using True m unfolding met_def by blast
    ultimately show ?thesis by (simp only: fun_upd_apply if_False)
  next
    case False
    then have "i = length ?xs" using that by simp
    with idx show ?thesis by (simp add: nth_append)
  qed
  have par: "\<exists>u \<in> set (fin @ [cur]). par[d := int cur] ! v = int u \<and> (u, v) \<in> graph_edges g \<and> ?lev v = Suc (?lev u)"
    if v: "v \<in> set (?xs @ [d])" "v \<noteq> t" for v
  proof (cases "v = d")
    case True
    then show ?thesis using e d m new by (auto simp: met_def)
  next
    case False
    then have "v \<in> set ?xs" using v by simp
    with m v(2) obtain u where u: "u \<in> set (fin @ [cur])" "par ! v = int u" "(u, v) \<in> graph_edges g"
      "lev v = Suc (lev u)" unfolding met_def by blast
    moreover have "u \<noteq> d" using u(1) new by auto
    ultimately show ?thesis using False by auto
  qed
  have len: "length vis = gn g" "length par = gn g" and di: "distinct ?xs"
    and mk: "set ?xs = marks vis" and t: "t \<in> set ?xs" "par ! t = NoID" "lev t = 0"
    and so: "sorted (map lev ?xs)"
    using m unfolding met_def by blast+
  have "marks (vis[d := True]) = insert d (marks vis)" using len d by (simp add: marks_update)
  then have mk': "set (?xs @ [d]) = marks (vis[d := True])" using mk by auto
  have "sorted (map lev ?xs @ [Suc (lev cur)])" using so top by (auto simp: sorted_append)
  moreover have "map ?lev (?xs @ [d]) = map lev ?xs @ [Suc (lev cur)]"
    by (simp only: map_append [of _ ?xs] same list.map fun_upd_same)
  ultimately have so': "sorted (map ?lev (?xs @ [d]))" by (simp only:)
  have di': "distinct (?xs @ [d])" using di new by simp
  have t': "par[d := int cur] ! t = NoID" "?lev t = 0" "t \<in> set (?xs @ [d])" using t dt by auto
  have "(fin @ [cur]) @ q @ [d] = ?xs @ [d]" by simp
  then show ?thesis
    unfolding met_def using len di' mk' so' t' lv par by (metis length_list_update)
qed

lemma met_row:
  assumes "foldl (enqueue_dep cur) (vis, par, q) ds = (vis', par', q')"
    and "met g t lev vis par (fin @ [cur]) q"
    and "\<forall>d \<in> set ds. (cur, d) \<in> graph_edges g \<and> d < gn g"
    and "\<forall>v \<in> set (fin @ [cur] @ q). lev v \<le> Suc (lev cur)"
  shows "\<exists>lev'. met g t lev' vis' par' (fin @ [cur]) q' \<and>
    (\<forall>v \<in> set (fin @ [cur] @ q). lev' v = lev v) \<and> set q \<subseteq> set q' \<and>
    (\<forall>v \<in> set (fin @ [cur] @ q'). lev' v \<le> Suc (lev cur)) \<and>
    set ds \<subseteq> set (fin @ [cur] @ q')"
  using assms
proof (induction ds arbitrary: vis par q lev)
  case (Cons d ds)
  show ?case
  proof (cases "vis ! d")
    case True
    then have "d \<in> set (fin @ [cur] @ q)" using Cons.prems(2,3) by (auto simp: met_def marks_def)
    moreover have "enqueue_dep cur (vis, par, q) d = (vis, par, q)" using True by (simp add: enqueue_dep_def)
    ultimately show ?thesis using Cons.IH [of vis par q lev] Cons.prems by auto
  next
    case False
    have e: "(cur, d) \<in> graph_edges g" "d < gn g" using Cons.prems(3) by auto
    let ?lev = "lev(d := Suc (lev cur))"
    have m: "met g t ?lev (vis[d := True]) (par[d := int cur]) (fin @ [cur]) (q @ [d])"
      by (rule met_new [OF Cons.prems(2) e False Cons.prems(4)])
    have new: "d \<notin> set (fin @ [cur] @ q)"
      using False Cons.prems(2) unfolding met_def marks_def by auto
    have "enqueue_dep cur (vis, par, q) d = (vis[d := True], par[d := int cur], q @ [d])"
      using False e Cons.prems(2) by (simp add: enqueue_dep_def met_def)
    with Cons.IH [OF _ m] Cons.prems new obtain lev' where
      "met g t lev' vis' par' (fin @ [cur]) q'"
      "\<forall>v \<in> set (fin @ [cur] @ q @ [d]). lev' v = ?lev v" "set (q @ [d]) \<subseteq> set q'"
      "\<forall>v \<in> set (fin @ [cur] @ q'). lev' v \<le> Suc (lev cur)" "set ds \<subseteq> set (fin @ [cur] @ q')"
      by (fastforce split: if_splits)
    with new show ?thesis by (intro exI [of _ lev']) auto
  qed
qed auto

lemma search_step:
  assumes "foldl (enqueue_dep cur) (vis, par, q) (succs g cur) = (vis', par', q')"
    and g: "wf_graph g" and m: "met g t lev vis par fin (cur # q)"
    and n: "near lev fin (cur # q)" and ex: "explored g lev (set fin) (set (fin @ cur # q))"
  shows "\<exists>lev'. met g t lev' vis' par' (fin @ [cur]) q' \<and> near lev' (fin @ [cur]) q' \<and>
    explored g lev' (set (fin @ [cur])) (set ((fin @ [cur]) @ q')) \<and>
    (\<forall>v \<in> set (fin @ [cur]). lev' v = lev v)"
proof -
  have m': "met g t lev vis par (fin @ [cur]) q" using m unfolding met_def by auto
  have cur: "cur < gn g" using m by (auto simp: met_def marks_def)
  have ds: "\<forall>d \<in> set (succs g cur). (cur, d) \<in> graph_edges g \<and> d < gn g"
    using g cur by (auto simp: graph_edges_def wf_graph_def)
  have top: "\<forall>v \<in> set (fin @ [cur] @ q). lev v \<le> Suc (lev cur)" using n by (auto simp: near_def)
  obtain lev' where l: "met g t lev' vis' par' (fin @ [cur]) q'"
    "\<forall>v \<in> set (fin @ [cur] @ q). lev' v = lev v" "set q \<subseteq> set q'"
    "\<forall>v \<in> set (fin @ [cur] @ q'). lev' v \<le> Suc (lev cur)" "set (succs g cur) \<subseteq> set (fin @ [cur] @ q')"
    using met_row [OF assms(1) m' ds top] by blast
  have "near lev' (fin @ [cur]) q'"
    unfolding near_def
  proof (intro impI ballI)
    fix v assume q: "q' \<noteq> []" and v: "v \<in> set ((fin @ [cur]) @ q')"
    have "lev' cur \<le> lev' (hd q')"
      using l(1) q by (cases q') (auto simp: met_def sorted_append)
    moreover have "lev' v \<le> Suc (lev cur)" "lev' cur = lev cur" using l(2,4) v by auto
    ultimately show "lev' v \<le> Suc (lev' (hd q'))" by simp
  qed
  moreover have "explored g lev' (set (fin @ [cur])) (set ((fin @ [cur]) @ q'))"
    unfolding explored_def
  proof (intro ballI allI impI)
    fix u w assume u: "u \<in> set (fin @ [cur])" and e: "(u, w) \<in> graph_edges g"
    show "w \<in> set ((fin @ [cur]) @ q') \<and> lev' w \<le> Suc (lev' u)"
    proof (cases "u = cur")
      case True
      then have "w \<in> set (succs g cur)" using e by (auto simp: graph_edges_def)
      then show ?thesis using l(2,4,5) True by (metis UnCI append_assoc in_set_conv_decomp set_append subsetD)
    next
      case False
      then have "w \<in> set (fin @ [cur] @ q)" "lev w \<le> Suc (lev u)"
        using ex u e by (auto simp: explored_def)
      moreover have "lev' u = lev u" using u l(2) by auto
      ultimately show ?thesis using l(2,3) by auto
    qed
  qed
  moreover have "\<forall>v \<in> set (fin @ [cur]). lev' v = lev v" using l(2) by simp
  ultimately show ?thesis using l(1) by blast
qed

section \<open>The chains\<close>

definition chain_of :: "graph \<Rightarrow> nat \<Rightarrow> nat \<Rightarrow> nat list \<Rightarrow> bool" where
  "chain_of g t v xs \<longleftrightarrow>
     xs \<noteq> [] \<and> hd xs = v \<and> last xs = t \<and> successively (\<lambda>a b. (b, a) \<in> graph_edges g) xs"

lemma parent_chain_enough:
  assumes m: "met g t lev vis par fin q"
  shows "v \<in> set (fin @ q) \<Longrightarrow> lev v < fuel \<Longrightarrow>
    \<exists>xs. parent_chain fuel par (int v) = Some xs \<and> chain_of g t v xs \<and> length xs = Suc (lev v)"
proof (induction fuel arbitrary: v)
  case (Suc f)
  have nid: "int v \<noteq> NoID" for v by (simp add: NoID_def)
  show ?case
  proof (cases "v = t")
    case True
    then have "parent_chain (Suc f) par (int v) = Some [t]"
      using m nid [of v] by (simp add: parent_chain.simps [of "Suc f"] parent_chain.simps [of f] met_def)
    with True m show ?thesis by (simp add: chain_of_def met_def)
  next
    case False
    then obtain u where u: "u \<in> set fin" "par ! v = int u" "(u, v) \<in> graph_edges g" "lev v = Suc (lev u)"
      using m Suc.prems(1) unfolding met_def by blast
    then obtain xs where xs: "parent_chain f par (int u) = Some xs" "chain_of g t u xs" "length xs = Suc (lev u)"
      using Suc.IH [of u] Suc.prems(2) by auto
    then have "parent_chain (Suc f) par (int v) = Some (v # xs)"
      using nid [of v] u(2) by (simp add: parent_chain.simps [of "Suc f"])
    moreover have "chain_of g t v (v # xs)"
      using xs(2) u(3) by (cases xs) (auto simp: chain_of_def)
    ultimately show ?thesis using xs(3) u(4) by simp
  qed
qed simp

text \<open>A node met at depth \<open>lev\<close> is at distance \<open>lev\<close> once everything is explored.\<close>

lemma explored_distance:
  assumes "explored g lev vs vs" "t \<in> vs" "lev t = 0"
  shows "(t, v) \<in> graph_edges g ^^ k \<Longrightarrow> v \<in> vs \<and> lev v \<le> k"
proof (induction k arbitrary: v)
  case (Suc k)
  then obtain u where "(t, u) \<in> graph_edges g ^^ k" "(u, v) \<in> graph_edges g" by auto
  with Suc.IH [of u] assms(1) show ?case by (fastforce simp: explored_def)
qed (use assms in auto)

section \<open>What the search returns\<close>

definition good_out :: "graph \<Rightarrow> nat \<Rightarrow> bool list \<Rightarrow> nat list \<Rightarrow> (nat \<Rightarrow> nat) \<Rightarrow> (nat \<times> nat list) list \<Rightarrow> bool" where
  "good_out g t ss fin lev out \<longleftrightarrow>
     map fst out = filter ((!) ss) fin \<and>
     (\<forall>(s, xs) \<in> set out. chain_of g t s xs \<and> length xs = Suc (lev s))"

lemma search_paths_result:
  assumes "wf_graph g" "met g t lev vis par fin q" "near lev fin q"
    "explored g lev (set fin) (set (fin @ q))" "good_out g t ss fin lev out"
  shows "\<exists>res lev' vis' par' fin'. search_paths g ss vis par q out = Some res \<and>
    met g t lev' vis' par' fin' [] \<and> explored g lev' (set fin') (set fin') \<and> good_out g t ss fin' lev' res"
  using assms
proof (induction g ss vis par q out arbitrary: fin lev rule: search_paths.induct)
  case (1 g ss vis par out)
  then show ?case by (intro exI [of _ out] exI [of _ lev] exI) auto
next
  case (2 g ss vis par cur q out)
  obtain vis' par' q' where f: "foldl (enqueue_dep cur) (vis, par, q) (succs g cur) = (vis', par', q')"
    by (metis prod_cases3)
  obtain lev' where l: "met g t lev' vis' par' (fin @ [cur]) q'" "near lev' (fin @ [cur]) q'"
    "explored g lev' (set (fin @ [cur])) (set ((fin @ [cur]) @ q'))"
    "\<forall>v \<in> set (fin @ [cur]). lev' v = lev v"
    using search_step [OF f 2(2-5)] by blast
  have "cur \<in> set (fin @ cur # q)" by simp
  from parent_chain_enough [OF 2(3) this met_level_bound [OF 2(3) this]]
  obtain xs where xs: "parent_chain (gn g) par (int cur) = Some xs" "chain_of g t cur xs"
    "length xs = Suc (lev cur)" by blast
  let ?out = "if ss ! cur then out @ [(cur, xs)] else out"
  have "good_out g t ss (fin @ [cur]) lev' ?out"
    unfolding good_out_def
  proof
    show "map fst ?out = filter ((!) ss) (fin @ [cur])" using 2(6) by (simp add: good_out_def)
    have "fst ` set out \<subseteq> set fin" using 2(6) unfolding good_out_def
      by (metis filter_is_subset list.set_map)
    then have "lev' s = lev s" if "(s, ys) \<in> set out" for s ys using that l(4) by force
    then show "\<forall>(s, ys) \<in> set ?out. chain_of g t s ys \<and> length ys = Suc (lev' s)"
      using 2(6) xs l(4) by (auto simp: good_out_def)
  qed
  moreover have "search_paths g ss vis par (cur # q) out = search_paths g ss vis' par' q' ?out"
    by (simp add: xs(1) f)
  ultimately show ?case
    using 2(1) [OF refl _ f [symmetric] refl 2(2) l(1-3), of ?out] by (auto simp: xs(1))
qed

lemma seed_marks_nth:
  "length (seed_marks n seeds) = n \<and> (\<forall>v < n. seed_marks n seeds ! v \<longleftrightarrow> v \<in> seed_nodes n seeds)"
proof -
  let ?f = "\<lambda>m s. if 0 \<le> s \<and> s < int n then m[nat s := True] else m"
  have "length (foldl ?f m seeds) = n \<and> (\<forall>v < n. foldl ?f m seeds ! v \<longleftrightarrow> m ! v \<or> v \<in> seed_nodes n seeds)"
    if "length m = n" for m
    using that
  proof (induction seeds arbitrary: m)
    case (Cons s seeds)
    have "length (?f m s) = n" using Cons.prems by simp
    from Cons.IH [OF this] Cons.prems show ?case
      by (auto simp: nth_list_update seed_nodes_Cons split: if_splits)
  qed simp
  from this [of "replicate n False"] show ?thesis by (simp add: seed_marks_def)
qed

lemma search_start:
  assumes "t < gn g"
  shows "met g t (\<lambda>_. 0) ((replicate (gn g) False)[t := True]) (replicate (gn g) NoID) [] [t]"
    and "near (\<lambda>_. 0) [] [t]" and "explored g (\<lambda>_. 0) (set []) (set ([] @ [t]))"
  using assms by (auto simp: met_def near_def explored_def marks_def nth_list_update)

lemma paths_from_seeds_correct:
  assumes g: "wf_graph g" and t: "t < gn g"
  obtains out where "paths_from_seeds g (int t) seeds = Some out"
    and "map fst out = sorted_list_of_set {s \<in> seed_nodes (gn g) seeds. (t, s) \<in> (graph_edges g)\<^sup>*}"
    and "\<And>s xs. (s, xs) \<in> set out \<Longrightarrow> chain_of g t s xs"
    and "\<And>s xs k. (s, xs) \<in> set out \<Longrightarrow> (t, s) \<in> graph_edges g ^^ k \<Longrightarrow> length xs \<le> Suc k"
proof -
  let ?ss = "seed_marks (gn g) seeds"
  have "good_out g t ?ss [] (\<lambda>_. 0) []" by (simp add: good_out_def)
  then obtain res lev vis par fin where r:
    "search_paths g ?ss ((replicate (gn g) False)[t := True]) (replicate (gn g) NoID) [t] [] = Some res"
    "met g t lev vis par fin []" "explored g lev (set fin) (set fin)" "good_out g t ?ss fin lev res"
    using search_paths_result [OF g search_start [OF t]] by blast
  have fin: "distinct fin" "t \<in> set fin" "lev t = 0" "set fin \<subseteq> {..<gn g}"
    using r(2) by (auto simp: met_def marks_def)
  have reach: "v \<in> set fin \<longleftrightarrow> (t, v) \<in> (graph_edges g)\<^sup>*" for v
  proof
    assume "(t, v) \<in> (graph_edges g)\<^sup>*"
    then show "v \<in> set fin"
      using explored_distance [OF r(3) fin(2,3)] by (metis rtrancl_imp_relpow)
  next
    assume "v \<in> set fin"
    then have "v \<in> set (fin @ [])" by simp
    from parent_chain_enough [OF r(2) this met_level_bound [OF r(2) this]]
    obtain xs where "chain_of g t v xs" by blast
    then show "(t, v) \<in> (graph_edges g)\<^sup>*"
    proof (induction xs arbitrary: v)
      case (Cons a xs)
      show ?case
      proof (cases xs)
        case (Cons b ys)
        with Cons.prems have "chain_of g t b xs" "(b, v) \<in> graph_edges g" by (auto simp: chain_of_def)
        with Cons.IH show ?thesis by (meson rtrancl.rtrancl_into_rtrancl)
      qed (use Cons.prems in \<open>auto simp: chain_of_def\<close>)
    qed (simp add: chain_of_def)
  qed
  let ?S = "{s \<in> seed_nodes (gn g) seeds. (t, s) \<in> (graph_edges g)\<^sup>*}"
  let ?out = "sort_key fst res"
  have keys: "map fst res = filter ((!) ?ss) fin" using r(4) by (simp add: good_out_def)
  have "set (map fst res) = ?S" using keys fin(4) reach seed_marks_nth [of "gn g" seeds] by auto
  then have st: "set (map fst ?out) = ?S" by simp
  have "distinct (map fst res)" using keys fin(1) by simp
  then have di: "distinct (map fst ?out)" by (simp add: distinct_map)
  have so: "sorted (map fst ?out)" by (rule sorted_sort_key)
  have eq: "map fst ?out = sorted_list_of_set ?S" by (rule sorted_list_of_setI [OF so di st])
  show ?thesis
  proof (rule that)
    show "paths_from_seeds g (int t) seeds = Some ?out" 
      using t r(1) by (simp add: paths_from_seeds_def del: search_paths.simps)
    show "map fst ?out = sorted_list_of_set ?S" by (rule eq)
    fix s xs assume sx: "(s, xs) \<in> set ?out"
    then have c: "chain_of g t s xs" "length xs = Suc (lev s)" using r(4) by (auto simp: good_out_def)
    then show "chain_of g t s xs" by simp
    show "length xs \<le> Suc k" if "(t, s) \<in> graph_edges g ^^ k" for k
      using explored_distance [OF r(3) fin(2,3) that] c(2) by simp
  qed
qed

end
