(* ===== verification/Hint_Distance.thy ===== *)
theory Hint_Distance
  imports Magus_Prelude
begin

text \<open>
  The did-you-mean distance, \<open>src/internal/hint/nearest.go\<close>: Levenshtein's distance
  between two strings, counted in runes, by a table of which two rows are kept. The
  specification is the least number of edits that turn one list into the other.
\<close>

section \<open>Runes\<close>

text \<open>
  \<open>[]rune(s)\<close>: Go decodes UTF-8 and reads every byte that starts no valid sequence as
  U+FFFD.
\<close>

definition continuation :: "nat \<Rightarrow> bool" where
  "continuation c \<longleftrightarrow> 128 \<le> c \<and> c \<le> 191"

fun decode_runes :: "nat list \<Rightarrow> nat list" where
  "decode_runes [] = []"
| "decode_runes (b # bs) =
     (if b < 128 then b # decode_runes bs
      else case bs of
        c # cs \<Rightarrow>
          if 194 \<le> b \<and> b \<le> 223 \<and> continuation c
          then ((b - 192) * 64 + (c - 128)) # decode_runes cs
          else (case cs of
            d # ds \<Rightarrow>
              if 224 \<le> b \<and> b \<le> 239 \<and> continuation c \<and> continuation d \<and>
                 (b = 224 \<longrightarrow> 160 \<le> c) \<and> (b = 237 \<longrightarrow> c \<le> 159)
              then ((b - 224) * 4096 + (c - 128) * 64 + (d - 128)) # decode_runes ds
              else (case ds of
                e # es \<Rightarrow>
                  if 240 \<le> b \<and> b \<le> 244 \<and> continuation c \<and> continuation d \<and> continuation e \<and>
                     (b = 240 \<longrightarrow> 144 \<le> c) \<and> (b = 244 \<longrightarrow> c \<le> 143)
                  then ((b - 240) * 262144 + (c - 128) * 4096 + (d - 128) * 64 + (e - 128)) # decode_runes es
                  else 65533 # decode_runes bs
              | [] \<Rightarrow> 65533 # decode_runes bs)
          | [] \<Rightarrow> 65533 # decode_runes bs)
      | [] \<Rightarrow> 65533 # decode_runes bs)"

definition runes :: "string \<Rightarrow> nat list" where
  "runes s = decode_runes (map of_char s)"

section \<open>The two-row table\<close>

text \<open>One cell: \<open>cur[j] = min(prev[j-1]+cost, min(cur[j-1]+1, prev[j]+1))\<close>.\<close>

definition fill_cell :: "'a \<Rightarrow> 'a list \<Rightarrow> nat list \<Rightarrow> nat list \<Rightarrow> nat \<Rightarrow> nat list" where
  "fill_cell x rb prev cur j =
     (let cost = (if x = rb ! (j - 1) then 0 else 1)
      in cur[j := min (prev ! (j - 1) + cost) (min (cur ! (j - 1) + 1) (prev ! j + 1))])"

text \<open>One pass of the outer loop, with the two rows swapped at its end.\<close>

definition next_rows :: "'a list \<Rightarrow> 'a list \<Rightarrow> nat list \<times> nat list \<Rightarrow> nat \<Rightarrow> nat list \<times> nat list" where
  "next_rows ra rb rows i =
     (case rows of (prev, cur) \<Rightarrow>
        (foldl (fill_cell (ra ! (i - 1)) rb prev) (cur[0 := i]) [1..<Suc (length rb)], prev))"

definition table_distance :: "'a list \<Rightarrow> 'a list \<Rightarrow> nat" where
  "table_distance ra rb =
     (let prev = [0..<Suc (length rb)]; cur = replicate (Suc (length rb)) 0
      in fst (foldl (next_rows ra rb) (prev, cur) [1..<Suc (length ra)]) ! length rb)"

definition Distance :: "string \<Rightarrow> string \<Rightarrow> nat" where
  "Distance a b =
     (if a = b then 0
      else let ra = runes a; rb = runes b
           in if length ra = 0 then length rb
              else if length rb = 0 then length ra
              else table_distance ra rb)"

text \<open>\<open>Threshold\<close>: how many edits a suggestion may be away.\<close>

definition Threshold :: "string \<Rightarrow> nat" where
  "Threshold typed = (if length (runes typed) \<ge> 8 then 3 else 2)"

section \<open>Edit scripts\<close>

inductive edits :: "'a list \<Rightarrow> 'a list \<Rightarrow> nat \<Rightarrow> bool" where
  nil: "edits [] [] 0"
| keep: "edits xs ys n \<Longrightarrow> edits (x # xs) (x # ys) n"
| subst: "edits xs ys n \<Longrightarrow> edits (x # xs) (y # ys) (Suc n)"
| insert: "edits xs ys n \<Longrightarrow> edits xs (y # ys) (Suc n)"
| delete: "edits xs ys n \<Longrightarrow> edits (x # xs) ys (Suc n)"

definition edit_distance :: "'a list \<Rightarrow> 'a list \<Rightarrow> nat" where
  "edit_distance xs ys = (LEAST n. edits xs ys n)"

inductive_cases edits_NilE: "edits [] ys n"
inductive_cases edits_Nil2E: "edits xs [] n"
inductive_cases edits_ConsE: "edits (x # xs) (y # ys) n"

lemma edits_append: "edits xs ys n \<Longrightarrow> edits us vs m \<Longrightarrow> edits (xs @ us) (ys @ vs) (n + m)"
  by (induction xs ys n rule: edits.induct) (auto intro: edits.intros)

lemma edits_rev: "edits xs ys n \<Longrightarrow> edits (rev xs) (rev ys) n"
proof (induction xs ys n rule: edits.induct)
  case (keep xs ys n x)
  from edits_append [OF keep.IH edits.keep [OF edits.nil, of x]] show ?case by simp
next
  case (subst xs ys n x y)
  from edits_append [OF subst.IH edits.subst [OF edits.nil, of x y]] show ?case by simp
next
  case (insert xs ys n y)
  from edits_append [OF insert.IH edits.insert [OF edits.nil, of y]] show ?case by simp
next
  case (delete xs ys n x)
  from edits_append [OF delete.IH edits.delete [OF edits.nil, of x]] show ?case by simp
qed (simp add: edits.nil)

lemma edits_rev_iff: "edits (rev xs) (rev ys) n \<longleftrightarrow> edits xs ys n"
  using edits_rev [of xs ys n] edits_rev [of "rev xs" "rev ys" n] by auto

lemma edits_all: "edits [] ys (length ys)" "edits xs [] (length xs)"
  by (induction ys; auto intro: edits.intros) (induction xs; auto intro: edits.intros)

lemma edits_length: "edits xs ys n \<Longrightarrow> length ys \<le> n + length xs \<and> length xs \<le> n + length ys"
  by (induction rule: edits.induct) auto

lemma edit_distance_edits: "edits xs ys (edit_distance xs ys)"
proof -
  have "edits xs ys (length xs + length ys)"
    using edits_append [OF edits_all(2) [of xs] edits_all(1) [of ys]] by simp
  then show ?thesis unfolding edit_distance_def by (rule LeastI)
qed

lemma edit_distance_le: "edits xs ys n \<Longrightarrow> edit_distance xs ys \<le> n"
  unfolding edit_distance_def by (rule Least_le)

lemma edit_distance_eqI: "edits xs ys n \<Longrightarrow> (\<And>m. edits xs ys m \<Longrightarrow> n \<le> m) \<Longrightarrow> edit_distance xs ys = n"
  unfolding edit_distance_def by (rule Least_equality)

lemma edit_distance_Nil [simp]: "edit_distance [] ys = length ys" "edit_distance xs [] = length xs"
  by (rule edit_distance_eqI [OF edits_all(1)], use edits_length in force)
     (rule edit_distance_eqI [OF edits_all(2)], use edits_length in force)

text \<open>A script never does better by not keeping an element the two lists share.\<close>

lemma edit_distance_Cons:
  "edit_distance (x # xs) (y # ys) =
     min (edit_distance xs ys + (if x = y then 0 else 1))
       (min (edit_distance (x # xs) ys + 1) (edit_distance xs (y # ys) + 1))" (is "_ = ?r")
proof (rule edit_distance_eqI)
  have "edits (x # xs) (y # ys) (edit_distance xs ys + (if x = y then 0 else 1))"
    using edit_distance_edits [of xs ys] by (auto intro: edits.intros)
  moreover have "edits (x # xs) (y # ys) (edit_distance (x # xs) ys + 1)"
    using edits.insert [OF edit_distance_edits [of "x # xs" ys]] by simp
  moreover have "edits (x # xs) (y # ys) (edit_distance xs (y # ys) + 1)"
    using edits.delete [OF edit_distance_edits [of xs "y # ys"]] by simp
  ultimately show "edits (x # xs) (y # ys) ?r" unfolding min_def by auto
next
  fix m assume "edits (x # xs) (y # ys) m"
  then show "?r \<le> m" by (rule edits_ConsE) (auto dest!: edit_distance_le)
qed

lemma edit_distance_rev: "edit_distance (rev xs) (rev ys) = edit_distance xs ys"
  by (simp add: edit_distance_def edits_rev_iff)

lemma edit_distance_refl [simp]: "edit_distance xs xs = 0"
proof -
  have "edits xs xs 0" by (induction xs) (auto intro: edits.intros)
  then show ?thesis using edit_distance_le by fastforce
qed

section \<open>The table is the distance of prefixes\<close>

definition prefix_distance :: "'a list \<Rightarrow> 'a list \<Rightarrow> nat \<Rightarrow> nat \<Rightarrow> nat" where
  "prefix_distance ra rb i j = edit_distance (take i ra) (take j rb)"

lemma prefix_distance_0 [simp]:
  "j \<le> length rb \<Longrightarrow> prefix_distance ra rb 0 j = j" "i \<le> length ra \<Longrightarrow> prefix_distance ra rb i 0 = i"
  by (simp_all add: prefix_distance_def)

lemma prefix_distance_Suc:
  assumes "i < length ra" "j < length rb"
  shows "prefix_distance ra rb (Suc i) (Suc j) =
    min (prefix_distance ra rb i j + (if ra ! i = rb ! j then 0 else 1))
      (min (prefix_distance ra rb (Suc i) j + 1) (prefix_distance ra rb i (Suc j) + 1))"
proof -
  have r: "rev (take (Suc i) ra) = ra ! i # rev (take i ra)" "rev (take (Suc j) rb) = rb ! j # rev (take j rb)"
    using assms by (simp_all add: take_Suc_conv_app_nth)
  show ?thesis
    unfolding prefix_distance_def
    by (subst (1 2 3 4) edit_distance_rev [symmetric]) (simp only: r edit_distance_Cons)
qed

lemma upt_1_Suc: "[1..<Suc (Suc m)] = [1..<Suc m] @ [Suc m]"
  by simp

lemma fill_cells:
  assumes prev: "length prev = Suc (length rb)" "\<And>j. j \<le> length rb \<Longrightarrow> prev ! j = prefix_distance ra rb i j"
    and i: "i < length ra" and cur: "length cur = Suc (length rb)" "cur ! 0 = Suc i"
    and m: "m \<le> length rb"
  shows "length (foldl (fill_cell (ra ! i) rb prev) cur [1..<Suc m]) = Suc (length rb) \<and>
    (\<forall>j \<le> m. foldl (fill_cell (ra ! i) rb prev) cur [1..<Suc m] ! j = prefix_distance ra rb (Suc i) j)"
  using m
proof (induction m)
  case (Suc m)
  let ?c = "foldl (fill_cell (ra ! i) rb prev) cur [1..<Suc m]"
  have c: "length ?c = Suc (length rb)" "\<And>j. j \<le> m \<Longrightarrow> ?c ! j = prefix_distance ra rb (Suc i) j"
    using Suc by auto
  have "prefix_distance ra rb (Suc i) (Suc m) =
      min (prev ! m + (if ra ! i = rb ! m then 0 else 1)) (min (?c ! m + 1) (prev ! Suc m + 1))"
    using prefix_distance_Suc [OF i, of m rb] Suc.prems prev c by simp
  then have upd: "fill_cell (ra ! i) rb prev ?c (Suc m) = ?c[Suc m := prefix_distance ra rb (Suc i) (Suc m)]"
    by (simp only: fill_cell_def Let_def diff_Suc_1)
  have "foldl (fill_cell (ra ! i) rb prev) cur [1..<Suc (Suc m)] =
      ?c[Suc m := prefix_distance ra rb (Suc i) (Suc m)]"
    by (simp only: upt_1_Suc foldl_append foldl.simps upd)
  moreover have "?c[Suc m := prefix_distance ra rb (Suc i) (Suc m)] ! j = prefix_distance ra rb (Suc i) j"
    if "j \<le> Suc m" for j
    using that c Suc.prems by (cases "j = Suc m") (simp_all only: le_Suc_eq nth_list_update, auto)
  ultimately show ?case using c(1) by (simp only: length_list_update) blast
qed (use assms in simp)

lemma next_rows_correct:
  assumes "m \<le> length ra"
  shows "\<exists>prev cur. foldl (next_rows ra rb) ([0..<Suc (length rb)], replicate (Suc (length rb)) 0) [1..<Suc m] =
      (prev, cur) \<and> length prev = Suc (length rb) \<and> length cur = Suc (length rb) \<and>
      (\<forall>j \<le> length rb. prev ! j = prefix_distance ra rb m j)"
  using assms
proof (induction m)
  case (Suc m)
  then obtain prev cur where
    ih: "foldl (next_rows ra rb) ([0..<Suc (length rb)], replicate (Suc (length rb)) 0) [1..<Suc m] = (prev, cur)"
    "length prev = Suc (length rb)" "length cur = Suc (length rb)"
    "\<And>j. j \<le> length rb \<Longrightarrow> prev ! j = prefix_distance ra rb m j" by auto
  have "length (cur[0 := Suc m]) = Suc (length rb)" "cur[0 := Suc m] ! 0 = Suc m" using ih(3) by simp_all
  from fill_cells [OF ih(2,4) _ this order_refl] Suc.prems
  have row: "length (foldl (fill_cell (ra ! m) rb prev) (cur[0 := Suc m]) [1..<Suc (length rb)]) = Suc (length rb) \<and>
    (\<forall>j \<le> length rb. foldl (fill_cell (ra ! m) rb prev) (cur[0 := Suc m]) [1..<Suc (length rb)] ! j =
      prefix_distance ra rb (Suc m) j)" by simp
  have "foldl (next_rows ra rb) ([0..<Suc (length rb)], replicate (Suc (length rb)) 0) [1..<Suc (Suc m)] =
      (foldl (fill_cell (ra ! m) rb prev) (cur[0 := Suc m]) [1..<Suc (length rb)], prev)"
    by (simp only: upt_1_Suc foldl_append foldl.simps ih(1)) (simp only: next_rows_def prod.case diff_Suc_1)
  with row ih(2) show ?case by blast
qed (auto simp: nth_append less_Suc_eq)

lemma table_distance_correct: "table_distance ra rb = edit_distance ra rb"
  using next_rows_correct [of "length ra" ra rb]
  by (auto simp: table_distance_def prefix_distance_def)

lemma Distance_correct: "Distance a b = edit_distance (runes a) (runes b)"
  by (simp add: Distance_def Let_def table_distance_correct)

end
