(* ===== verification/Project_Graph.thy ===== *)
theory Project_Graph
  imports Dep_Closure Dep_Paths Hint_Distance
begin

text \<open>
  The project graph over paths: \<open>src/internal/graph/dependency/depgraph.go\<close>, which
  feeds a workspace's declared dependencies to the builder and translates every query
  between paths and node ids, and the suggestion of
  \<open>src/internal/graph/dependency/suggest.go\<close> for a dependency nobody registered.
\<close>

section \<open>The interface the engine relies on\<close>

text \<open>
  An index of named nodes that answers reverse closures: what the engine needs to know of
  the graph to answer the same question over names.
\<close>

locale node_index =
  fixes wf :: "'g \<Rightarrow> bool"
    and size_of :: "'g \<Rightarrow> nat"
    and name_of :: "'g \<Rightarrow> int \<Rightarrow> path option"
    and id_of :: "'g \<Rightarrow> path \<Rightarrow> nat option"
    and edges_of :: "'g \<Rightarrow> (nat \<times> nat) set"
    and rclosure :: "'g \<Rightarrow> int list \<Rightarrow> nat list"
  assumes name_iff: "wf g \<Longrightarrow> (\<exists>p. name_of g k = Some p) \<longleftrightarrow> 0 \<le> k \<and> k < int (size_of g)"
    and id_iff: "wf g \<Longrightarrow> id_of g p = Some i \<longleftrightarrow> name_of g (int i) = Some p"
    and name_mono: "wf g \<Longrightarrow> i < j \<Longrightarrow> name_of g (int i) = Some p \<Longrightarrow> name_of g (int j) = Some q \<Longrightarrow> p < q"
    and edges_within: "wf g \<Longrightarrow> edges_of g \<subseteq> {..<size_of g} \<times> {..<size_of g}"
    and rclosure_eq: "wf g \<Longrightarrow>
      rclosure g seeds = sorted_list_of_set {v. \<exists>s \<in> seed_nodes (size_of g) seeds. (v, s) \<in> (edges_of g)\<^sup>*}"
begin

definition nm :: "'g \<Rightarrow> nat \<Rightarrow> path" where
  "nm g i = (case name_of g (int i) of Some p \<Rightarrow> p | None \<Rightarrow> [])"

definition name_edges :: "'g \<Rightarrow> (path \<times> path) set" where
  "name_edges g = (\<lambda>(v, w). (nm g v, nm g w)) ` edges_of g"

lemma nm_Some: "wf g \<Longrightarrow> i < size_of g \<Longrightarrow> name_of g (int i) = Some (nm g i)"
  using name_iff [of g "int i"] by (auto simp: nm_def)

lemma id_nm: "wf g \<Longrightarrow> i < size_of g \<Longrightarrow> id_of g (nm g i) = Some i"
  by (simp add: id_iff nm_Some)

lemma id_Some: "wf g \<Longrightarrow> id_of g p = Some i \<Longrightarrow> i < size_of g \<and> nm g i = p"
  using name_iff [of g "int i"] by (auto simp: id_iff nm_def)

lemma nm_less: "wf g \<Longrightarrow> i < j \<Longrightarrow> j < size_of g \<Longrightarrow> nm g i < nm g j"
  by (rule name_mono [OF _ _ nm_Some nm_Some]) auto

lemma name_edges_rtrancl:
  assumes "wf g" "i < size_of g"
  shows "(p, nm g i) \<in> (name_edges g)\<^sup>* \<longleftrightarrow> p = nm g i \<or> (\<exists>v. v < size_of g \<and> nm g v = p \<and> (v, i) \<in> (edges_of g)\<^sup>*)"
proof
  assume "(p, nm g i) \<in> (name_edges g)\<^sup>*"
  then show "p = nm g i \<or> (\<exists>v. v < size_of g \<and> nm g v = p \<and> (v, i) \<in> (edges_of g)\<^sup>*)"
  proof (induction rule: converse_rtrancl_induct)
    case (step p q)
    then obtain v w where vw: "(v, w) \<in> edges_of g" "p = nm g v" "q = nm g w"
      by (auto simp: name_edges_def)
    then have b: "v < size_of g" "w < size_of g" using edges_within [OF assms(1)] by auto
    from step.IH have "(w, i) \<in> (edges_of g)\<^sup>*"
      using vw(3) b(2) assms id_nm by (metis option.inject rtrancl.rtrancl_refl)
    with vw b have "v < size_of g \<and> nm g v = p \<and> (v, i) \<in> (edges_of g)\<^sup>*"
      by (simp add: converse_rtrancl_into_rtrancl)
    then show ?case by blast
  qed simp
next
  assume "p = nm g i \<or> (\<exists>v. v < size_of g \<and> nm g v = p \<and> (v, i) \<in> (edges_of g)\<^sup>*)"
  moreover have "(nm g v, nm g i) \<in> (name_edges g)\<^sup>*" if "(v, i) \<in> (edges_of g)\<^sup>*" for v
    using that
  proof (induction rule: converse_rtrancl_induct)
    case (step v w)
    then have "(nm g v, nm g w) \<in> name_edges g" by (force simp: name_edges_def)
    with step.IH show ?case by (rule converse_rtrancl_into_rtrancl [rotated])
  qed simp
  ultimately show "(p, nm g i) \<in> (name_edges g)\<^sup>*" by auto
qed

text \<open>Translating a reverse closure to names gives the sorted names that reach a seed.\<close>

lemma named_closure:
  assumes g: "wf g" and ids: "ids = map int (List.map_filter (id_of g) seeds)"
  shows "map (nm g) (rclosure g ids) =
    sorted_list_of_set {p. \<exists>s \<in> set seeds. id_of g s \<noteq> None \<and> (p, s) \<in> (name_edges g)\<^sup>*}" (is "_ = sorted_list_of_set ?P")
proof -
  let ?V = "{v. \<exists>s \<in> seed_nodes (size_of g) ids. (v, s) \<in> (edges_of g)\<^sup>*}"
  have sn: "seed_nodes (size_of g) ids = {i. \<exists>s \<in> set seeds. id_of g s = Some i}"
    using id_Some [OF g] by (force simp: seed_nodes_def ids set_map_filter_iff)
  have sub: "?V \<subseteq> {..<size_of g}"
  proof
    fix v assume "v \<in> ?V"
    then obtain i where "i < size_of g" "(v, i) \<in> (edges_of g)\<^sup>*"
      unfolding sn using id_Some [OF g] by blast
    then show "v \<in> {..<size_of g}" using edges_within [OF g] by (auto elim: converse_rtranclE)
  qed
  then have fin: "finite ?V" using finite_subset by blast
  have "nm g ` ?V = ?P"
  proof (intro set_eqI iffI)
    fix p assume "p \<in> nm g ` ?V"
    then obtain v s i where v: "v \<in> ?V" "p = nm g v" "s \<in> set seeds" "id_of g s = Some i" "(v, i) \<in> (edges_of g)\<^sup>*"
      unfolding sn by blast
    have "i < size_of g" "nm g i = s" using id_Some [OF g v(4)] by auto
    with name_edges_rtrancl [OF g, of i p] v sub show "p \<in> ?P" by blast
  next
    fix p assume "p \<in> ?P"
    then obtain s i where s: "s \<in> set seeds" "id_of g s = Some i" "(p, s) \<in> (name_edges g)\<^sup>*" by auto
    have i: "i < size_of g" "nm g i = s" using id_Some [OF g s(2)] by auto
    with name_edges_rtrancl [OF g i(1), of p] s obtain v where "nm g v = p" "(v, i) \<in> (edges_of g)\<^sup>*" by auto
    with s show "p \<in> nm g ` ?V" unfolding sn by blast
  qed
  moreover have "sorted_wrt (<) (map (nm g) (sorted_list_of_set ?V))"
    unfolding sorted_wrt_map
    by (rule sorted_wrt_mono_rel [OF _ strict_sorted_list_of_set])
       (use nm_less [OF g] sub fin in auto)
  ultimately show ?thesis
    using fin unfolding rclosure_eq [OF g]
    by (intro sorted_list_of_setI) (simp_all add: strict_sorted_iff)
qed

end

section \<open>The frozen graph is such an index\<close>

lemma graph_path_Some: "wf_graph g \<Longrightarrow> graph_path g i = Some p \<longleftrightarrow> 0 \<le> i \<and> i < int (gn g) \<and> pathByID g ! nat i = p"
  by (auto simp: graph_path_def)

interpretation dag: node_index wf_graph gn graph_path graph_id graph_edges "\<lambda>g. reverse_closure g []"
proof
  fix g :: graph assume g: "wf_graph g"
  show "(\<exists>p. graph_path g i = Some p) \<longleftrightarrow> 0 \<le> i \<and> i < int (gn g)" for i
    using g by (simp add: graph_path_Some)
  show "graph_id g p = Some i \<longleftrightarrow> graph_path g (int i) = Some p" for p i
    using g by (auto simp: graph_path_Some graph_id_def wf_graph_def)
  show "p < q" if "i < j" "graph_path g (int i) = Some p" "graph_path g (int j) = Some q" for i j p q
  proof -
    have "sorted_wrt (<) (pathByID g)" "j < length (pathByID g)"
      using g that(3) by (auto simp: wf_graph_def strict_sorted_iff graph_path_Some)
    then show ?thesis using g that by (auto simp: graph_path_Some sorted_wrt_iff_nth_less)
  qed
  show "graph_edges g \<subseteq> {..<gn g} \<times> {..<gn g}" by (rule graph_edges_bound [OF g])
  show "reverse_closure g [] seeds =
      sorted_list_of_set {v. \<exists>s \<in> seed_nodes (gn g) seeds. (v, s) \<in> (graph_edges g)\<^sup>*}" for seeds
    using reverse_closure_correct [OF g] by (simp add: reaching_def)
qed

lemma dag_nm: "wf_graph g \<Longrightarrow> i < gn g \<Longrightarrow> dag.nm g i = pathByID g ! i"
  by (simp add: dag.nm_def graph_path_def)

lemma dag_name_edges: "wf_graph g \<Longrightarrow> dag.name_edges g = path_edges g"
  unfolding dag.name_edges_def path_edges_def
  using graph_edges_bound [of g] by (intro image_cong refl) (auto simp: dag_nm)

section \<open>The engine\<close>

text \<open>\<open>out[i], _ = e.g.Path(id)\<close>: the empty string for an id out of range.\<close>

definition path_or_empty :: "graph \<Rightarrow> nat \<Rightarrow> path" where
  "path_or_empty g i = (case graph_path g (int i) of Some p \<Rightarrow> p | None \<Rightarrow> '''')"

definition seed_ids :: "graph \<Rightarrow> path list \<Rightarrow> int list" where
  "seed_ids g seeds = map int (List.map_filter (graph_id g) seeds)"

definition engine_topo_sort :: "graph \<Rightarrow> path list" where
  "engine_topo_sort g = map (path_or_empty g) (topo_order g)"

definition engine_reverse_closure :: "graph \<Rightarrow> path list \<Rightarrow> path list" where
  "engine_reverse_closure g seeds = map (path_or_empty g) (reverse_closure g [] (seed_ids g seeds))"

definition engine_paths_from_seeds :: "graph \<Rightarrow> path list \<Rightarrow> path \<Rightarrow> (path \<times> path list) list option" where
  "engine_paths_from_seeds g seeds target =
     (case graph_id g target of
        None \<Rightarrow> Some []
      | Some t \<Rightarrow>
          map_option (map (\<lambda>(s, chain). (path_or_empty g s, map (path_or_empty g) chain)))
            (paths_from_seeds g (int t) (seed_ids g seeds)))"

definition engine_successors :: "graph \<Rightarrow> path \<Rightarrow> path list" where
  "engine_successors g p =
     (case graph_id g p of None \<Rightarrow> [] | Some i \<Rightarrow> List.map_filter (\<lambda>s. graph_path g (int s)) (successors g (int i)))"

definition engine_predecessors :: "graph \<Rightarrow> path \<Rightarrow> path list" where
  "engine_predecessors g p =
     (case graph_id g p of None \<Rightarrow> [] | Some i \<Rightarrow> List.map_filter (\<lambda>s. graph_path g (int s)) (predecessors g (int i)))"

definition engine_nodes :: "graph \<Rightarrow> path list" where
  "engine_nodes g = List.map_filter (\<lambda>i. graph_path g (int i)) (graph_nodes g)"

definition engine_blast_radius :: "graph \<Rightarrow> path \<rightharpoonup> nat" where
  "engine_blast_radius g =
     foldl (\<lambda>m (i, c). case graph_path g (int i) of Some p \<Rightarrow> m(p \<mapsto> c) | None \<Rightarrow> m)
       Map.empty (enumerate 0 (graph_blast_radius g))"

section \<open>Building from a workspace\<close>

record project =
  prj_path :: path
  DependsOn :: "path list"

type_synonym workspace = "(path \<times> project) list"   \<comment> \<open>\<open>Workspace.Projects\<close>, a map by path\<close>

definition ws_all :: "workspace \<Rightarrow> project list" where
  "ws_all w = sort_key prj_path (map snd w)"

definition ws_get :: "workspace \<Rightarrow> path \<Rightarrow> project option" where
  "ws_get w p = map_of w p"

text \<open>\<open>nearestProjectPath\<close>. The threshold counts bytes, the distance runes.\<close>

definition nearest_step :: "path \<Rightarrow> path \<times> nat \<Rightarrow> project \<Rightarrow> path \<times> nat" where
  "nearest_step want acc p =
     (case acc of (best, bestDist) \<Rightarrow>
        let d = Distance want (prj_path p)
        in if d < bestDist \<or> d = bestDist \<and> prj_path p < best then (prj_path p, d) else acc)"

definition nearest_project_path :: "path \<Rightarrow> workspace \<Rightarrow> path" where
  "nearest_project_path want w =
     (let threshold = length want div 3
      in if threshold = 0 then ''''
         else case foldl (nearest_step want) ('''', threshold + 1) (ws_all w) of
                (best, bestDist) \<Rightarrow> if bestDist > threshold then '''' else best)"

record unregistered_dep =
  Consumer :: path
  Dep :: path
  DidYouMean :: path

datatype depgraph_error =
    AddEdgeError path path edge_error
  | Unregistered "unregistered_dep list"
  | DepCycle

definition add_dep :: "workspace \<Rightarrow> path \<Rightarrow> int \<Rightarrow>
    depgraph_error + builder \<times> unregistered_dep list \<Rightarrow> path \<Rightarrow>
    depgraph_error + builder \<times> unregistered_dep list" where
  "add_dep w p fromID acc dep =
     (case acc of
        Inl e \<Rightarrow> Inl e
      | Inr (b, missing) \<Rightarrow>
          (case ws_get w dep of
             None \<Rightarrow> Inr (b, missing @ [\<lparr>Consumer = p, Dep = dep, DidYouMean = nearest_project_path dep w\<rparr>])
           | Some _ \<Rightarrow>
               (case add_node b dep of (b', toID) \<Rightarrow>
                  case add_edge b' fromID toID of
                    Inl e \<Rightarrow> Inl (AddEdgeError p dep e)
                  | Inr b'' \<Rightarrow> Inr (b'', missing))))"

definition add_project :: "workspace \<Rightarrow> depgraph_error + builder \<times> unregistered_dep list \<Rightarrow> project \<Rightarrow>
    depgraph_error + builder \<times> unregistered_dep list" where
  "add_project w acc p =
     (case acc of
        Inl e \<Rightarrow> Inl e
      | Inr (b, missing) \<Rightarrow>
          (case add_node b (prj_path p) of (b', fromID) \<Rightarrow>
             foldl (add_dep w (prj_path p) fromID) (Inr (b', missing)) (DependsOn p)))"

definition build_project_graph :: "workspace \<Rightarrow> depgraph_error + graph" where
  "build_project_graph w =
     (case foldl (add_project w) (Inr (new_builder, [])) (ws_all w) of
        Inl e \<Rightarrow> Inl e
      | Inr (b, missing) \<Rightarrow>
          if missing \<noteq> [] then Inl (Unregistered missing)
          else case build b of Inl ErrCycle \<Rightarrow> Inl DepCycle | Inr g \<Rightarrow> Inr g)"

section \<open>What the engine answers\<close>

lemma path_or_empty_nm: "path_or_empty g = dag.nm g"
  by (rule ext) (simp add: path_or_empty_def dag.nm_def)

lemma graph_id_iff: "wf_graph g \<Longrightarrow> (\<exists>i. graph_id g p = Some i) \<longleftrightarrow> p \<in> set (pathByID g)"
  by (auto simp: graph_id_def wf_graph_def in_set_conv_nth)

lemma engine_reverse_closure_eq:
  assumes "wf_graph g"
  shows "engine_reverse_closure g seeds =
    sorted_list_of_set {p. \<exists>s \<in> set seeds. s \<in> set (pathByID g) \<and> (p, s) \<in> (path_edges g)\<^sup>*}"
proof -
  have "engine_reverse_closure g seeds =
      sorted_list_of_set {p. \<exists>s \<in> set seeds. graph_id g s \<noteq> None \<and> (p, s) \<in> (dag.name_edges g)\<^sup>*}"
    unfolding engine_reverse_closure_def path_or_empty_nm
    by (rule dag.named_closure [OF assms]) (simp add: seed_ids_def)
  then show ?thesis using graph_id_iff [OF assms] by (simp add: dag_name_edges [OF assms])
qed

lemma engine_topo_sort_eq:
  assumes g: "wf_graph g"
  shows "distinct (engine_topo_sort g)" "set (engine_topo_sort g) = set (pathByID g)"
    "topo_sorted (path_edges g) (engine_topo_sort g)"
proof -
  have t: "distinct (topo g)" "set (topo g) = {..<gn g}" "topo_sorted (graph_edges g) (topo g)"
    "distinct (pathByID g)" "length (pathByID g) = gn g" using g by (auto simp: wf_graph_def)
  have eq: "engine_topo_sort g = map ((!) (pathByID g)) (topo g)"
    unfolding engine_topo_sort_def topo_order_def path_or_empty_nm
    by (intro map_cong refl) (use t(2) dag_nm [OF g] in auto)
  show "distinct (engine_topo_sort g)"
    using t by (auto simp: eq distinct_map inj_on_def nth_eq_iff_index_eq)
  have "set (pathByID g) = (!) (pathByID g) ` {..<gn g}"
    using t(5) by (auto simp: set_conv_nth)
  then show "set (engine_topo_sort g) = set (pathByID g)" using t(2) by (simp add: eq)
  show "topo_sorted (path_edges g) (engine_topo_sort g)"
    unfolding topo_sorted_def
  proof (intro allI impI)
    fix i p assume i: "i < length (engine_topo_sort g)" and e: "(p, engine_topo_sort g ! i) \<in> path_edges g"
    then obtain v w where vw: "(v, w) \<in> graph_edges g" "p = pathByID g ! v"
      "pathByID g ! (topo g ! i) = pathByID g ! w" by (auto simp: path_edges_def eq)
    moreover have "topo g ! i < gn g" "w < gn g"
      using i t(2) vw(1) graph_edges_bound [OF g] nth_mem [of i "topo g"] by (auto simp: eq)
    ultimately have "topo g ! i = w" using t(4,5) by (simp add: nth_eq_iff_index_eq)
    then have "v \<in> set (take i (topo g))" using t(3) vw(1) i by (auto simp: topo_sorted_def eq)
    then show "p \<in> set (take i (engine_topo_sort g))" using vw(2) by (auto simp: eq take_map)
  qed
qed

section \<open>What the build makes of a workspace\<close>

definition wf_workspace :: "workspace \<Rightarrow> bool" where
  "wf_workspace w \<longleftrightarrow> distinct (map fst w) \<and> (\<forall>(k, p) \<in> set w. prj_path p = k)"

definition depends :: "workspace \<Rightarrow> (path \<times> path) set" where
  "depends w = {(p, d). \<exists>pr. (p, pr) \<in> set w \<and> d \<in> set (DependsOn pr)}"

lemma add_node_spec:
  assumes "wf_builder b" "add_node b p = (b', j)"
  shows "wf_builder b' \<and> builder_edges b' = builder_edges b \<and>
    (\<exists>ext. builderPaths b' = builderPaths b @ ext) \<and> set (builderPaths b') = insert p (set (builderPaths b)) \<and>
    (\<exists>k < length (builderPaths b'). j = int k \<and> builderPaths b' ! k = p)"
proof -
  have "wf_builder b'" "builder_edges b' = builder_edges b"
    using wf_add_node [OF assms(1), of p] builder_edges_add_node [OF assms(1), of p] assms(2) by simp_all
  then show ?thesis using assms
    by (auto simp: add_node_def Let_def wf_builder_def nth_append split: option.splits)
qed

lemma add_edge_spec:
  assumes "wf_builder b" "i < length (builderPaths b)" "j < length (builderPaths b)"
  shows "if i = j then add_edge b (int i) (int j) = Inl (SelfLoop (builderPaths b ! i))
    else \<exists>b'. add_edge b (int i) (int j) = Inr b' \<and> wf_builder b' \<and> builderPaths b' = builderPaths b \<and>
      builder_edges b' = insert (builderPaths b ! i, builderPaths b ! j) (builder_edges b)"
proof (cases "i = j")
  case False
  then have "\<exists>b'. add_edge b (int i) (int j) = Inr b' \<and> builderPaths b' = builderPaths b"
    using assms by (auto simp: add_edge_def Let_def)
  then obtain b' where b': "add_edge b (int i) (int j) = Inr b'" "builderPaths b' = builderPaths b" by blast
  with False wf_add_edge [OF assms(1) b'(1)] builder_edges_add_edge [OF assms(1) b'(1)] show ?thesis by simp
qed (use assms in \<open>simp add: add_edge_def\<close>)

lemma add_dep_Inl [simp]: "foldl (add_dep w p f) (Inl e) ds = Inl e"
  by (induction ds) (simp_all add: add_dep_def)

lemma add_project_Inl [simp]: "foldl (add_project w) (Inl e) ps = Inl e"
  by (induction ps) (simp_all add: add_project_def)

text \<open>What one project's dependencies add: the edges to registered paths, or an error.\<close>

definition known :: "workspace \<Rightarrow> path set" where
  "known w = fst ` set w"

lemma ws_get_iff: "(\<exists>q. ws_get w d = Some q) \<longleftrightarrow> d \<in> known w"
  using map_of_eq_None_iff [of w d] by (auto simp: ws_get_def known_def simp del: map_of_eq_None_iff)

definition extends :: "builder \<Rightarrow> builder \<Rightarrow> path set \<Rightarrow> (path \<times> path) set \<Rightarrow> bool" where
  "extends b b' P E \<longleftrightarrow> wf_builder b' \<and> (\<exists>ext. builderPaths b' = builderPaths b @ ext) \<and>
     set (builderPaths b') = set (builderPaths b) \<union> P \<and> builder_edges b' = builder_edges b \<union> E"

lemma extends_trans: "extends b b' P E \<Longrightarrow> extends b' b'' P' E' \<Longrightarrow> extends b b'' (P \<union> P') (E \<union> E')"
  by (auto simp: extends_def)

lemma add_dep_step:
  assumes "wf_builder b" "i < length (builderPaths b)" "builderPaths b ! i = p"
  shows "if d \<notin> known w then \<exists>u. add_dep w p (int i) (Inr (b, m)) d = Inr (b, m @ [u])
    else if d = p then add_dep w p (int i) (Inr (b, m)) d = Inl (AddEdgeError p d (SelfLoop p))
    else \<exists>b'. add_dep w p (int i) (Inr (b, m)) d = Inr (b', m) \<and> extends b b' {d} {(p, d)}"
proof (cases "d \<in> known w")
  case True
  then obtain q where q: "ws_get w d = Some q" using ws_get_iff by blast
  obtain b' j where n: "add_node b d = (b', j)" by force
  obtain k where k: "wf_builder b'" "builder_edges b' = builder_edges b" "set (builderPaths b') = insert d (set (builderPaths b))"
    "k < length (builderPaths b')" "j = int k" "builderPaths b' ! k = d"
    and ext: "\<exists>ext. builderPaths b' = builderPaths b @ ext"
    using add_node_spec [OF assms(1) n] by blast
  then have i: "i < length (builderPaths b')" "builderPaths b' ! i = p"
    using assms(2,3) by (auto simp: nth_append)
  have ik: "i = k \<longleftrightarrow> d = p" using k i by (auto simp: wf_builder_def nth_eq_iff_index_eq)
  show ?thesis
    using add_edge_spec [OF k(1) i(1) k(4)] True q n k i ik ext
    by (auto simp: add_dep_def extends_def split: if_splits)
qed (use ws_get_iff [of w d] in \<open>auto simp: add_dep_def split: option.splits\<close>)

lemma add_deps:
  assumes "wf_builder b" "i < length (builderPaths b)" "builderPaths b ! i = p"
  shows "if p \<in> set ds \<inter> known w then \<exists>e. foldl (add_dep w p (int i)) (Inr (b, m)) ds = Inl (AddEdgeError p p e)
    else \<exists>b' m'. foldl (add_dep w p (int i)) (Inr (b, m)) ds = Inr (b', m') \<and>
      extends b b' (set ds \<inter> known w) ({p} \<times> (set ds \<inter> known w)) \<and> (m' = [] \<longleftrightarrow> m = [] \<and> set ds \<subseteq> known w)"
  using assms
proof (induction ds arbitrary: b m)
  case (Cons d ds)
  note step = add_dep_step [OF Cons.prems, of d w m]
  show ?case
  proof (cases "d \<in> known w")
    case False
    then obtain u where u: "add_dep w p (int i) (Inr (b, m)) d = Inr (b, m @ [u])" using step by auto
    from Cons.IH [OF Cons.prems, of "m @ [u]"] False u show ?thesis by (auto split: if_splits)
  next
    case known: True
    show ?thesis
    proof (cases "d = p")
      case True
      then show ?thesis using step known by auto
    next
      case False
      then obtain b' where b': "add_dep w p (int i) (Inr (b, m)) d = Inr (b', m)" "extends b b' {d} {(p, d)}"
        using step known by auto
      then have "wf_builder b'" "i < length (builderPaths b')" "builderPaths b' ! i = p"
        using Cons.prems by (auto simp: extends_def nth_append)
      from Cons.IH [OF this, of m] show ?thesis
        using extends_trans [OF b'(2)] b'(1) False known by (fastforce split: if_splits)
    qed
  qed
qed (simp add: extends_def)

lemma add_project_step:
  assumes "wf_builder b"
  shows "if prj_path p \<in> set (DependsOn p) \<inter> known w
    then \<exists>e. add_project w (Inr (b, m)) p = Inl (AddEdgeError (prj_path p) (prj_path p) e)
    else \<exists>b' m'. add_project w (Inr (b, m)) p = Inr (b', m') \<and>
      extends b b' (insert (prj_path p) (set (DependsOn p) \<inter> known w))
        ({prj_path p} \<times> (set (DependsOn p) \<inter> known w)) \<and>
      (m' = [] \<longleftrightarrow> m = [] \<and> set (DependsOn p) \<subseteq> known w)"
proof -
  obtain b1 j where n: "add_node b (prj_path p) = (b1, j)" by force
  obtain k where k: "wf_builder b1" "builder_edges b1 = builder_edges b"
    "set (builderPaths b1) = insert (prj_path p) (set (builderPaths b))"
    "k < length (builderPaths b1)" "j = int k" "builderPaths b1 ! k = prj_path p"
    and ext: "\<exists>ext. builderPaths b1 = builderPaths b @ ext"
    using add_node_spec [OF assms n] by blast
  then have ext1: "extends b b1 {prj_path p} {}" by (simp add: extends_def)
  have eq: "add_project w (Inr (b, m)) p = foldl (add_dep w (prj_path p) (int k)) (Inr (b1, m)) (DependsOn p)"
    by (simp add: add_project_def n k(5))
  note deps = add_deps [OF k(1,4,6), of "DependsOn p" w m, folded eq]
  show ?thesis
  proof (cases "prj_path p \<in> set (DependsOn p) \<inter> known w")
    case False
    then obtain b' m' where b': "add_project w (Inr (b, m)) p = Inr (b', m')"
      "extends b1 b' (set (DependsOn p) \<inter> known w) ({prj_path p} \<times> (set (DependsOn p) \<inter> known w))"
      "m' = [] \<longleftrightarrow> m = [] \<and> set (DependsOn p) \<subseteq> known w"
      using deps by (simp only: if_False) blast
    from extends_trans [OF ext1 b'(2)] b'(1,3) False show ?thesis by simp
  qed (use deps in auto)
qed

lemma add_projects:
  assumes "wf_builder b"
  shows "if \<exists>p \<in> set ps. prj_path p \<in> set (DependsOn p) \<inter> known w
    then \<exists>p e. foldl (add_project w) (Inr (b, m)) ps = Inl (AddEdgeError p p e)
    else \<exists>b' m'. foldl (add_project w) (Inr (b, m)) ps = Inr (b', m') \<and>
      extends b b' (\<Union>p \<in> set ps. insert (prj_path p) (set (DependsOn p) \<inter> known w))
        (\<Union>p \<in> set ps. {prj_path p} \<times> (set (DependsOn p) \<inter> known w)) \<and>
      (m' = [] \<longleftrightarrow> m = [] \<and> (\<forall>p \<in> set ps. set (DependsOn p) \<subseteq> known w))"
  using assms
proof (induction ps arbitrary: b m)
  case (Cons p ps)
  note step = add_project_step [OF Cons.prems, of p w m]
  show ?case
  proof (cases "prj_path p \<in> set (DependsOn p) \<inter> known w")
    case True
    then show ?thesis using step by auto
  next
    case False
    then obtain b' m' where b': "add_project w (Inr (b, m)) p = Inr (b', m')"
      "extends b b' (insert (prj_path p) (set (DependsOn p) \<inter> known w))
        ({prj_path p} \<times> (set (DependsOn p) \<inter> known w))"
      "m' = [] \<longleftrightarrow> m = [] \<and> set (DependsOn p) \<subseteq> known w"
      using step by (simp only: if_False) blast
    then have wf': "wf_builder b'" by (simp add: extends_def)
    note ih = Cons.IH [OF wf', of m']
    show ?thesis
    proof (cases "\<exists>p \<in> set ps. prj_path p \<in> set (DependsOn p) \<inter> known w")
      case True
      then show ?thesis using ih b'(1) by auto
    next
      case none: False
      then obtain b'' m'' where b'': "foldl (add_project w) (Inr (b', m')) ps = Inr (b'', m'')"
        "extends b' b'' (\<Union>p \<in> set ps. insert (prj_path p) (set (DependsOn p) \<inter> known w))
          (\<Union>p \<in> set ps. {prj_path p} \<times> (set (DependsOn p) \<inter> known w))"
        "m'' = [] \<longleftrightarrow> m' = [] \<and> (\<forall>p \<in> set ps. set (DependsOn p) \<subseteq> known w)"
        using ih by (simp only: if_False) blast
      have "\<not> (\<exists>p \<in> set (p # ps). prj_path p \<in> set (DependsOn p) \<inter> known w)" using none False by simp
      with extends_trans [OF b'(2) b''(2)] b'(1,3) b''(1,3) show ?thesis
        by (simp only: if_False foldl.simps list.set UN_insert) blast
    qed
  qed
qed (simp add: extends_def)

lemma ws_all_set: "wf_workspace w \<Longrightarrow> p \<in> set (ws_all w) \<longleftrightarrow> (prj_path p, p) \<in> set w"
  by (force simp: ws_all_def wf_workspace_def)

lemma ws_sets:
  assumes "wf_workspace w"
  shows "(\<Union>p \<in> set (ws_all w). {prj_path p} \<times> set (DependsOn p)) = depends w"
    and "prj_path ` set (ws_all w) = known w"
proof -
  have key: "prj_path p = k" if "(k, p) \<in> set w" for k p using assms that by (auto simp: wf_workspace_def)
  have mem: "p \<in> set (ws_all w) \<longleftrightarrow> (prj_path p, p) \<in> set w" for p by (rule ws_all_set [OF assms])
  show "(\<Union>p \<in> set (ws_all w). {prj_path p} \<times> set (DependsOn p)) = depends w"
  proof (intro set_eqI iffI)
    fix e assume "e \<in> depends w"
    then obtain k p d where e: "e = (k, d)" "(k, p) \<in> set w" "d \<in> set (DependsOn p)"
      unfolding depends_def by blast
    then have "prj_path p = k" "p \<in> set (ws_all w)" using key mem by auto
    with e show "e \<in> (\<Union>p \<in> set (ws_all w). {prj_path p} \<times> set (DependsOn p))" by blast
  next
    fix e assume "e \<in> (\<Union>p \<in> set (ws_all w). {prj_path p} \<times> set (DependsOn p))"
    then obtain p d where "(prj_path p, p) \<in> set w" "e = (prj_path p, d)" "d \<in> set (DependsOn p)"
      using mem by blast
    then show "e \<in> depends w" unfolding depends_def by blast
  qed
  show "prj_path ` set (ws_all w) = known w"
  proof (intro set_eqI iffI)
    fix k assume "k \<in> known w"
    then obtain p where p: "(k, p) \<in> set w" unfolding known_def by (auto simp: image_iff)
    then have "prj_path p = k" "p \<in> set (ws_all w)" using key mem by simp_all
    then show "k \<in> prj_path ` set (ws_all w)" by (rule rev_image_eqI [rotated, OF sym])
  next
    fix k assume "k \<in> prj_path ` set (ws_all w)"
    then obtain p where "(k, p) \<in> set w" using mem by (auto simp: image_iff)
    then show "k \<in> known w" unfolding known_def by (rule rev_image_eqI) simp
  qed
qed

lemma build_project_graph_Inr:
  assumes w: "wf_workspace w" and g: "build_project_graph w = Inr g"
  shows "wf_graph g" "path_edges g = depends w" "set (pathByID g) = known w"
    "acyclic (depends w)" "depends w \<subseteq> known w \<times> known w"
proof -
  obtain b where b: "foldl (add_project w) (Inr (new_builder, [])) (ws_all w) = Inr (b, [])" "build b = Inr g"
    using g by (auto simp: build_project_graph_def split: sum.splits prod.splits if_splits build_error.splits)
  note all = add_projects [OF wf_new_builder, of "ws_all w" w "[]"]
  have none: "\<not> (\<exists>p \<in> set (ws_all w). prj_path p \<in> set (DependsOn p) \<inter> known w)"
  proof
    assume bad: "\<exists>p \<in> set (ws_all w). prj_path p \<in> set (DependsOn p) \<inter> known w"
    from all b(1) show False unfolding if_P [OF bad] by auto
  qed
  have e: "extends new_builder b (\<Union>p \<in> set (ws_all w). insert (prj_path p) (set (DependsOn p) \<inter> known w))
        (\<Union>p \<in> set (ws_all w). {prj_path p} \<times> (set (DependsOn p) \<inter> known w))"
    and k: "\<forall>p \<in> set (ws_all w). set (DependsOn p) \<subseteq> known w"
    using all b(1) unfolding if_not_P [OF none] by auto
  have edges: "builder_edges b = depends w"
  proof -
    have "builder_edges b = (\<Union>p \<in> set (ws_all w). {prj_path p} \<times> set (DependsOn p))"
      using e k by (auto simp: extends_def builder_edges_def new_builder_def)
    then show ?thesis using ws_sets(1) [OF w] by simp
  qed
  have paths: "set (builderPaths b) = known w"
    using e k ws_sets(2) [OF w] by (auto simp: extends_def new_builder_def)
  have wfb: "wf_builder b" using e by (simp add: extends_def)
  show "wf_graph g" by (rule build_wf [OF wfb b(2)])
  show "path_edges g = depends w" using build_path_edges [OF wfb b(2)] edges by simp
  show "set (pathByID g) = known w"
    using build_Inr(2) [OF b(2)] b(2) paths by (cases "builderPaths b = []") (auto simp: build_def empty_graph_def)
  show "acyclic (depends w)" using build_Inl_iff [OF wfb] b(2) edges by auto
  show "depends w \<subseteq> known w \<times> known w"
  proof
    fix e assume "e \<in> depends w"
    then have "e \<in> (\<Union>p \<in> set (ws_all w). {prj_path p} \<times> set (DependsOn p))"
      unfolding ws_sets(1) [OF w] .
    then obtain p where p: "p \<in> set (ws_all w)" "e \<in> {prj_path p} \<times> set (DependsOn p)" by (rule UN_E)
    have "prj_path p \<in> known w" unfolding ws_sets(2) [OF w, symmetric] using p(1) by (rule imageI)
    moreover have "set (DependsOn p) \<subseteq> known w" using k p(1) by (rule bspec)
    ultimately show "e \<in> known w \<times> known w" using p(2) by auto
  qed
qed

lemma build_project_graph_ok:
  assumes w: "wf_workspace w" and "depends w \<subseteq> known w \<times> known w" "acyclic (depends w)"
  shows "\<exists>g. build_project_graph w = Inr g"
proof -
  have irrefl: "(p, p) \<notin> depends w" for p using assms(3) by (auto simp: acyclic_def)
  have dep: "(prj_path p, d) \<in> depends w" if "p \<in> set (ws_all w)" "d \<in> set (DependsOn p)" for p d
    using that ws_all_set [OF w, of p] by (auto simp: depends_def)
  then have "prj_path p \<notin> set (DependsOn p)" "set (DependsOn p) \<subseteq> known w" if "p \<in> set (ws_all w)" for p
    using that irrefl assms(2) by blast+
  then obtain b where b: "foldl (add_project w) (Inr (new_builder, [])) (ws_all w) = Inr (b, [])"
    "extends new_builder b (\<Union>p \<in> set (ws_all w). insert (prj_path p) (set (DependsOn p) \<inter> known w))
        (\<Union>p \<in> set (ws_all w). {prj_path p} \<times> (set (DependsOn p) \<inter> known w))"
    using add_projects [OF wf_new_builder, of "ws_all w" w "[]"] by (auto split: if_splits)
  have "builder_edges b \<subseteq> (\<Union>p \<in> set (ws_all w). {prj_path p} \<times> set (DependsOn p))"
    using b(2) by (auto simp: extends_def builder_edges_def new_builder_def)
  then have "acyclic (builder_edges b)" using assms(3) ws_sets(1) [OF w] acyclic_subset by metis
  moreover have "wf_builder b" using b(2) by (simp add: extends_def)
  ultimately obtain g where "build b = Inr g" using build_Inl_iff by blast
  with b(1) show ?thesis by (simp add: build_project_graph_def)
qed

section \<open>The suggestion\<close>

lemma nearest_fold:
  assumes "foldl (nearest_step want) (b0, d0) ps = (b, d)"
  shows "d \<le> d0 \<and> (\<forall>p \<in> set ps. d \<le> Distance want (prj_path p)) \<and>
    (b = b0 \<and> d = d0 \<or> (\<exists>p \<in> set ps. b = prj_path p \<and> d = Distance want (prj_path p)))"
  using assms
proof (induction ps arbitrary: b0 d0)
  case (Cons p ps)
  obtain b1 d1 where s: "nearest_step want (b0, d0) p = (b1, d1)" by force
  then have d1: "d1 = min d0 (Distance want (prj_path p))" "b1 = b0 \<and> d1 = d0 \<or> b1 = prj_path p \<and> d1 = Distance want (prj_path p)"
    by (auto simp: nearest_step_def Let_def split: if_splits)
  have "foldl (nearest_step want) (b1, d1) ps = (b, d)" using Cons.prems s by simp
  from Cons.IH [OF this] d1 show ?case by auto
qed simp

lemma nearest_project_path_eq:
  "nearest_project_path want w = [] \<or>
   nearest_project_path want w \<in> prj_path ` set (ws_all w) \<and>
   Distance want (nearest_project_path want w) \<le> length want div 3 \<and>
   (\<forall>p \<in> set (ws_all w). Distance want (nearest_project_path want w) \<le> Distance want (prj_path p))"
proof -
  obtain b d where "foldl (nearest_step want) ([], length want div 3 + 1) (ws_all w) = (b, d)" by force
  with nearest_fold [OF this] show ?thesis by (auto simp: nearest_project_path_def Let_def)
qed

end
