(* ===== verification/Graph_Properties.thy ===== *)
theory Graph_Properties
  imports Project_Graph
begin

text \<open>
  The properties of the dependency graph, stated over a workspace and the answers its
  engine gives about it, each with a witness on the workspace \<open>demo\<close> where an
  application depends on a service and a library, and the service on the library.
\<close>

section \<open>Queries over names\<close>

lemma wf_graph_id:
  assumes "wf_graph g" "p \<in> set (pathByID g)"
  obtains i where "graph_id g p = Some i" "i < gn g" "pathByID g ! i = p"
proof -
  obtain i where i: "graph_id g p = Some i" using graph_id_iff [OF assms(1)] assms(2) by blast
  have "i < gn g" "pathByID g ! i = p" using dag.id_Some [OF assms(1) i] dag_nm [OF assms(1)] by auto
  with i that show thesis by blast
qed

lemma edges_to_names: "wf_graph g \<Longrightarrow> (i, j) \<in> graph_edges g ^^ k \<Longrightarrow> (pathByID g ! i, pathByID g ! j) \<in> path_edges g ^^ k"
proof (induction k arbitrary: j)
  case (Suc k)
  then obtain m where m: "(i, m) \<in> graph_edges g ^^ k" "(m, j) \<in> graph_edges g" by auto
  then have "(pathByID g ! m, pathByID g ! j) \<in> path_edges g" by (force simp: path_edges_def)
  with Suc.IH [OF Suc.prems(1) m(1)] show ?case by auto
qed simp

lemma names_to_edges:
  assumes g: "wf_graph g" and i: "i < gn g" and j: "j < gn g"
  shows "(pathByID g ! i, pathByID g ! j) \<in> path_edges g ^^ k \<Longrightarrow> (i, j) \<in> graph_edges g ^^ k"
  using j
proof (induction k arbitrary: j)
  case 0
  then show ?case using g i by (auto simp: wf_graph_def nth_eq_iff_index_eq)
next
  case (Suc k)
  then obtain q where q: "(pathByID g ! i, q) \<in> path_edges g ^^ k" "(q, pathByID g ! j) \<in> path_edges g" by auto
  then obtain m n where m: "(m, n) \<in> graph_edges g" "q = pathByID g ! m" "pathByID g ! j = pathByID g ! n"
    by (auto simp: path_edges_def)
  have b: "m < gn g" "n < gn g" using m(1) graph_edges_bound [OF g] by auto
  then have "n = j" using m(3) Suc.prems g by (auto simp: wf_graph_def nth_eq_iff_index_eq)
  with Suc.IH [OF _ b(1)] q(1) m show ?case by auto
qed

lemma names_rtrancl:
  assumes "wf_graph g" "i < gn g" "j < gn g"
  shows "(pathByID g ! i, pathByID g ! j) \<in> (path_edges g)\<^sup>* \<longleftrightarrow> (i, j) \<in> (graph_edges g)\<^sup>*"
  using edges_to_names [OF assms(1)] names_to_edges [OF assms] by (metis rtrancl_power)

text \<open>The chains over names: seed first, target last, each element needed by the next.\<close>

definition name_chain :: "(path \<times> path) set \<Rightarrow> path \<Rightarrow> path \<Rightarrow> path list \<Rightarrow> bool" where
  "name_chain E t s xs \<longleftrightarrow> xs \<noteq> [] \<and> hd xs = s \<and> last xs = t \<and> successively (\<lambda>a b. (b, a) \<in> E) xs"

lemma chain_to_names:
  assumes g: "wf_graph g" and c: "chain_of g t s xs" and s: "s < gn g" and t: "t < gn g"
  shows "name_chain (path_edges g) (pathByID g ! t) (pathByID g ! s) (map (path_or_empty g) xs)"
proof -
  have sub: "v < gn g" if "v \<in> set xs" for v
  proof -
    from that obtain i where i: "i < length xs" "xs ! i = v" by (auto simp: in_set_conv_nth)
    show ?thesis
    proof (cases "Suc i < length xs")
      case True
      then have "(xs ! Suc i, v) \<in> graph_edges g" using c i by (auto simp: chain_of_def successively_conv_nth)
      then show ?thesis using graph_edges_bound [OF g] by auto
    next
      case False
      then have "i = length xs - 1" "xs \<noteq> []" using i by auto
      then have "v = last xs" using i(2) by (simp add: last_conv_nth)
      then show ?thesis using c t by (simp add: chain_of_def)
    qed
  qed
  have "path_or_empty g v = pathByID g ! v" if "v \<in> set xs" for v
    using sub [OF that] by (simp add: path_or_empty_nm dag_nm [OF g])
  then have eq: "map (path_or_empty g) xs = map ((!) (pathByID g)) xs" by simp
  have c': "xs \<noteq> []" "hd xs = s" "last xs = t" "successively (\<lambda>a b. (b, a) \<in> graph_edges g) xs"
    using c by (simp_all add: chain_of_def)
  have "successively (\<lambda>a b. (pathByID g ! b, pathByID g ! a) \<in> path_edges g) xs"
    by (rule successively_mono [OF c'(4)]) (unfold path_edges_def, rule image_eqI, auto)
  then show ?thesis using c'(1-3) unfolding eq name_chain_def successively_map
    by (simp add: hd_map last_map)
qed

lemma engine_paths_from_seeds_correct:
  assumes g: "wf_graph g" and t: "target \<in> set (pathByID g)"
  obtains out where "engine_paths_from_seeds g seeds target = Some out"
    and "map fst out = sorted_list_of_set {s \<in> set seeds. s \<in> set (pathByID g) \<and> (target, s) \<in> (path_edges g)\<^sup>*}"
    and "\<And>s xs. (s, xs) \<in> set out \<Longrightarrow> name_chain (path_edges g) target s xs"
    and "\<And>s xs k. (s, xs) \<in> set out \<Longrightarrow> (target, s) \<in> path_edges g ^^ k \<Longrightarrow> length xs \<le> Suc k"
proof -
  obtain ti where ti: "graph_id g target = Some ti" "ti < gn g" "pathByID g ! ti = target"
    using wf_graph_id [OF g t] .
  obtain out where out: "paths_from_seeds g (int ti) (seed_ids g seeds) = Some out"
    and keys: "map fst out = sorted_list_of_set {s \<in> seed_nodes (gn g) (seed_ids g seeds). (ti, s) \<in> (graph_edges g)\<^sup>*}"
    and chains: "\<And>s xs. (s, xs) \<in> set out \<Longrightarrow> chain_of g ti s xs"
    and short: "\<And>s xs k. (s, xs) \<in> set out \<Longrightarrow> (ti, s) \<in> graph_edges g ^^ k \<Longrightarrow> length xs \<le> Suc k"
    by (rule paths_from_seeds_correct [OF g ti(2), of "seed_ids g seeds"]) blast
  let ?f = "\<lambda>(s, chain). (path_or_empty g s, map (path_or_empty g) chain)"
  let ?S = "{s \<in> seed_nodes (gn g) (seed_ids g seeds). (ti, s) \<in> (graph_edges g)\<^sup>*}"
  have nodes: "seed_nodes (gn g) (seed_ids g seeds) = {i. \<exists>s \<in> set seeds. graph_id g s = Some i}"
  proof (intro set_eqI iffI)
    fix i assume "i \<in> seed_nodes (gn g) (seed_ids g seeds)"
    then have "int i \<in> int ` set (List.map_filter (graph_id g) seeds)" by (auto simp: seed_nodes_def seed_ids_def)
    then show "i \<in> {i. \<exists>s \<in> set seeds. graph_id g s = Some i}" by (simp add: inj_image_mem_iff set_map_filter_iff)
  next
    fix i assume "i \<in> {i. \<exists>s \<in> set seeds. graph_id g s = Some i}"
    then obtain s where s: "s \<in> set seeds" "graph_id g s = Some i" by blast
    then have "int i \<in> set (seed_ids g seeds)" unfolding seed_ids_def set_map by (intro imageI) (auto simp: set_map_filter_iff)
    then show "i \<in> seed_nodes (gn g) (seed_ids g seeds)" using dag.id_Some [OF g s(2)] by (force simp: seed_nodes_def)
  qed
  have lt: "s < gn g" if "s \<in> ?S" for s using that by (auto simp: seed_nodes_def)
  have nm: "path_or_empty g s = pathByID g ! s" if "s \<in> ?S" for s
    using lt [OF that] by (simp add: path_or_empty_nm dag_nm [OF g])
  have fin: "finite ?S" by (rule finite_subset [of _ "{..<gn g}"]) (use lt in auto)
  have mem: "s \<in> ?S" if "(s, xs) \<in> set out" for s xs
  proof -
    have "s \<in> set (map fst out)" using that by force
    then show ?thesis unfolding keys using fin by simp
  qed
  have img: "path_or_empty g ` ?S = {s \<in> set seeds. s \<in> set (pathByID g) \<and> (target, s) \<in> (path_edges g)\<^sup>*}" (is "_ = ?P")
  proof (intro set_eqI iffI)
    fix p assume "p \<in> path_or_empty g ` ?S"
    then obtain i where i: "i \<in> ?S" "p = path_or_empty g i" by (rule imageE)
    then obtain s where s: "s \<in> set seeds" "graph_id g s = Some i" unfolding nodes by blast
    have "pathByID g ! i = s" using dag.id_Some [OF g s(2)] dag_nm [OF g] by auto
    moreover have "(target, pathByID g ! i) \<in> (path_edges g)\<^sup>*"
      using names_rtrancl [OF g ti(2) lt [OF i(1)]] i(1) ti(3) by simp
    moreover have "s \<in> set (pathByID g)" using graph_id_iff [OF g] s(2) by blast
    ultimately show "p \<in> ?P" using nm [OF i(1)] i(2) s(1) by simp
  next
    fix p assume p: "p \<in> ?P"
    then obtain i where i: "graph_id g p = Some i" "i < gn g" "pathByID g ! i = p" using wf_graph_id [OF g] by blast
    then have "(ti, i) \<in> (graph_edges g)\<^sup>*" using names_rtrancl [OF g ti(2) i(2)] p ti(3) by simp
    then have "i \<in> ?S" unfolding nodes using p i(1) by blast
    then show "p \<in> path_or_empty g ` ?S" using nm i(3) by (intro image_eqI) auto
  qed
  have "sorted_wrt (<) (map (path_or_empty g) (sorted_list_of_set ?S))"
    unfolding sorted_wrt_map path_or_empty_nm
    by (rule sorted_wrt_mono_rel [OF _ strict_sorted_list_of_set])
       (use dag.nm_less [OF g] lt fin in auto)
  then have "map (path_or_empty g) (sorted_list_of_set ?S) = sorted_list_of_set ?P"
    using fin img by (intro sorted_list_of_setI) (simp_all add: strict_sorted_iff)
  moreover have "map fst (map ?f out) = map (path_or_empty g) (map fst out)" by (simp add: split_beta)
  ultimately have "map fst (map ?f out) = sorted_list_of_set ?P" using keys by metis
  moreover have "engine_paths_from_seeds g seeds target = Some (map ?f out)"
    by (simp add: engine_paths_from_seeds_def ti(1) out)
  moreover have "name_chain (path_edges g) target s xs \<and> (\<forall>k. (target, s) \<in> path_edges g ^^ k \<longrightarrow> length xs \<le> Suc k)"
    if sx: "(s, xs) \<in> set (map ?f out)" for s xs
  proof -
    from sx obtain i ys where i: "(i, ys) \<in> set out" "s = path_or_empty g i" "xs = map (path_or_empty g) ys" by auto
    have s: "s = pathByID g ! i" using nm [OF mem [OF i(1)]] i(2) by simp
    have "name_chain (path_edges g) target s xs"
      using chain_to_names [OF g chains [OF i(1)] lt [OF mem [OF i(1)]] ti(2)] s i(3) ti(3) by simp
    moreover have "length xs \<le> Suc k" if "(target, s) \<in> path_edges g ^^ k" for k
      using short [OF i(1), of k] names_to_edges [OF g ti(2) lt [OF mem [OF i(1)]], of k] that s ti(3) i(3) by simp
    ultimately show ?thesis by blast
  qed
  ultimately show thesis using that by blast
qed

lemma engine_blast_radius_eq:
  assumes g: "wf_graph g"
  shows "engine_blast_radius g p =
    (if p \<in> set (pathByID g) then Some (card {q. (q, p) \<in> (path_edges g)\<^sup>*}) else None)"
proof -
  let ?xs = "graph_blast_radius g"
  have len: "length ?xs = gn g" by (simp add: graph_blast_radius_def blast_radius_def)
  have step: "foldl (\<lambda>m (i, c). case graph_path g (int i) of Some p \<Rightarrow> m(p \<mapsto> c) | None \<Rightarrow> m)
       Map.empty (enumerate 0 (take n ?xs)) p =
     (if \<exists>i < n. pathByID g ! i = p then Some (?xs ! (THE i. i < gn g \<and> pathByID g ! i = p)) else None)"
    if "n \<le> gn g" for n
    using that
  proof (induction n)
    case (Suc n)
    have inj: "(THE i. i < gn g \<and> pathByID g ! i = pathByID g ! n) = n"
      using Suc.prems g by (intro the_equality) (auto simp: wf_graph_def nth_eq_iff_index_eq)
    have "enumerate 0 (take (Suc n) ?xs) = enumerate 0 (take n ?xs) @ [(n, ?xs ! n)]"
      using Suc.prems len by (simp add: take_Suc_conv_app_nth enumerate_append_eq min_def)
    then show ?case using Suc inj by (auto simp: graph_path_def less_Suc_eq)
  qed simp
  have all: "engine_blast_radius g p =
      (if \<exists>i < gn g. pathByID g ! i = p then Some (?xs ! (THE i. i < gn g \<and> pathByID g ! i = p)) else None)"
    using step [of "gn g"] len by (simp add: engine_blast_radius_def)
  show ?thesis
  proof (cases "p \<in> set (pathByID g)")
    case True
    then obtain i where i: "i < gn g" "pathByID g ! i = p" using wf_graph_id [OF g] by metis
    then have the: "(THE i. i < gn g \<and> pathByID g ! i = p) = i"
      using g by (intro the_equality) (auto simp: wf_graph_def nth_eq_iff_index_eq)
    have inj: "inj_on ((!) (pathByID g)) {..<gn g}"
      using g by (auto simp: wf_graph_def inj_on_def nth_eq_iff_index_eq)
    have "{q. (q, p) \<in> (path_edges g)\<^sup>*} = (!) (pathByID g) ` {u. (u, i) \<in> (graph_edges g)\<^sup>*}" (is "?L = ?R")
    proof (intro set_eqI iffI)
      fix q assume q: "q \<in> ?L"
      then have "q = p \<or> (\<exists>r. (q, r) \<in> path_edges g)" by (auto elim: converse_rtranclE)
      then have "q = p \<or> q \<in> set (pathByID g)"
      proof (elim disjE exE)
        fix r assume "(q, r) \<in> path_edges g"
        then obtain v w where "(v, w) \<in> graph_edges g" "q = pathByID g ! v" by (auto simp: path_edges_def)
        then show ?thesis using graph_edges_bound [OF g] g by (auto simp: wf_graph_def)
      qed simp
      then obtain j where j: "j < gn g" "pathByID g ! j = q" using True wf_graph_id [OF g] by metis
      then show "q \<in> ?R" using q names_rtrancl [OF g j(1) i(1)] i(2) by auto
    next
      fix q assume "q \<in> ?R"
      then obtain u where u: "(u, i) \<in> (graph_edges g)\<^sup>*" "q = pathByID g ! u" by auto
      have "u < gn g" using u(1) i(1) graph_edges_bound [OF g] by (auto elim: converse_rtranclE)
      then show "q \<in> ?L" using names_rtrancl [OF g _ i(1)] u i(2) by auto
    qed
    moreover have "{u. (u, i) \<in> (graph_edges g)\<^sup>*} \<subseteq> {..<gn g}"
      using i(1) graph_edges_bound [OF g] by (auto elim: converse_rtranclE)
    ultimately have "card {q. (q, p) \<in> (path_edges g)\<^sup>*} = ?xs ! i"
      using blast_radius_nth [OF g i(1)] card_image [OF inj_on_subset [OF inj]] by metis
    then show ?thesis using all the i True by auto
  next
    case False
    then show ?thesis using all g by (auto simp: wf_graph_def)
  qed
qed

section \<open>A concrete workspace\<close>

definition demo :: workspace where
  "demo = [(''lib'', \<lparr>prj_path = ''lib'', DependsOn = []\<rparr>),
     (''app'', \<lparr>prj_path = ''app'', DependsOn = [''svc'', ''lib'']\<rparr>),
     (''svc'', \<lparr>prj_path = ''svc'', DependsOn = [''lib'']\<rparr>)]"

definition demo_graph :: graph where
  "demo_graph = (case build_project_graph demo of Inr g \<Rightarrow> g)"

lemma wf_demo: "wf_workspace demo"
  by code_simp

lemma demo_depends: "depends demo = {(''app'', ''svc''), (''app'', ''lib''), (''svc'', ''lib'')}"
proof -
  have "depends demo = (\<Union>(k, p) \<in> set demo. {k} \<times> set (DependsOn p))"
    unfolding depends_def by blast
  then show ?thesis unfolding demo_def by auto
qed

lemma demo_known: "known demo = {''app'', ''svc'', ''lib''}"
  unfolding known_def demo_def by auto

lemma demo_acyclic: "acyclic (depends demo)"
  unfolding demo_depends
  by (rule topo_sorted_acyclic [of _ "[''app'', ''svc'', ''lib'']"])
     (auto simp: topo_sorted_def less_Suc_eq numeral_3_eq_3)

lemma demo_builds: "build_project_graph demo = Inr demo_graph"
proof -
  obtain g where "build_project_graph demo = Inr g"
    using build_project_graph_ok [OF wf_demo] demo_acyclic by (auto simp: demo_depends demo_known)
  then show ?thesis by (simp add: demo_graph_def)
qed

section \<open>Properties\<close>

text \<open>
  C1. A workspace's project graph builds exactly when every declared dependency names a
  registered project and the dependencies hold no cycle.
\<close>

theorem project_graph_builds_iff:
  assumes "wf_workspace w"
  shows "(\<exists>g. build_project_graph w = Inr g) \<longleftrightarrow>
    depends w \<subseteq> known w \<times> known w \<and> acyclic (depends w)"
  using build_project_graph_ok [OF assms] build_project_graph_Inr(4,5) [OF assms] by metis

theorem project_graph_builds_iff_witness:
  "\<exists>g. build_project_graph demo = Inr g"
  using project_graph_builds_iff [OF wf_demo] demo_acyclic by (simp add: demo_depends demo_known)

text \<open>
  C2. The topological order of a built workspace names each project exactly once and puts
  a project after every project that depends on it.
\<close>

theorem topo_sort_orders_projects:
  assumes "wf_workspace w" "build_project_graph w = Inr g"
  shows "distinct (engine_topo_sort g) \<and> set (engine_topo_sort g) = known w \<and>
    topo_sorted (depends w) (engine_topo_sort g)"
  using engine_topo_sort_eq build_project_graph_Inr(1,2,3) [OF assms] by metis

theorem topo_sort_orders_projects_witness:
  "length (engine_topo_sort demo_graph) = 3 \<and> topo_sorted (depends demo) (engine_topo_sort demo_graph)"
proof -
  note t = topo_sort_orders_projects [OF wf_demo demo_builds]
  have "card (known demo) = 3" by (simp add: demo_known)
  then show ?thesis using t by (simp flip: distinct_card)
qed

text \<open>
  C3. The reverse closure of a list of paths is the sorted list, without repetitions, of the
  projects that are one of the paths or depend on one of them, directly or not. Paths that
  are not projects are ignored.
\<close>

theorem reverse_closure_is_dependents:
  assumes "wf_workspace w" "build_project_graph w = Inr g"
  shows "engine_reverse_closure g seeds =
    sorted_list_of_set {p. \<exists>s \<in> set seeds \<inter> known w. (p, s) \<in> (depends w)\<^sup>*}"
proof -
  note b = build_project_graph_Inr [OF assms]
  have "{p. \<exists>s \<in> set seeds. s \<in> set (pathByID g) \<and> (p, s) \<in> (path_edges g)\<^sup>*} =
      {p. \<exists>s \<in> set seeds \<inter> known w. (p, s) \<in> (depends w)\<^sup>*}" using b(2,3) by auto
  then show ?thesis using engine_reverse_closure_eq [OF b(1)] by simp
qed

theorem reverse_closure_is_dependents_witness:
  "set (engine_reverse_closure demo_graph [''svc'', ''ghost'']) = {''app'', ''svc''}"
proof -
  have "{p. \<exists>s \<in> set [''svc'', ''ghost''] \<inter> known demo. (p, s) \<in> (depends demo)\<^sup>*} = {''app'', ''svc''}"
    by (auto simp: demo_known demo_depends elim: converse_rtranclE)
  then show ?thesis using reverse_closure_is_dependents [OF wf_demo demo_builds, of "[''svc'', ''ghost'']"]
    by simp
qed

text \<open>
  C4. The bitset strategy that large graphs use and the walk that small graphs use give the
  same reverse closure, so the threshold between them is one of speed alone.
\<close>

theorem closure_strategies_agree:
  assumes "wf_workspace w" "build_project_graph w = Inr g"
  shows "closure_reverse (build_closure g) [] seeds (gn g) = reverse_closure_bfs g [] seeds"
  using reverse_closure_bfs_correct closure_reverse_correct build_project_graph_Inr(1) [OF assms] by simp

theorem closure_strategies_agree_witness:
  "closure_reverse (build_closure demo_graph) [] [1, 7, -1] (gn demo_graph) = reverse_closure_bfs demo_graph [] [1, 7, -1]"
  by (rule closure_strategies_agree [OF wf_demo demo_builds])

text \<open>
  C5. For a registered target the search for affected paths ends and reports each
  registered seed the target depends on, in order and once, each with a chain of
  dependencies from the seed back to the target that no shorter one connects.
\<close>

theorem paths_from_seeds_shortest_chains:
  assumes "wf_workspace w" "build_project_graph w = Inr g" "target \<in> known w"
  shows "\<exists>out. engine_paths_from_seeds g seeds target = Some out \<and>
    map fst out = sorted_list_of_set {s \<in> set seeds \<inter> known w. (target, s) \<in> (depends w)\<^sup>*} \<and>
    (\<forall>(s, chain) \<in> set out. name_chain (depends w) target s chain \<and>
       (\<forall>k. (target, s) \<in> depends w ^^ k \<longrightarrow> length chain \<le> Suc k))"
proof -
  note b = build_project_graph_Inr [OF assms(1,2)]
  have t: "target \<in> set (pathByID g)" using b(3) assms(3) by simp
  have s: "{s \<in> set seeds \<inter> known w. (target, s) \<in> (depends w)\<^sup>*} =
    {s \<in> set seeds. s \<in> set (pathByID g) \<and> (target, s) \<in> (path_edges g)\<^sup>*}" using b(2,3) by auto
  show ?thesis unfolding s
    by (rule engine_paths_from_seeds_correct [OF b(1) t, of seeds]) (use b(2) in auto)
qed

theorem paths_from_seeds_shortest_chains_witness:
  "\<exists>out. engine_paths_from_seeds demo_graph [''lib''] ''app'' = Some out \<and> map fst out = [''lib''] \<and>
    (\<forall>(s, chain) \<in> set out. length chain \<le> 2)"
proof -
  have "{s \<in> set [''lib''] \<inter> known demo. (''app'', s) \<in> (depends demo)\<^sup>*} = {''lib''}"
    by (auto simp: demo_known demo_depends)
  moreover have "(''app'', ''lib'') \<in> depends demo ^^ 1" by (simp add: demo_depends)
  moreover obtain out where out: "engine_paths_from_seeds demo_graph [''lib''] ''app'' = Some out"
    "map fst out = sorted_list_of_set {s \<in> set [''lib''] \<inter> known demo. (''app'', s) \<in> (depends demo)\<^sup>*}"
    "\<forall>(s, chain) \<in> set out. name_chain (depends demo) ''app'' s chain \<and>
       (\<forall>k. (''app'', s) \<in> depends demo ^^ k \<longrightarrow> length chain \<le> Suc k)"
    using paths_from_seeds_shortest_chains [OF wf_demo demo_builds, of "''app''" "[''lib'']"]
    by (auto simp: demo_known)
  ultimately have keys: "map fst out = [''lib'']" by simp
  have "length chain \<le> 2" if "(s, chain) \<in> set out" for s chain
  proof -
    have "s = ''lib''" using that keys by (metis (no_types) fst_conv image_eqI list.set_map set_ConsD set_empty empty_iff list.set(1))
    with out(3) that \<open>(''app'', ''lib'') \<in> depends demo ^^ 1\<close> show ?thesis by fastforce
  qed
  with out(1) keys show ?thesis by auto
qed

text \<open>
  The blast radius of a project counts the projects that depend on it, directly or not,
  itself included; nothing else has one.
\<close>

theorem blast_radius_counts_dependents:
  assumes "wf_workspace w" "build_project_graph w = Inr g"
  shows "engine_blast_radius g p =
    (if p \<in> known w then Some (card {q. (q, p) \<in> (depends w)\<^sup>*}) else None)"
  using engine_blast_radius_eq build_project_graph_Inr(1,2,3) [OF assms] by simp

theorem blast_radius_counts_dependents_witness:
  "engine_blast_radius demo_graph ''svc'' = Some 2"
proof -
  have "{q. (q, ''svc'') \<in> (depends demo)\<^sup>*} = {''app'', ''svc''}"
    by (auto simp: demo_depends elim: converse_rtranclE)
  then show ?thesis using blast_radius_counts_dependents [OF wf_demo demo_builds, of "''svc''"]
    by (simp add: demo_known)
qed

text \<open>
  The suggestion for an unknown path is empty or a registered project whose edit
  distance over runes is at most a third of the typed bytes and no larger than that of any
  other project; the distance is the least number of insertions, deletions and
  substitutions.
\<close>

theorem suggestion_is_nearest:
  "nearest_project_path want w = [] \<or>
   nearest_project_path want w \<in> prj_path ` set (ws_all w) \<and>
   edit_distance (runes want) (runes (nearest_project_path want w)) \<le> length want div 3 \<and>
   (\<forall>p. p \<in> set (ws_all w) \<longrightarrow>
      edit_distance (runes want) (runes (nearest_project_path want w)) \<le> edit_distance (runes want) (runes (prj_path p)))"
  using nearest_project_path_eq [of want w] unfolding Distance_correct by blast

theorem suggestion_is_nearest_witness:
  "nearest_project_path ''libb'' demo = ''lib'' \<and>
   edit_distance (runes ''libb'') (runes ''lib'') \<le> 1"
proof -
  have "nearest_project_path ''libb'' demo = ''lib''" by code_simp
  then show ?thesis using suggestion_is_nearest [of "''libb''" demo] by simp
qed

end
