(* ===== verification/Memory_Curve.thy ===== *)
theory Memory_Curve
  imports Magus_Prelude
begin

text \<open>
  A run's memory as a curve over its own duration: \<open>src/types/memory_curve.go\<close>. The
  curve has 20 buckets, each a fraction of the run, and the run's duration is known only as
  the band from its p10 to its p90. \<open>held_mb\<close> is what a run may hold at an elapsed time;
  \<open>compose_call\<close> folds the curves of steps that start together into one.

  Times are integers (nanoseconds), buckets unsigned 32-bit counts of MiB. Go's integer
  division truncates, and so does \<open>sdiv\<close>.
\<close>

section \<open>Profiles\<close>

definition MemoryCurveBuckets :: nat where
  "MemoryCurveBuckets = 20"

record memory_profile =
  Curve :: "nat list"
  D10Ms :: int
  D90Ms :: int
  Runs :: int

definition no_profile :: memory_profile where
  "no_profile = \<lparr>Curve = replicate MemoryCurveBuckets 0, D10Ms = 0, D90Ms = 0, Runs = 0\<rparr>"

definition ms :: "int \<Rightarrow> nanos" where
  "ms n = n * 1000000"

definition peak_mb :: "nat list \<Rightarrow> nat" where
  "peak_mb c = foldl max 0 c"

definition held_mb :: "memory_profile \<Rightarrow> nanos \<Rightarrow> nat" where
  "held_mb p elapsed =
     (let d10 = ms (D10Ms p); d90 = ms (D90Ms p)
      in if d90 \<le> 0 \<or> elapsed > d90 then peak_mb (Curve p)
         else
           let e = max elapsed 0;
               top = int MemoryCurveBuckets - 1;
               last_b = (if d10 > 0 then min (e * int MemoryCurveBuckets sdiv d10) top else top);
               first = min (e * int MemoryCurveBuckets sdiv d90) last_b
           in foldl max 0 (drop (nat first) (take (nat (last_b + 1)) (Curve p))))"

text \<open>The instants, from the start of a run, where its curve can step: rounded up.\<close>

definition band_breakpoints :: "int \<Rightarrow> nanos list" where
  "band_breakpoints n =
     map (\<lambda>k. (int k * ms n + int MemoryCurveBuckets - 1) sdiv int MemoryCurveBuckets)
       [0..<Suc MemoryCurveBuckets]"

section \<open>Claims of a call's members\<close>

record slot_sizing =
  Source :: string
  slotSamples :: int
  slotAnyShape :: bool

record memory_sizing =
  Samples :: int
  AnyShape :: bool
  SlotsSizing :: slot_sizing
  Fallback :: string

record chain_memory =
  MB :: int
  cmDeclaredBy :: string
  cmSizing :: memory_sizing
  cmProfile :: memory_profile

definition uint32 :: "int \<Rightarrow> nat" where
  "uint32 n = nat (n mod 2 ^ 32)"

definition member_held :: "nanos \<Rightarrow> chain_memory \<Rightarrow> int" where
  "member_held elapsed m =
     (if elapsed \<le> ms (D90Ms (cmProfile m)) then min (int (held_mb (cmProfile m) elapsed)) (MB m) else 0)"

definition summed_held_mb :: "chain_memory list \<Rightarrow> nanos \<Rightarrow> int" where
  "summed_held_mb members elapsed = foldl (\<lambda>held m. held + member_held elapsed m) 0 members"

definition compose_bucket :: "int \<Rightarrow> nanos \<Rightarrow> nat" where
  "compose_bucket span t =
     nat (if span > 0 then min (t * int MemoryCurveBuckets sdiv span) (int MemoryCurveBuckets - 1)
          else int MemoryCurveBuckets - 1)"

definition raise_bucket :: "chain_memory list \<Rightarrow> int \<Rightarrow> nat list \<Rightarrow> nanos \<Rightarrow> nat list" where
  "raise_bucket members span curve t =
     (let b = compose_bucket span t
      in curve[b := max (curve ! b) (uint32 (summed_held_mb members t))])"

definition compose_instants :: "chain_memory list \<Rightarrow> nanos list" where
  "compose_instants members =
     concat (map (\<lambda>m. band_breakpoints (D10Ms (cmProfile m)) @ band_breakpoints (D90Ms (cmProfile m))) members)"

text \<open>Go indexes \<open>members[0]\<close>: the fold calls this on two or more members.\<close>

definition compose_call :: "chain_memory list \<Rightarrow> memory_profile" where
  "compose_call members =
     (let d10 = foldl (\<lambda>d m. max d (D10Ms (cmProfile m))) 0 members;
          d90 = foldl (\<lambda>d m. max d (D90Ms (cmProfile m))) 0 members;
          runs = foldl (\<lambda>r m. min r (Runs (cmProfile m))) (Runs (cmProfile (hd members))) members
      in \<lparr>Curve = foldl (raise_bucket members (ms d90)) (replicate MemoryCurveBuckets 0) (compose_instants members),
          D10Ms = d10, D90Ms = d90, Runs = runs\<rparr>)"

definition top_member :: "chain_memory list \<Rightarrow> chain_memory" where
  "top_member members = foldl (\<lambda>t m. if MB m > MB t then m else t) (hd members) members"

definition no_curve_reason :: "string \<Rightarrow> string" where
  "no_curve_reason name = name @ '': no memory curve; summed the peaks of its ctx.needs call''"

definition fold_call :: "chain_memory list \<Rightarrow> string list \<Rightarrow> chain_memory" where
  "fold_call members names =
     (if length members = 1 then hd members
      else
        let call = \<lparr>MB = foldl (\<lambda>s m. s + MB m) 0 members, cmDeclaredBy = cmDeclaredBy (top_member members),
                    cmSizing = cmSizing (top_member members), cmProfile = no_profile\<rparr>
        in case index_func (\<lambda>m. \<not> Runs (cmProfile m) > 0) members of
             Some i \<Rightarrow>
               let why = Fallback (cmSizing (members ! i))
               in call\<lparr>cmSizing := (cmSizing call)\<lparr>Fallback := if why = '''' then no_curve_reason (names ! i) else why\<rparr>\<rparr>
           | None \<Rightarrow>
               let p = compose_call members
               in call\<lparr>cmProfile := p, MB := int (peak_mb (Curve p))\<rparr>)"

section \<open>Running maxima and sums\<close>

lemma foldl_max_le: "foldl max a xs \<le> b \<longleftrightarrow> a \<le> b \<and> (\<forall>x \<in> set xs. x \<le> b)" for a :: "'a::linorder"
  by (induction xs arbitrary: a) auto

lemma foldl_max_in: "foldl max a xs \<in> insert a (set xs)" for a :: "'a::linorder"
  by (induction xs arbitrary: a) (auto simp: max_def split: if_splits)

lemma foldl_max_ge: "x \<in> insert a (set xs) \<Longrightarrow> x \<le> foldl max a xs" for a :: "'a::linorder"
  using foldl_max_le [of a xs "foldl max a xs"] by auto

lemma foldl_max_key: "foldl (\<lambda>d m. max d (f m)) a xs = foldl max a (map f xs)" for a :: "'b::linorder"
  by (induction xs arbitrary: a) auto

lemma foldl_add: "foldl (\<lambda>s m. s + f m) a xs = a + (\<Sum>m\<leftarrow>xs. f m)" for a :: int
  by (induction xs arbitrary: a) auto

section \<open>A curve changes only at its breakpoints\<close>

lemma ceil_le_iff: "(int k * d + 19) div 20 \<le> e \<longleftrightarrow> int k * d \<le> e * 20"
  by linarith

lemma band_breakpoints_iff:
  assumes "0 \<le> n"
  shows "b \<in> set (band_breakpoints n) \<longleftrightarrow> (\<exists>k \<le> 20. b = (int k * ms n + 19) div 20)"
proof -
  have "(int k * ms n + 19) sdiv 20 = (int k * ms n + 19) div 20" for k
    using assms by (intro sdiv_nonneg) (auto simp: ms_def)
  then have "band_breakpoints n = map (\<lambda>k. (int k * ms n + 19) div 20) [0..<Suc 20]"
    by (simp add: band_breakpoints_def MemoryCurveBuckets_def add.commute del: upt_Suc)
  moreover have "set [0..<Suc 20] = {k. k \<le> 20}" by (auto simp del: upt_Suc)
  ultimately show ?thesis by (auto simp del: upt_Suc)
qed

lemma band_breakpoints_0: "0 \<le> n \<Longrightarrow> 0 \<in> set (band_breakpoints n)"
  by (auto simp: band_breakpoints_iff intro: exI [of _ 0])

lemma band_breakpoints_nonneg: "0 \<le> n \<Longrightarrow> b \<in> set (band_breakpoints n) \<Longrightarrow> 0 \<le> b"
proof -
  assume n: "0 \<le> n" and "b \<in> set (band_breakpoints n)"
  then obtain k where "b = (int k * ms n + 19) div 20" by (auto simp: band_breakpoints_iff)
  moreover have "0 \<le> int k * ms n" using n by (simp add: ms_def)
  ultimately show ?thesis by simp
qed

definition crossed :: "nanos \<Rightarrow> nanos \<Rightarrow> int" where
  "crossed d e = min (e * 20 div d) 20"

lemma crossed_iff: "0 < d \<Longrightarrow> k \<le> 20 \<Longrightarrow> int k \<le> crossed d e \<longleftrightarrow> (int k * d + 19) div 20 \<le> e"
  unfolding ceil_le_iff crossed_def by (simp add: le_div_iff_int)

text \<open>No breakpoint of the band \<open>n\<close> lies in the interval from \<open>t\<close> (excluded) to \<open>e\<close>.\<close>

definition quiet :: "int \<Rightarrow> nanos \<Rightarrow> nanos \<Rightarrow> bool" where
  "quiet n t e \<longleftrightarrow> (\<forall>b \<in> set (band_breakpoints n). b \<le> e \<longrightarrow> b \<le> t)"

lemma quiet_crossed:
  assumes "quiet n t e" "0 < ms n" "0 \<le> t" "t \<le> e"
  shows "crossed (ms n) e = crossed (ms n) t"
proof -
  have n: "0 \<le> n" using assms(2) by (simp add: ms_def)
  have iff: "int k \<le> crossed (ms n) e \<longleftrightarrow> int k \<le> crossed (ms n) t" if "k \<le> 20" for k
    using that assms band_breakpoints_iff [OF n] by (force simp: crossed_iff quiet_def)
  have pos: "0 \<le> crossed (ms n) e" "0 \<le> crossed (ms n) t"
    using assms by (auto simp: crossed_def pos_imp_zdiv_nonneg_iff)
  have le: "crossed (ms n) e \<le> 20" "crossed (ms n) t \<le> 20" by (auto simp: crossed_def)
  show ?thesis
    using iff [of "nat (crossed (ms n) e)"] iff [of "nat (crossed (ms n) t)"] pos le by linarith
qed

definition slice_max :: "nat list \<Rightarrow> int \<Rightarrow> int \<Rightarrow> nat" where
  "slice_max c first last_b = foldl max 0 (drop (nat first) (take (nat (last_b + 1)) c))"

lemma held_mb_crossed:
  assumes "0 < ms (D90Ms p)" "0 \<le> e" "e \<le> ms (D90Ms p)"
  shows "held_mb p e =
    (let last_b = (if 0 < ms (D10Ms p) then min (crossed (ms (D10Ms p)) e) 19 else 19)
     in slice_max (Curve p) (min (crossed (ms (D90Ms p)) e) last_b) last_b)"
proof -
  have "min (e * 20 sdiv d) 19 = min (crossed d e) 19" if "0 < d" for d
    using that assms(2) by (simp add: sdiv_nonneg crossed_def)
  moreover have "min (e * 20 sdiv ms (D90Ms p)) l = min (crossed (ms (D90Ms p)) e) l" if "l \<le> 19" for l
    using that assms(1,2) by (simp add: sdiv_nonneg crossed_def)
  ultimately show ?thesis
    using assms by (simp add: held_mb_def Let_def slice_max_def MemoryCurveBuckets_def)
qed

lemma held_mb_quiet:
  assumes "quiet (D10Ms p) t e" "quiet (D90Ms p) t e" "0 \<le> t" "t \<le> e" "e \<le> ms (D90Ms p)"
  shows "held_mb p e = held_mb p t"
proof (cases "0 < ms (D90Ms p)")
  case True
  then have "crossed (ms (D90Ms p)) e = crossed (ms (D90Ms p)) t"
    and "0 < ms (D10Ms p) \<Longrightarrow> crossed (ms (D10Ms p)) e = crossed (ms (D10Ms p)) t"
    using quiet_crossed assms by blast+
  then show ?thesis using True assms by (simp add: held_mb_crossed Let_def)
qed (use assms in \<open>simp add: held_mb_def\<close>)

text \<open>The last breakpoint at or before an instant: the curve is quiet from there to it.\<close>

lemma last_breakpoint:
  fixes B :: "int set"
  assumes "finite B" "b0 \<in> B" "b0 \<le> e"
  obtains t where "t \<in> B" "b0 \<le> t" "t \<le> e" "\<And>b. b \<in> B \<Longrightarrow> b \<le> e \<Longrightarrow> b \<le> t"
proof
  let ?t = "Max {b \<in> B. b \<le> e}"
  have S: "finite {b \<in> B. b \<le> e}" "{b \<in> B. b \<le> e} \<noteq> {}" using assms by auto
  then have "?t \<in> {b \<in> B. b \<le> e}" by (rule Max_in)
  then show "?t \<in> B" "?t \<le> e" by auto
  show "b0 \<le> ?t" using assms S(1) by (simp add: Max_ge)
  show "b \<le> ?t" if "b \<in> B" "b \<le> e" for b using that S(1) by (simp add: Max_ge)
qed

lemma member_held_quiet:
  assumes "quiet (D10Ms (cmProfile m)) t e" "quiet (D90Ms (cmProfile m)) t e" "0 \<le> t" "t \<le> e" "0 \<le> MB m"
  shows "member_held e m \<le> member_held t m"
proof (cases "e \<le> ms (D90Ms (cmProfile m))")
  case True
  with held_mb_quiet [OF assms(1-4)] assms(4) show ?thesis by (simp add: member_held_def)
qed (use assms(5) in \<open>auto simp: member_held_def\<close>)

section \<open>Composing a call is exact\<close>

definition wf_member :: "chain_memory \<Rightarrow> bool" where
  "wf_member m \<longleftrightarrow> 0 \<le> D10Ms (cmProfile m) \<and> D10Ms (cmProfile m) \<le> D90Ms (cmProfile m) \<and> 0 \<le> MB m"

lemma summed_held_mb_sum: "summed_held_mb members t = (\<Sum>m\<leftarrow>members. member_held t m)"
  by (simp add: summed_held_mb_def foldl_add)

lemma member_held_bounds: "0 \<le> MB m \<Longrightarrow> 0 \<le> member_held t m \<and> member_held t m \<le> MB m"
  by (simp add: member_held_def)

lemma summed_held_mb_bounds:
  assumes "\<forall>m \<in> set members. 0 \<le> MB m"
  shows "0 \<le> summed_held_mb members t \<and> summed_held_mb members t \<le> (\<Sum>m\<leftarrow>members. MB m)"
  using assms unfolding summed_held_mb_sum
  by (induction members) (auto dest!: member_held_bounds [of _ t])

lemma raise_buckets:
  assumes "length curve = 20"
  shows "length (foldl (raise_bucket members span) curve ts) = 20 \<and>
    (\<forall>i < 20. curve ! i \<le> foldl (raise_bucket members span) curve ts ! i) \<and>
    (\<forall>t \<in> set ts. compose_bucket span t < 20 \<longrightarrow> uint32 (summed_held_mb members t) \<le>
       foldl (raise_bucket members span) curve ts ! compose_bucket span t) \<and>
    (\<forall>i < 20. foldl (raise_bucket members span) curve ts ! i \<in>
       insert (curve ! i) ((\<lambda>t. uint32 (summed_held_mb members t)) ` set ts))"
  using assms
proof (induction ts arbitrary: curve)
  case (Cons t ts)
  let ?b = "compose_bucket span t" and ?x = "uint32 (summed_held_mb members t)"
  let ?c = "raise_bucket members span curve t"
  have c: "length ?c = 20" using Cons.prems by (simp add: raise_bucket_def Let_def)
  have up: "curve ! i \<le> ?c ! i" "?c ! i \<in> {curve ! i, ?x}" if "i < 20" for i
    using that Cons.prems by (cases "i = ?b"; simp add: raise_bucket_def Let_def max_def)+
  have here: "?x \<le> ?c ! ?b" if "?b < 20"
    using that Cons.prems by (simp add: raise_bucket_def Let_def)
  let ?r = "foldl (raise_bucket members span) ?c ts"
  note IH = Cons.IH [OF c]
  have "curve ! i \<le> ?r ! i" if "i < 20" for i using IH up(1) [OF that] that by (meson order_trans)
  moreover have "?x \<le> ?r ! ?b" if "?b < 20" using IH here [OF that] that by (meson order_trans)
  moreover have "?r ! i \<in> insert (curve ! i) ((\<lambda>t. uint32 (summed_held_mb members t)) ` set (t # ts))" if "i < 20" for i
    using IH up(2) [OF that] that by auto
  ultimately show ?case using IH by simp
qed simp

lemma compose_instants_iff:
  "t \<in> set (compose_instants members) \<longleftrightarrow>
    (\<exists>m \<in> set members. t \<in> set (band_breakpoints (D10Ms (cmProfile m))) \<or> t \<in> set (band_breakpoints (D90Ms (cmProfile m))))"
  unfolding compose_instants_def set_concat set_map image_image set_append UN_iff Un_iff by (rule refl)

definition wf_call :: "chain_memory list \<Rightarrow> bool" where
  "wf_call members \<longleftrightarrow>
     members \<noteq> [] \<and> (\<forall>m \<in> set members. wf_member m) \<and> (\<Sum>m\<leftarrow>members. MB m) < 2 ^ 32"

lemma composed_band:
  "D10Ms (compose_call members) = foldl max 0 (map (\<lambda>m. D10Ms (cmProfile m)) members)"
  "D90Ms (compose_call members) = foldl max 0 (map (\<lambda>m. D90Ms (cmProfile m)) members)"
  by (simp_all add: compose_call_def Let_def) (rule foldl_max_key)+

lemma composed_band_bounds:
  assumes "wf_call members"
  shows "0 \<le> D10Ms (compose_call members)" "D10Ms (compose_call members) \<le> D90Ms (compose_call members)"
    and "\<And>m. m \<in> set members \<Longrightarrow> D90Ms (cmProfile m) \<le> D90Ms (compose_call members)"
    and "D90Ms (compose_call members) = 0 \<or> (\<exists>m \<in> set members. D90Ms (cmProfile m) = D90Ms (compose_call members))"
proof -
  show ge: "D90Ms (cmProfile m) \<le> D90Ms (compose_call members)" if "m \<in> set members" for m
    unfolding composed_band using that by (intro foldl_max_ge) auto
  show "0 \<le> D10Ms (compose_call members)" unfolding composed_band by (rule foldl_max_ge) simp
  have "0 \<le> D90Ms (compose_call members)" unfolding composed_band by (rule foldl_max_ge) simp
  moreover have "D10Ms (cmProfile m) \<le> D90Ms (compose_call members)" if "m \<in> set members" for m
    using ge [OF that] assms that by (fastforce simp: wf_call_def wf_member_def)
  ultimately show "D10Ms (compose_call members) \<le> D90Ms (compose_call members)"
    unfolding composed_band(1) foldl_max_le by auto
  have "D90Ms (compose_call members) \<in> insert 0 (set (map (\<lambda>m. D90Ms (cmProfile m)) members))"
    unfolding composed_band by (rule foldl_max_in)
  then show "D90Ms (compose_call members) = 0 \<or> (\<exists>m \<in> set members. D90Ms (cmProfile m) = D90Ms (compose_call members))"
    by auto
qed

lemma uint32_summed:
  assumes "wf_call members"
  shows "int (uint32 (summed_held_mb members t)) = summed_held_mb members t"
proof -
  have "\<forall>m \<in> set members. 0 \<le> MB m" using assms by (auto simp: wf_call_def wf_member_def)
  from summed_held_mb_bounds [OF this, of t] assms
  have "0 \<le> summed_held_mb members t" "summed_held_mb members t < 2 ^ 32" by (auto simp: wf_call_def)
  then show ?thesis by (simp add: uint32_def)
qed

text \<open>Every instant has a breakpoint before it, in its own bucket, where no less is held.\<close>

lemma breakpoint_before:
  assumes w: "wf_call members" and t: "0 \<le> t"
  obtains t0 where "t0 \<in> set (compose_instants members)" "0 \<le> t0" "t0 \<le> t"
    "summed_held_mb members t \<le> summed_held_mb members t0"
    "quiet (D90Ms (compose_call members)) t0 t \<or> D90Ms (compose_call members) = 0"
proof -
  let ?B = "set (compose_instants members)"
  have nn: "0 \<le> D10Ms (cmProfile m) \<and> 0 \<le> D90Ms (cmProfile m) \<and> 0 \<le> MB m" if "m \<in> set members" for m
    using w that by (fastforce simp: wf_call_def wf_member_def)
  obtain m0 where m0: "m0 \<in> set members" using w by (metis list.set_intros(1) neq_Nil_conv wf_call_def)
  have "0 \<in> ?B" using m0 nn [OF m0] band_breakpoints_0 unfolding compose_instants_iff by blast
  then obtain t0 where t0: "t0 \<in> ?B" "0 \<le> t0" "t0 \<le> t" "\<And>b. b \<in> ?B \<Longrightarrow> b \<le> t \<Longrightarrow> b \<le> t0"
    using last_breakpoint [of ?B 0 t] t by blast
  have q: "quiet (D10Ms (cmProfile m)) t0 t" "quiet (D90Ms (cmProfile m)) t0 t" if "m \<in> set members" for m
    using t0(4) that unfolding quiet_def compose_instants_iff by blast+
  have "member_held t m \<le> member_held t0 m" if "m \<in> set members" for m
    using member_held_quiet [OF q [OF that] t0(2,3)] nn [OF that] by blast
  then have "summed_held_mb members t \<le> summed_held_mb members t0"
    unfolding summed_held_mb_sum by (rule sum_list_mono)
  moreover have "quiet (D90Ms (compose_call members)) t0 t \<or> D90Ms (compose_call members) = 0"
    using composed_band_bounds(4) [OF w] q(2) by metis
  ultimately show thesis using that t0(1-3) by blast
qed

lemma compose_bucket_less: "compose_bucket span t < 20"
  by (auto simp: compose_bucket_def MemoryCurveBuckets_def nat_less_iff)

lemma composed_curve:
  assumes w: "wf_call members"
  defines "c \<equiv> Curve (compose_call members)" and "span \<equiv> ms (D90Ms (compose_call members))"
  shows "length c = 20"
    and "t \<in> set (compose_instants members) \<Longrightarrow> summed_held_mb members t \<le> int (c ! compose_bucket span t)"
    and "i < 20 \<Longrightarrow> c ! i = 0 \<or> (\<exists>t \<in> set (compose_instants members). int (c ! i) = summed_held_mb members t)"
proof -
  have c: "c = foldl (raise_bucket members span) (replicate 20 0) (compose_instants members)"
    by (simp add: c_def span_def compose_call_def Let_def MemoryCurveBuckets_def)
  note r = raise_buckets [of "replicate 20 0" members span "compose_instants members", folded c]
  show "length c = 20" using r by simp
  show "summed_held_mb members t \<le> int (c ! compose_bucket span t)" if "t \<in> set (compose_instants members)"
  proof -
    have "uint32 (summed_held_mb members t) \<le> c ! compose_bucket span t"
      using r that compose_bucket_less by simp
    then show ?thesis using uint32_summed [OF w, of t] by linarith
  qed
  show "c ! i = 0 \<or> (\<exists>t \<in> set (compose_instants members). int (c ! i) = summed_held_mb members t)" if "i < 20"
    using r that uint32_summed [OF w] by force
qed

text \<open>The peak of the composed curve is the most the members ever hold together.\<close>

lemma compose_peak_exact:
  assumes w: "wf_call members"
  shows "(\<forall>t \<ge> 0. summed_held_mb members t \<le> int (peak_mb (Curve (compose_call members)))) \<and>
    (\<exists>t \<ge> 0. summed_held_mb members t = int (peak_mb (Curve (compose_call members))))"
proof -
  note c = composed_curve [OF w]
  let ?c = "Curve (compose_call members)"
  have up: "summed_held_mb members t \<le> int (peak_mb ?c)" if t: "0 \<le> t" for t
  proof -
    obtain t0 where t0: "t0 \<in> set (compose_instants members)" "summed_held_mb members t \<le> summed_held_mb members t0"
      using breakpoint_before [OF w t] by blast
    have "?c ! compose_bucket (ms (D90Ms (compose_call members))) t0 \<le> peak_mb ?c"
      unfolding peak_mb_def using c(1) compose_bucket_less by (intro foldl_max_ge) (simp add: nth_mem)
    then show ?thesis using t0(2) c(2) [OF t0(1)] by linarith
  qed
  have inst: "0 \<le> t" if "t \<in> set (compose_instants members)" for t
  proof -
    obtain m where m: "m \<in> set members" "t \<in> set (band_breakpoints (D10Ms (cmProfile m))) \<or> t \<in> set (band_breakpoints (D90Ms (cmProfile m)))"
      using \<open>t \<in> _\<close> unfolding compose_instants_iff by blast
    then have "wf_member m" using w by (simp add: wf_call_def)
    then have "0 \<le> D10Ms (cmProfile m)" "0 \<le> D90Ms (cmProfile m)" by (simp_all add: wf_member_def)
    then show ?thesis using m(2) band_breakpoints_nonneg by blast
  qed
  have "\<exists>t \<ge> 0. summed_held_mb members t = int (peak_mb ?c)"
  proof (cases "peak_mb ?c = 0")
    case True
    have "\<forall>m \<in> set members. 0 \<le> MB m" using w by (auto simp: wf_call_def wf_member_def)
    then have "0 \<le> summed_held_mb members 0" using summed_held_mb_bounds by blast
    then show ?thesis using up [of 0] True by (intro exI [of _ 0]) simp
  next
    case False
    have "peak_mb ?c \<in> insert 0 (set ?c)" unfolding peak_mb_def by (rule foldl_max_in)
    with False obtain i where "i < 20" "?c ! i = peak_mb ?c" using c(1) by (auto simp: in_set_conv_nth)
    with c(3) False obtain t where "t \<in> set (compose_instants members)" "int (peak_mb ?c) = summed_held_mb members t" by metis
    then show ?thesis using inst by auto
  qed
  with up show ?thesis by blast
qed

lemma nth_in_slice:
  assumes "lo \<le> hi" "0 \<le> lo" "hi \<le> 19" "length c = 20"
  shows "c ! nat lo \<in> set (drop (nat (min lo hi)) (take (nat (hi + 1)) c))"
proof -
  have "drop (nat (min lo hi)) (take (nat (hi + 1)) c) ! 0 = c ! nat lo"
    "0 < length (drop (nat (min lo hi)) (take (nat (hi + 1)) c))" using assms by auto
  then show ?thesis by (metis nth_mem)
qed

text \<open>At every instant of the call the composed curve holds at least what the members do.\<close>

lemma compose_covers:
  assumes w: "wf_call members" and t: "0 \<le> t" "t \<le> ms (D90Ms (compose_call members))"
  shows "summed_held_mb members t \<le> int (held_mb (compose_call members) t)"
proof -
  let ?p = "compose_call members"
  let ?c = "Curve ?p" and ?d = "ms (D90Ms (compose_call members))"
  obtain t0 where t0: "t0 \<in> set (compose_instants members)" "0 \<le> t0" "t0 \<le> t"
    "summed_held_mb members t \<le> summed_held_mb members t0"
    "quiet (D90Ms ?p) t0 t \<or> D90Ms ?p = 0"
    using breakpoint_before [OF w t(1)] .
  have le: "summed_held_mb members t \<le> int (?c ! compose_bucket ?d t0)"
    using t0(4) composed_curve(2) [OF w t0(1)] by linarith
  show ?thesis
  proof (cases "D90Ms ?p = 0")
    case True
    then have "held_mb ?p t = peak_mb ?c" by (simp add: held_mb_def ms_def)
    then show ?thesis using compose_peak_exact [OF w] t(1) by auto
  next
    case False
    then have d: "0 < ?d" using composed_band_bounds(1,2) [OF w] by (simp add: ms_def)
    have same: "crossed ?d t = crossed ?d t0" using quiet_crossed [OF _ d t0(2,3)] t0(5) False by blast
    have b: "compose_bucket ?d t0 = nat (min (crossed ?d t) 19)"
      unfolding same using d t0(2) by (simp add: compose_bucket_def MemoryCurveBuckets_def sdiv_nonneg crossed_def)
    define hi where "hi = (if 0 < ms (D10Ms ?p) then min (crossed (ms (D10Ms ?p)) t) 19 else 19)"
    have hi: "hi \<le> 19" by (simp add: hi_def)
    have "min (crossed ?d t) 19 \<le> hi"
    proof (cases "0 < ms (D10Ms ?p)")
      case True
      have "ms (D10Ms ?p) \<le> ?d" using composed_band_bounds(2) [OF w] by (simp add: ms_def)
      then have "t * 20 div ?d \<le> t * 20 div ms (D10Ms ?p)" using True t(1) by (intro zdiv_mono2) auto
      then show ?thesis using True by (auto simp: crossed_def hi_def)
    qed (simp add: hi_def)
    moreover have "0 \<le> crossed ?d t" using d t(1) by (simp add: crossed_def pos_imp_zdiv_nonneg_iff)
    ultimately have "?c ! nat (min (crossed ?d t) 19) \<in> set (drop (nat (min (min (crossed ?d t) 19) hi)) (take (nat (hi + 1)) ?c))"
      using hi composed_curve(1) [OF w] by (intro nth_in_slice) auto
    moreover have "min (min (crossed ?d t) 19) hi = min (crossed ?d t) hi" using hi by simp
    ultimately have "?c ! nat (min (crossed ?d t) 19) \<le> slice_max ?c (min (crossed ?d t) hi) hi"
      unfolding slice_max_def by (intro foldl_max_ge) simp
    then show ?thesis using le unfolding b held_mb_crossed [OF d t] Let_def hi_def [symmetric] by linarith
  qed
qed

end
