(* ===== verification/Machine_Budget.thy ===== *)
theory Machine_Budget
  imports Memory_Curve Complex_Main "HOL-Library.AList"
begin

text \<open>
  Admission to the machine: \<open>src/internal/cache/machine.go\<close>, with the claim of
  \<open>src/types/machine.go\<close> and the invocation references of \<open>src/types/ancestry.go\<close>.
  The budget is a table of granted claims by id and two ceilings, slots and memory. The
  table is a list in the order of granting (Go's map has no order, and every fold over it
  here is a sum, a union or a sort). The clock is read more than once in a request: the
  k-th reading is \<open>clk k\<close>.
\<close>

section \<open>Invocation references\<close>

definition wrapperPrefix :: string where
  "wrapperPrefix = ''wrap-''"

definition wrapper_invocation :: "string \<Rightarrow> string" where
  "wrapper_invocation i = wrapperPrefix @ i"

text \<open>\<open>strings.Cut(ref, ":")\<close>: what follows the first colon, if there is one.\<close>

definition cut_colon :: "string \<Rightarrow> string option" where
  "cut_colon ref = (case dropWhile (\<lambda>c. c \<noteq> CHR '':'') ref of [] \<Rightarrow> None | _ # rest \<Rightarrow> Some rest)"

definition is_wrapper_invocation :: "string \<Rightarrow> bool" where
  "is_wrapper_invocation ref =
     (case cut_colon ref of None \<Rightarrow> False | Some i \<Rightarrow> take (length wrapperPrefix) i = wrapperPrefix)"

definition runs_under_a_step :: "string list \<Rightarrow> bool" where
  "runs_under_a_step ancestors \<longleftrightarrow> list_ex (\<lambda>ref. \<not> is_wrapper_invocation ref) ancestors"

definition invocation_ref :: "int \<Rightarrow> string \<Rightarrow> string" where
  "invocation_ref pid i = show_int pid @ '':'' @ i"

text \<open>The ancestry a context carries, oldest first.\<close>

definition append_invocation_ancestor :: "string list \<Rightarrow> int \<Rightarrow> string \<Rightarrow> string list" where
  "append_invocation_ancestor refs pid i = (if i = '''' then refs else refs @ [invocation_ref pid i])"

definition has_invocation_ancestor :: "string list \<Rightarrow> int \<Rightarrow> string \<Rightarrow> bool" where
  "has_invocation_ancestor refs pid i \<longleftrightarrow> (if i = '''' then False else invocation_ref pid i \<in> set refs)"

definition invocation_root :: "string list \<Rightarrow> string" where
  "invocation_root refs = (case refs of [] \<Rightarrow> '''' | r # _ \<Rightarrow> r)"

section \<open>Claims and verdicts\<close>

record machine_claim =
  Project :: path
  Target :: string
  DeclaredBy :: string
  MemoryMB :: int
  Profile :: memory_profile
  Sizing :: memory_sizing
  Slots :: int
  PID :: int
  Dir :: string
  Command :: string
  Invocation :: string
  Ancestors :: "string list"
  Weight :: rat

definition claim_run :: "machine_claim \<Rightarrow> string" where
  "claim_run c = (case Ancestors c of a # _ \<Rightarrow> a | [] \<Rightarrow> Invocation c)"

record machine_entry =
  entry_claim :: machine_claim
  started :: nanos
  overrun :: bool

record memory_reserve =
  TotalMB :: int
  ReservedMB :: int
  Rule :: string

record machine_budget =
  budgetMB :: int
  budgetSlots :: int
  reserve :: memory_reserve
  claims :: "(string \<times> machine_entry) list"
  bseq :: nat

record machine_claimant =
  clProject :: path
  clTarget :: string
  clPID :: int
  clMemoryMB :: int
  clProfile :: memory_profile
  clSizing :: memory_sizing
  clSlots :: int
  clDir :: string
  clCommand :: string
  Since :: nanos
  Owner :: string   \<comment> \<open>filled in by the broker\<close>

record machine_verdict =
  Granted :: bool
  ID :: string
  Fits :: bool
  OwnRun :: bool
  Packed :: bool
  Holders :: "machine_claimant list"
  vBudgetMB :: int
  HeldMB :: int
  vBudgetSlots :: int
  HeldSlots :: int

record machine_snapshot =
  sBudgetMB :: int
  sHeldMB :: int
  sBudgetSlots :: int
  sHeldSlots :: int
  sHolders :: "machine_claimant list"
  sReserve :: memory_reserve

type_synonym skip = "string \<Rightarrow> machine_claim \<Rightarrow> bool"

definition new_machine_budget :: "int \<Rightarrow> int \<Rightarrow> machine_budget" where
  "new_machine_budget mb slots = \<lparr>budgetMB = mb, budgetSlots = slots,
     reserve = \<lparr>TotalMB = 0, ReservedMB = 0, Rule = ''''\<rparr>, claims = [], bseq = 0\<rparr>"

definition with_reserve :: "machine_budget \<Rightarrow> memory_reserve \<Rightarrow> machine_budget" where
  "with_reserve b r = b\<lparr>reserve := r\<rparr>"

section \<open>Who counts against a claim\<close>

definition is_machine_ancestor :: "string \<Rightarrow> string list \<Rightarrow> bool" where
  "is_machine_ancestor invocation ancestors \<longleftrightarrow> invocation \<noteq> '''' \<and> invocation \<in> set ancestors"

text \<open>\<open>excused\<close> is a set of ids in the code, the ids that satisfy this test here.\<close>

definition excused :: "machine_budget \<Rightarrow> machine_claim \<Rightarrow> string list" where
  "excused b c = map fst (filter (\<lambda>(_, e). is_machine_ancestor (Invocation (entry_claim e)) (Ancestors c)) (claims b))"

definition held :: "machine_budget \<Rightarrow> machine_claim \<Rightarrow> skip" where
  "held b c = (\<lambda>i _. i \<in> set (excused b c))"

definition held_by_others :: "machine_budget \<Rightarrow> machine_claim \<Rightarrow> skip" where
  "held_by_others b c = (\<lambda>i h. i \<in> set (excused b c) \<or> PID c \<noteq> 0 \<and> PID h = PID c \<or>
     claim_run c \<noteq> '''' \<and> claim_run h = claim_run c)"

definition counted_entries :: "machine_budget \<Rightarrow> skip \<Rightarrow> machine_entry list" where
  "counted_entries b skp = map snd (filter (\<lambda>(i, e). \<not> skp i (entry_claim e)) (claims b))"

definition sum_claims :: "machine_budget \<Rightarrow> skip \<Rightarrow> int \<times> int" where
  "sum_claims b skp = foldl (\<lambda>(mb, slots) (i, e).
      if skp i (entry_claim e) then (mb, slots)
      else (mb + MemoryMB (entry_claim e), slots + Slots (entry_claim e))) (0, 0) (claims b)"

definition claimant_of :: "machine_entry \<Rightarrow> machine_claimant" where
  "claimant_of e = \<lparr>clProject = Project (entry_claim e), clTarget = Target (entry_claim e), clPID = PID (entry_claim e),
     clMemoryMB = MemoryMB (entry_claim e), clProfile = Profile (entry_claim e), clSizing = Sizing (entry_claim e),
     clSlots = Slots (entry_claim e), clDir = Dir (entry_claim e), clCommand = Command (entry_claim e),
     Since = started e, Owner = ''''\<rparr>"

definition holders :: "machine_budget \<Rightarrow> machine_claim \<Rightarrow> machine_claimant list" where
  "holders b c = sort_key (\<lambda>h. (Since h, clProject h, clTarget h))
     (map claimant_of (counted_entries b (held b c)))"

section \<open>Memory over time\<close>

definition curved :: "machine_entry \<Rightarrow> nanos \<Rightarrow> bool" where
  "curved e now \<longleftrightarrow> \<not> overrun e \<and> Runs (Profile (entry_claim e)) > 0 \<and> ms (D90Ms (Profile (entry_claim e))) > 0 \<and>
     now - started e \<le> ms (D90Ms (Profile (entry_claim e)))"

definition held_at :: "machine_entry \<Rightarrow> nanos \<Rightarrow> nanos \<Rightarrow> int" where
  "held_at e now t =
     (if \<not> curved e now then MemoryMB (entry_claim e)
      else if t - started e > ms (D90Ms (Profile (entry_claim e))) then 0
      else min (int (held_mb (Profile (entry_claim e)) (t - started e))) (MemoryMB (entry_claim e)))"

definition breakpoints :: "machine_entry \<Rightarrow> nanos list" where
  "breakpoints e = map (\<lambda>d. started e + d)
     (band_breakpoints (D10Ms (Profile (entry_claim e))) @ band_breakpoints (D90Ms (Profile (entry_claim e))))"

definition judged_instants :: "machine_entry list \<Rightarrow> nanos \<Rightarrow> nanos list" where
  "judged_instants counted now =
     now # concat (map (\<lambda>e. if curved e now then filter (\<lambda>t. now < t) (breakpoints e) else []) counted)"

definition held_together :: "machine_entry list \<Rightarrow> nanos \<Rightarrow> nanos \<Rightarrow> int" where
  "held_together counted now t = foldl (\<lambda>s e. s + held_at e now t) 0 counted"

definition first_breach :: "int \<Rightarrow> machine_entry list \<Rightarrow> nanos \<Rightarrow> nanos option" where
  "first_breach budget counted now =
     foldl (\<lambda>first t.
        if held_together counted now t > budget \<and> (case first of None \<Rightarrow> True | Some f \<Rightarrow> t < f)
        then Some t else first) None (judged_instants counted now)"

definition new_entry :: "machine_claim \<Rightarrow> nanos \<Rightarrow> machine_entry" where
  "new_entry c now = \<lparr>entry_claim = c, started = now, overrun = False\<rparr>"

definition breach :: "nanos \<Rightarrow> machine_budget \<Rightarrow> machine_claim \<Rightarrow> skip \<Rightarrow> nanos option" where
  "breach now b c skp =
     (if budgetSlots b > 0 \<and> snd (sum_claims b skp) + max (Slots c) 1 > budgetSlots b then Some now
      else if budgetMB b \<le> 0 then None
      else first_breach (budgetMB b) (new_entry c now # counted_entries b skp) now)"

definition fits_over_time :: "nanos \<Rightarrow> machine_budget \<Rightarrow> machine_claim \<Rightarrow> skip \<Rightarrow> bool" where
  "fits_over_time now b c skp \<longleftrightarrow> breach now b c skp = None"

definition packs :: "nanos \<Rightarrow> machine_budget \<Rightarrow> machine_claim \<Rightarrow> skip \<Rightarrow> bool" where
  "packs now b c skp \<longleftrightarrow> curved (new_entry c now) now \<or> list_ex (\<lambda>e. curved e now) (counted_entries b skp)"

definition next_change :: "nanos \<Rightarrow> machine_budget \<Rightarrow> nanos option" where
  "next_change now b =
     foldl (\<lambda>nxt t. if now < t \<and> (case nxt of None \<Rightarrow> True | Some a \<Rightarrow> t < a) then Some t else nxt) None
       (concat (map (\<lambda>(_, e). if curved e now then breakpoints e else []) (claims b)))"

section \<open>The free seat\<close>

definition step_claims :: "machine_budget \<Rightarrow> machine_claim list" where
  "step_claims b = filter (\<lambda>c. \<not> is_wrapper_invocation (Invocation c)) (map (entry_claim \<circ> snd) (claims b))"

definition holding :: "machine_budget \<Rightarrow> string \<Rightarrow> bool" where
  "holding b a \<longleftrightarrow> list_ex (\<lambda>c. Invocation c \<noteq> '''' \<and> Invocation c = a) (step_claims b)"

definition running_under :: "machine_budget \<Rightarrow> string \<Rightarrow> bool" where
  "running_under b a \<longleftrightarrow> list_ex (\<lambda>c. a \<in> set (Ancestors c)) (step_claims b)"

definition free_slot :: "machine_budget \<Rightarrow> string list \<Rightarrow> bool" where
  "free_slot b ancestors \<longleftrightarrow> list_ex (\<lambda>a. holding b a \<and> \<not> running_under b a) ancestors"

section \<open>Operations\<close>

definition claim_id :: "int \<Rightarrow> nat \<Rightarrow> string" where
  "claim_id pid n = show_int pid @ ''.'' @ show_nat n"

definition record_claim :: "nanos \<Rightarrow> machine_budget \<Rightarrow> machine_claim \<Rightarrow> machine_budget \<times> string" where
  "record_claim now b c =
     (let n = Suc (bseq b); i = claim_id (PID c) n
      in (b\<lparr>bseq := n, claims := AList.update i (new_entry c now) (claims b)\<rparr>, i))"

definition at_least_one_slot :: "machine_claim \<Rightarrow> machine_claim" where
  "at_least_one_slot c = (if Slots c < 1 then c\<lparr>Slots := 1\<rparr> else c)"

definition request :: "(nat \<Rightarrow> nanos) \<Rightarrow> machine_budget \<Rightarrow> machine_claim \<Rightarrow> machine_budget \<times> machine_verdict" where
  "request clk b c0 =
     (let c = at_least_one_slot c0;
          hld = held b c;
          heldMB = fst (sum_claims b hld);
          heldSlots = snd (sum_claims b hld);
          v = \<lparr>Granted = False, ID = '''', Fits = fits_over_time (clk 0) b c (\<lambda>_ _. True), OwnRun = False,
               Packed = packs (clk 1) b c hld, Holders = holders b c, vBudgetMB = budgetMB b, HeldMB = heldMB,
               vBudgetSlots = budgetSlots b, HeldSlots = heldSlots\<rparr>
      in if \<not> Fits v then (b, v)
         else if \<not> fits_over_time (clk 2) b c hld \<and> \<not> free_slot b (Ancestors c)
         then (b, v\<lparr>OwnRun := fits_over_time (clk 3) b c (held_by_others b c)\<rparr>)
         else case record_claim (clk 3) b c of
                (b', i) \<Rightarrow> (b', v\<lparr>Granted := True, ID := i, HeldMB := heldMB + MemoryMB c,
                                   HeldSlots := heldSlots + Slots c\<rparr>))"

definition assert_claim :: "nanos \<Rightarrow> machine_budget \<Rightarrow> machine_claim \<Rightarrow> machine_budget \<times> string" where
  "assert_claim now b c = record_claim now b (at_least_one_slot c)"

definition release :: "machine_budget \<Rightarrow> string \<Rightarrow> machine_budget" where
  "release b i = b\<lparr>claims := AList.delete i (claims b)\<rparr>"

definition mark_overrun :: "machine_budget \<Rightarrow> string \<Rightarrow> machine_budget" where
  "mark_overrun b i = b\<lparr>claims := AList.map_entry i (\<lambda>e. e\<lparr>overrun := True\<rparr>) (claims b)\<rparr>"

definition no_claim :: machine_claim where
  "no_claim = \<lparr>Project = '''', Target = '''', DeclaredBy = '''', MemoryMB = 0, Profile = no_profile,
     Sizing = \<lparr>Samples = 0, AnyShape = False, SlotsSizing = \<lparr>Source = '''', slotSamples = 0, slotAnyShape = False\<rparr>, Fallback = ''''\<rparr>,
     Slots = 0, PID = 0, Dir = '''', Command = '''', Invocation = '''', Ancestors = [], Weight = 0\<rparr>"

definition snapshot :: "machine_budget \<Rightarrow> machine_snapshot" where
  "snapshot b =
     (case sum_claims b (held b no_claim) of
        (mb, slots) \<Rightarrow> \<lparr>sBudgetMB = budgetMB b, sHeldMB = mb, sBudgetSlots = budgetSlots b,
                      sHeldSlots = slots, sHolders = holders b no_claim, sReserve = reserve b\<rparr>)"

end
