(* ===== verification/Machine_Budget_Correct.thy ===== *)
theory Machine_Budget_Correct
  imports Machine_Budget
begin

text \<open>
  What the budget promises: checking the present and every breakpoint is as good as
  checking every future instant; a grant is justified by what was free or by a stalled
  ancestor, once per ancestor; ids are fresh; releasing what a run holds itself is enough
  when the verdict says so; and a machine whose every holder waits on a nested claim
  always seats one of them.
\<close>

section \<open>The table\<close>

lemma sum_claims_eq:
  "sum_claims b skp = ((\<Sum>e\<leftarrow>counted_entries b skp. MemoryMB (entry_claim e)),
     (\<Sum>e\<leftarrow>counted_entries b skp. Slots (entry_claim e)))"
proof -
  have "foldl (\<lambda>(mb, slots) (i, e).
      if skp i (entry_claim e) then (mb, slots)
      else (mb + MemoryMB (entry_claim e), slots + Slots (entry_claim e))) (m, s) cs =
    (m + (\<Sum>e\<leftarrow>map snd (filter (\<lambda>(i, e). \<not> skp i (entry_claim e)) cs). MemoryMB (entry_claim e)),
     s + (\<Sum>e\<leftarrow>map snd (filter (\<lambda>(i, e). \<not> skp i (entry_claim e)) cs). Slots (entry_claim e)))" for m s cs
    by (induction cs arbitrary: m s) (auto split: prod.split)
  from this [of 0 0 "claims b"] show ?thesis unfolding sum_claims_def counted_entries_def by (simp only: add_0)
qed

definition wf_budget :: "machine_budget \<Rightarrow> bool" where
  "wf_budget b \<longleftrightarrow> distinct (map fst (claims b)) \<and>
     (\<forall>x \<in> set (claims b). Slots (entry_claim (snd x)) \<ge> 1 \<and> (\<exists>pid. \<exists>n \<le> bseq b. fst x = claim_id pid n))"

lemma claim_id_inj: "claim_id p m = claim_id q n \<longleftrightarrow> p = q \<and> m = n"
proof
  assume eq: "claim_id p m = claim_id q n"
  have "show_int p = show_int q \<and> show_nat m = show_nat n"
    by (rule separator_inj [OF show_int_chars show_int_chars, of "CHR ''.''"])
       (use eq in \<open>simp_all add: claim_id_def digit_char_def\<close>)
  then show "p = q \<and> m = n" by simp
qed simp

lemma new_id_fresh: "wf_budget b \<Longrightarrow> claim_id pid (Suc (bseq b)) \<notin> fst ` set (claims b)"
  by (fastforce simp: wf_budget_def claim_id_inj)

lemma record_claim_eq:
  assumes "wf_budget b"
  shows "record_claim now b c = (b\<lparr>bseq := Suc (bseq b),
    claims := claims b @ [(claim_id (PID c) (Suc (bseq b)), new_entry c now)]\<rparr>, claim_id (PID c) (Suc (bseq b)))"
proof -
  have "AList.update k v xs = xs @ [(k, v)]" if "k \<notin> fst ` set xs" for k v and xs :: "(string \<times> machine_entry) list"
    using that by (induction xs) auto
  with new_id_fresh [OF assms] show ?thesis by (simp add: record_claim_def Let_def)
qed

lemma wf_record_claim [invariant_intros]:
  assumes "wf_budget b" "Slots c \<ge> 1"
  shows "wf_budget (fst (record_claim now b c))"
proof -
  have old: "\<exists>pid. \<exists>n \<le> Suc (bseq b). fst x = claim_id pid n" if "x \<in> set (claims b)" for x
    using assms(1) that unfolding wf_budget_def by (meson le_SucI)
  then show ?thesis
    using assms new_id_fresh [OF assms(1)] unfolding record_claim_eq [OF assms(1)]
    by (auto simp: wf_budget_def new_entry_def)
qed

lemma at_least_one_slot_slots [simp]: "Slots (at_least_one_slot c) = max 1 (Slots c)"
  by (simp add: at_least_one_slot_def)

lemma wf_new_machine_budget [invariant_intros]: "wf_budget (new_machine_budget mb slots)"
  by (simp add: wf_budget_def new_machine_budget_def)

lemma wf_release [invariant_intros]: "wf_budget b \<Longrightarrow> wf_budget (release b i)"
  by (auto simp: wf_budget_def release_def AList.delete_eq distinct_map_filter)

lemma map_entry_sets:
  "map fst (AList.map_entry i f xs) = map fst xs"
  "(k, e) \<in> set (AList.map_entry i f xs) \<Longrightarrow> \<exists>e0. (k, e0) \<in> set xs \<and> (e = e0 \<or> e = f e0)"
  by (induction xs) (auto split: if_splits)

lemma wf_mark_overrun [invariant_intros]:
  assumes "wf_budget b"
  shows "wf_budget (mark_overrun b i)"
proof -
  let ?f = "\<lambda>e::machine_entry. e\<lparr>overrun := True\<rparr>"
  have "1 \<le> Slots (entry_claim (snd x)) \<and> (\<exists>pid. \<exists>n \<le> bseq b. fst x = claim_id pid n)"
    if x: "x \<in> set (AList.map_entry i ?f (claims b))" for x
  proof -
    obtain e0 where "(fst x, e0) \<in> set (claims b)" "snd x = e0 \<or> snd x = ?f e0"
      using map_entry_sets(2) [of "fst x" "snd x" i ?f "claims b"] x by auto
    then show ?thesis using assms unfolding wf_budget_def by fastforce
  qed
  then show ?thesis using assms by (simp add: wf_budget_def mark_overrun_def map_entry_sets(1))
qed

section \<open>Verdicts\<close>

text \<open>The three ways a request ends.\<close>

lemma request_cases:
  obtains (never) "\<not> fits_over_time (clk 0) b (at_least_one_slot c) (\<lambda>_ _. True)"
      "fst (request clk b c) = b" "\<not> Granted (snd (request clk b c))" "\<not> Fits (snd (request clk b c))"
      "\<not> OwnRun (snd (request clk b c))"
  | (later) "fits_over_time (clk 0) b (at_least_one_slot c) (\<lambda>_ _. True)"
      "\<not> fits_over_time (clk 2) b (at_least_one_slot c) (held b c)" "\<not> free_slot b (Ancestors c)"
      "fst (request clk b c) = b" "\<not> Granted (snd (request clk b c))" "Fits (snd (request clk b c))"
      "OwnRun (snd (request clk b c)) = fits_over_time (clk 3) b (at_least_one_slot c) (held_by_others b c)"
  | (seated) "fits_over_time (clk 0) b (at_least_one_slot c) (\<lambda>_ _. True)"
      "fits_over_time (clk 2) b (at_least_one_slot c) (held b c) \<or> free_slot b (Ancestors c)"
      "fst (request clk b c) = fst (record_claim (clk 3) b (at_least_one_slot c))"
      "Granted (snd (request clk b c))" "Fits (snd (request clk b c))" "\<not> OwnRun (snd (request clk b c))"
      "ID (snd (request clk b c)) = snd (record_claim (clk 3) b (at_least_one_slot c))"
proof -
  have same: "held b (at_least_one_slot c) = held b c" "held_by_others b (at_least_one_slot c) = held_by_others b c"
    "Ancestors (at_least_one_slot c) = Ancestors c"
    by (simp_all add: at_least_one_slot_def held_def held_by_others_def excused_def claim_run_def cong: list.case_cong)
  let ?c = "at_least_one_slot c"
  consider "\<not> fits_over_time (clk 0) b ?c (\<lambda>_ _. True)"
    | "fits_over_time (clk 0) b ?c (\<lambda>_ _. True)" "\<not> fits_over_time (clk 2) b ?c (held b c)" "\<not> free_slot b (Ancestors c)"
    | "fits_over_time (clk 0) b ?c (\<lambda>_ _. True)" "fits_over_time (clk 2) b ?c (held b c) \<or> free_slot b (Ancestors c)"
    by blast
  then show thesis
  proof cases
    case 1
    then show ?thesis by (intro never) (simp_all add: request_def Let_def same)
  next
    case 2
    then show ?thesis by (intro later) (simp_all add: request_def Let_def same)
  next
    case 3
    then show ?thesis
      by (intro seated) (auto simp: request_def Let_def same split: prod.split)
  qed
qed

lemma wf_request [invariant_intros]: "wf_budget b \<Longrightarrow> wf_budget (fst (request clk b c))"
  by (cases clk b c rule: request_cases) (simp_all add: wf_record_claim)

section \<open>Judging the breakpoints judges every instant\<close>

definition wf_entry :: "nanos \<Rightarrow> machine_entry \<Rightarrow> bool" where
  "wf_entry now e \<longleftrightarrow> 0 \<le> D10Ms (Profile (entry_claim e)) \<and> 0 \<le> D90Ms (Profile (entry_claim e)) \<and>
     0 \<le> MemoryMB (entry_claim e) \<and> started e \<le> now"

lemma held_together_sum: "held_together es now t = (\<Sum>e\<leftarrow>es. held_at e now t)"
  by (simp add: held_together_def foldl_add)

lemma held_at_quiet:
  assumes e: "wf_entry now e" and t: "now \<le> t0" "t0 \<le> t"
    and q: "curved e now \<Longrightarrow> quiet (D10Ms (Profile (entry_claim e))) (t0 - started e) (t - started e)"
      "curved e now \<Longrightarrow> quiet (D90Ms (Profile (entry_claim e))) (t0 - started e) (t - started e)"
  shows "held_at e now t \<le> held_at e now t0"
proof (cases "curved e now \<and> t - started e \<le> ms (D90Ms (Profile (entry_claim e)))")
  case True
  then have "held_mb (Profile (entry_claim e)) (t - started e) = held_mb (Profile (entry_claim e)) (t0 - started e)"
    using q e t by (intro held_mb_quiet) (auto simp: wf_entry_def)
  then show ?thesis using True t by (simp add: held_at_def)
next
  case False
  then show ?thesis using e by (auto simp: held_at_def wf_entry_def)
qed

lemma judged_instants_iff:
  "t \<in> set (judged_instants es now) \<longleftrightarrow>
    t = now \<or> (\<exists>e \<in> set es. curved e now \<and> now < t \<and> t \<in> set (breakpoints e))"
  by (auto simp: judged_instants_def split: if_splits)

lemma breakpoints_iff:
  "t \<in> set (breakpoints e) \<longleftrightarrow> t - started e \<in> set (band_breakpoints (D10Ms (Profile (entry_claim e)))) \<or>
    t - started e \<in> set (band_breakpoints (D90Ms (Profile (entry_claim e))))"
proof -
  have "t \<in> (\<lambda>d. started e + d) ` A \<longleftrightarrow> t - started e \<in> A" for A :: "int set"
    by (auto simp: image_iff) (metis add.commute diff_add_cancel)
  then show ?thesis unfolding breakpoints_def set_map set_append by blast
qed

lemma judged_instant_before:
  assumes es: "\<forall>e \<in> set es. wf_entry now e" and t: "now \<le> t"
  obtains t0 where "t0 \<in> set (judged_instants es now)" "now \<le> t0" "t0 \<le> t"
    "held_together es now t \<le> held_together es now t0"
proof -
  let ?B = "set (judged_instants es now)"
  have "now \<in> ?B" by (simp add: judged_instants_iff)
  then obtain t0 where t0: "t0 \<in> ?B" "now \<le> t0" "t0 \<le> t" "\<And>b. b \<in> ?B \<Longrightarrow> b \<le> t \<Longrightarrow> b \<le> t0"
    using last_breakpoint [of ?B now t] t by blast
  have seen: "b \<le> t0 - started e" if "e \<in> set es" "curved e now" "b \<le> t - started e"
    "started e + b \<in> set (breakpoints e)" for e b
  proof (cases "now < started e + b")
    case True
    then have "started e + b \<in> ?B" using that unfolding judged_instants_iff by blast
    then show ?thesis using t0(4) that(3) by force
  qed (use t0(2) in linarith)
  have "held_at e now t \<le> held_at e now t0" if "e \<in> set es" for e
  proof (rule held_at_quiet)
    show "wf_entry now e" using es that by blast
    show "quiet (D10Ms (Profile (entry_claim e))) (t0 - started e) (t - started e)"
      "quiet (D90Ms (Profile (entry_claim e))) (t0 - started e) (t - started e)" if c: "curved e now"
      using seen [OF \<open>e \<in> set es\<close> c] unfolding quiet_def breakpoints_iff by simp_all
  qed (fact t0(2) t0(3))+
  then have "held_together es now t \<le> held_together es now t0"
    unfolding held_together_sum by (rule sum_list_mono)
  then show thesis using that t0(1-3) by blast
qed

lemma first_breach_None:
  assumes "\<forall>e \<in> set es. wf_entry now e"
  shows "first_breach budget es now = None \<longleftrightarrow> (\<forall>t \<ge> now. held_together es now t \<le> budget)"
proof -
  have "first_breach budget es now = None \<longleftrightarrow> (\<forall>t \<in> set (judged_instants es now). held_together es now t \<le> budget)"
    unfolding first_breach_def foldl_least_None by (auto simp: not_less)
  also have "\<dots> \<longleftrightarrow> (\<forall>t \<ge> now. held_together es now t \<le> budget)"
  proof (intro iffI allI impI ballI)
    fix t assume "\<forall>t \<in> set (judged_instants es now). held_together es now t \<le> budget" and t: "now \<le> t"
    then show "held_together es now t \<le> budget"
      by (rule_tac judged_instant_before [OF assms t]) (blast intro: order_trans)
  next
    fix t assume "\<forall>t \<ge> now. held_together es now t \<le> budget" "t \<in> set (judged_instants es now)"
    then show "held_together es now t \<le> budget" unfolding judged_instants_iff by auto
  qed
  finally show ?thesis .
qed

lemma first_breach_Some:
  assumes es: "\<forall>e \<in> set es. wf_entry now e" and r: "first_breach budget es now = Some r"
  shows "now \<le> r \<and> budget < held_together es now r \<and> (\<forall>t. now \<le> t \<and> t < r \<longrightarrow> held_together es now t \<le> budget)"
proof -
  note l = foldl_least_Some [OF r [unfolded first_breach_def]]
  have "held_together es now t \<le> budget" if t: "now \<le> t" "t < r" for t
  proof (rule ccontr)
    assume big: "\<not> held_together es now t \<le> budget"
    obtain t0 where "t0 \<in> set (judged_instants es now)" "t0 \<le> t" "held_together es now t \<le> held_together es now t0"
      using judged_instant_before [OF es t(1)] by blast
    with l big t(2) show False by (meson leD le_less_trans not_le order_trans)
  qed
  moreover have "now \<le> r" using l unfolding judged_instants_iff by auto
  ultimately show ?thesis using l by auto
qed

text \<open>The verdict of a fit, over all the future.\<close>

definition fits_beside :: "nanos \<Rightarrow> machine_budget \<Rightarrow> machine_claim \<Rightarrow> machine_entry list \<Rightarrow> bool" where
  "fits_beside now b c es \<longleftrightarrow>
     (budgetSlots b > 0 \<longrightarrow> (\<Sum>e\<leftarrow>es. Slots (entry_claim e)) + max (Slots c) 1 \<le> budgetSlots b) \<and>
     (budgetMB b > 0 \<longrightarrow> (\<forall>t \<ge> now. (\<Sum>e\<leftarrow>new_entry c now # es. held_at e now t) \<le> budgetMB b))"

definition wf_claim :: "machine_claim \<Rightarrow> bool" where
  "wf_claim c \<longleftrightarrow> 0 \<le> D10Ms (Profile c) \<and> 0 \<le> D90Ms (Profile c) \<and> 0 \<le> MemoryMB c"

definition wf_entries :: "nanos \<Rightarrow> machine_budget \<Rightarrow> bool" where
  "wf_entries now b \<longleftrightarrow> (\<forall>x \<in> set (claims b). wf_entry now (snd x))"

lemma counted_subset: "set (counted_entries b skp) \<subseteq> snd ` set (claims b)"
  by (auto simp: counted_entries_def)

lemma wf_new_entry: "wf_claim c \<Longrightarrow> wf_entry now (new_entry c now)"
  by (simp add: wf_claim_def wf_entry_def new_entry_def)

lemma fits_over_time_iff:
  assumes "wf_claim c" "wf_entries now b"
  shows "fits_over_time now b c skp \<longleftrightarrow> fits_beside now b c (counted_entries b skp)"
proof -
  have "\<forall>e \<in> set (new_entry c now # counted_entries b skp). wf_entry now e"
    using wf_new_entry [OF assms(1)] assms(2) counted_subset [of b skp] by (auto simp: wf_entries_def)
  from first_breach_None [OF this] show ?thesis
    by (simp add: fits_over_time_def breach_def fits_beside_def sum_claims_eq held_together_sum not_less del: sum_list.Cons list.map)
qed

section \<open>Granting and releasing\<close>

lemma excused_iff:
  assumes "wf_budget b" "(i, e) \<in> set (claims b)"
  shows "i \<in> set (excused b c) \<longleftrightarrow> is_machine_ancestor (Invocation (entry_claim e)) (Ancestors c)"
proof -
  have "e' = e" if "(i, e') \<in> set (claims b)" for e'
    using assms that by (auto simp: wf_budget_def dest: eq_key_imp_eq_value)
  moreover have "i \<in> set (excused b c) \<longleftrightarrow>
      (\<exists>e'. (i, e') \<in> set (claims b) \<and> is_machine_ancestor (Invocation (entry_claim e')) (Ancestors c))"
    unfolding excused_def set_map set_filter by (auto simp: image_iff)
  ultimately show ?thesis using assms(2) by blast
qed

lemma counted_held:
  assumes "wf_budget b"
  shows "counted_entries b (held b c) =
    filter (\<lambda>e. \<not> is_machine_ancestor (Invocation (entry_claim e)) (Ancestors c)) (map snd (claims b))"
proof -
  have "filter (\<lambda>(i, e). \<not> held b c i (entry_claim e)) (claims b) =
      filter (\<lambda>x. \<not> is_machine_ancestor (Invocation (entry_claim (snd x))) (Ancestors c)) (claims b)"
    by (intro filter_cong refl) (auto simp: held_def excused_iff [OF assms])
  then show ?thesis by (simp add: counted_entries_def filter_map comp_def)
qed

lemma request_grant_claims:
  assumes "wf_budget b" "Granted (snd (request clk b c))"
  shows "claims (fst (request clk b c)) =
      claims b @ [(ID (snd (request clk b c)), new_entry (at_least_one_slot c) (clk 3))]"
    and "ID (snd (request clk b c)) \<notin> fst ` set (claims b)"
    and "budgetMB (fst (request clk b c)) = budgetMB b" "budgetSlots (fst (request clk b c)) = budgetSlots b"
  using assms(2) new_id_fresh [OF assms(1)]
  by (cases clk b c rule: request_cases; simp add: record_claim_eq [OF assms(1)] at_least_one_slot_def)+

lemma request_denied: "\<not> Granted (snd (request clk b c)) \<Longrightarrow> fst (request clk b c) = b"
  by (cases clk b c rule: request_cases) auto


lemma release_grant:
  assumes "wf_budget b" "Granted (snd (request clk b c))"
  shows "claims (release (fst (request clk b c)) (ID (snd (request clk b c)))) = claims b"
proof -
  have "filter (\<lambda>(k, _). i \<noteq> k) xs = xs" if "i \<notin> fst ` set xs" for i and xs :: "(string \<times> machine_entry) list"
    using that by (induction xs) auto
  with request_grant_claims(1,2) [OF assms] show ?thesis by (simp add: release_def AList.delete_eq)
qed

section \<open>The requester's own claims\<close>

definition own_claim :: "machine_claim \<Rightarrow> machine_claim \<Rightarrow> bool" where
  "own_claim c h \<longleftrightarrow> PID c \<noteq> 0 \<and> PID h = PID c \<or> claim_run c \<noteq> '''' \<and> claim_run h = claim_run c"

definition without_own :: "machine_claim \<Rightarrow> machine_budget \<Rightarrow> machine_budget" where
  "without_own c b = b\<lparr>claims := filter (\<lambda>x. \<not> own_claim c (entry_claim (snd x))) (claims b)\<rparr>"

lemma wf_without_own: "wf_budget b \<Longrightarrow> wf_budget (without_own c b)"
  by (auto simp: wf_budget_def without_own_def distinct_map_filter)

lemma counted_without_own:
  assumes "wf_budget b"
  shows "counted_entries (without_own c b) (held (without_own c b) c) = counted_entries b (held_by_others b c)"
proof -
  have "filter (\<lambda>(i, e). \<not> held_by_others b c i (entry_claim e)) (claims b) =
      filter (\<lambda>x. \<not> is_machine_ancestor (Invocation (entry_claim (snd x))) (Ancestors c) \<and> \<not> own_claim c (entry_claim (snd x))) (claims b)"
    by (intro filter_cong refl) (auto simp: held_by_others_def own_claim_def excused_iff [OF assms])
  then show ?thesis
    unfolding counted_held [OF wf_without_own [OF assms]] unfolding counted_entries_def
    by (simp add: without_own_def filter_map comp_def conj_commute)
qed

lemma fits_without_own:
  assumes "wf_budget b"
  shows "fits_over_time now (without_own c b) c (held (without_own c b) c) \<longleftrightarrow> fits_over_time now b c (held_by_others b c)"
proof -
  have "budgetSlots (without_own c b) = budgetSlots b" "budgetMB (without_own c b) = budgetMB b"
    by (simp_all add: without_own_def)
  then show ?thesis by (simp only: fits_over_time_def breach_def sum_claims_eq counted_without_own [OF assms])
qed

lemma fits_alone_table:
  "fits_over_time now b c (\<lambda>_ _. True) \<longleftrightarrow> fits_over_time now (b\<lparr>claims := xs\<rparr>) c (\<lambda>_ _. True)"
  by (simp add: fits_over_time_def breach_def sum_claims_eq counted_entries_def)

section \<open>The free seat is spent once\<close>

lemma seat_spent:
  assumes "(i, e) \<in> set (claims b)" "\<not> is_wrapper_invocation (Invocation (entry_claim e))"
    and "set xs \<subseteq> set (Ancestors (entry_claim e))"
  shows "\<not> free_slot b xs"
proof -
  have "entry_claim e \<in> set (step_claims b)" using assms(1,2) by (force simp: step_claims_def)
  then have "running_under b a" if "a \<in> set xs" for a
    using that assms(3) by (auto simp: running_under_def list_ex_iff)
  then show ?thesis by (auto simp: free_slot_def list_ex_iff)
qed

text \<open>Everything the broker does to a budget, and what a step leaves of a claim it does not release.\<close>

inductive budget_step :: "machine_budget \<Rightarrow> machine_budget \<Rightarrow> bool" where
  asked: "budget_step b (fst (request clk b c))"
| asserted: "budget_step b (fst (assert_claim now b c))"
| released: "budget_step b (release b i)"
| overran: "budget_step b (mark_overrun b i)"

lemma wf_budget_step: "budget_step b b' \<Longrightarrow> wf_budget b \<Longrightarrow> wf_budget b'"
  by (induction rule: budget_step.induct) (auto intro!: invariant_intros simp: assert_claim_def)

lemma wf_reachable: "budget_step\<^sup>*\<^sup>* (new_machine_budget mb slots) b \<Longrightarrow> wf_budget b"
  by (induction rule: rtranclp_induct) (auto intro: invariant_intros wf_budget_step)

text \<open>The machine without nesting: every claim asks, and none runs under another.\<close>

inductive unnested :: "int \<Rightarrow> int \<Rightarrow> machine_budget \<Rightarrow> bool" for mb slots where
  fresh: "unnested mb slots (new_machine_budget mb slots)"
| asked: "unnested mb slots b \<Longrightarrow> Ancestors c = [] \<Longrightarrow> unnested mb slots (fst (request clk b c))"
| released: "unnested mb slots b \<Longrightarrow> unnested mb slots (release b i)"
| overran: "unnested mb slots b \<Longrightarrow> unnested mb slots (mark_overrun b i)"

definition held_slots :: "machine_budget \<Rightarrow> int" where
  "held_slots b = (\<Sum>x\<leftarrow>claims b. Slots (entry_claim (snd x)))"

lemma unnested_wf: "unnested mb slots b \<Longrightarrow> wf_budget b \<and> budgetSlots b = slots \<and> budgetMB b = mb"
proof (induction rule: unnested.induct)
  case (asked b c clk)
  then show ?case using wf_request [of b clk c]
    by (cases clk b c rule: request_cases) (auto simp: record_claim_def Let_def)
next
  case fresh
  then show ?case using wf_new_machine_budget by (simp add: new_machine_budget_def)
next
  case (released b i)
  then show ?case using wf_release [of b i] by (simp add: release_def)
next
  case (overran b i)
  then show ?case using wf_mark_overrun [of b i] by (simp add: mark_overrun_def)
qed

lemma held_slots_map_entry: "held_slots (mark_overrun b i) = held_slots b"
proof -
  have "(\<Sum>x\<leftarrow>AList.map_entry i (\<lambda>e. e\<lparr>overrun := True\<rparr>) xs. Slots (entry_claim (snd x))) =
      (\<Sum>x\<leftarrow>xs. Slots (entry_claim (snd x)))" for xs
    by (induction xs) auto
  then show ?thesis by (simp add: held_slots_def mark_overrun_def)
qed

lemma held_slots_release: "wf_budget b \<Longrightarrow> held_slots (release b i) \<le> held_slots b"
proof -
  assume "wf_budget b"
  then have "\<forall>x \<in> set (claims b). 0 \<le> Slots (entry_claim (snd x))" by (force simp: wf_budget_def)
  moreover have "(\<Sum>x\<leftarrow>filter P xs. Slots (entry_claim (snd x))) \<le> (\<Sum>x\<leftarrow>xs. Slots (entry_claim (snd x)))"
    if "\<forall>x \<in> set xs. 0 \<le> Slots (entry_claim (snd x))" for P and xs :: "(string \<times> machine_entry) list"
    using that by (induction xs) auto
  ultimately show ?thesis by (simp add: held_slots_def release_def AList.delete_eq)
qed

lemma unnested_slots: "unnested mb slots b \<Longrightarrow> 0 < slots \<Longrightarrow> held_slots b \<le> slots"
proof (induction rule: unnested.induct)
  case fresh
  then show ?case by (simp add: held_slots_def new_machine_budget_def)
next
  case (asked b c clk)
  note w = unnested_wf [OF asked.hyps(1)]
  show ?case
  proof (cases clk b c rule: request_cases)
    case seated
    have "\<not> free_slot b (Ancestors c)" using asked.hyps(2) by (simp add: free_slot_def)
    then have "fits_over_time (clk 2) b (at_least_one_slot c) (held b c)" using seated by blast
    then have "(\<Sum>e\<leftarrow>counted_entries b (held b c). Slots (entry_claim e)) + max (Slots c) 1 \<le> slots"
      using w asked.prems by (auto simp: fits_over_time_def breach_def sum_claims_eq not_less max.commute split: if_splits)
    moreover have "counted_entries b (held b c) = map snd (claims b)"
      using counted_held [of b c] w asked.hyps(2) by (simp add: is_machine_ancestor_def)
    ultimately show ?thesis using seated w
      by (simp add: record_claim_eq held_slots_def new_entry_def comp_def max.commute)
  qed (use asked in auto)
next
  case (released b i)
  then show ?case using held_slots_release [of b i] unnested_wf [OF released.hyps] by linarith
next
  case (overran b i)
  then show ?case by (simp add: held_slots_map_entry)
qed

section \<open>No wedge\<close>

text \<open>
  Every holder waits on a claim that runs underneath it. The deepest holder has nothing
  running beneath it, so what waits for it is given the free seat.
\<close>

lemma some_waiter_seated:
  assumes ne: "claims b \<noteq> []"
    and step: "\<forall>x \<in> set (claims b). Invocation (entry_claim (snd x)) \<noteq> '''' \<and> \<not> is_wrapper_invocation (Invocation (entry_claim (snd x)))"
    and nested: "\<forall>x \<in> set (claims b). \<forall>y \<in> set (claims b).
      Invocation (entry_claim (snd x)) \<in> set (Ancestors (entry_claim (snd y))) \<longrightarrow>
      length (Ancestors (entry_claim (snd x))) < length (Ancestors (entry_claim (snd y)))"
    and waits: "\<forall>x \<in> set (claims b). \<exists>c \<in> W. Invocation (entry_claim (snd x)) \<in> set (Ancestors c) \<and>
      fits_over_time (clk 0) b (at_least_one_slot c) (\<lambda>_ _. True)"
  shows "\<exists>c \<in> W. Granted (snd (request clk b c))"
proof -
  let ?depth = "\<lambda>x. length (Ancestors (entry_claim (snd x)))"
  have "Max (?depth ` set (claims b)) \<in> ?depth ` set (claims b)" using ne by (intro Max_in) auto
  then obtain x where x: "x \<in> set (claims b)" "?depth x = Max (?depth ` set (claims b))" by auto
  then have deepest: "?depth y \<le> ?depth x" if "y \<in> set (claims b)" for y using that by (simp add: Max_ge)
  let ?i = "Invocation (entry_claim (snd x))"
  have under: "\<not> running_under b ?i"
  proof
    assume "running_under b ?i"
    then obtain y where "y \<in> set (claims b)" "?i \<in> set (Ancestors (entry_claim (snd y)))"
      by (auto simp: running_under_def list_ex_iff step_claims_def)
    then show False using nested x(1) deepest by (meson leD)
  qed
  have "entry_claim (snd x) \<in> set (step_claims b)" using step x(1) by (auto simp: step_claims_def)
  then have "holding b ?i" using step x(1) by (auto simp: holding_def list_ex_iff)
  obtain c where c: "c \<in> W" "?i \<in> set (Ancestors c)" "fits_over_time (clk 0) b (at_least_one_slot c) (\<lambda>_ _. True)"
    using waits x(1) by blast
  with under \<open>holding b ?i\<close> have free: "free_slot b (Ancestors c)" by (auto simp: free_slot_def list_ex_iff)
  have "Granted (snd (request clk b c))"
    by (cases clk b c rule: request_cases) (use c(3) free in auto)
  with c(1) show ?thesis by blast
qed

section \<open>The wake timer\<close>

lemma change_instants:
  "t \<in> set (concat (map (\<lambda>(_, e). if curved e now then breakpoints e else []) cs)) \<longleftrightarrow>
    (\<exists>x \<in> set cs. curved (snd x) now \<and> t \<in> set (breakpoints (snd x)))"
  by (induction cs) (auto split: if_splits)

lemma next_change_least:
  assumes "x \<in> set (claims b)" "curved (snd x) now" "t \<in> set (breakpoints (snd x))" "now < t"
  shows "\<exists>s. next_change now b = Some s \<and> s \<le> t"
proof -
  let ?ts = "concat (map (\<lambda>(_, e). if curved e now then breakpoints e else []) (claims b))"
  have t: "t \<in> set ?ts" unfolding change_instants using assms(1-3) by blast
  show ?thesis
  proof (cases "next_change now b")
    case None
    then show ?thesis using t assms(4) unfolding next_change_def foldl_least_None by blast
  next
    case (Some s)
    then show ?thesis using foldl_least_Some [OF Some [unfolded next_change_def]] t assms(4) by blast
  qed
qed

lemma next_change_future:
  assumes "next_change now b = Some s"
  shows "now < s \<and> (\<exists>x \<in> set (claims b). curved (snd x) now \<and> s \<in> set (breakpoints (snd x)))"
  using foldl_least_Some [OF assms [unfolded next_change_def]] unfolding change_instants by blast

lemma charge_until_change:
  assumes x: "x \<in> set (claims b)" "wf_entry now (snd x)" and n: "now \<le> n"
    and before: "\<And>s. next_change now b = Some s \<Longrightarrow> n < s"
  shows "held_at (snd x) now now \<le> held_at (snd x) n n"
proof (cases "curved (snd x) now \<and> curved (snd x) n")
  case True
  let ?p = "Profile (entry_claim (snd x))" and ?s = "started (snd x)"
  have far: "t \<le> now" if "t \<in> set (breakpoints (snd x))" "t \<le> n" for t
    using next_change_least [OF x(1) conjunct1 [OF True] that(1)] before that(2) by force
  have "quiet (D10Ms ?p) (now - ?s) (n - ?s)" "quiet (D90Ms ?p) (now - ?s) (n - ?s)"
    using far unfolding quiet_def breakpoints_iff by (metis add_diff_cancel_left' diff_add_cancel add.commute le_diff_eq)+
  then have "held_mb ?p (n - ?s) = held_mb ?p (now - ?s)"
    using x(2) n True by (intro held_mb_quiet) (auto simp: wf_entry_def curved_def)
  then show ?thesis using True n by (auto simp: held_at_def curved_def)
next
  case False
  moreover have "curved (snd x) n \<Longrightarrow> curved (snd x) now" using n by (auto simp: curved_def)
  ultimately have "\<not> curved (snd x) n" by blast
  then show ?thesis using x(2) by (auto simp: held_at_def wf_entry_def)
qed

end
