(* ===== verification/Budget_Properties.thy ===== *)
theory Budget_Properties
  imports Machine_Budget_Correct
begin

text \<open>
  The properties of memory curves and of admission to the machine, each with a witness on
  a small machine of four slots and 1000 MiB with two root runs, \<open>10:a\<close> and \<open>20:b\<close>.
\<close>

section \<open>A concrete machine\<close>

definition zero_clock :: "nat \<Rightarrow> nanos" where
  "zero_clock k = 0"

text \<open>A run of one second that holds 100 MiB in its first half and 700 in its second.\<close>

definition demo_profile :: memory_profile where
  "demo_profile = \<lparr>Curve = replicate 10 100 @ replicate 10 700, D10Ms = 1000, D90Ms = 1000, Runs = 3\<rparr>"

definition root_a :: machine_claim where
  "root_a = no_claim\<lparr>MemoryMB := 700, Slots := 2, PID := 10, Invocation := ''10:a''\<rparr>"

definition root_b :: machine_claim where
  "root_b = no_claim\<lparr>MemoryMB := 200, Slots := 2, PID := 20, Invocation := ''20:b''\<rparr>"

definition child_a :: machine_claim where
  "child_a = no_claim\<lparr>MemoryMB := 100, Slots := 3, PID := 11, Invocation := ''11:c'', Ancestors := [''10:a'']\<rparr>"

definition sibling_a :: machine_claim where
  "sibling_a = no_claim\<lparr>MemoryMB := 100, Slots := 2, PID := 10, Invocation := ''10:a''\<rparr>"

definition roots :: machine_budget where
  "roots = fst (request zero_clock (fst (request zero_clock (new_machine_budget 1000 4) root_a)) root_b)"

lemmas demo_machine = root_a_def root_b_def child_a_def sibling_a_def no_claim_def new_entry_def zero_clock_def
  demo_profile_def no_profile_def

lemma roots_reached: "unnested 1000 4 roots"
  unfolding roots_def by (intro unnested.asked unnested.fresh) (simp_all add: demo_machine)

lemma roots_claims: "length (claims roots) = 2" "held_slots roots = 4"
  by code_simp+

lemma child_granted: "Granted (snd (request zero_clock roots child_a))"
  by code_simp

lemma sibling_waits: "OwnRun (snd (request zero_clock roots sibling_a))"
  by code_simp

lemma roots_wf: "wf_budget roots"
  using unnested_wf [OF roots_reached] by simp

lemma roots_shape:
  "claims roots = [(claim_id 10 1, new_entry root_a 0), (claim_id 20 2, new_entry root_b 0)]"
  "budgetMB roots = 1000" "budgetSlots roots = 4"
proof -
  let ?n = "new_machine_budget 1000 4"
  have g1: "Granted (snd (request zero_clock ?n root_a))" by code_simp
  have g2: "Granted (snd (request zero_clock (fst (request zero_clock ?n root_a)) root_b))" by code_simp
  have i1: "ID (snd (request zero_clock ?n root_a)) = claim_id 10 1"
    and i2: "ID (snd (request zero_clock (fst (request zero_clock ?n root_a)) root_b)) = claim_id 20 2"
    by code_simp+
  have w: "wf_budget ?n" "wf_budget (fst (request zero_clock ?n root_a))" by (intro invariant_intros)+
  have s: "at_least_one_slot root_a = root_a" "at_least_one_slot root_b = root_b"
    by (simp_all add: at_least_one_slot_def demo_machine)
  show "claims roots = [(claim_id 10 1, new_entry root_a 0), (claim_id 20 2, new_entry root_b 0)]"
    using request_grant_claims(1) [OF w(1) g1] request_grant_claims(1) [OF w(2) g2] i1 i2 s
    by (simp add: roots_def new_machine_budget_def zero_clock_def)
  show "budgetMB roots = 1000" "budgetSlots roots = 4" using unnested_wf [OF roots_reached] by simp_all
qed

lemma roots_entries: "wf_entries 0 roots"
  by (simp add: wf_entries_def roots_shape(1) wf_entry_def demo_machine)

section \<open>Properties of curves\<close>

text \<open>
  C20. The peak of a composed call is the most its members ever hold together, at some
  instant after the call's start, and never less.
\<close>

theorem composed_peak_is_exact:
  assumes "wf_call members"
  shows "(\<forall>t \<ge> 0. summed_held_mb members t \<le> int (peak_mb (Curve (compose_call members)))) \<and>
    (\<exists>t \<ge> 0. summed_held_mb members t = int (peak_mb (Curve (compose_call members))))"
  by (rule compose_peak_exact [OF assms])

definition demo_member :: "int \<Rightarrow> chain_memory" where
  "demo_member d = \<lparr>MB = 700, cmDeclaredBy = ''build'', cmSizing = Sizing no_claim,
     cmProfile = demo_profile\<lparr>D10Ms := d, D90Ms := d\<rparr>\<rparr>"

lemma demo_call: "wf_call [demo_member 1000, demo_member 2000]"
  by (simp add: wf_call_def wf_member_def demo_member_def demo_machine)

theorem composed_peak_is_exact_witness:
  "\<exists>t \<ge> 0. summed_held_mb [demo_member 1000, demo_member 2000] t =
    int (peak_mb (Curve (compose_call [demo_member 1000, demo_member 2000])))"
  using composed_peak_is_exact [OF demo_call] by blast

text \<open>
  At every instant of a composed call its curve holds at least what the members do,
  so admitting the call by its curve never undercounts them.
\<close>

theorem composed_curve_covers_members:
  assumes "wf_call members" "0 \<le> t" "t \<le> ms (D90Ms (compose_call members))"
  shows "summed_held_mb members t \<le> int (held_mb (compose_call members) t)"
  by (rule compose_covers [OF assms])

theorem composed_curve_covers_members_witness:
  "summed_held_mb [demo_member 1000, demo_member 2000] (ms 700) \<le>
    int (held_mb (compose_call [demo_member 1000, demo_member 2000]) (ms 700))"
proof (rule composed_curve_covers_members [OF demo_call])
  have "D90Ms (compose_call [demo_member 1000, demo_member 2000]) = 2000"
    by (simp add: composed_band demo_member_def)
  then show "ms 700 \<le> ms (D90Ms (compose_call [demo_member 1000, demo_member 2000]))" by (simp add: ms_def)
qed (simp add: ms_def)

section \<open>Properties of admission\<close>

text \<open>
  C21. Judging the present and the breakpoints of the curves is exact: a claim fits over
  time exactly when, now and at every future instant, it and the claims it is judged
  beside hold no more than the budget, in slots and in memory.
\<close>

theorem fits_over_time_is_exact:
  assumes "wf_claim c" "wf_entries now b"
  shows "fits_over_time now b c skp \<longleftrightarrow>
    (budgetSlots b > 0 \<longrightarrow> (\<Sum>e\<leftarrow>counted_entries b skp. Slots (entry_claim e)) + max (Slots c) 1 \<le> budgetSlots b) \<and>
    (budgetMB b > 0 \<longrightarrow> (\<forall>t \<ge> now. (\<Sum>e\<leftarrow>new_entry c now # counted_entries b skp. held_at e now t) \<le> budgetMB b))"
  using fits_over_time_iff [OF assms] by (simp only: fits_beside_def)

theorem fits_over_time_is_exact_witness:
  "held_at (new_entry child_a 0) 0 7 \<le> 1000"
proof -
  have "wf_claim child_a" by (simp add: wf_claim_def demo_machine)
  moreover have "fits_over_time 0 roots child_a (\<lambda>_ _. True)" by code_simp
  ultimately show ?thesis
    using fits_over_time_is_exact [OF _ roots_entries, of child_a "\<lambda>_ _. True"]
    by (simp add: roots_shape(2) counted_entries_def)
qed

text \<open>
  C22. A verdict that grants rests on room or on a stalled ancestor: the claim fits over
  time beside every claim no ancestor of it holds, or some ancestor holds a claim and has
  nothing running under it. The grant adds exactly this claim under a fresh id, and a
  refusal changes nothing.
\<close>

theorem grants_are_justified:
  assumes "wf_budget b"
  shows "if Granted (snd (request clk b c))
    then (fits_over_time (clk 2) b (at_least_one_slot c) (held b c) \<or> free_slot b (Ancestors c)) \<and>
      claims (fst (request clk b c)) = claims b @ [(ID (snd (request clk b c)), new_entry (at_least_one_slot c) (clk 3))] \<and>
      ID (snd (request clk b c)) \<notin> fst ` set (claims b)
    else fst (request clk b c) = b"
proof (cases "Granted (snd (request clk b c))")
  case True
  moreover from True have "fits_over_time (clk 2) b (at_least_one_slot c) (held b c) \<or> free_slot b (Ancestors c)"
    by (cases clk b c rule: request_cases) auto
  ultimately show ?thesis using request_grant_claims(1,2) [OF assms True] by simp
next
  case False
  then show ?thesis using request_denied by simp
qed

theorem grants_are_justified_witness:
  "claims (fst (request zero_clock roots child_a)) =
    claims roots @ [(ID (snd (request zero_clock roots child_a)), new_entry child_a 0)]"
proof -
  have "at_least_one_slot child_a = child_a" by (simp add: at_least_one_slot_def demo_machine)
  then show ?thesis
    using grants_are_justified [OF roots_wf, of zero_clock child_a] child_granted by (simp add: zero_clock_def)
qed

text \<open>Releasing a grant gives back the table as it was before the request.\<close>

theorem release_undoes_grant:
  assumes "wf_budget b" "Granted (snd (request clk b c))"
  shows "claims (release (fst (request clk b c)) (ID (snd (request clk b c)))) = claims b"
  by (rule release_grant [OF assms])

theorem release_undoes_grant_witness:
  "claims (release (fst (request zero_clock roots child_a)) (ID (snd (request zero_clock roots child_a)))) = claims roots"
  by (rule release_undoes_grant [OF roots_wf child_granted])

text \<open>
  C23. The free seat is charged to the ancestors: once a claim that is no wrapper's is
  granted, no further claim is seated for free on the strength of any of its ancestors.
\<close>

theorem free_seat_is_spent:
  assumes "wf_budget b" "Granted (snd (request clk b c))" "\<not> is_wrapper_invocation (Invocation c)"
    and "set ancestors \<subseteq> set (Ancestors c)"
  shows "\<not> free_slot (fst (request clk b c)) ancestors"
proof (rule seat_spent)
  show "(ID (snd (request clk b c)), new_entry (at_least_one_slot c) (clk 3)) \<in> set (claims (fst (request clk b c)))"
    using request_grant_claims(1) [OF assms(1,2)] by simp
qed (use assms(3,4) in \<open>simp_all add: new_entry_def at_least_one_slot_def\<close>)

theorem free_seat_is_spent_witness:
  "free_slot roots [''10:a''] \<and> \<not> free_slot (fst (request zero_clock roots child_a)) [''10:a'']"
proof
  show "free_slot roots [''10:a'']" by code_simp
  have "\<not> is_wrapper_invocation (Invocation child_a)" by code_simp
  then show "\<not> free_slot (fst (request zero_clock roots child_a)) [''10:a'']"
    using free_seat_is_spent [OF roots_wf child_granted] by (simp add: demo_machine)
qed

text \<open>
  On a machine whose claims never nest, whatever is asked, released and overrun in
  whatever order, the slots held never pass the slots of the machine.
\<close>

theorem slots_stay_within_budget:
  assumes "unnested mb slots b" "0 < slots"
  shows "held_slots b \<le> slots"
  by (rule unnested_slots [OF assms])

theorem slots_stay_within_budget_witness:
  "held_slots roots \<le> 4"
  by (rule slots_stay_within_budget [OF roots_reached]) simp

text \<open>
  C24. The machine does not wedge: when every holder waits on a claim that runs under it,
  and each of those would fit the empty machine, some waiting claim is granted at once.
\<close>

theorem blocked_machine_seats_a_waiter:
  assumes "claims b \<noteq> []"
    and "\<forall>x \<in> set (claims b). Invocation (entry_claim (snd x)) \<noteq> '''' \<and> \<not> is_wrapper_invocation (Invocation (entry_claim (snd x)))"
    and "\<forall>x \<in> set (claims b). \<forall>y \<in> set (claims b).
      Invocation (entry_claim (snd x)) \<in> set (Ancestors (entry_claim (snd y))) \<longrightarrow>
      length (Ancestors (entry_claim (snd x))) < length (Ancestors (entry_claim (snd y)))"
    and "\<forall>x \<in> set (claims b). \<exists>c \<in> waiting. Invocation (entry_claim (snd x)) \<in> set (Ancestors c) \<and>
      fits_over_time (clk 0) b (at_least_one_slot c) (\<lambda>_ _. True)"
  shows "\<exists>c \<in> waiting. Granted (snd (request clk b c))"
  using assms by (rule some_waiter_seated)

theorem blocked_machine_seats_a_waiter_witness:
  "\<exists>c \<in> {child_a, child_a\<lparr>Ancestors := [''20:b'']\<rparr>}. Granted (snd (request zero_clock roots c))"
proof (rule blocked_machine_seats_a_waiter)
  have f: "fits_over_time 0 roots (at_least_one_slot child_a) (\<lambda>_ _. True)"
    "fits_over_time 0 roots (at_least_one_slot (child_a\<lparr>Ancestors := [''20:b'']\<rparr>)) (\<lambda>_ _. True)"
    by code_simp+
  then show "\<forall>x \<in> set (claims roots). \<exists>c \<in> {child_a, child_a\<lparr>Ancestors := [''20:b'']\<rparr>}.
      Invocation (entry_claim (snd x)) \<in> set (Ancestors c) \<and>
      fits_over_time (zero_clock 0) roots (at_least_one_slot c) (\<lambda>_ _. True)"
    by (simp add: roots_shape(1) zero_clock_def) (simp add: demo_machine)
  have "\<not> is_wrapper_invocation ''10:a''" "\<not> is_wrapper_invocation ''20:b''" by code_simp+
  then show "\<forall>x \<in> set (claims roots). Invocation (entry_claim (snd x)) \<noteq> '''' \<and>
      \<not> is_wrapper_invocation (Invocation (entry_claim (snd x)))"
    by (simp add: roots_shape(1) demo_machine)
qed (simp_all add: roots_shape(1) demo_machine)

text \<open>
  The verdict that a claim waits on its own run means what it says: once everything
  held by its process and by its run is released, the claim is granted.
\<close>

theorem own_run_release_admits:
  assumes "wf_budget b" "OwnRun (snd (request clk b c))"
  shows "Granted (snd (request (\<lambda>k. if k = 0 then clk 0 else clk 3) (without_own c b) c))"
proof -
  let ?c = "at_least_one_slot c" and ?clk = "\<lambda>k::nat. if k = 0 then clk 0 else clk 3"
  have same: "held b' ?c = held b' c" "held_by_others b' ?c = held_by_others b' c" "own_claim ?c = own_claim c" for b'
    by (auto simp: at_least_one_slot_def held_def held_by_others_def excused_def claim_run_def own_claim_def fun_eq_iff
        cong: list.case_cong)
  have own: "without_own ?c b = without_own c b" by (simp add: without_own_def same(3))
  have f: "fits_over_time (clk 0) b ?c (\<lambda>_ _. True)" "fits_over_time (clk 3) b ?c (held_by_others b c)"
    using assms(2) by (cases clk b c rule: request_cases; simp)+
  have "fits_over_time (clk 3) (without_own c b) ?c (held (without_own c b) c)"
    using f(2) fits_without_own [OF assms(1), of "clk 3" ?c] unfolding own same by blast
  moreover have "fits_over_time (clk 0) (without_own c b) ?c (\<lambda>_ _. True)"
    unfolding without_own_def using f(1) fits_alone_table by blast
  ultimately show ?thesis by (cases ?clk "without_own c b" c rule: request_cases) auto
qed

theorem own_run_release_admits_witness:
  "Granted (snd (request (\<lambda>k. if k = 0 then zero_clock 0 else zero_clock 3) (without_own sibling_a roots) sibling_a)) \<and>
    \<not> Granted (snd (request zero_clock roots sibling_a))"
proof
  show "\<not> Granted (snd (request zero_clock roots sibling_a))" by code_simp
qed (rule own_run_release_admits [OF roots_wf sibling_waits])

text \<open>
  Before the instant the wake timer is set to, no claim's charge falls below what it
  is now, so no parked request misses memory that frees itself.
\<close>

theorem no_charge_falls_before_next_change:
  assumes "x \<in> set (claims b)" "wf_entry now (snd x)" "now \<le> n"
    and "\<And>s. next_change now b = Some s \<Longrightarrow> n < s"
  shows "held_at (snd x) now now \<le> held_at (snd x) n n"
  by (rule charge_until_change [OF assms])

theorem no_charge_falls_before_next_change_witness:
  "held_at (new_entry root_a 0) 0 0 \<le> held_at (new_entry root_a 0) 5 5"
proof -
  have "next_change 0 roots = None" by (simp add: next_change_def roots_shape(1) curved_def demo_machine)
  then show ?thesis
    using no_charge_falls_before_next_change [of "(claim_id 10 1, new_entry root_a 0)" roots 0 5] roots_entries
    by (simp add: roots_shape(1) wf_entries_def)
qed

end
