(* ===== verification/Slot_Watch.thy ===== *)
theory Slot_Watch
  imports Magus_Prelude "HOL-Library.AList"
begin

text \<open>
  The watch over the build slots of one run, \<open>src/internal/cache/deadlock.go\<close>: which
  step holds how many slots, what each holder waits on, who is queued, and the verdict
  that ends a wait nothing can end. A hold or a waiter is a pointer in the code and a number
  here; the watch keeps those it knows of in a table. Every operation takes the reading
  of the clock. The semaphore itself is a library's: its answer is an argument of the
  operation that continues after it. Also here are the two halves of \<open>Limiter.Yield\<close> of
  \<open>src/internal/cache/limiter.go\<close> around the function it runs.
\<close>

section \<open>State\<close>

definition ExitCodeSlotDeadlock :: int where
  "ExitCodeSlotDeadlock = 78"

definition slotDeadlockGrace :: nanos where
  "slotDeadlockGrace = 3 * 1000000000"

record slot_hold =
  label :: string
  slots :: int
  blocked :: string
  yields :: int

text \<open>A refusal: the exit code, the capacity, who holds and who is queued, as its message lists them.\<close>

datatype slot_refusal = SlotsDeadlocked int int "string list" "string list"

record slot_waiter =
  wlabel :: string
  wn :: int
  werr :: "slot_refusal option"
  cancelled :: bool

record slot_watch =
  capacity :: int
  holds :: "(nat \<times> slot_hold) list"
  waiters :: "(nat \<times> slot_waiter) list"
  wedgedSince :: "nanos option"
  timer :: "nanos option"   \<comment> \<open>when it fires\<close>
  fresh :: nat              \<comment> \<open>the next pointer\<close>

definition new_slot_watch :: "int \<Rightarrow> slot_watch option" where
  "new_slot_watch n =
     (if n \<le> 0 then None
      else Some \<lparr>capacity = n, holds = [], waiters = [], wedgedSince = None, timer = None, fresh = 0\<rparr>)"

section \<open>The wedged shape\<close>

text \<open>The loop over the holds: \<open>None\<close> once a holder runs, else the slots summed so far.\<close>

definition count_hold :: "int option \<Rightarrow> slot_hold \<Rightarrow> int option" where
  "count_hold acc h =
     (case acc of
        None \<Rightarrow> None
      | Some s \<Rightarrow> if yields h > 0 then Some s else if blocked h = '''' then None else Some (s + slots h))"

definition wedged :: "slot_watch \<Rightarrow> bool" where
  "wedged w \<longleftrightarrow>
     (if waiters w = [] then False
      else case foldl count_hold (Some 0) (map snd (holds w)) of
             None \<Rightarrow> False
           | Some s \<Rightarrow> s \<ge> capacity w)"

definition evaluate :: "nanos \<Rightarrow> slot_watch \<Rightarrow> slot_watch" where
  "evaluate now w =
     (if \<not> wedged w then w\<lparr>wedgedSince := None, timer := None\<rparr>
      else
        let w1 = (if wedgedSince w = None then w\<lparr>wedgedSince := Some now\<rparr> else w)
        in if timer w1 = None then w1\<lparr>timer := Some (now + slotDeadlockGrace)\<rparr> else w1)"

section \<open>The verdict\<close>

definition holding_line :: "slot_hold \<Rightarrow> string" where
  "holding_line h = label h @ '' holds '' @ show_int (slots h) @ '' and is waiting on '' @ blocked h"

definition queued_line :: "slot_waiter \<Rightarrow> string" where
  "queued_line wt = wlabel wt @ '' needs '' @ show_int (wn wt)"

definition refusal :: "slot_watch \<Rightarrow> slot_refusal" where
  "refusal w = SlotsDeadlocked ExitCodeSlotDeadlock (capacity w)
     (sort (map holding_line (filter (\<lambda>h. \<not> yields h > 0) (map snd (holds w)))))
     (sort (map (queued_line \<circ> snd) (waiters w)))"

definition fire_verdict :: "nanos \<Rightarrow> slot_watch \<Rightarrow> slot_watch" where
  "fire_verdict now w0 =
     (let w = w0\<lparr>timer := None\<rparr>
      in if \<not> wedged w then w\<lparr>wedgedSince := None\<rparr>
         else
           let since = (case wedgedSince w of Some t \<Rightarrow> t | None \<Rightarrow> 0);
               remaining = slotDeadlockGrace - (now - since)
           in if remaining > 0 then w\<lparr>timer := Some (now + remaining)\<rparr>
              else w\<lparr>waiters := map (\<lambda>(i, wt). (i, wt\<lparr>werr := Some (refusal w), cancelled := True\<rparr>)) (waiters w)\<rparr>)"

section \<open>Holds and waiters\<close>

definition admit :: "nanos \<Rightarrow> slot_watch \<Rightarrow> string \<Rightarrow> int \<Rightarrow> slot_watch \<times> nat" where
  "admit now w lbl n =
     (evaluate now (w\<lparr>holds := holds w @ [(fresh w, \<lparr>label = lbl, slots = n, blocked = '''', yields = 0\<rparr>)],
        fresh := Suc (fresh w)\<rparr>), fresh w)"

definition hold_done :: "nanos \<Rightarrow> slot_watch \<Rightarrow> nat \<Rightarrow> slot_watch" where
  "hold_done now w h = evaluate now (w\<lparr>holds := AList.delete h (holds w)\<rparr>)"

text \<open>
  \<open>block\<close> answers the mark it replaced, which the function it returns puts back. A hold
  that was retired is no longer in the table, and marking it changes nothing the watch reads.
\<close>

definition set_blocked :: "nanos \<Rightarrow> slot_watch \<Rightarrow> nat \<Rightarrow> string \<Rightarrow> slot_watch" where
  "set_blocked now w h what = evaluate now (w\<lparr>holds := AList.map_entry h (\<lambda>r. r\<lparr>blocked := what\<rparr>) (holds w)\<rparr>)"

definition block :: "nanos \<Rightarrow> slot_watch \<Rightarrow> nat \<Rightarrow> string \<Rightarrow> slot_watch \<times> string" where
  "block now w h what =
     (set_blocked now w h what, case map_of (holds w) h of Some r \<Rightarrow> blocked r | None \<Rightarrow> '''')"

definition unblock :: "nanos \<Rightarrow> slot_watch \<Rightarrow> nat \<Rightarrow> string \<Rightarrow> slot_watch" where
  "unblock now w h prev = set_blocked now w h prev"

definition add_yields :: "nanos \<Rightarrow> slot_watch \<Rightarrow> nat \<Rightarrow> int \<Rightarrow> slot_watch" where
  "add_yields now w h n = evaluate now (w\<lparr>holds := AList.map_entry h (\<lambda>r. r\<lparr>yields := yields r + n\<rparr>) (holds w)\<rparr>)"

definition yield_slots :: "nanos \<Rightarrow> slot_watch \<Rightarrow> nat \<Rightarrow> slot_watch" where
  "yield_slots now w h = add_yields now w h 1"

definition end_yield :: "nanos \<Rightarrow> slot_watch \<Rightarrow> nat \<Rightarrow> slot_watch" where
  "end_yield now w h = add_yields now w h (- 1)"

definition begin_wait :: "nanos \<Rightarrow> slot_watch \<Rightarrow> string \<Rightarrow> int \<Rightarrow> slot_watch \<times> nat" where
  "begin_wait now w lbl n =
     (evaluate now (w\<lparr>waiters := waiters w @ [(fresh w, \<lparr>wlabel = lbl, wn = n, werr = None, cancelled = False\<rparr>)],
        fresh := Suc (fresh w)\<rparr>), fresh w)"

definition end_wait :: "nanos \<Rightarrow> slot_watch \<Rightarrow> nat \<Rightarrow> slot_watch \<times> slot_refusal option" where
  "end_wait now w wt =
     (evaluate now (w\<lparr>waiters := AList.delete wt (waiters w)\<rparr>),
      case map_of (waiters w) wt of Some r \<Rightarrow> werr r | None \<Rightarrow> None)"

section \<open>Acquiring under the watch\<close>

datatype acquire_error = Refused slot_refusal | Failed string

text \<open>
  \<open>acquireWatched\<close> up to the semaphore, and from its answer on. The parent is the hold of
  the step that asks, if there is one.
\<close>

definition slots_wanted :: "int \<Rightarrow> string" where
  "slots_wanted n = show_int n @ '' build slot(s)''"

definition acquire_begin :: "nanos \<Rightarrow> slot_watch \<Rightarrow> nat option \<Rightarrow> int \<Rightarrow> string \<Rightarrow> slot_watch \<times> string \<times> nat" where
  "acquire_begin now w parent n lbl =
     (case (case parent of None \<Rightarrow> (w, '''') | Some p \<Rightarrow> block now w p (slots_wanted n)) of
        (w1, prev) \<Rightarrow> case begin_wait now w1 lbl n of (w2, wt) \<Rightarrow> (w2, prev, wt))"

definition acquire_end :: "nanos \<Rightarrow> slot_watch \<Rightarrow> nat option \<Rightarrow> string \<Rightarrow> nat \<Rightarrow> int \<Rightarrow> string \<Rightarrow> string option \<Rightarrow>
    slot_watch \<times> (acquire_error + nat)" where
  "acquire_end now w parent prev wt n lbl err =
     (let undo = (\<lambda>w. case parent of None \<Rightarrow> w | Some p \<Rightarrow> unblock now w p prev)
      in case end_wait now w wt of
           (w1, refused) \<Rightarrow>
             (case err of
                Some e \<Rightarrow> (undo w1, Inl (case refused of Some r \<Rightarrow> Refused r | None \<Rightarrow> Failed e))
              | None \<Rightarrow> (case admit now w1 lbl n of (w2, h) \<Rightarrow> (undo w2, Inr h))))"

text \<open>The name a wait inside an admitted step carries.\<close>

definition nested_label :: "slot_watch \<Rightarrow> nat option \<Rightarrow> string \<Rightarrow> string" where
  "nested_label w parent lbl =
     (case parent of
        None \<Rightarrow> lbl
      | Some p \<Rightarrow> (case map_of (holds w) p of Some h \<Rightarrow> label h @ '' > '' @ lbl | None \<Rightarrow> lbl))"

text \<open>What \<open>Yield\<close> does after the function it ran: take the slots back, then end the yield.\<close>

definition reacquire_begin :: "nanos \<Rightarrow> slot_watch \<Rightarrow> nat option \<Rightarrow> int \<Rightarrow> slot_watch \<times> nat" where
  "reacquire_begin now w h n =
     begin_wait now w ((case h of None \<Rightarrow> ''an unmarked step''
        | Some i \<Rightarrow> (case map_of (holds w) i of Some r \<Rightarrow> label r | None \<Rightarrow> ''an unmarked step''))
        @ '' (taking back yielded slots)'') n"

definition reacquire_end :: "nanos \<Rightarrow> slot_watch \<Rightarrow> nat option \<Rightarrow> nat \<Rightarrow> slot_watch" where
  "reacquire_end now w h wt =
     (case end_wait now w wt of (w1, _) \<Rightarrow> (case h of None \<Rightarrow> w1 | Some i \<Rightarrow> end_yield now w1 i))"

end
