(* ===== verification/Slot_Properties.thy ===== *)
theory Slot_Properties
  imports Slot_Watch_Correct
begin

text \<open>
  The properties of the slot watch, with witnesses on a pool of one slot whose only
  holder waits on a lock while another step is queued.
\<close>

section \<open>A concrete pool\<close>

definition pool :: slot_watch where
  "pool = the (new_slot_watch 1)"

definition pool_held :: slot_watch where
  "pool_held = fst (block 1 (fst (admit 0 pool ''build'' 1)) 0 ''the cache lock'')"

definition pool_wedged :: slot_watch where
  "pool_wedged = fst (begin_wait 2 pool_held ''test'' 1)"

lemma pool_run: "watch_run 1 [(2, pool_wedged), (1, pool_held), (0, fst (admit 0 pool ''build'' 1)), (0, pool)]"
proof -
  have "new_slot_watch 1 = Some pool" by (simp add: pool_def new_slot_watch_def)
  then have "watch_run 1 [(0, pool)]" by (rule watch_run.start)
  then have "watch_run 1 [(0, fst (admit 0 pool ''build'' 1)), (0, pool)]"
    by (rule watch_run.step) (auto intro: watch_step.admitted)
  then have "watch_run 1 [(1, pool_held), (0, fst (admit 0 pool ''build'' 1)), (0, pool)]"
    by (rule watch_run.step) (auto simp: pool_held_def block_def intro: watch_step.marked)
  then show ?thesis
    by (rule watch_run.step) (auto simp: pool_wedged_def intro: watch_step.queued)
qed

lemma pool_shape: "wedged pool_wedged" "waiters pool_wedged = [(1, \<lparr>wlabel = ''test'', wn = 1, werr = None, cancelled = False\<rparr>)]"
  by code_simp+

section \<open>Properties\<close>

text \<open>
  C25. No wait is refused early. When the verdict changes any waiter, the pool has been
  wedged at every step of the last three seconds or longer: someone is queued, no holder
  that counts is running, and the holders account for every slot.
\<close>

theorem refusal_needs_a_lasting_wedge:
  assumes "watch_run n ((t, w) # tr)" "waiters (fire_verdict now w) \<noteq> waiters w"
  shows "\<exists>s. s + slotDeadlockGrace \<le> now \<and>
    (\<forall>u x. (u, x) \<in> set ((t, w) # tr) \<and> s < u \<longrightarrow> wedged x) \<and>
    (\<forall>h \<in> set (holds w). yields (snd h) > 0 \<or> blocked (snd h) \<noteq> '''') \<and>
    capacity w \<le> (\<Sum>h\<leftarrow>filter (\<lambda>h. \<not> yields h > 0) (map snd (holds w)). slots h)"
proof -
  note inv = watch_run_invariant [OF assms(1)]
  have w: "wedged w" using assms(2) by (auto simp: fire_verdict_def Let_def split: if_splits)
  then obtain s where s: "wedgedSince w = Some s" using inv by (auto simp: armed_def)
  then have "s + slotDeadlockGrace \<le> now"
    using assms(2) w by (auto simp: fire_verdict_def Let_def split: if_splits)
  then show ?thesis using inv s w unfolding wedged_iff by fastforce
qed

theorem refusal_needs_a_lasting_wedge_witness:
  "\<exists>s. s + slotDeadlockGrace \<le> 4000000000"
proof -
  have "waiters (fire_verdict 4000000000 pool_wedged) \<noteq> waiters pool_wedged" by code_simp
  from refusal_needs_a_lasting_wedge [OF pool_run this] show ?thesis by blast
qed

text \<open>
  C26. A wedge that lasts is always answered: while the pool is wedged with a waiter nobody
  refused, the verdict's timer is set, and if the wedge is still there when it fires, every
  waiter is cancelled with the refusal.
\<close>

theorem lasting_wedge_is_refused:
  assumes "watch_run n ((t, w) # tr)" "wedged w" "x \<in> set (waiters w)" "werr (snd x) = None"
  shows "\<exists>d. timer w = Some d \<and> (\<forall>now y. d \<le> now \<and> y \<in> set (waiters (fire_verdict now w)) \<longrightarrow>
    werr (snd y) = Some (refusal w) \<and> cancelled (snd y))"
proof -
  have a: "armed w" using watch_run_invariant [OF assms(1)] by blast
  then obtain d s where d: "timer w = Some d" "wedgedSince w = Some s" "s + slotDeadlockGrace \<le> d"
    using assms(2-4) by (auto simp: armed_def)
  have same: "refusal (w\<lparr>timer := None\<rparr>) = refusal w" by (simp add: refusal_def)
  have "werr (snd y) = Some (refusal w) \<and> cancelled (snd y)"
    if "d \<le> now" "y \<in> set (waiters (fire_verdict now w))" for now y
    using that d assms(2) by (auto simp: fire_verdict_def Let_def same)
  then show ?thesis using d(1) by blast
qed

theorem lasting_wedge_is_refused_witness:
  "\<exists>d. timer pool_wedged = Some d"
proof -
  have "(1, \<lparr>wlabel = ''test'', wn = 1, werr = None, cancelled = False\<rparr>) \<in> set (waiters pool_wedged)"
    by (simp add: pool_shape(2))
  from lasting_wedge_is_refused [OF pool_run pool_shape(1) this] show ?thesis by auto
qed

text \<open>Waits of one step, each with the waits that begin and end inside it.\<close>

datatype nested_wait = Wait string "nested_wait list"

primrec wait_out :: "nanos \<Rightarrow> nat \<Rightarrow> nested_wait \<Rightarrow> slot_watch \<Rightarrow> slot_watch"
  and wait_out_all :: "nanos \<Rightarrow> nat \<Rightarrow> nested_wait list \<Rightarrow> slot_watch \<Rightarrow> slot_watch" where
  "wait_out now h (Wait what inner) w =
     (case block now w h what of (w1, prev) \<Rightarrow> unblock now (wait_out_all now h inner w1) h prev)"
| "wait_out_all now h [] w = w"
| "wait_out_all now h (x # xs) w = wait_out_all now h xs (wait_out now h x w)"

lemma map_entry_restores:
  "AList.map_entry h (\<lambda>r. r\<lparr>blocked := (case map_of xs h of Some r \<Rightarrow> blocked r | None \<Rightarrow> '''')\<rparr>)
    (AList.map_entry h (\<lambda>r. r\<lparr>blocked := what\<rparr>) xs) = xs"
  by (induction xs) (auto split: if_splits)

lemma wait_out_holds:
  "holds (wait_out now h x w) = holds w"
  "holds (wait_out_all now h xs w) = holds w"
proof (induction x and xs arbitrary: w and w rule: wait_out.induct wait_out_all.induct)
  case (Wait what inner)
  have "holds (wait_out_all now h inner (fst (block now w h what))) =
      AList.map_entry h (\<lambda>r. r\<lparr>blocked := what\<rparr>) (holds w)"
    using Wait by (simp add: block_def set_blocked_def)
  then show ?case by (simp add: block_def unblock_def set_blocked_def map_entry_restores)
qed simp_all

text \<open>
  Waits that nest leave no mark: whatever waits a step goes through inside a wait,
  each ending before the one around it, its hold is marked in the end as it was before.
\<close>

theorem nested_waits_restore_the_mark:
  "holds (wait_out now h x w) = holds w"
  by (rule wait_out_holds)

text \<open>
  The fan-out of one step over two spells: it yields its slot, both spells ask for one
  before either has it, the first runs and ends, then the second, and the step takes its
  slot back. Only then does another step queue, while this one runs.
\<close>

definition after_fan_out :: slot_watch where
  "after_fan_out =
     (let (w1, h) = admit 0 pool ''build'' 1;
          w2 = yield_slots 1 w1 h;
          (w3, prevA, wtA) = acquire_begin 2 w2 (Some h) 1 ''build > go spell'';
          (w4, prevB, wtB) = acquire_begin 3 w3 (Some h) 1 ''build > lint spell'';
          (w5, rA) = acquire_end 4 w4 (Some h) prevA wtA 1 ''build > go spell'' None;
          w6 = (case rA of Inr hA \<Rightarrow> hold_done 5 w5 hA | Inl _ \<Rightarrow> w5);
          (w7, rB) = acquire_end 6 w6 (Some h) prevB wtB 1 ''build > lint spell'' None;
          w8 = (case rB of Inr hB \<Rightarrow> hold_done 7 w7 hB | Inl _ \<Rightarrow> w7);
          (w9, wtR) = reacquire_begin 8 w8 (Some h) 1
      in reacquire_end 9 w9 (Some h) wtR)"

text \<open>The scenario step by step, on a pool that is never wedged before its end.\<close>

definition calm :: "(nat \<times> slot_hold) list \<Rightarrow> (nat \<times> slot_waiter) list \<Rightarrow> nat \<Rightarrow> slot_watch" where
  "calm hs ws n = \<lparr>capacity = 1, holds = hs, waiters = ws, wedgedSince = None, timer = None, fresh = n\<rparr>"

lemma evaluate_calm:
  "ws = [] \<or> (\<Sum>h\<leftarrow>filter (\<lambda>h. \<not> yields h > 0) (map snd hs). slots h) < 1 \<or>
    (\<exists>x \<in> set hs. \<not> yields (snd x) > 0 \<and> blocked (snd x) = '''') \<Longrightarrow> evaluate now (calm hs ws n) = calm hs ws n"
  by (auto simp: evaluate_def wedged_iff calm_def)

lemma calm_fields:
  "(calm hs ws n)\<lparr>holds := hs'\<rparr> = calm hs' ws n" "(calm hs ws n)\<lparr>waiters := ws'\<rparr> = calm hs ws' n"
  "(calm hs ws n)\<lparr>fresh := m\<rparr> = calm hs ws m"
  "(calm hs ws n)\<lparr>holds := hs', fresh := m\<rparr> = calm hs' ws m" "(calm hs ws n)\<lparr>waiters := ws', fresh := m\<rparr> = calm hs ws' m"
  "holds (calm hs ws n) = hs" "waiters (calm hs ws n) = ws" "fresh (calm hs ws n) = n"
  by (simp_all add: calm_def)

definition build_hold :: "string \<Rightarrow> int \<Rightarrow> nat \<times> slot_hold" where
  "build_hold b y = (0, \<lparr>label = ''build'', slots = 1, blocked = b, yields = y\<rparr>)"

definition spell_hold :: "nat \<Rightarrow> string \<Rightarrow> nat \<times> slot_hold" where
  "spell_hold i l = (i, \<lparr>label = l, slots = 1, blocked = '''', yields = 0\<rparr>)"

definition waits_for :: "nat \<Rightarrow> string \<Rightarrow> nat \<times> slot_waiter" where
  "waits_for i l = (i, \<lparr>wlabel = l, wn = 1, werr = None, cancelled = False\<rparr>)"

lemmas watch_ops = admit_def hold_done_def block_def unblock_def set_blocked_def yield_slots_def end_yield_def
  add_yields_def begin_wait_def end_wait_def acquire_begin_def acquire_end_def reacquire_begin_def reacquire_end_def

lemmas calm_simps = watch_ops calm_fields evaluate_calm build_hold_def spell_hold_def waits_for_def

lemma fan_out_starts:
  "admit 0 pool ''build'' 1 = (calm [build_hold '''' 0] [] 1, 0)"
  "yield_slots 1 (calm [build_hold '''' 0] [] 1) 0 = calm [build_hold '''' 1] [] 1"
  "acquire_begin 2 (calm [build_hold '''' 1] [] 1) (Some 0) 1 a = (calm [build_hold (slots_wanted 1) 1] [waits_for 1 a] 2, '''', 1)"
  "acquire_begin 3 (calm [build_hold (slots_wanted 1) 1] [waits_for 1 a] 2) (Some 0) 1 b =
     (calm [build_hold (slots_wanted 1) 1] [waits_for 1 a, waits_for 2 b] 3, slots_wanted 1, 2)"
proof -
  have p: "pool = calm [] [] 0" by (simp add: pool_def new_slot_watch_def calm_def)
  show "admit 0 pool ''build'' 1 = (calm [build_hold '''' 0] [] 1, 0)" by (simp add: p calm_simps)
qed (simp_all add: calm_simps del: One_nat_def)

lemma fan_out_spells:
  "acquire_end 4 (calm [build_hold (slots_wanted 1) 1] [waits_for 1 a, waits_for 2 b] 3) (Some 0) '''' 1 1 a None =
     (calm [build_hold '''' 1, spell_hold 3 a] [waits_for 2 b] 4, Inr 3)"
  "hold_done 5 (calm [build_hold '''' 1, spell_hold 3 a] [waits_for 2 b] 4) 3 = calm [build_hold '''' 1] [waits_for 2 b] 4"
  "acquire_end 6 (calm [build_hold '''' 1] [waits_for 2 b] 4) (Some 0) (slots_wanted 1) 2 1 b None =
     (calm [build_hold (slots_wanted 1) 1, spell_hold 4 b] [] 5, Inr 4)"
  "hold_done 7 (calm [build_hold (slots_wanted 1) 1, spell_hold 4 b] [] 5) 4 = calm [build_hold (slots_wanted 1) 1] [] 5"
  by (simp_all add: calm_simps Let_def)

lemma fan_out_ends:
  "reacquire_begin 8 (calm [build_hold (slots_wanted 1) 1] [] 5) (Some 0) 1 =
     (calm [build_hold (slots_wanted 1) 1] [waits_for 5 ''build (taking back yielded slots)''] 6, 5)"
  "reacquire_end 9 (calm [build_hold (slots_wanted 1) 1] [waits_for 5 l] 6) (Some 0) 5 = calm [build_hold (slots_wanted 1) 0] [] 6"
  by (simp_all add: calm_simps)

lemma after_fan_out_calm: "after_fan_out = calm [build_hold ''1 build slot(s)'' 0] [] 6"
proof -
  have "after_fan_out = calm [build_hold (slots_wanted 1) 0] [] 6"
    unfolding after_fan_out_def by (simp add: fan_out_starts fan_out_spells fan_out_ends Let_def del: One_nat_def)
  moreover have "slots_wanted 1 = ''1 build slot(s)''" by code_simp
  ultimately show ?thesis by simp
qed

text \<open>
  C27. Waits that overlap without nesting leave a stale mark: after the fan-out above
  the step waits on nothing and holds its slot, yet its hold is marked as waiting for a
  build slot, and a step queued behind it is refused three seconds later.
\<close>

theorem overlapping_waits_refuse_a_running_step:
  "map (blocked \<circ> snd) (holds after_fan_out) = [''1 build slot(s)''] \<and> waiters after_fan_out = [] \<and>
    map (cancelled \<circ> snd) (waiters (fire_verdict 3000000010 (fst (begin_wait 10 after_fan_out ''test'' 1)))) = [True]"
  unfolding after_fan_out_calm by code_simp

end
