(* ===== verification/Broker_Queue.thy ===== *)
theory Broker_Queue
  imports Machine_Budget
begin

text \<open>
  The broker's queue: \<open>src/broker/budget.go\<close> (parking, judging, waking), \<open>src/broker/gate.go\<close>
  (gates and the order of the queue), the validation seats of \<open>src/broker/owner.go\<close>
  and the claim frames of \<open>src/broker/server.go\<close>. A connection's session and a parked
  request are pointers in the code and numbers here. Every operation runs under the server's
  lock, so it is a function of the server's state; the frames it sends are its output. A release
  and a closed connection are one operation here and take the lock several times in the code. The
  clock of the j-th request that a wake judges is \<open>clk j\<close>, a labelled family of readings as
  for the budget. Owners, the commands run under a deadline and the services are left out.
\<close>

section \<open>State\<close>

definition maxOvertakes :: nat where
  "maxOvertakes = 4"

definition refusedKeep :: nat where
  "refusedKeep = 20"

definition DefaultJobWeight :: rat where
  "DefaultJobWeight = 1 / 2"

record hello =
  hPID :: int
  hDir :: string
  hArgv :: "string list"
  Gate :: bool
  Tree :: string
  MaxValidations :: int

record session =
  sess_hello :: hello
  sess_claims :: "(string \<times> int) list"
  seat :: string
  gateAsked :: "nanos option"
  gateRun :: string

record seat_wait =
  swTree :: string
  swMax :: int
  swHolders :: "nat list"   \<comment> \<open>the connections whose runs hold the seats\<close>

record parked_reply =
  prVerdict :: machine_verdict
  prSeat :: "seat_wait option"

datatype frame =
    ParkedFrame parked_reply
  | ClaimReply machine_verdict "seat_wait option"
  | Draining
  | Cancelled

datatype outcome = Waiting | Seated frame | Answered frame

record parked =
  pkey :: nat
  psess :: nat
  pid :: nat
  since :: nanos
  claim :: machine_claim
  why :: parked_reply
  sent :: "parked_reply option"
  overtaken :: nat
  gate :: bool
  frame_seq :: nat

record machine_refusal =
  refClaim :: machine_claim
  refSlots :: int
  refFits :: bool
  refHolders :: "machine_claimant list"
  refAt :: nanos

record server =
  budget :: machine_budget
  conns :: "(nat \<times> session) list"
  seats :: "(string \<times> (string \<times> nat) list) list"   \<comment> \<open>per tree, how many connections hold each run's seat\<close>
  queue :: "parked list"
  refused :: "machine_refusal list"
  draining :: bool
  closing :: bool
  wakeTimer :: "nanos option"
  next_key :: nat

text \<open>A frame sent: the connection, the request it answers, its number and its content.\<close>

type_synonym sent_frame = "nat \<times> nat \<times> nat \<times> frame"

definition upd_session :: "server \<Rightarrow> nat \<Rightarrow> (session \<Rightarrow> session) \<Rightarrow> server" where
  "upd_session s i f = s\<lparr>conns := AList.map_entry i f (conns s)\<rparr>"

definition same_parked :: "parked \<Rightarrow> parked \<Rightarrow> bool" where
  "same_parked p q \<longleftrightarrow> pkey p = pkey q"

section \<open>Gates and order\<close>

definition run_of :: "session \<Rightarrow> machine_claim \<Rightarrow> string" where
  "run_of sess c = (if claim_run c \<noteq> '''' then claim_run c else ''pid '' @ show_int (hPID (sess_hello sess)))"

definition mark_gate :: "nanos \<Rightarrow> server \<Rightarrow> nat \<Rightarrow> machine_claim \<Rightarrow> server" where
  "mark_gate now s i c =
     upd_session s i (\<lambda>sess.
       if \<not> Gate (sess_hello sess) \<or> gateAsked sess \<noteq> None then sess
       else sess\<lparr>gateAsked := Some now, gateRun := run_of sess c\<rparr>)"

definition gate_of :: "server \<Rightarrow> nat \<Rightarrow> machine_claim \<Rightarrow> nat option" where
  "gate_of s i c =
     (case map_of (conns s) i of
        None \<Rightarrow> None
      | Some sess \<Rightarrow>
          if Gate (sess_hello sess) then Some i
          else if claim_run c = '''' then None
          else map_option fst (List.find (\<lambda>(_, other). Gate (sess_hello other) \<and> gateRun other = claim_run c) (conns s)))"

definition job_weight :: "machine_claim \<Rightarrow> rat" where
  "job_weight c = (if Weight c \<noteq> 0 then Weight c else DefaultJobWeight)"

definition starved_head :: "server \<Rightarrow> parked option" where
  "starved_head s =
     (case queue s of
        [] \<Rightarrow> None
      | q # _ \<Rightarrow> if overtaken q < maxOvertakes then None else Some q)"

definition ahead :: "server \<Rightarrow> parked \<Rightarrow> bool \<Rightarrow> parked option" where
  "ahead s p at_head =
     (case (if \<not> gate p then List.find (\<lambda>q. gate q \<and> \<not> same_parked q p) (queue s) else None) of
        Some q \<Rightarrow> Some q
      | None \<Rightarrow> if at_head then None else starved_head s)"

text \<open>The place of a request that is no gate: walk back over the lighter requests.\<close>

fun walk_back :: "parked list \<Rightarrow> parked \<Rightarrow> nat \<Rightarrow> nat" where
  "walk_back qs p 0 = 0"
| "walk_back qs p (Suc i) =
     (let q = qs ! i
      in if gate q \<or> overtaken q \<ge> maxOvertakes \<or> job_weight (claim q) \<ge> job_weight (claim p)
         then Suc i else walk_back qs p i)"

definition enqueue :: "parked list \<Rightarrow> parked \<Rightarrow> parked list" where
  "enqueue qs p =
     (if gate p
      then insert_at (case index_func (\<lambda>q. \<not> gate q) qs of None \<Rightarrow> length qs | Some i \<Rightarrow> i) p qs
      else
        let i = walk_back qs p (length qs)
        in insert_at i p (take i qs @ map (\<lambda>q. q\<lparr>overtaken := Suc (overtaken q)\<rparr>) (drop i qs)))"

section \<open>Validation seats\<close>

definition tree_seats :: "server \<Rightarrow> string \<Rightarrow> (string \<times> nat) list" where
  "tree_seats s tree = (case map_of (seats s) tree of Some hs \<Rightarrow> hs | None \<Rightarrow> [])"

definition others_seated :: "server \<Rightarrow> string \<Rightarrow> string \<Rightarrow> nat" where
  "others_seated s tree run = length (filter (\<lambda>(r, _). r \<noteq> run) (tree_seats s tree))"

definition seat_holders :: "server \<Rightarrow> string \<Rightarrow> string \<Rightarrow> nat list" where
  "seat_holders s tree run =
     map fst (filter (\<lambda>(_, other). seat other \<noteq> '''' \<and> seat other \<noteq> run \<and> Tree (sess_hello other) = tree) (conns s))"

definition add_seat :: "(string \<times> nat) list \<Rightarrow> string \<Rightarrow> (string \<times> nat) list" where
  "add_seat hs run = AList.update run (Suc (case map_of hs run of Some n \<Rightarrow> n | None \<Rightarrow> 0)) hs"

definition seat_run :: "server \<Rightarrow> nat \<Rightarrow> machine_claim \<Rightarrow> bool \<Rightarrow> server \<times> seat_wait option" where
  "seat_run s i c force =
     (case map_of (conns s) i of
        None \<Rightarrow> (s, None)
      | Some sess \<Rightarrow>
          let h = sess_hello sess; run = run_of sess c
          in if Tree h = '''' \<or> MaxValidations h \<le> 0 \<or> seat sess \<noteq> '''' then (s, None)
             else if \<not> force \<and> int (others_seated s (Tree h) run) \<ge> MaxValidations h
             then (s, Some \<lparr>swTree = Tree h, swMax = MaxValidations h, swHolders = seat_holders s (Tree h) run\<rparr>)
             else ((upd_session s i (\<lambda>x. x\<lparr>seat := run\<rparr>))
                     \<lparr>seats := AList.update (Tree h) (add_seat (tree_seats s (Tree h)) run) (seats s)\<rparr>, None))"

definition drop_seat :: "(string \<times> nat) list \<Rightarrow> string \<Rightarrow> (string \<times> nat) list" where
  "drop_seat hs run =
     (case map_of hs run of
        None \<Rightarrow> AList.delete run hs
      | Some n \<Rightarrow> if n \<le> 1 then AList.delete run hs else AList.update run (n - 1) hs)"

definition unseat :: "server \<Rightarrow> session \<Rightarrow> server" where
  "unseat s sess =
     (if seat sess = '''' then s
      else
        let tree = Tree (sess_hello sess)
        in case map_of (seats s) tree of
             None \<Rightarrow> s
           | Some hs \<Rightarrow>
               let hs' = drop_seat hs (seat sess)
               in if hs' = [] then s\<lparr>seats := AList.delete tree (seats s)\<rparr>
                  else s\<lparr>seats := AList.update tree hs' (seats s)\<rparr>)"

section \<open>Trying a request\<close>

definition no_verdict :: machine_verdict where
  "no_verdict = \<lparr>Granted = False, ID = '''', Fits = False, OwnRun = False, Packed = False, Holders = [],
     vBudgetMB = 0, HeldMB = 0, vBudgetSlots = 0, HeldSlots = 0\<rparr>"

definition seat_verdict :: machine_verdict where
  "seat_verdict = no_verdict\<lparr>Fits := True, OwnRun := True\<rparr>"

definition machine_refusal_of :: "nanos \<Rightarrow> machine_claim \<Rightarrow> machine_verdict \<Rightarrow> machine_refusal" where
  "machine_refusal_of now c v =
     \<lparr>refClaim = c, refSlots = max (Slots c) 1, refFits = Fits v, refHolders = Holders v, refAt = now\<rparr>"

definition refuse :: "machine_refusal \<Rightarrow> machine_refusal list \<Rightarrow> machine_refusal list" where
  "refuse r rs = take refusedKeep (insert_at 0 r rs)"

definition ledger_claimed :: "nanos \<Rightarrow> server \<Rightarrow> machine_claim \<Rightarrow> machine_verdict \<Rightarrow> server" where
  "ledger_claimed now s c v =
     (if Granted v \<or> Fits v \<and> OwnRun v then s else s\<lparr>refused := refuse (machine_refusal_of now c v) (refused s)\<rparr>)"

definition note_claim :: "server \<Rightarrow> nat \<Rightarrow> machine_claim \<Rightarrow> string \<Rightarrow> server" where
  "note_claim s i c cid = upd_session s i (\<lambda>x. x\<lparr>sess_claims := AList.update cid (max (Slots c) 1) (sess_claims x)\<rparr>)"

definition claim_try :: "(nat \<Rightarrow> nanos) \<Rightarrow> server \<Rightarrow> parked \<Rightarrow> server \<times> parked \<times> outcome" where
  "claim_try clk s p =
     (case seat_run s (psess p) (claim p) False of
        (s1, Some wait) \<Rightarrow> (s1, p\<lparr>why := \<lparr>prVerdict = seat_verdict, prSeat = Some wait\<rparr>\<rparr>, Waiting)
      | (s1, None) \<Rightarrow>
          (case request clk (budget s1) (claim p) of
             (b, v) \<Rightarrow>
               let s2 = s1\<lparr>budget := b\<rparr>
               in if Granted v then (note_claim s2 (psess p) (claim p) (ID v), p, Seated (ClaimReply v None))
                  else if Fits v then (s2, p\<lparr>why := \<lparr>prVerdict = v, prSeat = None\<rparr>\<rparr>, Waiting)
                  else (ledger_claimed (clk 5) s2 (claim p) v, p, Answered (ClaimReply v None))))"

text \<open>Behind a starved head or a waiting gate, a request is tried with that one's claim recorded.\<close>

definition with_claim_of :: "nanos \<Rightarrow> server \<Rightarrow> parked \<Rightarrow> server \<times> string" where
  "with_claim_of now s q =
     (case assert_claim now (budget s) ((claim q)\<lparr>Slots := max (Slots (claim q)) 1\<rparr>) of
        (b, cid) \<Rightarrow> (s\<lparr>budget := b\<rparr>, cid))"

definition overtake_head :: "server \<Rightarrow> parked \<Rightarrow> server" where
  "overtake_head s p =
     (case queue s of
        [] \<Rightarrow> s
      | q # qs \<Rightarrow> if same_parked q p then s else s\<lparr>queue := q\<lparr>overtaken := Suc (overtaken q)\<rparr> # qs\<rparr>)"

definition judge :: "(nat \<Rightarrow> nanos) \<Rightarrow> server \<Rightarrow> parked \<Rightarrow> parked option \<Rightarrow> server \<times> parked \<times> outcome" where
  "judge clk s p starved =
     (case (case starved of None \<Rightarrow> None | Some h \<Rightarrow> if same_parked h p then None else Some h) of
        None \<Rightarrow>
          (case claim_try clk s p of
             (s1, p1, Seated r) \<Rightarrow> (overtake_head s1 p, p1, Seated r)
           | res \<Rightarrow> res)
      | Some h \<Rightarrow>
          (case with_claim_of (clk 4) s h of
             (s1, cid) \<Rightarrow>
               (case claim_try clk s1 p of
                  (s2, p2, out) \<Rightarrow> (s2\<lparr>budget := release (budget s2) cid\<rparr>, p2, out))))"

definition arm_wake :: "nanos \<Rightarrow> server \<Rightarrow> server" where
  "arm_wake now s =
     s\<lparr>wakeTimer := (if queue s = [] \<or> closing s then None else next_change now (budget s))\<rparr>"

section \<open>Waking\<close>

lemma seat_run_queue: "seat_run s i c f = (s1, w) \<Longrightarrow> queue s1 = queue s"
  by (auto simp: seat_run_def upd_session_def Let_def split: option.splits if_splits)

lemma claim_try_queue: "claim_try clk s p = (s', p', out) \<Longrightarrow> queue s' = queue s"
  by (auto simp: claim_try_def Let_def note_claim_def upd_session_def ledger_claimed_def
      dest: seat_run_queue split: prod.splits option.splits if_splits)

lemma judge_queue_length: "judge clk s p h = (s', p', out) \<Longrightarrow> length (queue s') = length (queue s)"
  by (auto simp: judge_def with_claim_of_def overtake_head_def dest!: claim_try_queue
      split: prod.splits option.splits outcome.splits if_splits list.splits)

function wake_loop :: "(nat \<Rightarrow> nat \<Rightarrow> nanos) \<Rightarrow> nat \<Rightarrow> nat \<Rightarrow> server \<Rightarrow> sent_frame list \<Rightarrow> server \<times> sent_frame list" where
  "wake_loop clk j i s out =
     (if i \<ge> length (queue s) then (s, out)
      else
        let p = queue s ! i
        in case judge (clk j) s p (ahead s p (i = 0)) of
             (s1, p1, Waiting) \<Rightarrow>
               if sent p1 \<noteq> Some (why p1)
               then
                 let p2 = p1\<lparr>sent := Some (why p1), frame_seq := Suc (frame_seq p1)\<rparr>
                 in wake_loop clk (Suc j) (Suc i) (s1\<lparr>queue := (queue s1)[i := p2]\<rparr>)
                      (out @ [(psess p, pid p, frame_seq p2, ParkedFrame (why p1))])
               else wake_loop clk (Suc j) (Suc i) (s1\<lparr>queue := (queue s1)[i := p1]\<rparr>) out
           | (s1, p1, Seated r) \<Rightarrow>
               wake_loop clk (Suc j) i (s1\<lparr>queue := delete_at i (queue s1)\<rparr>) (out @ [(psess p, pid p, Suc (frame_seq p), r)])
           | (s1, p1, Answered r) \<Rightarrow>
               wake_loop clk (Suc j) i (s1\<lparr>queue := delete_at i (queue s1)\<rparr>) (out @ [(psess p, pid p, Suc (frame_seq p), r)]))"
  by pat_completeness auto
termination
  by (relation "measure (\<lambda>(clk, j, i, s, out). length (queue s) - i)")
     (auto dest!: judge_queue_length [OF sym])

definition wake :: "nanos \<Rightarrow> (nat \<Rightarrow> nat \<Rightarrow> nanos) \<Rightarrow> server \<Rightarrow> server \<times> sent_frame list" where
  "wake now clk s = (case wake_loop clk 0 0 s [] of (s1, out) \<Rightarrow> (arm_wake now s1, out))"

section \<open>Frames\<close>

text \<open>A claim frame that asks to park. The requests a wake judges have their own clock.\<close>

definition park :: "nanos \<Rightarrow> (nat \<Rightarrow> nanos) \<Rightarrow> (nat \<Rightarrow> nat \<Rightarrow> nanos) \<Rightarrow> server \<Rightarrow> parked \<Rightarrow> server \<times> sent_frame list" where
  "park now clk wclk s p =
     (if draining s \<or> closing s then (s, [(psess p, pid p, 0, Draining)])
      else
        let s1 = mark_gate now s (psess p) (claim p);
            p1 = p\<lparr>gate := gate_of s1 (psess p) (claim p) \<noteq> None\<rparr>
        in case judge clk s1 p1 (ahead s1 p1 False) of
             (s2, p2, Waiting) \<Rightarrow>
               let p3 = p2\<lparr>sent := Some (why p2), frame_seq := Suc (frame_seq p2)\<rparr>
               in (arm_wake now (s2\<lparr>queue := enqueue (queue s2) p3\<rparr>),
                   [(psess p, pid p, frame_seq p3, ParkedFrame (why p2))])
           | (s2, p2, Seated r) \<Rightarrow>
               (if queue s2 \<noteq> []
                then case wake now wclk s2 of (s3, out) \<Rightarrow> (s3, (psess p, pid p, 0, r) # out)
                else (s2, [(psess p, pid p, 0, r)]))
           | (s2, p2, Answered r) \<Rightarrow> (s2, [(psess p, pid p, 0, r)]))"

definition new_parked :: "server \<Rightarrow> nat \<Rightarrow> nat \<Rightarrow> nanos \<Rightarrow> machine_claim \<Rightarrow> server \<times> parked" where
  "new_parked s i fid now c =
     (s\<lparr>next_key := Suc (next_key s)\<rparr>,
      \<lparr>pkey = next_key s, psess = i, pid = fid, since = now, claim = c, why = \<lparr>prVerdict = no_verdict, prSeat = None\<rparr>,
       sent = None, overtaken = 0, gate = False, frame_seq = 0\<rparr>)"

definition attribute :: "session \<Rightarrow> machine_claim \<Rightarrow> machine_claim" where
  "attribute sess c =
     (let h = sess_hello sess;
          c1 = (if PID c = 0 then c\<lparr>PID := hPID h\<rparr> else c);
          c2 = (if Dir c1 = '''' then c1\<lparr>Dir := hDir h\<rparr> else c1)
      in if Command c2 = '''' \<and> hArgv h \<noteq> [] then c2\<lparr>Command := strings_join '' '' (hArgv h)\<rparr> else c2)"

definition request_unparked :: "(nat \<Rightarrow> nanos) \<Rightarrow> server \<Rightarrow> nat \<Rightarrow> machine_claim \<Rightarrow> server \<times> machine_verdict" where
  "request_unparked clk s i c =
     (let p = (snd (new_parked s i 0 0 c))\<lparr>gate := gate_of s i c \<noteq> None\<rparr>
      in case ahead s p True of
           Some h \<Rightarrow>
             (case with_claim_of (clk 4) s h of
                (s1, cid) \<Rightarrow>
                  (case request clk (budget s1) c of (b, v) \<Rightarrow> (s1\<lparr>budget := release b cid\<rparr>, v)))
         | None \<Rightarrow> (case request clk (budget s) c of (b, v) \<Rightarrow> (s\<lparr>budget := b\<rparr>, v)))"

text \<open>A claim frame that does not park: asserted again after a broker died, or asked once.\<close>

definition claim_reassert :: "nanos \<Rightarrow> (nat \<Rightarrow> nat \<Rightarrow> nanos) \<Rightarrow> server \<Rightarrow> nat \<Rightarrow> nat \<Rightarrow> machine_claim \<Rightarrow> server \<times> sent_frame list" where
  "claim_reassert now wclk s i fid c =
     (case seat_run s i c True of
        (s1, _) \<Rightarrow>
          (case assert_claim now (budget s1) c of
             (b, cid) \<Rightarrow>
               (case wake now wclk (note_claim (s1\<lparr>budget := b\<rparr>) i c cid) of
                  (s2, out) \<Rightarrow> (s2, (i, fid, 0, ClaimReply (no_verdict\<lparr>Granted := True, Fits := True, ID := cid\<rparr>) None) # out))))"

definition claim_once :: "nanos \<Rightarrow> (nat \<Rightarrow> nanos) \<Rightarrow> (nat \<Rightarrow> nat \<Rightarrow> nanos) \<Rightarrow> server \<Rightarrow> nat \<Rightarrow> nat \<Rightarrow> machine_claim \<Rightarrow>
    server \<times> sent_frame list" where
  "claim_once now clk wclk s i fid c =
     (if draining s then (s, [(i, fid, 0, Draining)])
      else case seat_run s i c False of
        (s1, Some wait) \<Rightarrow> (s1, [(i, fid, 0, ClaimReply seat_verdict (Some wait))])
      | (s1, None) \<Rightarrow>
          (case request_unparked clk (mark_gate now s1 i c) i c of
             (s2, v) \<Rightarrow>
               let s3 = (if Granted v then note_claim s2 i c (ID v) else s2);
                   s4 = ledger_claimed now s3 c v
               in if Granted v
                  then (case wake now wclk s4 of (s5, out) \<Rightarrow> (s5, (i, fid, 0, ClaimReply v None) # out))
                  else (s4, [(i, fid, 0, ClaimReply v None)])))"

definition cancel_frame :: "nanos \<Rightarrow> (nat \<Rightarrow> nat \<Rightarrow> nanos) \<Rightarrow> server \<Rightarrow> nat \<Rightarrow> nat \<Rightarrow> server \<times> sent_frame list" where
  "cancel_frame now wclk s i fid =
     (case index_func (\<lambda>p. psess p = i \<and> pid p = fid) (queue s) of
        None \<Rightarrow> (s, [])
      | Some k \<Rightarrow>
          (case wake now wclk (s\<lparr>queue := delete_at k (queue s)\<rparr>) of
             (s1, out) \<Rightarrow> (s1, (i, fid, 0, Cancelled) # out)))"

definition drop_parked :: "server \<Rightarrow> nat \<Rightarrow> server" where
  "drop_parked s i = s\<lparr>queue := filter (\<lambda>p. psess p \<noteq> i) (queue s)\<rparr>"

definition refuse_parked :: "server \<Rightarrow> server \<times> sent_frame list" where
  "refuse_parked s = (arm_wake 0 (s\<lparr>queue := []\<rparr>), map (\<lambda>p. (psess p, pid p, 0, Draining)) (queue s))"

definition start_drain :: "server \<Rightarrow> server \<times> sent_frame list" where
  "start_drain s = refuse_parked (s\<lparr>draining := True\<rparr>)"

definition session_holds :: "server \<Rightarrow> nat \<Rightarrow> string \<Rightarrow> bool" where
  "session_holds s i cid =
     (case map_of (conns s) i of None \<Rightarrow> False | Some sess \<Rightarrow> map_of (sess_claims sess) cid \<noteq> None)"

definition release_frame :: "nanos \<Rightarrow> (nat \<Rightarrow> nat \<Rightarrow> nanos) \<Rightarrow> server \<Rightarrow> nat \<Rightarrow> string \<Rightarrow> server \<times> sent_frame list" where
  "release_frame now wclk s i cid =
     (let s1 = upd_session s i (\<lambda>x. x\<lparr>sess_claims := AList.delete cid (sess_claims x)\<rparr>)
      in if session_holds s i cid then wake now wclk (s1\<lparr>budget := release (budget s1) cid\<rparr>) else (s1, []))"

definition overrun_frame :: "server \<Rightarrow> nat \<Rightarrow> string \<Rightarrow> server" where
  "overrun_frame s i cid = (if session_holds s i cid then s\<lparr>budget := mark_overrun (budget s) cid\<rparr> else s)"

text \<open>A connection that closed: its seat, its parked requests and every claim it held go.\<close>

definition forget :: "nanos \<Rightarrow> (nat \<Rightarrow> nat \<Rightarrow> nanos) \<Rightarrow> server \<Rightarrow> nat \<Rightarrow> server \<times> sent_frame list" where
  "forget now wclk s i =
     (case map_of (conns s) i of
        None \<Rightarrow> (s, [])
      | Some sess \<Rightarrow>
          let s1 = drop_parked (unseat (s\<lparr>conns := AList.delete i (conns s)\<rparr>) sess) i
          in wake now wclk (s1\<lparr>budget := foldl release (budget s1) (map fst (sess_claims sess))\<rparr>))"

definition connect :: "server \<Rightarrow> nat \<Rightarrow> hello \<Rightarrow> server" where
  "connect s i h =
     (if map_of (conns s) i \<noteq> None then s
      else s\<lparr>conns := conns s @ [(i, \<lparr>sess_hello = h, sess_claims = [], seat = '''', gateAsked = None, gateRun = ''''\<rparr>)]\<rparr>)"

section \<open>Status\<close>

record machine_waiter =
  mwClaim :: machine_claim
  mwSlots :: int
  mwTree :: string
  mwSince :: nanos
  mwWaited :: nanos

definition waiting_list :: "nanos \<Rightarrow> server \<Rightarrow> machine_waiter list" where
  "waiting_list now s =
     sort_key mwSince (map (\<lambda>p. \<lparr>mwClaim = claim p, mwSlots = max (Slots (claim p)) 1,
       mwTree = (case prSeat (why p) of None \<Rightarrow> '''' | Some w \<Rightarrow> swTree w), mwSince = since p, mwWaited = now - since p\<rparr>) (queue s))"

definition new_server :: "int \<Rightarrow> int \<Rightarrow> server" where
  "new_server mb n = \<lparr>budget = new_machine_budget mb n, conns = [], seats = [], queue = [], refused = [],
     draining = False, closing = False, wakeTimer = None, next_key = 0\<rparr>"

end
