(* ===== verification/Admission.thy ===== *)
theory Admission
  imports Machine_Budget_Correct
begin

text \<open>
  What the broker relies on of the budget, as an interface: a table of granted claims that a
  request or an assertion extends by one fresh id and a release shrinks. The lemmas of the
  client are proved from the laws alone; the machine budget provides them.
\<close>

locale admission =
  fixes wf :: "'b \<Rightarrow> bool"
    and ids :: "'b \<Rightarrow> string set"
    and ask :: "'r \<Rightarrow> 'b \<Rightarrow> 'c \<Rightarrow> 'b \<times> string option"
    and put :: "'t \<Rightarrow> 'b \<Rightarrow> 'c \<Rightarrow> 'b \<times> string"
    and rel :: "'b \<Rightarrow> string \<Rightarrow> 'b"
  assumes ask_None: "wf b \<Longrightarrow> ask r b c = (b', None) \<Longrightarrow> b' = b"
    and ask_Some: "wf b \<Longrightarrow> ask r b c = (b', Some i) \<Longrightarrow> wf b' \<and> i \<notin> ids b \<and> ids b' = insert i (ids b)"
    and put_law: "wf b \<Longrightarrow> put t b c = (b', i) \<Longrightarrow> wf b' \<and> i \<notin> ids b \<and> ids b' = insert i (ids b)"
    and rel_law: "wf b \<Longrightarrow> wf (rel b i) \<and> ids (rel b i) = ids b - {i}"
begin

text \<open>Judging behind a claim that is put and taken back leaves only what was granted.\<close>

lemma ask_behind:
  assumes b: "wf b" and p: "put t b h = (b1, i)" and a: "ask r b1 c = (b2, g)"
  shows "wf (rel b2 i) \<and> (case g of None \<Rightarrow> ids (rel b2 i) = ids b
    | Some j \<Rightarrow> j \<notin> ids b \<and> ids (rel b2 i) = insert j (ids b))"
proof -
  have b1: "wf b1" "i \<notin> ids b" "ids b1 = insert i (ids b)" using put_law [OF b p] by auto
  show ?thesis
  proof (cases g)
    case None
    then have "b2 = b1" using ask_None [OF b1(1)] a by simp
    then show ?thesis using None b1 rel_law [OF b1(1), of i] by auto
  next
    case (Some j)
    then have "wf b2 \<and> j \<notin> ids b1 \<and> ids b2 = insert j (ids b1)" using ask_Some [OF b1(1)] a by simp
    then show ?thesis using Some b1 rel_law [of b2 i] by auto
  qed
qed

lemma rel_all:
  "wf b \<Longrightarrow> wf (foldl rel b is) \<and> ids (foldl rel b is) = ids b - set is"
  by (induction "is" arbitrary: b) (use rel_law in auto)

end

section \<open>The machine budget provides it\<close>

definition claim_ids :: "machine_budget \<Rightarrow> string set" where
  "claim_ids b = fst ` set (claims b)"

definition ask_budget :: "(nat \<Rightarrow> nanos) \<Rightarrow> machine_budget \<Rightarrow> machine_claim \<Rightarrow> machine_budget \<times> string option" where
  "ask_budget clk b c = (case request clk b c of (b', v) \<Rightarrow> (b', if Granted v then Some (ID v) else None))"

interpretation machine: admission wf_budget claim_ids ask_budget assert_claim release
proof
  fix b b' :: machine_budget and clk c i now
  assume w: "wf_budget b"
  show "b' = b" if "ask_budget clk b c = (b', None)"
    using that request_denied [of clk b c] by (auto simp: ask_budget_def split: prod.splits if_splits)
  show "wf_budget b' \<and> i \<notin> claim_ids b \<and> claim_ids b' = insert i (claim_ids b)" if a: "ask_budget clk b c = (b', Some i)"
  proof -
    have g: "Granted (snd (request clk b c))" "b' = fst (request clk b c)" "i = ID (snd (request clk b c))"
      using a by (auto simp: ask_budget_def split: prod.splits if_splits)
    then show ?thesis
      using request_grant_claims(1,2) [OF w g(1)] wf_request [OF w, of clk c] by (simp add: claim_ids_def)
  qed
  show "wf_budget b' \<and> i \<notin> claim_ids b \<and> claim_ids b' = insert i (claim_ids b)" if a: "assert_claim now b c = (b', i)"
  proof -
    have "b' = fst (record_claim now b (at_least_one_slot c))" using a by (simp add: assert_claim_def)
    then have "wf_budget b'" using wf_record_claim [OF w] by simp
    then show ?thesis using a new_id_fresh [OF w]
      by (auto simp: assert_claim_def record_claim_eq [OF w] claim_ids_def)
  qed
  show "wf_budget (release b i) \<and> claim_ids (release b i) = claim_ids b - {i}"
    using wf_release [OF w] by (auto simp: claim_ids_def release_def AList.delete_eq image_iff)
qed

end
