(* ===== verification/Broker_Queue_Correct.thy ===== *)
theory Broker_Queue_Correct
  imports Broker_Queue Admission
begin

text \<open>
  What the broker's queue promises. Ownership: every claim in the budget belongs to exactly
  one connection, whatever frames come and whichever connections close, so closing them all
  empties the machine. The queue: no counter of overtakings passes \<open>maxOvertakes\<close>, and gates
  stay ahead of the rest. The laws of admission come from the interface.
\<close>

section \<open>Ownership\<close>

definition owns :: "server \<Rightarrow> nat \<Rightarrow> string set" where
  "owns s i = (case map_of (conns s) i of None \<Rightarrow> {} | Some x \<Rightarrow> fst ` set (sess_claims x))"

definition owned_but :: "string set \<Rightarrow> server \<Rightarrow> bool" where
  "owned_but X s \<longleftrightarrow> wf_budget (budget s) \<and> claim_ids (budget s) = (\<Union>i. owns s i) \<union> X \<and>
     (\<Union>i. owns s i) \<inter> X = {} \<and> (\<forall>i j. i \<noteq> j \<longrightarrow> owns s i \<inter> owns s j = {})"

lemma map_of_upd_session:
  "map_of (conns (upd_session s i f)) j = (if j = i then map_option f (map_of (conns s) i) else map_of (conns s) j)"
proof -
  have "map_of (AList.map_entry i f xs) j = (if j = i then map_option f (map_of xs i) else map_of xs j)" for xs
    by (induction xs) auto
  then show ?thesis by (simp add: upd_session_def)
qed

lemma upd_session_fields [simp]:
  "budget (upd_session s i f) = budget s" "queue (upd_session s i f) = queue s"
  "refused (upd_session s i f) = refused s" "seats (upd_session s i f) = seats s"
  "draining (upd_session s i f) = draining s" "closing (upd_session s i f) = closing s"
  by (simp_all add: upd_session_def)

text \<open>Two states whose connections are the same and hold the same claims.\<close>

definition same_claims :: "server \<Rightarrow> server \<Rightarrow> bool" where
  "same_claims s s' \<longleftrightarrow> owns s' = owns s \<and> (\<forall>i. map_of (conns s') i = None \<longleftrightarrow> map_of (conns s) i = None)"

lemma same_claims_upd: "(\<And>x. sess_claims (f x) = sess_claims x) \<Longrightarrow> same_claims s (upd_session s i f)"
  by (auto simp: same_claims_def owns_def map_of_upd_session fun_eq_iff split: option.splits)

lemma same_claims_conns: "conns s' = conns s \<Longrightarrow> same_claims s s'"
  by (simp add: same_claims_def owns_def fun_eq_iff)

lemma same_claims_trans: "same_claims s s' \<Longrightarrow> same_claims s' s'' \<Longrightarrow> same_claims s s''"
  by (simp add: same_claims_def)

lemma owned_same: "same_claims s s' \<Longrightarrow> budget s' = budget s \<Longrightarrow> owned_but X s' = owned_but X s"
  by (simp add: same_claims_def owned_but_def)

lemma seat_run_same:
  assumes "seat_run s i c f = (s1, w)"
  shows "same_claims s s1 \<and> budget s1 = budget s \<and> queue s1 = queue s \<and> refused s1 = refused s"
proof -
  have "same_claims s ((upd_session s i (\<lambda>x. x\<lparr>seat := run\<rparr>))\<lparr>seats := ss\<rparr>)" for run ss
    by (rule same_claims_trans [OF same_claims_upd same_claims_conns]) simp_all
  moreover have "same_claims s s" by (simp add: same_claims_def)
  ultimately show ?thesis using assms
    by (auto simp: seat_run_def Let_def split: option.splits if_splits)
qed

lemma mark_gate_same: "same_claims s (mark_gate now s i c)"
  unfolding mark_gate_def by (rule same_claims_upd) simp

lemma owns_note_claim:
  "map_of (conns s) i \<noteq> None \<Longrightarrow> owns (note_claim s i c cid) = (owns s)(i := insert cid (owns s i))"
proof -
  assume "map_of (conns s) i \<noteq> None"
  then obtain x where x: "map_of (conns s) i = Some x" by blast
  have "fst ` set (AList.update k v xs) = insert k (fst ` set xs)" for k v and xs :: "(string \<times> int) list"
    using dom_update [of k v xs] by (simp add: dom_map_of_conv_image_fst)
  with x show ?thesis by (auto simp: fun_eq_iff owns_def note_claim_def map_of_upd_session)
qed

lemma owned_note:
  assumes o: "owned_but X s" and i: "map_of (conns s) i \<noteq> None"
    and b: "wf_budget b" "cid \<notin> claim_ids (budget s)" "claim_ids b = insert cid (claim_ids (budget s))"
  shows "owned_but X (note_claim (s\<lparr>budget := b\<rparr>) i c cid)"
proof -
  have ow: "owns (note_claim (s\<lparr>budget := b\<rparr>) i c cid) = (owns s)(i := insert cid (owns s i))"
    using owns_note_claim [of "s\<lparr>budget := b\<rparr>" i c cid] i by (simp add: owns_def fun_eq_iff)
  have un: "(\<Union>j. ((owns s)(i := insert cid (owns s i))) j) = insert cid (\<Union>j. owns s j)"
    by (auto split: if_splits)
  have fresh: "cid \<notin> owns s j" "cid \<notin> X" for j using o b(2) by (auto simp: owned_but_def)
  show ?thesis
    unfolding owned_but_def ow un using o b(1,3) fresh
    by (auto simp: owned_but_def note_claim_def)
qed

definition same_request :: "parked \<Rightarrow> parked \<Rightarrow> bool" where
  "same_request p q \<longleftrightarrow> pkey q = pkey p \<and> psess q = psess p \<and> pid q = pid p \<and> overtaken q = overtaken p \<and>
     gate q = gate p \<and> claim q = claim p"

lemma refuse_length: "length (refuse r rs) \<le> refusedKeep"
  by (simp add: refuse_def)

lemma ledger_claimed_fields [simp]:
  "budget (ledger_claimed now s c v) = budget s" "conns (ledger_claimed now s c v) = conns s"
  "queue (ledger_claimed now s c v) = queue s" "seats (ledger_claimed now s c v) = seats s"
  by (simp_all add: ledger_claimed_def)

lemma ledger_claimed_length:
  "length (refused s) \<le> refusedKeep \<Longrightarrow> length (refused (ledger_claimed now s c v)) \<le> refusedKeep"
  by (simp add: ledger_claimed_def refuse_length)

lemma claim_try_keeps:
  assumes t: "claim_try clk s p = (s', p', out)" and o: "owned_but X s" and p: "map_of (conns s) (psess p) \<noteq> None"
  shows "owned_but X s' \<and> (\<forall>i. map_of (conns s') i = None \<longleftrightarrow> map_of (conns s) i = None) \<and>
    queue s' = queue s \<and> same_request p p' \<and> (length (refused s) \<le> refusedKeep \<longrightarrow> length (refused s') \<le> refusedKeep)"
proof -
  obtain s1 w where s1: "seat_run s (psess p) (claim p) False = (s1, w)" by force
  note k = seat_run_same [OF s1]
  have o1: "owned_but X s1" using k o owned_same by blast
  then have wf: "wf_budget (budget s1)" by (simp add: owned_but_def)
  have dom: "map_of (conns s1) i = None \<longleftrightarrow> map_of (conns s) i = None" for i using k by (simp add: same_claims_def)
  obtain b v where r: "request clk (budget s1) (claim p) = (b, v)" by force
  show ?thesis
  proof (cases w)
    case (Some wait)
    then show ?thesis using t s1 k o1 dom by (auto simp: claim_try_def same_request_def)
  next
    case None
    show ?thesis
    proof (cases "Granted v")
      case True
      then have a: "ask_budget clk (budget s1) (claim p) = (b, Some (ID v))" using r by (simp add: ask_budget_def)
      have "owned_but X (note_claim (s1\<lparr>budget := b\<rparr>) (psess p) (claim p) (ID v))"
        using machine.ask_Some [OF wf a] p dom by (intro owned_note [OF o1]) auto
      moreover have "map_of (conns (note_claim (s1\<lparr>budget := b\<rparr>) (psess p) (claim p) (ID v))) i = None \<longleftrightarrow>
          map_of (conns s) i = None" for i
        unfolding note_claim_def map_of_upd_session using dom by simp
      ultimately show ?thesis using t s1 None r True k
        by (auto simp: claim_try_def note_claim_def same_request_def)
    next
      case False
      then have "ask_budget clk (budget s1) (claim p) = (b, None)" using r by (simp add: ask_budget_def)
      then have b: "b = budget s1" using machine.ask_None [OF wf] by blast

      have "s1\<lparr>budget := b\<rparr> = s1" by (simp add: b)
      then have s': "s' = s1 \<or> s' = ledger_claimed (clk 5) s1 (claim p) v" "same_request p p'"
        using t s1 None r False by (auto simp: claim_try_def same_request_def Let_def split: if_splits)
      have keeps: "owned_but X s'" "queue s' = queue s1" "conns s' = conns s1"
        "length (refused s1) \<le> refusedKeep \<Longrightarrow> length (refused s') \<le> refusedKeep"
        using s'(1) o1 owned_same [OF same_claims_conns, of "ledger_claimed (clk 5) s1 (claim p) v" s1] ledger_claimed_length
        by auto
      show ?thesis using keeps s'(2) k dom by simp
    qed
  qed
qed

section \<open>The queue\<close>

definition queue_ok :: "parked list \<Rightarrow> bool" where
  "queue_ok qs \<longleftrightarrow> (\<forall>q \<in> set qs. overtaken q \<le> maxOvertakes) \<and> sorted_wrt (\<lambda>p q. gate q \<longrightarrow> gate p) qs"

definition broker_ok :: "server \<Rightarrow> bool" where
  "broker_ok s \<longleftrightarrow> owned_but {} s \<and> queue_ok (queue s) \<and>
     (\<forall>q \<in> set (queue s). map_of (conns s) (psess q) \<noteq> None) \<and> length (refused s) \<le> refusedKeep"

lemma queue_ok_Nil [simp]: "queue_ok []"
  by (simp add: queue_ok_def)

lemma queue_ok_delete: "queue_ok qs \<Longrightarrow> queue_ok (delete_at i qs)"
proof -
  assume q: "queue_ok qs"
  have "sorted_wrt (\<lambda>p q. gate q \<longrightarrow> gate p) (delete_at i qs)"
  proof (cases "i < length qs")
    case True
    then have "sorted_wrt (\<lambda>p q. gate q \<longrightarrow> gate p) (take i qs @ qs ! i # drop (Suc i) qs)"
      using q by (simp add: queue_ok_def id_take_nth_drop [symmetric])
    then show ?thesis by (simp add: delete_at_def sorted_wrt_append)
  next
    case False
    then show ?thesis using q by (simp add: queue_ok_def delete_at_def)
  qed
  with q set_delete_at [of i qs] show ?thesis by (auto simp: queue_ok_def)
qed

lemma queue_ok_filter: "queue_ok qs \<Longrightarrow> queue_ok (filter P qs)"
  by (auto simp: queue_ok_def sorted_wrt_filter)

text \<open>Replacing entries by ones with the same gate keeps the order.\<close>

lemma queue_ok_gates:
  assumes "queue_ok qs" "map gate qs' = map gate qs" "\<forall>q \<in> set qs'. overtaken q \<le> maxOvertakes"
  shows "queue_ok qs'"
proof -
  have "sorted_wrt (\<lambda>a b. b \<longrightarrow> a) (map gate qs)" using assms(1) by (simp add: queue_ok_def sorted_wrt_map)
  then have "sorted_wrt (\<lambda>a b. b \<longrightarrow> a) (map gate qs')" using assms(2) by simp
  then show ?thesis using assms(3) by (simp add: queue_ok_def sorted_wrt_map)
qed

lemma queue_ok_update: "queue_ok qs \<Longrightarrow> i < length qs \<Longrightarrow> same_request (qs ! i) q \<Longrightarrow> queue_ok (qs[i := q])"
proof (rule queue_ok_gates [of qs])
  assume q: "queue_ok qs" "i < length qs" "same_request (qs ! i) q"
  then have "overtaken q \<le> maxOvertakes" by (simp add: same_request_def queue_ok_def)
  then show "\<forall>p \<in> set (qs[i := q]). overtaken p \<le> maxOvertakes"
    using q(1) set_update_subset_insert [of qs i q] by (auto simp: queue_ok_def)
  have "gate q = map gate qs ! i" using q by (simp add: same_request_def)
  then show "map gate (qs[i := q]) = map gate qs" by (simp add: map_update)
qed simp

definition same_heads :: "parked list \<Rightarrow> parked list \<Rightarrow> bool" where
  "same_heads qs qs' \<longleftrightarrow> map gate qs' = map gate qs \<and> map psess qs' = map psess qs \<and> tl qs' = tl qs"

lemma overtake_head_keeps:
  assumes "queue_ok (queue s)" "starved_head s = None \<or> (\<exists>q qs. queue s = q # qs \<and> same_parked q p)"
  shows "queue_ok (queue (overtake_head s p)) \<and> same_heads (queue s) (queue (overtake_head s p)) \<and>
    budget (overtake_head s p) = budget s \<and> conns (overtake_head s p) = conns s \<and> refused (overtake_head s p) = refused s \<and>
    (queue s \<noteq> [] \<and> same_parked (hd (queue s)) p \<longrightarrow> queue (overtake_head s p) = queue s)"
proof (cases "queue s")
  case (Cons q qs)
  show ?thesis
  proof (cases "same_parked q p")
    case False
    then have "overtaken q < maxOvertakes" using assms(2) Cons by (auto simp: starved_head_def split: if_splits)
    then have "queue_ok (q\<lparr>overtaken := Suc (overtaken q)\<rparr> # qs)"
      using assms(1) Cons by (auto simp: queue_ok_def)
    then show ?thesis using Cons False by (simp add: overtake_head_def same_heads_def)
  qed (use assms Cons in \<open>simp add: overtake_head_def same_heads_def\<close>)
qed (simp add: overtake_head_def same_heads_def)

lemma ahead_None: "ahead s p h = None \<Longrightarrow> \<not> h \<Longrightarrow> starved_head s = None"
  by (auto simp: ahead_def split: option.splits if_splits)

lemma find_SomeD: "List.find P xs = Some x \<Longrightarrow> x \<in> set xs \<and> P x"
  by (induction xs) (auto split: if_splits)

lemma ahead_Some_same:
  assumes "ahead s p h = Some q" "same_parked q p"
  shows "\<exists>qs. queue s = q # qs"
proof -
  have "starved_head s = Some q" using assms
    by (auto simp: ahead_def split: option.splits if_splits dest!: find_SomeD)
  then show ?thesis by (auto simp: starved_head_def split: list.splits if_splits)
qed

lemma judge_keeps:
  assumes j: "judge clk s p (ahead s p h) = (s', p', out)" and s: "broker_ok s"
    and p: "map_of (conns s) (psess p) \<noteq> None" and hd: "h \<Longrightarrow> queue s \<noteq> [] \<and> same_parked (hd (queue s)) p"
  shows "broker_ok s' \<and> same_request p p' \<and> same_heads (queue s) (queue s') \<and>
    (\<forall>i. map_of (conns s') i = None \<longleftrightarrow> map_of (conns s) i = None) \<and>
    (queue s \<noteq> [] \<and> same_parked (hd (queue s)) p \<longrightarrow> queue s' = queue s)"
proof -
  have refl: "same_heads qs qs" for qs by (simp add: same_heads_def)
  consider (alone) "(case ahead s p h of None \<Rightarrow> None | Some q \<Rightarrow> if same_parked q p then None else Some q) = None"
    | (behind) q where "(case ahead s p h of None \<Rightarrow> None | Some q \<Rightarrow> if same_parked q p then None else Some q) = Some q"
    by (cases "case ahead s p h of None \<Rightarrow> None | Some q \<Rightarrow> if same_parked q p then None else Some q") auto
  then show ?thesis
  proof cases
    case alone
    obtain s1 p1 out1 where t: "claim_try clk s p = (s1, p1, out1)" by (metis prod_cases3)
    note k = claim_try_keeps [OF t _ p, of "{}"]
    have o: "owned_but {} s" using s by (simp add: broker_ok_def)
    have s1: "broker_ok s1" "queue s1 = queue s" using k o s by (auto simp: broker_ok_def)
    have top: "starved_head s1 = None \<or> (\<exists>q qs. queue s1 = q # qs \<and> same_parked q p)"
    proof (cases "ahead s p h")
      case None
      then show ?thesis using ahead_None [OF None] hd s1(2)
        by (cases h) (auto simp: starved_head_def neq_Nil_conv)
    next
      case (Some q)
      then show ?thesis using alone ahead_Some_same [OF Some] s1(2) by (auto split: if_splits)
    qed
    have q1: "queue_ok (queue s1)" using s1(1) by (simp add: broker_ok_def)
    note oh = overtake_head_keeps [OF q1 top]
    have "broker_ok (overtake_head s1 p)"
    proof -
      have "owned_but {} (overtake_head s1 p)"
        using s1(1) oh owned_same [OF same_claims_conns, of "overtake_head s1 p" s1] by (simp add: broker_ok_def)
      moreover have "psess ` set (queue (overtake_head s1 p)) = psess ` set (queue s1)"
        using oh by (metis same_heads_def list.set_map)
      then have "\<forall>q \<in> set (queue (overtake_head s1 p)). map_of (conns s1) (psess q) \<noteq> None"
        using s1(1) unfolding broker_ok_def by (metis (no_types, lifting) imageE imageI)
      ultimately show ?thesis using oh s1(1) by (simp add: broker_ok_def)
    qed
    then show ?thesis using j t alone s1 k o oh refl
      by (auto simp: judge_def split: outcome.splits)
  next
    case (behind q)
    obtain b cid where b: "assert_claim (clk 4) (budget s) ((claim q)\<lparr>Slots := max (Slots (claim q)) 1\<rparr>) = (b, cid)" by force
    have o: "owned_but {} s" using s by (simp add: broker_ok_def)
    then have wf: "wf_budget (budget s)" by (simp add: owned_but_def)
    note pl = machine.put_law [OF wf b]
    have "owns (s\<lparr>budget := b\<rparr>) = owns s" by (simp add: owns_def fun_eq_iff)
    then have ob: "owned_but {cid} (s\<lparr>budget := b\<rparr>)" using o pl by (auto simp: owned_but_def)
    obtain s1 p1 out1 where t: "claim_try clk (s\<lparr>budget := b\<rparr>) p = (s1, p1, out1)" by (metis prod_cases3)
    have k: "owned_but {cid} s1" "\<forall>i. map_of (conns s1) i = None \<longleftrightarrow> map_of (conns s) i = None"
      "queue s1 = queue s" "same_request p p1" "length (refused s) \<le> refusedKeep \<longrightarrow> length (refused s1) \<le> refusedKeep"
      using claim_try_keeps [OF t ob] p by simp_all
    have res: "s' = s1\<lparr>budget := release (budget s1) cid\<rparr>" "p' = p1"
      using j t b behind by (simp_all add: judge_def with_claim_of_def)
    have "owns (s1\<lparr>budget := release (budget s1) cid\<rparr>) = owns s1" by (simp add: owns_def fun_eq_iff)
    moreover have "wf_budget (budget s1)" using k(1) by (simp add: owned_but_def)
    ultimately have "owned_but {} s'" using k(1) machine.rel_law [of "budget s1" cid] unfolding res
      by (auto simp: owned_but_def)
    then show ?thesis using k s res refl by (simp add: broker_ok_def)
  qed
qed

section \<open>Queueing\<close>

lemma walk_back_passes:
  "walk_back qs p n \<le> n \<and> (\<forall>j. walk_back qs p n \<le> j \<and> j < n \<longrightarrow>
     \<not> gate (qs ! j) \<and> overtaken (qs ! j) < maxOvertakes \<and> job_weight (claim (qs ! j)) < job_weight (claim p))"
proof (induction n)
  case (Suc n)
  then show ?case by (auto simp: Let_def not_le less_Suc_eq)
qed simp

lemma walk_back_stops:
  "walk_back qs p n = Suc k \<Longrightarrow> gate (qs ! k) \<or> overtaken (qs ! k) \<ge> maxOvertakes \<or> job_weight (claim (qs ! k)) \<ge> job_weight (claim p)"
  by (induction n) (auto simp: Let_def split: if_splits)

lemma queue_ok_insert:
  assumes "queue_ok (xs @ ys)" "overtaken p \<le> maxOvertakes"
    and "gate p \<Longrightarrow> \<forall>q \<in> set xs. gate q" "\<not> gate p \<Longrightarrow> \<forall>q \<in> set ys. \<not> gate q"
  shows "queue_ok (xs @ p # ys)"
proof -
  have o: "sorted_wrt (\<lambda>p q. gate q \<longrightarrow> gate p) xs" "sorted_wrt (\<lambda>p q. gate q \<longrightarrow> gate p) ys"
    "\<forall>x \<in> set xs. \<forall>y \<in> set ys. gate y \<longrightarrow> gate x"
    using assms(1) by (simp_all add: queue_ok_def sorted_wrt_append)
  have "\<forall>x \<in> set xs. gate p \<longrightarrow> gate x" using assms(3) by blast
  moreover have "\<forall>y \<in> set ys. gate y \<longrightarrow> gate p" using assms(4) by blast
  ultimately have "sorted_wrt (\<lambda>p q. gate q \<longrightarrow> gate p) (xs @ p # ys)"
    using o unfolding sorted_wrt_append sorted_wrt.simps list.set by blast
  moreover have "\<forall>q \<in> set (xs @ p # ys). overtaken q \<le> maxOvertakes"
  proof -
    have "\<forall>q \<in> set (xs @ ys). overtaken q \<le> maxOvertakes" using assms(1) unfolding queue_ok_def by (rule conjunct1)
    then show ?thesis using assms(2) by simp
  qed
  ultimately show ?thesis unfolding queue_ok_def by blast
qed

lemma queue_ok_enqueue:
  assumes q: "queue_ok qs" and p: "overtaken p \<le> maxOvertakes"
  shows "queue_ok (enqueue qs p)"
proof (cases "gate p")
  case True
  let ?i = "case index_func (\<lambda>q. \<not> gate q) qs of None \<Rightarrow> length qs | Some i \<Rightarrow> i"
  have "\<forall>q \<in> set (take ?i qs). gate q"
  proof (cases "index_func (\<lambda>q. \<not> gate q) qs")
    case None
    then show ?thesis unfolding None using None index_func_None [of "\<lambda>q. \<not> gate q" qs] by simp
  next
    case (Some i)
    then show ?thesis unfolding Some using index_func_Some [OF Some] by simp
  qed
  moreover have "queue_ok (take ?i qs @ drop ?i qs)" using q by (simp only: append_take_drop_id)
  ultimately have "queue_ok (take ?i qs @ p # drop ?i qs)"
    using True by (intro queue_ok_insert [OF _ p]) blast+
  then show ?thesis unfolding enqueue_def insert_at_def if_P [OF True] .
next
  case False
  define i where "i = walk_back qs p (length qs)"
  let ?bump = "\<lambda>q::parked. q\<lparr>overtaken := Suc (overtaken q)\<rparr>"
  note w = walk_back_passes [of qs p "length qs", folded i_def]
  have drop: "\<forall>q \<in> set (drop i qs). \<not> gate q \<and> overtaken q < maxOvertakes"
  proof
    fix q assume "q \<in> set (drop i qs)"
    then obtain k where "k < length qs - i" "q = qs ! (i + k)" by (auto simp: in_set_conv_nth)
    then show "\<not> gate q \<and> overtaken q < maxOvertakes" using w by auto
  qed
  have "queue_ok (take i qs @ map ?bump (drop i qs))"
  proof (rule queue_ok_gates [OF q])
    have "map gate (map ?bump (drop i qs)) = map gate (drop i qs)" by simp
    then have "map gate (take i qs @ map ?bump (drop i qs)) = map gate (take i qs @ drop i qs)"
      unfolding map_append by (rule arg_cong)
    then show "map gate (take i qs @ map ?bump (drop i qs)) = map gate qs" by (simp only: append_take_drop_id)
    show "\<forall>p \<in> set (take i qs @ map ?bump (drop i qs)). overtaken p \<le> maxOvertakes"
    proof -
      have "\<forall>q \<in> set qs. overtaken q \<le> maxOvertakes" using q unfolding queue_ok_def by (rule conjunct1)
      then show ?thesis using drop by (auto dest: in_set_takeD)
    qed
  qed
  then have "queue_ok (take i qs @ p # map ?bump (drop i qs))"
    using p False drop by (intro queue_ok_insert) auto
  moreover have "enqueue qs p = take i qs @ p # map ?bump (drop i qs)"
    using False w by (simp add: enqueue_def Let_def i_def [symmetric] insert_at_def)
  ultimately show ?thesis by simp
qed

lemma psess_enqueue: "psess ` set (enqueue qs p) = insert (psess p) (psess ` set qs)"
proof -
  let ?bump = "\<lambda>q::parked. q\<lparr>overtaken := Suc (overtaken q)\<rparr>"
  have "psess ` set (map ?bump ys) = psess ` set ys" for ys by (simp add: image_image)
  then have "psess ` set (take i qs @ map ?bump (drop i qs)) = psess ` set qs" for i
  proof -
    fix i assume m: "\<And>ys. psess ` set (map ?bump ys) = psess ` set ys"
    have "psess ` set (take i qs @ map ?bump (drop i qs)) = psess ` set (take i qs @ drop i qs)"
      unfolding set_append image_Un m ..
    then show "psess ` set (take i qs @ map ?bump (drop i qs)) = psess ` set qs" by (simp only: append_take_drop_id)
  qed
  then show ?thesis unfolding enqueue_def Let_def
    by (cases "gate p") (simp_all only: if_True if_False simp_thms set_insert_at image_insert)
qed

section \<open>Waking\<close>

lemma broker_ok_queue:
  assumes "broker_ok s" "queue_ok qs" "psess ` set qs \<subseteq> psess ` set (queue s)"
  shows "broker_ok (s\<lparr>queue := qs\<rparr>)"
proof -
  have "owned_but {} (s\<lparr>queue := qs\<rparr>)"
    using assms(1) owned_same [OF same_claims_conns, of "s\<lparr>queue := qs\<rparr>" s] by (simp add: broker_ok_def)
  moreover have "map_of (conns s) (psess q) \<noteq> None" if "q \<in> set qs" for q
  proof -
    have "psess q \<in> psess ` set (queue s)" using assms(3) imageI [OF that] by (rule subsetD)
    then obtain q' where "q' \<in> set (queue s)" "psess q = psess q'" by (rule imageE)
    then show ?thesis using assms(1) by (simp add: broker_ok_def)
  qed
  ultimately show ?thesis using assms(1,2) by (simp add: broker_ok_def)
qed

lemma broker_ok_update:
  assumes s: "broker_ok s" and i: "i < length (queue s)" and q: "same_request (queue s ! i) q"
  shows "broker_ok (s\<lparr>queue := (queue s)[i := q]\<rparr>)"
proof (rule broker_ok_queue [OF s])
  show "queue_ok ((queue s)[i := q])" using s i q by (auto simp: broker_ok_def intro: queue_ok_update)
  have "psess q = psess (queue s ! i)" using q by (simp add: same_request_def)
  then have "psess q \<in> psess ` set (queue s)" using nth_mem [OF i] by simp
  then show "psess ` set ((queue s)[i := q]) \<subseteq> psess ` set (queue s)"
    using set_update_subset_insert [of "queue s" i q] by auto
qed

lemma broker_ok_delete: "broker_ok s \<Longrightarrow> broker_ok (s\<lparr>queue := delete_at i (queue s)\<rparr>)"
  by (rule broker_ok_queue) (simp_all add: broker_ok_def queue_ok_delete set_delete_at image_mono)

declare wake_loop.simps [simp del]

lemma wake_loop_waiting:
  assumes "i < length (queue s)" "judge (clk j) s (queue s ! i) (ahead s (queue s ! i) (i = 0)) = (s1, p1, Waiting)"
  shows "\<exists>p2 out2. same_request p1 p2 \<and>
    wake_loop clk j i s out = wake_loop clk (Suc j) (Suc i) (s1\<lparr>queue := (queue s1)[i := p2]\<rparr>) out2"
proof (cases "sent p1 \<noteq> Some (why p1)")
  case True
  let ?p = "p1\<lparr>sent := Some (why p1), frame_seq := Suc (frame_seq p1)\<rparr>"
  have "same_request p1 ?p" by (simp add: same_request_def)
  then show ?thesis using assms True by (subst wake_loop.simps) (auto simp: Let_def)
next
  case False
  have "same_request p1 p1" by (simp add: same_request_def)
  then show ?thesis using assms False by (subst wake_loop.simps) (auto simp: Let_def)
qed

lemma wake_loop_answered:
  assumes "i < length (queue s)" "judge (clk j) s (queue s ! i) (ahead s (queue s ! i) (i = 0)) = (s1, p1, o1)" "o1 \<noteq> Waiting"
  shows "\<exists>out2. wake_loop clk j i s out = wake_loop clk (Suc j) i (s1\<lparr>queue := delete_at i (queue s1)\<rparr>) out2"
  using assms by (subst wake_loop.simps) (cases o1; auto simp: Let_def)

lemma judged_in_queue:
  assumes s: "broker_ok s" and i: "i < length (queue s)"
    and j: "judge clk s (queue s ! i) (ahead s (queue s ! i) (i = 0)) = (s1, p1, out)"
  shows "broker_ok s1 \<and> length (queue s1) = length (queue s) \<and> same_request (queue s1 ! i) p1 \<and>
    (\<forall>k. map_of (conns s1) k = None \<longleftrightarrow> map_of (conns s) k = None)"
proof -
  let ?p = "queue s ! i"
  have home: "map_of (conns s) (psess ?p) \<noteq> None" using s nth_mem [OF i] by (auto simp: broker_ok_def)
  have hd: "i = 0 \<Longrightarrow> queue s \<noteq> [] \<and> same_parked (hd (queue s)) ?p"
    using i by (cases "queue s") (auto simp: same_parked_def)
  note k = judge_keeps [OF j s home hd]
  have len: "length (queue s1) = length (queue s)" by (rule judge_queue_length [OF j])
  have "queue s1 ! i = ?p"
  proof (cases i)
    case 0
    then show ?thesis using k hd by simp
  next
    case (Suc n)
    then show ?thesis using k i len by (cases "queue s"; cases "queue s1") (auto simp: same_heads_def)
  qed
  then show ?thesis using k len by simp
qed

lemma wake_loop_keeps:
  "wake_loop clk j i s out = (s', out') \<Longrightarrow> broker_ok s \<Longrightarrow>
    broker_ok s' \<and> (\<forall>k. map_of (conns s') k = None \<longleftrightarrow> map_of (conns s) k = None)"
proof (induction "length (queue s) - i" arbitrary: j i s out rule: less_induct)
  case less
  show ?case
  proof (cases "i \<ge> length (queue s)")
    case True
    then show ?thesis using less.prems by (simp add: wake_loop.simps)
  next
    case False
    then have i: "i < length (queue s)" by simp
    let ?p = "queue s ! i"
    obtain s1 p1 o1 where j1: "judge (clk j) s ?p (ahead s ?p (i = 0)) = (s1, p1, o1)" by (metis prod_cases3)
    note k = judged_in_queue [OF less.prems(2) i j1]
    have step: "broker_ok s2 \<Longrightarrow> conns s2 = conns s1 \<Longrightarrow> length (queue s2) - i2 < length (queue s) - i \<Longrightarrow>
        wake_loop clk (Suc j) i2 s2 out2 = (s', out') \<Longrightarrow> ?thesis" for s2 i2 out2
      using less.hyps k by metis
    show ?thesis
    proof (cases "o1 = Waiting")
      case True
      obtain p2 out2 where p2: "same_request p1 p2"
        "wake_loop clk j i s out = wake_loop clk (Suc j) (Suc i) (s1\<lparr>queue := (queue s1)[i := p2]\<rparr>) out2"
        using wake_loop_waiting i j1 True by metis
      have "broker_ok (s1\<lparr>queue := (queue s1)[i := p2]\<rparr>)"
        using k i p2(1) by (intro broker_ok_update) (auto simp: same_request_def)
      moreover have "wake_loop clk (Suc j) (Suc i) (s1\<lparr>queue := (queue s1)[i := p2]\<rparr>) out2 = (s', out')"
        using p2(2) less.prems(1) by simp
      ultimately show ?thesis using k i by (intro step) simp_all
    next
      case False
      then obtain out2 where d: "wake_loop clk j i s out = wake_loop clk (Suc j) i (s1\<lparr>queue := delete_at i (queue s1)\<rparr>) out2"
        using wake_loop_answered i j1 by metis
      have "broker_ok (s1\<lparr>queue := delete_at i (queue s1)\<rparr>)" using k by (auto intro: broker_ok_delete)
      moreover have "wake_loop clk (Suc j) i (s1\<lparr>queue := delete_at i (queue s1)\<rparr>) out2 = (s', out')"
        using d less.prems(1) by simp
      ultimately show ?thesis using k i by (intro step) simp_all
    qed
  qed
qed

end
