(* ===== verification/Broker_Steps.thy ===== *)
theory Broker_Steps
  imports Broker_Queue_Correct
begin

text \<open>
  Every frame the broker answers keeps its invariant, so every state it reaches has it.
\<close>

section \<open>Frames keep the invariant\<close>

lemma broker_ok_same:
  assumes "broker_ok s" "same_claims s s'" "budget s' = budget s" "queue s' = queue s" "length (refused s') \<le> refusedKeep"
  shows "broker_ok s'"
  using assms owned_same [OF assms(2,3)] by (simp add: broker_ok_def same_claims_def)

lemma arm_wake_keeps: "broker_ok s \<Longrightarrow> broker_ok (arm_wake now s)"
  by (rule broker_ok_same) (simp_all add: arm_wake_def same_claims_conns broker_ok_def)

lemma wake_keeps: "broker_ok s \<Longrightarrow> broker_ok (fst (wake now clk s))"
  by (cases "wake_loop clk 0 0 s []") (auto simp: wake_def dest!: wake_loop_keeps intro: arm_wake_keeps)

lemma fst_case_wake: "fst (case wake now clk s of (s', out) \<Rightarrow> (s', f out)) = fst (wake now clk s)"
  by (simp add: case_prod_beta)

lemma overtaken_enqueue: "broker_ok s \<Longrightarrow> overtaken p = 0 \<Longrightarrow> map_of (conns s) (psess p) \<noteq> None \<Longrightarrow>
  broker_ok (s\<lparr>queue := enqueue (queue s) p\<rparr>)"
proof -
  assume s: "broker_ok s" and p: "overtaken p = 0" "map_of (conns s) (psess p) \<noteq> None"
  have "queue_ok (enqueue (queue s) p)" using s p(1) by (intro queue_ok_enqueue) (simp_all add: broker_ok_def)
  moreover have "map_of (conns s) (psess q) \<noteq> None" if "q \<in> set (enqueue (queue s) p)" for q
  proof -
    have "psess q \<in> psess ` set (enqueue (queue s) p)" using that by (rule imageI)
    then have "psess q = psess p \<or> psess q \<in> psess ` set (queue s)" unfolding psess_enqueue by blast
    then show ?thesis
    proof
      assume "psess q \<in> psess ` set (queue s)"
      then obtain q' where "q' \<in> set (queue s)" "psess q = psess q'" by (rule imageE)
      then show ?thesis using s by (simp add: broker_ok_def)
    qed (use p(2) in simp)
  qed
  moreover have "owned_but {} (s\<lparr>queue := enqueue (queue s) p\<rparr>)"
    using s owned_same [OF same_claims_conns, of "s\<lparr>queue := enqueue (queue s) p\<rparr>" s] by (simp add: broker_ok_def)
  ultimately show ?thesis using s by (simp add: broker_ok_def)
qed

lemma park_keeps:
  assumes s: "broker_ok s" and p: "overtaken p = 0" "map_of (conns s) (psess p) \<noteq> None"
  shows "broker_ok (fst (park now clk wclk s p))"
proof (cases "draining s \<or> closing s")
  case True
  then show ?thesis using s by (simp add: park_def)
next
  case False
  define s1 where "s1 = mark_gate now s (psess p) (claim p)"
  define p1 where "p1 = p\<lparr>gate := gate_of s1 (psess p) (claim p) \<noteq> None\<rparr>"
  have sc: "same_claims s s1" unfolding s1_def by (rule mark_gate_same)
  have s1: "broker_ok s1"
    using s sc by (rule broker_ok_same) (use s in \<open>simp_all add: s1_def mark_gate_def broker_ok_def\<close>)
  have p1: "psess p1 = psess p" "overtaken p1 = 0" using p(1) by (simp_all add: p1_def)
  have home: "map_of (conns s1) (psess p1) \<noteq> None" using sc p(2) p1(1) by (simp add: same_claims_def)
  obtain s2 p2 out where j: "judge clk s1 p1 (ahead s1 p1 False) = (s2, p2, out)" by (metis prod_cases3)
  have k: "broker_ok s2" "same_request p1 p2" "map_of (conns s2) (psess p1) \<noteq> None"
    using judge_keeps [OF j s1 home] home by auto
  have def: "park now clk wclk s p = (case judge clk s1 p1 (ahead s1 p1 False) of
      (s2, p2, Waiting) \<Rightarrow>
        let p3 = p2\<lparr>sent := Some (why p2), frame_seq := Suc (frame_seq p2)\<rparr>
        in (arm_wake now (s2\<lparr>queue := enqueue (queue s2) p3\<rparr>), [(psess p, pid p, frame_seq p3, ParkedFrame (why p2))])
    | (s2, p2, Seated r) \<Rightarrow>
        (if queue s2 \<noteq> []
         then case wake now wclk s2 of (s3, out) \<Rightarrow> (s3, (psess p, pid p, 0, r) # out)
         else (s2, [(psess p, pid p, 0, r)]))
    | (s2, p2, Answered r) \<Rightarrow> (s2, [(psess p, pid p, 0, r)]))"
    unfolding park_def if_not_P [OF False] s1_def p1_def Let_def ..
  show ?thesis
  proof (cases out)
    case Waiting
    have "overtaken p2 = 0" "psess p2 = psess p1" using k(2) p1(2) by (simp_all add: same_request_def)
    then show ?thesis using k unfolding def j Waiting
      by (auto simp: Let_def intro!: arm_wake_keeps overtaken_enqueue)
  next
    case (Seated r)
    then show ?thesis using k(1) wake_keeps [OF k(1)] unfolding def j Seated by (simp add: fst_case_wake case_prod_beta)
  next
    case (Answered r)
    then show ?thesis using k(1) unfolding def j Answered by simp
  qed
qed

lemma request_unparked_keeps:
  assumes r: "request_unparked clk s i c = (s2, v)" and o: "owned_but {} s"
  shows "conns s2 = conns s \<and> queue s2 = queue s \<and> refused s2 = refused s \<and> wf_budget (budget s2) \<and>
    (if Granted v then ID v \<notin> claim_ids (budget s) \<and> claim_ids (budget s2) = insert (ID v) (claim_ids (budget s))
     else claim_ids (budget s2) = claim_ids (budget s))"
proof -
  have wf: "wf_budget (budget s)" using o by (simp add: owned_but_def)
  let ?p = "(snd (new_parked s i 0 0 c))\<lparr>gate := gate_of s i c \<noteq> None\<rparr>"
  show ?thesis
  proof (cases "ahead s ?p True")
    case None
    obtain b w where q: "request clk (budget s) c = (b, w)" by force
    then have "v = w" "s2 = s\<lparr>budget := b\<rparr>" using r None by (simp_all add: request_unparked_def Let_def)
    moreover have "ask_budget clk (budget s) c = (b, if Granted w then Some (ID w) else None)"
      using q by (simp add: ask_budget_def)
    ultimately show ?thesis
      using machine.ask_Some [OF wf, of clk c b "ID w"] machine.ask_None [OF wf, of clk c b] wf by (auto split: if_splits)
  next
    case (Some h)
    obtain b1 cid where a: "assert_claim (clk 4) (budget s) ((claim h)\<lparr>Slots := max (Slots (claim h)) 1\<rparr>) = (b1, cid)" by force
    obtain b w where q: "request clk b1 c = (b, w)" by force
    then have "v = w" "s2 = s\<lparr>budget := release b cid\<rparr>"
      using r Some a by (simp_all add: request_unparked_def with_claim_of_def Let_def)
    moreover have "ask_budget clk b1 c = (b, if Granted w then Some (ID w) else None)"
      using q by (simp add: ask_budget_def)
    ultimately show ?thesis
      using machine.ask_behind [OF wf a, of clk c b "if Granted w then Some (ID w) else None"] by (auto split: if_splits)
  qed
qed

lemma noted_claim_ok:
  assumes s: "broker_ok s" and i: "map_of (conns s) i \<noteq> None"
    and b: "wf_budget b" "cid \<notin> claim_ids (budget s)" "claim_ids b = insert cid (claim_ids (budget s))"
  shows "broker_ok (note_claim (s\<lparr>budget := b\<rparr>) i c cid)"
proof -
  have "owned_but {} (note_claim (s\<lparr>budget := b\<rparr>) i c cid)"
    using s by (intro owned_note [OF _ i b]) (simp add: broker_ok_def)
  moreover have "map_of (conns (note_claim (s\<lparr>budget := b\<rparr>) i c cid)) k = None \<longleftrightarrow> map_of (conns s) k = None" for k
    unfolding note_claim_def map_of_upd_session by simp
  ultimately show ?thesis using s by (simp add: broker_ok_def note_claim_def)
qed

lemma claim_reassert_keeps:
  assumes s: "broker_ok s" and i: "map_of (conns s) i \<noteq> None"
  shows "broker_ok (fst (claim_reassert now wclk s i fid c))"
proof -
  obtain s1 w where s1: "seat_run s i c True = (s1, w)" by force
  note k = seat_run_same [OF s1]
  have ok: "broker_ok s1" using s k by (intro broker_ok_same [OF s]) (auto simp: broker_ok_def)
  obtain b cid where a: "assert_claim now (budget s1) c = (b, cid)" by force
  have "wf_budget (budget s1)" using ok by (simp add: broker_ok_def owned_but_def)
  note p = machine.put_law [OF this a]
  have "broker_ok (note_claim (s1\<lparr>budget := b\<rparr>) i c cid)"
    using p i k by (intro noted_claim_ok [OF ok]) (auto simp: same_claims_def)
  then show ?thesis using wake_keeps s1 a by (simp add: claim_reassert_def fst_case_wake case_prod_beta)
qed

lemma claim_once_keeps:
  assumes s: "broker_ok s" and i: "map_of (conns s) i \<noteq> None"
  shows "broker_ok (fst (claim_once now clk wclk s i fid c))"
proof (cases "draining s")
  case False
  obtain s1 w where s1: "seat_run s i c False = (s1, w)" by force
  note k = seat_run_same [OF s1]
  have ok1: "broker_ok s1" using s k by (intro broker_ok_same [OF s]) (auto simp: broker_ok_def)
  show ?thesis
  proof (cases w)
    case (Some wait)
    then show ?thesis using s1 ok1 False by (simp add: claim_once_def)
  next
    case None
    let ?g = "mark_gate now s1 i c"
    have okg: "broker_ok ?g"
      using ok1 mark_gate_same by (rule broker_ok_same) (use ok1 in \<open>simp_all add: mark_gate_def broker_ok_def\<close>)
    have ig: "map_of (conns ?g) i \<noteq> None" using i k mark_gate_same [of s1 now i c] by (simp add: same_claims_def)
    obtain s2 v where r: "request_unparked clk ?g i c = (s2, v)" by force
    have og: "owned_but {} ?g" using okg by (simp add: broker_ok_def)
    note q = request_unparked_keeps [OF r og]
    have led: "broker_ok t \<Longrightarrow> broker_ok (ledger_claimed now t c v)" for t
      by (rule broker_ok_same) (auto simp: same_claims_conns broker_ok_def intro: ledger_claimed_length)
    show ?thesis
    proof (cases "Granted v")
      case True

      have "broker_ok (note_claim s2 i c (ID v))"
      proof -
        have n: "broker_ok (note_claim (?g\<lparr>budget := budget s2\<rparr>) i c (ID v))"
          using q True by (intro noted_claim_ok [OF okg ig]) auto
        show ?thesis
        proof (rule broker_ok_same [OF n])
          have "conns s2 = conns ?g" using q by blast
          then show "same_claims (note_claim (?g\<lparr>budget := budget s2\<rparr>) i c (ID v)) (note_claim s2 i c (ID v))"
            by (intro same_claims_conns) (simp add: note_claim_def upd_session_def)
        qed (use q n in \<open>simp_all add: note_claim_def broker_ok_def\<close>)
      qed
      from wake_keeps [OF led [OF this]] show ?thesis using False None s1 r True
        by (simp add: claim_once_def Let_def fst_case_wake case_prod_beta)
    next
      case False
      have "owns s2 = owns ?g" using q by (simp add: owns_def fun_eq_iff)
      then have "owned_but {} s2" using q og False unfolding owned_but_def by simp
      then have "broker_ok s2" using okg q by (simp add: broker_ok_def)
      from led [OF this] show ?thesis using \<open>\<not> draining s\<close> None s1 r False
        by (simp add: claim_once_def Let_def)
    qed
  qed
qed (use s in \<open>simp add: claim_once_def\<close>)

lemma drop_parked_keeps: "broker_ok s \<Longrightarrow> broker_ok (drop_parked s i)"
  unfolding drop_parked_def by (rule broker_ok_queue) (auto simp: broker_ok_def queue_ok_filter)

lemma cancel_keeps: "broker_ok s \<Longrightarrow> broker_ok (fst (cancel_frame now wclk s i fid))"
  using broker_ok_delete wake_keeps
  by (auto simp: cancel_frame_def fst_case_wake case_prod_beta split: option.split)

lemma refuse_parked_keeps: "broker_ok s \<Longrightarrow> broker_ok (fst (refuse_parked s))"
  using broker_ok_queue [of s "[]"] by (auto simp: refuse_parked_def intro: arm_wake_keeps)

lemma start_drain_keeps: "broker_ok s \<Longrightarrow> broker_ok (fst (start_drain s))"
  unfolding start_drain_def
  by (rule refuse_parked_keeps, rule broker_ok_same) (auto simp: same_claims_conns broker_ok_def)

lemma overrun_keeps: "broker_ok s \<Longrightarrow> broker_ok (overrun_frame s i cid)"
proof -
  assume s: "broker_ok s"
  have "claim_ids (mark_overrun b cid) = claim_ids b" for b
  proof -
    have "set (map fst (AList.map_entry cid (\<lambda>e. e\<lparr>overrun := True\<rparr>) (claims b))) = set (map fst (claims b))"
      by (simp only: map_entry_sets(1))
    then show ?thesis by (simp add: claim_ids_def mark_overrun_def)
  qed
  moreover have "owns (s\<lparr>budget := mark_overrun (budget s) cid\<rparr>) = owns s" by (simp add: owns_def fun_eq_iff)
  moreover have "owned_but {} s" using s by (simp add: broker_ok_def)
  ultimately have "owned_but {} (s\<lparr>budget := mark_overrun (budget s) cid\<rparr>)"
    unfolding owned_but_def using wf_mark_overrun [of "budget s" cid] by simp
  then show ?thesis using s by (simp add: overrun_frame_def broker_ok_def)
qed

lemma owns_delete_claim:
  "owns (upd_session s i (\<lambda>x. x\<lparr>sess_claims := AList.delete cid (sess_claims x)\<rparr>)) = (owns s)(i := owns s i - {cid})"
  by (auto simp: fun_eq_iff owns_def map_of_upd_session AList.delete_eq split: option.splits)

lemma session_holds_iff: "session_holds s i cid \<longleftrightarrow> cid \<in> owns s i"
  by (auto simp: session_holds_def owns_def map_of_eq_None_iff split: option.splits)
     (metis domI domIff dom_map_of_conv_image_fst fst_conv imageI option.exhaust)+

lemma release_frame_keeps:
  assumes s: "broker_ok s"
  shows "broker_ok (fst (release_frame now wclk s i cid))"
proof -
  define s1 where "s1 = upd_session s i (\<lambda>x. x\<lparr>sess_claims := AList.delete cid (sess_claims x)\<rparr>)"
  have o: "owned_but {} s" using s by (simp add: broker_ok_def)
  have ow: "owns s1 = (owns s)(i := owns s i - {cid})" unfolding s1_def by (rule owns_delete_claim)
  have dom: "map_of (conns s1) k = None \<longleftrightarrow> map_of (conns s) k = None" for k
    unfolding s1_def map_of_upd_session by simp
  have rest: "queue s1 = queue s" "refused s1 = refused s" "budget s1 = budget s" by (simp_all add: s1_def)
  show ?thesis
  proof (cases "session_holds s i cid")
    case True
    then have mine: "cid \<in> owns s i" by (simp add: session_holds_iff)
    have others: "cid \<notin> owns s j" if "j \<noteq> i" for j using o mine that by (auto simp: owned_but_def)
    let ?s2 = "s1\<lparr>budget := release (budget s1) cid\<rparr>"
    have wf: "wf_budget (budget s1)" using o rest by (simp add: owned_but_def)
    have "owns ?s2 = (owns s)(i := owns s i - {cid})" using ow by (simp add: owns_def fun_eq_iff)
    moreover have "(\<Union>j. ((owns s)(i := owns s i - {cid})) j) = (\<Union>j. owns s j) - {cid}"
    proof (intro set_eqI iffI)
      fix x assume "x \<in> (\<Union>j. owns s j) - {cid}"
      then obtain j where "x \<in> owns s j" "x \<noteq> cid" by blast
      then have "x \<in> ((owns s)(i := owns s i - {cid})) j" by (cases "j = i") simp_all
      then show "x \<in> (\<Union>j. ((owns s)(i := owns s i - {cid})) j)" by blast
    qed (use others in \<open>auto split: if_splits\<close>)
    ultimately have "owned_but {} ?s2"
      using o machine.rel_law [OF wf, of cid] rest(3) unfolding owned_but_def by (simp add: Diff_Int_distrib2) blast
    then have "broker_ok ?s2" using s dom rest by (simp add: broker_ok_def)
    from wake_keeps [OF this] show ?thesis using True by (simp add: release_frame_def Let_def s1_def)
  next
    case False
    then have "owns s1 = owns s" using ow by (simp add: session_holds_iff)
    then have "broker_ok s1" using s dom rest by (intro broker_ok_same [OF s]) (simp_all add: same_claims_def broker_ok_def)
    then show ?thesis using False by (simp add: release_frame_def Let_def s1_def)
  qed
qed

lemma forget_keeps:
  assumes s: "broker_ok s"
  shows "broker_ok (fst (forget now wclk s i))"
proof (cases "map_of (conns s) i")
  case (Some sess)
  define s0 where "s0 = unseat (s\<lparr>conns := AList.delete i (conns s)\<rparr>) sess"
  define s2 where "s2 = (drop_parked s0 i)\<lparr>budget := foldl release (budget s) (map fst (sess_claims sess))\<rparr>"
  have s0: "conns s0 = AList.delete i (conns s)" "budget s0 = budget s" "queue s0 = queue s" "refused s0 = refused s"
    by (simp_all add: s0_def unseat_def Let_def split: option.split)
  have mine: "owns s i = set (map fst (sess_claims sess))" using Some by (simp add: owns_def)
  have o: "owned_but {} s" using s by (simp add: broker_ok_def)
  have conn: "map_of (conns s2) = (map_of (conns s))(i := None)"
    using s0 by (simp add: s2_def drop_parked_def delete_conv')
  have ow: "owns s2 = (owns s)(i := {})" by (auto simp: fun_eq_iff owns_def conn)
  have wf: "wf_budget (budget s)" using o by (simp add: owned_but_def)
  have un: "(\<Union>j. ((owns s)(i := {})) j) = (\<Union>j. owns s j) - owns s i"
    using o by (auto simp: owned_but_def split: if_splits)
  have b2: "budget s2 = foldl release (budget s) (map fst (sess_claims sess))" by (simp add: s2_def)
  have rel: "wf_budget (budget s2)" "claim_ids (budget s2) = claim_ids (budget s) - owns s i"
    unfolding b2 mine using machine.rel_all [OF wf] by blast+
  have "owned_but {} s2"
    using o rel unfolding owned_but_def ow un by auto
  moreover have "queue_ok (queue s2)" using s s0 by (simp add: s2_def drop_parked_def broker_ok_def queue_ok_filter)
  moreover have "map_of (conns s2) (psess q) \<noteq> None" if "q \<in> set (queue s2)" for q
    using that s s0 unfolding conn by (auto simp: s2_def drop_parked_def broker_ok_def)
  moreover have "refused s2 = refused s" using s0 by (simp add: s2_def drop_parked_def)
  ultimately have "broker_ok s2" using s by (simp add: broker_ok_def)
  moreover have "fst (forget now wclk s i) = fst (wake now wclk s2)"
    using Some s0 by (simp add: forget_def Let_def s2_def s0_def [symmetric] drop_parked_def)
  ultimately show ?thesis using wake_keeps by simp
qed (use s in \<open>simp add: forget_def\<close>)

lemma connect_keeps:
  assumes s: "broker_ok s"
  shows "broker_ok (connect s i h)"
proof (cases "map_of (conns s) i")
  case None
  let ?s = "connect s i h"
  have m: "map_of (conns ?s) k = (if k = i then Some \<lparr>sess_hello = h, sess_claims = [], seat = '''', gateAsked = None, gateRun = ''''\<rparr> else map_of (conns s) k)" for k
    using None by (auto simp: connect_def map_add_def split: option.split)
  have "owns ?s = owns s" using None by (auto simp: fun_eq_iff owns_def m)
  moreover have "budget ?s = budget s" "queue ?s = queue s" "refused ?s = refused s" by (simp_all add: connect_def)
  ultimately show ?thesis using s unfolding broker_ok_def owned_but_def by (auto simp: m)
qed (use s in \<open>simp add: connect_def\<close>)

section \<open>Reachable brokers\<close>

inductive broker_step :: "server \<Rightarrow> server \<Rightarrow> bool" where
  connected: "broker_step s (connect s i h)"
| parks: "map_of (conns s) i \<noteq> None \<Longrightarrow> new_parked s i fid t c = (s1, p) \<Longrightarrow>
    broker_step s (fst (park now clk wclk s1 p))"
| claims_once: "map_of (conns s) i \<noteq> None \<Longrightarrow> broker_step s (fst (claim_once now clk wclk s i fid c))"
| reasserts: "map_of (conns s) i \<noteq> None \<Longrightarrow> broker_step s (fst (claim_reassert now wclk s i fid c))"
| cancels: "broker_step s (fst (cancel_frame now wclk s i fid))"
| releases: "broker_step s (fst (release_frame now wclk s i cid))"
| overruns: "broker_step s (overrun_frame s i cid)"
| wakes: "broker_step s (fst (wake now wclk s))"
| drains: "broker_step s (fst (start_drain s))"
| closes: "broker_step s (fst (forget now wclk s i))"

lemma broker_step_keeps: "broker_step s s' \<Longrightarrow> broker_ok s \<Longrightarrow> broker_ok s'"
proof (induction rule: broker_step.induct)
  case (parks s i fid t c s1 p now clk wclk)
  have "broker_ok s1" using parks.prems
    by (rule broker_ok_same) (use parks in \<open>auto simp: new_parked_def same_claims_conns broker_ok_def\<close>)
  then show ?case using parks.hyps by (intro park_keeps) (auto simp: new_parked_def)
qed (simp_all add: connect_keeps claim_once_keeps claim_reassert_keeps cancel_keeps release_frame_keeps
    overrun_keeps wake_keeps start_drain_keeps forget_keeps)

lemma new_server_ok: "broker_ok (new_server mb n)"
  by (simp add: broker_ok_def owned_but_def new_server_def wf_new_machine_budget claim_ids_def owns_def)
     (simp add: new_machine_budget_def)

lemma reachable_broker_ok: "broker_step\<^sup>*\<^sup>* (new_server mb n) s \<Longrightarrow> broker_ok s"
  by (induction rule: rtranclp_induct) (auto intro: new_server_ok broker_step_keeps)

end
