(* ===== verification/Broker_Fairness.thy ===== *)
theory Broker_Fairness
  imports Broker_Steps "HOL-Library.Sublist"
begin

text \<open>
  Overtaking, counted over whole runs of the broker instead of read off the counter it keeps.
  A run is the list of the states it went through, the newest first. A request is overtaken
  by each later request that stands before it in the queue, in some state of the run. Every
  frame either keeps the queue (entries leave, none moves, no counter falls) or parks one new
  request behind those it may not pass, which raises the counters of the ones it passes; so
  the counter bounds the overtakings.
\<close>

section \<open>Runs and overtakings\<close>

inductive broker_run :: "int \<Rightarrow> int \<Rightarrow> server list \<Rightarrow> bool" for mb n where
  fresh: "broker_run mb n [new_server mb n]"
| next_step: "broker_run mb n (s # ss) \<Longrightarrow> broker_step s s' \<Longrightarrow> broker_run mb n (s' # s # ss)"

definition before :: "parked list \<Rightarrow> nat \<Rightarrow> parked list" where
  "before qs k = (if k \<in> pkey ` set qs then takeWhile (\<lambda>q. pkey q \<noteq> k) qs else [])"

text \<open>Keys are given in the order of arrival. Gates go first by rule and are not counted.\<close>

definition passers :: "parked list \<Rightarrow> nat \<Rightarrow> nat set" where
  "passers qs k = pkey ` set (filter (\<lambda>q. \<not> gate q \<and> k < pkey q) (before qs k))"

definition overtakers :: "server list \<Rightarrow> nat \<Rightarrow> nat set" where
  "overtakers ss k = (\<Union>s \<in> set ss. passers (queue s) k)"

lemma broker_run_reaches: "broker_run mb n (s # ss) \<Longrightarrow> broker_step\<^sup>*\<^sup>* (new_server mb n) s"
proof -
  have "broker_run mb n ts \<Longrightarrow> broker_step\<^sup>*\<^sup>* (new_server mb n) (hd ts)" for ts
    by (induction rule: broker_run.induct) auto
  then show "broker_run mb n (s # ss) \<Longrightarrow> broker_step\<^sup>*\<^sup>* (new_server mb n) s" by fastforce
qed

lemma finite_overtakers: "finite (overtakers ss k)"
  by (simp add: overtakers_def passers_def)

lemma overtakers_Cons: "overtakers (s # ss) k = passers (queue s) k \<union> overtakers ss k"
  by (simp add: overtakers_def)

section \<open>Queues that only lose entries\<close>

definition later :: "parked \<Rightarrow> parked \<Rightarrow> bool" where
  "later q p \<longleftrightarrow> pkey q = pkey p \<and> gate q = gate p \<and> overtaken p \<le> overtaken q"

definition kept :: "parked list \<Rightarrow> parked list \<Rightarrow> bool" where
  "kept qs qs' \<longleftrightarrow> list_emb later qs' qs"

lemma later_refl [simp]: "later q q"
  by (simp add: later_def)

lemma kept_refl [simp]: "kept qs qs"
  by (simp add: kept_def list_emb_refl)

lemma kept_trans: "kept qs qs' \<Longrightarrow> kept qs' qs'' \<Longrightarrow> kept qs qs''"
  unfolding kept_def by (rule list_emb_trans) (auto simp: later_def)

lemma kept_same: "list_all2 later qs' qs \<Longrightarrow> kept qs qs'"
  unfolding kept_def by (induction rule: list_all2_induct) auto

lemma kept_subseq: "subseq qs' qs \<Longrightarrow> kept qs qs'"
  unfolding kept_def by (erule list_emb_mono [rule_format, rotated]) simp

lemma kept_update: "i < length qs \<Longrightarrow> later q (qs ! i) \<Longrightarrow> kept qs (qs[i := q])"
  by (intro kept_same) (auto simp: list_all2_conv_all_nth nth_list_update)

lemma kept_delete: "kept qs (delete_at i qs)"
proof -
  have "subseq (take i qs @ drop (Suc i) qs) (take i qs @ drop i qs)"
    by (intro list_emb_append_mono) (simp_all add: drop_Suc drop_tl suffix_imp_subseq)
  then show ?thesis by (intro kept_subseq) (simp add: delete_at_def)
qed

lemma kept_filter: "kept qs (filter P qs)"
  by (rule kept_subseq) simp

lemma kept_keys:
  assumes "kept qs qs'"
  shows "pkey ` set qs' \<subseteq> pkey ` set qs \<and> (distinct (map pkey qs) \<longrightarrow> distinct (map pkey qs'))"
  using assms unfolding kept_def by (induction rule: list_emb.induct) (auto simp: later_def)

lemma kept_entry:
  assumes "kept qs qs'" "q \<in> set qs'" "p \<in> set qs" "pkey p = pkey q" "distinct (map pkey qs)"
  shows "later q p"
proof -
  obtain r where r: "r \<in> set qs" "later q r"
    using assms(1,2) unfolding kept_def by (rule list_emb_set)
  then have "r = p" using assms(3-5) by (metis later_def distinct_map inj_onD)
  with r show ?thesis by simp
qed

lemma before_split:
  assumes "distinct (map pkey qs)" "qs = xs @ p # ys"
  shows "before qs (pkey p) = xs"
proof -
  have "takeWhile (\<lambda>q. pkey q \<noteq> pkey p) qs = xs"
    unfolding assms(2) using assms by (subst takeWhile_append2) (auto, metis imageI)
  then show ?thesis using assms(2) by (simp add: before_def)
qed

lemma before_none: "k \<notin> pkey ` set qs \<Longrightarrow> passers qs k = {}"
  by (simp add: passers_def before_def)

lemma passers_split:
  "distinct (map pkey qs) \<Longrightarrow> qs = xs @ p # ys \<Longrightarrow>
    passers qs (pkey p) = pkey ` {q \<in> set xs. \<not> gate q \<and> pkey p < pkey q}"
  using before_split [of qs xs p ys] by (simp add: passers_def)

lemma kept_passers:
  assumes k: "kept qs qs'" and d: "distinct (map pkey qs)"
  shows "passers qs' k \<subseteq> passers qs k"
proof (cases "k \<in> pkey ` set qs'")
  case True
  then obtain p where p: "p \<in> set qs'" "pkey p = k" by auto
  obtain xs ys where qs': "qs' = xs @ p # ys" using split_list [OF p(1)] by blast
  obtain us vs where s1: "qs = us @ vs" "list_emb later xs us" "list_emb later (p # ys) vs"
    using k list_emb_appendD unfolding kept_def qs' by blast
  obtain ws p0 zs where s2: "vs = ws @ p0 # zs" "later p p0"
    using list_emb_ConsD [OF s1(3)] by blast
  have qs: "qs = (us @ ws) @ p0 # zs" using s1(1) s2(1) by simp
  have key: "pkey p0 = k" using s2(2) p(2) by (simp add: later_def)
  have d': "distinct (map pkey qs')" using kept_keys [OF k] d by blast
  have "pkey ` {q \<in> set xs. \<not> gate q \<and> k < pkey q} \<subseteq> pkey ` {q \<in> set (us @ ws). \<not> gate q \<and> k < pkey q}"
  proof
    fix x assume "x \<in> pkey ` {q \<in> set xs. \<not> gate q \<and> k < pkey q}"
    then obtain q where q: "q \<in> set xs" "\<not> gate q" "k < pkey q" "x = pkey q" by blast
    obtain r where "r \<in> set us" "later q r" using s1(2) q(1) by (rule list_emb_set)
    then show "x \<in> pkey ` {q \<in> set (us @ ws). \<not> gate q \<and> k < pkey q}"
      using q(2-4) by (intro image_eqI [of _ _ r]) (auto simp: later_def)
  qed
  then show ?thesis
    using passers_split [OF d' qs'] passers_split [OF d qs] p(2) key by simp
qed (simp add: before_none)


section \<open>A request that joins\<close>

definition bumped :: "parked \<Rightarrow> parked" where
  "bumped q = q\<lparr>overtaken := Suc (overtaken q)\<rparr>"

text \<open>
  A parked request goes behind every request it may not pass: walking from the back,
  it passes only requests that are no gate, weigh less and were not yet overtaken four
  times, and each of those counts one overtaking more; a gate goes right behind the gates.
\<close>

lemma enqueue_passes_only_lighter:
  "\<exists>front back. qs = front @ back \<and>
    enqueue qs p = front @ p # (if gate p then back else map bumped back) \<and>
    (if gate p then (\<forall>q \<in> set front. gate q) \<and> (back \<noteq> [] \<longrightarrow> \<not> gate (hd back))
     else (\<forall>q \<in> set back. \<not> gate q \<and> overtaken q < 4 \<and> job_weight (claim q) < job_weight (claim p)) \<and>
       (front \<noteq> [] \<longrightarrow> gate (last front) \<or> overtaken (last front) \<ge> 4 \<or> job_weight (claim (last front)) \<ge> job_weight (claim p)))"
proof (cases "gate p")
  case True
  define i where "i = (case index_func (\<lambda>q. \<not> gate q) qs of None \<Rightarrow> length qs | Some i \<Rightarrow> i)"
  have "enqueue qs p = take i qs @ p # drop i qs" using True by (simp add: enqueue_def i_def insert_at_def)
  moreover have "(\<forall>q \<in> set (take i qs). gate q) \<and> (drop i qs \<noteq> [] \<longrightarrow> \<not> gate (hd (drop i qs)))"
  proof (cases "index_func (\<lambda>q. \<not> gate q) qs")
    case None
    then show ?thesis using index_func_None [of "\<lambda>q. \<not> gate q" qs] by (simp add: i_def)
  next
    case (Some k)
    then show ?thesis using index_func_Some [OF Some] by (simp add: i_def hd_drop_conv_nth)
  qed
  ultimately show ?thesis using True by (intro exI [of _ "take i qs"] exI [of _ "drop i qs"]) simp
next
  case False
  define i where "i = walk_back qs p (length qs)"
  note w = walk_back_passes [of qs p "length qs", folded i_def]
  have "enqueue qs p = take i qs @ p # map bumped (drop i qs)"
    using False w by (simp add: enqueue_def Let_def i_def [symmetric] insert_at_def bumped_def [abs_def])
  moreover have "\<forall>q \<in> set (drop i qs). \<not> gate q \<and> overtaken q < 4 \<and> job_weight (claim q) < job_weight (claim p)"
  proof
    fix q assume "q \<in> set (drop i qs)"
    then obtain k where "k < length qs - i" "q = qs ! (i + k)" by (auto simp: in_set_conv_nth)
    then show "\<not> gate q \<and> overtaken q < 4 \<and> job_weight (claim q) < job_weight (claim p)"
      using w by (auto simp: maxOvertakes_def)
  qed
  moreover have "take i qs \<noteq> [] \<longrightarrow> gate (last (take i qs)) \<or> overtaken (last (take i qs)) \<ge> 4 \<or>
      job_weight (claim (last (take i qs))) \<ge> job_weight (claim p)"
  proof
    assume "take i qs \<noteq> []"
    then obtain k where k: "i = Suc k" "k < length qs" using w by (cases i) auto
    then have "last (take i qs) = qs ! k" by (simp add: take_Suc_conv_app_nth)
    then show "gate (last (take i qs)) \<or> overtaken (last (take i qs)) \<ge> 4 \<or>
        job_weight (claim (last (take i qs))) \<ge> job_weight (claim p)"
      using walk_back_stops [of qs p "length qs" k] k(1) by (simp add: i_def maxOvertakes_def)
  qed
  ultimately show ?thesis using False by (intro exI [of _ "take i qs"] exI [of _ "drop i qs"]) simp
qed

lemma enqueue_shape:
  "\<exists>fore behind. qs = fore @ behind \<and> enqueue qs p = fore @ p # (if gate p then behind else map bumped behind)"
  using enqueue_passes_only_lighter [of qs p] by blast

lemma enqueue_keys: "pkey ` set (enqueue qs p) = insert (pkey p) (pkey ` set qs)"
  "distinct (map pkey (enqueue qs p)) \<longleftrightarrow> pkey p \<notin> pkey ` set qs \<and> distinct (map pkey qs)"
proof -
  obtain fore behind where f: "qs = fore @ behind"
    "enqueue qs p = fore @ p # (if gate p then behind else map bumped behind)"
    using enqueue_shape by blast
  have "map pkey (map bumped behind) = map pkey behind" by (simp add: bumped_def)
  then have m: "map pkey (enqueue qs p) = map pkey fore @ pkey p # map pkey behind" using f by auto
  have "pkey ` set (enqueue qs p) = set (map pkey (enqueue qs p))" by (simp only: set_map)
  also have "\<dots> = insert (pkey p) (pkey ` set qs)" unfolding m using f(1) by auto
  finally show "pkey ` set (enqueue qs p) = insert (pkey p) (pkey ` set qs)" .
  show "distinct (map pkey (enqueue qs p)) \<longleftrightarrow> pkey p \<notin> pkey ` set qs \<and> distinct (map pkey qs)"
    unfolding m using f(1) by auto
qed

text \<open>Every entry but the newcomer was there; one that is passed anew counts one more.\<close>

lemma enqueue_passers:
  assumes d: "distinct (map pkey qs)" and new: "\<forall>q \<in> set qs. pkey q < pkey p"
    and q: "q \<in> set (enqueue qs p)"
  shows "if pkey q = pkey p then q = p \<and> passers (enqueue qs p) (pkey q) = {}
    else \<exists>q0 \<in> set qs. pkey q0 = pkey q \<and> gate q0 = gate q \<and> overtaken q0 \<le> overtaken q \<and>
      (passers (enqueue qs p) (pkey q) \<subseteq> passers qs (pkey q) \<or>
       passers (enqueue qs p) (pkey q) \<subseteq> insert (pkey p) (passers qs (pkey q)) \<and> overtaken q = Suc (overtaken q0))"
proof -
  obtain fore behind where f: "qs = fore @ behind"
    "enqueue qs p = fore @ p # (if gate p then behind else map bumped behind)"
    using enqueue_shape by blast
  have fresh: "pkey p \<notin> pkey ` set qs" using new by auto
  have old: "pkey r \<noteq> pkey p" if "r \<in> set qs" for r using new that by auto
  have d': "distinct (map pkey (enqueue qs p))" using d fresh enqueue_keys(2) by blast
  consider (new) "q = p" | (fore) "q \<in> set fore"
    | (behind) "gate p" "q \<in> set behind" | (passed) q0 where "\<not> gate p" "q0 \<in> set behind" "q = bumped q0"
    using q unfolding f(2) by (auto split: if_splits)
  then show ?thesis
  proof cases
    case new
    have "{r \<in> set fore. \<not> gate r \<and> pkey p < pkey r} = {}"
      using assms(2) unfolding f(1) by (auto dest: less_asym)
    then show ?thesis using passers_split [OF d' f(2)] new by simp
  next
    case fore
    then obtain xs ys where x: "fore = xs @ q # ys" by (meson split_list)
    have "pkey q \<noteq> pkey p" using old [of q] fore f(1) by auto
    moreover have "passers (enqueue qs p) (pkey q) = passers qs (pkey q)"
      using passers_split [OF d', of xs q] passers_split [OF d, of xs q] f x by simp
    ultimately show ?thesis using fore f(1) by auto
  next
    case behind
    then obtain xs ys where x: "behind = xs @ q # ys" by (meson split_list)
    have "pkey q \<noteq> pkey p" using old [of q] behind f(1) by auto
    moreover have "passers (enqueue qs p) (pkey q) = passers qs (pkey q)"
      using passers_split [OF d', of "fore @ p # xs" q ys] passers_split [OF d, of "fore @ xs" q ys] f x behind(1) by auto
    ultimately show ?thesis using behind f(1) by auto
  next
    case passed
    then obtain xs ys where x: "behind = xs @ q0 # ys" by (meson split_list)
    have key: "pkey q = pkey q0" "gate q = gate q0" "overtaken q = Suc (overtaken q0)" using passed(3) by (simp_all add: bumped_def)
    have "pkey q \<noteq> pkey p" using old [of q0] passed(2) f(1) key(1) by auto
    moreover have "passers (enqueue qs p) (pkey q) \<subseteq> insert (pkey p) (passers qs (pkey q))"
    proof -
      have "enqueue qs p = (fore @ p # map bumped xs) @ q # map bumped ys" using f x passed by simp
      from passers_split [OF d' this] have e: "passers (enqueue qs p) (pkey q) =
          pkey ` {r \<in> set (fore @ p # map bumped xs). \<not> gate r \<and> pkey q < pkey r}" .
      have o: "passers qs (pkey q) = pkey ` {r \<in> set (fore @ xs). \<not> gate r \<and> pkey q < pkey r}"
        using passers_split [OF d, of "fore @ xs" q0 ys] f x key(1) by simp
      show ?thesis unfolding e o by (auto simp: bumped_def)
    qed
    ultimately show ?thesis using passed(2) f(1) key by auto
  qed
qed


section \<open>What a frame does to the queue\<close>

text \<open>Most operations lose entries at the most, and hand out no key.\<close>

definition loses :: "server \<Rightarrow> server \<Rightarrow> bool" where
  "loses s s' \<longleftrightarrow> kept (queue s) (queue s') \<and> next_key s' = next_key s"

lemma loses_refl [simp]: "loses s s"
  by (simp add: loses_def)

lemma loses_trans: "loses s s' \<Longrightarrow> loses s' s'' \<Longrightarrow> loses s s''"
  unfolding loses_def using kept_trans by auto

lemma loses_same: "queue s' = queue s \<Longrightarrow> next_key s' = next_key s \<Longrightarrow> loses s s'"
  by (simp add: loses_def)

lemma upd_session_key [simp]: "next_key (upd_session s i f) = next_key s"
  by (simp add: upd_session_def)

lemma seat_run_loses: "seat_run s i c f = (s1, w) \<Longrightarrow> queue s1 = queue s \<and> next_key s1 = next_key s"
  by (auto simp: seat_run_def Let_def split: option.splits if_splits)

lemma claim_try_loses: "claim_try clk s p = (s', p', out) \<Longrightarrow> queue s' = queue s \<and> next_key s' = next_key s"
  by (auto simp: claim_try_def Let_def note_claim_def ledger_claimed_def dest: seat_run_loses
      split: prod.splits option.splits if_splits)

lemma overtake_head_loses: "loses s (overtake_head s p)"
proof (cases "queue s")
  case (Cons q qs)
  have "later (q\<lparr>overtaken := Suc (overtaken q)\<rparr>) q" by (simp add: later_def)
  then show ?thesis using Cons list_emb_refl [of qs later]
    by (simp add: overtake_head_def loses_def kept_def)
qed (simp add: overtake_head_def)

lemma claim_try_request: "claim_try clk s p = (s', p', out) \<Longrightarrow> same_request p p'"
  by (auto simp: claim_try_def Let_def same_request_def split: prod.splits option.splits if_splits)

lemma judge_loses:
  assumes "judge clk s p h = (s', p', out)"
  shows "loses s s' \<and> same_request p p' \<and> length (queue s') = length (queue s) \<and>
    (\<forall>i. i < length (queue s) \<longrightarrow> later (queue s' ! i) (queue s ! i)) \<and>
    (queue s \<noteq> [] \<and> same_parked (hd (queue s)) p \<longrightarrow> queue s' = queue s) \<and> tl (queue s') = tl (queue s)"
proof -
  obtain t q1 o1 where a: "claim_try clk s p = (t, q1, o1)" by (metis prod_cases3)
  have step: ?thesis if "s' = t \<or> s' = overtake_head t p" "p' = q1"
    using that claim_try_loses [OF a] claim_try_request [OF a]
    by (cases "queue s")
       (auto simp: overtake_head_def loses_def kept_def list_emb_refl later_def nth_Cons split: nat.split if_splits)
  show ?thesis
  proof (cases "case h of None \<Rightarrow> None | Some q \<Rightarrow> if same_parked q p then None else Some q")
    case None
    then show ?thesis using assms a step by (auto simp: judge_def split: outcome.splits)
  next
    case (Some q)
    obtain b cid where b: "assert_claim (clk 4) (budget s) ((claim q)\<lparr>Slots := max (Slots (claim q)) 1\<rparr>) = (b, cid)" by force
    obtain u q2 o2 where c: "claim_try clk (s\<lparr>budget := b\<rparr>) p = (u, q2, o2)" by (metis prod_cases3)
    have "s' = u\<lparr>budget := release (budget u) cid\<rparr>" "p' = q2"
      using assms Some b c by (simp_all add: judge_def with_claim_of_def)
    then show ?thesis using claim_try_loses [OF c] claim_try_request [OF c] by (simp add: loses_same)
  qed
qed

lemma wake_loop_loses: "wake_loop clk j i s out = (s', out') \<Longrightarrow> loses s s'"
proof (induction "length (queue s) - i" arbitrary: j i s out rule: less_induct)
  case less
  show ?case
  proof (cases "i \<ge> length (queue s)")
    case True
    then show ?thesis using less.prems by (simp add: wake_loop.simps)
  next
    case False
    then have i: "i < length (queue s)" by simp
    let ?p = "queue s ! i"
    obtain s1 p1 o1 where j1: "judge (clk j) s ?p (ahead s ?p (i = 0)) = (s1, p1, o1)" by (metis prod_cases3)
    note k = judge_loses [OF j1]
    show ?thesis
    proof (cases "o1 = Waiting")
      case True
      obtain p2 out2 where p2: "same_request p1 p2"
        "wake_loop clk j i s out = wake_loop clk (Suc j) (Suc i) (s1\<lparr>queue := (queue s1)[i := p2]\<rparr>) out2"
        using wake_loop_waiting i j1 True by metis
      have "queue s1 ! i = ?p"
      proof (cases i)
        case 0
        then show ?thesis using k i by (cases "queue s") (auto simp: same_parked_def)
      next
        case (Suc n)
        then show ?thesis using k i by (cases "queue s"; cases "queue s1") auto
      qed
      then have "later p2 (queue s1 ! i)" using k p2(1) by (simp add: later_def same_request_def)
      then have "loses s1 (s1\<lparr>queue := (queue s1)[i := p2]\<rparr>)" using k i by (simp add: loses_def kept_update)
      moreover have "loses (s1\<lparr>queue := (queue s1)[i := p2]\<rparr>) s'"
        using p2(2) less.prems k i by (intro less.hyps) simp_all
      ultimately show ?thesis using k loses_trans by blast
    next
      case False
      then obtain out2 where d: "wake_loop clk j i s out = wake_loop clk (Suc j) i (s1\<lparr>queue := delete_at i (queue s1)\<rparr>) out2"
        using wake_loop_answered i j1 by metis
      have "loses s1 (s1\<lparr>queue := delete_at i (queue s1)\<rparr>)" by (simp add: loses_def kept_delete)
      moreover have "loses (s1\<lparr>queue := delete_at i (queue s1)\<rparr>) s'"
        using d less.prems k i by (intro less.hyps) simp_all
      ultimately show ?thesis using k loses_trans by blast
    qed
  qed
qed

lemma wake_loses: "loses s (fst (wake now clk s))"
proof -
  obtain s1 out where w: "wake_loop clk 0 0 s [] = (s1, out)" by force
  then have "fst (wake now clk s) = arm_wake now s1" by (simp add: wake_def)
  then show ?thesis using wake_loop_loses [OF w] by (simp add: loses_def arm_wake_def)
qed

lemma wake_after: "loses s t \<Longrightarrow> loses s (fst (wake now clk t))"
  using wake_loses loses_trans by blast


text \<open>A frame loses entries; one that parks a request also lets it join, under the next key.\<close>

definition joins :: "server \<Rightarrow> server \<Rightarrow> bool" where
  "joins s s' \<longleftrightarrow> next_key s < next_key s' \<and>
     (\<exists>qs p. kept (queue s) qs \<and> queue s' = enqueue qs p \<and> pkey p = next_key s \<and> overtaken p = 0)"

definition moves :: "server \<Rightarrow> server \<Rightarrow> bool" where
  "moves s s' \<longleftrightarrow> next_key s \<le> next_key s' \<and> kept (queue s) (queue s') \<or> joins s s'"

lemma loses_moves: "loses s s' \<Longrightarrow> moves s s'"
  by (simp add: loses_def moves_def)

lemma mark_gate_loses: "loses s (mark_gate now s i c)"
  by (simp add: mark_gate_def loses_same)

lemma ledger_claimed_loses: "loses s (ledger_claimed now s c v)"
  by (rule loses_same) (simp_all add: ledger_claimed_def)

lemma request_unparked_loses: "request_unparked clk s i c = (s2, v) \<Longrightarrow> loses s s2"
  by (auto simp: request_unparked_def with_claim_of_def Let_def loses_def split: option.splits prod.splits)

lemma park_moves:
  assumes new: "new_parked s i fid t c = (s1, p)"
  shows "moves s (fst (park now clk wclk s1 p))"
proof (cases "draining s1 \<or> closing s1")
  case True
  then show ?thesis using new by (auto simp: park_def moves_def new_parked_def)
next
  case False
  define s2 where "s2 = mark_gate now s1 (psess p) (claim p)"
  define p1 where "p1 = p\<lparr>gate := gate_of s2 (psess p) (claim p) \<noteq> None\<rparr>"
  have s2: "queue s2 = queue s" "next_key s2 = Suc (next_key s)"
    using new by (auto simp: s2_def mark_gate_def new_parked_def)
  have p1: "pkey p1 = next_key s" "overtaken p1 = 0" using new by (auto simp: p1_def new_parked_def)
  obtain s3 p2 out where j: "judge clk s2 p1 (ahead s2 p1 False) = (s3, p2, out)" by (metis prod_cases3)
  note k = judge_loses [OF j]
  have s3: "kept (queue s) (queue s3)" "next_key s3 = Suc (next_key s)" using k s2 by (simp_all add: loses_def)
  have def: "park now clk wclk s1 p = (case judge clk s2 p1 (ahead s2 p1 False) of
      (s2, p2, Waiting) \<Rightarrow>
        let p3 = p2\<lparr>sent := Some (why p2), frame_seq := Suc (frame_seq p2)\<rparr>
        in (arm_wake now (s2\<lparr>queue := enqueue (queue s2) p3\<rparr>), [(psess p, pid p, frame_seq p3, ParkedFrame (why p2))])
    | (s2, p2, Seated r) \<Rightarrow>
        (if queue s2 \<noteq> []
         then case wake now wclk s2 of (s3, out) \<Rightarrow> (s3, (psess p, pid p, 0, r) # out)
         else (s2, [(psess p, pid p, 0, r)]))
    | (s2, p2, Answered r) \<Rightarrow> (s2, [(psess p, pid p, 0, r)]))"
    unfolding park_def if_not_P [OF False] s2_def p1_def Let_def ..
  have grown: "moves s u" if "loses s3 u" for u
    using that s3 kept_trans unfolding moves_def loses_def by auto
  show ?thesis
  proof (cases out)
    case Waiting
    let ?p3 = "p2\<lparr>sent := Some (why p2), frame_seq := Suc (frame_seq p2)\<rparr>"
    have "pkey ?p3 = next_key s" "overtaken ?p3 = 0" using k p1 by (simp_all add: same_request_def)
    then have "joins s (arm_wake now (s3\<lparr>queue := enqueue (queue s3) ?p3\<rparr>))"
      unfolding joins_def using s3 by (intro conjI exI [of _ "queue s3"] exI [of _ ?p3]) (simp_all add: arm_wake_def)
    then show ?thesis unfolding def j Waiting by (simp add: Let_def moves_def)
  next
    case (Seated r)
    then show ?thesis using grown [OF wake_loses] grown [OF loses_refl] unfolding def j Seated
      by (simp add: fst_case_wake case_prod_beta)
  next
    case (Answered r)
    then show ?thesis using grown [OF loses_refl] unfolding def j Answered by simp
  qed
qed

lemma claim_once_loses: "loses s (fst (claim_once now clk wclk s i fid c))"
proof (cases "draining s")
  case False
  obtain s1 w where s1: "seat_run s i c False = (s1, w)" by force
  have l1: "loses s s1" using seat_run_loses [OF s1] by (simp add: loses_same)
  show ?thesis
  proof (cases w)
    case None
    obtain s2 v where r: "request_unparked clk (mark_gate now s1 i c) i c = (s2, v)" by force
    have l2: "loses s s2"
      using l1 mark_gate_loses request_unparked_loses [OF r] loses_trans by blast
    then have l3: "loses s (note_claim s2 i c (ID v))" by (simp add: loses_def note_claim_def)
    have led: "loses s u \<Longrightarrow> loses s (ledger_claimed now u c v)" for u
      using ledger_claimed_loses loses_trans by blast
    show ?thesis using False None s1 r led [OF l2] wake_after [OF led [OF l3]]
      by (simp add: claim_once_def Let_def fst_case_wake case_prod_beta)
  qed (use False s1 l1 in \<open>simp add: claim_once_def\<close>)
qed (simp add: claim_once_def)

lemma claim_reassert_loses: "loses s (fst (claim_reassert now wclk s i fid c))"
proof -
  obtain s1 w where s1: "seat_run s i c True = (s1, w)" by force
  obtain b cid where a: "assert_claim now (budget s1) c = (b, cid)" by force
  have "loses s (note_claim (s1\<lparr>budget := b\<rparr>) i c cid)"
    using seat_run_loses [OF s1] by (simp add: loses_same note_claim_def)
  then show ?thesis using wake_after s1 a by (simp add: claim_reassert_def fst_case_wake case_prod_beta)
qed

lemma cancel_loses: "loses s (fst (cancel_frame now wclk s i fid))"
proof -
  have "loses s (s\<lparr>queue := delete_at k (queue s)\<rparr>)" for k by (simp add: loses_def kept_delete)
  then show ?thesis using wake_after by (auto simp: cancel_frame_def fst_case_wake case_prod_beta split: option.split)
qed

lemma release_frame_loses: "loses s (fst (release_frame now wclk s i cid))"
proof -
  have "loses s (upd_session s i f)" "loses s ((upd_session s i f)\<lparr>budget := b\<rparr>)" for f b
    by (simp_all add: loses_same)
  then show ?thesis using wake_after by (simp add: release_frame_def Let_def)
qed

lemma start_drain_loses: "loses s (fst (start_drain s))"
  by (simp add: start_drain_def refuse_parked_def loses_def arm_wake_def kept_def)

lemma forget_loses: "loses s (fst (forget now wclk s i))"
proof (cases "map_of (conns s) i")
  case (Some sess)
  let ?s1 = "drop_parked (unseat (s\<lparr>conns := AList.delete i (conns s)\<rparr>) sess) i"
  have "queue (unseat (s\<lparr>conns := AList.delete i (conns s)\<rparr>) sess) = queue s"
    "next_key (unseat (s\<lparr>conns := AList.delete i (conns s)\<rparr>) sess) = next_key s"
    by (simp_all add: unseat_def Let_def split: option.split)
  then have "loses s (?s1\<lparr>budget := b\<rparr>)" for b by (simp add: loses_def drop_parked_def kept_filter)
  then show ?thesis using wake_after Some by (simp add: forget_def Let_def)
qed (simp add: forget_def)

lemma connect_loses: "loses s (connect s i h)"
  by (simp add: connect_def loses_same)

lemma overrun_loses: "loses s (overrun_frame s i cid)"
  by (simp add: overrun_frame_def loses_same)

lemma broker_step_moves: "broker_step s s' \<Longrightarrow> moves s s'"
  by (induction rule: broker_step.induct)
     (blast intro: loses_moves park_moves connect_loses claim_once_loses claim_reassert_loses cancel_loses
       release_frame_loses overrun_loses wake_loses start_drain_loses forget_loses)+

section \<open>The counter counts\<close>

text \<open>Keys are distinct and were all handed out.\<close>

definition keyed :: "server \<Rightarrow> bool" where
  "keyed s \<longleftrightarrow> distinct (map pkey (queue s)) \<and> (\<forall>q \<in> set (queue s). pkey q < next_key s)"

lemma kept_below: "kept qs qs' \<Longrightarrow> \<forall>q \<in> set qs. pkey q < n \<Longrightarrow> \<forall>q \<in> set qs'. pkey q < n"
proof
  fix q assume k: "kept qs qs'" "\<forall>q \<in> set qs. pkey q < n" and q: "q \<in> set qs'"
  have "pkey q \<in> pkey ` set qs" using kept_keys [OF k(1)] q by blast
  with k(2) show "pkey q < n" by auto
qed

lemma moves_keyed:
  assumes m: "moves s s'" and k: "keyed s"
  shows "keyed s'"
proof (cases "joins s s'")
  case True
  then obtain qs p where q: "kept (queue s) qs" "queue s' = enqueue qs p" "pkey p = next_key s" "next_key s < next_key s'"
    unfolding joins_def by blast
  have d: "distinct (map pkey qs)" "\<forall>q \<in> set qs. pkey q < next_key s"
    using k q(1) kept_keys kept_below unfolding keyed_def by blast+
  then have "pkey p \<notin> pkey ` set qs" using q(3) by auto
  then have "distinct (map pkey (queue s'))" using enqueue_keys(2) d(1) q(2) by simp
  moreover have "pkey r < next_key s'" if "r \<in> set (queue s')" for r
  proof -
    have "pkey r \<in> insert (pkey p) (pkey ` set qs)" using that enqueue_keys(1) q(2) by (metis imageI)
    then show ?thesis using d(2) q(3,4) by auto
  qed
  ultimately show ?thesis by (simp add: keyed_def)
next
  case False
  then have "kept (queue s) (queue s')" "next_key s \<le> next_key s'" using m by (auto simp: moves_def)
  moreover from this have "\<forall>q \<in> set (queue s'). pkey q < next_key s" using k kept_below unfolding keyed_def by blast
  ultimately show ?thesis using k kept_keys unfolding keyed_def by fastforce
qed

lemma run_keyed: "broker_run mb n ss \<Longrightarrow> keyed (hd ss)"
proof (induction rule: broker_run.induct)
  case (next_step s ss s')
  then show ?case using moves_keyed [OF broker_step_moves] by simp
qed (simp add: keyed_def new_server_def)


text \<open>An entry of the new queue was there before, and its counter covers the entries that newly
  stand before it; or it just arrived, and none does.\<close>

lemma moves_counts:
  assumes m: "moves s s'" and k: "keyed s" and p: "p \<in> set (queue s')"
  shows "(\<exists>p0 \<in> set (queue s). pkey p0 = pkey p \<and>
      overtaken p0 + card (passers (queue s') (pkey p) - passers (queue s) (pkey p)) \<le> overtaken p) \<or>
    next_key s \<le> pkey p \<and> passers (queue s') (pkey p) = {}"
proof -
  have d: "distinct (map pkey (queue s))" using k by (simp add: keyed_def)
  have found: "\<exists>p0 \<in> set (queue s). later q p0" if "kept (queue s) qs" "q \<in> set qs" for qs q
    using that unfolding kept_def by (meson list_emb_set)
  show ?thesis
  proof (cases "joins s s'")
    case True
    then obtain qs r where q: "kept (queue s) qs" "queue s' = enqueue qs r" "pkey r = next_key s"
      unfolding joins_def by blast
    have below: "\<forall>q \<in> set qs. pkey q < pkey r"
      using kept_below [OF q(1)] k q(3) by (simp add: keyed_def)
    have dq: "distinct (map pkey qs)" using kept_keys [OF q(1)] d by blast
    have e: "if pkey p = pkey r then p = r \<and> passers (queue s') (pkey p) = {}
      else \<exists>q0 \<in> set qs. pkey q0 = pkey p \<and> gate q0 = gate p \<and> overtaken q0 \<le> overtaken p \<and>
        (passers (queue s') (pkey p) \<subseteq> passers qs (pkey p) \<or>
         passers (queue s') (pkey p) \<subseteq> insert (pkey r) (passers qs (pkey p)) \<and> overtaken p = Suc (overtaken q0))"
      unfolding q(2) by (rule enqueue_passers [OF dq below p [unfolded q(2)]])
    show ?thesis
    proof (cases "pkey p = pkey r")
      case False
      then obtain q0 where q0: "q0 \<in> set qs" "pkey q0 = pkey p" "overtaken q0 \<le> overtaken p"
        "passers (queue s') (pkey p) \<subseteq> passers qs (pkey p) \<or>
         passers (queue s') (pkey p) \<subseteq> insert (pkey r) (passers qs (pkey p)) \<and> overtaken p = Suc (overtaken q0)"
        using e by auto
      obtain p0 where p0: "p0 \<in> set (queue s)" "later q0 p0" using found [OF q(1) q0(1)] by blast
      note sub = kept_passers [OF q(1) d, of "pkey p"]
      have "overtaken q0 + card (passers (queue s') (pkey p) - passers (queue s) (pkey p)) \<le> overtaken p"
        using q0(4)
      proof
        assume "passers (queue s') (pkey p) \<subseteq> passers qs (pkey p)"
        then have none: "passers (queue s') (pkey p) - passers (queue s) (pkey p) = {}" using sub by blast
        show ?thesis unfolding none using q0(3) by simp
      next
        assume a: "passers (queue s') (pkey p) \<subseteq> insert (pkey r) (passers qs (pkey p)) \<and> overtaken p = Suc (overtaken q0)"
        then have "passers (queue s') (pkey p) - passers (queue s) (pkey p) \<subseteq> {pkey r}" using sub by blast
        then have "card (passers (queue s') (pkey p) - passers (queue s) (pkey p)) \<le> 1"
          using card_mono [of "{pkey r}"] by fastforce
        then show ?thesis using a by simp
      qed
      moreover have "pkey p0 = pkey p" "overtaken p0 \<le> overtaken q0" using p0(2) q0(2) by (simp_all add: later_def)
      ultimately show ?thesis using p0(1) by (intro disjI1 bexI [of _ p0]) auto
    qed (use e q(3) in simp)
  next
    case False
    then have l: "kept (queue s) (queue s')" using m by (auto simp: moves_def)
    obtain p0 where "p0 \<in> set (queue s)" "later p p0" using found [OF l p] by blast
    moreover have none: "passers (queue s') (pkey p) - passers (queue s) (pkey p) = {}" using kept_passers [OF l d] by blast
    ultimately show ?thesis unfolding none by (auto simp: later_def intro!: bexI [of _ p0])
  qed
qed

lemma next_key_grows: "moves s s' \<Longrightarrow> next_key s \<le> next_key s'"
  by (auto simp: moves_def joins_def)

text \<open>The counter rises by at least the number of new overtakers in each step.\<close>

lemma counter_rises:
  assumes m: "moves s s'" and k: "keyed s" and p: "p \<in> set (queue s')"
    and p0: "p0 \<in> set (queue s)" "pkey p0 = pkey p"
  shows "overtaken p0 + card (overtakers (s' # s # ss) (pkey p) - overtakers (s # ss) (pkey p)) \<le> overtaken p"
proof -
  have "pkey p < next_key s" using k p0 by (auto simp: keyed_def)
  then obtain p1 where p1: "p1 \<in> set (queue s)" "pkey p1 = pkey p"
    "overtaken p1 + card (passers (queue s') (pkey p) - passers (queue s) (pkey p)) \<le> overtaken p"
    using moves_counts [OF m k p] by auto
  have "p1 = p0" using p1(1,2) p0 k unfolding keyed_def by (metis distinct_map inj_onD)
  moreover have "card (overtakers (s' # s # ss) (pkey p) - overtakers (s # ss) (pkey p)) \<le>
      card (passers (queue s') (pkey p) - passers (queue s) (pkey p))"
    by (intro card_mono) (auto simp: overtakers_Cons passers_def)
  ultimately show ?thesis using p1(3) by simp
qed

lemma run_counter_rises:
  assumes r: "broker_run mb n (s # t # ts)" and p: "p \<in> set (queue s)" and p0: "p0 \<in> set (queue t)" "pkey p0 = pkey p"
  shows "overtaken p0 + card (overtakers (s # t # ts) (pkey p) - overtakers (t # ts) (pkey p)) \<le> overtaken p"
proof -
  from r have "broker_run mb n (t # ts)" "broker_step t s" by (auto elim: broker_run.cases)
  then show ?thesis using counter_rises [OF broker_step_moves _ p p0] run_keyed by fastforce
qed

definition counted :: "server list \<Rightarrow> bool" where
  "counted ss \<longleftrightarrow> (\<forall>p \<in> set (queue (hd ss)). card (overtakers ss (pkey p)) \<le> overtaken p) \<and>
     (\<forall>k. card (overtakers ss k) \<le> maxOvertakes) \<and> (\<forall>k \<ge> next_key (hd ss). overtakers ss k = {})"

lemma run_counted: "broker_run mb n ss \<Longrightarrow> counted ss"
proof (induction rule: broker_run.induct)
  case (next_step s ss s')
  have m: "moves s s'" using next_step.hyps(2) by (rule broker_step_moves)
  have k: "keyed s" using run_keyed [OF next_step.hyps(1)] by simp
  then have k': "keyed s'" using moves_keyed m by blast
  note ih = next_step.IH [unfolded counted_def]
  have a: "card (overtakers (s' # s # ss) (pkey p)) \<le> overtaken p" if p: "p \<in> set (queue s')" for p
    using moves_counts [OF m k p]
  proof
    assume "\<exists>p0 \<in> set (queue s). pkey p0 = pkey p \<and>
      overtaken p0 + card (passers (queue s') (pkey p) - passers (queue s) (pkey p)) \<le> overtaken p"
    then obtain p0 where p0: "p0 \<in> set (queue s)" "pkey p0 = pkey p" by blast
    let ?O = "overtakers (s # ss) (pkey p)" and ?N = "overtakers (s' # s # ss) (pkey p)"
    have "?N = ?O \<union> (?N - ?O)" by (auto simp: overtakers_Cons)
    then have "card ?N \<le> card ?O + card (?N - ?O)" using card_Un_le by metis
    moreover have "card ?O \<le> overtaken p0" using ih p0 by auto
    ultimately show ?thesis using counter_rises [OF m k p p0, of ss] by simp
  next
    assume "next_key s \<le> pkey p \<and> passers (queue s') (pkey p) = {}"
    then show ?thesis using ih by (simp add: overtakers_Cons)
  qed
  have "broker_ok s'"
    using broker_run_reaches [OF broker_run.next_step [OF next_step.hyps]] by (rule reachable_broker_ok)
  then have four: "\<forall>p \<in> set (queue s'). overtaken p \<le> maxOvertakes" by (simp add: broker_ok_def queue_ok_def)
  have b: "card (overtakers (s' # s # ss) i) \<le> maxOvertakes" for i
  proof (cases "i \<in> pkey ` set (queue s')")
    case True
    then show ?thesis using a four by (auto intro: le_trans)
  next
    case False
    then show ?thesis using ih by (simp add: overtakers_Cons [of s'] before_none)
  qed
  have c: "overtakers (s' # s # ss) i = {}" if "next_key s' \<le> i" for i
  proof -
    have "i \<notin> pkey ` set (queue s')" using k' that by (auto simp: keyed_def)
    moreover have "overtakers (s # ss) i = {}" using ih next_key_grows [OF m] that by simp
    ultimately show ?thesis by (simp add: overtakers_Cons [of s'] before_none)
  qed
  show ?case using a b c by (simp add: counted_def)
qed (simp add: counted_def overtakers_def passers_def before_def new_server_def)

section \<open>Seated past the head\<close>

text \<open>
  A request seated while another heads the queue: either it takes room the head could have
  had, and then the head's counter goes up and was below its bound; or it was granted on a
  budget that already held the claim of the request it is tried behind: the first gate that
  waits, when it is no gate itself, else the head that was overtaken often enough.
\<close>

definition fits_beside :: "(nat \<Rightarrow> nanos) \<Rightarrow> server \<Rightarrow> parked \<Rightarrow> parked \<Rightarrow> frame \<Rightarrow> bool" where
  "fits_beside clk s a p r \<longleftrightarrow>
     (case assert_claim (clk 4) (budget s) ((claim a)\<lparr>Slots := max (Slots (claim a)) 1\<rparr>) of
        (b, _) \<Rightarrow> snd (snd (claim_try clk (s\<lparr>budget := b\<rparr>) p)) = Seated r)"

lemma seated_past_head:
  assumes q: "queue s = q # qs" and p: "\<not> same_parked q p"
    and j: "judge clk s p (ahead s p False) = (s', p', Seated r)"
  shows "overtaken q < maxOvertakes \<and> queue s' = bumped q # qs \<or>
    (\<exists>a \<in> set (q # qs). (gate a \<and> \<not> gate p \<or> a = q \<and> overtaken q \<ge> maxOvertakes) \<and> fits_beside clk s a p r)"
proof (cases "ahead s p False")
  case None
  obtain t p1 out where c: "claim_try clk s p = (t, p1, out)" by (metis prod_cases3)
  have "s' = overtake_head t p" using j c None by (auto simp: judge_def split: outcome.splits)
  moreover have "overtaken q < maxOvertakes"
    using ahead_None [OF None] q by (simp add: starved_head_def split: if_splits)
  ultimately show ?thesis using claim_try_loses [OF c] q p by (simp add: overtake_head_def bumped_def)
next
  case (Some a)
  have a: "a \<in> set (q # qs) \<and> (gate a \<and> \<not> gate p \<or> a = q \<and> overtaken q \<ge> maxOvertakes) \<and> \<not> same_parked a p"
    using Some q p by (auto simp: ahead_def starved_head_def split: option.splits if_splits dest!: find_SomeD)
  obtain b cid where b: "assert_claim (clk 4) (budget s) ((claim a)\<lparr>Slots := max (Slots (claim a)) 1\<rparr>) = (b, cid)" by force
  obtain t p1 out where c: "claim_try clk (s\<lparr>budget := b\<rparr>) p = (t, p1, out)" by (metis prod_cases3)
  have "out = Seated r" using j Some a b c by (simp add: judge_def with_claim_of_def)
  then have "fits_beside clk s a p r" using b c by (simp add: fits_beside_def)
  then show ?thesis using a by blast
qed

end
