(* ===== verification/Broker_Properties.thy ===== *)
theory Broker_Properties
  imports Broker_Fairness Budget_Properties
begin

text \<open>
  The properties of the broker's queue over every state it reaches, with witnesses on a
  machine of four slots that one connection holds and another waits for.
\<close>

section \<open>A concrete broker\<close>

definition demo_hello :: "int \<Rightarrow> hello" where
  "demo_hello p = \<lparr>hPID = p, hDir = ''/w'', hArgv = [''magus'', ''run''], Gate = False, Tree = '''', MaxValidations = 0\<rparr>"

definition demo_conns :: server where
  "demo_conns = connect (connect (new_server 1000 4) 0 (demo_hello 10)) 1 (demo_hello 20)"

definition demo_held :: server where
  "demo_held = fst (claim_once 0 zero_clock (\<lambda>_. zero_clock) demo_conns 0 1 root_a)"

definition big_claim :: machine_claim where
  "big_claim = root_b\<lparr>Slots := 3\<rparr>"

definition demo_parked :: server where
  "demo_parked = (case new_parked demo_held 1 7 0 big_claim of
     (s, p) \<Rightarrow> fst (park 0 zero_clock (\<lambda>_. zero_clock) s p))"

lemma demo_conn: "map_of (conns demo_conns) 0 \<noteq> None" "map_of (conns demo_held) 1 \<noteq> None"
  by code_simp+

lemma demo_reached:
  "broker_step\<^sup>*\<^sup>* (new_server 1000 4) demo_held" "broker_step\<^sup>*\<^sup>* (new_server 1000 4) demo_parked"
proof -
  have "broker_step\<^sup>*\<^sup>* (new_server 1000 4) demo_conns"
    unfolding demo_conns_def by (meson broker_step.connected r_into_rtranclp rtranclp.rtrancl_into_rtrancl)
  moreover have "broker_step demo_conns demo_held"
    unfolding demo_held_def by (rule broker_step.claims_once [OF demo_conn(1)])
  ultimately show held: "broker_step\<^sup>*\<^sup>* (new_server 1000 4) demo_held" by (rule rtranclp.rtrancl_into_rtrancl)
  obtain s p where p: "new_parked demo_held 1 7 0 big_claim = (s, p)" by force
  then have "broker_step demo_held demo_parked"
    unfolding demo_parked_def using broker_step.parks [OF demo_conn(2) p] by simp
  with held show "broker_step\<^sup>*\<^sup>* (new_server 1000 4) demo_parked" by (rule rtranclp.rtrancl_into_rtrancl)
qed









lemma forget_with_no_queue:
  assumes "queue s = []"
  shows "conns (fst (forget now w s i)) = AList.delete i (conns s) \<and> queue (fst (forget now w s i)) = []"
proof (cases "map_of (conns s) i")
  case None
  then have "AList.delete i (conns s) = conns s" by (intro delete_id) (simp add: map_of_eq_None_iff)
  then show ?thesis using assms None by (simp add: forget_def)
next
  case (Some sess)
  define s1 where "s1 = drop_parked (unseat (s\<lparr>conns := AList.delete i (conns s)\<rparr>) sess) i"
  have "conns s1 = AList.delete i (conns s)" "queue s1 = []"
    using assms by (auto simp: s1_def drop_parked_def unseat_def Let_def split: option.splits)
  then show ?thesis using Some
    by (simp add: forget_def s1_def [symmetric] wake_def arm_wake_def wake_loop.simps)
qed

lemma demo_conns_list: "AList.delete 1 (AList.delete 0 (conns demo_held)) = []" "queue demo_held = []"
proof -
  have keys: "map fst (conns demo_held) = [0, 1]" by code_simp
  have "length (queue demo_held) = 0" by code_simp
  then show "queue demo_held = []" by (rule length_0_conv [THEN iffD1])
  have "map fst (AList.delete 1 (AList.delete 0 (conns demo_held))) = []"
    unfolding delete_keys keys by simp
  then show "AList.delete 1 (AList.delete 0 (conns demo_held)) = []" by (rule map_is_Nil_conv [THEN iffD1])
qed

section \<open>Properties\<close>

text \<open>
  C28. Every claim in the budget belongs to exactly one open connection: the ids the budget
  holds are those the connections hold, and no two connections hold the same. It holds
  between two handled frames: a release and a closed connection take the server's
  lock several times, and in between a claim may be in the budget with no owner.
\<close>

theorem every_claim_has_one_owner:
  assumes "broker_step\<^sup>*\<^sup>* (new_server mb n) s"
  shows "fst ` set (claims (budget s)) = (\<Union>i. owns s i) \<and> (i \<noteq> j \<longrightarrow> owns s i \<inter> owns s j = {})"
proof -
  have "owned_but {} s" using reachable_broker_ok [OF assms] by (simp add: broker_ok_def)
  then have "claim_ids (budget s) = (\<Union>i. owns s i)" "\<forall>i j. i \<noteq> j \<longrightarrow> owns s i \<inter> owns s j = {}"
    unfolding owned_but_def by blast+
  then show ?thesis unfolding claim_ids_def by blast
qed

theorem every_claim_has_one_owner_witness:
  "fst ` set (claims (budget demo_held)) = (\<Union>i. owns demo_held i) \<and> owns demo_held 0 \<inter> owns demo_held 1 = {}"
  using every_claim_has_one_owner [OF demo_reached(1), of 0 1] by (metis zero_neq_one)

text \<open>
  C29. Nothing leaks: once every connection has closed, however it closed, the machine
  holds no claim and no request is parked.
\<close>

theorem closing_every_connection_empties_the_machine:
  assumes "broker_step\<^sup>*\<^sup>* (new_server mb n) s" "conns s = []"
  shows "claims (budget s) = [] \<and> queue s = []"
proof -
  note ok = reachable_broker_ok [OF assms(1)]
  have "owns s i = {}" for i using assms(2) by (simp add: owns_def)
  then have "claim_ids (budget s) = {}" using ok by (simp add: broker_ok_def owned_but_def)
  moreover have "set (queue s) = {}" using ok assms(2) by (auto simp: broker_ok_def)
  ultimately show ?thesis by (simp add: claim_ids_def)
qed

theorem closing_every_connection_empties_the_machine_witness:
  "claims (budget (fst (forget 0 (\<lambda>_. zero_clock) (fst (forget 0 (\<lambda>_. zero_clock) demo_held 0)) 1))) = []"
proof -
  let ?s1 = "fst (forget 0 (\<lambda>_. zero_clock) demo_held 0)"
  let ?s2 = "fst (forget 0 (\<lambda>_. zero_clock) ?s1 1)"
  have "broker_step\<^sup>*\<^sup>* (new_server 1000 4) ?s2"
    using demo_reached(1) broker_step.closes by (meson rtranclp.rtrancl_into_rtrancl)
  moreover have "conns ?s2 = []" using forget_with_no_queue demo_conns_list by simp
  ultimately show ?thesis using closing_every_connection_empties_the_machine by blast
qed



end
