(* ===== verification/Even_Groups.thy ===== *)
theory Even_Groups
  imports Magus_Prelude
begin

text \<open>
  Cutting a list into the fewest groups of at most cap entries, as even as possible:
  \<open>groups\<close> of \<open>src/internal/textbuf/sumtree.go\<close> and the loops of \<open>packLeaves\<close>, \<open>packInner\<close>
  and \<open>chunkify\<close>, which share it.
\<close>

text \<open>The sizes of the fewest groups of at most cap entries, as even as possible.\<close>

definition even_sizes :: "nat \<Rightarrow> nat \<Rightarrow> nat list" where
  "even_sizes cap n =
     (let k = (n + cap - 1) div cap; size = n div k; extra = n mod k
      in map (\<lambda>g. if g < extra then Suc size else size) [0..<k])"

fun chop :: "nat list \<Rightarrow> 'b list \<Rightarrow> 'b list list" where
  "chop [] xs = []"
| "chop (n # ns) xs = take n xs # chop ns (drop n xs)"

definition even_groups :: "nat \<Rightarrow> 'b list \<Rightarrow> 'b list list" where
  "even_groups cap xs = (if xs = [] then [] else chop (even_sizes cap (length xs)) xs)"

lemma length_even_sizes [simp]: "length (even_sizes cap n) = (n + cap - 1) div cap"
  by (simp add: even_sizes_def Let_def)

lemma length_chop [simp]: "length (chop ns xs) = length ns"
  by (induction ns arbitrary: xs) simp_all

lemma length_even_groups: "length (even_groups cap xs) = (if xs = [] then 0 else (length xs + cap - 1) div cap)"
  by (simp add: even_groups_def)

lemma ceil_bounds:
  fixes n cap :: nat
  assumes "0 < cap" "0 < n"
  defines "k \<equiv> (n + cap - 1) div cap"
  shows "0 < k" "k * cap \<le> n + cap - 1" "n \<le> k * cap" "k \<le> n"
proof -
  define r where "r = (n + cap - 1) mod cap"
  have e: "k * cap + r = n + cap - 1" by (simp add: k_def r_def)
  have r: "r < cap" using assms(1) by (simp add: r_def)
  show ge: "n \<le> k * cap" using e r by linarith
  show "k * cap \<le> n + cap - 1" using e by linarith
  show k0: "0 < k" using ge assms(2) by (cases k) auto
  show "k \<le> n"
  proof (rule ccontr)
    assume "\<not> k \<le> n"
    then obtain i where i: "k = n + Suc i" by (metis less_imp_Suc_add not_le add_Suc_right)
    then have "k * cap = n * cap + cap + i * cap" by (simp add: algebra_simps)
    moreover have "n \<le> n * cap" using assms(1) by simp
    ultimately show False using e assms(1) by linarith
  qed
qed

lemma even_sizes_bounds:
  assumes "x \<in> set (even_sizes cap n)" "0 < cap" "0 < n"
  shows "1 \<le> x" "x \<le> cap" "cap < n \<Longrightarrow> cap div 2 \<le> x"
proof -
  define k where "k = (n + cap - 1) div cap"
  have x: "x = n div k \<or> x = Suc (n div k) \<and> n mod k \<noteq> 0"
    using assms(1) by (auto simp: even_sizes_def k_def Let_def split: if_splits)
  note k = ceil_bounds [OF assms(2,3), folded k_def]
  have k0: "0 < k" and le: "k * cap \<le> n + cap - 1" and ge: "n \<le> k * cap" and kn: "k \<le> n" using k by auto
  have "1 \<le> n div k" using k0 kn by (simp add: Suc_le_eq div_greater_zero_iff)
  then show "1 \<le> x" using x by auto
  have q: "n div k \<le> cap" using ge k0 by (metis div_le_mono nonzero_mult_div_cancel_left not_gr_zero)
  moreover have "n mod k = 0" if "n div k = cap"
    using ge that k0 div_mult_mod_eq [of n k] by (simp add: mult.commute)
  ultimately show "x \<le> cap" using x by (auto simp: Suc_le_eq le_less)
  assume big: "cap < n"
  have "2 \<le> k"
  proof (rule ccontr)
    assume "\<not> 2 \<le> k"
    then have "k = 1" using k0 by simp
    then show False using ge big by simp
  qed
  have "cap div 2 * k \<le> n"
  proof -
    obtain j where j: "k = Suc (Suc j)" using \<open>2 \<le> k\<close> by (metis add_2_eq_Suc le_Suc_ex)
    define h where "h = cap div 2"
    have h: "2 * h \<le> cap" by (simp add: h_def)
    have "h * k = 2 * h + j * h" using j by (simp add: algebra_simps)
    moreover have "j * h \<le> j * cap" using h by simp
    moreover have "k * cap = 2 * cap + j * cap" using j by (simp add: algebra_simps)
    ultimately show ?thesis using h le assms(2,3) unfolding h_def [symmetric] by linarith
  qed
  then have "cap div 2 \<le> n div k" using k0 by (simp add: less_eq_div_iff_mult_less_eq)
  then show "cap div 2 \<le> x" using x by auto
qed

lemma sum_even_sizes: "0 < cap \<Longrightarrow> 0 < n \<Longrightarrow> sum_list (even_sizes cap n) = n"
proof -
  assume "0 < cap" "0 < n"
  define k where "k = (n + cap - 1) div cap"
  have k0: "0 < k" using ceil_bounds(1) [OF \<open>0 < cap\<close> \<open>0 < n\<close>] by (simp add: k_def)
  have sum: "sum_list (map (\<lambda>g. if g < e then Suc z else z) [0..<j]) = j * z + min e j" for e z j :: nat
    by (induction j) auto
  have "sum_list (even_sizes cap n) = k * (n div k) + min (n mod k) k"
    by (simp only: even_sizes_def k_def [symmetric] Let_def sum)
  moreover have "min (n mod k) k = n mod k" using k0 by (simp add: min_def)
  ultimately show ?thesis by simp
qed

lemma chop_lengths: "sum_list ns \<le> length xs \<Longrightarrow> map length (chop ns xs) = ns"
  by (induction ns arbitrary: xs) auto

lemma concat_chop: "sum_list ns = length xs \<Longrightarrow> concat (chop ns xs) = xs"
  by (induction ns arbitrary: xs) auto

lemma concat_even_groups [simp]: "0 < cap \<Longrightarrow> concat (even_groups cap xs) = xs"
  by (simp add: even_groups_def concat_chop sum_even_sizes)

lemma even_groups_bounds:
  assumes "g \<in> set (even_groups cap xs)" "0 < cap"
  shows "1 \<le> length g" "length g \<le> cap" "cap < length xs \<Longrightarrow> cap div 2 \<le> length g"
proof -
  have xs: "0 < length xs" using assms(1) by (auto simp: even_groups_def split: if_splits)
  have "length g \<in> set (map length (even_groups cap xs))" using assms(1) by simp
  also have "map length (even_groups cap xs) = even_sizes cap (length xs)"
    using xs assms(2) by (simp add: even_groups_def chop_lengths sum_even_sizes)
  finally have "length g \<in> set (even_sizes cap (length xs))" .
  from even_sizes_bounds [OF this assms(2) xs]
  show "1 \<le> length g" "length g \<le> cap" "cap < length xs \<Longrightarrow> cap div 2 \<le> length g" by auto
qed

lemma even_groups_single: "xs \<noteq> [] \<Longrightarrow> 0 < cap \<Longrightarrow> length xs \<le> cap \<Longrightarrow> even_groups cap xs = [xs]"
proof -
  assume xs: "xs \<noteq> []" "0 < cap" "length xs \<le> cap"
  then have "0 < length xs" by simp
  then have e: "length xs + cap - 1 = length xs - 1 + cap" and "length xs - 1 < cap" using xs by linarith+
  then have "(length xs + cap - 1) div cap = 1" unfolding e using xs(2) by (simp only: div_add_self2) simp
  then have "length (even_groups cap xs) = 1" using xs by (simp add: length_even_groups)
  then obtain g where "even_groups cap xs = [g]" by (metis One_nat_def length_0_conv length_Suc_conv)
  then show ?thesis using concat_even_groups [OF xs(2), of xs] by simp
qed

lemma even_groups_many: "0 < cap \<Longrightarrow> 1 < length (even_groups cap xs) \<longleftrightarrow> cap < length xs"
proof
  assume "0 < cap" "1 < length (even_groups cap xs)"
  show "cap < length xs"
  proof (rule ccontr)
    assume "\<not> cap < length xs"
    moreover have "xs \<noteq> []" using \<open>1 < length (even_groups cap xs)\<close> by (auto simp: even_groups_def)
    ultimately have "even_groups cap xs = [xs]" using \<open>0 < cap\<close> by (intro even_groups_single) simp_all
    then show False using \<open>1 < length (even_groups cap xs)\<close> by simp
  qed
next
  assume c: "0 < cap" "cap < length xs"
  show "1 < length (even_groups cap xs)"
  proof (rule ccontr)
    assume "\<not> 1 < length (even_groups cap xs)"
    moreover have "even_groups cap xs \<noteq> []" using c concat_even_groups [of cap xs] by (metis concat.simps(1) length_greater_0_conv less_trans)
    ultimately obtain g where g: "even_groups cap xs = [g]"
      by (cases "even_groups cap xs") auto
    then have "g = xs" using concat_even_groups [OF c(1), of xs] by simp
    then show False using even_groups_bounds(2) [of g cap xs] g c by simp
  qed
qed

end
