(* ===== verification/Sum_Tree.thy ===== *)
theory Sum_Tree
  imports Even_Groups
begin

text \<open>
  The B+ tree under the text buffer, \<open>src/internal/textbuf/sumtree.go\<close>: nodes of at most
  sixteen entries, each child stored with the sum and the count of its items, edited by
  splicing. The code's type parameters are an item type and a monoid that measures items;
  here the monoid is a record that every operation takes. Nodes are values: the owner marks by
  which a writer leaves a frozen copy's nodes alone have no counterpart. A loop that
  descends or walks along a slice is a recursion over the list it walks.
\<close>

section \<open>Nodes\<close>

definition maxItems :: nat where
  "maxItems = 16"

definition minItems :: nat where
  "minItems = maxItems div 2"

record ('a, 's) summary =
  add_sum :: "'s \<Rightarrow> 's \<Rightarrow> 's"
  zero_sum :: 's
  measure_of :: "'a \<Rightarrow> 's"

datatype ('a, 's) node = Leaf "'a list" | Inner nat "('a, 's) child list"
  and ('a, 's) child = Child (csum: 's) (ccount: nat) (cnode: "('a, 's) node")

fun node_height :: "('a, 's) node \<Rightarrow> nat" where
  "node_height (Leaf _) = 0"
| "node_height (Inner h _) = h"

fun leaf_items :: "('a, 's) node \<Rightarrow> 'a list" where
  "leaf_items (Leaf xs) = xs"
| "leaf_items (Inner _ _) = []"

fun node_kids :: "('a, 's) node \<Rightarrow> ('a, 's) child list" where
  "node_kids (Leaf _) = []"
| "node_kids (Inner _ ks) = ks"

fun node_len :: "('a, 's) node \<Rightarrow> nat" where
  "node_len (Leaf xs) = length xs"
| "node_len (Inner _ ks) = length ks"

fun child_of :: "('a, 's) summary \<Rightarrow> ('a, 's) node \<Rightarrow> ('a, 's) child" where
  "child_of m (Leaf xs) =
     Child (foldl (\<lambda>s x. add_sum m s (measure_of m x)) (zero_sum m) xs) (length xs) (Leaf xs)"
| "child_of m (Inner h ks) =
     Child (foldl (\<lambda>s c. add_sum m s (csum c)) (zero_sum m) ks) (foldl (\<lambda>n c. n + ccount c) 0 ks) (Inner h ks)"

lemma size_cnode [termination_simp]: "c \<in> set ks \<Longrightarrow> size (cnode c) < Suc (size_list size ks)"
proof -
  assume "c \<in> set ks"
  then have "size c \<le> size_list size ks" by (rule size_list_estimation') simp
  moreover have "size (cnode c) < size c" by (cases c) simp
  ultimately show ?thesis by simp
qed

text \<open>The items of a node, left to right.\<close>

fun items_of :: "('a, 's) node \<Rightarrow> 'a list" where
  "items_of (Leaf xs) = xs"
| "items_of (Inner _ ks) = concat (map (\<lambda>c. items_of (cnode c)) ks)"

declare items_of.simps(2) [simp del]

section \<open>Packing\<close>

definition pack_leaves :: "('a, 's) summary \<Rightarrow> 'a list \<Rightarrow> ('a, 's) child list" where
  "pack_leaves m xs = map (\<lambda>g. child_of m (Leaf g)) (even_groups maxItems xs)"

definition pack_inner :: "('a, 's) summary \<Rightarrow> ('a, 's) child list \<Rightarrow> nat \<Rightarrow> ('a, 's) child list" where
  "pack_inner m kids h = map (\<lambda>g. child_of m (Inner h g)) (even_groups maxItems kids)"

lemma pack_inner_shrinks: "1 < length kids \<Longrightarrow> length (pack_inner m kids h) < length kids"
proof -
  assume "1 < length kids"
  moreover from this have "kids \<noteq> []" by auto
  moreover have "1 < n \<Longrightarrow> (n + 15) div 16 < n" for n :: nat by (simp add: div_less_iff_less_mult)
  ultimately show ?thesis by (simp add: pack_inner_def length_even_groups maxItems_def add.commute)
qed

section \<open>The root\<close>

record ('a, 's) sum_tree =
  root :: "('a, 's) node option"
  tsum :: 's
  tcount :: nat

function pack_up :: "('a, 's) summary \<Rightarrow> ('a, 's) child list \<Rightarrow> ('a, 's) child list" where
  "pack_up m kids =
     (if length kids > 1 then pack_up m (pack_inner m kids (node_height (cnode (hd kids)) + 1)) else kids)"
  by pat_completeness auto
termination
  by (relation "measure (\<lambda>(m, kids). length kids)") (auto intro: pack_inner_shrinks)

declare pack_up.simps [simp del]

fun strip_root :: "('a, 's) child \<Rightarrow> ('a, 's) child" where
  "strip_root (Child s n (Inner h [k])) = (if h > 0 then strip_root k else Child s n (Inner h [k]))"
| "strip_root c = c"

definition set_root :: "('a, 's) summary \<Rightarrow> ('a, 's) child list \<Rightarrow> ('a, 's) sum_tree" where
  "set_root m kids =
     (case pack_up m kids of
        [] \<Rightarrow> \<lparr>root = None, tsum = zero_sum m, tcount = 0\<rparr>
      | c # _ \<Rightarrow> (let r = strip_root c in \<lparr>root = Some (cnode r), tsum = csum r, tcount = ccount r\<rparr>))"

definition new_tree :: "('a, 's) summary \<Rightarrow> 'a list \<Rightarrow> ('a, 's) sum_tree" where
  "new_tree m xs = set_root m (pack_leaves m xs)"

section \<open>Rebalancing\<close>

fun pack_node :: "('a, 's) summary \<Rightarrow> ('a, 's) node \<Rightarrow> ('a, 's) child list" where
  "pack_node m (Leaf xs) = pack_leaves m xs"
| "pack_node m (Inner h ks) = pack_inner m ks h"

text \<open>
  Merging two siblings. Its own rebalancing of the children at the seam is a parameter: it
  works one level further down, and the levels are tied together in rebalance_at.
\<close>

fun join_nodes :: "(('a, 's) child list \<Rightarrow> ('a, 's) child list) \<Rightarrow> ('a, 's) node \<Rightarrow> ('a, 's) node \<Rightarrow> ('a, 's) node" where
  "join_nodes below (Leaf xs) b = Leaf (xs @ leaf_items b)"
| "join_nodes below (Inner h ks) b = Inner h (below (ks @ node_kids b))"

definition merge_nodes :: "('a, 's) summary \<Rightarrow> (('a, 's) child list \<Rightarrow> ('a, 's) child list) \<Rightarrow>
    ('a, 's) node \<Rightarrow> ('a, 's) node \<Rightarrow> ('a, 's) child list" where
  "merge_nodes m below a b = pack_node m (join_nodes below a b)"

definition underfull :: "('a, 's) child \<Rightarrow> bool" where
  "underfull c \<longleftrightarrow> node_len (cnode c) < minItems"

lemma cnode_child_of [simp]: "cnode (child_of m n) = n"
  by (cases n) simp_all

text \<open>Packing leaves a node short of entries only when it makes a single node.\<close>

lemma even_groups_short:
  "g \<in> set (even_groups maxItems xs) \<Longrightarrow> length g < minItems \<Longrightarrow> length (even_groups maxItems xs) = 1"
proof -
  assume g: "g \<in> set (even_groups maxItems xs)" "length g < minItems"
  then have "\<not> maxItems < length xs" using even_groups_bounds(3) [OF g(1)] by (auto simp: minItems_def maxItems_def)
  then have "\<not> 1 < length (even_groups maxItems xs)" using even_groups_many [of maxItems xs] by (simp add: maxItems_def)
  then show ?thesis using g(1) by (cases "even_groups maxItems xs") auto
qed

lemma pack_node_short:
  "c \<in> set (pack_node m n) \<Longrightarrow> underfull c \<Longrightarrow> length (pack_node m n) = 1"
  by (cases n) (auto simp: pack_leaves_def pack_inner_def underfull_def simp del: One_nat_def intro: even_groups_short)

function rebalance_loop :: "('a, 's) summary \<Rightarrow> (('a, 's) child list \<Rightarrow> ('a, 's) child list) \<Rightarrow>
    ('a, 's) child list \<Rightarrow> nat \<Rightarrow> ('a, 's) child list" where
  "rebalance_loop m below kids k =
     (if k < length kids \<and> 1 < length kids
      then
        if \<not> underfull (kids ! k) then rebalance_loop m below kids (Suc k)
        else
          let l = (if Suc k = length kids then k - 1 else k);
              merged = merge_nodes m below (cnode (kids ! l)) (cnode (kids ! Suc l))
          in rebalance_loop m below (take l kids @ merged @ drop (l + 2) kids) l
      else kids)"
  by pat_completeness auto

lemma rebalance_measure:
  assumes "l \<le> k" "k \<le> Suc l" "Suc l < length kids" "underfull (kids ! k)"
    "kids' = take l kids @ merge_nodes m below a b @ drop (l + 2) kids"
  shows "length (filter underfull kids') < length (filter underfull kids) \<or>
    length (filter underfull kids') = length (filter underfull kids) \<and> length kids' < length kids"
proof -
  define pre where "pre = length (filter underfull (take l kids)) + length (filter underfull (drop (l + 2) kids))"
  define new where "new = pack_node m (join_nodes below a b)"
  have "drop l kids = kids ! l # kids ! Suc l # drop (l + 2) kids"
    using assms(3) by (simp add: Cons_nth_drop_Suc)
  then have "filter underfull kids = filter underfull (take l kids) @ filter underfull (kids ! l # kids ! Suc l # drop (l + 2) kids)"
    by (metis append_take_drop_id filter_append)
  then have "length (filter underfull kids) = pre + length (filter underfull [kids ! l, kids ! Suc l])"
    by (simp add: pre_def)
  moreover have "1 \<le> length (filter underfull [kids ! l, kids ! Suc l])"
  proof (cases "k = l")
    case False
    then have "k = Suc l" using assms(1,2) by simp
    then show ?thesis using assms(4) by simp
  qed (use assms(4) in simp)
  moreover have "length (filter underfull kids') = pre + length (filter underfull new)"
    by (simp add: assms(5) pre_def new_def merge_nodes_def)
  moreover have "length kids' = length kids - 2 + length new"
    using assms(3) by (simp add: assms(5) new_def merge_nodes_def)
  moreover have "length (filter underfull new) = 0 \<or> length new = 1"
    using pack_node_short [of _ m "join_nodes below a b"] by (auto simp: new_def filter_empty_conv)
  moreover have "length (filter underfull new) \<le> length new" by simp
  ultimately show ?thesis using assms(3) by linarith
qed

lemma rebalance_terminates:
  assumes "k < length kids \<and> 1 < length kids" "\<not> \<not> underfull (kids ! k)"
    "l = (if Suc k = length kids then k - 1 else k)"
  shows "((m, below, take l kids @ merge_nodes m below a b @ drop (l + 2) kids, l), m, below, kids, k) \<in>
    measures [\<lambda>(m, below, kids, k). length (filter underfull kids), \<lambda>(m, below, kids, k). length kids,
      \<lambda>(m, below, kids, k). length kids - k]"
proof -
  have "l \<le> k" "k \<le> Suc l" "Suc l < length kids" "underfull (kids ! k)" using assms by (auto split: if_splits)
  from rebalance_measure [OF this refl, of m below a b] show ?thesis by (auto simp del: append_take_drop_id length_append filter_append)
qed

termination rebalance_loop
proof (relation "measures [\<lambda>(m, below, kids, k). length (filter underfull kids), \<lambda>(m, below, kids, k). length kids,
    \<lambda>(m, below, kids, k). length kids - k]")
  fix m :: "('a, 's) summary" and below kids and k l :: nat and merged
  assume "k < length kids \<and> 1 < length kids" "\<not> \<not> underfull (kids ! k)"
    "l = (if Suc k = length kids then k - 1 else k)" "merged = merge_nodes m below (cnode (kids ! l)) (cnode (kids ! Suc l))"
  then show "((m, below, take l kids @ merged @ drop (l + 2) kids, l), m, below, kids, k) \<in>
    measures [\<lambda>(m, below, kids, k). length (filter underfull kids), \<lambda>(m, below, kids, k). length kids,
      \<lambda>(m, below, kids, k). length kids - k]"
    using rebalance_terminates [of k kids l m below] by blast
qed auto

declare rebalance_loop.simps [simp del]

primrec rebalance_at :: "('a, 's) summary \<Rightarrow> nat \<Rightarrow> ('a, 's) child list \<Rightarrow> ('a, 's) child list" where
  "rebalance_at m 0 kids = rebalance_loop m (\<lambda>ks. ks) kids 0"
| "rebalance_at m (Suc h) kids = rebalance_loop m (rebalance_at m h) kids 0"

definition rebalance :: "('a, 's) summary \<Rightarrow> ('a, 's) child list \<Rightarrow> ('a, 's) child list" where
  "rebalance m kids = rebalance_at m (case kids of [] \<Rightarrow> 0 | c # _ \<Rightarrow> node_height (cnode c)) kids"

section \<open>Splicing\<close>

text \<open>The child that holds the item at lo, with the number of items before it; and from there the child that holds hi.\<close>

fun skip_lo :: "('a, 's) child list \<Rightarrow> nat \<Rightarrow> nat \<Rightarrow> nat \<Rightarrow> nat \<times> nat" where
  "skip_lo (c # d # cs) lo i si =
     (if lo \<ge> si + ccount c then skip_lo (d # cs) lo (Suc i) (si + ccount c) else (i, si))"
| "skip_lo _ lo i si = (i, si)"

fun skip_hi :: "('a, 's) child list \<Rightarrow> nat \<Rightarrow> nat \<Rightarrow> nat \<Rightarrow> nat \<times> nat" where
  "skip_hi (c # d # cs) hi j sj =
     (if hi > sj + ccount c then skip_hi (d # cs) hi (Suc j) (sj + ccount c) else (j, sj))"
| "skip_hi _ hi j sj = (j, sj)"

lemma skip_lo_index: "cs \<noteq> [] \<Longrightarrow> skip_lo cs lo i si = (j, sj) \<Longrightarrow> i \<le> j \<and> j < i + length cs"
  by (induction cs lo i si rule: skip_lo.induct) (auto split: if_splits)

lemma skip_hi_index: "cs \<noteq> [] \<Longrightarrow> skip_hi cs hi i si = (j, sj) \<Longrightarrow> i \<le> j \<and> j < i + length cs"
  by (induction cs hi i si rule: skip_hi.induct) (auto split: if_splits)

text \<open>An inner node has children; the branch without them is the code's panic and is never taken.\<close>

function splice_node :: "('a, 's) summary \<Rightarrow> ('a, 's) node \<Rightarrow> nat \<Rightarrow> nat \<Rightarrow> 'a list \<Rightarrow> ('a, 's) child list" where
  "splice_node m (Leaf xs) lo hi repl =
     (let n = length xs - (hi - lo) + length repl
      in if n = 0 then []
         else if n \<le> maxItems then [child_of m (Leaf (take lo xs @ repl @ drop hi xs))]
         else pack_leaves m (take lo xs @ repl @ drop hi xs))"
| "splice_node m (Inner h ks) lo hi repl =
     (if ks = [] then []
      else
        let (i, si) = skip_lo ks lo 0 0;
            (j, sj) = skip_hi (drop i ks) hi i si;
            mid = (if i = j then splice_node m (cnode (ks ! i)) (lo - si) (hi - si) repl
                   else splice_node m (cnode (ks ! i)) (lo - si) (ccount (ks ! i)) repl @
                     splice_node m (cnode (ks ! j)) 0 (hi - sj) []);
            kids = rebalance m (take i ks @ mid @ drop (Suc j) ks)
        in if kids = [] then []
           else if length kids \<le> maxItems then [child_of m (Inner h kids)]
           else pack_inner m kids h)"
  by pat_completeness auto

lemma skip_lo_size: "ks \<noteq> [] \<Longrightarrow> (i, si) = skip_lo ks lo 0 0 \<Longrightarrow> size (cnode (ks ! i)) < Suc (size_list size ks)"
  using skip_lo_index [of ks lo 0 0 i si] by (intro size_cnode) auto

lemma skip_hi_size:
  "ks \<noteq> [] \<Longrightarrow> (i, si) = skip_lo ks lo 0 0 \<Longrightarrow> (j, sj) = skip_hi (drop i ks) hi i si \<Longrightarrow>
    size (cnode (ks ! j)) < Suc (size_list size ks)"
  using skip_lo_index [of ks lo 0 0 i si] skip_hi_index [of "drop i ks" hi i si j sj] by (intro size_cnode) auto

termination splice_node
  by (relation "measure (\<lambda>(m, n, lo, hi, repl). size n)") (auto dest: skip_lo_size skip_hi_size)

definition splice :: "('a, 's) summary \<Rightarrow> ('a, 's) sum_tree \<Rightarrow> nat \<Rightarrow> nat \<Rightarrow> 'a list \<Rightarrow> ('a, 's) sum_tree" where
  "splice m t lo hi repl =
     (case root t of
        None \<Rightarrow> set_root m (pack_leaves m repl)
      | Some n \<Rightarrow> set_root m (splice_node m n lo hi repl))"

section \<open>Reading\<close>

text \<open>The item at an index; None is the panic of an index past the end.\<close>

fun node_at :: "('a, 's) node \<Rightarrow> nat \<Rightarrow> 'a option" and kids_at :: "('a, 's) child list \<Rightarrow> nat \<Rightarrow> 'a option" where
  "node_at (Leaf xs) i = (if i < length xs then Some (xs ! i) else None)"
| "node_at (Inner _ ks) i = kids_at ks i"
| "kids_at [] i = None"
| "kids_at (Child s n k # ks) i = (if i \<ge> n then kids_at ks (i - n) else node_at k i)"

definition tree_at :: "('a, 's) sum_tree \<Rightarrow> nat \<Rightarrow> 'a option" where
  "tree_at t i = (case root t of None \<Rightarrow> None | Some n \<Rightarrow> node_at n i)"

text \<open>A scan threads the state of the code's callback; the flag is the callback's answer to go on.\<close>

fun scan_items :: "('a \<Rightarrow> 'b \<Rightarrow> 'b \<times> bool) \<Rightarrow> 'a list \<Rightarrow> 'b \<Rightarrow> 'b \<times> bool" where
  "scan_items f [] z = (z, True)"
| "scan_items f (x # xs) z = (case f x z of (z', go) \<Rightarrow> if go then scan_items f xs z' else (z', False))"

fun scan_node :: "('a \<Rightarrow> 'b \<Rightarrow> 'b \<times> bool) \<Rightarrow> ('a, 's) node \<Rightarrow> nat \<Rightarrow> 'b \<Rightarrow> 'b \<times> bool"
  and scan_kids :: "('a \<Rightarrow> 'b \<Rightarrow> 'b \<times> bool) \<Rightarrow> ('a, 's) child list \<Rightarrow> nat \<Rightarrow> 'b \<Rightarrow> 'b \<times> bool" where
  "scan_node f (Leaf xs) lo z = scan_items f (drop lo xs) z"
| "scan_node f (Inner _ ks) lo z = scan_kids f ks lo z"
| "scan_kids f [] lo z = (z, True)"
| "scan_kids f (Child s n k # ks) lo z =
     (if lo \<ge> n then scan_kids f ks (lo - n) z
      else case scan_node f k lo z of (z', go) \<Rightarrow> if go then scan_kids f ks 0 z' else (z', False))"

definition scan :: "('a \<Rightarrow> 'b \<Rightarrow> 'b \<times> bool) \<Rightarrow> ('a, 's) sum_tree \<Rightarrow> nat \<Rightarrow> 'b \<Rightarrow> 'b" where
  "scan f t lo z = (case root t of None \<Rightarrow> z | Some n \<Rightarrow> fst (scan_node f n lo z))"

definition collect :: "('a, 's) sum_tree \<Rightarrow> nat \<Rightarrow> nat \<Rightarrow> 'a list \<Rightarrow> 'a list" where
  "collect t lo hi dst =
     (if lo \<ge> hi then dst
      else snd (scan (\<lambda>x (n, dst). ((n - 1, dst @ [x]), n - 1 > 0)) t lo (int (hi - lo), dst)))"

text \<open>The items of a tree.\<close>

definition tree_items :: "('a, 's) sum_tree \<Rightarrow> 'a list" where
  "tree_items t = (case root t of None \<Rightarrow> [] | Some n \<Rightarrow> items_of n)"

end
