(* ===== verification/Rope.thy ===== *)
theory Rope
  imports Sum_Tree "HOL-Library.Word"
begin

text \<open>
  The text itself, \<open>src/internal/textbuf/rope.go\<close>: a sum tree of chunks of at most 128 bytes,
  measured in bytes, newlines and the length of the last line. A chunk stores its rows and
  column in a byte each, so both are taken modulo 256. Offsets that a caller passes are
  integers; inside they are naturals. The path of a descent is the list of its slots.
\<close>

section \<open>Chunks\<close>

type_synonym byte = "8 word"

definition nl :: byte where
  "nl = 10"

definition chunkCap :: nat where
  "chunkCap = 128"

definition chunkMin :: nat where
  "chunkMin = chunkCap div 2"

definition maxHeight :: nat where
  "maxHeight = 12"

text \<open>A slice expression whose bounds are out of order or out of range panics: an error of its own here.\<close>

datatype text_error = ErrRange | SliceBounds

record text_sum =
  sbytes :: nat
  srows :: nat
  scol :: nat

definition add_text :: "text_sum \<Rightarrow> text_sum \<Rightarrow> text_sum" where
  "add_text s o' =
     (if srows o' > 0
      then \<lparr>sbytes = sbytes s + sbytes o', srows = srows s + srows o', scol = scol o'\<rparr>
      else \<lparr>sbytes = sbytes s + sbytes o', srows = srows s, scol = scol s + scol o'\<rparr>)"

record chunk =
  cbytes :: "byte list"
  crows :: nat
  ccol :: nat

definition count_nl :: "byte list \<Rightarrow> nat" where
  "count_nl b = length (filter (\<lambda>c. c = nl) b)"

text \<open>The bytes after the last newline, all of them when there is none: \<open>n - LastIndexByte(b) - 1\<close>.\<close>

definition after_nl :: "byte list \<Rightarrow> nat" where
  "after_nl b = length (takeWhile (\<lambda>c. c \<noteq> nl) (rev b))"

definition chunk_of :: "byte list \<Rightarrow> chunk" where
  "chunk_of b = \<lparr>cbytes = b, crows = count_nl b mod 256, ccol = after_nl b mod 256\<rparr>"

definition measure_chunk :: "chunk \<Rightarrow> text_sum" where
  "measure_chunk c = \<lparr>sbytes = length (cbytes c), srows = crows c, scol = ccol c\<rparr>"

definition zero_text :: text_sum where
  "zero_text = \<lparr>sbytes = 0, srows = 0, scol = 0\<rparr>"

definition text_summary :: "(chunk, text_sum) summary" where
  "text_summary = \<lparr>add_sum = add_text, zero_sum = zero_text, measure_of = measure_chunk\<rparr>"

type_synonym rope = "(chunk, text_sum) sum_tree"

type_synonym rope_node = "(chunk, text_sum) node"

type_synonym rope_child = "(chunk, text_sum) child"

definition chunkify :: "byte list \<Rightarrow> chunk list" where
  "chunkify text = map chunk_of (even_groups chunkCap text)"

definition new_rope :: "byte list \<Rightarrow> rope" where
  "new_rope text = new_tree text_summary (chunkify text)"

section \<open>Finding a chunk\<close>

text \<open>
  The descent to the chunk that holds an offset: the slot taken at each depth, the index of
  the chunk and its first offset. An offset between two chunks belongs to the first.
\<close>

fun leaf_slot :: "chunk list \<Rightarrow> nat \<Rightarrow> nat \<Rightarrow> nat \<Rightarrow> nat \<times> nat" where
  "leaf_slot (c # d # cs) off k start =
     (if off > start + length (cbytes c) then leaf_slot (d # cs) off (Suc k) (start + length (cbytes c)) else (k, start))"
| "leaf_slot _ off k start = (k, start)"

fun descend :: "rope_node \<Rightarrow> nat \<Rightarrow> nat \<Rightarrow> nat \<Rightarrow> nat list \<times> nat \<times> nat"
  and descend_kids :: "rope_child list \<Rightarrow> nat \<Rightarrow> nat \<Rightarrow> nat \<Rightarrow> nat \<Rightarrow> nat list \<times> nat \<times> nat" where
  "descend (Leaf xs) off index start = (case leaf_slot xs off 0 start of (k, start') \<Rightarrow> ([k], index + k, start'))"
| "descend (Inner _ ks) off index start = descend_kids ks 0 off index start"
| "descend_kids [] k off index start = ([], index, start)"
| "descend_kids (Child s n kid # cs) k off index start =
     (if off \<le> start + sbytes s \<or> cs = []
      then (case descend kid off index start of (slots, i, st) \<Rightarrow> (k # slots, i, st))
      else descend_kids cs (Suc k) off (index + n) (start + sbytes s))"

text \<open>An empty text has no root to descend from; no caller asks.\<close>

definition locate :: "rope \<Rightarrow> nat \<Rightarrow> nat \<times> nat" where
  "locate r off = (case root r of None \<Rightarrow> (0, 0) | Some n \<Rightarrow> snd (descend n off 0 0))"

section \<open>Reading\<close>

definition rope_len :: "rope \<Rightarrow> nat" where
  "rope_len r = sbytes (tsum r)"

definition rope_lines :: "rope \<Rightarrow> nat" where
  "rope_lines r = srows (tsum r) + 1"

definition rope_string :: "rope \<Rightarrow> byte list" where
  "rope_string r = scan (\<lambda>c b. (b @ cbytes c, True)) r 0 []"

definition range_step :: "nat \<Rightarrow> nat \<Rightarrow> chunk \<Rightarrow> byte list \<times> nat \<Rightarrow> (byte list \<times> nat) \<times> bool" where
  "range_step start stop c z =
     (case z of (dst, at0) \<Rightarrow>
        let b = cbytes c; lo = start - at0; hi = min (stop - at0) (length b)
        in ((dst @ drop lo (take hi b), at0 + length b), at0 + length b < stop))"

definition append_range :: "rope \<Rightarrow> byte list \<Rightarrow> nat \<Rightarrow> nat \<Rightarrow> byte list" where
  "append_range r dst start stop =
     (if start = stop then dst
      else case locate r start of (i, at0) \<Rightarrow> fst (scan (range_step start stop) r i (dst, at0)))"

definition rope_bytes :: "rope \<Rightarrow> byte list" where
  "rope_bytes r = append_range r [] 0 (rope_len r)"

definition rope_slice :: "rope \<Rightarrow> int \<Rightarrow> int \<Rightarrow> text_error + byte list" where
  "rope_slice r start stop =
     (if start < 0 \<or> start > stop \<or> stop > int (rope_len r) then Inl ErrRange
      else Inr (append_range r [] (nat start) (nat stop)))"

type_synonym point = "nat \<times> nat"

fun point_items :: "chunk list \<Rightarrow> nat \<Rightarrow> text_sum \<Rightarrow> point" where
  "point_items [] off acc = (0, 0)"
| "point_items (c # cs) off acc =
     (if off \<le> sbytes acc + length (cbytes c) \<or> cs = []
      then
        let part = take (off - sbytes acc) (cbytes c)
        in if nl \<in> set part then (srows acc + count_nl part, after_nl part)
           else (srows acc, scol acc + length part)
      else point_items cs off (add_text acc (measure_chunk c)))"

fun point_node :: "rope_node \<Rightarrow> nat \<Rightarrow> text_sum \<Rightarrow> point"
  and point_kids :: "rope_child list \<Rightarrow> nat \<Rightarrow> text_sum \<Rightarrow> point" where
  "point_node (Leaf xs) off acc = point_items xs off acc"
| "point_node (Inner _ ks) off acc = point_kids ks off acc"
| "point_kids [] off acc = (0, 0)"
| "point_kids (Child s n kid # cs) off acc =
     (if off \<le> sbytes acc + sbytes s \<or> cs = [] then point_node kid off acc else point_kids cs off (add_text acc s))"

definition rope_point :: "rope \<Rightarrow> int \<Rightarrow> text_error + point" where
  "rope_point r off =
     (if off < 0 \<or> off > int (rope_len r) then Inl ErrRange
      else case root r of None \<Rightarrow> Inr (0, 0) | Some n \<Rightarrow> Inr (point_node n (nat off) zero_text))"

text \<open>
  The offset of a point. Looking for the first child that reaches it, the code's loop over a
  node whose children all fall short never ends: that is the answer None.
\<close>

definition reaches :: "int \<Rightarrow> int \<Rightarrow> text_sum \<Rightarrow> bool" where
  "reaches line col s \<longleftrightarrow> int (srows s) > line \<or> int (srows s) = line \<and> int (scol s) \<ge> col"

fun skip_rows :: "byte list \<Rightarrow> nat \<Rightarrow> nat \<Rightarrow> nat" where
  "skip_rows b 0 i = i"
| "skip_rows b (Suc n) i =
     skip_rows b n (case index_func (\<lambda>c. c = nl) (drop i b) of None \<Rightarrow> i | Some k \<Rightarrow> i + k + 1)"

text \<open>
  The column is the caller's, so the sum wraps for one near the top of its range. It then passes
  the comparison with the chunk's length, and the slice from i to it panics.
\<close>

definition chunk_offset :: "chunk \<Rightarrow> text_sum \<Rightarrow> int \<Rightarrow> int \<Rightarrow> text_error + int" where
  "chunk_offset c acc line col =
     (let b = cbytes c; rows = nat (line - int (srows acc));
          i = skip_rows b rows 0;
          want = wrap64 (wrap64 (int i + col) - (if rows = 0 then int (scol acc) else 0))
      in if want > int (length b) then Inl ErrRange
         else if want < int i then Inl SliceBounds
         else if nl \<in> set (drop i (take (nat want) b)) then Inl ErrRange
         else Inr want)"

fun offset_items :: "chunk list \<Rightarrow> int \<Rightarrow> int \<Rightarrow> text_sum \<Rightarrow> text_error + int" where
  "offset_items [] line col acc = Inl ErrRange"
| "offset_items (c # cs) line col acc =
     (if reaches line col (add_text acc (measure_chunk c))
      then (case chunk_offset c acc line col of Inr off \<Rightarrow> Inr (int (sbytes acc) + off) | Inl err \<Rightarrow> Inl err)
      else offset_items cs line col (add_text acc (measure_chunk c)))"

fun offset_node :: "rope_node \<Rightarrow> int \<Rightarrow> int \<Rightarrow> text_sum \<Rightarrow> (text_error + int) option"
  and offset_kids :: "rope_child list \<Rightarrow> int \<Rightarrow> int \<Rightarrow> text_sum \<Rightarrow> (text_error + int) option" where
  "offset_node (Leaf xs) line col acc = Some (offset_items xs line col acc)"
| "offset_node (Inner _ ks) line col acc = offset_kids ks line col acc"
| "offset_kids [] line col acc = None"
| "offset_kids (Child s n kid # cs) line col acc =
     (if reaches line col (add_text acc s) then offset_node kid line col acc else offset_kids cs line col (add_text acc s))"

definition rope_offset :: "rope \<Rightarrow> int \<Rightarrow> int \<Rightarrow> (text_error + int) option" where
  "rope_offset r line col =
     (if line < 0 \<or> col < 0 \<or> \<not> reaches line col (tsum r) then Some (Inl ErrRange)
      else case root r of None \<Rightarrow> Some (Inr 0) | Some n \<Rightarrow> offset_node n line col zero_text)"

section \<open>Editing\<close>

definition sum_chunks :: "chunk list \<Rightarrow> text_sum" where
  "sum_chunks xs = foldl (\<lambda>s c. add_text s (measure_chunk c)) zero_text xs"

definition sum_kids :: "rope_child list \<Rightarrow> text_sum" where
  "sum_kids ks = foldl (\<lambda>s c. add_text s (csum c)) zero_text ks"

fun resum :: "rope_node \<Rightarrow> text_sum" where
  "resum (Leaf xs) = sum_chunks xs"
| "resum (Inner _ ks) = sum_kids ks"

text \<open>The leaf at the end of a path, and the node with that leaf's items changed and its ancestors resummed.\<close>

fun path_leaf :: "nat list \<Rightarrow> rope_node \<Rightarrow> chunk list" where
  "path_leaf (k # l # path) n = path_leaf (l # path) (cnode (node_kids n ! k))"
| "path_leaf _ n = leaf_items n"

fun put_leaf :: "nat list \<Rightarrow> chunk list \<Rightarrow> nat \<Rightarrow> rope_node \<Rightarrow> rope_node" where
  "put_leaf (k # l # path) xs grow n =
     (let kid = node_kids n ! k; n' = put_leaf (l # path) xs grow (cnode kid)
      in Inner (node_height n) ((node_kids n)[k := Child (resum n') (ccount kid + grow) n']))"
| "put_leaf _ xs grow n = Leaf xs"

definition replace_in_chunk :: "rope \<Rightarrow> nat \<Rightarrow> nat \<Rightarrow> byte list \<Rightarrow> rope option" where
  "replace_in_chunk r s e text =
     (case root r of
        None \<Rightarrow> None
      | Some n \<Rightarrow>
          (case descend n s 0 0 of
             (slots, index, start) \<Rightarrow>
               let items = path_leaf slots n; k = last slots;
                   b = cbytes (items ! k); lo = s - start; hi = e - start;
                   m = length b - (hi - lo) + length text;
                   split = (m > chunkCap \<and> m \<le> 2 * chunkCap \<and> length items < maxItems)
               in if hi > length b \<or> (m > chunkCap \<and> \<not> split) \<or> m = 0 \<or> (m < chunkMin div 2 \<and> tcount r > 1) then None
                  else
                    let w = take lo b @ text @ drop hi b;
                        items' = (if split
                                  then insert_at (Suc k) (chunk_of (drop (length w div 2) w)) (items[k := chunk_of (take (length w div 2) w)])
                                  else items[k := chunk_of w]);
                        grow = (if split then 1 else 0);
                        n' = put_leaf slots items' grow n
                    in Some \<lparr>root = Some n', tsum = resum n', tcount = tcount r + grow\<rparr>))"

text \<open>The bytes of the chunk at an index, which the code takes from an index that exists.\<close>

definition chunk_bytes :: "rope \<Rightarrow> nat \<Rightarrow> byte list" where
  "chunk_bytes r i = (case tree_at r i of None \<Rightarrow> [] | Some c \<Rightarrow> cbytes c)"

definition rope_replace :: "rope \<Rightarrow> nat \<Rightarrow> nat \<Rightarrow> byte list \<Rightarrow> rope" where
  "rope_replace r s e text =
     (case replace_in_chunk r s e text of
        Some r' \<Rightarrow> r'
      | None \<Rightarrow>
          if root r = None then splice text_summary r 0 0 (chunkify text)
          else
            let (i, is) = locate r s;
                (j, js) = (if e > s then locate r e else (i, is));
                buf = take (s - is) (chunk_bytes r i) @ text @ drop (e - js) (chunk_bytes r j);
                (i', j', buf') =
                  (if length buf < chunkMin
                   then if j + 1 < tcount r then (i, j + 1, buf @ chunk_bytes r (j + 1))
                        else if i > 0 then (i - 1, j, chunk_bytes r (i - 1) @ buf)
                        else (i, j, buf)
                   else (i, j, buf))
            in splice text_summary r i' (j' + 1) (chunkify buf'))"

end
