(* ===== verification/Anchors.thy ===== *)
theory Anchors
  imports Sum_Tree "HOL-Library.Word"
begin

text \<open>
  Positions that move with edits, \<open>src/internal/textbuf/anchor.go\<close>: the anchors of one bias
  are a sum tree of gaps, found by position on a seek and by key on a find. Keys are 64-bit
  and handles 32-bit words. A key that is missing is the code's panic, the answer None;
  so is a seek or a find in an inner node none of whose children qualifies, which in the code
  does not end.
\<close>

unbundle bit_operations_syntax

section \<open>Handles\<close>

datatype bias = left | right

type_synonym anchor = "32 word"

definition startAnchor :: anchor where
  "startAnchor = 0"

definition rightBit :: anchor where
  "rightBit = push_bit 31 1"

definition anchor_side :: "anchor \<Rightarrow> bias" where
  "anchor_side a = (if a AND rightBit \<noteq> 0 then right else left)"

definition anchor_slot :: "anchor \<Rightarrow> 32 word" where
  "anchor_slot a = (a AND NOT rightBit) - 1"

section \<open>Entries\<close>

record anchor_entry =
  ekey :: "64 word"
  gap :: int
  slot :: "32 word"

record anchor_sum =
  spos :: int
  maxKey :: "64 word"

definition add_anchor :: "anchor_sum \<Rightarrow> anchor_sum \<Rightarrow> anchor_sum" where
  "add_anchor s o' = \<lparr>spos = spos s + spos o', maxKey = max (maxKey s) (maxKey o')\<rparr>"

definition measure_anchor :: "anchor_entry \<Rightarrow> anchor_sum" where
  "measure_anchor e = \<lparr>spos = gap e, maxKey = ekey e\<rparr>"

definition zero_anchor :: anchor_sum where
  "zero_anchor = \<lparr>spos = 0, maxKey = 0\<rparr>"

definition anchor_summary :: "(anchor_entry, anchor_sum) summary" where
  "anchor_summary = \<lparr>add_sum = add_anchor, zero_sum = zero_anchor, measure_of = measure_anchor\<rparr>"

type_synonym anchor_node = "(anchor_entry, anchor_sum) node"

type_synonym anchor_child = "(anchor_entry, anchor_sum) child"

definition keyStep :: "64 word" where
  "keyStep = push_bit 32 1"

definition maxUint64 :: "64 word" where
  "maxUint64 = - 1"

record anchor_tree =
  entries :: "(anchor_entry, anchor_sum) sum_tree"
  keys :: "64 word list"   \<comment> \<open>by slot; 0 marks a free slot\<close>
  free :: "32 word list"

definition new_anchor_tree :: anchor_tree where
  "new_anchor_tree = \<lparr>entries = new_tree anchor_summary [], keys = [], free = []\<rparr>"

section \<open>Finding\<close>

definition passes :: "int \<Rightarrow> bool \<Rightarrow> int \<Rightarrow> bool" where
  "passes pos inclusive p \<longleftrightarrow> p > pos \<or> (inclusive \<and> p = pos)"

type_synonym sought = "nat \<times> int \<times> 64 word \<times> bool"

fun seek_items :: "(int \<Rightarrow> bool) \<Rightarrow> anchor_entry list \<Rightarrow> nat \<Rightarrow> nat \<Rightarrow> anchor_sum \<Rightarrow> sought" where
  "seek_items p [] idx k prev = (idx, spos prev, maxKey prev, False)"
| "seek_items p (e # es) idx k prev =
     (if p (spos prev + gap e) then (idx + k, spos prev, maxKey prev, True)
      else seek_items p es idx (Suc k) \<lparr>spos = spos prev + gap e, maxKey = ekey e\<rparr>)"

fun seek_node :: "(int \<Rightarrow> bool) \<Rightarrow> anchor_node \<Rightarrow> nat \<Rightarrow> anchor_sum \<Rightarrow> sought option"
  and seek_kids :: "(int \<Rightarrow> bool) \<Rightarrow> anchor_child list \<Rightarrow> nat \<Rightarrow> anchor_sum \<Rightarrow> sought option" where
  "seek_node p (Leaf xs) idx prev = Some (seek_items p xs idx 0 prev)"
| "seek_node p (Inner _ ks) idx prev = seek_kids p ks idx prev"
| "seek_kids p [] idx prev = None"
| "seek_kids p (Child s n k # cs) idx prev =
     (if p (spos prev + spos s) then seek_node p k idx prev
      else seek_kids p cs (idx + n) (add_anchor prev s))"

definition seek :: "anchor_tree \<Rightarrow> int \<Rightarrow> bool \<Rightarrow> sought option" where
  "seek a pos inclusive =
     (case root (entries a) of
        None \<Rightarrow> Some (0, 0, 0, False)
      | Some n \<Rightarrow>
          if \<not> passes pos inclusive (spos (tsum (entries a)))
          then Some (tcount (entries a), spos (tsum (entries a)), maxKey (tsum (entries a)), False)
          else seek_node (passes pos inclusive) n 0 zero_anchor)"

fun find_items :: "64 word \<Rightarrow> anchor_entry list \<Rightarrow> nat \<Rightarrow> int \<Rightarrow> (nat \<times> int) option" where
  "find_items key [] idx pos = None"
| "find_items key (e # es) idx pos =
     (if ekey e = key then Some (idx, pos + gap e) else find_items key es (Suc idx) (pos + gap e))"

fun find_node :: "64 word \<Rightarrow> anchor_node \<Rightarrow> nat \<Rightarrow> int \<Rightarrow> (nat \<times> int) option"
  and find_kids :: "64 word \<Rightarrow> anchor_child list \<Rightarrow> nat \<Rightarrow> int \<Rightarrow> (nat \<times> int) option" where
  "find_node key (Leaf xs) idx pos = find_items key xs idx pos"
| "find_node key (Inner _ ks) idx pos = find_kids key ks idx pos"
| "find_kids key [] idx pos = None"
| "find_kids key (Child s n k # cs) idx pos =
     (if maxKey s \<ge> key then find_node key k idx pos else find_kids key cs (idx + n) (pos + spos s))"

text \<open>A tree without entries has no root to descend from: the code's nil dereference.\<close>

definition find_key :: "anchor_tree \<Rightarrow> 64 word \<Rightarrow> (nat \<times> int) option" where
  "find_key a key = (case root (entries a) of None \<Rightarrow> None | Some n \<Rightarrow> find_node key n 0 0)"

section \<open>Adding\<close>

definition between :: "64 word \<Rightarrow> 64 word \<Rightarrow> 64 word option" where
  "between lo hi = (if hi - lo < 2 then None else Some (lo + min keyStep ((hi - lo) div 2)))"

definition relabel :: "anchor_tree \<Rightarrow> anchor_tree" where
  "relabel a =
     (let es = collect (entries a) 0 (tcount (entries a)) [];
          stride = maxUint64 div of_nat (length es + 2);
          es' = map (\<lambda>i. (es ! i)\<lparr>ekey := of_nat (i + 1) * stride\<rparr>) [0..<length es]
      in a\<lparr>entries := new_tree anchor_summary es',
           keys := foldl (\<lambda>ks e. ks[unat (slot e) := ekey e]) (keys a) es'\<rparr>)"

text \<open>One attempt to add; the outer None is no room between two keys, the inner one a panic.\<close>

definition take_slot :: "anchor_tree \<Rightarrow> 64 word \<Rightarrow> anchor_tree \<times> 32 word" where
  "take_slot a key =
     (if free a \<noteq> []
      then (a\<lparr>free := butlast (free a), keys := (keys a)[unat (last (free a)) := key]\<rparr>, last (free a))
      else (a\<lparr>keys := keys a @ [key]\<rparr>, of_nat (length (keys a))))"

definition try_add :: "anchor_tree \<Rightarrow> int \<Rightarrow> (anchor_tree \<times> 32 word) option option" where
  "try_add a pos =
     (case seek a pos False of
        None \<Rightarrow> Some None
      | Some (idx, prevPos, prevKey, found) \<Rightarrow>
          let next = (if found then tree_at (entries a) idx else None)
          in if found \<and> next = None then Some None
             else case between prevKey (case next of Some e \<Rightarrow> ekey e | None \<Rightarrow> maxUint64) of
               None \<Rightarrow> None
             | Some key \<Rightarrow>
                 (case take_slot a key of
                    (a1, s) \<Rightarrow>
                      let e = \<lparr>ekey = key, gap = pos - prevPos, slot = s\<rparr>
                      in Some (Some (case next of
                           None \<Rightarrow> a1\<lparr>entries := splice anchor_summary (entries a1) idx idx [e]\<rparr>
                         | Some nx \<Rightarrow> a1\<lparr>entries := splice anchor_summary (entries a1) idx (idx + 1) [e, nx\<lparr>gap := gap nx - gap e\<rparr>]\<rparr>, s))))"

text \<open>
  Without room the code relabels and starts again. Relabelling a second time gives the
  same keys, so a second failure would repeat forever: the answer None.
\<close>

definition add_at :: "anchor_tree \<Rightarrow> int \<Rightarrow> (anchor_tree \<times> 32 word) option" where
  "add_at a pos =
     (case try_add a pos of
        Some r \<Rightarrow> r
      | None \<Rightarrow> (case try_add (relabel a) pos of Some r \<Rightarrow> r | None \<Rightarrow> None))"

section \<open>Reading and removing\<close>

definition slot_key :: "anchor_tree \<Rightarrow> 32 word \<Rightarrow> 64 word option" where
  "slot_key a s =
     (if unat s \<ge> length (keys a) \<or> keys a ! unat s = 0 then None else Some (keys a ! unat s))"

definition resolve_slot :: "anchor_tree \<Rightarrow> 32 word \<Rightarrow> int option" where
  "resolve_slot a s =
     (case slot_key a s of
        None \<Rightarrow> None
      | Some key \<Rightarrow> map_option snd (find_key a key))"

definition remove_slot :: "anchor_tree \<Rightarrow> 32 word \<Rightarrow> anchor_tree option" where
  "remove_slot a s =
     (case slot_key a s of
        None \<Rightarrow> None
      | Some key \<Rightarrow>
          (case find_key a key of
             None \<Rightarrow> None
           | Some (idx, _) \<Rightarrow>
               let a1 = a\<lparr>keys := (keys a)[unat s := 0], free := free a @ [s]\<rparr>
               in case tree_at (entries a) idx of
                    None \<Rightarrow> None
                  | Some e \<Rightarrow>
                      if idx + 1 = tcount (entries a)
                      then Some (a1\<lparr>entries := splice anchor_summary (entries a) idx (idx + 1) []\<rparr>)
                      else case tree_at (entries a) (idx + 1) of
                             None \<Rightarrow> None
                           | Some nx \<Rightarrow> Some (a1\<lparr>entries := splice anchor_summary (entries a) idx (idx + 2)
                               [nx\<lparr>gap := gap nx + gap e\<rparr>]\<rparr>)))"

section \<open>Moving\<close>

fun shift_items :: "(int \<Rightarrow> bool) \<Rightarrow> int \<Rightarrow> anchor_entry list \<Rightarrow> int \<Rightarrow> anchor_entry list" where
  "shift_items p delta [] pos = []"
| "shift_items p delta (e # es) pos =
     (if p (pos + gap e) then e\<lparr>gap := gap e + delta\<rparr> # es else e # shift_items p delta es (pos + gap e))"

fun shift_node :: "(int \<Rightarrow> bool) \<Rightarrow> int \<Rightarrow> anchor_node \<Rightarrow> int \<Rightarrow> anchor_node"
  and shift_kids :: "(int \<Rightarrow> bool) \<Rightarrow> int \<Rightarrow> anchor_child list \<Rightarrow> int \<Rightarrow> anchor_child list" where
  "shift_node p delta (Leaf xs) pos = Leaf (shift_items p delta xs pos)"
| "shift_node p delta (Inner h ks) pos = Inner h (shift_kids p delta ks pos)"
| "shift_kids p delta [] pos = []"
| "shift_kids p delta (Child s n k # cs) pos =
     (if p (pos + spos s) then Child (s\<lparr>spos := spos s + delta\<rparr>) n (shift_node p delta k pos) # cs
      else Child s n k # shift_kids p delta cs (pos + spos s))"

definition shift :: "anchor_tree \<Rightarrow> int \<Rightarrow> bool \<Rightarrow> int \<Rightarrow> anchor_tree" where
  "shift a pos inclusive delta =
     (let t = entries a; p = passes pos inclusive
      in case root t of
           None \<Rightarrow> a
         | Some n \<Rightarrow>
             if \<not> p (spos (tsum t)) then a
             else a\<lparr>entries := t\<lparr>root := Some (shift_node p delta n 0), tsum := (tsum t)\<lparr>spos := spos (tsum t) + delta\<rparr>\<rparr>\<rparr>)"

definition collapse_step :: "int \<Rightarrow> int \<Rightarrow> anchor_entry \<Rightarrow> int \<times> int \<times> anchor_entry list \<Rightarrow> (int \<times> int \<times> anchor_entry list) \<times> bool" where
  "collapse_step s e it z =
     (case z of (pos0, newPrev, moved) \<Rightarrow>
        let pos = pos0 + gap it;
            newPos = (if pos > e then pos - (e - s) else s)
        in ((pos, newPos, moved @ [it\<lparr>gap := newPos - newPrev\<rparr>]), pos \<le> e))"

definition collapse :: "anchor_tree \<Rightarrow> int \<Rightarrow> int \<Rightarrow> anchor_tree option" where
  "collapse a s e =
     (case seek a s False of
        None \<Rightarrow> None
      | Some (idx, prevPos, _, found) \<Rightarrow>
          if \<not> found then Some a
          else (case tree_at (entries a) idx of
             None \<Rightarrow> None
           | Some x \<Rightarrow>
               if prevPos + gap x > e then Some (shift a s False (s - e))
               else case scan (collapse_step s e) (entries a) idx (prevPos, prevPos, []) of
                 (_, _, moved) \<Rightarrow> Some (a\<lparr>entries := splice anchor_summary (entries a) idx (idx + length moved) moved\<rparr>)))"

end
