(* ===== verification/Text_Buffer.thy ===== *)
theory Text_Buffer
  imports Rope Anchors "HOL-Library.Product_Lexorder"
begin

text \<open>
  The buffer, \<open>src/internal/textbuf/buffer.go\<close>: a rope with the anchors of either bias. A change
  resolves every edit against the text as it is, checks the ranges and applies them from
  the last to the first. Resolving a released anchor panics; the panic is an error of its own.
  An edit's numbers are the caller's, so the sums of Apply wrap; texts are far below the width.
\<close>

datatype buffer_error = ErrOffset int | ErrEdit nat | ErrOverlap nat nat | Panicked

record buffer =
  brope :: rope
  lefts :: anchor_tree
  rights :: anchor_tree
  version :: "64 word"

definition new_buffer :: "byte list \<Rightarrow> buffer" where
  "new_buffer b = \<lparr>brope = new_rope b, lefts = new_anchor_tree, rights = new_anchor_tree, version = 0\<rparr>"

definition side_tree :: "buffer \<Rightarrow> bias \<Rightarrow> anchor_tree" where
  "side_tree b side = (case side of left \<Rightarrow> lefts b | right \<Rightarrow> rights b)"

definition set_side :: "buffer \<Rightarrow> bias \<Rightarrow> anchor_tree \<Rightarrow> buffer" where
  "set_side b side a = (case side of left \<Rightarrow> b\<lparr>lefts := a\<rparr> | right \<Rightarrow> b\<lparr>rights := a\<rparr>)"

text \<open>A bias is one of two values here, so the code's third error, an invalid bias, has no counterpart.\<close>

definition make_anchor :: "buffer \<Rightarrow> int \<Rightarrow> bias \<Rightarrow> buffer_error + (buffer \<times> anchor)" where
  "make_anchor b off side =
     (if off < 0 \<or> off > int (rope_len (brope b)) then Inl (ErrOffset off)
      else case add_at (side_tree b side) off of
        None \<Rightarrow> Inl Panicked
      | Some (a, s) \<Rightarrow> Inr (set_side b side a, if side = right then (s + 1) OR rightBit else s + 1))"

definition resolve :: "buffer \<Rightarrow> anchor \<Rightarrow> int option" where
  "resolve b a =
     (if a = startAnchor then Some 0 else resolve_slot (side_tree b (anchor_side a)) (anchor_slot a))"

definition release_anchor :: "buffer \<Rightarrow> anchor \<Rightarrow> buffer option" where
  "release_anchor b a =
     (if a = startAnchor then Some b
      else map_option (set_side b (anchor_side a)) (remove_slot (side_tree b (anchor_side a)) (anchor_slot a)))"

record edit =
  Anchor :: anchor
  Offset :: int
  Delete :: int
  Text :: "byte list"

type_synonym span = "int \<times> int \<times> nat"   \<comment> \<open>start, end and the number of the edit\<close>

definition move_side :: "anchor_tree \<Rightarrow> bias \<Rightarrow> int \<Rightarrow> int \<Rightarrow> byte list \<Rightarrow> anchor_tree option" where
  "move_side a side s e b =
     (case (if e > s then collapse a s e else Some a) of
        None \<Rightarrow> None
      | Some a1 \<Rightarrow> Some (if b \<noteq> [] then shift a1 s (side = right) (int (length b)) else a1))"

text \<open>
  A range that ends before it starts, as Apply makes one when the end wraps: with chunks to slice,
  the rope's replace panics, on the chunk's bounds or on the capacity of its buffer; without, it
  splices the new text in.
\<close>

definition buffer_replace :: "buffer \<Rightarrow> int \<Rightarrow> int \<Rightarrow> byte list \<Rightarrow> buffer option" where
  "buffer_replace b s e text' =
     (if s = e \<and> text' = [] then Some b
      else if e < s \<and> root (brope b) \<noteq> None then None
      else
        case (move_side (lefts b) left s e text', move_side (rights b) right s e text') of
          (Some l, Some r) \<Rightarrow> Some (b\<lparr>brope := rope_replace (brope b) (nat s) (nat e) text', lefts := l, rights := r\<rparr>)
        | _ \<Rightarrow> None)"

text \<open>The ranges of the edits, or the first error in the order of the arguments.\<close>

fun edit_spans :: "buffer \<Rightarrow> edit list \<Rightarrow> nat \<Rightarrow> buffer_error + span list" where
  "edit_spans b [] i = Inr []"
| "edit_spans b (e # es) i =
     (case resolve b (Anchor e) of
        None \<Rightarrow> Inl Panicked
      | Some p \<Rightarrow>
          let s = wrap64 (p + Offset e); t = wrap64 (s + Delete e)
          in if Delete e < 0 \<or> s < 0 \<or> t > int (rope_len (brope b)) then Inl (ErrEdit i)
             else case edit_spans b es (Suc i) of
               Inl err \<Rightarrow> Inl err
             | Inr sps \<Rightarrow> Inr ((s, t, i) # sps))"

text \<open>
  \<open>slices.SortStableFunc\<close> is this insertion sort for up to twenty spans; beyond, it merges sorted
  blocks, with the same result for a comparison that orders, as this one does unless a difference
  of ends wraps.
\<close>

definition span_before :: "span \<Rightarrow> span \<Rightarrow> bool" where
  "span_before x y \<longleftrightarrow>
     (case (x, y) of ((s, e, i), (s', e', i')) \<Rightarrow>
        (if s - s' \<noteq> 0 then s - s' < 0 else wrap64 (e - e') < 0))"

text \<open>The sorted prefix from its end.\<close>

fun insert_back :: "span \<Rightarrow> span list \<Rightarrow> span list" where
  "insert_back x [] = [x]"
| "insert_back x (y # ys) = (if span_before x y then y # insert_back x ys else x # y # ys)"

definition sort_spans :: "span list \<Rightarrow> span list" where
  "sort_spans sps = rev (foldl (\<lambda>prefix x. insert_back x prefix) [] sps)"

fun overlap :: "span list \<Rightarrow> (nat \<times> nat) option" where
  "overlap ((s, e, i) # (s', e', i') # sps) = (if e > s' then Some (i, i') else overlap ((s', e', i') # sps))"
| "overlap _ = None"

text \<open>The spans applied from the last to the first.\<close>

fun replace_spans :: "buffer \<Rightarrow> edit list \<Rightarrow> span list \<Rightarrow> buffer option" where
  "replace_spans b es [] = Some b"
| "replace_spans b es ((s, e, i) # sps) =
     (case replace_spans b es sps of
        None \<Rightarrow> None
      | Some b' \<Rightarrow> buffer_replace b' s e (Text (es ! i)))"

definition apply_edits :: "buffer \<Rightarrow> edit list \<Rightarrow> buffer_error + buffer" where
  "apply_edits b es =
     (case edit_spans b es 0 of
        Inl err \<Rightarrow> Inl err
      | Inr sps0 \<Rightarrow>
          let sps = sort_spans sps0
          in case overlap sps of
               Some (i, j) \<Rightarrow> Inl (ErrOverlap i j)
             | None \<Rightarrow>
                 (case replace_spans b es sps of
                    None \<Rightarrow> Inl Panicked
                  | Some b' \<Rightarrow> Inr (if sps \<noteq> [] then b'\<lparr>version := version b' + 1\<rparr> else b')))"

end
