(* ===== verification/Sum_Tree_Correct.thy ===== *)
theory Sum_Tree_Correct
  imports Sum_Tree
begin

text \<open>
  The tree keeps its shape and its items: every operation returns a balanced tree whose
  stored sums and counts are those of its items, and a splice of the tree is a splice of
  the list of its items.
\<close>

section \<open>The shape\<close>

fun balanced :: "nat \<Rightarrow> ('a, 's) node \<Rightarrow> bool" where
  "balanced 0 (Leaf xs) \<longleftrightarrow> xs \<noteq> [] \<and> length xs \<le> maxItems"
| "balanced (Suc h) (Inner h' ks) \<longleftrightarrow> h' = Suc h \<and> ks \<noteq> [] \<and> length ks \<le> maxItems \<and>
     (\<forall>c \<in> set ks. balanced h (cnode c)) \<and> (1 < length ks \<longrightarrow> (\<forall>c \<in> set ks. \<not> underfull c))"
| "balanced _ _ \<longleftrightarrow> False"

fun summed :: "('a, 's) summary \<Rightarrow> ('a, 's) node \<Rightarrow> bool" where
  "summed m (Leaf xs) \<longleftrightarrow> True"
| "summed m (Inner h ks) \<longleftrightarrow> (\<forall>c \<in> set ks. c = child_of m (cnode c) \<and> summed m (cnode c))"

definition sound :: "('a, 's) summary \<Rightarrow> nat \<Rightarrow> ('a, 's) child \<Rightarrow> bool" where
  "sound m h c \<longleftrightarrow> c = child_of m (cnode c) \<and> summed m (cnode c) \<and> balanced h (cnode c)"

definition row_ok :: "('a, 's) summary \<Rightarrow> nat \<Rightarrow> ('a, 's) child list \<Rightarrow> bool" where
  "row_ok m h cs \<longleftrightarrow> (\<forall>c \<in> set cs. sound m h c) \<and> (1 < length cs \<longrightarrow> (\<forall>c \<in> set cs. \<not> underfull c))"

definition kids_items :: "('a, 's) child list \<Rightarrow> 'a list" where
  "kids_items cs = concat (map (\<lambda>c. items_of (cnode c)) cs)"

lemma kids_items_simps [simp]:
  "kids_items [] = []" "kids_items (c # cs) = items_of (cnode c) @ kids_items cs" "kids_items (xs @ ys) = kids_items xs @ kids_items ys"
  by (simp_all add: kids_items_def)

lemma items_of_Inner [simp]: "items_of (Inner h ks) = kids_items ks"
  by (simp add: kids_items_def items_of.simps)

lemma kids_items_concat: "kids_items (concat gs) = concat (map kids_items gs)"
  by (induction gs) simp_all

lemma row_ok_Nil [simp]: "row_ok m h []"
  by (simp add: row_ok_def)

lemma row_ok_single [simp]: "row_ok m h [c] \<longleftrightarrow> sound m h c"
  by (simp add: row_ok_def)

lemma sound_leaf [simp]: "sound m 0 (child_of m (Leaf xs)) \<longleftrightarrow> xs \<noteq> [] \<and> length xs \<le> maxItems"
  by (simp add: sound_def)

lemma sound_inner [simp]:
  "sound m (Suc h) (child_of m (Inner (Suc h) ks)) \<longleftrightarrow> ks \<noteq> [] \<and> length ks \<le> maxItems \<and> row_ok m h ks"
  by (auto simp: sound_def row_ok_def)

lemma sound_height: "sound m h c \<Longrightarrow> node_height (cnode c) = h"
  by (cases "(h, cnode c)" rule: balanced.cases) (auto simp: sound_def)

lemma sound_leafE:
  assumes "sound m 0 c"
  obtains xs where "cnode c = Leaf xs" "xs \<noteq> []" "length xs \<le> maxItems"
  using assms by (cases "cnode c") (auto simp: sound_def)

lemma sound_innerE:
  assumes "sound m (Suc h) c"
  obtains ks where "cnode c = Inner (Suc h) ks" "ks \<noteq> []" "length ks \<le> maxItems" "row_ok m h ks"
  using assms by (cases "cnode c") (auto simp: sound_def row_ok_def)

lemma underfull_child_of [simp]: "underfull (child_of m n) \<longleftrightarrow> node_len n < minItems"
  by (simp add: underfull_def)

lemma balanced_items: "balanced h n \<Longrightarrow> items_of n \<noteq> []"
proof (induction h n rule: balanced.induct)
  case (2 h h' ks)
  then have "items_of (cnode (hd ks)) \<noteq> []" by simp
  then show ?case using 2 by (cases ks) auto
qed simp_all

lemma row_items_ne: "row_ok m h cs \<Longrightarrow> cs \<noteq> [] \<Longrightarrow> kids_items cs \<noteq> []"
  by (cases cs) (auto simp: row_ok_def sound_def dest: balanced_items)

section \<open>Packing\<close>

lemma group_facts:
  assumes "g \<in> set (even_groups maxItems xs)"
  shows "g \<noteq> []" "length g \<le> maxItems" "set g \<subseteq> set xs" "1 < length (even_groups maxItems xs) \<Longrightarrow> minItems \<le> length g"
proof -
  have m: "0 < maxItems" by (simp add: maxItems_def)
  show "g \<noteq> []" "length g \<le> maxItems" using even_groups_bounds(1,2) [OF assms m] by auto
  have "set g \<subseteq> set (concat (even_groups maxItems xs))" using assms by auto
  then show "set g \<subseteq> set xs" using m by simp
  show "1 < length (even_groups maxItems xs) \<Longrightarrow> minItems \<le> length g"
    using even_groups_bounds(3) [OF assms m] even_groups_many [OF m, of xs] by (simp add: minItems_def)
qed

lemma pack_leaves_ok: "row_ok m 0 (pack_leaves m xs) \<and> kids_items (pack_leaves m xs) = xs"
proof
  show "row_ok m 0 (pack_leaves m xs)"
    using group_facts [of _ xs] by (auto simp: row_ok_def pack_leaves_def not_less simp del: child_of.simps One_nat_def)
  have "kids_items (map (\<lambda>g. child_of m (Leaf g)) gs) = concat gs" for gs :: "'a list list"
    by (induction gs) (simp_all del: child_of.simps)
  then show "kids_items (pack_leaves m xs) = xs" by (simp add: pack_leaves_def maxItems_def del: child_of.simps)
qed

lemma pack_inner_items [simp]: "kids_items (pack_inner m kids h) = kids_items kids"
proof -
  have "kids_items (map (\<lambda>g. child_of m (Inner h g)) gs) = kids_items (concat gs)" for gs
    by (induction gs) (simp_all del: child_of.simps)
  then show ?thesis by (simp add: pack_inner_def maxItems_def del: child_of.simps)
qed

lemma pack_inner_ok:
  assumes "row_ok m h kids"
  shows "row_ok m (Suc h) (pack_inner m kids (Suc h))"
proof -
  have group: "row_ok m h g" if g: "g \<in> set (even_groups maxItems kids)" for g
  proof -
    note f = group_facts [OF g]
    have "1 < length kids" if "1 < length g"
    proof -
      have "length g \<le> length (concat (even_groups maxItems kids))" using g by (simp add: length_concat member_le_sum_list)
      then show ?thesis using that by (simp add: maxItems_def)
    qed
    then show ?thesis using f(3) assms by (auto simp: row_ok_def)
  qed
  show ?thesis using group_facts [of _ kids] group
    by (auto simp: row_ok_def [of _ "Suc h"] pack_inner_def not_less simp del: child_of.simps One_nat_def)
qed

section \<open>Rebalancing\<close>

lemma merge_ok:
  assumes sound: "sound m h a" "sound m h b"
    and below: "\<And>h' ks. h = Suc h' \<Longrightarrow> \<forall>c \<in> set ks. sound m h' c \<Longrightarrow> row_ok m h' (below ks) \<and> kids_items (below ks) = kids_items ks"
  shows "row_ok m h (merge_nodes m below (cnode a) (cnode b)) \<and>
    kids_items (merge_nodes m below (cnode a) (cnode b)) = items_of (cnode a) @ items_of (cnode b)"
proof (cases h)
  case 0
  then obtain xs ys where "cnode a = Leaf xs" "cnode b = Leaf ys" using sound by (metis sound_leafE)
  then show ?thesis using 0 pack_leaves_ok [of m "xs @ ys"] by (simp add: merge_nodes_def)
next
  case (Suc h')
  obtain ks where ks: "cnode a = Inner (Suc h') ks" "row_ok m h' ks" using sound(1) Suc by (metis sound_innerE)
  obtain ls where ls: "cnode b = Inner (Suc h') ls" "row_ok m h' ls" using sound(2) Suc by (metis sound_innerE)
  have "\<forall>c \<in> set (ks @ ls). sound m h' c" using ks(2) ls(2) by (auto simp: row_ok_def)
  from below [OF Suc this] show ?thesis using Suc ks(1) ls(1) by (simp add: merge_nodes_def pack_inner_ok)
qed

lemma rebalance_loop_ok:
  assumes "\<And>a b. sound m h a \<Longrightarrow> sound m h b \<Longrightarrow> row_ok m h (merge_nodes m below (cnode a) (cnode b)) \<and>
      kids_items (merge_nodes m below (cnode a) (cnode b)) = items_of (cnode a) @ items_of (cnode b)"
    "\<forall>c \<in> set kids. sound m h c" "\<forall>c \<in> set (take k kids). \<not> underfull c"
  shows "row_ok m h (rebalance_loop m below kids k) \<and> kids_items (rebalance_loop m below kids k) = kids_items kids"
  using assms
proof (induction m below kids k rule: rebalance_loop.induct)
  case (1 m below kids k)
  show ?case
  proof (cases "k < length kids \<and> 1 < length kids")
    case False
    then have "row_ok m h kids" using 1(4,5) by (auto simp: row_ok_def)
    moreover have "rebalance_loop m below kids k = kids" by (subst rebalance_loop.simps) (simp only: False if_False)
    ultimately show ?thesis by simp
  next
    case go: True
    show ?thesis
    proof (cases "underfull (kids ! k)")
      case False
      then have "\<forall>c \<in> set (take (Suc k) kids). \<not> underfull c" using go 1(5) by (simp add: take_Suc_conv_app_nth)
      note ih = 1(1) [OF go False 1(3,4) this]
      have "rebalance_loop m below kids k = rebalance_loop m below kids (Suc k)"
        by (subst rebalance_loop.simps) (simp only: go False if_True simp_thms)
      then show ?thesis using ih by simp
    next
      case True
      define l where "l = (if Suc k = length kids then k - 1 else k)"
      define merged where "merged = merge_nodes m below (cnode (kids ! l)) (cnode (kids ! Suc l))"
      define kids' where "kids' = take l kids @ merged @ drop (l + 2) kids"
      have l: "Suc l < length kids" "l \<le> k" using go by (auto simp: l_def)
      then have "sound m h (kids ! l)" "sound m h (kids ! Suc l)" using 1(4) by auto
      from 1(3) [OF this] have mg: "row_ok m h merged"
        "kids_items merged = items_of (cnode (kids ! l)) @ items_of (cnode (kids ! Suc l))" by (simp_all add: merged_def)
      have "drop l kids = kids ! l # kids ! Suc l # drop (l + 2) kids" using l by (simp add: Cons_nth_drop_Suc)
      then have "kids_items (take l kids @ drop l kids) = kids_items kids'" using mg(2) by (simp add: kids'_def)
      then have items: "kids_items kids' = kids_items kids" by simp
      have "\<forall>c \<in> set kids'. sound m h c"
        using 1(4) mg(1) by (auto simp: kids'_def row_ok_def dest: in_set_takeD in_set_dropD)
      moreover have "\<forall>c \<in> set (take l kids'). \<not> underfull c"
      proof -
        have "take l kids' = take l kids" using l by (simp add: kids'_def)
        moreover have "set (take l kids) \<subseteq> set (take k kids)" using l(2) by (rule set_take_subset_set_take)
        ultimately show ?thesis using 1(5) by auto
      qed
      ultimately have "row_ok m h (rebalance_loop m below kids' l) \<and> kids_items (rebalance_loop m below kids' l) = kids_items kids'"
        using 1(2) [OF go _ l_def merged_def 1(3)] True unfolding kids'_def by blast
      moreover have "rebalance_loop m below kids k = rebalance_loop m below kids' l"
        by (subst rebalance_loop.simps) (simp only: go True if_True if_False simp_thms Let_def l_def merged_def kids'_def)
      ultimately show ?thesis using items by simp
    qed
  qed
qed

lemma rebalance_at_ok:
  "\<forall>c \<in> set kids. sound m h c \<Longrightarrow> row_ok m h (rebalance_at m h kids) \<and> kids_items (rebalance_at m h kids) = kids_items kids"
proof (induction h arbitrary: kids)
  case 0
  then show ?case unfolding rebalance_at.simps by (intro rebalance_loop_ok merge_ok) simp_all
next
  case (Suc h)
  show ?case unfolding rebalance_at.simps
    by (intro rebalance_loop_ok merge_ok) (use Suc in \<open>simp_all\<close>)
qed

lemma rebalance_ok:
  assumes "\<forall>c \<in> set kids. sound m h c"
  shows "row_ok m h (rebalance m kids) \<and> kids_items (rebalance m kids) = kids_items kids"
proof (cases kids)
  case Nil
  then show ?thesis by (simp add: rebalance_def rebalance_loop.simps)
next
  case (Cons c cs)
  then have "rebalance m kids = rebalance_at m h kids" using assms sound_height [of m h c] by (simp add: rebalance_def)
  then show ?thesis using rebalance_at_ok [OF assms] by simp
qed

section \<open>Splicing\<close>

lemma fold_counts: "foldl (\<lambda>n c. n + ccount c) z ks = z + sum_list (map ccount ks)"
  by (induction ks arbitrary: z) simp_all

lemma summed_count: "summed m n \<Longrightarrow> ccount (child_of m n) = length (items_of n)"
proof (induction m n rule: summed.induct)
  case (2 m h ks)
  have "ccount c = length (items_of (cnode c))" if "c \<in> set ks" for c
    using 2 that by (metis summed.simps(2))
  then have "map ccount ks = map (\<lambda>c. length (items_of (cnode c))) ks" by (rule map_cong [OF refl])
  then show ?case by (simp only: child_of.simps child.sel fold_counts) (simp add: kids_items_def length_concat o_def)
qed simp

lemma sound_count: "sound m h c \<Longrightarrow> ccount c = length (items_of (cnode c))"
  by (metis sound_def summed_count)

lemma row_count: "\<forall>c \<in> set cs. sound m h c \<Longrightarrow> sum_list (map ccount cs) = length (kids_items cs)"
  by (induction cs) (auto simp: sound_count)

lemma skip_lo_split:
  assumes "skip_lo cs lo i si = (j, sj)" "cs \<noteq> []" "si \<le> lo" "lo \<le> si + sum_list (map ccount cs)"
  shows "i \<le> j \<and> j - i < length cs \<and> sj = si + sum_list (map ccount (take (j - i) cs)) \<and> sj \<le> lo \<and> lo \<le> sj + ccount (cs ! (j - i))"
  using assms
proof (induction cs lo i si rule: skip_lo.induct)
  case (1 c d cs lo i si)
  show ?case
  proof (cases "lo \<ge> si + ccount c")
    case True
    then have "Suc i \<le> j \<and> j - Suc i < length (d # cs) \<and> sj = si + ccount c + sum_list (map ccount (take (j - Suc i) (d # cs))) \<and>
        sj \<le> lo \<and> lo \<le> sj + ccount ((d # cs) ! (j - Suc i))" using 1 by simp
    moreover from this obtain e where "j - i = Suc e" "j - Suc i = e" by (metis Suc_diff_le diff_Suc_Suc)
    ultimately show ?thesis by simp
  next
    case False
    then show ?thesis using 1 by auto
  qed
qed auto

lemma skip_hi_split:
  assumes "skip_hi cs hi i si = (j, sj)" "cs \<noteq> []" "si \<le> hi" "hi \<le> si + sum_list (map ccount cs)"
  shows "i \<le> j \<and> j - i < length cs \<and> sj = si + sum_list (map ccount (take (j - i) cs)) \<and> sj \<le> hi \<and> hi \<le> sj + ccount (cs ! (j - i))"
  using assms
proof (induction cs hi i si rule: skip_hi.induct)
  case (1 c d cs hi i si)
  show ?case
  proof (cases "hi > si + ccount c")
    case True
    then have "Suc i \<le> j \<and> j - Suc i < length (d # cs) \<and> sj = si + ccount c + sum_list (map ccount (take (j - Suc i) (d # cs))) \<and>
        sj \<le> hi \<and> hi \<le> sj + ccount ((d # cs) ! (j - Suc i))" using 1 by simp
    moreover from this obtain e where "j - i = Suc e" "j - Suc i = e" by (metis Suc_diff_le diff_Suc_Suc)
    ultimately show ?thesis by simp
  next
    case False
    then show ?thesis using 1 by auto
  qed
qed auto

text \<open>A list cut at two places inside it, or inside two of its parts.\<close>

lemma cut_one_part:
  assumes "length a \<le> lo" "lo \<le> hi" "hi \<le> length a + length b"
  shows "take lo (a @ b @ c) @ r @ drop hi (a @ b @ c) =
    a @ (take (lo - length a) b @ r @ drop (hi - length a) b) @ c"
  using assms by simp

lemma cut_two_parts:
  assumes "length a \<le> lo" "lo \<le> length a + length b" "length (a @ b @ m) \<le> hi" "hi \<le> length (a @ b @ m @ d)"
  shows "take lo (a @ b @ m @ d @ c) @ r @ drop hi (a @ b @ m @ d @ c) =
    a @ (take (lo - length a) b @ r @ drop (hi - length (a @ b @ m)) d) @ c"
proof -
  have "drop hi (a @ b @ m @ d @ c) = drop (hi - length (a @ b @ m)) (d @ c)"
    using assms by (simp add: add.assoc diff_diff_left)
  then show ?thesis using assms by simp
qed

lemma splice_leaf_ok:
  assumes "lo \<le> hi" "hi \<le> length xs"
  shows "row_ok m 0 (splice_node m (Leaf xs) lo hi repl) \<and>
    kids_items (splice_node m (Leaf xs) lo hi repl) = take lo xs @ repl @ drop hi xs"
proof -
  define all where "all = take lo xs @ repl @ drop hi xs"
  have n: "length xs - (hi - lo) + length repl = length all" using assms by (simp add: all_def)
  have "splice_node m (Leaf xs) lo hi repl = (if all = [] then [] else if length all \<le> maxItems then [child_of m (Leaf all)]
      else pack_leaves m all)"
    by (simp only: splice_node.simps n Let_def all_def [symmetric] length_0_conv)
  then show ?thesis using pack_leaves_ok [of m all] by (simp add: all_def [symmetric] del: child_of.simps)
qed

lemma regroup_ok:
  assumes "row_ok m h kids"
  shows "let out = (if kids = [] then [] else if length kids \<le> maxItems then [child_of m (Inner (Suc h) kids)]
      else pack_inner m kids (Suc h))
    in row_ok m (Suc h) out \<and> kids_items out = kids_items kids"
  using assms pack_inner_ok [OF assms] by (simp del: child_of.simps)

lemma splice_node_ok:
  assumes "balanced h n" "summed m n" "lo \<le> hi" "hi \<le> length (items_of n)"
  shows "row_ok m h (splice_node m n lo hi repl) \<and>
    kids_items (splice_node m n lo hi repl) = take lo (items_of n) @ repl @ drop hi (items_of n)"
  using assms
proof (induction h arbitrary: n lo hi repl)
  case 0
  then obtain xs where "n = Leaf xs" by (cases n) auto
  then show ?case using splice_leaf_ok [of lo hi xs m repl] 0 by simp
next
  case (Suc h)
  then obtain ks where n: "n = Inner (Suc h) ks" "ks \<noteq> []" and row: "\<forall>c \<in> set ks. sound m h c"
    by (cases n) (auto simp: sound_def)
  have total: "sum_list (map ccount ks) = length (items_of n)" using row_count [OF row] n by simp
  obtain i si where i: "skip_lo ks lo 0 0 = (i, si)" by force
  note li = skip_lo_split [OF i n(2), simplified] 
  have li: "i < length ks" "si = sum_list (map ccount (take i ks))" "si \<le> lo" "lo \<le> si + ccount (ks ! i)"
    using li Suc.prems(3,4) total by auto
  have rest: "drop i ks \<noteq> []" using li(1) by simp
  have cut: "sum_list (map ccount ks) = si + sum_list (map ccount (drop i ks))"
    by (metis li(2) append_take_drop_id map_append sum_list_append)
  obtain j sj where j: "skip_hi (drop i ks) hi i si = (j, sj)" by force
  note lj = skip_hi_split [OF j rest]
  have lj: "i \<le> j" "j < length ks" "sj = si + sum_list (map ccount (take (j - i) (drop i ks)))" "sj \<le> hi" "hi \<le> sj + ccount (ks ! j)"
    using lj Suc.prems(3,4) total cut li by auto
  define mid where "mid = (if i = j then splice_node m (cnode (ks ! i)) (lo - si) (hi - si) repl
     else splice_node m (cnode (ks ! i)) (lo - si) (ccount (ks ! i)) repl @ splice_node m (cnode (ks ! j)) 0 (hi - sj) [])"
  define kids where "kids = rebalance m (take i ks @ mid @ drop (Suc j) ks)"
  have step: "splice_node m n lo hi repl = (if kids = [] then [] else if length kids \<le> maxItems then [child_of m (Inner (Suc h) kids)]
      else pack_inner m kids (Suc h))"
    using n(2) by (simp only: n(1) splice_node.simps i j case_prod_conv Let_def mid_def [symmetric] kids_def [symmetric] if_False)
  have kid: "balanced h (cnode (ks ! k)) \<and> summed m (cnode (ks ! k)) \<and> ccount (ks ! k) = length (items_of (cnode (ks ! k)))"
    if "k < length ks" for k
  proof -
    have "sound m h (ks ! k)" using row that by simp
    then show ?thesis by (simp add: sound_count) (simp add: sound_def)
  qed
  define a where "a = kids_items (take i ks)"
  have la: "length a = si" using row_count [of "take i ks" m h] row li(2) by (metis a_def in_set_takeD)
  define c where "c = kids_items (drop (Suc j) ks)"
  have mid: "(\<forall>c \<in> set mid. sound m h c) \<and> take lo (items_of n) @ repl @ drop hi (items_of n) = a @ kids_items mid @ c"
  proof (cases "i = j")
    case True
    have whole: "items_of n = a @ items_of (cnode (ks ! i)) @ c"
      using n True li(1) by (simp add: a_def c_def) (metis id_take_nth_drop kids_items_simps(2,3))
    have sub: "lo - si \<le> hi - si" "hi - si \<le> length (items_of (cnode (ks ! i)))"
      using True lj kid [OF li(1)] Suc.prems(3) by auto
    have "row_ok m h mid \<and> kids_items mid = take (lo - si) (items_of (cnode (ks ! i))) @ repl @ drop (hi - si) (items_of (cnode (ks ! i)))"
      using Suc.IH [OF _ _ sub, of repl] kid [OF li(1)] True by (simp add: mid_def)
    then show ?thesis unfolding whole
      using cut_one_part [of a lo hi "items_of (cnode (ks ! i))" c repl] la li lj True Suc.prems(3) kid [OF li(1)]
      by (simp add: row_ok_def)
  next
    case False
    then have ij: "i < j" using lj(1) by simp
    define m' where "m' = kids_items (take (j - Suc i) (drop (Suc i) ks))"
    have parts: "drop i ks = ks ! i # take (j - Suc i) (drop (Suc i) ks) @ ks ! j # drop (Suc j) ks"
    proof -
      have "drop (Suc i) ks = take (j - Suc i) (drop (Suc i) ks) @ drop j ks"
        using ij by (metis Suc_leI append_take_drop_id drop_drop le_add_diff_inverse2)
      then show ?thesis using li(1) lj(2) by (metis Cons_nth_drop_Suc)
    qed
    have whole: "items_of n = a @ items_of (cnode (ks ! i)) @ m' @ items_of (cnode (ks ! j)) @ c"
    proof -
      have "items_of n = kids_items (take i ks @ drop i ks)" using n by simp
      then show ?thesis by (simp only: parts kids_items_simps a_def c_def m'_def append_assoc)
    qed
    have "take (j - i) (drop i ks) = ks ! i # take (j - Suc i) (drop (Suc i) ks)"
      using ij li(1) by (metis Cons_nth_drop_Suc Suc_diff_Suc take_Suc_Cons)
    then have lm: "sj = length (a @ items_of (cnode (ks ! i)) @ m')"
      using lj(3) la kid [OF li(1)] row_count [of "take (j - Suc i) (drop (Suc i) ks)" m h] row
      by (auto simp: m'_def dest!: in_set_takeD in_set_dropD)
    have "row_ok m h (splice_node m (cnode (ks ! i)) (lo - si) (ccount (ks ! i)) repl) \<and>
      kids_items (splice_node m (cnode (ks ! i)) (lo - si) (ccount (ks ! i)) repl) = take (lo - si) (items_of (cnode (ks ! i))) @ repl"
      using Suc.IH [of "cnode (ks ! i)" "lo - si" "ccount (ks ! i)" repl] kid [OF li(1)] li by simp
    moreover have "row_ok m h (splice_node m (cnode (ks ! j)) 0 (hi - sj) []) \<and>
      kids_items (splice_node m (cnode (ks ! j)) 0 (hi - sj) []) = drop (hi - sj) (items_of (cnode (ks ! j)))"
      using Suc.IH [of "cnode (ks ! j)" 0 "hi - sj" "[]"] kid [OF lj(2)] lj by simp
    ultimately have "(\<forall>c \<in> set mid. sound m h c) \<and>
        kids_items mid = take (lo - si) (items_of (cnode (ks ! i))) @ repl @ drop (hi - sj) (items_of (cnode (ks ! j)))"
      using False by (auto simp: mid_def row_ok_def)
    then show ?thesis unfolding whole
      using cut_two_parts [of a lo "items_of (cnode (ks ! i))" m' hi "items_of (cnode (ks ! j))" c repl] la lm li lj
        kid [OF li(1)] kid [OF lj(2)] by simp
  qed
  have "\<forall>c \<in> set (take i ks @ mid @ drop (Suc j) ks). sound m h c"
    using mid row by (auto dest: in_set_takeD in_set_dropD)
  from rebalance_ok [OF this] have "row_ok m h kids" "kids_items kids = a @ kids_items mid @ c" by (simp_all add: kids_def a_def c_def)
  then show ?case using regroup_ok [of m h kids] mid unfolding step by (simp add: Let_def)
qed

section \<open>The tree\<close>

text \<open>The root is a leaf, or has at least two children; its sum and count stand beside it.\<close>

definition tree_ok :: "('a, 's) summary \<Rightarrow> ('a, 's) sum_tree \<Rightarrow> bool" where
  "tree_ok m t \<longleftrightarrow>
     (case root t of
        None \<Rightarrow> tsum t = zero_sum m \<and> tcount t = 0
      | Some n \<Rightarrow> (\<exists>h. sound m h (Child (tsum t) (tcount t) n)) \<and> length (node_kids n) \<noteq> 1)"

lemma pack_up_ok:
  "row_ok m h kids \<Longrightarrow> \<exists>h'. row_ok m h' (pack_up m kids) \<and> length (pack_up m kids) \<le> 1 \<and> kids_items (pack_up m kids) = kids_items kids"
proof (induction m kids arbitrary: h rule: pack_up.induct)
  case (1 m kids)
  show ?case
  proof (cases "1 < length kids")
    case True
    then have "hd kids \<in> set kids" by (cases kids) auto
    then have h: "node_height (cnode (hd kids)) = h" using 1(2) sound_height by (auto simp: row_ok_def)
    from 1(1) [OF True, of "Suc h"] pack_inner_ok [OF 1(2)]
    obtain h' where "row_ok m h' (pack_up m (pack_inner m kids (Suc h)))" "length (pack_up m (pack_inner m kids (Suc h))) \<le> 1"
      "kids_items (pack_up m (pack_inner m kids (Suc h))) = kids_items kids"
      by (auto simp: h)
    moreover have "pack_up m kids = pack_up m (pack_inner m kids (Suc h))"
      using True by (subst pack_up.simps) (simp add: h)
    ultimately show ?thesis by auto
  next
    case False
    then have "pack_up m kids = kids" by (subst pack_up.simps) simp
    then show ?thesis using 1(2) False by auto
  qed
qed

lemma strip_root_ok:
  "sound m h c \<Longrightarrow> (\<exists>h'. sound m h' (strip_root c)) \<and> length (node_kids (cnode (strip_root c))) \<noteq> 1 \<and>
    items_of (cnode (strip_root c)) = items_of (cnode c)"
proof (induction c arbitrary: h rule: strip_root.induct)
  case (1 s n h0 k)
  then obtain h1 where "h = Suc h1" "h0 = Suc h1" by (cases h) (auto simp: sound_def)
  moreover have "sound m h1 k" using 1(2) \<open>h = Suc h1\<close> by (auto simp: sound_def)
  ultimately show ?case using 1(1) by simp
qed auto

lemma set_root_ok:
  assumes "row_ok m h kids"
  shows "tree_ok m (set_root m kids) \<and> tree_items (set_root m kids) = kids_items kids"
proof -
  obtain h' where up: "row_ok m h' (pack_up m kids)" "length (pack_up m kids) \<le> 1" "kids_items (pack_up m kids) = kids_items kids"
    using pack_up_ok [OF assms] by blast
  show ?thesis
  proof (cases "pack_up m kids")
    case Nil
    then show ?thesis using up(3) by (simp add: set_root_def tree_ok_def tree_items_def)
  next
    case (Cons c cs)
    then have "sound m h' c" "items_of (cnode c) = kids_items kids" using up by (auto simp: row_ok_def)
    then show ?thesis using strip_root_ok [of m h' c] Cons
      by (cases "strip_root c") (auto simp: set_root_def tree_ok_def tree_items_def Let_def)
  qed
qed

lemma new_tree_ok: "tree_ok m (new_tree m xs) \<and> tree_items (new_tree m xs) = xs"
  using pack_leaves_ok [of m xs] set_root_ok [of m 0 "pack_leaves m xs"] by (simp add: new_tree_def)

lemma tree_okE:
  assumes "tree_ok m t" "root t = Some n"
  obtains h where "balanced h n" "summed m n" "Child (tsum t) (tcount t) n = child_of m n" "tree_items t = items_of n"
  using assms by (auto simp: tree_ok_def sound_def tree_items_def)

lemma splice_ok:
  assumes "tree_ok m t" "lo \<le> hi" "hi \<le> length (tree_items t)"
  shows "tree_ok m (splice m t lo hi repl) \<and> tree_items (splice m t lo hi repl) = take lo (tree_items t) @ repl @ drop hi (tree_items t)"
proof (cases "root t")
  case None
  then have "tree_items t = []" by (simp add: tree_items_def)
  then show ?thesis using None pack_leaves_ok [of m repl] set_root_ok [of m 0 "pack_leaves m repl"] by (simp add: splice_def)
next
  case (Some n)
  with assms(1) obtain h where "balanced h n" "summed m n" "tree_items t = items_of n" by (rule tree_okE)
  then have "row_ok m h (splice_node m n lo hi repl) \<and>
      kids_items (splice_node m n lo hi repl) = take lo (tree_items t) @ repl @ drop hi (tree_items t)"
    using splice_node_ok [of h n m lo hi repl] assms by simp
  then show ?thesis using set_root_ok [of m h "splice_node m n lo hi repl"] Some by (simp add: splice_def)
qed

lemma tree_count: "tree_ok m t \<Longrightarrow> tcount t = length (tree_items t)"
  by (cases "root t") (auto simp: tree_ok_def tree_items_def dest: sound_count)

section \<open>Reading\<close>

lemma node_at_items:
  "summed m n \<Longrightarrow> node_at n i = (if i < length (items_of n) then Some (items_of n ! i) else None)"
  "\<forall>c \<in> set ks. c = child_of m (cnode c) \<and> summed m (cnode c) \<Longrightarrow>
    kids_at ks i = (if i < length (kids_items ks) then Some (kids_items ks ! i) else None)"
proof (induction n i and ks i rule: node_at_kids_at.induct)
  case (4 s n k ks i)
  then have "n = length (items_of k)" "summed m k" using summed_count [of m k] by (metis child.sel list.set_intros(1))+
  moreover have "\<forall>c \<in> set ks. c = child_of m (cnode c) \<and> summed m (cnode c)" using 4(3) by simp
  ultimately have "kids_at (Child s n k # ks) i =
      (if i \<ge> n then if i - n < length (kids_items ks) then Some (kids_items ks ! (i - n)) else None
       else if i < n then Some (items_of k ! i) else None)"
    using 4(1,2) by simp
  then show ?case using \<open>n = length (items_of k)\<close> by (auto simp: nth_append)
qed simp_all

lemma tree_at_items: "tree_ok m t \<Longrightarrow> tree_at t i = (if i < length (tree_items t) then Some (tree_items t ! i) else None)"
  using node_at_items(1) [of m _ i] by (cases "root t") (auto simp: tree_at_def tree_items_def tree_ok_def sound_def)

lemma scan_items_append:
  "scan_items f (xs @ ys) z = (case scan_items f xs z of (z', go) \<Rightarrow> if go then scan_items f ys z' else (z', False))"
  by (induction f xs z rule: scan_items.induct) (auto split: prod.splits)

lemma scan_node_items:
  "summed m n \<Longrightarrow> scan_node f n lo z = scan_items f (drop lo (items_of n)) z"
  "\<forall>c \<in> set ks. c = child_of m (cnode c) \<and> summed m (cnode c) \<Longrightarrow> scan_kids f ks lo z = scan_items f (drop lo (kids_items ks)) z"
proof (induction f n lo z and f ks lo z rule: scan_node_scan_kids.induct)
  case (4 f s n k ks lo z)
  then have k: "n = length (items_of k)" "summed m k" using summed_count [of m k] by (metis child.sel list.set_intros(1))+
  have ks: "\<forall>c \<in> set ks. c = child_of m (cnode c) \<and> summed m (cnode c)" using 4(4) by simp
  show ?case
  proof (cases "n \<le> lo")
    case True
    then show ?thesis using 4(1) [OF True ks] k(1) by simp
  next
    case False
    then have kid: "scan_node f k lo z = scan_items f (drop lo (items_of k)) z" using 4(2) k(2) by simp
    have more: "scan_kids f ks 0 z' = scan_items f (kids_items ks) z'" if "scan_node f k lo z = (z', True)" for z'
      using 4(3) [OF False that [symmetric] _ ks] by simp
    show ?thesis using False k(1) kid more
      by (cases "scan_items f (drop lo (items_of k)) z") (simp add: scan_items_append)
  qed
qed simp_all

lemma scan_is_scan_items: "tree_ok m t \<Longrightarrow> scan f t lo z = fst (scan_items f (drop lo (tree_items t)) z)"
  using scan_node_items(1) [of m _ f lo z] by (cases "root t") (auto simp: scan_def tree_items_def tree_ok_def sound_def)

lemma scan_collects:
  "0 < n \<Longrightarrow> snd (fst (scan_items (\<lambda>x (n, dst). ((n - 1, dst @ [x]), n - 1 > 0)) xs (int n, dst))) = dst @ take n xs"
proof (induction xs arbitrary: n dst)
  case (Cons x xs)
  then obtain k where k: "n = Suc k" by (cases n) auto
  show ?case
  proof (cases "k = 0")
    case False
    then have "int n - 1 = int k" "int n - 1 > 0" using k by simp_all
    then show ?thesis using Cons.IH [of k "dst @ [x]"] False k by simp
  qed (use k in simp)
qed simp

lemma collect_is_slice: "tree_ok m t \<Longrightarrow> collect t lo hi dst = dst @ take (hi - lo) (drop lo (tree_items t))"
  using scan_collects [of "hi - lo" "drop lo (tree_items t)" dst] by (auto simp: collect_def scan_is_scan_items of_nat_diff)

section \<open>The height\<close>

text \<open>A full node of height h has at least \<open>8 ^ (h + 1)\<close> items, so a tree of height h has at least \<open>2 * 8 ^ h\<close>.\<close>

lemma full_node_items:
  "balanced h n \<Longrightarrow> minItems \<le> node_len n \<Longrightarrow> minItems ^ Suc h \<le> length (items_of n)"
proof (induction h n rule: balanced.induct)
  case (2 h h' ks)
  then have "1 < length ks" by (simp add: minItems_def maxItems_def)
  then have "minItems ^ Suc h \<le> length (items_of (cnode c))" if "c \<in> set ks" for c
    using 2 that by (auto simp: underfull_def not_less)
  then have "length ks * minItems ^ Suc h \<le> length (kids_items ks)"
    by (induction ks) (auto intro: add_mono)
  moreover have "minItems * minItems ^ Suc h \<le> length ks * minItems ^ Suc h" using 2(3) by (intro mult_right_mono) simp_all
  ultimately show ?case unfolding items_of_Inner power_Suc [of _ "Suc h"] by (rule order_trans [rotated])
qed simp_all

lemma tree_height_bound:
  assumes "tree_ok m t" "root t = Some n" "node_height n = Suc h"
  shows "2 * minItems ^ Suc h \<le> length (tree_items t)"
proof -
  obtain h' where ok: "sound m h' (Child (tsum t) (tcount t) n)" "length (node_kids n) \<noteq> 1" using assms(1,2) by (auto simp: tree_ok_def)
  then have h: "h' = Suc h" using sound_height [OF ok(1)] assms(3) by simp
  obtain ks where ks: "n = Inner (Suc h) ks" "ks \<noteq> []" "row_ok m h ks" using ok(1) h by (metis child.sel(3) sound_innerE)
  then have "1 < length ks" using ok(2) by (cases ks) (auto simp: Suc_lessI)
  then obtain c d cs where cs: "ks = c # d # cs" by (cases ks; cases "tl ks") auto
  have "minItems ^ Suc h \<le> length (items_of (cnode x))" if "x \<in> {c, d}" for x
    using that ks(3) cs full_node_items [of h "cnode x"] by (auto simp: row_ok_def sound_def underfull_def not_less)
  from this [of c] this [of d] show ?thesis using assms(2) ks(1) cs by (simp add: tree_items_def)
qed

section \<open>Sums\<close>

text \<open>Over a monoid, the sum stored with a node is the sum of its items in order.\<close>

locale summary_monoid =
  fixes m :: "('a, 's) summary"
  assumes add_assoc: "add_sum m (add_sum m x y) z = add_sum m x (add_sum m y z)"
    and zero_left: "add_sum m (zero_sum m) x = x"
    and zero_right: "add_sum m x (zero_sum m) = x"
begin

lemma fold_from:
  "foldl (\<lambda>s x. add_sum m s (f x)) z xs = add_sum m z (foldl (\<lambda>s x. add_sum m s (f x)) (zero_sum m) xs)"
proof (induction xs arbitrary: z)
  case (Cons x xs)
  show ?case using Cons [of "add_sum m z (f x)"] Cons [of "f x"] by (simp add: add_assoc zero_left)
qed (simp add: zero_right)

lemma fold_append:
  "foldl (\<lambda>s x. add_sum m s (f x)) (zero_sum m) (xs @ ys) =
    add_sum m (foldl (\<lambda>s x. add_sum m s (f x)) (zero_sum m) xs) (foldl (\<lambda>s x. add_sum m s (f x)) (zero_sum m) ys)"
  by (simp add: fold_from [of _ "foldl _ _ _"])

lemma node_sum:
  "summed m n \<Longrightarrow> csum (child_of m n) = foldl (\<lambda>s x. add_sum m s (measure_of m x)) (zero_sum m) (items_of n)"
proof (induction n rule: items_of.induct)
  case (2 h ks)
  let ?sum = "foldl (\<lambda>s x. add_sum m s (measure_of m x)) (zero_sum m)"
  have each: "csum c = ?sum (items_of (cnode c))" if "c \<in> set ks" for c
    using 2 that by (metis summed.simps(2))
  have "foldl (\<lambda>s c. add_sum m s (csum c)) (zero_sum m) cs = ?sum (kids_items cs)" if "set cs \<subseteq> set ks" for cs
    using that
  proof (induction cs)
    case (Cons c cs)
    then show ?case using each [of c] fold_from [of csum "csum c" cs] fold_from [of "measure_of m" "csum c" "kids_items cs"]
      by (simp add: zero_left)
  qed simp
  then show ?case by simp
qed simp

lemma tree_sum: "tree_ok m t \<Longrightarrow> tsum t = foldl (\<lambda>s x. add_sum m s (measure_of m x)) (zero_sum m) (tree_items t)"
proof (cases "root t")
  case (Some n)
  assume "tree_ok m t"
  then obtain h where "summed m n" "Child (tsum t) (tcount t) n = child_of m n" "tree_items t = items_of n"
    using Some by (rule tree_okE)
  then show ?thesis using node_sum [of n] by (metis child.sel(1))
qed (simp add: tree_ok_def tree_items_def)

end

end
