(* ===== verification/Rope_Correct.thy ===== *)
theory Rope_Correct
  imports Rope Sum_Tree_Correct
begin

text \<open>
  The rope is its text: what every operation reads or writes, stated over the bytes of the
  chunks in order. A descent is described by the relation path_to, which cuts the
  items of a node around the leaf that a path of slots ends in.
\<close>

section \<open>Measures of text\<close>

definition measure_text :: "byte list \<Rightarrow> text_sum" where
  "measure_text b = \<lparr>sbytes = length b, srows = count_nl b, scol = after_nl b\<rparr>"

lemma measure_text_sel [simp]:
  "sbytes (measure_text b) = length b" "srows (measure_text b) = count_nl b" "scol (measure_text b) = after_nl b"
  by (simp_all add: measure_text_def)

lemma count_nl_append [simp]: "count_nl (a @ b) = count_nl a + count_nl b"
  by (simp add: count_nl_def)

lemma count_nl_simps [simp]: "count_nl [] = 0" "count_nl (x # b) = (if x = nl then Suc (count_nl b) else count_nl b)"
  by (simp_all add: count_nl_def)

lemma count_nl_0 [simp]: "count_nl b = 0 \<longleftrightarrow> nl \<notin> set b"
  by (induction b) auto

lemma count_nl_pos [simp]: "0 < count_nl b \<longleftrightarrow> nl \<in> set b"
  by (induction b) auto

lemma count_nl_le: "count_nl b \<le> length b"
  by (simp add: count_nl_def)

lemma after_nl_Nil [simp]: "after_nl [] = 0"
  by (simp add: after_nl_def)

lemma after_nl_single [simp]: "after_nl [x] = (if x = nl then 0 else 1)"
  by (simp add: after_nl_def)

lemma after_nl_le: "after_nl b \<le> length b"
  using length_takeWhile_le [of "\<lambda>c. c \<noteq> nl" "rev b"] by (simp add: after_nl_def)

lemma after_nl_append: "after_nl (a @ b) = (if nl \<in> set b then after_nl b else after_nl a + length b)"
  by (auto simp: after_nl_def takeWhile_append)

lemma after_nl_all: "nl \<notin> set b \<Longrightarrow> after_nl b = length b"
  using after_nl_append [of "[]" b] by simp

lemma measure_text_append [simp]: "measure_text (a @ b) = add_text (measure_text a) (measure_text b)"
  by (auto simp: measure_text_def add_text_def after_nl_append after_nl_all)

lemma measure_text_Nil: "measure_text [] = zero_text"
  by (simp add: measure_text_def zero_text_def)

lemma add_text_Nil [simp]: "add_text s (measure_text []) = s"
  by (simp add: measure_text_def add_text_def)

lemma add_text_sel [simp]: "sbytes (add_text s t) = sbytes s + sbytes t" "srows (add_text s t) = srows s + srows t"
  by (simp_all add: add_text_def)

interpretation bytes: summary_monoid text_summary
  by unfold_locales (auto simp: text_summary_def add_text_def zero_text_def)

section \<open>Well-formed ropes\<close>

definition chunk_ok :: "chunk \<Rightarrow> bool" where
  "chunk_ok c \<longleftrightarrow> c = chunk_of (cbytes c) \<and> cbytes c \<noteq> [] \<and> length (cbytes c) \<le> chunkCap"

definition chunks_text :: "chunk list \<Rightarrow> byte list" where
  "chunks_text cs = concat (map cbytes cs)"

definition rope_text :: "rope \<Rightarrow> byte list" where
  "rope_text r = chunks_text (tree_items r)"

definition roomy :: "chunk list \<Rightarrow> bool" where
  "roomy cs \<longleftrightarrow> (1 < length cs \<longrightarrow> (\<forall>c \<in> set cs. chunkMin div 2 \<le> length (cbytes c)))"

definition rope_ok :: "rope \<Rightarrow> bool" where
  "rope_ok r \<longleftrightarrow> tree_ok text_summary r \<and> (\<forall>c \<in> set (tree_items r). chunk_ok c) \<and> roomy (tree_items r)"

lemma chunks_text_simps [simp]:
  "chunks_text [] = []" "chunks_text (c # cs) = cbytes c @ chunks_text cs" "chunks_text (xs @ ys) = chunks_text xs @ chunks_text ys"
  by (simp_all add: chunks_text_def)

lemma cbytes_chunk_of [simp]: "cbytes (chunk_of b) = b"
  by (simp add: chunk_of_def)

lemma chunk_ok_of [simp]: "chunk_ok (chunk_of b) \<longleftrightarrow> b \<noteq> [] \<and> length b \<le> chunkCap"
  by (simp add: chunk_ok_def)

lemma measure_chunk_ok: "chunk_ok c \<Longrightarrow> measure_chunk c = measure_text (cbytes c)"
proof -
  assume c: "chunk_ok c"
  then have "length (cbytes c) < 256" by (simp add: chunk_ok_def chunkCap_def)
  then have "count_nl (cbytes c) mod 256 = count_nl (cbytes c)" "after_nl (cbytes c) mod 256 = after_nl (cbytes c)"
    using count_nl_le [of "cbytes c"] after_nl_le [of "cbytes c"] by simp_all
  moreover have "crows c = count_nl (cbytes c) mod 256" "ccol c = after_nl (cbytes c) mod 256"
    using c by (metis chunk_ok_def chunk.select_convs(2,3) chunk_of_def)+
  ultimately show ?thesis by (simp add: measure_chunk_def measure_text_def)
qed

lemma items_measure:
  "\<forall>c \<in> set cs. chunk_ok c \<Longrightarrow>
    foldl (\<lambda>s x. add_sum text_summary s (measure_of text_summary x)) (zero_sum text_summary) cs = measure_text (chunks_text cs)"
proof (induction cs rule: rev_induct)
  case (snoc c cs)
  then show ?case by (simp add: text_summary_def measure_chunk_ok)
qed (simp add: text_summary_def measure_text_Nil)

lemma rope_tsum: "rope_ok r \<Longrightarrow> tsum r = measure_text (rope_text r)"
  by (simp add: rope_ok_def bytes.tree_sum items_measure rope_text_def)

lemma rope_len_text: "rope_ok r \<Longrightarrow> rope_len r = length (rope_text r)"
  by (simp add: rope_len_def rope_tsum)

lemma rope_lines_text: "rope_ok r \<Longrightarrow> rope_lines r = count_nl (rope_text r) + 1"
  by (simp add: rope_lines_def rope_tsum)

text \<open>A node of the rope: its shape, its stored sums and its chunks.\<close>

definition rnode_ok :: "nat \<Rightarrow> rope_node \<Rightarrow> bool" where
  "rnode_ok h n \<longleftrightarrow> balanced h n \<and> summed text_summary n \<and> (\<forall>c \<in> set (items_of n). chunk_ok c)"

definition rchild_ok :: "nat \<Rightarrow> rope_child \<Rightarrow> bool" where
  "rchild_ok h c \<longleftrightarrow> rnode_ok h (cnode c) \<and> csum c = measure_text (chunks_text (items_of (cnode c))) \<and> ccount c = length (items_of (cnode c))"

lemma rnode_sum: "rnode_ok h n \<Longrightarrow> csum (child_of text_summary n) = measure_text (chunks_text (items_of n))"
  by (simp add: rnode_ok_def bytes.node_sum items_measure)

lemma rnode_inner:
  assumes "rnode_ok (Suc h) (Inner h' ks)"
  shows "\<forall>c \<in> set ks. rchild_ok h c" "ks \<noteq> []"
proof -
  show "ks \<noteq> []" using assms by (simp add: rnode_ok_def)
  show "\<forall>c \<in> set ks. rchild_ok h c"
  proof
    fix c assume c: "c \<in> set ks"
    have e: "c = child_of text_summary (cnode c)" and s: "summed text_summary (cnode c)"
      using assms c by (auto simp: rnode_ok_def)
    have "set (items_of (cnode c)) \<subseteq> set (kids_items ks)" using c by (auto simp: kids_items_def)
    then have ok: "rnode_ok h (cnode c)" using assms c s by (auto simp: rnode_ok_def)
    have "csum c = measure_text (chunks_text (items_of (cnode c)))" using rnode_sum [OF ok] e by simp
    moreover have "ccount c = length (items_of (cnode c))" using summed_count [OF s] e by simp
    ultimately show "rchild_ok h c" using ok by (simp add: rchild_ok_def)
  qed
qed

lemma rope_root:
  assumes "rope_ok r" "root r = Some n"
  obtains h where "rnode_ok h n" "tree_items r = items_of n"
  using assms by (auto simp: rope_ok_def rnode_ok_def elim!: tree_okE)

section \<open>Paths\<close>

inductive path_to :: "rope_node \<Rightarrow> nat list \<Rightarrow> chunk list \<Rightarrow> chunk list \<Rightarrow> chunk list \<Rightarrow> bool" where
  path_leaf: "k < length xs \<Longrightarrow> path_to (Leaf xs) [k] [] xs []"
| path_inner: "k < length ks \<Longrightarrow> path_to (cnode (ks ! k)) path pre xs post \<Longrightarrow>
    path_to (Inner h ks) (k # path) (kids_items (take k ks) @ pre) xs (post @ kids_items (drop (Suc k) ks))"

inductive_cases path_to_InnerE: "path_to (Inner h ks) path pre xs post"

lemma path_ne: "path_to n path pre xs post \<Longrightarrow> path \<noteq> []"
  by (induction rule: path_to.induct) simp_all

lemma path_facts:
  "path_to n path pre xs post \<Longrightarrow> items_of n = pre @ xs @ post \<and> path_leaf path n = xs \<and> last path < length xs"
proof (induction rule: path_to.induct)
  case (path_inner k ks path pre xs post h)
  have "kids_items ks = kids_items (take k ks @ ks ! k # drop (Suc k) ks)" using path_inner(1) by (simp add: id_take_nth_drop [symmetric])
  moreover obtain l path' where "path = l # path'" using path_ne [OF path_inner(2)] by (cases path) auto
  ultimately show ?case using path_inner(3) by simp
qed simp

lemma resum_is_sum: "resum n = csum (child_of text_summary n)"
  by (cases n) (simp_all add: sum_chunks_def sum_kids_def text_summary_def)

lemma put_leaf_ok:
  assumes "path_to n path pre xs post" "balanced h n" "summed text_summary n"
    "length xs' = length xs + grow" "length xs' \<le> maxItems"
  shows "items_of (put_leaf path xs' grow n) = pre @ xs' @ post \<and> balanced h (put_leaf path xs' grow n) \<and>
    summed text_summary (put_leaf path xs' grow n) \<and> node_len n \<le> node_len (put_leaf path xs' grow n) \<and>
    length (node_kids (put_leaf path xs' grow n)) = length (node_kids n)"
  using assms
proof (induction arbitrary: h rule: path_to.induct)
  case (path_leaf k xs)
  then have "h = 0" by (cases h) auto
  then show ?case using path_leaf by auto
next
  case (path_inner k ks path pre xs post h0)
  then obtain h1 where h: "h = Suc h1" "h0 = Suc h1" by (cases h) auto
  obtain l path' where p: "path = l # path'" using path_ne [OF path_inner(2)] by (cases path) auto
  let ?n' = "put_leaf path xs' grow (cnode (ks ! k))"
  have kid: "balanced h1 (cnode (ks ! k))" "summed text_summary (cnode (ks ! k))" "ks ! k = child_of text_summary (cnode (ks ! k))"
    using path_inner(1,4,5) h by auto
  have ih: "items_of ?n' = pre @ xs' @ post" "balanced h1 ?n'" "summed text_summary ?n'" "node_len (cnode (ks ! k)) \<le> node_len ?n'"
    using path_inner(3) [OF kid(1,2) path_inner(6,7)] by auto
  have len: "length (items_of ?n') = length (items_of (cnode (ks ! k))) + grow"
    using ih(1) path_facts [OF path_inner(2)] path_inner(6) by simp
  define c where "c = Child (resum ?n') (ccount (ks ! k) + grow) ?n'"
  have c: "c = child_of text_summary ?n'"
    using len summed_count [OF ih(3)] summed_count [OF kid(2)] kid(3) unfolding c_def
    by (metis child.collapse cnode_child_of resum_is_sum)
  have put: "put_leaf (k # path) xs' grow (Inner h0 ks) = Inner h0 (ks[k := c])" by (simp add: p Let_def c_def)
  have "kids_items (ks[k := c]) = kids_items (take k ks) @ items_of ?n' @ kids_items (drop (Suc k) ks)"
    using path_inner(1) by (simp add: upd_conv_take_nth_drop c)
  moreover have "\<not> underfull c" if "1 < length ks"
  proof -
    have "\<not> underfull (ks ! k)" using that path_inner(1,4) h by auto
    then show ?thesis using ih(4) c by (simp add: underfull_def del: child_of.simps)
  qed
  moreover have "set (ks[k := c]) \<subseteq> insert c (set ks)" by (rule set_update_subset_insert)
  moreover have "cnode c = ?n'" by (simp add: c_def)
  ultimately show ?case using path_inner(4,5) ih h c unfolding put by (auto simp del: child_of.simps)
qed

section \<open>Descents\<close>

abbreviation tlen :: "chunk list \<Rightarrow> nat" where
  "tlen cs \<equiv> length (chunks_text cs)"

text \<open>Chunk i, which starts at st, holds the offset; between two chunks it is the first of them.\<close>

definition finds :: "chunk list \<Rightarrow> nat \<Rightarrow> nat \<Rightarrow> nat \<Rightarrow> bool" where
  "finds cs off i st \<longleftrightarrow> i < length cs \<and> st = tlen (take i cs) \<and> st \<le> off \<and> off \<le> st + length (cbytes (cs ! i)) \<and> (i = 0 \<or> st < off)"

lemma leaf_slot_finds:
  "leaf_slot cs off k start = (k', st) \<Longrightarrow> cs \<noteq> [] \<Longrightarrow> start \<le> off \<Longrightarrow> off \<le> start + tlen cs \<Longrightarrow>
    k \<le> k' \<and> start \<le> st \<and> finds cs (off - start) (k' - k) (st - start)"
proof (induction cs off k start rule: leaf_slot.induct)
  case (1 c d cs off k start)
  show ?case
  proof (cases "off > start + length (cbytes c)")
    case True
    then have ih: "Suc k \<le> k' \<and> start + length (cbytes c) \<le> st \<and>
        finds (d # cs) (off - (start + length (cbytes c))) (k' - Suc k) (st - (start + length (cbytes c)))"
      using 1 by auto
    then obtain e where e: "k' - k = Suc e" "k' - Suc k = e" by (metis Suc_diff_le diff_Suc_Suc)
    moreover obtain y where "st = start + length (cbytes c) + y" using ih by (metis le_Suc_ex)
    moreover obtain x where "off = start + length (cbytes c) + x" using True by (metis le_Suc_ex less_imp_le)
    ultimately show ?thesis using ih True by (auto simp: finds_def)
  next
    case False
    then show ?thesis using 1 by (auto simp: finds_def)
  qed
qed (auto simp: finds_def)

lemma descend_kids_step:
  "\<forall>c \<in> set cs. rchild_ok h c \<Longrightarrow> cs \<noteq> [] \<Longrightarrow> start \<le> off \<Longrightarrow> off \<le> start + tlen (kids_items cs) \<Longrightarrow>
    \<exists>j < length cs.
      descend_kids cs k off index start =
        (case descend (cnode (cs ! j)) off (index + length (kids_items (take j cs))) (start + tlen (kids_items (take j cs))) of
           (slots, i, st) \<Rightarrow> ((k + j) # slots, i, st)) \<and>
      start + tlen (kids_items (take j cs)) \<le> off \<and>
      off \<le> start + tlen (kids_items (take j cs)) + tlen (items_of (cnode (cs ! j))) \<and>
      (j = 0 \<or> start + tlen (kids_items (take j cs)) < off)"
proof (induction cs arbitrary: k index start)
  case (Cons c cs)
  obtain s n kid where c: "c = Child s n kid" by (cases c)
  then have sum: "sbytes s = tlen (items_of kid)" "n = length (items_of kid)" using Cons.prems(1) by (auto simp: rchild_ok_def)
  show ?case
  proof (cases "off \<le> start + sbytes s \<or> cs = []")
    case True
    then show ?thesis using c Cons.prems sum by (intro exI [of _ 0]) (auto split: prod.splits)
  next
    case False
    obtain j where "j < length cs" "descend_kids cs (Suc k) off (index + n) (start + sbytes s) =
        (case descend (cnode (cs ! j)) off (index + n + length (kids_items (take j cs))) (start + sbytes s + tlen (kids_items (take j cs))) of
           (slots, i, st) \<Rightarrow> ((Suc k + j) # slots, i, st))"
      "start + sbytes s + tlen (kids_items (take j cs)) \<le> off"
      "off \<le> start + sbytes s + tlen (kids_items (take j cs)) + tlen (items_of (cnode (cs ! j)))"
      "j = 0 \<or> start + sbytes s + tlen (kids_items (take j cs)) < off"
      using Cons.IH [of "start + sbytes s" "Suc k" "index + n"] Cons.prems False c sum by auto
    then show ?thesis using False c sum by (intro exI [of _ "Suc j"]) (auto simp: add.assoc split: prod.splits)
  qed
qed simp

lemma descend_finds:
  assumes "rnode_ok h n" "start \<le> off" "off \<le> start + tlen (items_of n)" "descend n off index start = (slots, i, st)"
  shows "\<exists>pre xs post. path_to n slots pre xs post \<and> i = index + length pre + last slots \<and> start \<le> st \<and>
    finds (items_of n) (off - start) (length pre + last slots) (st - start)"
  using assms
proof (induction h arbitrary: n index start slots i st)
  case 0
  then obtain xs where n: "n = Leaf xs" "xs \<noteq> []" by (cases n) (auto simp: rnode_ok_def)
  obtain k where k: "leaf_slot xs off 0 start = (k, st)" "slots = [k]" "i = index + k"
    using 0(4) n by (auto split: prod.splits)
  have "finds xs (off - start) k (st - start)" "start \<le> st" using leaf_slot_finds [OF k(1) n(2)] 0(2,3) n by auto
  moreover from this have "path_to n [k] [] xs []" using n(1) by (auto simp: finds_def intro: path_to.intros)
  ultimately show ?case using n k by (intro exI [of _ "[]"] exI [of _ xs]) auto
next
  case (Suc h)
  then obtain ks where n: "n = Inner (Suc h) ks" by (cases n) (auto simp: rnode_ok_def)
  note kids = rnode_inner [OF Suc.prems(1) [unfolded n]]
  obtain j where j: "j < length ks"
      "descend_kids ks 0 off index start =
        (case descend (cnode (ks ! j)) off (index + length (kids_items (take j ks))) (start + tlen (kids_items (take j ks))) of
           (slots, i, st) \<Rightarrow> ((0 + j) # slots, i, st))"
      "start + tlen (kids_items (take j ks)) \<le> off"
      "off \<le> start + tlen (kids_items (take j ks)) + tlen (items_of (cnode (ks ! j)))"
      "j = 0 \<or> start + tlen (kids_items (take j ks)) < off"
    using descend_kids_step [OF kids, of start off 0 index] Suc.prems(2,3) n by auto
  define a where "a = kids_items (take j ks)"
  obtain slots' where d: "descend (cnode (ks ! j)) off (index + length a) (start + tlen a) = (slots', i, st)" "slots = j # slots'"
    using Suc.prems(4) n j(2) by (auto simp: a_def split: prod.splits)
  have kid: "rnode_ok h (cnode (ks ! j))" using kids(1) j(1) by (auto simp: rchild_ok_def)
  from Suc.IH [OF kid _ _ d(1)] j(3,4) obtain pre xs post where p: "path_to (cnode (ks ! j)) slots' pre xs post"
    "i = index + length a + length pre + last slots'" "start + tlen a \<le> st"
    "finds (items_of (cnode (ks ! j))) (off - (start + tlen a)) (length pre + last slots') (st - (start + tlen a))"
    by (auto simp: a_def)
  have "path_to n slots (a @ pre) xs (post @ kids_items (drop (Suc j) ks))"
    unfolding n d(2) a_def by (rule path_inner [OF j(1) p(1)])
  moreover have last: "last slots = last slots'" using path_ne [OF p(1)] d(2) by simp
  moreover have "finds (items_of n) (off - start) (length (a @ pre) + last slots) (st - start)"
  proof -
    have "items_of n = a @ items_of (cnode (ks ! j)) @ kids_items (drop (Suc j) ks)"
      using n j(1) by (simp add: a_def) (metis id_take_nth_drop kids_items_simps(2,3))
    moreover have "length (a @ pre) + last slots = 0 \<or> st < off"
    proof (cases "length pre + last slots' = 0")
      case True
      then have "st = start + tlen a" using p(3,4) by (auto simp: finds_def)
      moreover have "j = 0 \<Longrightarrow> a = []" by (simp add: a_def)
      ultimately show ?thesis using j(5) True last by (auto simp: a_def)
    next
      case False
      then show ?thesis using p(3,4) by (auto simp: finds_def)
    qed
    ultimately show ?thesis using p(3,4) last by (auto simp: finds_def nth_append)
  qed
  ultimately show ?case using p(2,3) add_leD1
    by (intro exI [of _ "a @ pre"] exI [of _ xs] exI [of _ "post @ kids_items (drop (Suc j) ks)"]) auto
qed

lemma locate_finds:
  assumes "rope_ok r" "root r \<noteq> None" "off \<le> length (rope_text r)" "locate r off = (i, st)"
  shows "finds (tree_items r) off i st"
proof -
  obtain n where n: "root r = Some n" using assms(2) by blast
  obtain h where h: "rnode_ok h n" "tree_items r = items_of n" using rope_root [OF assms(1) n] .
  obtain slots where "descend n off 0 0 = (slots, i, st)" using assms(4) n by (cases "descend n off 0 0") (simp add: locate_def)
  from descend_finds [OF h(1) _ _ this] assms(3) h(2) show ?thesis by (auto simp: rope_text_def)
qed

section \<open>Reading\<close>

lemma rope_string_text: "rope_ok r \<Longrightarrow> rope_string r = rope_text r"
proof -
  have "fst (scan_items (\<lambda>c b. (b @ cbytes c, True)) cs b) = b @ chunks_text cs" for cs b
    by (induction cs arbitrary: b) simp_all
  then show "rope_ok r \<Longrightarrow> rope_string r = rope_text r"
    by (simp add: rope_string_def scan_is_scan_items [of text_summary] rope_ok_def rope_text_def)
qed

lemma append_range_scan:
  assumes "at0 < stop" "stop \<le> at0 + tlen cs" "start \<le> at0 \<or> start - at0 \<le> length (cbytes (hd cs))" "start < stop"
  shows "fst (fst (scan_items (range_step start stop) cs (dst, at0))) =
    dst @ drop (start - at0) (take (stop - at0) (chunks_text cs))"
  using assms
proof (induction cs arbitrary: dst at0)
  case (Cons c cs)
  show ?case
  proof (cases "at0 + length (cbytes c) < stop")
    case True
    then have hi: "min (stop - at0) (length (cbytes c)) = length (cbytes c)" by simp
    have "start - (at0 + length (cbytes c)) = 0 " using Cons.prems(3) by auto
    moreover have "take (stop - at0) (chunks_text (c # cs)) = cbytes c @ take (stop - (at0 + length (cbytes c))) (chunks_text cs)"
      using True by simp
    moreover have "start - at0 \<le> length (cbytes c)" using Cons.prems(3) by auto
    ultimately show ?thesis
      using True Cons.IH [of "at0 + length (cbytes c)" "dst @ drop (start - at0) (cbytes c)"] Cons.prems by (simp add: range_step_def Let_def hi)
  next
    case False
    then show ?thesis using Cons.prems by (simp add: range_step_def Let_def)
  qed
qed simp

lemma append_range_text:
  assumes "rope_ok r" "start \<le> stop" "stop \<le> length (rope_text r)"
  shows "append_range r dst start stop = dst @ drop start (take stop (rope_text r))"
proof (cases "start = stop")
  case False
  then have "rope_text r \<noteq> []" using assms by auto
  then have root: "root r \<noteq> None" by (auto simp: rope_text_def tree_items_def split: option.splits)
  obtain i st where l: "locate r start = (i, st)" by force
  have f: "finds (tree_items r) start i st" using locate_finds [OF assms(1) root _ l] assms(2,3) by simp
  let ?cs = "drop i (tree_items r)"
  have split: "rope_text r = chunks_text (take i (tree_items r)) @ chunks_text ?cs"
    by (metis append_take_drop_id chunks_text_simps(3) rope_text_def)
  have st: "st = tlen (take i (tree_items r))" "st \<le> start" "start \<le> st + length (cbytes (hd ?cs))"
    using f by (auto simp: finds_def hd_drop_conv_nth)
  then have hd: "start \<le> st \<or> start - st \<le> length (cbytes (hd ?cs))" by linarith
  have "append_range r dst start stop = dst @ drop (start - st) (take (stop - st) (chunks_text ?cs))"
    using append_range_scan [of st stop ?cs start dst, OF _ _ hd] False l st split assms(1,2,3)
    by (simp add: append_range_def scan_is_scan_items [of text_summary] rope_ok_def)
  also have "drop (start - st) (take (stop - st) (chunks_text ?cs)) = drop start (take stop (rope_text r))"
    using st assms(2) unfolding split by simp
  finally show ?thesis .
qed (simp add: append_range_def)

text \<open>Where an offset stands: the newlines before it and the bytes since the last.\<close>

definition point_of :: "byte list \<Rightarrow> nat \<Rightarrow> point" where
  "point_of t off = (count_nl (take off t), after_nl (take off t))"

lemma part_point:
  "(if nl \<in> set part then (srows (measure_text a) + count_nl part, after_nl part)
    else (srows (measure_text a), scol (measure_text a) + length part)) = point_of (a @ part) (length (a @ part))"
  by (auto simp: point_of_def after_nl_append)

lemma point_items_text:
  "\<forall>c \<in> set cs. chunk_ok c \<Longrightarrow> cs \<noteq> [] \<Longrightarrow> length a \<le> off \<Longrightarrow> off \<le> length a + tlen cs \<Longrightarrow>
    point_items cs off (measure_text a) = point_of (a @ chunks_text cs) off"
proof (induction cs arbitrary: a)
  case (Cons c cs)
  show ?case
  proof (cases "off \<le> length a + length (cbytes c) \<or> cs = []")
    case True
    let ?part = "take (off - length a) (cbytes c)"
    have "off \<le> length a + length (cbytes c)" using True Cons.prems by auto
    then have "point_of (a @ chunks_text (c # cs)) off = point_of (a @ ?part) (length (a @ ?part))"
      using Cons.prems(3) by (simp add: point_of_def min_def)
    then show ?thesis using True part_point [of ?part a] by (simp add: Let_def)
  next
    case False
    then have "point_items cs off (measure_text (a @ cbytes c)) = point_of ((a @ cbytes c) @ chunks_text cs) off"
      using Cons.prems by (intro Cons.IH) auto
    moreover have "point_items (c # cs) off (measure_text a) = point_items cs off (measure_text (a @ cbytes c))"
      using False Cons.prems(1) by (simp add: measure_chunk_ok)
    ultimately show ?thesis by simp
  qed
qed simp

lemma point_kids_text:
  assumes "\<And>n a. rnode_ok h n \<Longrightarrow> length a \<le> off \<Longrightarrow> off \<le> length a + tlen (items_of n) \<Longrightarrow>
      point_node n off (measure_text a) = point_of (a @ chunks_text (items_of n)) off"
    "\<forall>c \<in> set ks. rchild_ok h c" "ks \<noteq> []" "length a \<le> off" "off \<le> length a + tlen (kids_items ks)"
  shows "point_kids ks off (measure_text a) = point_of (a @ chunks_text (kids_items ks)) off"
  using assms(2-)
proof (induction ks arbitrary: a)
  case (Cons c cs)
  obtain s n kid where c: "c = Child s n kid" by (cases c)
  then have kid: "rnode_ok h kid" "s = measure_text (chunks_text (items_of kid))" using Cons.prems(1) by (auto simp: rchild_ok_def)
  show ?case
  proof (cases "off \<le> length a + tlen (items_of kid) \<or> cs = []")
    case True
    then have o: "off \<le> length a + tlen (items_of kid)" using Cons.prems c by auto
    then have "point_of (a @ chunks_text (kids_items (c # cs))) off = point_of (a @ chunks_text (items_of kid)) off"
      using c by (simp add: point_of_def)
    then show ?thesis using True c kid assms(1) [OF kid(1) Cons.prems(3) o] by simp
  next
    case False
    then have "point_kids cs off (measure_text (a @ chunks_text (items_of kid))) =
        point_of ((a @ chunks_text (items_of kid)) @ chunks_text (kids_items cs)) off"
      using Cons.prems c by (intro Cons.IH) auto
    then show ?thesis using False c kid by simp
  qed
qed simp

lemma point_node_text:
  "rnode_ok h n \<Longrightarrow> length a \<le> off \<Longrightarrow> off \<le> length a + tlen (items_of n) \<Longrightarrow>
    point_node n off (measure_text a) = point_of (a @ chunks_text (items_of n)) off"
proof (induction h arbitrary: n a)
  case 0
  then obtain xs where "n = Leaf xs" "xs \<noteq> []" by (cases n) (auto simp: rnode_ok_def)
  then show ?case using 0 point_items_text [of xs a off] by (simp add: rnode_ok_def)
next
  case (Suc h)
  then obtain ks where n: "n = Inner (Suc h) ks" by (cases n) (auto simp: rnode_ok_def)
  from point_kids_text [OF Suc.IH rnode_inner [OF Suc.prems(1) [unfolded n]] Suc.prems(2)] Suc.prems(3) n
  show ?case by simp
qed

lemma rope_point_text:
  assumes "rope_ok r" "0 \<le> off" "off \<le> int (length (rope_text r))"
  shows "rope_point r off = Inr (point_of (rope_text r) (nat off))"
proof (cases "root r")
  case None
  then have "rope_text r = []" by (simp add: rope_text_def tree_items_def)
  then show ?thesis using None assms by (simp add: rope_point_def rope_len_text point_of_def)
next
  case (Some n)
  obtain h where h: "rnode_ok h n" "tree_items r = items_of n" using rope_root [OF assms(1) Some] .
  have "point_node n (nat off) (measure_text []) = point_of ([] @ chunks_text (items_of n)) (nat off)"
    using assms(2,3) h(2) by (intro point_node_text [OF h(1)]) (simp_all add: rope_text_def)
  then show ?thesis using Some assms h(2) by (simp add: rope_point_def rope_len_text rope_text_def measure_text_Nil)
qed

lemma rope_slice_text:
  assumes "rope_ok r"
  shows "rope_slice r start stop =
    (if 0 \<le> start \<and> start \<le> stop \<and> stop \<le> int (length (rope_text r))
     then Inr (drop (nat start) (take (nat stop) (rope_text r))) else Inl ErrRange)"
  using assms by (auto simp: rope_slice_def rope_len_text append_range_text)

section \<open>Offsets of points\<close>

lemma point_of_Suc_less:
  "b \<noteq> [] \<Longrightarrow> count_nl a < count_nl (a @ b) \<or> count_nl a = count_nl (a @ b) \<and> after_nl a < after_nl (a @ b)"
  by (cases "nl \<in> set b") (auto simp: after_nl_append)

lemma reaches_iff:
  assumes "off \<le> length t" "x \<le> length t" "point_of t off = (nat line, nat col)" "0 \<le> line" "0 \<le> col"
  shows "reaches line col (measure_text (take x t)) \<longleftrightarrow> off \<le> x"
proof -
  have p: "int (count_nl (take off t)) = line" "int (after_nl (take off t)) = col" using assms(3-) by (auto simp: point_of_def)
  have less: "count_nl (take i t) < count_nl (take j t) \<or> count_nl (take i t) = count_nl (take j t) \<and> after_nl (take i t) < after_nl (take j t)"
    if "i < j" "j \<le> length t" for i j
  proof -
    have "take j t = take i t @ drop i (take j t)" using that by (metis append_take_drop_id less_imp_le_nat min.absorb1 take_take)
    moreover have "drop i (take j t) \<noteq> []" using that by simp
    ultimately show ?thesis using point_of_Suc_less [of "drop i (take j t)" "take i t"] by metis
  qed
  consider "off < x" | "off = x" | "x < off" by linarith
  then show ?thesis
  proof cases
    case 1
    then show ?thesis using less [of off x] assms(2) p by (auto simp: reaches_def)
  next
    case 2
    then show ?thesis using p by (simp add: reaches_def)
  next
    case 3
    then show ?thesis using less [of x off] assms(1) p by (auto simp: reaches_def)
  qed
qed

text \<open>Skipping rows ends right after the last of them.\<close>

lemma skip_rows_ends:
  "n \<le> count_nl (drop i b) \<Longrightarrow> i \<le> length b \<Longrightarrow>
    i \<le> skip_rows b n i \<and> skip_rows b n i \<le> length b \<and> count_nl (take (skip_rows b n i) b) = count_nl (take i b) + n \<and>
    (0 < n \<longrightarrow> 0 < skip_rows b n i \<and> b ! (skip_rows b n i - 1) = nl) \<and> (n = 0 \<longrightarrow> skip_rows b n i = i)"
proof (induction n arbitrary: i)
  case (Suc n)
  then have "nl \<in> set (drop i b)" by (metis count_nl_pos less_le_trans zero_less_Suc)
  then obtain k where k: "index_func (\<lambda>c. c = nl) (drop i b) = Some k"
    using index_func_None [of "\<lambda>c. c = nl" "drop i b"] by (cases "index_func (\<lambda>c. c = nl) (drop i b)") auto
  note f = index_func_Some [OF k]
  have k': "i + k < length b" "b ! (i + k) = nl" using f by auto
  have "\<forall>c \<in> set (take k (drop i b)). c \<noteq> nl" using f by (auto simp: in_set_conv_nth)
  then have none: "count_nl (take k (drop i b)) = 0" by auto
  have upto: "count_nl (take (i + k + 1) b) = count_nl (take i b) + 1"
    using k' none by (simp add: take_Suc_conv_app_nth take_add)
  have "count_nl (drop i b) = count_nl (take (Suc k) (drop i b)) + count_nl (drop (Suc k) (drop i b))"
    by (metis append_take_drop_id count_nl_append)
  moreover have "count_nl (take (Suc k) (drop i b)) = 1" using k' none f by (simp add: take_Suc_conv_app_nth)
  ultimately have "n \<le> count_nl (drop (i + k + 1) b)" using Suc.prems(1) by (simp add: add.commute add.left_commute)
  from Suc.IH [OF this] k'(1) have ih: "i + k + 1 \<le> skip_rows b n (i + k + 1)" "skip_rows b n (i + k + 1) \<le> length b"
    "count_nl (take (skip_rows b n (i + k + 1)) b) = count_nl (take i b) + Suc n"
    "0 < n \<Longrightarrow> b ! (skip_rows b n (i + k + 1) - 1) = nl" "n = 0 \<Longrightarrow> skip_rows b n (i + k + 1) = i + k + 1"
    using upto by auto
  have step: "skip_rows b (Suc n) i = skip_rows b n (i + k + 1)" by (simp add: k)
  have "b ! (skip_rows b n (i + k + 1) - 1) = nl"
  proof (cases "n = 0")
    case True
    then show ?thesis using ih(5) k'(2) by (simp only: add_diff_cancel_right')
  qed (use ih(4) in simp)
  then show ?case using ih(1-3) unfolding step by simp
qed simp

definition offset_answers :: "byte list \<Rightarrow> int \<Rightarrow> int \<Rightarrow> text_error + int \<Rightarrow> bool" where
  "offset_answers t line col res \<longleftrightarrow>
     (case res of
        Inr k \<Rightarrow> 0 \<le> k \<and> k \<le> int (length t) \<and> point_of t (nat k) = (nat line, nat col)
      | Inl err \<Rightarrow> (\<forall>off \<le> length t. point_of t off \<noteq> (nat line, nat col)) \<and>
          (err = ErrRange \<or> 2 ^ 63 \<le> col + int chunkCap))"

lemma chunk_offset_answers:
  assumes "chunk_ok c" "0 \<le> line" "0 \<le> col" "a = [] \<or> \<not> reaches line col (measure_text a)"
    "reaches line col (measure_text (a @ cbytes c))" "t = a @ cbytes c @ post" "col < 2 ^ 63"
  shows "offset_answers t line col
    (case chunk_offset c (measure_text a) line col of Inr off \<Rightarrow> Inr (int (length a) + off) | Inl err \<Rightarrow> Inl err)"
proof -
  define b where "b = cbytes c"
  define rows where "rows = nat (line - int (count_nl a))"
  define i where "i = skip_rows b rows 0"
  define want where "want = int i + col - (if rows = 0 then int (after_nl a) else 0)"
  have line: "line = int (count_nl a + rows)" using assms(2,4) by (auto simp: rows_def reaches_def)
  have "rows \<le> count_nl (drop 0 b)" using assms(5) line by (auto simp: reaches_def b_def)
  from skip_rows_ends [OF this, folded i_def] have i: "i \<le> length b" "count_nl (take i b) = rows"
    "0 < rows \<Longrightarrow> 0 < i \<and> b ! (i - 1) = nl" "rows = 0 \<Longrightarrow> i = 0" by (auto simp: i_def)
  have want: "int i \<le> want" using assms(3,4) line i(4) by (auto simp: want_def reaches_def)
  have first: "i \<le> k" if "count_nl (take k b) = rows" for k
  proof (rule ccontr)
    assume "\<not> i \<le> k"
    then have "0 < rows" "k \<le> i - 1" using i(4) by (cases rows; fastforce)+
    then have "take i b = take (i - 1) b @ [nl]" using i(1,3) by (metis Suc_diff_1 Suc_le_lessD take_Suc_conv_app_nth)
    moreover have "take (i - 1) b = take k b @ drop k (take (i - 1) b)"
      using \<open>k \<le> i - 1\<close> by (metis append_take_drop_id min.absorb1 take_take)
    then have "count_nl (take (i - 1) b) = count_nl (take k b) + count_nl (drop k (take (i - 1) b))"
      by (metis count_nl_append)
    ultimately show False using that i(2) by simp
  qed
  have after_i: "int (after_nl (a @ take i b)) = (if rows = 0 then int (after_nl a) else 0)"
  proof (cases "rows = 0")
    case False
    then have "take i b = take (i - 1) b @ [nl]" using i(1,3) by (metis Suc_diff_1 Suc_le_lessD gr0I take_Suc_conv_app_nth)
    then show ?thesis using False by (simp add: after_nl_append)
  qed (use i(4) in simp)
  have at_k: "point_of t (length a + k) = (nat line, nat col) \<longleftrightarrow> int k = want \<and> nl \<notin> set (drop i (take k b))"
    if k: "k \<le> length b" for k
  proof -
    have p: "point_of t (length a + k) = (count_nl a + count_nl (take k b), after_nl (a @ take k b))"
      using k by (simp add: point_of_def assms(6) b_def)
    show ?thesis
    proof (cases "i \<le> k")
      case True
      then have "take k b = take i b @ drop i (take k b)" by (metis append_take_drop_id min.absorb1 take_take)
      moreover define seg where "seg = drop i (take k b)"
      ultimately have cut: "take k b = take i b @ seg" by simp
      have "length seg = k - i" using k by (simp add: seg_def)
      have "count_nl (take k b) = rows + count_nl seg" using i(2) unfolding cut by simp
      then have c: "count_nl (take k b) = rows \<longleftrightarrow> nl \<notin> set seg" by simp
      have a: "int (after_nl (a @ take k b)) = (if rows = 0 then int (after_nl a) else 0) + int (k - i)" if "nl \<notin> set seg"
        using after_nl_append [of "a @ take i b" seg] after_i that \<open>length seg = k - i\<close> unfolding cut by simp
      have "point_of t (length a + k) = (nat line, nat col) \<longleftrightarrow> nl \<notin> set seg \<and> int (after_nl (a @ take k b)) = col"
        using p line c assms(3) by auto
      also have "\<dots> \<longleftrightarrow> nl \<notin> set seg \<and> int k = want" using a True by (auto simp: want_def)
      finally show ?thesis by (auto simp: seg_def)
    next
      case False
      then have "count_nl (take k b) \<noteq> rows" using first by blast
      moreover have "int k \<noteq> want" using False want by simp
      ultimately show ?thesis using p line by auto
    qed
  qed
  have inside: "length a \<le> off \<and> off \<le> length a + length b" if "off \<le> length t" "point_of t off = (nat line, nat col)" for off
  proof -
    have "reaches line col (measure_text (take (length a + length b) t))" using assms(5,6) by (simp add: b_def)
    then have "off \<le> length a + length b"
      using reaches_iff [OF that(1) _ that(2) assms(2,3), of "length a + length b"] assms(6) by (simp add: b_def)
    moreover have "a = [] \<or> \<not> reaches line col (measure_text (take (length a) t))" using assms(4,6) by simp
    then have "length a \<le> off" using reaches_iff [OF that(1) _ that(2) assms(2,3), of "length a"] assms(6) by auto
    ultimately show ?thesis by simp
  qed
  have none: "point_of t off' \<noteq> (nat line, nat col)"
    if far: "\<not> (want \<le> int (length b) \<and> nl \<notin> set (drop i (take (nat want) b)))" and le: "off' \<le> length t" for off'
  proof
    assume p: "point_of t off' = (nat line, nat col)"
    then obtain k where "off' = length a + k" "k \<le> length b" using inside [OF le p] by (metis add_le_cancel_left le_Suc_ex)
    then have "int k = want \<and> nl \<notin> set (drop i (take k b))" using at_k p by simp
    then show False using far \<open>k \<le> length b\<close> by auto
  qed
  have small: "length b \<le> chunkCap" "0 \<le> int i + col" using assms(1,3) by (simp_all add: b_def chunk_ok_def)
  have top: "want < 2 ^ 63 + int chunkCap" "int i + col < 2 ^ 63 + int chunkCap" using i(1) small assms(7) by (auto simp: want_def)
  have off: "chunk_offset c (measure_text a) line col =
      (let w = wrap64 (wrap64 (int i + col) - (if rows = 0 then int (after_nl a) else 0))
       in if w > int (length b) then Inl ErrRange else if w < int i then Inl SliceBounds
          else if nl \<in> set (drop i (take (nat w) b)) then Inl ErrRange else Inr w)"
  proof -
    have m: "srows (measure_text a) = count_nl a" "scol (measure_text a) = after_nl a" by simp_all
    show ?thesis unfolding chunk_offset_def m Let_def i_def want_def b_def rows_def by (rule refl)
  qed
  show ?thesis
  proof (cases "int i + col < 2 ^ 63")
    case True
    then have "wrap64 (int i + col) = int i + col" using small(2) by (intro wrap64_id) simp_all
    moreover have "want < 2 ^ 63" using True by (simp add: want_def)
    then have "wrap64 want = want" using want by (intro wrap64_id) simp_all
    ultimately have w: "chunk_offset c (measure_text a) line col =
      (if want > int (length b) then Inl ErrRange else if want < int i then Inl SliceBounds
       else if nl \<in> set (drop i (take (nat want) b)) then Inl ErrRange else Inr want)"
      unfolding off by (simp add: want_def Let_def)
    show ?thesis
    proof (cases "want \<le> int (length b) \<and> nl \<notin> set (drop i (take (nat want) b))")
      case True
      then have "point_of t (length a + nat want) = (nat line, nat col)" using at_k [of "nat want"] want by auto
      moreover have "nat (int (length a) + want) = length a + nat want" using want by (simp add: nat_add_distrib)
      ultimately show ?thesis using True want assms(6) unfolding w by (simp add: offset_answers_def b_def)
    next
      case False
      then show ?thesis using none [OF False] want unfolding w by (auto simp: offset_answers_def)
    qed
  next
    case False
    have "rows \<noteq> 0" using False assms(7) i(4) by auto
    moreover have "wrap64 (int i + col) = int i + col - 2 ^ 64"
      using False top(2) by (intro wrap64_over) (simp_all add: chunkCap_def)
    moreover have "wrap64 (int i + col - 2 ^ 64) = int i + col - 2 ^ 64"
      using False top(2) by (intro wrap64_id) (simp_all add: chunkCap_def)
    ultimately have "chunk_offset c (measure_text a) line col = Inl SliceBounds"
      using top(2) unfolding off by (simp add: Let_def chunkCap_def)
    moreover have "\<not> want \<le> int (length b)" using False \<open>rows \<noteq> 0\<close> small(1) by (simp add: want_def chunkCap_def)
    then have "\<forall>off' \<le> length t. point_of t off' \<noteq> (nat line, nat col)" using none by blast
    moreover have "2 ^ 63 \<le> col + int chunkCap" using False i(1) small(1) by simp
    ultimately show ?thesis by (simp add: offset_answers_def)
  qed
qed

lemma offset_items_answers:
  assumes "\<forall>c \<in> set cs. chunk_ok c" "cs \<noteq> []" "0 \<le> line" "0 \<le> col" "a = [] \<or> \<not> reaches line col (measure_text a)"
    "reaches line col (measure_text (a @ chunks_text cs))" "t = a @ chunks_text cs @ post" "col < 2 ^ 63"
  shows "offset_answers t line col (offset_items cs line col (measure_text a))"
  using assms
proof (induction cs arbitrary: a)
  case (Cons c cs)
  have m: "add_text (measure_text a) (measure_chunk c) = measure_text (a @ cbytes c)" using Cons.prems(1) by (simp add: measure_chunk_ok)
  show ?case
  proof (cases "reaches line col (measure_text (a @ cbytes c))")
    case True
    then show ?thesis using chunk_offset_answers [of c line col a t "chunks_text cs @ post"] Cons.prems m by (simp split: sum.splits)
  next
    case False
    then have "cs \<noteq> []" using Cons.prems(6) by auto
    then have "offset_answers t line col (offset_items cs line col (measure_text (a @ cbytes c)))"
      using Cons.prems False by (intro Cons.IH) simp_all
    then show ?thesis using False m by simp
  qed
qed simp

lemma offset_kids_answers:
  assumes node: "\<And>n a post. rnode_ok h n \<Longrightarrow> a = [] \<or> \<not> reaches line col (measure_text a) \<Longrightarrow>
      reaches line col (measure_text (a @ chunks_text (items_of n))) \<Longrightarrow> t = a @ chunks_text (items_of n) @ post \<Longrightarrow>
      \<exists>res. offset_node n line col (measure_text a) = Some res \<and> offset_answers t line col res"
    and "\<forall>c \<in> set ks. rchild_ok h c" "ks \<noteq> []" "a = [] \<or> \<not> reaches line col (measure_text a)"
    "reaches line col (measure_text (a @ chunks_text (kids_items ks)))" "t = a @ chunks_text (kids_items ks) @ post"
  shows "\<exists>res. offset_kids ks line col (measure_text a) = Some res \<and> offset_answers t line col res"
  using assms(2-)
proof (induction ks arbitrary: a)
  case (Cons c cs)
  obtain s n kid where c: "c = Child s n kid" by (cases c)
  then have kid: "rnode_ok h kid" "s = measure_text (chunks_text (items_of kid))" using Cons.prems(1) by (auto simp: rchild_ok_def)
  let ?a = "a @ chunks_text (items_of kid)"
  show ?case
  proof (cases "reaches line col (measure_text ?a)")
    case True
    then show ?thesis using node [OF kid(1) Cons.prems(3) True, of "chunks_text (kids_items cs) @ post"] Cons.prems(5) c kid(2) by simp
  next
    case False
    then have "cs \<noteq> []" using Cons.prems(4) c by auto
    then have "\<exists>res. offset_kids cs line col (measure_text ?a) = Some res \<and> offset_answers t line col res"
      using Cons.prems False c by (intro Cons.IH) simp_all
    then show ?thesis using False c kid by simp
  qed
qed simp

lemma offset_node_answers:
  assumes "0 \<le> line" "0 \<le> col" "col < 2 ^ 63"
  shows "rnode_ok h n \<Longrightarrow> a = [] \<or> \<not> reaches line col (measure_text a) \<Longrightarrow>
    reaches line col (measure_text (a @ chunks_text (items_of n))) \<Longrightarrow> t = a @ chunks_text (items_of n) @ post \<Longrightarrow>
    \<exists>res. offset_node n line col (measure_text a) = Some res \<and> offset_answers t line col res"
proof (induction h arbitrary: n a post)
  case 0
  then obtain xs where "n = Leaf xs" "xs \<noteq> []" by (cases n) (auto simp: rnode_ok_def)
  then show ?case using 0 offset_items_answers [of xs line col a t post] assms by (simp add: rnode_ok_def)
next
  case (Suc h)
  then obtain ks where n: "n = Inner (Suc h) ks" by (cases n) (auto simp: rnode_ok_def)
  have "\<exists>res. offset_kids ks line col (measure_text a) = Some res \<and> offset_answers t line col res"
  proof (rule offset_kids_answers [OF _ rnode_inner [OF Suc.prems(1) [unfolded n]]])
    show "\<exists>res. offset_node n' line col (measure_text a') = Some res \<and> offset_answers t line col res"
      if "rnode_ok h n'" "a' = [] \<or> \<not> reaches line col (measure_text a')"
        "reaches line col (measure_text (a' @ chunks_text (items_of n')))" "t = a' @ chunks_text (items_of n') @ post'" for n' a' post'
      using Suc.IH [OF that] .
  qed (use Suc.prems(2-4) n in simp_all)
  then show ?case using n by simp
qed

lemma rope_offset_answers:
  assumes "rope_ok r" "0 \<le> line" "0 \<le> col" "col < 2 ^ 63"
  shows "\<exists>res. rope_offset r line col = Some res \<and> offset_answers (rope_text r) line col res"
proof (cases "reaches line col (tsum r)")
  case False
  have "point_of (rope_text r) off \<noteq> (nat line, nat col)" if "off \<le> length (rope_text r)" for off
    using reaches_iff [OF that order_refl _ assms(2,3)] False that rope_tsum [OF assms(1)] by auto
  then show ?thesis using False assms by (auto simp: rope_offset_def offset_answers_def)
next
  case True
  then have r: "reaches line col (measure_text ([] @ rope_text r))" using rope_tsum [OF assms(1)] by simp
  show ?thesis
  proof (cases "root r")
    case None
    then have "rope_text r = []" by (simp add: rope_text_def tree_items_def)
    moreover from this have "line = 0" "col = 0" using r assms by (auto simp: reaches_def)
    ultimately show ?thesis using None True by (simp add: rope_offset_def offset_answers_def point_of_def)
  next
    case (Some n)
    obtain h where h: "rnode_ok h n" "tree_items r = items_of n" using rope_root [OF assms(1) Some] .
    have "\<exists>res. offset_node n line col (measure_text []) = Some res \<and> offset_answers (rope_text r) line col res"
      using r h(2) by (intro offset_node_answers [OF assms(2-4) h(1), where post = "[]"]) (simp_all add: rope_text_def)
    then show ?thesis using Some True assms by (simp add: rope_offset_def measure_text_Nil)
  qed
qed

lemma point_of_inj:
  assumes "off \<le> length t" "off' \<le> length t" "point_of t off = point_of t off'"
  shows "off = off'"
  using reaches_iff [OF assms(1,2), of "int (count_nl (take off t))" "int (after_nl (take off t))"]
    reaches_iff [OF assms(2,1), of "int (count_nl (take off t))" "int (after_nl (take off t))"]
    reaches_iff [OF assms(1,1), of "int (count_nl (take off t))" "int (after_nl (take off t))"]
    reaches_iff [OF assms(2,2), of "int (count_nl (take off t))" "int (after_nl (take off t))"] assms(3)
  by (auto simp: point_of_def reaches_def)

section \<open>Editing\<close>

lemma rope_ok_parts:
  "rope_ok r \<Longrightarrow> tree_ok text_summary r" "rope_ok r \<Longrightarrow> c \<in> set (tree_items r) \<Longrightarrow> chunk_ok c"
  by (auto simp: rope_ok_def)

lemma chunkify_ok: "\<forall>c \<in> set (chunkify b). chunk_ok c" "chunks_text (chunkify b) = b"
proof -
  have cap: "0 < chunkCap" by (simp add: chunkCap_def)
  have "g \<noteq> [] \<and> length g \<le> chunkCap" if "g \<in> set (even_groups chunkCap b)" for g
    using even_groups_bounds [OF that cap] by auto
  then show "\<forall>c \<in> set (chunkify b). chunk_ok c" by (auto simp: chunkify_def)
  show "chunks_text (chunkify b) = b" using cap by (simp add: chunkify_def chunks_text_def o_def)
qed

lemma chunkify_sizes:
  assumes "c \<in> set (chunkify b)"
  shows "chunkCap < length b \<Longrightarrow> chunkMin \<le> length (cbytes c)" "length b \<le> chunkCap \<Longrightarrow> chunkify b = [chunk_of b]"
proof -
  have cap: "0 < chunkCap" by (simp add: chunkCap_def)
  obtain g where g: "g \<in> set (even_groups chunkCap b)" "c = chunk_of g" using assms by (auto simp: chunkify_def)
  show "chunkCap < length b \<Longrightarrow> chunkMin \<le> length (cbytes c)" using even_groups_bounds(3) [OF g(1) cap] g(2) by (simp add: chunkMin_def)
  assume b: "length b \<le> chunkCap"
  have "b \<noteq> []" using g(1) by (auto simp: even_groups_def)
  then show "chunkify b = [chunk_of b]" using even_groups_single [OF _ cap b] by (simp add: chunkify_def)
qed

lemma chunkify_Nil [simp]: "chunkify [] = []"
  by (simp add: chunkify_def even_groups_def)

lemma new_rope_ok: "rope_ok (new_rope b) \<and> rope_text (new_rope b) = b"
proof -
  have "roomy (chunkify b)"
  proof (cases "chunkCap < length b")
    case True
    then show ?thesis using chunkify_sizes(1) [of _ b] by (auto simp: roomy_def intro: order_trans [OF div_le_dividend])
  next
    case False
    then show ?thesis using chunkify_sizes(2) [of _ b] by (cases "chunkify b") (auto simp: roomy_def)
  qed
  then show ?thesis using new_tree_ok [of text_summary "chunkify b"] chunkify_ok [of b]
    by (simp add: new_rope_def rope_ok_def rope_text_def)
qed

end
