(* ===== verification/Rope_Edit.thy ===== *)
theory Rope_Edit
  imports Rope_Correct
begin

text \<open>
  Replacing a range of the rope replaces it in the text, on both of the code's paths: the
  chunk edited in place, and the chunks spliced. Either keeps the rope well formed: chunks
  neither empty nor over 128 bytes, none under 32 unless it is alone.
\<close>

section \<open>In one chunk\<close>

lemma roomy_chunkify: "roomy (chunkify b)"
  using new_rope_ok [of b] new_tree_ok [of text_summary "chunkify b"] by (simp add: rope_ok_def new_rope_def)

lemma finds_take:
  "finds cs off i st \<Longrightarrow> chunks_text (take i cs) @ take (off - st) (cbytes (cs ! i)) = take off (chunks_text cs)"
proof -
  assume f: "finds cs off i st"
  then have "chunks_text cs = chunks_text (take i cs) @ cbytes (cs ! i) @ chunks_text (drop (Suc i) cs)"
    by (metis chunks_text_simps(2,3) finds_def id_take_nth_drop)
  then show ?thesis using f by (simp add: finds_def)
qed

lemma finds_drop:
  "finds cs off i st \<Longrightarrow> drop (off - st) (cbytes (cs ! i)) @ chunks_text (drop (Suc i) cs) = drop off (chunks_text cs)"
proof -
  assume f: "finds cs off i st"
  then have "chunks_text cs = chunks_text (take i cs) @ cbytes (cs ! i) @ chunks_text (drop (Suc i) cs)"
    by (metis chunks_text_simps(2,3) finds_def id_take_nth_drop)
  then show ?thesis using f by (simp add: finds_def)
qed

lemma replace_in_chunk_ok:
  assumes r: "rope_ok r" and se: "s \<le> e" "e \<le> length (rope_text r)" and some: "replace_in_chunk r s e b = Some r'"
  shows "rope_ok r' \<and> rope_text r' = take s (rope_text r) @ b @ drop e (rope_text r)"
proof -
  obtain n where n: "root r = Some n" using some by (auto simp: replace_in_chunk_def split: option.splits)
  obtain h where h: "rnode_ok h n" "tree_items r = items_of n" using rope_root [OF r n] .
  obtain slots index start where d: "descend n s 0 0 = (slots, index, start)" by (metis prod_cases3)
  obtain pre xs post where p: "path_to n slots pre xs post" "finds (items_of n) s (length pre + last slots) start"
    using descend_finds [OF h(1) _ _ d] se h(2) by (auto simp: rope_text_def)
  define k where "k = last slots"
  have leaf: "path_leaf slots n = xs" "k < length xs" "items_of n = pre @ xs @ post" using path_facts [OF p(1)] by (auto simp: k_def)
  define c where "c = cbytes (xs ! k)"
  define lo where "lo = s - start"
  define hi where "hi = e - start"
  define w where "w = take lo c @ b @ drop hi c"
  define split where "split \<longleftrightarrow> length w > chunkCap \<and> length w \<le> 2 * chunkCap \<and> length xs < maxItems"
  define xs' where "xs' = (if split then insert_at (Suc k) (chunk_of (drop (length w div 2) w)) (xs[k := chunk_of (take (length w div 2) w)])
      else xs[k := chunk_of w])"
  define grow :: nat where "grow = (if split then 1 else 0)"
  define n' where "n' = put_leaf slots xs' grow n"
  have P: "start = tlen (pre @ take k xs)" "start \<le> s" "s \<le> start + length c"
    using p(2) leaf by (auto simp: finds_def k_def c_def nth_append)
  have hi: "hi \<le> length c" and m: "length c - (hi - lo) + length b = length w"
    and room: "w \<noteq> []" "length w \<le> chunkCap \<or> split" "chunkMin div 2 \<le> length w \<or> tcount r \<le> 1"
    and r': "r' = \<lparr>root = Some n', tsum = resum n', tcount = tcount r + grow\<rparr>"
  proof -
    have eq: "replace_in_chunk r s e b =
      (let m = length c - (hi - lo) + length b; split = (m > chunkCap \<and> m \<le> 2 * chunkCap \<and> length xs < maxItems)
       in if hi > length c \<or> (m > chunkCap \<and> \<not> split) \<or> m = 0 \<or> (m < chunkMin div 2 \<and> tcount r > 1) then None
          else
            let w = take lo c @ b @ drop hi c;
                items' = (if split then insert_at (Suc k) (chunk_of (drop (length w div 2) w)) (xs[k := chunk_of (take (length w div 2) w)])
                          else xs[k := chunk_of w]);
                grow = (if split then 1 else 0);
                n' = put_leaf slots items' grow n
            in Some \<lparr>root = Some n', tsum = resum n', tcount = tcount r + grow\<rparr>)"
      by (simp only: replace_in_chunk_def n option.case d prod.case leaf(1) c_def k_def lo_def hi_def Let_def)
    show hi: "hi \<le> length c"
    proof (rule ccontr)
      assume "\<not> hi \<le> length c"
      then have "replace_in_chunk r s e b = None" unfolding eq Let_def by simp
      then show False using some by simp
    qed
    then show m: "length c - (hi - lo) + length b = length w" using P se by (simp add: w_def lo_def hi_def)
    have eq': "replace_in_chunk r s e b =
      (if hi > length c \<or> (length w > chunkCap \<and> \<not> split) \<or> length w = 0 \<or> (length w < chunkMin div 2 \<and> tcount r > 1) then None
       else Some \<lparr>root = Some n', tsum = resum n', tcount = tcount r + grow\<rparr>)"
      unfolding eq Let_def m w_def [symmetric] n'_def xs'_def grow_def split_def by (rule refl)
    then have "\<not> (hi > length c \<or> (length w > chunkCap \<and> \<not> split) \<or> length w = 0 \<or> (length w < chunkMin div 2 \<and> tcount r > 1))"
      using some by (metis option.distinct(1))
    then show "w \<noteq> []" "length w \<le> chunkCap \<or> split" "chunkMin div 2 \<le> length w \<or> tcount r \<le> 1"
      "r' = \<lparr>root = Some n', tsum = resum n', tcount = tcount r + grow\<rparr>"
      using some unfolding eq' by auto
  qed
  have xs: "xs = take k xs @ xs ! k # drop (Suc k) xs" using leaf(2) by (rule id_take_nth_drop)
  define mid where "mid = (if split then [chunk_of (take (length w div 2) w), chunk_of (drop (length w div 2) w)] else [chunk_of w])"
  have xs': "xs' = take k xs @ mid @ drop (Suc k) xs"
    using leaf(2) by (simp add: xs'_def mid_def insert_at_def upd_conv_take_nth_drop)
  have "length xs' = length xs + grow" using leaf(2) by (simp add: xs' mid_def grow_def)
  moreover have "length xs' \<le> maxItems"
  proof -
    have "length xs \<le> maxItems" using p(1) h(1)
    proof (induction arbitrary: h rule: path_to.induct)
      case (path_leaf k xs)
      then show ?case by (cases h) (auto simp: rnode_ok_def)
    next
      case (path_inner k ks path pre xs post h0)
      then obtain h1 where "h = Suc h1" by (cases h) (auto simp: rnode_ok_def)
      then have "rnode_ok h1 (cnode (ks ! k))" using rnode_inner(1) [of h1 h0 ks] path_inner(1,4) by (auto simp: rchild_ok_def)
      then show ?case by (rule path_inner(3))
    qed
    then show ?thesis using calculation by (auto simp: grow_def split_def)
  qed
  ultimately have put: "items_of n' = pre @ xs' @ post" "balanced h n'" "summed text_summary n'" "length (node_kids n') = length (node_kids n)"
    using put_leaf_ok [OF p(1), of h xs' grow] h(1) by (auto simp: n'_def rnode_ok_def)
  have items: "tree_items r = (pre @ take k xs) @ xs ! k # (drop (Suc k) xs @ post)" using h(2) leaf(3) by (subst (asm) xs) simp
  have items': "tree_items r' = (pre @ take k xs) @ mid @ (drop (Suc k) xs @ post)" using put(1) r' xs' by (simp add: tree_items_def)
  have sum: "Child (tsum r') (tcount r') n' = child_of text_summary n'"
  proof -
    have "tcount r = length (tree_items r)" using r tree_count by (auto simp: rope_ok_def)
    then have "tcount r + grow = length (items_of n')" using put(1) items xs' by (simp add: mid_def grow_def leaf(2))
    then show ?thesis using summed_count [OF put(3)] resum_is_sum [of n'] r'
      by (metis child.collapse cnode_child_of sum_tree.select_convs(2,3))
  qed
  have "length (node_kids n) \<noteq> 1" using r n by (simp add: rope_ok_def tree_ok_def)
  then have "tree_ok text_summary r'" using put sum r' by (auto simp: tree_ok_def sound_def simp del: child_of.simps)
  moreover have mid: "\<forall>x \<in> set mid. chunk_ok x \<and> (length w \<le> chunkCap \<or> chunkMin div 2 \<le> length (cbytes x))"
    using room by (auto simp: mid_def split_def chunkCap_def chunkMin_def)
  moreover have "\<forall>x \<in> set (tree_items r'). chunk_ok x" using mid r items items' by (auto simp: rope_ok_def)
  moreover have "roomy (tree_items r')"
  proof -
    have old: "roomy (tree_items r)" "tcount r = length (tree_items r)" using r tree_count by (auto simp: rope_ok_def)
    have "chunkMin div 2 \<le> length (cbytes x)" if "1 < length (tree_items r')" "x \<in> set (tree_items r')" for x
    proof (cases "x \<in> set mid")
      case True
      show ?thesis
      proof (cases split)
        case True
        then show ?thesis using mid \<open>x \<in> set mid\<close> by (auto simp: split_def)
      next
        case False
        then have "length (tree_items r') = length (tree_items r)" unfolding items items' by (simp add: mid_def)
        then have "\<not> tcount r \<le> 1" using that(1) old(2) by simp
        moreover have "cbytes x = w" using \<open>x \<in> set mid\<close> False by (simp add: mid_def)
        ultimately show ?thesis using room(3) by simp
      qed
    next
      case False
      then have "x \<in> set (pre @ take k xs) \<union> set (drop (Suc k) xs @ post)" using that items' by auto
      then have ne: "0 < length (pre @ take k xs) \<or> 0 < length (drop (Suc k) xs @ post)"
        by (metis Un_empty_left empty_iff length_greater_0_conv list.set(1))
      have "length (tree_items r) = length (pre @ take k xs) + Suc (length (drop (Suc k) xs @ post))" unfolding items by simp
      then have "1 < length (tree_items r)" using ne by linarith
      moreover have "x \<in> set (tree_items r)" using \<open>x \<in> _ \<union> _\<close> unfolding items by auto
      ultimately show ?thesis using old(1) by (simp add: roomy_def)
    qed
    then show ?thesis by (auto simp: roomy_def)
  qed
  moreover have "rope_text r' = take s (rope_text r) @ b @ drop e (rope_text r)"
  proof -
    have "chunks_text mid = w" by (simp add: mid_def)
    moreover have "rope_text r = chunks_text (pre @ take k xs) @ c @ chunks_text (drop (Suc k) xs @ post)"
      using items by (simp add: rope_text_def c_def)
    moreover have "start \<le> e" "lo \<le> length c" using P se by (auto simp: lo_def)
    ultimately show ?thesis using P hi items' se by (simp add: rope_text_def w_def lo_def hi_def)
  qed
  ultimately show ?thesis by (simp add: rope_ok_def)
qed

section \<open>Across chunks\<close>

lemma chunk_bytes_nth: "rope_ok r \<Longrightarrow> i < length (tree_items r) \<Longrightarrow> chunk_bytes r i = cbytes (tree_items r ! i)"
  by (simp add: chunk_bytes_def tree_at_items [of text_summary] rope_ok_def)

lemma finds_mono:
  assumes "finds cs s i st" "finds cs e j js" "s \<le> e"
  shows "i \<le> j"
proof (rule ccontr)
  assume "\<not> i \<le> j"
  then have ji: "Suc j \<le> i" by simp
  then have "take i cs = take (Suc j) cs @ drop (Suc j) (take i cs)" by (metis append_take_drop_id min.absorb1 take_take)
  then have "tlen (take (Suc j) cs) \<le> tlen (take i cs)" by (metis chunks_text_simps(3) le_add1 length_append)
  moreover have "tlen (take (Suc j) cs) = js + length (cbytes (cs ! j))" using assms(2) by (simp add: finds_def take_Suc_conv_app_nth)
  ultimately show False using assms ji by (auto simp: finds_def)
qed

text \<open>Splicing in the chunks of one buffer; a short buffer stands alone.\<close>

lemma splice_chunks_ok:
  assumes r: "rope_ok r" and ij: "i \<le> j" "j < length (tree_items r)"
    and short: "chunkMin div 2 \<le> length buf \<or> i = 0 \<and> Suc j = length (tree_items r)"
  shows "rope_ok (splice text_summary r i (j + 1) (chunkify buf)) \<and>
    rope_text (splice text_summary r i (j + 1) (chunkify buf)) =
      chunks_text (take i (tree_items r)) @ buf @ chunks_text (drop (Suc j) (tree_items r))"
proof -
  have ok: "tree_ok text_summary (splice text_summary r i (j + 1) (chunkify buf))"
    and items: "tree_items (splice text_summary r i (j + 1) (chunkify buf)) =
      take i (tree_items r) @ chunkify buf @ drop (Suc j) (tree_items r)"
    using splice_ok [of text_summary r i "j + 1" "chunkify buf"] r ij by (auto simp: rope_ok_def)
  let ?items = "take i (tree_items r) @ chunkify buf @ drop (Suc j) (tree_items r)"
  have "\<forall>c \<in> set ?items. chunk_ok c" using r chunkify_ok(1) [of buf] by (auto simp: rope_ok_def dest: in_set_takeD in_set_dropD)
  moreover have "roomy ?items"
  proof (cases "i = 0 \<and> Suc j = length (tree_items r)")
    case True
    then show ?thesis using roomy_chunkify by simp
  next
    case False
    then have big: "chunkMin div 2 \<le> length buf" and many: "1 < length (tree_items r)" using short ij by auto
    have "chunkMin div 2 \<le> length (cbytes c)" if "c \<in> set (chunkify buf)" for c
      using chunkify_sizes [OF that] that big by (cases "chunkCap < length buf") (auto simp: chunkMin_def)
    moreover have "chunkMin div 2 \<le> length (cbytes c)" if "c \<in> set (tree_items r)" for c
      using r that many by (auto simp: rope_ok_def roomy_def)
    ultimately show ?thesis by (auto simp: roomy_def dest: in_set_takeD in_set_dropD)
  qed
  ultimately show ?thesis using ok items chunkify_ok(2) [of buf] by (simp add: rope_ok_def rope_text_def)
qed

lemma rope_replace_ok:
  assumes r: "rope_ok r" and se: "s \<le> e" "e \<le> length (rope_text r)"
  shows "rope_ok (rope_replace r s e b) \<and> rope_text (rope_replace r s e b) = take s (rope_text r) @ b @ drop e (rope_text r)"
proof (cases "replace_in_chunk r s e b")
  case (Some r')
  then show ?thesis using replace_in_chunk_ok [OF assms Some] by (simp add: rope_replace_def)
next
  case fall: None
  show ?thesis
  proof (cases "root r")
    case None
    then have "tree_items r = []" by (simp add: tree_items_def)
    moreover from this have "rope_text r = []" by (simp add: rope_text_def)
    moreover have "rope_replace r s e b = splice text_summary r 0 0 (chunkify b)" using None fall by (simp add: rope_replace_def)
    ultimately show ?thesis
      using splice_ok [of text_summary r 0 0 "chunkify b"] r chunkify_ok [of b] roomy_chunkify [of b]
      by (simp add: rope_ok_def rope_text_def)
  next
    case (Some n)
    let ?cs = "tree_items r"
    obtain i "is" where i: "locate r s = (i, is)" by force
    obtain j js where j: "(if e > s then locate r e else (i, is)) = (j, js)" by force
    have fi: "finds ?cs s i is" using locate_finds [OF r _ _ i] Some se by simp
    have fj: "finds ?cs e j js" using locate_finds [OF r _ se(2)] Some j fi se(1) by (cases "e > s") (auto simp: not_less)
    have ij: "i \<le> j" using finds_mono [OF fi fj se(1)] .
    have lens: "i < length ?cs" "j < length ?cs" using fi fj by (auto simp: finds_def)
    have count: "tcount r = length ?cs" using r tree_count by (auto simp: rope_ok_def)
    define buf where "buf = take (s - is) (chunk_bytes r i) @ b @ drop (e - js) (chunk_bytes r j)"
    have whole: "chunks_text (take i ?cs) @ buf @ chunks_text (drop (Suc j) ?cs) = take s (rope_text r) @ b @ drop e (rope_text r)"
      using finds_take [OF fi] finds_drop [OF fj] lens r by (simp add: buf_def chunk_bytes_nth rope_text_def)
    define ijb where "ijb = (if length buf < chunkMin
                   then if j + 1 < tcount r then (i, j + 1, buf @ chunk_bytes r (j + 1))
                        else if i > 0 then (i - 1, j, chunk_bytes r (i - 1) @ buf)
                        else (i, j, buf)
                   else (i, j, buf))"
    obtain i' j' buf' where b': "ijb = (i', j', buf')" by (metis prod_cases3)
    have rep: "rope_replace r s e b = splice text_summary r i' (j' + 1) (chunkify buf')"
      by (simp only: rope_replace_def fall Some option.case option.distinct if_False i j prod.case Let_def
          buf_def [symmetric] ijb_def [symmetric] b')
    have neighbour: "chunkMin div 2 \<le> length (cbytes (?cs ! k))" if "1 < length ?cs" "k < length ?cs" for k
      using r that by (auto simp: rope_ok_def roomy_def)
    have "i' \<le> j' \<and> j' < length ?cs \<and> (chunkMin div 2 \<le> length buf' \<or> i' = 0 \<and> Suc j' = length ?cs) \<and>
        chunks_text (take i' ?cs) @ buf' @ chunks_text (drop (Suc j') ?cs) = chunks_text (take i ?cs) @ buf @ chunks_text (drop (Suc j) ?cs)"
    proof (cases "length buf < chunkMin")
      case False
      then show ?thesis using b' ij lens by (auto simp: ijb_def chunkMin_def)
    next
      case short: True
      show ?thesis
      proof (cases "j + 1 < tcount r")
        case True
        then have "drop (Suc j) ?cs = ?cs ! Suc j # drop (Suc (Suc j)) ?cs" using count by (simp add: Cons_nth_drop_Suc)
        then show ?thesis using b' short True ij lens count r neighbour [of "Suc j"]
          by (auto simp: ijb_def chunk_bytes_nth intro: trans_le_add2)
      next
        case last: False
        show ?thesis
        proof (cases "i > 0")
          case True
          then have "take i ?cs = take (i - 1) ?cs @ [?cs ! (i - 1)]" using lens by (metis Suc_diff_1 less_imp_diff_less take_Suc_conv_app_nth)
          moreover have "chunkMin div 2 \<le> length (cbytes (?cs ! (i - 1))) + length buf"
            using neighbour [of "i - 1"] lens True by (simp add: trans_le_add1)
          moreover have "i' = i - 1 \<and> j' = j \<and> buf' = cbytes (?cs ! (i - 1)) @ buf"
            using b' short last True lens chunk_bytes_nth [OF r, of "i - 1"] by (auto simp: ijb_def)
          ultimately show ?thesis using ij lens by simp
        next
          case False
          then show ?thesis using b' short last ij lens count by (auto simp: ijb_def)
        qed
      qed
    qed
    then show ?thesis using splice_chunks_ok [OF r, of i' j' buf'] whole unfolding rep by simp
  qed
qed

section \<open>Depth\<close>

lemma roomy_text:
  "roomy cs \<Longrightarrow> 1 < length cs \<Longrightarrow> chunkMin div 2 * length cs \<le> tlen cs"
proof -
  assume "roomy cs" "1 < length cs"
  then have "\<forall>c \<in> set cs. chunkMin div 2 \<le> length (cbytes c)" by (simp add: roomy_def)
  then show ?thesis by (induction cs) (auto intro: add_mono)
qed

text \<open>A descent takes one slot per level, and each level multiplies the text by eight.\<close>

lemma rope_height_text:
  assumes "rope_ok r" "root r = Some n" "node_height n = Suc h"
  shows "64 * 8 ^ Suc h \<le> length (rope_text r)"
proof -
  have c: "2 * minItems ^ Suc h \<le> length (tree_items r)" using tree_height_bound assms by (auto simp: rope_ok_def)
  moreover have "8 \<le> minItems ^ Suc h" using power_increasing [of 1 "Suc h" minItems] by (simp add: minItems_def maxItems_def)
  ultimately have "chunkMin div 2 * length (tree_items r) \<le> length (rope_text r)"
    unfolding rope_text_def using assms(1) by (intro roomy_text) (auto simp: rope_ok_def)
  moreover have "chunkMin div 2 * (2 * minItems ^ Suc h) \<le> chunkMin div 2 * length (tree_items r)" using c by (rule mult_le_mono2)
  ultimately show ?thesis by (simp add: chunkMin_def chunkCap_def minItems_def maxItems_def)
qed

lemma descend_depth:
  assumes "rnode_ok h n" "start \<le> off" "off \<le> start + tlen (items_of n)" "descend n off index start = (slots, i, st)"
  shows "length slots = Suc h"
proof -
  obtain pre xs post where "path_to n slots pre xs post" using descend_finds [OF assms] by blast
  then show ?thesis using assms(1)
  proof (induction arbitrary: h rule: path_to.induct)
    case (path_leaf k xs)
    then show ?case by (cases h) (auto simp: rnode_ok_def)
  next
    case (path_inner k ks path pre xs post h0)
    then obtain h1 where h: "h = Suc h1" by (cases h) (auto simp: rnode_ok_def)
    then have "rnode_ok h1 (cnode (ks ! k))" using rnode_inner(1) [of h1 h0 ks] path_inner(1,4) by (auto simp: rchild_ok_def)
    then show ?case using path_inner(3) [of h1] h by simp
  qed
qed

end
