(* ===== verification/Anchors_Correct.thy ===== *)
theory Anchors_Correct
  imports Anchors Sum_Tree_Correct
begin

text \<open>
  The anchors of one bias are a map from slots to positions: what resolving a slot answers
  after every operation, and the order of positions and keys that every operation keeps.
\<close>

section \<open>Sums of entries\<close>

definition gsum :: "anchor_entry list \<Rightarrow> int" where
  "gsum es = sum_list (map gap es)"

definition key_max :: "anchor_entry list \<Rightarrow> 64 word" where
  "key_max es = foldl max 0 (map ekey es)"

definition measure_entries :: "anchor_entry list \<Rightarrow> anchor_sum" where
  "measure_entries es = \<lparr>spos = gsum es, maxKey = key_max es\<rparr>"

lemma gsum_simps [simp]: "gsum [] = 0" "gsum (e # es) = gap e + gsum es" "gsum (xs @ ys) = gsum xs + gsum ys"
  by (simp_all add: gsum_def)

lemma measure_entries_sel [simp]: "spos (measure_entries es) = gsum es" "maxKey (measure_entries es) = key_max es"
  by (simp_all add: measure_entries_def)

interpretation marks: summary_monoid anchor_summary
  by unfold_locales (auto simp: anchor_summary_def add_anchor_def zero_anchor_def ac_simps)

lemma foldl_max_word: "foldl max (a :: 64 word) xs = max a (foldl max 0 xs)"
proof (induction xs arbitrary: a)
  case (Cons x xs)
  show ?case using Cons [of "max a x"] Cons [of "max 0 x"] by (simp add: ac_simps)
qed simp

lemma key_max_simps [simp]: "key_max [] = 0" "key_max (e # es) = max (ekey e) (key_max es)"
  by (simp_all add: key_max_def foldl_max_word [of "ekey e"])

lemma key_max_append [simp]: "key_max (xs @ ys) = max (key_max xs) (key_max ys)"
  by (induction xs) (simp_all add: ac_simps)

lemma key_max_ge: "e \<in> set es \<Longrightarrow> ekey e \<le> key_max es"
  by (induction es) (auto simp: le_max_iff_disj)

lemma key_max_le: "(\<And>e. e \<in> set es \<Longrightarrow> ekey e \<le> k) \<Longrightarrow> key_max es \<le> k"
  by (induction es) auto

lemma add_measure [simp]: "add_anchor (measure_entries xs) (measure_entries ys) = measure_entries (xs @ ys)"
  by (simp add: add_anchor_def measure_entries_def)

lemma measure_single: "measure_anchor e = measure_entries [e]"
  by (simp add: measure_anchor_def measure_entries_def)

lemma entries_measure:
  "foldl (\<lambda>s x. add_sum anchor_summary s (measure_of anchor_summary x)) (zero_sum anchor_summary) es = measure_entries es"
proof (induction es rule: rev_induct)
  case (snoc e es)
  then show ?case by (simp add: anchor_summary_def measure_single)
qed (simp add: anchor_summary_def zero_anchor_def measure_entries_def)

definition anode_ok :: "nat \<Rightarrow> anchor_node \<Rightarrow> bool" where
  "anode_ok h n \<longleftrightarrow> balanced h n \<and> summed anchor_summary n"

lemma anode_inner:
  assumes "anode_ok (Suc h) (Inner h' ks)" "Child s n k \<in> set ks"
  shows "anode_ok h k" "s = measure_entries (items_of k)" "n = length (items_of k)" "items_of k \<noteq> []"
proof -
  have c: "Child s n k = child_of anchor_summary k" "summed anchor_summary k" "balanced h k"
    using assms by (auto simp: anode_ok_def dest!: bspec)
  show "anode_ok h k" using c by (simp add: anode_ok_def)
  show "items_of k \<noteq> []" using balanced_items [OF c(3)] .
  show "s = measure_entries (items_of k)" using marks.node_sum [OF c(2)] c(1) by (metis child.sel(1) entries_measure)
  show "n = length (items_of k)" using summed_count [OF c(2)] c(1) by (metis child.sel(2))
qed

text \<open>The children of a node that is sound at some height.\<close>

definition akids_ok :: "anchor_child list \<Rightarrow> bool" where
  "akids_ok ks \<longleftrightarrow> (\<forall>c \<in> set ks. (\<exists>h. anode_ok h (cnode c)) \<and> csum c = measure_entries (items_of (cnode c)) \<and>
     ccount c = length (items_of (cnode c)) \<and> items_of (cnode c) \<noteq> [])"

lemma akids_okI: "anode_ok h (Inner h' ks) \<Longrightarrow> akids_ok ks"
proof -
  assume ok: "anode_ok h (Inner h' ks)"
  then obtain h1 where "h = Suc h1" by (cases h) (auto simp: anode_ok_def)
  with ok show "akids_ok ks" using anode_inner [of h1 h' ks] unfolding akids_ok_def by (metis child.collapse)
qed

lemma akids_ok_simps [simp]:
  "akids_ok []"
  "akids_ok (Child s n k # cs) \<longleftrightarrow> (\<exists>h. anode_ok h k) \<and> s = measure_entries (items_of k) \<and> n = length (items_of k) \<and> items_of k \<noteq> [] \<and> akids_ok cs"
  by (auto simp: akids_ok_def)

section \<open>Seeking by position\<close>

definition nonneg :: "anchor_entry list \<Rightarrow> bool" where
  "nonneg es \<longleftrightarrow> (\<forall>e \<in> set es. 0 \<le> gap e)"

definition rising :: "anchor_entry list \<Rightarrow> bool" where
  "rising es \<longleftrightarrow> sorted_wrt (<) (map ekey es)"

lemma nonneg_simps [simp]:
  "nonneg []" "nonneg (e # es) \<longleftrightarrow> 0 \<le> gap e \<and> nonneg es" "nonneg (xs @ ys) \<longleftrightarrow> nonneg xs \<and> nonneg ys"
  by (auto simp: nonneg_def)

lemma gsum_nonneg: "nonneg es \<Longrightarrow> 0 \<le> gsum es"
  by (induction es) auto

lemma rising_append: "rising (xs @ ys) \<longleftrightarrow> rising xs \<and> rising ys \<and> (\<forall>x \<in> set xs. \<forall>y \<in> set ys. ekey x < ekey y)"
  by (auto simp: rising_def sorted_wrt_append)

lemma rising_Cons: "rising (x # ys) \<longleftrightarrow> rising ys \<and> (\<forall>y \<in> set ys. ekey x < ekey y)"
  by (auto simp: rising_def)

lemma rising_Nil [simp]: "rising []"
  by (simp add: rising_def)

lemma key_max_rising: "rising (xs @ [e]) \<Longrightarrow> key_max (xs @ [e]) = ekey e"
proof -
  assume "rising (xs @ [e])"
  then have "key_max xs \<le> ekey e" by (intro key_max_le) (auto simp: rising_append)
  then show ?thesis by (simp add: max_def)
qed

text \<open>The first entry whose position satisfies an upward closed predicate.\<close>

definition upward :: "(int \<Rightarrow> bool) \<Rightarrow> bool" where
  "upward p \<longleftrightarrow> (\<forall>x y. x \<le> y \<longrightarrow> p x \<longrightarrow> p y)"

lemma upwardD: "upward p \<Longrightarrow> x \<le> y \<Longrightarrow> p x \<Longrightarrow> p y"
  by (auto simp: upward_def)

lemma upward_passes [simp]: "upward (passes at0 incl)"
  by (auto simp: upward_def passes_def)

definition first_passing :: "(int \<Rightarrow> bool) \<Rightarrow> anchor_entry list \<Rightarrow> nat \<Rightarrow> bool" where
  "first_passing p es i \<longleftrightarrow> i < length es \<and> \<not> p (gsum (take i es)) \<and> p (gsum (take (Suc i) es))"

lemma seek_items_first:
  assumes "upward p" "rising (pre @ es)" "\<not> p (gsum pre)" "p (gsum (pre @ es))" "idx + k = length pre"
  shows "\<exists>i. first_passing p (pre @ es) i \<and> length pre \<le> i \<and>
    seek_items p es idx k (measure_entries pre) = (i, gsum (take i (pre @ es)), key_max (take i (pre @ es)), True)"
  using assms(2-)
proof (induction es arbitrary: pre k)
  case (Cons e es)
  show ?case
  proof (cases "p (gsum pre + gap e)")
    case True
    then show ?thesis using Cons.prems by (intro exI [of _ "length pre"]) (auto simp: first_passing_def)
  next
    case False
    have "rising (pre @ [e])" using Cons.prems(1) by (auto simp: rising_append rising_Cons)
    then have m: "\<lparr>spos = gsum pre + gap e, maxKey = ekey e\<rparr> = measure_entries (pre @ [e])"
      by (simp add: measure_entries_def key_max_rising del: key_max_append)
    have "\<exists>i. first_passing p ((pre @ [e]) @ es) i \<and> length (pre @ [e]) \<le> i \<and>
        seek_items p es idx (Suc k) (measure_entries (pre @ [e])) =
          (i, gsum (take i ((pre @ [e]) @ es)), key_max (take i ((pre @ [e]) @ es)), True)"
      using Cons.prems False by (intro Cons.IH) simp_all
    then show ?thesis using False m by auto
  qed
qed simp

lemma seek_node_first:
  "upward p \<Longrightarrow> anode_ok h n \<Longrightarrow> rising (pre @ items_of n) \<Longrightarrow> \<not> p (gsum pre) \<Longrightarrow> p (gsum (pre @ items_of n)) \<Longrightarrow>
    idx = length pre \<Longrightarrow> prev = measure_entries pre \<Longrightarrow>
      \<exists>i. first_passing p (pre @ items_of n) i \<and>
        seek_node p n idx prev = Some (i, gsum (take i (pre @ items_of n)), key_max (take i (pre @ items_of n)), True)"
  "upward p \<Longrightarrow> akids_ok ks \<Longrightarrow> rising (pre @ kids_items ks) \<Longrightarrow> \<not> p (gsum pre) \<Longrightarrow> p (gsum (pre @ kids_items ks)) \<Longrightarrow>
    idx = length pre \<Longrightarrow> prev = measure_entries pre \<Longrightarrow>
      \<exists>i. first_passing p (pre @ kids_items ks) i \<and>
        seek_kids p ks idx prev = Some (i, gsum (take i (pre @ kids_items ks)), key_max (take i (pre @ kids_items ks)), True)"
proof (induction p n idx prev and p ks idx prev arbitrary: h pre and pre rule: seek_node_seek_kids.induct)
  case (1 p xs idx prev)
  then show ?case using seek_items_first [of p pre xs idx 0] by auto
next
  case (2 p h0 ks idx prev)
  then show ?case using akids_okI by auto
next
  case (4 p s n k cs idx prev)
  obtain hk where k: "anode_ok hk k" "s = measure_entries (items_of k)" "n = length (items_of k)" "akids_ok cs"
    using "4.prems"(2) by auto
  show ?case
  proof (cases "p (spos prev + spos s)")
    case True
    have "rising (pre @ items_of k)" using "4.prems"(3) by (simp add: rising_append)
    then obtain i where i: "first_passing p (pre @ items_of k) i"
      "seek_node p k idx prev = Some (i, gsum (take i (pre @ items_of k)), key_max (take i (pre @ items_of k)), True)"
      using "4.IH"(1) [OF True "4.prems"(1) k(1)] "4.prems" True k(2) by auto
    have "i < length (pre @ items_of k)" using i(1) by (simp add: first_passing_def)
    then have "take j (pre @ kids_items (Child s n k # cs)) = take j (pre @ items_of k)" if "j \<le> Suc i" for j
      using that by auto
    then show ?thesis using i True by (intro exI [of _ i]) (auto simp: first_passing_def)
  next
    case False
    have "\<exists>i. first_passing p ((pre @ items_of k) @ kids_items cs) i \<and>
        seek_kids p cs (idx + n) (add_anchor prev s) =
          Some (i, gsum (take i ((pre @ items_of k) @ kids_items cs)), key_max (take i ((pre @ items_of k) @ kids_items cs)), True)"
      using False "4.prems" k by (intro "4.IH"(2)) simp_all
    then show ?thesis using False by simp
  qed
qed simp

section \<open>Finding by key\<close>

lemma rising_nth: "rising es \<Longrightarrow> i < j \<Longrightarrow> j < length es \<Longrightarrow> ekey (es ! i) < ekey (es ! j)"
  by (auto simp: rising_def sorted_wrt_iff_nth_less)

lemma find_items_nth:
  "rising es \<Longrightarrow> i < length es \<Longrightarrow> find_items (ekey (es ! i)) es idx pos = Some (idx + i, pos + gsum (take (Suc i) es))"
proof (induction es arbitrary: i idx pos)
  case (Cons e es)
  show ?case
  proof (cases i)
    case (Suc j)
    then have "ekey e \<noteq> ekey (es ! j)" using Cons.prems by (auto simp: rising_Cons)
    then show ?thesis using Suc Cons.IH [of j "Suc idx" "pos + gap e"] Cons.prems by (simp add: rising_Cons)
  qed simp
qed simp

lemma find_node_nth:
  "anode_ok h n \<Longrightarrow> rising (items_of n) \<Longrightarrow> i < length (items_of n) \<Longrightarrow> key = ekey (items_of n ! i) \<Longrightarrow>
    find_node key n idx pos = Some (idx + i, pos + gsum (take (Suc i) (items_of n)))"
  "akids_ok ks \<Longrightarrow> rising (kids_items ks) \<Longrightarrow> i < length (kids_items ks) \<Longrightarrow> key = ekey (kids_items ks ! i) \<Longrightarrow>
    find_kids key ks idx pos = Some (idx + i, pos + gsum (take (Suc i) (kids_items ks)))"
proof (induction key n idx pos and key ks idx pos arbitrary: h i and i rule: find_node_find_kids.induct)
  case (1 key xs idx pos)
  then show ?case using find_items_nth by simp
next
  case (2 key h0 ks idx pos)
  then show ?case using akids_okI by auto
next
  case (4 key s n k cs idx pos)
  obtain hk where k: "anode_ok hk k" "s = measure_entries (items_of k)" "n = length (items_of k)" "akids_ok cs" "items_of k \<noteq> []"
    using "4.prems"(1) by auto
  have r: "rising (items_of k)" "rising (kids_items cs)" using "4.prems"(2) by (auto simp: rising_append)
  show ?case
  proof (cases "i < length (items_of k)")
    case True
    then have key: "key = ekey (items_of k ! i)" using "4.prems"(4) by (simp add: nth_append)
    then have "key \<le> maxKey s" using key_max_ge [of "items_of k ! i" "items_of k"] True k(2) by simp
    then show ?thesis using "4.IH"(1) [OF _ k(1) r(1) True key] True by simp
  next
    case False
    then obtain j where j: "i = length (items_of k) + j" by (metis le_Suc_ex not_less)
    then have jl: "j < length (kids_items cs)" and key: "key = ekey (kids_items cs ! j)" using "4.prems"(3,4) by auto
    then have less: "ekey e < key" if "e \<in> set (items_of k)" for e using "4.prems"(2) that by (auto simp: rising_append)
    have "key_max (items_of k) \<in> ekey ` set (items_of k)" if "xs \<noteq> []" "xs = items_of k" for xs
    proof -
      have "rising (butlast xs @ [last xs])" using that r(1) by simp
      then have "key_max xs = ekey (last xs)" using key_max_rising [of "butlast xs" "last xs"] that(1) by simp
      then show ?thesis using that by auto
    qed
    then have "\<not> key \<le> maxKey s" using less k(2,5) by (auto simp: not_le)
    then show ?thesis using "4.IH"(2) [OF _ k(4) r(2) jl key] j k(3) k(2) by simp
  qed
qed simp

section \<open>Positions by slot\<close>

text \<open>Each entry's slot with its position, in order.\<close>

fun placed :: "int \<Rightarrow> anchor_entry list \<Rightarrow> (32 word \<times> int) list" where
  "placed pos [] = []"
| "placed pos (e # es) = (slot e, pos + gap e) # placed (pos + gap e) es"

lemma placed_append: "placed pos (xs @ ys) = placed pos xs @ placed (pos + gsum xs) ys"
  by (induction xs arbitrary: pos) (simp_all add: add.assoc)

lemma map_fst_placed [simp]: "map fst (placed pos es) = map slot es"
  by (induction es arbitrary: pos) simp_all

lemma placed_nth: "i < length es \<Longrightarrow> placed pos es ! i = (slot (es ! i), pos + gsum (take (Suc i) es))"
  by (induction es arbitrary: pos i) (auto simp: nth_Cons split: nat.splits)

lemma length_placed [simp]: "length (placed pos es) = length es"
  by (induction es arbitrary: pos) simp_all

lemma placed_ge: "nonneg es \<Longrightarrow> (s, q) \<in> set (placed pos es) \<Longrightarrow> pos \<le> q"
  by (induction es arbitrary: pos) force+

lemma placed_le: "nonneg es \<Longrightarrow> (s, q) \<in> set (placed pos es) \<Longrightarrow> q \<le> pos + gsum es"
proof (induction es arbitrary: pos)
  case (Cons e es)
  then show ?case using Cons.IH [of "pos + gap e"] gsum_nonneg [of es] by (auto simp: add.assoc)
qed simp

lemma placed_shift: "placed (pos + d) es = map (\<lambda>(s, q). (s, q + d)) (placed pos es)"
proof (induction es arbitrary: pos)
  case (Cons e es)
  have swap: "pos + d + gap e = pos + gap e + d" by simp
  show ?case by (simp only: placed.simps list.map prod.case swap Cons)
qed simp

definition entries_ok :: "anchor_tree \<Rightarrow> bool" where
  "entries_ok a \<longleftrightarrow> tree_ok anchor_summary (entries a) \<and> nonneg (tree_items (entries a)) \<and> rising (tree_items (entries a))"

definition slots_ok :: "anchor_tree \<Rightarrow> bool" where
  "slots_ok a \<longleftrightarrow>
     (\<forall>e \<in> set (tree_items (entries a)). unat (slot e) < length (keys a) \<and> keys a ! unat (slot e) = ekey e \<and> ekey e \<noteq> 0) \<and>
     (\<forall>i < length (keys a). keys a ! i \<noteq> 0 \<longrightarrow> (\<exists>e \<in> set (tree_items (entries a)). unat (slot e) = i)) \<and>
     distinct (free a) \<and> (\<forall>s \<in> set (free a). unat s < length (keys a) \<and> keys a ! unat s = 0) \<and> length (keys a) < 2 ^ 31"

definition anchors_ok :: "anchor_tree \<Rightarrow> bool" where
  "anchors_ok a \<longleftrightarrow> entries_ok a \<and> slots_ok a"

definition positions :: "anchor_tree \<Rightarrow> (32 word \<times> int) list" where
  "positions a = placed 0 (tree_items (entries a))"

lemma anchors_root:
  assumes "tree_ok anchor_summary t" "root t = Some n"
  obtains h where "anode_ok h n" "tree_items t = items_of n"
  using assms by (auto simp: anode_ok_def elim!: tree_okE)

lemma anchors_sum: "tree_ok anchor_summary t \<Longrightarrow> tsum t = measure_entries (tree_items t)"
  by (simp add: marks.tree_sum entries_measure)

lemma rising_slots:
  assumes "rising es" "\<And>e. e \<in> set es \<Longrightarrow> f (slot e) = ekey e"
  shows "distinct (map slot es)"
proof -
  have "distinct (map ekey es)" using assms(1) by (auto simp: rising_def strict_sorted_iff)
  moreover have "map ekey es = map f (map slot es)" using assms(2) by simp
  ultimately show ?thesis using distinct_map by metis
qed

lemma slots_distinct: "anchors_ok a \<Longrightarrow> distinct (map slot (tree_items (entries a)))"
  by (rule rising_slots [of _ "\<lambda>s. keys a ! unat s"]) (auto simp: anchors_ok_def entries_ok_def slots_ok_def)

lemma find_key_nth:
  assumes "entries_ok a" "i < length (tree_items (entries a))"
  shows "find_key a (ekey (tree_items (entries a) ! i)) = Some (i, gsum (take (Suc i) (tree_items (entries a))))"
proof -
  obtain n where n: "root (entries a) = Some n" using assms(2) by (auto simp: tree_items_def split: option.splits)
  obtain h where h: "anode_ok h n" "tree_items (entries a) = items_of n"
    using assms(1) n by (auto simp: entries_ok_def elim: anchors_root)
  then show ?thesis using find_node_nth(1) [OF h(1), of i _ 0 0] assms n by (simp add: find_key_def entries_ok_def)
qed

lemma slot_key_entry:
  assumes "slots_ok a"
  shows "slot_key a s = (if \<exists>e \<in> set (tree_items (entries a)). slot e = s then Some (keys a ! unat s) else None)"
proof (cases "unat s < length (keys a) \<and> keys a ! unat s \<noteq> 0")
  case True
  then obtain e where "e \<in> set (tree_items (entries a))" "unat (slot e) = unat s" using assms by (auto simp: slots_ok_def)
  then show ?thesis using True by (auto simp: slot_key_def word_unat_eq_iff)
next
  case False
  then show ?thesis using assms by (auto simp: slot_key_def slots_ok_def)
qed

text \<open>Resolving a slot looks it up among the positions.\<close>

theorem resolve_positions:
  assumes "anchors_ok a"
  shows "resolve_slot a s = map_of (positions a) s"
proof (cases "\<exists>e \<in> set (tree_items (entries a)). slot e = s")
  case True
  then obtain i where i: "i < length (tree_items (entries a))" "slot (tree_items (entries a) ! i) = s" by (auto simp: in_set_conv_nth)
  then have "keys a ! unat s = ekey (tree_items (entries a) ! i)" using assms by (auto simp: anchors_ok_def slots_ok_def)
  then have "resolve_slot a s = Some (gsum (take (Suc i) (tree_items (entries a))))"
    using slot_key_entry [of a s] find_key_nth [of a i] assms i True by (simp add: resolve_slot_def anchors_ok_def)
  moreover have "(s, gsum (take (Suc i) (tree_items (entries a)))) \<in> set (positions a)"
    using i placed_nth [OF i(1), of 0] unfolding positions_def by (metis add.left_neutral length_placed nth_mem)
  then have "map_of (positions a) s = Some (gsum (take (Suc i) (tree_items (entries a))))"
    using slots_distinct [OF assms] by (intro map_of_is_SomeI) (simp_all add: positions_def)
  ultimately show ?thesis by simp
next
  case False
  then have "s \<notin> set (map fst (positions a))" by (auto simp: positions_def)
  then have "map_of (positions a) s = None" by (simp add: map_of_eq_None_iff)
  then show ?thesis using False assms by (simp add: resolve_slot_def slot_key_entry anchors_ok_def)
qed

end
