(* ===== verification/Anchor_Moves.thy ===== *)
theory Anchor_Moves
  imports Anchors_Correct
begin

text \<open>
  What the operations do to the positions: a shift and a collapse move them, an add inserts
  one and a remove drops one; each keeps the invariant of the anchors of one bias.
\<close>

section \<open>Entries with the same keys and slots\<close>

definition tags :: "anchor_entry list \<Rightarrow> (64 word \<times> 32 word) list" where
  "tags es = map (\<lambda>e. (ekey e, slot e)) es"

lemma tags_simps [simp]: "tags [] = []" "tags (e # es) = (ekey e, slot e) # tags es" "tags (xs @ ys) = tags xs @ tags ys"
  "length (tags es) = length es"
  by (simp_all add: tags_def)

lemma rising_tags: "tags es = tags fs \<Longrightarrow> rising es = rising fs"
proof -
  assume "tags es = tags fs"
  then have "map fst (tags es) = map fst (tags fs)" by simp
  then show ?thesis by (simp add: rising_def tags_def o_def)
qed

lemma slots_ok_tags:
  assumes "slots_ok a" "tags (tree_items (entries b)) = tags (tree_items (entries a))" "keys b = keys a" "free b = free a"
  shows "slots_ok b"
proof -
  have iff: "slots_ok c \<longleftrightarrow>
     (\<forall>t \<in> set (tags (tree_items (entries c))). unat (snd t) < length (keys c) \<and> keys c ! unat (snd t) = fst t \<and> fst t \<noteq> 0) \<and>
     (\<forall>i < length (keys c). keys c ! i \<noteq> 0 \<longrightarrow> (\<exists>t \<in> set (tags (tree_items (entries c))). unat (snd t) = i)) \<and>
     distinct (free c) \<and> (\<forall>s \<in> set (free c). unat s < length (keys c) \<and> keys c ! unat s = 0) \<and> length (keys c) < 2 ^ 31" for c
    by (simp add: slots_ok_def tags_def)
  show ?thesis using assms unfolding iff by simp
qed

section \<open>Shifting\<close>

lemma shift_items_inside:
  "xs \<noteq> [] \<Longrightarrow> p (pos + gsum xs) \<Longrightarrow> shift_items p d (xs @ ys) pos = shift_items p d xs pos @ ys"
proof (induction xs arbitrary: pos)
  case (Cons e xs)
  then show ?case by (cases "xs = []") (auto simp: add.assoc)
qed simp

lemma shift_items_beyond:
  "upward p \<Longrightarrow> nonneg xs \<Longrightarrow> \<not> p (pos + gsum xs) \<Longrightarrow> shift_items p d (xs @ ys) pos = xs @ shift_items p d ys (pos + gsum xs)"
proof (induction xs arbitrary: pos)
  case (Cons e xs)
  have "\<not> p (pos + gap e)" using Cons.prems gsum_nonneg [of xs] upwardD [of p "pos + gap e" "pos + gsum (e # xs)"] by auto
  then show ?case using Cons by (simp add: add.assoc)
qed simp

lemma shift_items_tags [simp]: "tags (shift_items p d es pos) = tags es" "length (shift_items p d es pos) = length es"
  by (induction es arbitrary: pos) simp_all

lemma shift_items_sum: "es \<noteq> [] \<Longrightarrow> p (pos + gsum es) \<Longrightarrow> gsum (shift_items p d es pos) = gsum es + d"
proof (induction es arbitrary: pos)
  case (Cons e es)
  then show ?case by (cases "es = []") (auto simp: add.assoc)
qed simp

lemma key_max_tags: "tags es = tags fs \<Longrightarrow> key_max es = key_max fs"
proof -
  assume "tags es = tags fs"
  then have "map fst (tags es) = map fst (tags fs)" by simp
  then show ?thesis by (simp add: key_max_def tags_def o_def)
qed

lemma node_len_shift [simp]: "node_len (shift_node p d n pos) = node_len n" "length (shift_kids p d ks pos) = length ks"
  by (induction p d n pos and p d ks pos rule: shift_node_shift_kids.induct) simp_all

lemma shift_kid_sum:
  assumes "anode_ok h k" "items_of k = shift_items p d (items_of k0) pos" "items_of k0 \<noteq> []" "p (pos + gsum (items_of k0))"
  shows "Child (measure_entries (items_of k0)\<lparr>spos := gsum (items_of k0) + d\<rparr>) (length (items_of k0)) k = child_of anchor_summary k"
proof -
  have s: "summed anchor_summary k" using assms(1) by (simp add: anode_ok_def)
  have "csum (child_of anchor_summary k) = measure_entries (items_of k)" using marks.node_sum [OF s] by (simp add: entries_measure)
  moreover have "measure_entries (items_of k) = measure_entries (items_of k0)\<lparr>spos := gsum (items_of k0) + d\<rparr>"
    using shift_items_sum [OF assms(3), of p pos d] assms(2,4) key_max_tags [of "items_of k" "items_of k0"]
    by (simp add: measure_entries_def)
  moreover have "ccount (child_of anchor_summary k) = length (items_of k0)" using summed_count [OF s] assms(2) by simp
  ultimately show ?thesis by (metis child.collapse cnode_child_of)
qed

lemma shift_node_ok:
  "upward p \<Longrightarrow> anode_ok h n \<Longrightarrow> nonneg (items_of n) \<Longrightarrow> p (pos + gsum (items_of n)) \<Longrightarrow>
    items_of (shift_node p d n pos) = shift_items p d (items_of n) pos \<and> anode_ok h (shift_node p d n pos)"
  "upward p \<Longrightarrow> \<forall>c \<in> set ks. sound anchor_summary h c \<Longrightarrow> nonneg (kids_items ks) \<Longrightarrow> p (pos + gsum (kids_items ks)) \<Longrightarrow> ks \<noteq> [] \<Longrightarrow>
    kids_items (shift_kids p d ks pos) = shift_items p d (kids_items ks) pos \<and> (\<forall>c \<in> set (shift_kids p d ks pos). sound anchor_summary h c) \<and>
    ((\<forall>c \<in> set ks. \<not> underfull c) \<longrightarrow> (\<forall>c \<in> set (shift_kids p d ks pos). \<not> underfull c))"
proof (induction p d n pos and p d ks pos arbitrary: h and h rule: shift_node_shift_kids.induct)
  case (1 p d xs pos)
  then have "h = 0" by (cases h) (auto simp: anode_ok_def)
  then show ?case using 1 shift_items_tags(2) [of p d xs pos] by (auto simp: anode_ok_def simp del: shift_items_tags)
next
  case (2 p d h0 ks pos)
  then obtain h1 where h: "h = Suc h1" "h0 = Suc h1" by (cases h) (auto simp: anode_ok_def)
  have ks: "\<forall>c \<in> set ks. sound anchor_summary h1 c" "ks \<noteq> []" using "2.prems"(2) h by (auto simp: anode_ok_def sound_def)
  from "2.IH" [OF "2.prems"(1) ks(1) _ _ ks(2)] "2.prems"(3,4)
  have "kids_items (shift_kids p d ks pos) = shift_items p d (kids_items ks) pos"
    "\<forall>c \<in> set (shift_kids p d ks pos). sound anchor_summary h1 c"
    "(\<forall>c \<in> set ks. \<not> underfull c) \<longrightarrow> (\<forall>c \<in> set (shift_kids p d ks pos). \<not> underfull c)" by auto
  moreover have "shift_kids p d ks pos \<noteq> []" using ks(2) by (metis length_0_conv node_len_shift(2))
  ultimately show ?case using "2.prems"(2) h by (auto simp: anode_ok_def sound_def)
next
  case (4 p d s n k cs pos)
  have c: "sound anchor_summary h (Child s n k)" using "4.prems"(2) by simp
  have k: "anode_ok h k" using c by (simp add: sound_def anode_ok_def)
  have sn: "s = measure_entries (items_of k)" "n = length (items_of k)"
    using c marks.node_sum [of k] summed_count [of anchor_summary k] unfolding sound_def
    by (metis child.sel(1,3) entries_measure, metis child.sel(2,3))
  have ne: "items_of k \<noteq> []" using c balanced_items by (auto simp: sound_def)
  have nn: "nonneg (items_of k)" "nonneg (kids_items cs)" using "4.prems"(3) by auto
  show ?case
  proof (cases "p (pos + spos s)")
    case True
    then have pk: "p (pos + gsum (items_of k))" using sn by simp
    from "4.IH"(1) [OF True "4.prems"(1) k nn(1) pk]
    have kid: "items_of (shift_node p d k pos) = shift_items p d (items_of k) pos" "anode_ok h (shift_node p d k pos)" by auto
    have "sound anchor_summary h (Child (s\<lparr>spos := spos s + d\<rparr>) n (shift_node p d k pos))"
      using kid shift_kid_sum [OF kid(2,1) ne pk] sn by (simp add: sound_def anode_ok_def del: child_of.simps)
    then show ?thesis using True kid(1) "4.prems"(2) shift_items_inside [of "items_of k" p pos d "kids_items cs", OF ne pk]
      by (auto simp: underfull_def)
  next
    case False
    have "cs \<noteq> []" using False "4.prems"(4) sn by auto
    then have "kids_items (shift_kids p d cs (pos + spos s)) = shift_items p d (kids_items cs) (pos + spos s) \<and>
        (\<forall>c \<in> set (shift_kids p d cs (pos + spos s)). sound anchor_summary h c) \<and>
        ((\<forall>c \<in> set cs. \<not> underfull c) \<longrightarrow> (\<forall>c \<in> set (shift_kids p d cs (pos + spos s)). \<not> underfull c))"
      using False "4.prems" sn nn by (intro "4.IH"(2)) (auto simp: add.assoc)
    then show ?thesis using False c sn shift_items_beyond [OF "4.prems"(1) nn(1), of pos d "kids_items cs"] by simp
  qed
qed simp

lemma shift_items_split:
  assumes "upward p" "nonneg es" "es \<noteq> []" "p (pos + gsum es)"
  shows "\<exists>xs e ys. es = xs @ e # ys \<and> (xs \<noteq> [] \<longrightarrow> \<not> p (pos + gsum xs)) \<and> p (pos + gsum xs + gap e) \<and>
    shift_items p d es pos = xs @ e\<lparr>gap := gap e + d\<rparr> # ys"
  using assms(2-)
proof (induction es arbitrary: pos)
  case (Cons e es)
  show ?case
  proof (cases "p (pos + gap e)")
    case True
    then show ?thesis by (intro exI [of _ "[]"]) auto
  next
    case False
    then have "es \<noteq> []" using Cons.prems by auto
    then obtain xs f ys where s: "es = xs @ f # ys" "xs \<noteq> [] \<longrightarrow> \<not> p (pos + gap e + gsum xs)" "p (pos + gap e + gsum xs + gap f)"
      "shift_items p d es (pos + gap e) = xs @ f\<lparr>gap := gap f + d\<rparr> # ys"
      using Cons.IH [of "pos + gap e"] Cons.prems by (auto simp: add.assoc)
    have "\<not> p (pos + gsum (e # xs))" using s(2) False by (cases "xs = []") (auto simp: add.assoc)
    then show ?thesis using s False by (intro exI [of _ "e # xs"]) (auto simp: add.assoc)
  qed
qed simp

text \<open>A move of positions, and the positions that pass.\<close>

definition move_where :: "(int \<Rightarrow> bool) \<Rightarrow> int \<Rightarrow> int \<Rightarrow> int" where
  "move_where p d q = (if p q then q + d else q)"

lemma placed_shift_items:
  assumes "upward p" "nonneg es" "es \<noteq> []" "p (pos + gsum es)"
  shows "placed pos (shift_items p d es pos) = map (\<lambda>(s, q). (s, move_where p d q)) (placed pos es)"
proof -
  obtain xs e ys where s: "es = xs @ e # ys" "xs \<noteq> [] \<longrightarrow> \<not> p (pos + gsum xs)" "p (pos + gsum xs + gap e)"
    "shift_items p d es pos = xs @ e\<lparr>gap := gap e + d\<rparr> # ys"
    using shift_items_split [OF assms] by blast
  have nn: "nonneg xs" "0 \<le> gap e" "nonneg ys" using assms(2) s(1) by auto
  have "move_where p d q = q" if "(t, q) \<in> set (placed pos xs)" for t q
  proof -
    have "xs \<noteq> []" using that by auto
    then have "\<not> p q" using s(2) placed_le [OF nn(1) that] upwardD [OF assms(1)] by blast
    then show ?thesis by (simp add: move_where_def)
  qed
  then have "map (\<lambda>(s, q). (s, move_where p d q)) (placed pos xs) = placed pos xs" by (intro map_idI) auto
  moreover have "move_where p d q = q + d" if "(t, q) \<in> set (placed (pos + gsum xs + gap e) ys)" for t q
    using upwardD [OF assms(1) placed_ge [OF nn(3) that] s(3)] by (simp add: move_where_def)
  then have "map (\<lambda>(s, q). (s, move_where p d q)) (placed (pos + gsum xs + gap e) ys) = placed (pos + gsum xs + gap e + d) ys"
    unfolding placed_shift [of "pos + gsum xs + gap e" d ys] by (intro map_cong) auto
  moreover have "pos + gsum xs + (gap e + d) = pos + gsum xs + gap e + d" by simp
  ultimately show ?thesis using s(3) unfolding s(1) s(4)[unfolded s(1)] by (simp add: placed_append move_where_def add.assoc)
qed

lemma shift_positions:
  assumes ok: "anchors_ok a"
    and safe: "\<And>xs e ys. tree_items (entries a) = xs @ e # ys \<Longrightarrow> xs \<noteq> [] \<longrightarrow> \<not> passes at0 incl (gsum xs) \<Longrightarrow>
      passes at0 incl (gsum xs + gap e) \<Longrightarrow> 0 \<le> gap e + d"
  shows "anchors_ok (shift a at0 incl d) \<and>
    positions (shift a at0 incl d) = map (\<lambda>(s, q). (s, move_where (passes at0 incl) d q)) (positions a)"
proof -
  let ?es = "tree_items (entries a)" and ?p = "passes at0 incl"
  have e: "tree_ok anchor_summary (entries a)" "nonneg ?es" "rising ?es" using ok by (auto simp: anchors_ok_def entries_ok_def)
  have sum: "spos (tsum (entries a)) = gsum ?es" using anchors_sum [OF e(1)] by simp
  show ?thesis
  proof (cases "root (entries a) = None \<or> \<not> ?p (gsum ?es)")
    case True
    then have "shift a at0 incl d = a" using sum by (auto simp: shift_def Let_def split: option.splits)
    moreover have "move_where ?p d q = q" if "(s, q) \<in> set (placed 0 ?es)" for s q
    proof -
      have "?es \<noteq> []" using that by auto
      then have "\<not> ?p (gsum ?es)" using True by (auto simp: tree_items_def)
      moreover have "q \<le> gsum ?es" using placed_le [OF e(2) that] by simp
      ultimately show ?thesis using upwardD [OF upward_passes] by (auto simp: move_where_def)
    qed
    then have "map (\<lambda>(s, q). (s, move_where ?p d q)) (positions a) = positions a" by (intro map_idI) (auto simp: positions_def)
    ultimately show ?thesis using ok by simp
  next
    case False
    then obtain n where n: "root (entries a) = Some n" and pass: "?p (gsum ?es)" by auto
    obtain h where h: "anode_ok h n" "?es = items_of n" using anchors_root [OF e(1) n] .
    have ne: "?es \<noteq> []" using h balanced_items by (auto simp: anode_ok_def)
    let ?n' = "shift_node ?p d n 0"
    have n': "items_of ?n' = shift_items ?p d ?es 0" "anode_ok h ?n'"
      using shift_node_ok(1) [OF upward_passes h(1), of at0 incl 0 d] e(2) pass h(2) by auto
    let ?t' = "(entries a)\<lparr>root := Some ?n', tsum := (tsum (entries a))\<lparr>spos := gsum ?es + d\<rparr>\<rparr>"
    have s: "shift a at0 incl d = a\<lparr>entries := ?t'\<rparr>" using n pass sum by (simp add: shift_def Let_def)
    have items: "tree_items ?t' = shift_items ?p d ?es 0" using n'(1) by (simp add: tree_items_def)
    have kid: "Child (tsum ?t') (tcount ?t') ?n' = child_of anchor_summary ?n'"
      using shift_kid_sum [OF n'(2), of ?p d n 0] n'(1) h(2) ne pass anchors_sum [OF e(1)] tree_count [OF e(1)] by simp
    have "length (node_kids ?n') \<noteq> 1"
    proof -
      have "length (node_kids ?n') = length (node_kids n)" by (cases n) simp_all
      then show ?thesis using e(1) n by (simp add: tree_ok_def)
    qed
    then have tree: "tree_ok anchor_summary ?t'" using kid n'(2) by (auto simp: tree_ok_def sound_def anode_ok_def simp del: child_of.simps)
    have pass0: "?p (0 + gsum ?es)" using pass by simp
    obtain xs f ys where sp: "?es = xs @ f # ys" "xs \<noteq> [] \<longrightarrow> \<not> ?p (0 + gsum xs)" "?p (0 + gsum xs + gap f)"
      "shift_items ?p d ?es 0 = xs @ f\<lparr>gap := gap f + d\<rparr> # ys"
      using shift_items_split [OF upward_passes e(2) ne pass0] by blast
    have "0 \<le> gap f + d" using safe [OF sp(1)] sp(2,3) by simp
    then have "nonneg (xs @ f\<lparr>gap := gap f + d\<rparr> # ys)" using e(2) unfolding sp(1) by simp
    then have "nonneg (shift_items ?p d ?es 0)" unfolding sp(4) .
    moreover have "rising (shift_items ?p d ?es 0)" using e(3) rising_tags [of "shift_items ?p d ?es 0" ?es] by simp
    ultimately have "entries_ok (shift a at0 incl d)" using tree items unfolding s entries_ok_def by simp
    moreover have "slots_ok (shift a at0 incl d)"
      unfolding s by (rule slots_ok_tags [OF ok [unfolded anchors_ok_def, THEN conjunct2]]) (simp_all add: items del: length_placed)
    moreover have "positions (shift a at0 incl d) = map (\<lambda>(s, q). (s, move_where ?p d q)) (positions a)"
      using placed_shift_items [OF upward_passes e(2) ne, of at0 incl 0 d] pass items unfolding s positions_def by simp
    ultimately show ?thesis by (simp add: anchors_ok_def)
  qed
qed

section \<open>Seeking in the tree\<close>

lemma seek_found:
  assumes ok: "entries_ok a" and pos: "0 \<le> pos"
  shows "if passes pos False (gsum (tree_items (entries a)))
    then \<exists>i. first_passing (passes pos False) (tree_items (entries a)) i \<and>
      seek a pos False = Some (i, gsum (take i (tree_items (entries a))), key_max (take i (tree_items (entries a))), True)
    else seek a pos False =
      Some (length (tree_items (entries a)), gsum (tree_items (entries a)), key_max (tree_items (entries a)), False)"
proof -
  let ?es = "tree_items (entries a)"
  have e: "tree_ok anchor_summary (entries a)" "rising ?es" using ok by (auto simp: entries_ok_def)
  have sum: "tsum (entries a) = measure_entries ?es" "tcount (entries a) = length ?es" using anchors_sum [OF e(1)] tree_count [OF e(1)] by auto
  show ?thesis
  proof (cases "root (entries a)")
    case None
    then have "?es = []" by (simp add: tree_items_def)
    then show ?thesis using None pos by (simp add: seek_def passes_def)
  next
    case (Some n)
    obtain h where h: "anode_ok h n" "?es = items_of n" using anchors_root [OF e(1) Some] .
    have "measure_entries [] = zero_anchor" by (simp add: measure_entries_def zero_anchor_def)
    then show ?thesis using seek_node_first(1) [OF upward_passes h(1), of "[]" pos False 0 zero_anchor] h(2) e(2) pos Some sum
      by (auto simp: seek_def passes_def)
  qed
qed

section \<open>Collapsing\<close>

definition collapsed :: "int \<Rightarrow> int \<Rightarrow> int \<Rightarrow> int" where
  "collapsed s e q = (if q \<le> s then q else if q \<le> e then s else q - (e - s))"

lemma collapse_scan:
  assumes "s < e" "newPrev \<le> s" "nonneg es" "\<forall>(t, q) \<in> set (placed pos es). s < q"
  shows "\<exists>ms pos' np. fst (scan_items (collapse_step s e) es (pos, newPrev, moved)) = (pos', np, moved @ ms) \<and>
    length ms \<le> length es \<and> tags ms = tags (take (length ms) es) \<and> nonneg ms \<and>
    placed newPrev (ms @ drop (length ms) es) = map (\<lambda>(t, q). (t, collapsed s e q)) (placed pos es)"
  using assms(2-)
proof (induction es arbitrary: pos newPrev moved)
  case (Cons x es)
  define p where "p = pos + gap x"
  define q where "q = (if p > e then p - (e - s) else s)"
  define y where "y = x\<lparr>gap := q - newPrev\<rparr>"
  have p: "s < p" using Cons.prems(3) by (simp add: p_def)
  have q: "q = collapsed s e p" "s \<le> q" using p assms(1) by (auto simp: q_def collapsed_def)
  have y: "ekey y = ekey x" "slot y = slot x" "newPrev + gap y = q" "0 \<le> gap y" using q(2) Cons.prems(1) by (auto simp: y_def)
  have step: "collapse_step s e x (pos, newPrev, moved) = ((p, q, moved @ [y]), p \<le> e)"
    by (simp add: collapse_step_def Let_def p_def q_def y_def)
  show ?case
  proof (cases "p \<le> e")
    case True
    then have "q \<le> s" by (simp add: q_def)
    moreover have "\<forall>(t, r) \<in> set (placed p es). s < r" "nonneg es" using Cons.prems by (auto simp: p_def)
    ultimately obtain ms pos' np where ih: "fst (scan_items (collapse_step s e) es (p, q, moved @ [y])) = (pos', np, (moved @ [y]) @ ms)"
      "length ms \<le> length es" "tags ms = tags (take (length ms) es)" "nonneg ms"
      "placed q (ms @ drop (length ms) es) = map (\<lambda>(t, q). (t, collapsed s e q)) (placed p es)"
      using Cons.IH [of q p "moved @ [y]"] by blast
    show ?thesis using ih y q True by (intro exI [of _ "y # ms"]) (auto simp: step p_def [symmetric])
  next
    case False
    have "collapsed s e r = r + (s - e)" if "(t, r) \<in> set (placed p es)" for t r
      using placed_ge [OF _ that] Cons.prems(2) False assms(1) by (auto simp: collapsed_def)
    then have "map (\<lambda>(t, q). (t, collapsed s e q)) (placed p es) = placed (p + (s - e)) es"
      unfolding placed_shift [of p "s - e" es] by (intro map_cong) auto
    moreover have "p + (s - e) = q" using False by (simp add: q_def)
    ultimately show ?thesis using y q False by (intro exI [of _ "[y]"]) (auto simp: step p_def [symmetric])
  qed
qed simp

lemma first_passing_split:
  assumes "first_passing (passes pos False) es i"
  obtains x where "i < length es" "es ! i = x" "es = take i es @ x # drop (Suc i) es" "gsum (take i es) \<le> pos" "pos < gsum (take i es) + gap x"
proof -
  have i: "i < length es" using assms by (simp add: first_passing_def)
  moreover have "gsum (take (Suc i) es) = gsum (take i es) + gap (es ! i)" using i by (simp add: take_Suc_conv_app_nth)
  ultimately show thesis using that [of "es ! i"] assms by (simp add: first_passing_def passes_def id_take_nth_drop [symmetric])
qed

lemma entries_splice:
  assumes "entries_ok a" "lo \<le> hi" "hi \<le> length (tree_items (entries a))"
    "nonneg (take lo (tree_items (entries a)) @ repl @ drop hi (tree_items (entries a)))"
    "rising (take lo (tree_items (entries a)) @ repl @ drop hi (tree_items (entries a)))"
  shows "entries_ok (a\<lparr>entries := splice anchor_summary (entries a) lo hi repl\<rparr>)"
    "tree_items (splice anchor_summary (entries a) lo hi repl) = take lo (tree_items (entries a)) @ repl @ drop hi (tree_items (entries a))"
  using splice_ok [of anchor_summary "entries a" lo hi repl] assms by (auto simp: entries_ok_def)

lemma collapse_positions:
  assumes ok: "anchors_ok a" and se: "0 \<le> s" "s < e"
  shows "\<exists>a'. collapse a s e = Some a' \<and> anchors_ok a' \<and> positions a' = map (\<lambda>(t, q). (t, collapsed s e q)) (positions a)"
proof -
  let ?es = "tree_items (entries a)"
  have eok: "entries_ok a" "tree_ok anchor_summary (entries a)" "nonneg ?es" "rising ?es" using ok by (auto simp: anchors_ok_def entries_ok_def)
  show ?thesis
  proof (cases "passes s False (gsum ?es)")
    case False
    then have "collapse a s e = Some a" using seek_found [OF eok(1) se(1)] by (simp add: collapse_def)
    moreover have "collapsed s e q = q" if "(t, q) \<in> set (placed 0 ?es)" for t q
      using placed_le [OF eok(3) that] False by (simp add: collapsed_def passes_def)
    then have "map (\<lambda>(t, q). (t, collapsed s e q)) (positions a) = positions a" by (intro map_idI) (auto simp: positions_def)
    ultimately show ?thesis using ok by auto
  next
    case True
    then obtain i where i: "first_passing (passes s False) ?es i"
      "seek a s False = Some (i, gsum (take i ?es), key_max (take i ?es), True)" using seek_found [OF eok(1) se(1)] by auto
    obtain x where x: "i < length ?es" "?es ! i = x" "?es = take i ?es @ x # drop (Suc i) ?es" "gsum (take i ?es) \<le> s" "s < gsum (take i ?es) + gap x"
      using first_passing_split [OF i(1)] .
    have at_i: "tree_at (entries a) i = Some x" using tree_at_items [OF eok(2)] x(1,2) by simp
    have nn: "nonneg (take i ?es)" "0 \<le> gap x" "nonneg (drop (Suc i) ?es)" using eok(3) x(3) by (metis nonneg_simps(2,3))+
    have before: "q \<le> s" if "(t, q) \<in> set (placed 0 (take i ?es))" for t q using placed_le [OF nn(1) that] x(4) by simp
    have after: "gsum (take i ?es) + gap x \<le> q" if "(t, q) \<in> set (placed (gsum (take i ?es)) (x # drop (Suc i) ?es))" for t q
      using that placed_ge [OF nn(3), of t q] by auto
    have drop_i: "drop i ?es = x # drop (Suc i) ?es" using x(1,2) by (metis Cons_nth_drop_Suc)
    have pos: "positions a = placed 0 (take i ?es) @ placed (gsum (take i ?es)) (x # drop (Suc i) ?es)"
      unfolding positions_def by (subst x(3)) (simp add: placed_append del: append_take_drop_id)
    show ?thesis
    proof (cases "gsum (take i ?es) + gap x > e")
      case far: True
      then have "collapse a s e = Some (shift a s False (s - e))" using i(2) at_i by (simp add: collapse_def)
      moreover have "anchors_ok (shift a s False (s - e)) \<and>
          positions (shift a s False (s - e)) = map (\<lambda>(t, q). (t, move_where (passes s False) (s - e) q)) (positions a)"
      proof (rule shift_positions [OF ok])
        fix xs y ys
        assume y: "?es = xs @ y # ys" "xs \<noteq> [] \<longrightarrow> \<not> passes s False (gsum xs)" "passes s False (gsum xs + gap y)"
        have le: "gsum xs \<le> s" using y(2) se(1) by (cases "xs = []") (auto simp: passes_def)
        have "(slot y, gsum xs + gap y) \<in> set (positions a)" unfolding positions_def y(1) by (simp add: placed_append)
        then have "e < gsum xs + gap y" using pos before after far y(3) by (fastforce simp: passes_def)
        then show "0 \<le> gap y + (s - e)" using le by simp
      qed
      moreover have "move_where (passes s False) (s - e) q = collapsed s e q" if "(t, q) \<in> set (positions a)" for t q
        using that before after far se(2) unfolding pos by (fastforce simp: move_where_def passes_def collapsed_def)
      then have "map (\<lambda>(t, q). (t, move_where (passes s False) (s - e) q)) (positions a) = map (\<lambda>(t, q). (t, collapsed s e q)) (positions a)"
        by (intro map_cong) auto
      ultimately show ?thesis by auto
    next
      case near: False
      have "nonneg (drop i ?es)" "\<forall>(t, q) \<in> set (placed (gsum (take i ?es)) (drop i ?es)). s < q"
        using nn(2,3) after x(5) unfolding drop_i by fastforce+
      from collapse_scan [OF se(2) x(4) this, of "[]"]
      obtain ms pos' np where ms: "fst (scan_items (collapse_step s e) (drop i ?es) (gsum (take i ?es), gsum (take i ?es), [])) = (pos', np, ms)"
        "length ms \<le> length (drop i ?es)" "tags ms = tags (take (length ms) (drop i ?es))" "nonneg ms"
        "placed (gsum (take i ?es)) (ms @ drop (length ms) (drop i ?es)) =
          map (\<lambda>(t, q). (t, collapsed s e q)) (placed (gsum (take i ?es)) (drop i ?es))" by auto
      define es' where "es' = take i ?es @ ms @ drop (i + length ms) ?es"
      have hi: "i + length ms \<le> length ?es" using ms(2) x(1) by simp
      have tg: "tags es' = tags ?es"
      proof -
        have "tags ?es = tags (take i ?es @ take (length ms) (drop i ?es) @ drop (i + length ms) ?es)"
          by (metis append_take_drop_id drop_drop add.commute)
        then show ?thesis by (simp add: es'_def ms(3))
      qed
      then have "rising es'" using rising_tags eok(4) by blast
      moreover have "nonneg es'" using nn(1) ms(4) eok(3) unfolding es'_def by (auto simp: nonneg_def dest: in_set_dropD)
      moreover have col: "collapse a s e = Some (a\<lparr>entries := splice anchor_summary (entries a) i (i + length ms) ms\<rparr>)"
        using i(2) at_i near ms(1) by (simp add: collapse_def scan_is_scan_items [OF eok(2)])
      moreover note sp = entries_splice [OF eok(1) le_add1 hi, of ms]
      ultimately have new: "entries_ok (a\<lparr>entries := splice anchor_summary (entries a) i (i + length ms) ms\<rparr>)"
        "tree_items (splice anchor_summary (entries a) i (i + length ms) ms) = es'" unfolding es'_def by blast+
      moreover have "slots_ok (a\<lparr>entries := splice anchor_summary (entries a) i (i + length ms) ms\<rparr>)"
        by (rule slots_ok_tags [OF ok [unfolded anchors_ok_def, THEN conjunct2]]) (simp_all add: new(2) tg)
      moreover have "placed 0 es' = map (\<lambda>(t, q). (t, collapsed s e q)) (positions a)"
      proof -
        have "map (\<lambda>(t, q). (t, collapsed s e q)) (placed 0 (take i ?es)) = placed 0 (take i ?es)"
          using before by (intro map_idI) (auto simp: collapsed_def)
        moreover have "drop (i + length ms) ?es = drop (length ms) (drop i ?es)" by (simp add: add.commute)
        ultimately show ?thesis using ms(5) unfolding es'_def pos drop_i [symmetric] by (simp add: placed_append)
      qed
      ultimately show ?thesis using col by (simp add: anchors_ok_def positions_def)
    qed
  qed
qed

end
