(* ===== verification/Anchor_Slots.thy ===== *)
theory Anchor_Slots
  imports Anchor_Moves
begin

text \<open>
  Adding and removing anchors: a new anchor gets a slot no live anchor has and a key strictly
  between its neighbours' keys, after one relabelling at most.
\<close>

section \<open>Keys\<close>

lemma between_strict:
  assumes "lo \<le> hi" "between lo hi = Some k"
  shows "lo < k" "k < hi"
proof -
  define d where "d = unat hi - unat lo"
  have le: "unat lo \<le> unat hi" using assms(1) by (simp add: word_le_nat_alt)
  have d: "unat (hi - lo) = d" using assms(1) by (simp add: d_def unat_sub)
  have "\<not> hi - lo < 2" using assms(2) by (auto simp: between_def split: if_splits)
  then have two: "2 \<le> d" using d by (simp add: word_less_nat_alt)
  define m where "m = min keyStep ((hi - lo) div 2)"
  have k: "k = lo + m" using assms(2) by (auto simp: between_def m_def split: if_splits)
  have half: "unat ((hi - lo) div 2) = d div 2" using d by (simp add: unat_div)
  have step: "unat keyStep = 2 ^ 32" by (simp add: keyStep_def)
  have m: "unat m = min (2 ^ 32) (d div 2)"
    unfolding m_def min_def word_le_nat_alt half step by (simp add: half step)
  have bounds: "1 \<le> unat m" "unat m < d" using two unfolding m by auto
  have "unat hi < 2 ^ LENGTH(64)" by (rule unsigned_less)
  then have "unat lo + unat m < 2 ^ LENGTH(64)" using bounds le d_def by simp
  then have sum: "unat k = unat lo + unat m" unfolding k by (simp add: unat_word_ariths(1))
  show "lo < k" "k < hi" using sum bounds le by (auto simp: word_less_nat_alt d_def)
qed

lemma between_room: "unat lo + 2 \<le> unat hi \<Longrightarrow> between lo hi \<noteq> None"
proof -
  assume a: "unat lo + 2 \<le> unat hi"
  then have "unat (hi - lo) = unat hi - unat lo" by (simp add: unat_sub word_le_nat_alt)
  then have "\<not> hi - lo < 2" using a by (simp add: word_less_nat_alt)
  then show ?thesis by (simp add: between_def)
qed

lemma key_below_max: "k \<le> maxUint64"
  by (simp add: maxUint64_def)

section \<open>Slots\<close>

definition slots_for :: "(64 word \<times> 32 word) set \<Rightarrow> 64 word list \<Rightarrow> 32 word list \<Rightarrow> bool" where
  "slots_for T ks fr \<longleftrightarrow>
     (\<forall>t \<in> T. unat (snd t) < length ks \<and> ks ! unat (snd t) = fst t \<and> fst t \<noteq> 0) \<and>
     (\<forall>i < length ks. ks ! i \<noteq> 0 \<longrightarrow> (\<exists>t \<in> T. unat (snd t) = i)) \<and>
     distinct fr \<and> (\<forall>s \<in> set fr. unat s < length ks \<and> ks ! unat s = 0) \<and> length ks < 2 ^ 31"

lemma slots_ok_for: "slots_ok a \<longleftrightarrow> slots_for (set (tags (tree_items (entries a)))) (keys a) (free a)"
  by (simp add: slots_ok_def slots_for_def tags_def)

lemma take_slot_ok:
  assumes "slots_for T (keys a) (free a)" "length (keys a) + 1 < 2 ^ 31" "key \<noteq> 0" "take_slot a key = (a1, s)"
  shows "slots_for (insert (key, s) T) (keys a1) (free a1)" "s \<notin> snd ` T" "entries a1 = entries a"
proof -
  show "entries a1 = entries a" using assms(4) by (auto simp: take_slot_def split: if_splits)
  have "slots_for (insert (key, s) T) (keys a1) (free a1) \<and> s \<notin> snd ` T"
  proof (cases "free a = []")
    case True
    let ?n = "length (keys a)"
    have n: "unat (of_nat ?n :: 32 word) = ?n" using assms(2) by (simp add: unat_of_nat)
    have a1: "keys a1 = keys a @ [key]" "free a1 = []" "s = of_nat ?n" using True assms(4) by (auto simp: take_slot_def)
    have fresh: "s \<notin> snd ` T" using assms(1) n a1(3) by (fastforce simp: slots_for_def)
    have "\<exists>t \<in> insert (key, s) T. unat (snd t) = i" if "i < Suc ?n" "keys a1 ! i \<noteq> 0" for i
      using that assms(1) n a1 by (cases "i = ?n") (auto simp: slots_for_def nth_append)
    then show ?thesis using assms(1-3) n fresh a1 by (auto simp: slots_for_def nth_append)
  next
    case False
    let ?s = "last (free a)"
    have s: "?s \<in> set (free a)" using False by simp
    then have zero: "unat ?s < length (keys a)" "keys a ! unat ?s = 0" using assms(1) by (auto simp: slots_for_def)
    have a1: "keys a1 = (keys a)[unat ?s := key]" "free a1 = butlast (free a)" "s = ?s" using False assms(4) by (auto simp: take_slot_def)
    have fresh: "s \<notin> snd ` T" using assms(1) zero a1(3) by (auto simp: slots_for_def)
    have "distinct (butlast (free a) @ [?s])" using assms(1) False by (simp add: slots_for_def)
    then have b: "distinct (butlast (free a))" "?s \<notin> set (butlast (free a))" by auto
    have ne: "unat (snd t) \<noteq> unat ?s" if "t \<in> T" for t using fresh that a1(3) by (metis image_eqI word_unat_eq_iff)
    have nf: "unat f \<noteq> unat ?s" if "f \<in> set (butlast (free a))" for f using b(2) that by (metis word_unat_eq_iff)
    have "\<exists>t \<in> insert (key, s) T. unat (snd t) = i" if "i < length (keys a)" "keys a1 ! i \<noteq> 0" for i
      using that assms(1) a1 by (cases "i = unat ?s") (auto simp: slots_for_def)
    moreover have "unat f < length (keys a) \<and> keys a1 ! unat f = 0" if "f \<in> set (butlast (free a))" for f
      using that nf [OF that] assms(1) in_set_butlastD [OF that] a1 by (auto simp: slots_for_def)
    moreover have "unat (snd t) < length (keys a) \<and> keys a1 ! unat (snd t) = fst t \<and> fst t \<noteq> 0" if "t \<in> insert (key, s) T" for t
    proof (cases "t = (key, s)")
      case True
      then show ?thesis using zero assms(3) a1 by simp
    next
      case False
      then have "t \<in> T" using that by simp
      then show ?thesis using ne [of t] assms(1) a1 by (auto simp: slots_for_def)
    qed
    ultimately show ?thesis using fresh b(1) assms(1) a1 by (simp add: slots_for_def)
  qed
  then show "slots_for (insert (key, s) T) (keys a1) (free a1)" "s \<notin> snd ` T" by auto
qed

lemma map_of_insert:
  "s \<notin> fst ` set xs \<Longrightarrow> map_of (xs @ (s, p) # ys) t = (if t = s then Some p else map_of (xs @ ys) t)"
  by (induction xs) auto

section \<open>One attempt to add\<close>

lemma try_add_ok:
  assumes ok: "anchors_ok a" and pos: "0 \<le> pos" and room: "length (keys a) + 1 < 2 ^ 31" and r: "try_add a pos = Some res"
  shows "\<exists>a' s. res = Some (a', s) \<and> anchors_ok a' \<and> s \<notin> fst ` set (positions a) \<and>
    (\<forall>t. map_of (positions a') t = (if t = s then Some pos else map_of (positions a) t))"
proof -
  let ?es = "tree_items (entries a)"
  have eok: "entries_ok a" "tree_ok anchor_summary (entries a)" "nonneg ?es" "rising ?es" using ok by (auto simp: anchors_ok_def entries_ok_def)
  have slots: "slots_for (set (tags ?es)) (keys a) (free a)" using ok by (simp add: anchors_ok_def slots_ok_for)
  obtain i found next' where sk: "seek a pos False = Some (i, gsum (take i ?es), key_max (take i ?es), found)" "i \<le> length ?es"
      "gsum (take i ?es) \<le> pos" "(if found then tree_at (entries a) i else None) = next'" "found \<longleftrightarrow> next' \<noteq> None"
    and nx: "case next' of None \<Rightarrow> i = length ?es | Some x \<Rightarrow> i < length ?es \<and> ?es = take i ?es @ x # drop (Suc i) ?es \<and> pos < gsum (take i ?es) + gap x"
  proof (cases "passes pos False (gsum ?es)")
    case True
    then obtain i where i: "first_passing (passes pos False) ?es i" "seek a pos False = Some (i, gsum (take i ?es), key_max (take i ?es), True)"
      using seek_found [OF eok(1) pos] by auto
    obtain x where x: "i < length ?es" "?es ! i = x" "?es = take i ?es @ x # drop (Suc i) ?es" "gsum (take i ?es) \<le> pos" "pos < gsum (take i ?es) + gap x"
      using first_passing_split [OF i(1)] .
    show thesis using that [of i True "Some x"] i(2) x tree_at_items [OF eok(2), of i] by simp
  next
    case False
    then show thesis using that [of "length ?es" False None] seek_found [OF eok(1) pos] by (simp add: passes_def)
  qed
  define hi where "hi = (case next' of Some e \<Rightarrow> ekey e | None \<Rightarrow> maxUint64)"
  have below: "ekey x < ekey y" if "next' = Some y" "x \<in> set (take i ?es)" for x y
  proof -
    have "rising (take i ?es @ y # drop (Suc i) ?es)" using nx that(1) eok(4) by simp
    then show ?thesis using that(2) by (auto simp: rising_append)
  qed
  have le: "key_max (take i ?es) \<le> hi"
    using below by (intro key_max_le) (auto simp: hi_def key_below_max less_imp_le split: option.splits)
  obtain key where key: "between (key_max (take i ?es)) hi = Some key"
    using r sk(1,4,5) by (cases "between (key_max (take i ?es)) hi") (auto simp: try_add_def Let_def hi_def)
  have strict: "key_max (take i ?es) < key" "key < hi" using between_strict [OF le key] by auto
  have key0: "key \<noteq> 0" using strict(1) by auto
  obtain a1 s where ts: "take_slot a key = (a1, s)" by force
  note tk = take_slot_ok [OF slots room key0 ts]
  define e where "e = \<lparr>ekey = key, gap = pos - gsum (take i ?es), slot = s\<rparr>"
  define j where "j = (case next' of None \<Rightarrow> i | Some _ \<Rightarrow> Suc i)"
  define repl where "repl = (case next' of None \<Rightarrow> [e] | Some x \<Rightarrow> [e, x\<lparr>gap := gap x - gap e\<rparr>])"
  define a' where "a' = a1\<lparr>entries := splice anchor_summary (entries a) i j repl\<rparr>"
  have res: "res = Some (a', s)"
    using r sk(1,4,5) key ts tk(3) by (auto simp: try_add_def Let_def hi_def [symmetric] a'_def j_def repl_def e_def split: option.splits)
  define es' where "es' = take i ?es @ repl @ drop j ?es"
  have j: "i \<le> j" "j \<le> length ?es" using nx sk(2) by (cases next'; simp add: j_def)+
  have left: "ekey x < key" if "x \<in> set (take i ?es)" for x using key_max_ge [OF that] strict(1) by simp
  have split: "?es = take i ?es @ (case next' of None \<Rightarrow> [] | Some x \<Rightarrow> [x]) @ drop j ?es"
    using nx by (auto simp: j_def split: option.splits)
  have tag: "tags es' = take i (tags ?es) @ (key, s) # drop i (tags ?es)"
  proof -
    have "drop i (tags ?es) = tags ((case next' of None \<Rightarrow> [] | Some x \<Rightarrow> [x]) @ drop j ?es)"
      using split sk(2) by (metis append_eq_conv_conj length_take min.absorb2 tags_simps(3,4))
    moreover have "take i (tags ?es) = tags (take i ?es)" by (simp add: tags_def take_map)
    ultimately show ?thesis by (auto simp: es'_def repl_def e_def split: option.splits)
  qed
  have "nonneg es'"
  proof -
    have "nonneg (take i ?es @ (case next' of None \<Rightarrow> [] | Some x \<Rightarrow> [x]) @ drop j ?es)" using split eok(3) by simp
    then show ?thesis using sk(3) nx by (auto simp: es'_def repl_def e_def split: option.splits)
  qed
  moreover have "rising es'"
  proof -
    have r: "rising (take i ?es @ (case next' of None \<Rightarrow> [] | Some x \<Rightarrow> [x]) @ drop j ?es)" using split eok(4) by simp
    show ?thesis
    proof (cases next')
      case None
      then have "drop j ?es = []" using nx by (simp add: j_def)
      then show ?thesis using None r left by (auto simp: es'_def repl_def e_def rising_append rising_Cons)
    next
      case (Some x)
      then have "key < ekey x" using strict(2) by (simp add: hi_def)
      then show ?thesis using Some r left by (auto simp: es'_def repl_def e_def rising_append rising_Cons intro: less_trans)
    qed
  qed
  ultimately have new: "entries_ok (a\<lparr>entries := splice anchor_summary (entries a) i j repl\<rparr>)"
    "tree_items (splice anchor_summary (entries a) i j repl) = es'"
    using entries_splice [OF eok(1) j, of repl] by (simp_all add: es'_def)
  have items': "tree_items (entries a') = es'" using new(2) by (simp add: a'_def)
  have "entries_ok a'" using new(1) by (simp add: entries_ok_def a'_def)
  moreover have "set (tags es') = insert (key, s) (set (tags ?es))"
    unfolding tag by (simp) (metis append_take_drop_id set_append)
  then have "slots_ok a'" using tk(1) items' by (simp add: slots_ok_for a'_def)
  moreover have fresh: "s \<notin> fst ` set (positions a)"
  proof -
    have "fst ` set (positions a) = set (map fst (positions a))" by simp
    also have "\<dots> = snd ` set (tags ?es)" by (simp add: positions_def tags_def image_image)
    finally show ?thesis using tk(2) by simp
  qed
  moreover have "positions a' = placed 0 (take i ?es) @ (s, pos) # drop i (positions a)"
  proof -
    have "positions a = placed 0 (take i ?es) @ placed (gsum (take i ?es)) ((case next' of None \<Rightarrow> [] | Some x \<Rightarrow> [x]) @ drop j ?es)"
      unfolding positions_def by (subst split) (simp add: placed_append)
    then have "drop i (positions a) = placed (gsum (take i ?es)) ((case next' of None \<Rightarrow> [] | Some x \<Rightarrow> [x]) @ drop j ?es)"
      using sk(2) by simp
    moreover have "next' = None \<Longrightarrow> drop j ?es = []" using nx by (simp add: j_def)
    ultimately show ?thesis unfolding positions_def items' by (auto simp: es'_def repl_def e_def placed_append split: option.splits)
  qed
  moreover have "placed 0 (take i ?es) = take i (positions a)"
    unfolding positions_def by (subst (2) append_take_drop_id [of i ?es, symmetric]) (use sk(2) in \<open>simp add: placed_append del: append_take_drop_id\<close>)
  ultimately have pos': "positions a' = take i (positions a) @ (s, pos) # drop i (positions a)"
    and fin: "anchors_ok a'" "s \<notin> fst ` set (positions a)" by (auto simp: anchors_ok_def)
  have "s \<notin> fst ` set (take i (positions a))" using fresh by (meson image_mono set_take_subset subsetD)
  from map_of_insert [OF this, of pos "drop i (positions a)"]
  have "map_of (positions a') t = (if t = s then Some pos else map_of (positions a) t)" for t
    unfolding pos' append_take_drop_id .
  then show ?thesis using res fin by blast
qed

section \<open>Relabelling\<close>

lemma updates_nth:
  assumes "distinct (map slot es)" "\<And>e. e \<in> set es \<Longrightarrow> unat (slot e) < length ks"
  shows "length (foldl (\<lambda>ks e. ks[unat (slot e) := ekey e]) ks es) = length ks"
    "e \<in> set es \<Longrightarrow> foldl (\<lambda>ks e. ks[unat (slot e) := ekey e]) ks es ! unat (slot e) = ekey e"
    "\<forall>e \<in> set es. unat (slot e) \<noteq> i \<Longrightarrow> foldl (\<lambda>ks e. ks[unat (slot e) := ekey e]) ks es ! i = ks ! i"
  using assms
proof (induction es arbitrary: ks e i)
  case (Cons x es)
  {
    case 1
    then show ?case using Cons.IH(1) [where ks = "ks[unat (slot x) := ekey x]"] by simp
  next
    case 2
    show ?case
    proof (cases "e = x")
      case True
      have "\<forall>y \<in> set es. unat (slot y) \<noteq> unat (slot x)" using 2(2) by (auto simp: word_unat_eq_iff [symmetric] intro: image_eqI [of _ _ _ "set es"] dest: sym)
      then show ?thesis using True 2(3) Cons.IH(3) [where i = "unat (slot x)" and ks = "ks[unat (slot x) := ekey x]"] 2(2) by simp
    next
      case False
      then show ?thesis using 2 Cons.IH(2) [where e = e and ks = "ks[unat (slot x) := ekey x]"] by simp
    qed
  next
    case 3
    then show ?case using Cons.IH(3) [where i = i and ks = "ks[unat (slot x) := ekey x]"] by simp
  }
qed simp_all

lemma placed_cong:
  assumes "map slot xs = map slot ys" "map gap xs = map gap ys"
  shows "placed p xs = placed p ys"
proof -
  have "length xs = length ys" using assms(1) by (metis length_map)
  then show ?thesis using assms by (induction xs ys arbitrary: p rule: list_induct2) simp_all
qed

lemma distinct_words_length:
  fixes xs :: "32 word list"
  assumes "distinct xs" "\<And>x. x \<in> set xs \<Longrightarrow> unat x < n"
  shows "length xs \<le> n"
proof -
  have "inj_on unat (set xs)" by (auto simp: inj_on_def word_unat_eq_iff)
  then have "card (set xs) = card (unat ` set xs)" by (simp add: card_image)
  also have "\<dots> \<le> card {..<n}" using assms(2) by (intro card_mono) auto
  finally show ?thesis using assms(1) by (simp add: distinct_card)
qed

lemma relabel_ok:
  assumes ok: "anchors_ok a"
  shows "anchors_ok (relabel a)" "positions (relabel a) = positions a" "length (keys (relabel a)) = length (keys a)"
    "\<And>i. i \<le> length (tree_items (entries a)) \<Longrightarrow>
      between (key_max (take i (tree_items (entries (relabel a)))))
        (if i < length (tree_items (entries a)) then ekey (tree_items (entries (relabel a)) ! i) else maxUint64) \<noteq> None"
proof -
  let ?es = "tree_items (entries a)" and ?n = "length (tree_items (entries a))"
  have eok: "tree_ok anchor_summary (entries a)" "nonneg ?es" using ok by (auto simp: anchors_ok_def entries_ok_def)
  have slots: "\<And>e. e \<in> set ?es \<Longrightarrow> unat (slot e) < length (keys a)" "length (keys a) < 2 ^ 31"
    using ok by (auto simp: anchors_ok_def slots_ok_def)
  have n: "?n < 2 ^ 31"
  proof -
    have "length (map slot ?es) \<le> length (keys a)"
      by (rule distinct_words_length [OF slots_distinct [OF ok]]) (use slots(1) in auto)
    then show ?thesis using slots(2) by simp
  qed
  define st where "st = (maxUint64 div of_nat (?n + 2) :: 64 word)"
  have nn: "unat (of_nat (?n + 2) :: 64 word) = ?n + 2" by (subst unat_of_nat) (use n in simp)
  have max: "unat maxUint64 = 2 ^ 64 - 1" by (simp add: maxUint64_def unsigned_minus_1_eq_mask mask_eq_exp_minus_1)
  have st: "unat st = (2 ^ 64 - 1) div (?n + 2)" unfolding st_def by (simp only: unat_div nn max)
  have st2: "2 \<le> unat st" and total: "(?n + 2) * unat st \<le> 2 ^ 64 - 1"
  proof -
    have "2 * (?n + 2) \<le> 2 ^ 64 - 1" using n by simp
    then show "2 \<le> unat st" unfolding st by (simp add: less_eq_div_iff_mult_less_eq)
    show "(?n + 2) * unat st \<le> 2 ^ 64 - 1" unfolding st by (rule times_div_less_eq_dividend)
  qed
  have key: "unat (of_nat k * st) = k * unat st" if "k \<le> ?n + 2" for k
  proof -
    have "k * unat st \<le> (?n + 2) * unat st" using that by (rule mult_le_mono1)
    then have "k * unat st < 2 ^ 64" using total by (rule order_trans [THEN le_less_trans]) simp
    moreover have "unat (of_nat k :: 64 word) = k" by (subst unat_of_nat) (use that n in simp)
    ultimately show ?thesis by (simp add: unat_word_ariths(2))
  qed
  define es' where "es' = map (\<lambda>i. (?es ! i)\<lparr>ekey := of_nat (i + 1) * st\<rparr>) [0..<?n]"
  have col: "collect (entries a) 0 (tcount (entries a)) [] = ?es" using collect_is_slice [OF eok(1)] tree_count [OF eok(1)] by simp
  have r: "relabel a = a\<lparr>entries := new_tree anchor_summary es', keys := foldl (\<lambda>ks e. ks[unat (slot e) := ekey e]) (keys a) es'\<rparr>"
    by (simp add: relabel_def col Let_def es'_def st_def)
  have len: "length es' = ?n" and nth: "\<And>i. i < ?n \<Longrightarrow> es' ! i = (?es ! i)\<lparr>ekey := of_nat (i + 1) * st\<rparr>"
    by (simp_all add: es'_def)
  have items: "tree_items (entries (relabel a)) = es'" "tree_ok anchor_summary (entries (relabel a))"
    using new_tree_ok [of anchor_summary es'] by (simp_all add: r)
  have slot': "map slot es' = map slot ?es" "map gap es' = map gap ?es" by (rule nth_equalityI; simp add: len nth del: of_nat_Suc)+
  show "positions (relabel a) = positions a" unfolding positions_def items(1) using placed_cong [OF slot'] .
  have key_nth: "unat (ekey (es' ! i)) = (i + 1) * unat st" if "i < ?n" for i
    using nth [OF that] key [of "i + 1"] that by (simp del: of_nat_Suc)
  have rise: "rising es'"
    unfolding rising_def sorted_wrt_iff_nth_less using st2 key_nth len by (auto simp: word_less_nat_alt)
  have "nonneg es'"
  proof -
    have "gap e \<in> set (map gap es')" if "e \<in> set es'" for e using that by simp
    then show ?thesis using eok(2) unfolding slot'(2) by (fastforce simp: nonneg_def)
  qed
  then have "entries_ok (relabel a)" using items rise by (simp add: entries_ok_def)
  moreover have dist: "distinct (map slot es')" using slots_distinct [OF ok] slot'(1) by simp
  have bound: "unat (slot e) < length (keys a)" if "e \<in> set es'" for e
  proof -
    have "slot e \<in> set (map slot ?es)" using that slot'(1) by (metis image_eqI list.set_map)
    then show ?thesis using slots(1) by auto
  qed
  have ks: "keys (relabel a) = foldl (\<lambda>ks e. ks[unat (slot e) := ekey e]) (keys a) es'" "free (relabel a) = free a" by (simp_all add: r)
  show len_ks: "length (keys (relabel a)) = length (keys a)" unfolding ks using updates_nth(1) [OF dist bound] .
  have "slots_ok (relabel a)"
    unfolding slots_ok_def items(1)
  proof (intro conjI ballI allI impI)
    fix e assume e: "e \<in> set es'"
    show "unat (slot e) < length (keys (relabel a))" using bound [OF e] len_ks by simp
    show "keys (relabel a) ! unat (slot e) = ekey e" unfolding ks using updates_nth(2) [OF dist bound e] .
    obtain i where "i < ?n" "e = es' ! i" using e len by (metis in_set_conv_nth)
    then have "0 < unat (ekey e)" using key_nth st2 by simp
    then show "ekey e \<noteq> 0" by auto
  next
    fix i assume i: "i < length (keys (relabel a))" "keys (relabel a) ! i \<noteq> 0"
    show "\<exists>e \<in> set es'. unat (slot e) = i"
    proof (rule ccontr)
      assume none: "\<not> (\<exists>e \<in> set es'. unat (slot e) = i)"
      then have "keys (relabel a) ! i = keys a ! i" unfolding ks using updates_nth(3) [OF dist bound] by simp
      then obtain e where "e \<in> set ?es" "unat (slot e) = i" using ok i len_ks by (auto simp: anchors_ok_def slots_ok_def)
      then have "slot e \<in> set (map slot es')" unfolding slot'(1) by simp
      then show False using none \<open>unat (slot e) = i\<close> by auto
    qed
  next
    show "distinct (free (relabel a))" "length (keys (relabel a)) < 2 ^ 31" using ok len_ks ks(2) by (simp_all add: anchors_ok_def slots_ok_def)
    fix s assume s: "s \<in> set (free (relabel a))"
    then have z: "unat s < length (keys a)" "keys a ! unat s = 0" using ok ks(2) by (auto simp: anchors_ok_def slots_ok_def)
    show "unat s < length (keys (relabel a))" using z len_ks by simp
    have "unat (slot e) \<noteq> unat s" if "e \<in> set es'" for e
    proof
      assume "unat (slot e) = unat s"
      moreover have "slot e \<in> set (map slot ?es)" using that slot'(1) by (metis image_eqI list.set_map)
      ultimately obtain e' where "e' \<in> set ?es" "unat (slot e') = unat s" by auto
      then show False using ok z by (auto simp: anchors_ok_def slots_ok_def)
    qed
    then show "keys (relabel a) ! unat s = 0" unfolding ks using updates_nth(3) [OF dist bound] z(2) by simp
  qed
  then show "anchors_ok (relabel a)" using calculation by (simp add: anchors_ok_def)
  fix i assume i: "i \<le> ?n"
  have prev: "unat (key_max (take i es')) = i * unat st"
  proof (cases i)
    case (Suc k)
    then have t: "take i es' = take k es' @ [es' ! k]" using i len by (simp add: take_Suc_conv_app_nth)
    have "rising (take i es' @ drop i es')" using rise by simp
    then have "rising (take i es')" by (simp only: rising_append)
    then have "key_max (take i es') = ekey (es' ! k)" unfolding t by (rule key_max_rising)
    then show ?thesis using key_nth [of k] Suc i by simp
  qed simp
  show "between (key_max (take i (tree_items (entries (relabel a)))))
      (if i < ?n then ekey (tree_items (entries (relabel a)) ! i) else maxUint64) \<noteq> None"
  proof (rule between_room)
    show "unat (key_max (take i (tree_items (entries (relabel a))))) + 2 \<le>
      unat (if i < ?n then ekey (tree_items (entries (relabel a)) ! i) else maxUint64)"
    proof (cases "i < ?n")
      case True
      then show ?thesis using prev key_nth [OF True] st2 by (simp add: items(1))
    next
      case False
      then have "i = ?n" using i by simp
      then have "i * unat st + 2 \<le> 2 ^ 64 - 1" using total st2 by (simp add: algebra_simps)
      then show ?thesis using False prev max by (simp add: items(1))
    qed
  qed
qed

section \<open>Adding and removing\<close>

lemma add_at_ok:
  assumes ok: "anchors_ok a" and pos: "0 \<le> pos" and room: "length (keys a) + 1 < 2 ^ 31"
  shows "\<exists>a' s. add_at a pos = Some (a', s) \<and> anchors_ok a' \<and> s \<notin> fst ` set (positions a) \<and>
    (\<forall>t. map_of (positions a') t = (if t = s then Some pos else map_of (positions a) t))"
proof (cases "try_add a pos")
  case (Some res)
  then show ?thesis using try_add_ok [OF ok pos room Some] by (auto simp: add_at_def)
next
  case full: None
  let ?b = "relabel a"
  note b = relabel_ok [OF ok]
  have eb: "entries_ok ?b" using b(1) by (simp add: anchors_ok_def)
  let ?es = "tree_items (entries ?b)"
  have same: "length ?es = length (tree_items (entries a))"
    using arg_cong [OF b(2), of length] by (simp add: positions_def)
  have "try_add ?b pos \<noteq> None"
  proof (cases "passes pos False (gsum ?es)")
    case True
    then obtain i where i: "first_passing (passes pos False) ?es i" "seek ?b pos False = Some (i, gsum (take i ?es), key_max (take i ?es), True)"
      using seek_found [OF eb pos] by auto
    then have il: "i < length ?es" by (simp add: first_passing_def)
    then have "tree_at (entries ?b) i = Some (?es ! i)" using eb tree_at_items [of anchor_summary "entries ?b" i] by (simp add: entries_ok_def)
    moreover have "between (key_max (take i ?es)) (ekey (?es ! i)) \<noteq> None" using b(4) [of i] il same by simp
    ultimately show ?thesis using i(2) by (auto simp: try_add_def Let_def split: prod.splits)
  next
    case False
    then have "seek ?b pos False = Some (length ?es, gsum ?es, key_max ?es, False)" using seek_found [OF eb pos] by simp
    moreover have "between (key_max ?es) maxUint64 \<noteq> None" using b(4) [of "length ?es"] same by simp
    ultimately show ?thesis by (auto simp: try_add_def Let_def split: prod.splits)
  qed
  then obtain res where res: "try_add ?b pos = Some res" by blast
  have "length (keys ?b) + 1 < 2 ^ 31" using room b(3) by simp
  from try_add_ok [OF b(1) pos this res] show ?thesis using full res b(2) by (auto simp: add_at_def)
qed

lemma map_of_delete_nth:
  "distinct (map fst (xs @ (s, p) # ys)) \<Longrightarrow> map_of (xs @ ys) t = (if t = s then None else map_of (xs @ (s, p) # ys) t)"
  by (induction xs) (auto simp: map_of_eq_None_iff)

lemma remove_slot_ok:
  assumes ok: "anchors_ok a" and s: "s \<in> fst ` set (positions a)"
  shows "\<exists>a'. remove_slot a s = Some a' \<and> anchors_ok a' \<and>
    (\<forall>t. map_of (positions a') t = (if t = s then None else map_of (positions a) t))"
proof -
  let ?es = "tree_items (entries a)"
  have eok: "entries_ok a" "tree_ok anchor_summary (entries a)" "nonneg ?es" "rising ?es" using ok by (auto simp: anchors_ok_def entries_ok_def)
  have sl: "slots_for (set (tags ?es)) (keys a) (free a)" using ok by (simp add: anchors_ok_def slots_ok_for)
  have "s \<in> set (map fst (positions a))" using s by simp
  then have "s \<in> set (map slot ?es)" by (simp only: positions_def map_fst_placed)
  then obtain i where i: "i < length ?es" "slot (?es ! i) = s" by (auto simp: in_set_conv_nth)
  define x where "x = ?es ! i"
  have split: "?es = take i ?es @ x # drop (Suc i) ?es" using i(1) by (simp add: x_def id_take_nth_drop [symmetric])
  have key: "keys a ! unat s = ekey x" "ekey x \<noteq> 0" "unat s < length (keys a)"
    using ok i nth_mem [OF i(1)] by (auto simp: anchors_ok_def slots_ok_def x_def)
  have f: "find_key a (ekey x) = Some (i, gsum (take (Suc i) ?es))" using find_key_nth [OF eok(1) i(1)] by (simp add: x_def)
  have at_i: "tree_at (entries a) i = Some x" using tree_at_items [OF eok(2)] i(1) by (simp add: x_def)
  have cnt: "tcount (entries a) = length ?es" using tree_count [OF eok(2)] .
  define rest where "rest = (case drop (Suc i) ?es of [] \<Rightarrow> [] | y # ys \<Rightarrow> [y\<lparr>gap := gap y + gap x\<rparr>])"
  define j where "j = (if Suc i = length ?es then Suc i else Suc (Suc i))"
  define a' where "a' = a\<lparr>entries := splice anchor_summary (entries a) i j rest, keys := (keys a)[unat s := 0], free := free a @ [s]\<rparr>"
  have rem: "remove_slot a s = Some a'"
  proof (cases "Suc i = length ?es")
    case True
    then show ?thesis using key f at_i cnt by (simp add: remove_slot_def slot_key_def a'_def rest_def j_def Let_def)
  next
    case False
    then have "Suc i < length ?es" using i(1) by simp
    then have "drop (Suc i) ?es = ?es ! Suc i # drop (Suc (Suc i)) ?es" "tree_at (entries a) (Suc i) = Some (?es ! Suc i)"
      using tree_at_items [OF eok(2)] by (simp_all add: Cons_nth_drop_Suc)
    then show ?thesis using False key f at_i cnt by (simp add: remove_slot_def slot_key_def a'_def rest_def j_def Let_def)
  qed
  define es' where "es' = take i ?es @ rest @ drop j ?es"
  have tail: "rest @ drop j ?es = (case drop (Suc i) ?es of [] \<Rightarrow> [] | y # ys \<Rightarrow> y\<lparr>gap := gap y + gap x\<rparr> # ys)"
  proof (cases "Suc i = length ?es")
    case False
    then have "drop (Suc i) ?es = ?es ! Suc i # drop (Suc (Suc i)) ?es" using i(1) by (simp add: Cons_nth_drop_Suc)
    then show ?thesis using False by (simp add: rest_def j_def)
  qed (simp add: rest_def j_def)
  have r: "rising (take i ?es @ x # drop (Suc i) ?es)" and nn: "nonneg (take i ?es @ x # drop (Suc i) ?es)" using eok split by simp_all
  have tg: "tags es' = take i (tags ?es) @ drop (Suc i) (tags ?es)"
    unfolding es'_def tail by (cases "drop (Suc i) ?es") (simp_all add: tags_def take_map drop_map)
  have "tags (take i ?es @ drop (Suc i) ?es) = tags es'" unfolding tg by (simp add: tags_def take_map drop_map)
  moreover have "rising (take i ?es @ drop (Suc i) ?es)" using r by (auto simp: rising_append rising_Cons)
  ultimately have "rising es'" using rising_tags by blast
  moreover have "nonneg es'" using nn unfolding es'_def tail by (cases "drop (Suc i) ?es") auto
  moreover have "j \<le> length ?es" "i \<le> j" using i(1) by (auto simp: j_def)
  ultimately have new: "entries_ok (a\<lparr>entries := splice anchor_summary (entries a) i j rest\<rparr>)" "tree_items (entries a') = es'"
    using entries_splice [OF eok(1), of i j rest] by (simp_all add: es'_def a'_def)
  then have "entries_ok a'" by (simp add: entries_ok_def a'_def)
  moreover have "slots_ok a'"
  proof -
    define A where "A = take i (tags ?es)"
    define B where "B = drop (Suc i) (tags ?es)"
    have T: "tags ?es = A @ (ekey x, s) # B"
    proof -
      have "tags ?es ! i = (ekey x, s)" using i by (simp add: x_def tags_def)
      then show ?thesis using id_take_nth_drop [of i "tags ?es"] i(1) by (simp add: A_def B_def)
    qed
    have "distinct (map snd (tags ?es))" using slots_distinct [OF ok] by (simp add: tags_def o_def)
    then have fresh: "s \<notin> snd ` set (A @ B)" unfolding T by auto
    have ne: "unat (snd t) \<noteq> unat s" if "t \<in> set (A @ B)" for t using fresh that by (metis image_eqI word_unat_eq_iff)
    have nf: "s \<notin> set (free a)" using sl key by (auto simp: slots_for_def)
    then have nfu: "unat f \<noteq> unat s" if "f \<in> set (free a)" for f using that by (metis word_unat_eq_iff)
    have "slots_for (set (A @ B)) ((keys a)[unat s := 0]) (free a @ [s])"
      unfolding slots_for_def
    proof (intro conjI ballI allI impI)
      fix t assume t: "t \<in> set (A @ B)"
      then have "t \<in> set (tags ?es)" unfolding T by auto
      then show "unat (snd t) < length ((keys a)[unat s := 0])" "(keys a)[unat s := 0] ! unat (snd t) = fst t" "fst t \<noteq> 0"
        using sl ne [OF t] by (auto simp: slots_for_def)
    next
      fix k assume k: "k < length ((keys a)[unat s := 0])" "(keys a)[unat s := 0] ! k \<noteq> 0"
      then have "k \<noteq> unat s" using key(3) by auto
      then obtain t where "t \<in> set (tags ?es)" "unat (snd t) = k" using k sl by (auto simp: slots_for_def)
      then show "\<exists>t \<in> set (A @ B). unat (snd t) = k" using \<open>k \<noteq> unat s\<close> unfolding T by auto
    next
      show "distinct (free a @ [s])" using sl nf by (simp add: slots_for_def)
      show "length ((keys a)[unat s := 0]) < 2 ^ 31" using sl by (simp add: slots_for_def)
      fix f assume f: "f \<in> set (free a @ [s])"
      show "unat f < length ((keys a)[unat s := 0])" using f sl key(3) by (auto simp: slots_for_def)
      show "(keys a)[unat s := 0] ! unat f = 0" using f sl key(3) nfu [of f] by (cases "f = s") (auto simp: slots_for_def nth_list_update)
    qed
    then show ?thesis using new(2) by (simp add: slots_ok_for a'_def tg A_def B_def)
  qed
  moreover have "map_of (positions a') t = (if t = s then None else map_of (positions a) t)" for t
  proof -
    have p: "positions a = placed 0 (take i ?es) @ (s, gsum (take i ?es) + gap x) # placed (gsum (take i ?es) + gap x) (drop (Suc i) ?es)"
      unfolding positions_def by (subst split) (simp add: placed_append x_def i(2))
    have "positions a' = placed 0 (take i ?es) @ placed (gsum (take i ?es) + gap x) (drop (Suc i) ?es)"
      unfolding positions_def new(2) es'_def tail by (cases "drop (Suc i) ?es") (simp_all add: placed_append ac_simps)
    moreover have "distinct (map fst (positions a))" using slots_distinct [OF ok] by (simp only: positions_def map_fst_placed)
    ultimately show ?thesis using map_of_delete_nth unfolding p by metis
  qed
  ultimately show ?thesis using rem by (auto simp: anchors_ok_def)
qed

end
