(* ===== verification/Buffer_Correct.thy ===== *)
theory Buffer_Correct
  imports Text_Buffer Rope_Edit Anchor_Slots
begin

text \<open>
  A change of the buffer replaces the ranges of its edits in the text and moves the anchors
  of either bias by the same rule; the buffer keeps its text, its trees and its anchors in step.
\<close>

section \<open>Buffers\<close>

definition buffer_text :: "buffer \<Rightarrow> byte list" where
  "buffer_text b = rope_text (brope b)"

definition side_ok :: "nat \<Rightarrow> anchor_tree \<Rightarrow> bool" where
  "side_ok n a \<longleftrightarrow> anchors_ok a \<and> (\<forall>(s, q) \<in> set (positions a). 0 \<le> q \<and> q \<le> int n)"

definition buffer_ok :: "buffer \<Rightarrow> bool" where
  "buffer_ok b \<longleftrightarrow> rope_ok (brope b) \<and> (\<forall>side. side_ok (length (buffer_text b)) (side_tree b side))"

lemma new_anchor_tree_ok: "anchors_ok new_anchor_tree" "positions new_anchor_tree = []"
proof -
  have "tree_ok anchor_summary (new_tree anchor_summary [])" "tree_items (new_tree anchor_summary []) = []"
    using new_tree_ok [of anchor_summary "[]"] by simp_all
  then show "anchors_ok new_anchor_tree" "positions new_anchor_tree = []"
    by (simp_all add: anchors_ok_def entries_ok_def slots_ok_def new_anchor_tree_def positions_def)
qed

lemma new_buffer_ok: "buffer_ok (new_buffer t) \<and> buffer_text (new_buffer t) = t"
  using new_rope_ok [of t] new_anchor_tree_ok
  by (auto simp: buffer_ok_def side_ok_def new_buffer_def buffer_text_def side_tree_def split: bias.splits)

section \<open>Moving one side\<close>

text \<open>
  Where a replacement of [s, e) by n bytes takes a position: inside the range it goes to s,
  and from there past the new text when the anchor keeps to the right.
\<close>

definition moved :: "bias \<Rightarrow> int \<Rightarrow> int \<Rightarrow> int \<Rightarrow> int \<Rightarrow> int" where
  "moved side s e n q =
     (if q < s then q
      else if q \<le> e then (if q > s \<and> e > s \<or> q = s then (if side = right then s + n else s) else q + n)
      else q - (e - s) + n)"

lemma moved_collapse:
  assumes "s \<le> e" "0 \<le> n" "n = 0 \<Longrightarrow> s < e" "c = (if e > s then collapsed s e q else q)"
  shows "(if n = 0 then c else move_where (passes s (side = right)) n c) = moved side s e n q"
  using assms by (auto simp: collapsed_def move_where_def passes_def moved_def)

lemma side_okD: "side_ok n a \<Longrightarrow> anchors_ok a" "side_ok n a \<Longrightarrow> (s, q) \<in> set (positions a) \<Longrightarrow> 0 \<le> q \<and> q \<le> int n"
  by (auto simp: side_ok_def)

lemma move_side_ok:
  assumes ok: "side_ok len a" and range: "0 \<le> s" "s \<le> e" "e \<le> int len" and change: "s < e \<or> t \<noteq> []"
  shows "\<exists>a'. move_side a side s e t = Some a' \<and> side_ok (len - nat (e - s) + length t) a' \<and>
    positions a' = map (\<lambda>(x, q). (x, moved side s e (int (length t)) q)) (positions a)"
proof -
  obtain a1 where a1: "(if e > s then collapse a s e else Some a) = Some a1" "anchors_ok a1"
    "positions a1 = map (\<lambda>(x, q). (x, if e > s then collapsed s e q else q)) (positions a)"
  proof (cases "e > s")
    case True
    then show thesis using that collapse_positions [OF side_okD(1) [OF ok] range(1) True] by auto
  next
    case False
    then show thesis using that [of a] side_okD(1) [OF ok] by (simp add: map_idI)
  qed
  define a2 where "a2 = (if t \<noteq> [] then shift a1 s (side = right) (int (length t)) else a1)"
  have nn: "nonneg (tree_items (entries a1))" using a1(2) by (simp add: anchors_ok_def entries_ok_def)
  have "anchors_ok a2 \<and> positions a2 = map (\<lambda>(x, c). (x, if int (length t) = 0 then c else move_where (passes s (side = right)) (int (length t)) c)) (positions a1)"
  proof (cases "t = []")
    case True
    then show ?thesis using a1(2) by (simp add: a2_def map_idI)
  next
    case False
    have "anchors_ok (shift a1 s (side = right) (int (length t))) \<and> positions (shift a1 s (side = right) (int (length t))) =
        map (\<lambda>(x, q). (x, move_where (passes s (side = right)) (int (length t)) q)) (positions a1)"
      by (rule shift_positions [OF a1(2)]) (use nn in auto)
    then show ?thesis using False by (simp add: a2_def)
  qed
  then have a2: "anchors_ok a2" "positions a2 = map (\<lambda>(x, q). (x, moved side s e (int (length t)) q)) (positions a)"
    using moved_collapse [OF range(2), of "int (length t)" _ _ side] change unfolding a1(3) by auto
  have "0 \<le> moved side s e (int (length t)) q \<and> moved side s e (int (length t)) q \<le> int (len - nat (e - s) + length t)"
    if "(x, q) \<in> set (positions a)" for x q
    using side_okD(2) [OF ok that] range by (auto simp: moved_def)
  then have "side_ok (len - nat (e - s) + length t) a2" using a2 by (auto simp: side_ok_def)
  then show ?thesis using a1(1) a2(2) by (auto simp: move_side_def a2_def [symmetric])
qed

section \<open>Replacing\<close>

lemma buffer_replace_ok:
  assumes ok: "buffer_ok b" and range: "0 \<le> s" "s \<le> e" "e \<le> int (length (buffer_text b))"
  shows "\<exists>b'. buffer_replace b s e t = Some b' \<and> buffer_ok b' \<and>
    buffer_text b' = take (nat s) (buffer_text b) @ t @ drop (nat e) (buffer_text b) \<and> version b' = version b \<and>
    (\<forall>side. positions (side_tree b' side) = map (\<lambda>(x, q). (x, moved side s e (int (length t)) q)) (positions (side_tree b side)))"
proof (cases "s = e \<and> t = []")
  case True
  have "map (\<lambda>(x, q). (x, moved side e e 0 q)) (positions a) = positions a" for side a
    by (intro map_idI) (auto simp: moved_def)
  then show ?thesis using True ok by (simp add: buffer_replace_def)
next
  case False
  then have change: "s < e \<or> t \<noteq> []" using range(2) by auto
  let ?n = "length (buffer_text b) - nat (e - s) + length t"
  obtain l where l: "move_side (lefts b) left s e t = Some l" "side_ok ?n l"
    "positions l = map (\<lambda>(x, q). (x, moved left s e (int (length t)) q)) (positions (lefts b))"
    using move_side_ok [OF _ range change, of "lefts b" left] ok by (auto simp: buffer_ok_def side_tree_def split: bias.splits)
  obtain r where r: "move_side (rights b) right s e t = Some r" "side_ok ?n r"
    "positions r = map (\<lambda>(x, q). (x, moved right s e (int (length t)) q)) (positions (rights b))"
    using move_side_ok [OF _ range change, of "rights b" right] ok by (auto simp: buffer_ok_def side_tree_def split: bias.splits)
  define b' where "b' = b\<lparr>brope := rope_replace (brope b) (nat s) (nat e) t, lefts := l, rights := r\<rparr>"
  have "buffer_replace b s e t = Some b'" using False l(1) r(1) range(2) by (auto simp: buffer_replace_def b'_def)
  moreover have rope: "rope_ok (brope b')" "buffer_text b' = take (nat s) (buffer_text b) @ t @ drop (nat e) (buffer_text b)"
    using rope_replace_ok [of "brope b" "nat s" "nat e" t] ok range by (auto simp: buffer_ok_def buffer_text_def b'_def)
  moreover have len: "length (buffer_text b') = ?n" unfolding rope(2) using range by (simp add: nat_diff_distrib)
  moreover have sides: "side_tree b' left = l" "side_tree b' right = r" by (simp_all add: b'_def side_tree_def)
  then have "\<forall>side. side_ok ?n (side_tree b' side)" using l(2) r(2) by (metis bias.exhaust)
  then have "buffer_ok b'" using rope(1) len by (simp add: buffer_ok_def)
  moreover have "positions (side_tree b' side) = map (\<lambda>(x, q). (x, moved side s e (int (length t)) q)) (positions (side_tree b side))" for side
    using sides l(3) r(3) by (cases side) (simp_all add: side_tree_def)
  moreover have "version b' = version b" by (simp add: b'_def)
  ultimately show ?thesis by blast
qed

section \<open>Handles\<close>

lemma handle_parts:
  fixes s :: "32 word"
  assumes "unat s + 1 < 2 ^ 31"
  shows "s + 1 \<noteq> 0" "(s + 1) AND rightBit = 0" "(s + 1) AND NOT rightBit = s + 1"
    "((s + 1) OR rightBit) AND rightBit \<noteq> 0" "((s + 1) OR rightBit) AND NOT rightBit = s + 1"
proof -
  have n: "unat (s + 1) = unat s + 1" using assms by (simp add: unat_word_ariths(1))
  then show "s + 1 \<noteq> 0" by (metis add_is_0 one_neq_zero unat_0)
  have "unat ((s + 1) div 2 ^ 31) = 0" unfolding unat_div n using assms by simp
  then have "(s + 1) div 2 ^ 31 = 0" by (simp only: unat_eq_zero)
  then have off: "\<not> bit (s + 1) 31" by (simp add: bit_iff_odd)
  have on: "bit rightBit i \<longleftrightarrow> i = 31" for i
    unfolding rightBit_def bit_push_bit_iff bit_1_iff by auto
  show "(s + 1) AND rightBit = 0" using off on by (auto intro!: bit_word_eqI simp: bit_simps)
  show "(s + 1) AND NOT rightBit = s + 1" using off on by (auto intro!: bit_word_eqI simp: bit_simps)
  have "bit (((s + 1) OR rightBit) AND rightBit) 31" using on by (simp add: bit_simps)
  then show "((s + 1) OR rightBit) AND rightBit \<noteq> 0" by auto
  show "((s + 1) OR rightBit) AND NOT rightBit = s + 1" using off on by (auto intro!: bit_word_eqI simp: bit_simps)
qed

lemma handle_side:
  fixes side :: bias
  assumes "unat s + 1 < 2 ^ 31"
  defines "h \<equiv> (if side = right then (s + 1) OR rightBit else s + 1)"
  shows "h \<noteq> startAnchor" "anchor_side h = side" "anchor_slot h = s"
proof -
  note p = handle_parts [OF assms(1)]
  show "anchor_side h = side" using p by (cases side) (auto simp: h_def anchor_side_def)
  show "anchor_slot h = s" using p by (auto simp: h_def anchor_slot_def)
  show "h \<noteq> startAnchor" using p by (auto simp: h_def startAnchor_def)
qed

lemma resolve_side:
  "buffer_ok b \<Longrightarrow> resolve b a = (if a = startAnchor then Some 0 else map_of (positions (side_tree b (anchor_side a))) (anchor_slot a))"
  by (auto simp: resolve_def buffer_ok_def side_ok_def intro: resolve_positions)

lemma side_tree_set [simp]: "side_tree (set_side b side a) t = (if t = side then a else side_tree b t)"
  by (cases side; cases t) (simp_all add: side_tree_def set_side_def)

lemma set_side_text [simp]: "brope (set_side b side a) = brope b"
  by (cases side) (simp_all add: set_side_def)

lemma slot_below_keys: "anchors_ok a \<Longrightarrow> s \<in> fst ` set (positions a) \<Longrightarrow> unat s < length (keys a)"
proof -
  assume a: "anchors_ok a" "s \<in> fst ` set (positions a)"
  then have "s \<in> set (map fst (positions a))" by simp
  then have "s \<in> set (map slot (tree_items (entries a)))" by (simp only: positions_def map_fst_placed)
  then show ?thesis using a(1) by (auto simp: anchors_ok_def slots_ok_def)
qed

lemma handle_eq:
  assumes "anchor_side h = anchor_side k" "anchor_slot h = anchor_slot k"
  shows "h = k"
proof (rule bit_word_eqI)
  fix i assume i: "i < LENGTH(32)"
  have on: "bit rightBit j \<longleftrightarrow> j = 31" for j
    unfolding rightBit_def bit_push_bit_iff bit_1_iff by auto
  have side: "anchor_side x = right \<longleftrightarrow> bit x 31" for x
  proof -
    have "bit (x AND rightBit) 31 = bit x 31" using on by (simp add: bit_and_iff)
    moreover have "x AND rightBit = 0" if "\<not> bit x 31"
      by (rule bit_word_eqI) (use on that in \<open>auto simp: bit_and_iff\<close>)
    ultimately have "x AND rightBit \<noteq> 0 \<longleftrightarrow> bit x 31" by auto
    then show ?thesis by (simp add: anchor_side_def)
  qed
  have low: "bit (h AND NOT rightBit) i = bit (k AND NOT rightBit) i" using assms(2) by (simp add: anchor_slot_def)
  show "bit h i = bit k i"
  proof (cases "i = 31")
    case True
    then show ?thesis using side [of h] side [of k] assms(1) by simp
  next
    case False
    then show ?thesis using low on i by (simp add: bit_simps)
  qed
qed

lemma make_anchor_ok:
  assumes ok: "buffer_ok b" and off: "0 \<le> off" "off \<le> int (length (buffer_text b))"
    and room: "length (keys (side_tree b side)) + 1 < 2 ^ 31"
  shows "\<exists>b' h. make_anchor b off side = Inr (b', h) \<and> buffer_ok b' \<and> buffer_text b' = buffer_text b \<and> anchor_side h = side \<and>
    (h \<noteq> startAnchor \<and> resolve b h = None) \<and> (\<forall>k. resolve b' k = (if k = h then Some off else resolve b k))"
proof -
  let ?a = "side_tree b side"
  have a: "anchors_ok ?a" using ok by (simp add: buffer_ok_def side_ok_def)
  obtain a' s where add: "add_at ?a off = Some (a', s)" "anchors_ok a'" "s \<notin> fst ` set (positions ?a)"
    "\<And>t. map_of (positions a') t = (if t = s then Some off else map_of (positions ?a) t)"
    using add_at_ok [OF a off(1) room] by blast
  have slots: "length (keys a') < 2 ^ 31" using add(2) by (simp add: anchors_ok_def slots_ok_def)
  have s_in: "s \<in> fst ` set (positions a')" using add(4) [of s] by (metis (full_types) map_of_eq_None_iff option.distinct(1))
  have len: "length (keys a') \<le> length (keys ?a) + 1"
  proof -
    have "length (keys c) \<le> length (keys d) + 1" if "try_add d off = Some (Some (c, t))" for c d t
      using that by (auto simp: try_add_def Let_def take_slot_def split: option.splits prod.splits if_splits)
    then show ?thesis using add(1) relabel_ok(3) [OF a] by (fastforce simp: add_at_def split: option.splits)
  qed
  have small: "unat s + 1 < 2 ^ 31" using slot_below_keys [OF add(2) s_in] len room by linarith
  define h where "h = (if side = right then (s + 1) OR rightBit else s + 1)"
  note hs = handle_side [OF small, of side, folded h_def]
  define b' where "b' = set_side b side a'"
  have make: "make_anchor b off side = Inr (b', h)"
    using add(1) off rope_len_text [of "brope b"] ok by (simp add: make_anchor_def b'_def h_def buffer_ok_def buffer_text_def)
  have range: "0 \<le> q \<and> q \<le> int (length (buffer_text b))" if "(t, q) \<in> set (positions a')" for t q
  proof -
    have "distinct (map fst (positions a'))" using slots_distinct [OF add(2)] by (simp only: positions_def map_fst_placed)
    then have "map_of (positions a') t = Some q" using that by (rule map_of_is_SomeI)
    then show ?thesis using add(4) [of t] off ok map_of_SomeD [of "positions ?a" t q]
      by (auto simp: buffer_ok_def side_ok_def split: if_splits)
  qed
  have same: "buffer_text b' = buffer_text b" by (simp add: b'_def buffer_text_def)
  have ok': "buffer_ok b'" using ok add(2) range by (auto simp: buffer_ok_def b'_def side_ok_def buffer_text_def)
  have "resolve b h = None" using hs add(3) resolve_side [OF ok, of h] by (simp add: map_of_eq_None_iff)
  moreover have "resolve b' k = (if k = h then Some off else resolve b k)" for k
  proof (cases "k = startAnchor")
    case False
    have "k = h \<longleftrightarrow> anchor_side k = side \<and> anchor_slot k = s" using hs handle_eq [of k h] by auto
    then show ?thesis using False resolve_side [OF ok', of k] resolve_side [OF ok, of k] add(4) by (auto simp: b'_def)
  qed (use hs in \<open>simp add: resolve_def\<close>)
  ultimately show ?thesis using make ok' same hs by blast
qed

lemma resolve_range: "buffer_ok b \<Longrightarrow> resolve b a = Some p \<Longrightarrow> 0 \<le> p \<and> p \<le> int (length (buffer_text b))"
proof -
  assume ok: "buffer_ok b" and r: "resolve b a = Some p"
  show ?thesis
  proof (cases "a = startAnchor")
    case False
    then have "(anchor_slot a, p) \<in> set (positions (side_tree b (anchor_side a)))"
      using r resolve_side [OF ok, of a] by (auto dest: map_of_SomeD)
    moreover have "side_ok (length (buffer_text b)) (side_tree b (anchor_side a))" using ok by (simp add: buffer_ok_def)
    ultimately show ?thesis using side_okD(2) by blast
  qed (use r in \<open>simp add: resolve_def\<close>)
qed

lemma map_of_moved: "map_of (map (\<lambda>(x, q). (x, f q)) ps) s = map_option f (map_of ps s)"
  by (induction ps) auto

lemma replace_resolve:
  assumes "buffer_ok b" "0 \<le> s" "s \<le> e" "e \<le> int (length (buffer_text b))" "a \<noteq> startAnchor"
  shows "\<exists>b'. buffer_replace b s e t = Some b' \<and> buffer_ok b' \<and>
    buffer_text b' = take (nat s) (buffer_text b) @ t @ drop (nat e) (buffer_text b) \<and>
    resolve b' a = map_option (moved (anchor_side a) s e (int (length t))) (resolve b a)"
proof -
  obtain b' where b': "buffer_replace b s e t = Some b'" "buffer_ok b'"
    "buffer_text b' = take (nat s) (buffer_text b) @ t @ drop (nat e) (buffer_text b)"
    "\<And>side. positions (side_tree b' side) = map (\<lambda>(x, q). (x, moved side s e (int (length t)) q)) (positions (side_tree b side))"
    using buffer_replace_ok [OF assms(1-4)] by blast
  have "resolve b' a = map_option (moved (anchor_side a) s e (int (length t))) (resolve b a)"
    unfolding resolve_side [OF b'(2)] resolve_side [OF assms(1)] using assms(5) by (simp add: b'(4) map_of_moved)
  then show ?thesis using b' by blast
qed

section \<open>Applying edits\<close>

text \<open>The text with the ranges of sorted spans replaced at once.\<close>

fun spliced :: "byte list \<Rightarrow> nat \<Rightarrow> (nat \<times> nat \<times> byte list) list \<Rightarrow> byte list" where
  "spliced t p [] = drop p t"
| "spliced t p ((s, e, x) # sps) = drop p (take s t) @ x @ spliced t e sps"

definition span_texts :: "edit list \<Rightarrow> span list \<Rightarrow> (nat \<times> nat \<times> byte list) list" where
  "span_texts es sps = map (\<lambda>(s, e, i). (nat s, nat e, Text (es ! i))) sps"

fun spans_ok :: "int \<Rightarrow> nat \<Rightarrow> span list \<Rightarrow> bool" where
  "spans_ok p n [] \<longleftrightarrow> 0 \<le> p \<and> p \<le> int n"
| "spans_ok p n ((s, e, i) # sps) \<longleftrightarrow> 0 \<le> p \<and> p \<le> s \<and> s \<le> e \<and> spans_ok e n sps"

lemma spans_ok_le: "spans_ok p n sps \<Longrightarrow> p \<le> int n"
  by (induction p n sps rule: spans_ok.induct) auto

lemma replace_spans_ok:
  assumes "buffer_ok b" "spans_ok p (length (buffer_text b)) sps"
  shows "\<exists>b'. replace_spans b es sps = Some b' \<and> buffer_ok b' \<and> version b' = version b \<and>
    buffer_text b' = take (nat p) (buffer_text b) @ spliced (buffer_text b) (nat p) (span_texts es sps)"
  using assms(2)
proof (induction sps arbitrary: p)
  case (Cons sp sps)
  obtain s e i where sp: "sp = (s, e, i)" by (metis prod_cases3)
  let ?t = "buffer_text b"
  have c: "0 \<le> p" "p \<le> s" "s \<le> e" "spans_ok e (length ?t) sps" "e \<le> int (length ?t)" using Cons.prems sp spans_ok_le by auto
  obtain b1 where b1: "replace_spans b es sps = Some b1" "buffer_ok b1" "version b1 = version b"
    "buffer_text b1 = take (nat e) ?t @ spliced ?t (nat e) (span_texts es sps)" using Cons.IH [OF c(4)] by blast
  have len: "e \<le> int (length (buffer_text b1))" using b1(4) c by simp
  obtain b' where b': "buffer_replace b1 s e (Text (es ! i)) = Some b'" "buffer_ok b'" "version b' = version b1"
    "buffer_text b' = take (nat s) (buffer_text b1) @ Text (es ! i) @ drop (nat e) (buffer_text b1)"
    using buffer_replace_ok [OF b1(2) _ c(3) len, of "Text (es ! i)"] c by auto
  have "nat s \<le> nat e" "nat e \<le> length ?t" using c by simp_all
  then have "take (nat s) (buffer_text b1) = take (nat s) ?t" using b1(4) by simp
  moreover have "drop (nat e) (buffer_text b1) = spliced ?t (nat e) (span_texts es sps)" using b1(4) c by simp
  moreover have "take (nat s) ?t = take (nat p) ?t @ drop (nat p) (take (nat s) ?t)"
    using c by (metis append_take_drop_id min.absorb1 nat_mono take_take)
  ultimately have "buffer_text b' = take (nat p) ?t @ spliced ?t (nat p) (span_texts es (sp # sps))"
    using b'(4) by (simp add: span_texts_def sp)
  then show ?case using b1 b' by (simp add: sp)
qed (use assms(1) in \<open>simp add: span_texts_def\<close>)

end
