(* ===== verification/Buffer_Edits.thy ===== *)
theory Buffer_Edits
  imports Buffer_Correct "HOL-Library.Multiset"
begin

text \<open>
  Apply as a whole: which edits it refuses and with which error, what the text is when it
  succeeds, and that the buffer stays well-formed whatever the numbers of the edits, those whose
  sums wrap included.
\<close>

section \<open>The ranges of the edits\<close>

definition edit_range :: "buffer \<Rightarrow> edit \<Rightarrow> (int \<times> int) option" where
  "edit_range b e = map_option (\<lambda>p. (p + Offset e, p + Offset e + Delete e)) (resolve b (Anchor e))"

text \<open>An edit that can be applied: its anchor is live and its range is one of the text.\<close>

definition edit_ok :: "buffer \<Rightarrow> edit \<Rightarrow> bool" where
  "edit_ok b e \<longleftrightarrow>
     (case edit_range b e of None \<Rightarrow> False | Some (s, t) \<Rightarrow> 0 \<le> s \<and> s \<le> t \<and> t \<le> int (length (buffer_text b)))"

definition edits_apart :: "buffer \<Rightarrow> edit \<Rightarrow> edit \<Rightarrow> bool" where
  "edits_apart b x y \<longleftrightarrow>
     (case (edit_range b x, edit_range b y) of (Some (s, t), Some (s', t')) \<Rightarrow> t \<le> s' \<or> t' \<le> s | _ \<Rightarrow> False)"

text \<open>An edit whose sums stay in Go's int.\<close>

definition no_overflow :: "buffer \<Rightarrow> edit \<Rightarrow> bool" where
  "no_overflow b e \<longleftrightarrow>
     (case edit_range b e of None \<Rightarrow> True | Some (s, t) \<Rightarrow> - (2 ^ 63) \<le> Offset e \<and> t < 2 ^ 63)"

definition edit_span :: "buffer \<Rightarrow> nat \<Rightarrow> edit \<Rightarrow> span" where
  "edit_span b i e = (case edit_range b e of None \<Rightarrow> (0, 0, i) | Some (s, t) \<Rightarrow> (s, t, i))"

lemma edit_ok_iff:
  "edit_ok b e \<longleftrightarrow> (\<exists>p. resolve b (Anchor e) = Some p \<and> 0 \<le> p + Offset e \<and> 0 \<le> Delete e \<and>
    p + Offset e + Delete e \<le> int (length (buffer_text b)))"
  by (cases "resolve b (Anchor e)") (auto simp: edit_ok_def edit_range_def)

lemma no_overflow_iff:
  "no_overflow b e \<longleftrightarrow> (\<forall>p. resolve b (Anchor e) = Some p \<longrightarrow> - (2 ^ 63) \<le> Offset e \<and> p + Offset e + Delete e < 2 ^ 63)"
  by (cases "resolve b (Anchor e)") (auto simp: no_overflow_def edit_range_def)

text \<open>The ranges with the numbers of their edits.\<close>

definition edit_order :: "buffer \<Rightarrow> edit list \<Rightarrow> nat \<Rightarrow> span list" where
  "edit_order b es i = map (\<lambda>(k, e). edit_span b k e) (enumerate i es)"

lemma edit_order_simps [simp]:
  "edit_order b [] i = []" "edit_order b (e # es) i = edit_span b i e # edit_order b es (Suc i)"
  by (simp_all add: edit_order_def)

lemma rope_len_buffer: "buffer_ok b \<Longrightarrow> rope_len (brope b) = length (buffer_text b)"
  using rope_len_text [of "brope b"] by (simp add: buffer_ok_def buffer_text_def)

lemma edit_spans_cases:
  assumes ok: "buffer_ok b" and "list_all (no_overflow b) es"
  shows "if list_all (edit_ok b) es then edit_spans b es i = Inr (edit_order b es i)
    else \<exists>k < length es. list_all (edit_ok b) (take k es) \<and> \<not> edit_ok b (es ! k) \<and>
      edit_spans b es i = Inl (if resolve b (Anchor (es ! k)) = None then Panicked else ErrEdit (i + k))"
  using assms(2)
proof (induction es arbitrary: i)
  case (Cons e es)
  note len = rope_len_buffer [OF ok]
  show ?case
  proof (cases "edit_ok b e")
    case True
    then obtain p where p: "resolve b (Anchor e) = Some p" "0 \<le> p + Offset e" "0 \<le> Delete e"
      "p + Offset e + Delete e \<le> int (length (buffer_text b))" by (auto simp: edit_ok_iff)
    have w: "wrap64 (p + Offset e) = p + Offset e" "wrap64 (p + Offset e + Delete e) = p + Offset e + Delete e"
      using Cons.prems p by (auto simp: no_overflow_iff intro!: wrap64_id)
    have step: "edit_spans b (e # es) i =
        (case edit_spans b es (Suc i) of Inl err \<Rightarrow> Inl err | Inr sps \<Rightarrow> Inr (edit_span b i e # sps))"
      using p w by (cases "edit_spans b es (Suc i)") (simp_all add: Let_def len edit_span_def edit_range_def)
    show ?thesis
    proof (cases "list_all (edit_ok b) es")
      case True
      then show ?thesis using Cons.IH [of "Suc i"] Cons.prems step \<open>edit_ok b e\<close> by simp
    next
      case False
      then obtain k where "k < length es" "list_all (edit_ok b) (take k es)" "\<not> edit_ok b (es ! k)"
        "edit_spans b es (Suc i) = Inl (if resolve b (Anchor (es ! k)) = None then Panicked else ErrEdit (Suc i + k))"
        using Cons.IH [of "Suc i"] Cons.prems by auto
      then show ?thesis using False step \<open>edit_ok b e\<close> by (auto intro!: exI [of _ "Suc k"])
    qed
  next
    case False
    have "edit_spans b (e # es) i = Inl (if resolve b (Anchor e) = None then Panicked else ErrEdit i)"
    proof (cases "resolve b (Anchor e)")
      case (Some p)
      then have bad: "p + Offset e < 0 \<or> Delete e < 0 \<or> int (length (buffer_text b)) < p + Offset e + Delete e"
        and range: "- (2 ^ 63) \<le> Offset e" "p + Offset e + Delete e < 2 ^ 63" "0 \<le> p"
        using False Cons.prems resolve_range [OF ok Some] by (auto simp: edit_ok_iff no_overflow_iff not_le)
      have "wrap64 (p + Offset e) = p + Offset e \<and> (0 \<le> p + Offset e \<longrightarrow>
          wrap64 (p + Offset e + Delete e) = p + Offset e + Delete e)" if "0 \<le> Delete e"
        using that range by (auto intro!: wrap64_id)
      then show ?thesis using Some bad by (auto simp: Let_def len)
    qed simp
    then have "0 < length (e # es) \<and> list_all (edit_ok b) (take 0 (e # es)) \<and> \<not> edit_ok b ((e # es) ! 0) \<and>
        edit_spans b (e # es) i = Inl (if resolve b (Anchor ((e # es) ! 0)) = None then Panicked else ErrEdit (i + 0))"
      using False by (simp del: edit_spans.simps)
    moreover have "\<not> list_all (edit_ok b) (e # es)" using False by simp
    ultimately show ?thesis by (metis (no_types, lifting))
  qed
qed simp

lemma edit_spans_any:
  assumes "buffer_ok b" "edit_spans b es i = Inr sps"
  shows "length sps = length es \<and> (\<forall>(s, e, k) \<in> set sps. 0 \<le> s \<and> e \<le> int (length (buffer_text b)))"
  using assms(2)
proof (induction es arbitrary: i sps)
  case (Cons e es)
  then show ?case using rope_len_buffer [OF assms(1)]
    by (fastforce simp: Let_def split: option.splits if_splits sum.splits)
qed simp

section \<open>Sorting the spans\<close>

definition span_key :: "span \<Rightarrow> int \<times> int" where
  "span_key sp = (case sp of (s, e, i) \<Rightarrow> (s, e))"

lemma mset_insert_back: "mset (insert_back x ys) = add_mset x (mset ys)"
  by (induction ys) auto

lemma set_insert_back [simp]: "set (insert_back x ys) = insert x (set ys)"
  using mset_insert_back [of x ys] by (metis set_mset_add_mset_insert set_mset_mset)

lemma mset_sort_spans [simp]: "mset (sort_spans sps) = mset sps"
proof -
  have "mset (foldl (\<lambda>prefix x. insert_back x prefix) ys sps) = mset ys + mset sps" for ys
    by (induction sps arbitrary: ys) (simp_all add: mset_insert_back)
  then show ?thesis by (simp add: sort_spans_def)
qed

lemma set_sort_spans [simp]: "set (sort_spans sps) = set sps"
  using mset_sort_spans [of sps] by (metis set_mset_mset)

text \<open>The starts come out in order, whatever the ends.\<close>

lemma sort_spans_starts: "sorted (map fst (sort_spans sps))"
proof -
  have ins: "sorted_wrt (\<ge>) (map fst ys) \<Longrightarrow> sorted_wrt (\<ge>) (map fst (insert_back x ys))" for x and ys :: "span list"
    by (induction ys) (auto simp: span_before_def split: if_splits prod.splits)
  have "sorted_wrt (\<ge>) (map fst ys) \<Longrightarrow> sorted_wrt (\<ge>) (map fst (foldl (\<lambda>prefix x. insert_back x prefix) ys sps))" for ys
    by (induction sps arbitrary: ys) (auto intro: ins)
  from this [of "[]"] show ?thesis by (simp add: sort_spans_def rev_map [symmetric] sorted_wrt_rev)
qed

text \<open>Ranges of the text have ends whose differences do not wrap, so their order is the stable one.\<close>

definition plain_span :: "span \<Rightarrow> bool" where
  "plain_span sp \<longleftrightarrow> (case sp of (s, e, i) \<Rightarrow> 0 \<le> e \<and> e < 2 ^ 63)"

lemma span_before_key: "plain_span x \<Longrightarrow> plain_span y \<Longrightarrow> span_before x y \<longleftrightarrow> span_key x < span_key y"
proof -
  assume "plain_span x" "plain_span y"
  then obtain s e i s' e' i' where xy: "x = (s, e, i)" "y = (s', e', i')" "0 \<le> e" "e < 2 ^ 63" "0 \<le> e'" "e' < 2 ^ 63"
    by (cases x, cases y) (auto simp: plain_span_def)
  then have "wrap64 (e - e') = e - e'" by (intro wrap64_id) simp_all
  then show ?thesis using xy by (auto simp: span_before_def span_key_def less_prod_def)
qed

lemma insert_back_stable:
  assumes "plain_span x" "\<forall>y \<in> set ys. plain_span y" "sorted_wrt (\<ge>) (map span_key ys)"
  shows "sorted_wrt (\<ge>) (map span_key (insert_back x ys)) \<and>
    filter (\<lambda>y. span_key y = k) (insert_back x ys) = filter (\<lambda>y. span_key y = k) (x # ys)"
  using assms(2,3)
proof (induction ys)
  case (Cons y ys)
  show ?case
  proof (cases "span_key x < span_key y")
    case True
    then show ?thesis using Cons span_before_key [OF assms(1), of y] by auto
  next
    case False
    then have "span_key z \<le> span_key x" if "z \<in> set (y # ys)" for z using Cons.prems(2) that by fastforce
    then show ?thesis using False Cons.prems span_before_key [OF assms(1), of y] by auto
  qed
qed simp

lemma sort_spans_stable:
  assumes "\<forall>x \<in> set sps. plain_span x"
  shows "sort_spans sps = sort_key span_key sps"
proof -
  let ?f = "foldl (\<lambda>prefix x. insert_back x prefix)"
  have fold: "sorted_wrt (\<ge>) (map span_key (?f ys sps)) \<and>
      filter (\<lambda>y. span_key y = k) (?f ys sps) = filter (\<lambda>y. span_key y = k) (rev sps @ ys)"
    if "\<forall>x \<in> set sps \<union> set ys. plain_span x" "sorted_wrt (\<ge>) (map span_key ys)" for ys k
    using that
  proof (induction sps arbitrary: ys)
    case (Cons x sps)
    then have x: "plain_span x" "\<forall>y \<in> set ys. plain_span y" by auto
    note ins = insert_back_stable [OF x Cons.prems(2), of k]
    have "\<forall>y \<in> set sps \<union> set (insert_back x ys). plain_span y" using Cons.prems(1) by auto
    from Cons.IH [OF this] ins show ?case by simp
  qed simp
  have "sorted (map span_key (sort_spans sps))"
    using fold [of "[]"] assms by (simp add: sort_spans_def rev_map [symmetric] sorted_wrt_rev)
  moreover have "filter (\<lambda>y. span_key k = span_key y) (sort_spans sps) = filter (\<lambda>y. span_key k = span_key y) sps" for k
    using fold [of "[]" "span_key k"] assms by (simp add: sort_spans_def rev_filter [symmetric] eq_commute [of "span_key k"])
  ultimately show ?thesis using properties_for_sort_key [of "sort_spans sps" sps span_key] by simp
qed

section \<open>Ranges that do not overlap\<close>

lemma span_key_pair: "span_key = (\<lambda>(s, e, i). (s, e))"
  by (auto simp: span_key_def)

lemma no_overlap_ok:
  assumes "sorted (map (\<lambda>(s, e, i). (s, e)) sps)" "\<forall>(s, e, i) \<in> set sps. 0 \<le> s \<and> s \<le> e \<and> e \<le> int n" "overlap sps = None"
  shows "spans_ok (case sps of [] \<Rightarrow> 0 | (s, e, i) # _ \<Rightarrow> s) n sps"
  using assms
proof (induction sps rule: overlap.induct)
  case (1 s e i s' e' i' sps)
  then show ?case by (auto split: if_splits)
qed auto

lemma spans_ok_mono: "spans_ok q n sps \<Longrightarrow> 0 \<le> p \<Longrightarrow> p \<le> q \<Longrightarrow> spans_ok p n sps"
  by (cases "(p, n, sps)" rule: spans_ok.cases) auto

lemma spans_ok_apart: "spans_ok p n sps \<Longrightarrow> sorted_wrt (\<lambda>x y. fst (snd x) \<le> fst y) sps \<and> (\<forall>x \<in> set sps. p \<le> fst x)"
proof (induction sps arbitrary: p)
  case (Cons sp sps)
  obtain s e i where sp: "sp = (s, e, i)" by (metis prod_cases3)
  then have "p \<le> s" "s \<le> e" "spans_ok e n sps" using Cons.prems by auto
  with Cons.IH [of e] have "sorted_wrt (\<lambda>x y. fst (snd x) \<le> fst y) sps" "\<forall>x \<in> set sps. e \<le> fst x" "p \<le> e" by auto
  then show ?case using \<open>p \<le> s\<close> by (force simp: sp)
qed simp

lemma overlap_Some:
  assumes "overlap sps = Some (i, j)" "sorted (map span_key sps)"
  shows "\<exists>xs s e s' e' ys. sps = xs @ (s, e, i) # (s', e', j) # ys \<and> s' < e \<and> (s, e) \<le> (s', e')"
  using assms
proof (induction sps rule: overlap.induct)
  case (1 s e i' s' e' j' sps)
  show ?case
  proof (cases "s' < e")
    case True
    then have "i = i'" "j = j'" using "1.prems"(1) by simp_all
    moreover have "(s, e) \<le> (s', e')" using "1.prems"(2) by (simp add: span_key_def)
    ultimately show ?thesis using True by (intro exI [of _ "[]"]) auto
  next
    case False
    then obtain xs a c a' c' ys where "(s', e', j') # sps = xs @ (a, c, i) # (a', c', j) # ys" "a' < c" "(a, c) \<le> (a', c')"
      using 1 by auto
    then show ?thesis by (metis append_Cons)
  qed
qed simp_all

lemma edit_order_nth:
  "map (\<lambda>(s, e, k). k) (edit_order b es i) = [i..<i + length es]"
  "k < length es \<Longrightarrow> edit_order b es i ! k = edit_span b (i + k) (es ! k)"
proof -
  have "(\<lambda>(s, e, k). k) (edit_span b k e) = k" for k e by (auto simp: edit_span_def split: option.splits)
  then show "map (\<lambda>(s, e, k). k) (edit_order b es i) = [i..<i + length es]"
    by (induction es arbitrary: i) (simp_all add: upt_conv_Cons del: upt_Suc)
  show "k < length es \<Longrightarrow> edit_order b es i ! k = edit_span b (i + k) (es ! k)"
    by (simp add: edit_order_def nth_enumerate_eq)
qed

lemma edit_order_in:
  assumes "list_all (edit_ok b) es" "(s, t, k) \<in> set (edit_order b es 0)"
  shows "k < length es \<and> edit_range b (es ! k) = Some (s, t) \<and> 0 \<le> s \<and> s \<le> t \<and> t \<le> int (length (buffer_text b))"
proof -
  obtain j where j: "j < length es" "edit_order b es 0 ! j = (s, t, k)"
    using assms(2) by (auto simp: in_set_conv_nth edit_order_def)
  then have "edit_ok b (es ! j)" using assms(1) by (simp add: list_all_length)
  then show ?thesis using j edit_order_nth(2) [OF j(1), of b 0]
    by (auto simp: edit_ok_def edit_span_def split: option.splits)
qed

section \<open>Applying\<close>

lemma apply_edits_order:
  assumes ok: "buffer_ok b" and small: "length (buffer_text b) < 2 ^ 63"
    and es: "list_all (edit_ok b) es" "edit_spans b es 0 = Inr (edit_order b es 0)"
  shows "case apply_edits b es of
      Inr b' \<Rightarrow> sorted_wrt (edits_apart b) es \<and> buffer_ok b' \<and> version b' = version b + (if es = [] then 0 else 1) \<and>
        buffer_text b' = spliced (buffer_text b) 0 (span_texts es (sort_key span_key (edit_order b es 0)))
    | Inl err \<Rightarrow> \<exists>i j. err = ErrOverlap i j \<and> i < length es \<and> j < length es \<and> i \<noteq> j \<and> \<not> edits_apart b (es ! i) (es ! j)"
proof -
  let ?sps = "edit_order b es 0"
  note mem = edit_order_in [OF es(1)]
  have "\<forall>x \<in> set ?sps. plain_span x" using mem small by (fastforce simp: plain_span_def)
  then have sort: "sort_spans ?sps = sort_key span_key ?sps" by (rule sort_spans_stable)
  have dist: "distinct (map (\<lambda>(s, e, k). k) (sort_spans ?sps))"
  proof -
    have "mset (map (\<lambda>(s, e, k). k) (sort_spans ?sps)) = mset [0..<length es]"
      using edit_order_nth(1) [of b es 0] by (metis add_0 mset_map mset_sort_spans)
    then show ?thesis by (metis distinct_upt mset_eq_imp_distinct_iff)
  qed
  show ?thesis
  proof (cases "overlap (sort_spans ?sps)")
    case (Some ij)
    then obtain i j where ov: "overlap (sort_spans ?sps) = Some (i, j)" by (cases ij) auto
    then obtain xs s e s' e' ys where o: "sort_spans ?sps = xs @ (s, e, i) # (s', e', j) # ys" "s' < e" "(s, e) \<le> (s', e')"
      using overlap_Some [OF ov] sort by auto
    then have "(s, e, i) \<in> set ?sps" "(s', e', j) \<in> set ?sps" using set_sort_spans [of ?sps] by auto
    note m = mem [OF this(1)] mem [OF this(2)]
    have "i \<noteq> j" using dist o(1) by simp
    moreover have "\<not> edits_apart b (es ! i) (es ! j)" using m o(2,3) by (auto simp: edits_apart_def less_eq_prod_def)
    moreover have "apply_edits b es = Inl (ErrOverlap i j)" using ov es(2) by (simp add: apply_edits_def Let_def)
    ultimately show ?thesis using m by simp
  next
    case None
    let ?n = "length (buffer_text b)"
    have range: "\<forall>(s, e, i) \<in> set (sort_spans ?sps). 0 \<le> s \<and> s \<le> e \<and> e \<le> int ?n" using mem by fastforce
    have "sorted (map (\<lambda>(s, e, i). (s, e)) (sort_spans ?sps))" unfolding sort span_key_pair by simp
    from no_overlap_ok [OF this range None] have "spans_ok 0 ?n (sort_spans ?sps)"
    proof (rule spans_ok_mono)
      show "0 \<le> (case sort_spans ?sps of [] \<Rightarrow> 0 | (s, e, i) # _ \<Rightarrow> s)" using range by (auto simp del: set_sort_spans split: list.splits)
    qed simp
    note spans = this spans_ok_apart [OF this]
    obtain b' where b': "replace_spans b es (sort_spans ?sps) = Some b'" "buffer_ok b'" "version b' = version b"
      "buffer_text b' = spliced (buffer_text b) 0 (span_texts es (sort_spans ?sps))"
      using replace_spans_ok [OF ok spans(1), of es] by auto
    have apart: "edits_apart b (es ! i) (es ! j)" if ij: "i < j" "j < length es" for i j
    proof -
      have "edit_order b es 0 ! i = edit_span b i (es ! i)" "edit_order b es 0 ! j = edit_span b j (es ! j)"
        using edit_order_nth(2) [of _ es b 0] ij by simp_all
      moreover have "length ?sps = length es" by (simp add: edit_order_def)
      ultimately have "edit_span b i (es ! i) \<in> set (sort_spans ?sps)" "edit_span b j (es ! j) \<in> set (sort_spans ?sps)"
        using ij by (metis nth_mem order.strict_trans set_sort_spans)+
      moreover have "edit_ok b (es ! i)" "edit_ok b (es ! j)" using es(1) ij by (simp_all add: list_all_length)
      then obtain s t s' t' where r: "edit_range b (es ! i) = Some (s, t)" "edit_range b (es ! j) = Some (s', t')"
        by (auto simp: edit_ok_def split: option.splits)
      ultimately obtain x y where xy: "x < length (sort_spans ?sps)" "y < length (sort_spans ?sps)"
        "sort_spans ?sps ! x = (s, t, i)" "sort_spans ?sps ! y = (s', t', j)"
        by (auto simp: edit_span_def in_set_conv_nth simp del: set_sort_spans)
      then have "x < y \<or> y < x" using ij(1) by (cases x y rule: linorder_cases) auto
      then have "t \<le> s' \<or> t' \<le> s"
        using spans(2) xy sorted_wrt_nth_less [of _ "sort_spans ?sps" x y] sorted_wrt_nth_less [of _ "sort_spans ?sps" y x] by fastforce
      then show ?thesis using r by (simp add: edits_apart_def)
    qed
    then have "sorted_wrt (edits_apart b) es" by (simp add: sorted_wrt_iff_nth_less)
    moreover have "length (sort_spans ?sps) = length es"
      using mset_sort_spans [of ?sps] by (metis edit_order_def length_enumerate length_map size_mset)
    then have e: "sort_spans ?sps = [] \<longleftrightarrow> es = []" by (metis length_0_conv)
    moreover have "buffer_ok (b'\<lparr>version := v\<rparr>) \<and> buffer_text (b'\<lparr>version := v\<rparr>) = buffer_text b'" for v
    proof -
      have "side_tree (b'\<lparr>version := v\<rparr>) side = side_tree b' side" for side by (cases side) (simp_all add: side_tree_def)
      then show ?thesis using b'(2) by (simp add: buffer_ok_def buffer_text_def)
    qed
    ultimately show ?thesis using None b' es(2) by (auto simp: apply_edits_def Let_def sort)
  qed
qed

section \<open>Ranges that wrap\<close>

lemma move_side_empty:
  assumes ok: "side_ok 0 a" and "e < s"
  shows "\<exists>a'. move_side a side s e t = Some a' \<and> side_ok (length t) a'"
proof (cases "t = []")
  case True
  then show ?thesis using assms by (simp add: move_side_def)
next
  case False
  have a: "anchors_ok a" using ok by (rule side_okD)
  then have nn: "nonneg (tree_items (entries a))" by (simp add: anchors_ok_def entries_ok_def)
  have "anchors_ok (shift a s (side = right) (int (length t))) \<and> positions (shift a s (side = right) (int (length t))) =
      map (\<lambda>(x, q). (x, move_where (passes s (side = right)) (int (length t)) q)) (positions a)"
    by (rule shift_positions [OF a]) (use nn in auto)
  moreover have "0 \<le> move_where p (int (length t)) q \<and> move_where p (int (length t)) q \<le> int (length t)"
    if "(x, q) \<in> set (positions a)" for x q p
    using side_okD(2) [OF ok that] by (auto simp: move_where_def)
  ultimately show ?thesis using False assms(2) by (fastforce simp: move_side_def side_ok_def)
qed

lemma buffer_replace_backward:
  assumes ok: "buffer_ok b" and "buffer_replace b s e t = Some b'" "e < s"
  shows "buffer_text b = [] \<and> buffer_ok b' \<and> version b' = version b"
proof -
  have root: "root (brope b) = None" using assms(2,3) by (auto simp: buffer_replace_def split: if_splits)
  then have empty: "rope_text (brope b) = []" by (simp add: rope_text_def tree_items_def)
  have "rope_replace (brope b) (nat s) (nat e) t = rope_replace (brope b) 0 0 t"
    using root by (simp add: rope_replace_def replace_in_chunk_def)
  then have rope: "rope_ok (rope_replace (brope b) (nat s) (nat e) t)" "rope_text (rope_replace (brope b) (nat s) (nat e) t) = t"
    using rope_replace_ok [of "brope b" 0 0 t] ok empty by (auto simp: buffer_ok_def)
  have sides: "side_ok 0 (lefts b)" "side_ok 0 (rights b)"
    using ok empty unfolding buffer_ok_def buffer_text_def by (metis bias.simps(3) list.size(3) side_tree_def bias.case)+
  obtain l r where lr: "move_side (lefts b) left s e t = Some l" "side_ok (length t) l"
    "move_side (rights b) right s e t = Some r" "side_ok (length t) r"
    using move_side_empty [OF sides(1) assms(3), of left t] move_side_empty [OF sides(2) assms(3), of right t] by blast
  then have b': "b' = b\<lparr>brope := rope_replace (brope b) (nat s) (nat e) t, lefts := l, rights := r\<rparr>"
    using assms(2,3) root by (auto simp: buffer_replace_def)
  have "side_ok (length t) (side_tree b' side)" for side using lr(2,4) by (cases side) (simp_all add: side_tree_def b')
  then show ?thesis using rope empty by (simp add: buffer_ok_def buffer_text_def b')
qed

lemma replace_spans_any:
  assumes ok: "buffer_ok b" and "\<forall>(s, e, i) \<in> set sps. 0 \<le> s \<and> e \<le> int (length (buffer_text b))"
    "sorted (map fst sps)" "overlap sps = None" "replace_spans b es sps = Some b'"
  shows "buffer_ok b' \<and> version b' = version b \<and>
    (\<forall>p. (\<forall>(s, e, i) \<in> set sps. p \<le> s) \<and> p \<le> int (length (buffer_text b)) \<longrightarrow> p \<le> int (length (buffer_text b')))"
  using assms(2-)
proof (induction sps arbitrary: b')
  case Nil
  then show ?case using ok by simp
next
  case (Cons sp sps)
  obtain s e i where sp: "sp = (s, e, i)" by (metis prod_cases3)
  obtain b1 where b1: "replace_spans b es sps = Some b1" "buffer_replace b1 s e (Text (es ! i)) = Some b'"
    using Cons.prems(4) by (auto simp: sp split: option.splits)
  have free: "overlap sps = None \<and> (\<forall>(s', e', i') \<in> set sps. e \<le> s')"
  proof (cases sps)
    case (Cons sp' sps')
    obtain s' e' i' where "sp' = (s', e', i')" by (metis prod_cases3)
    then show ?thesis using Cons Cons.prems(2,3) sp by (fastforce split: if_splits)
  qed simp
  have IH: "buffer_ok b1" "version b1 = version b"
    "\<And>p. \<lbrakk>\<forall>(s, e, i) \<in> set sps. p \<le> s; p \<le> int (length (buffer_text b))\<rbrakk> \<Longrightarrow> p \<le> int (length (buffer_text b1))"
    using Cons.IH [OF _ _ _ b1(1)] Cons.prems(1,2) free by auto
  have sr: "0 \<le> s" "e \<le> int (length (buffer_text b))" using Cons.prems(1) by (auto simp: sp)
  have e: "e \<le> int (length (buffer_text b1))" using IH(3) [of e] free sr(2) by blast
  have starts: "\<forall>(s', e', i') \<in> set sps. s \<le> s'" using Cons.prems(2) by (fastforce simp: sp)
  show ?case
  proof (cases "e < s")
    case True
    note B = buffer_replace_backward [OF IH(1) b1(2) True]
    have "p \<le> int (length (buffer_text b'))" if "p \<le> s" "p \<le> int (length (buffer_text b))" for p
    proof -
      have "\<forall>(s', e', i') \<in> set sps. p \<le> s'" using starts that(1) by fastforce
      then have "p \<le> int (length (buffer_text b1))" using IH(3) that(2) by blast
      then show ?thesis using B by simp
    qed
    then show ?thesis using B IH(2) by (auto simp: sp)
  next
    case False
    then obtain b2 where b2: "buffer_replace b1 s e (Text (es ! i)) = Some b2" "buffer_ok b2" "version b2 = version b1"
      "buffer_text b2 = take (nat s) (buffer_text b1) @ Text (es ! i) @ drop (nat e) (buffer_text b1)"
      using buffer_replace_ok [OF IH(1) sr(1) _ e, of "Text (es ! i)"] by auto
    then have "b' = b2" using b1(2) by simp
    moreover have "s \<le> int (length (buffer_text b2))" using b2(4) False e by simp
    ultimately show ?thesis using b2 IH(2) by (auto simp: sp)
  qed
qed

lemma apply_edits_keeps:
  assumes ok: "buffer_ok b" and ap: "apply_edits b es = Inr b'"
  shows "buffer_ok b'"
proof -
  obtain sps where sps: "edit_spans b es 0 = Inr sps" "overlap (sort_spans sps) = None"
    using ap by (auto simp: apply_edits_def Let_def split: sum.splits option.splits)
  then obtain b1 where b1: "replace_spans b es (sort_spans sps) = Some b1"
    "b' = (if sort_spans sps \<noteq> [] then b1\<lparr>version := version b1 + 1\<rparr> else b1)"
    using ap by (auto simp: apply_edits_def Let_def split: option.splits)
  have "buffer_ok b1"
    using replace_spans_any [OF ok _ sort_spans_starts sps(2) b1(1)] edit_spans_any [OF ok sps(1)] by simp
  moreover have "side_tree (b1\<lparr>version := v\<rparr>) side = side_tree b1 side" for v side by (cases side) (simp_all add: side_tree_def)
  ultimately show ?thesis using b1(2) by (simp add: buffer_ok_def buffer_text_def)
qed

end
