(* ===== verification/Text_Properties.thy ===== *)
theory Text_Properties
  imports Buffer_Edits
begin

text \<open>
  The properties of the text buffer: the tree and the rope refine lists, offsets and points
  convert back and forth, anchors move with edits, and a change is all or nothing.
\<close>

section \<open>Buffers that operations reach\<close>

inductive buffer_step :: "buffer \<Rightarrow> buffer \<Rightarrow> bool" where
  anchored: "length (keys (side_tree b side)) + 1 < 2 ^ 31 \<Longrightarrow> make_anchor b off side = Inr (b', h) \<Longrightarrow> buffer_step b b'"
| released: "release_anchor b h = Some b' \<Longrightarrow> buffer_step b b'"
| applied: "apply_edits b es = Inr b' \<Longrightarrow> buffer_step b b'"

inductive_cases buffer_stepE: "buffer_step b b'"

lemma release_keeps: "buffer_ok b \<Longrightarrow> release_anchor b h = Some b' \<Longrightarrow>
  buffer_ok b' \<and> buffer_text b' = buffer_text b \<and>
  (h \<noteq> startAnchor \<longrightarrow> (\<forall>k. resolve b' k = (if k = h then None else resolve b k)))"
proof -
  assume ok: "buffer_ok b" and r: "release_anchor b h = Some b'"
  show ?thesis
  proof (cases "h = startAnchor")
    case True
    then show ?thesis using ok r by (simp add: release_anchor_def)
  next
    case False
    let ?a = "side_tree b (anchor_side h)"
    have a: "anchors_ok ?a" using ok by (simp add: buffer_ok_def side_ok_def)
    obtain a' where a': "remove_slot ?a (anchor_slot h) = Some a'" "b' = set_side b (anchor_side h) a'"
      using r False by (auto simp: release_anchor_def)
    have "slot_key ?a (anchor_slot h) \<noteq> None" using a'(1) by (auto simp: remove_slot_def split: option.splits)
    then have "anchor_slot h \<in> set (map slot (tree_items (entries ?a)))"
      using slot_key_entry [of ?a "anchor_slot h"] a by (force simp: anchors_ok_def split: if_splits)
    then have "anchor_slot h \<in> set (map fst (positions ?a))" by (simp only: positions_def map_fst_placed)
    then have s: "anchor_slot h \<in> fst ` set (positions ?a)" by simp
    have new: "anchors_ok a'" "\<And>t. map_of (positions a') t = (if t = anchor_slot h then None else map_of (positions ?a) t)"
      using remove_slot_ok [OF a s] a'(1) by auto
    have range: "0 \<le> q \<and> q \<le> int (length (buffer_text b))" if "(t, q) \<in> set (positions a')" for t q
    proof -
      have "distinct (map fst (positions a'))" using slots_distinct [OF new(1)] by (simp only: positions_def map_fst_placed)
      then have "map_of (positions a') t = Some q" using that by (rule map_of_is_SomeI)
      then have "(t, q) \<in> set (positions ?a)" using new(2) [of t] by (auto split: if_splits dest: map_of_SomeD)
      moreover have "side_ok (length (buffer_text b)) ?a" using ok by (simp add: buffer_ok_def)
      ultimately show ?thesis using side_okD(2) by blast
    qed
    have same: "buffer_text b' = buffer_text b" by (simp add: a'(2) buffer_text_def)
    have ok': "buffer_ok b'" using ok new(1) range by (auto simp: buffer_ok_def a'(2) side_ok_def buffer_text_def)
    have "resolve b' k = (if k = h then None else resolve b k)" for k
      unfolding resolve_side [OF ok'] resolve_side [OF ok]
      using False handle_eq [of k h] by (auto simp: a'(2) new(2))
    then show ?thesis using ok' same by blast
  qed
qed

lemma buffer_step_ok: "buffer_step b b' \<Longrightarrow> buffer_ok b \<Longrightarrow> buffer_ok b'"
proof (induction rule: buffer_step.induct)
  case (anchored b side off b' h)
  then have "0 \<le> off" "off \<le> int (length (buffer_text b))"
    using rope_len_text [of "brope b"] by (auto simp: make_anchor_def buffer_ok_def buffer_text_def split: if_splits)
  then show ?case using make_anchor_ok [of b off side] anchored by auto
next
  case (applied b es b')
  then show ?case using apply_edits_keeps by blast
qed (use release_keeps in blast)

lemma reachable_buffer_ok: "buffer_step\<^sup>*\<^sup>* (new_buffer t) b \<Longrightarrow> buffer_ok b"
  by (induction rule: rtranclp_induct) (auto simp: new_buffer_ok intro: buffer_step_ok)

section \<open>Concrete buffers\<close>

definition demo_text :: "byte list" where
  "demo_text = [97, 98, 10, 99, 100]"

definition demo_buffer :: buffer where
  "demo_buffer = new_buffer demo_text"

lemma demo_rope: "rope_ok (new_rope demo_text)" "rope_text (new_rope demo_text) = demo_text"
  using new_rope_ok [of demo_text] by auto

lemma demo_buffer_ok: "buffer_ok demo_buffer" "buffer_text demo_buffer = demo_text"
  using new_buffer_ok [of demo_text] by (auto simp: demo_buffer_def)

lemma demo_root: "root (new_rope demo_text) = Some (Leaf [chunk_of demo_text])"
  by code_simp

section \<open>Properties\<close>

text \<open>
  C31. A splice of the tree is a splice of the list of its items, and it keeps the tree
  balanced with every stored sum and count right, whatever the monoid.
\<close>

theorem splice_refines_list:
  assumes "tree_ok m t" "lo \<le> hi" "hi \<le> length (tree_items t)"
  shows "tree_items (splice m t lo hi repl) = take lo (tree_items t) @ repl @ drop hi (tree_items t) \<and>
    tree_ok m (splice m t lo hi repl)"
  using splice_ok [OF assms] by blast

theorem splice_refines_list_witness:
  "tree_items (splice text_summary (new_tree text_summary [chunk_of [1], chunk_of [2]]) 1 2 [chunk_of [3]]) =
    [chunk_of [1], chunk_of [3]]"
  using splice_refines_list [of text_summary "new_tree text_summary [chunk_of [1], chunk_of [2]]" 1 2 "[chunk_of [3]]"]
    new_tree_ok [of text_summary "[chunk_of [1], chunk_of [2]]"] by simp

text \<open>
  C32. Replacing a range of the rope, in one chunk or across several, replaces it in the
  text.
\<close>

theorem rope_replace_refines_text:
  assumes "rope_ok r" "s \<le> e" "e \<le> length (rope_text r)"
  shows "rope_text (rope_replace r s e b) = take s (rope_text r) @ b @ drop e (rope_text r)"
  using rope_replace_ok [OF assms] by blast

theorem rope_replace_refines_text_witness:
  "rope_text (rope_replace (new_rope demo_text) 1 3 [120]) = [97, 120, 99, 100]"
  using rope_replace_refines_text [of "new_rope demo_text" 1 3 "[120]"] by (simp add: demo_rope) (simp add: demo_text_def)

text \<open>
  C33. In every buffer that operations reach, each chunk holds one to 128 bytes with its rows
  and last column counted exactly, no chunk but a lone one holds fewer than 32, and every
  anchor resolves inside the text, at 0 when there is none left.
\<close>

theorem buffers_stay_well_formed:
  assumes "buffer_step\<^sup>*\<^sup>* (new_buffer t) b"
  shows "list_all (\<lambda>c. 1 \<le> length (cbytes c) \<and> length (cbytes c) \<le> 128 \<and>
      (tcount (brope b) = 1 \<or> 32 \<le> length (cbytes c)) \<and>
      crows c = count_nl (cbytes c) \<and> ccol c = after_nl (cbytes c)) (tree_items (brope b)) \<and>
    (case resolve b a of None \<Rightarrow> True | Some p \<Rightarrow> 0 \<le> p \<and> p \<le> int (rope_len (brope b)))"
proof (intro conjI)
  have b: "buffer_ok b" using reachable_buffer_ok [OF assms(1)] .
  then have r: "rope_ok (brope b)" by (simp add: buffer_ok_def)
  have count: "tcount (brope b) = length (tree_items (brope b))" using r tree_count by (auto simp: rope_ok_def)
  have "1 \<le> length (cbytes c) \<and> length (cbytes c) \<le> 128 \<and> (tcount (brope b) = 1 \<or> 32 \<le> length (cbytes c)) \<and>
      crows c = count_nl (cbytes c) \<and> ccol c = after_nl (cbytes c)" if c': "c \<in> set (tree_items (brope b))" for c
  proof -
    have c: "chunk_ok c" using r c' by (simp add: rope_ok_def)
    have "tcount (brope b) = 1 \<or> 32 \<le> length (cbytes c)"
      using r c' count by (cases "tree_items (brope b)") (auto simp: rope_ok_def roomy_def chunkMin_def chunkCap_def)
    moreover have "crows c = count_nl (cbytes c)" "ccol c = after_nl (cbytes c)"
      using measure_chunk_ok [OF c] by (auto simp: measure_chunk_def measure_text_def)
    ultimately show ?thesis using c by (auto simp: chunk_ok_def chunkCap_def Suc_le_eq)
  qed
  then show "list_all (\<lambda>c. 1 \<le> length (cbytes c) \<and> length (cbytes c) \<le> 128 \<and>
      (tcount (brope b) = 1 \<or> 32 \<le> length (cbytes c)) \<and>
      crows c = count_nl (cbytes c) \<and> ccol c = after_nl (cbytes c)) (tree_items (brope b))"
    unfolding list_all_iff by blast
  show "case resolve b a of None \<Rightarrow> True | Some p \<Rightarrow> 0 \<le> p \<and> p \<le> int (rope_len (brope b))"
    using resolve_range [OF b, of a] rope_len_text [OF r] by (auto simp: buffer_text_def split: option.splits)
qed

definition anchored_demo :: buffer where
  "anchored_demo = (case make_anchor demo_buffer 3 right of Inr (b, _) \<Rightarrow> b | Inl _ \<Rightarrow> demo_buffer)"

definition emptied_demo :: buffer where
  "emptied_demo =
     (case apply_edits anchored_demo [\<lparr>Anchor = startAnchor, Offset = 0, Delete = 5, Text = []\<rparr>] of Inr b \<Rightarrow> b | Inl _ \<Rightarrow> demo_buffer)"

lemma emptied_demo_reached: "buffer_step\<^sup>*\<^sup>* (new_buffer demo_text) emptied_demo"
proof -
  have "make_anchor demo_buffer 3 right = Inr (anchored_demo, 0x80000001)" by code_simp
  moreover have "length (keys (side_tree demo_buffer right)) + 1 < 2 ^ 31"
    by (simp add: demo_buffer_def new_buffer_def side_tree_def new_anchor_tree_def)
  ultimately have "buffer_step (new_buffer demo_text) anchored_demo"
    using buffer_step.anchored by (simp add: demo_buffer_def)
  moreover have "apply_edits anchored_demo [\<lparr>Anchor = startAnchor, Offset = 0, Delete = 5, Text = []\<rparr>] = Inr emptied_demo"
    by code_simp
  then have "buffer_step anchored_demo emptied_demo" by (rule buffer_step.applied)
  ultimately show ?thesis by simp
qed

text \<open>The anchor made at 3 is at 0 once the whole text is deleted.\<close>

theorem buffers_stay_well_formed_witness:
  "resolve emptied_demo 0x80000001 = Some 0"
proof -
  have "rope_len (brope emptied_demo) = 0" "resolve emptied_demo 0x80000001 \<noteq> None" by code_simp+
  then show ?thesis using buffers_stay_well_formed [OF emptied_demo_reached, of "0x80000001"] by auto
qed

text \<open>
  Slicing answers exactly the bytes of the range, and the range error exactly when the
  range is not one of the text.
\<close>

theorem rope_slice_exact:
  assumes "rope_ok r"
  shows "rope_slice r start stop =
    (if 0 \<le> start \<and> start \<le> stop \<and> stop \<le> int (length (rope_text r))
     then Inr (drop (nat start) (take (nat stop) (rope_text r))) else Inl ErrRange)"
  using rope_slice_text [OF assms] .

theorem rope_slice_exact_witness:
  "rope_slice (new_rope demo_text) 1 4 = Inr [98, 10, 99] \<and> rope_slice (new_rope demo_text) 3 6 = Inl ErrRange"
  using rope_slice_exact [OF demo_rope(1), of 1 4] rope_slice_exact [OF demo_rope(1), of 3 6]
  by (simp add: demo_rope(2)) (simp add: demo_text_def)



text \<open>
  Where the sum of a chunk's offset wraps, the offset it wants is negative and no error: the
  column after the newline of a text of two lines, as far as an int goes.
\<close>

theorem huge_column_panics:
  "rope_offset (new_rope demo_text) 1 (2 ^ 63 - 1) = Some (Inl ErrRange)"
  "rope_offset (new_rope [97, 10, 98, 10]) 1 (2 ^ 63 - 1) = Some (Inl SliceBounds)"
  by code_simp+

text \<open>
  A descent fits the fixed arrays of its path: over any text under 2^45 bytes it records
  at most thirteen slots, one more than maxHeight.
\<close>

theorem descent_fits_its_path:
  assumes "rope_ok r" "root r = Some n" "off \<le> length (rope_text r)" "length (rope_text r) < 2 ^ 45"
    "descend n off 0 0 = (slots, i, st)"
  shows "length slots \<le> maxHeight + 1"
proof -
  obtain h where h: "rnode_ok h n" "tree_items r = items_of n" using rope_root [OF assms(1,2)] .
  have len: "length slots = Suc h"
    using descend_depth [OF h(1) _ _ assms(5)] assms(3) h(2) by (simp add: rope_text_def)
  have "h \<le> 12"
  proof (rule ccontr)
    assume "\<not> h \<le> 12"
    then obtain k where k: "h = Suc k" "12 \<le> k" by (cases h) auto
    have "node_height n = Suc k" using h(1) k(1) by (cases n) (auto simp: rnode_ok_def)
    from rope_height_text [OF assms(1,2) this] have "64 * 8 ^ Suc k \<le> length (rope_text r)" .
    moreover have "(8::nat) ^ 13 \<le> 8 ^ Suc k" using k(2) by (intro power_increasing) simp_all
    ultimately show False using assms(4) by simp
  qed
  then show ?thesis using len by (simp add: maxHeight_def)
qed

theorem descent_fits_its_path_witness:
  "length (fst (descend (Leaf [chunk_of demo_text]) 2 0 0)) \<le> maxHeight + 1"
proof -
  obtain slots i st where d: "descend (Leaf [chunk_of demo_text]) 2 0 0 = (slots, i, st)" by (metis prod_cases3)
  have "2 \<le> length (rope_text (new_rope demo_text))" "length (rope_text (new_rope demo_text)) < 2 ^ 45"
    by (simp_all add: demo_rope(2)) (simp_all add: demo_text_def)
  from descent_fits_its_path [OF demo_rope(1) demo_root this d] show ?thesis by (simp add: d)
qed

text \<open>
  C35. A replacement moves every anchor by one rule: before the range it stays, inside it
  goes to the range's start, at the start of new text it keeps to its bias's side, and after
  it moves by the difference in length.
\<close>

theorem replacement_moves_anchors:
  assumes "buffer_ok b" "0 \<le> s" "s \<le> e" "e \<le> int (length (buffer_text b))" "a \<noteq> startAnchor" "resolve b a = Some q"
  shows "\<exists>b'. buffer_replace b s e t = Some b' \<and>
    buffer_text b' = take (nat s) (buffer_text b) @ t @ drop (nat e) (buffer_text b) \<and>
    resolve b' a = Some (if q < s then q
      else if q = s \<or> q \<le> e then (if anchor_side a = right then s + int (length t) else s)
      else q - (e - s) + int (length t))"
proof -
  have "moved (anchor_side a) s e (int (length t)) q = (if q < s then q
      else if q = s \<or> q \<le> e then (if anchor_side a = right then s + int (length t) else s)
      else q - (e - s) + int (length t))" using assms(3) by (auto simp: moved_def)
  then show ?thesis using replace_resolve [OF assms(1-5), of t] assms(6) by auto
qed

text \<open>
  Creating an anchor returns, with at most one relabelling, a handle that resolves to the
  offset asked for, that no live anchor has, and that leaves every other anchor where it was.
\<close>

theorem new_anchor_returns:
  assumes "buffer_ok b" "0 \<le> off" "off \<le> int (length (buffer_text b))" "length (keys (side_tree b side)) + 1 < 2 ^ 31"
  shows "\<exists>b' h. make_anchor b off side = Inr (b', h) \<and> resolve b h = None \<and> resolve b' h = Some off \<and>
    (\<forall>k. k \<noteq> h \<longrightarrow> resolve b' k = resolve b k)"
  using make_anchor_ok [OF assms] by force

lemma demo_anchor:
  obtains b h where "buffer_ok b" "buffer_text b = demo_text" "h \<noteq> startAnchor" "anchor_side h = right" "resolve b h = Some 3"
proof -
  have "length (keys (side_tree demo_buffer right)) + 1 < 2 ^ 31"
    by (simp add: demo_buffer_def new_buffer_def side_tree_def new_anchor_tree_def)
  from make_anchor_ok [OF demo_buffer_ok(1) _ _ this, of 3] show thesis
    using that demo_buffer_ok(2) by (fastforce simp: demo_text_def)
qed

theorem replacement_moves_anchors_witness:
  "\<exists>b b' a. resolve b a = Some 3 \<and> buffer_replace b 1 4 [120] = Some b' \<and> resolve b' a = Some 2"
proof -
  obtain b h where b: "buffer_ok b" "buffer_text b = demo_text" "h \<noteq> startAnchor" "anchor_side h = right" "resolve b h = Some 3"
    by (rule demo_anchor)
  from replacement_moves_anchors [OF b(1) _ _ _ b(3,5), of 1 4 "[120]"] b show ?thesis by (auto simp: demo_text_def)
qed

theorem new_anchor_returns_witness:
  "\<exists>b' h. make_anchor demo_buffer 2 left = Inr (b', h) \<and> resolve b' h = Some 2"
proof -
  have "length (keys (side_tree demo_buffer left)) + 1 < 2 ^ 31"
    by (simp add: demo_buffer_def new_buffer_def side_tree_def new_anchor_tree_def)
  from new_anchor_returns [OF demo_buffer_ok(1) _ _ this, of 2] demo_buffer_ok(2) show ?thesis by (auto simp: demo_text_def)
qed

text \<open>
  C36. Apply is all or nothing, and each of its answers is right, for edits whose sums stay in
  Go's int. It succeeds only when every anchor is live, every range is one of the text and no
  two overlap; then the text is the old one with all the ranges replaced at once, those of one
  place in the order of the arguments, and the version one higher unless there were no edits. It
  panics on the first edit of a released anchor, names the first edit whose range is not one of
  the text, or names two edits whose ranges overlap.
\<close>

theorem apply_replaces_all_ranges:
  assumes "buffer_ok b" "length (buffer_text b) < 2 ^ 63" "list_all (no_overflow b) es"
  shows "case apply_edits b es of
      Inr b' \<Rightarrow> list_all (edit_ok b) es \<and> sorted_wrt (edits_apart b) es \<and>
        version b' = version b + (if es = [] then 0 else 1) \<and>
        buffer_text b' = spliced (buffer_text b) 0 (span_texts es (sort_key span_key (edit_order b es 0)))
    | Inl (ErrOverlap i j) \<Rightarrow> list_all (edit_ok b) es \<and> i < length es \<and> j < length es \<and> i \<noteq> j \<and>
        \<not> edits_apart b (es ! i) (es ! j)
    | Inl err \<Rightarrow> \<exists>k < length es. list_all (edit_ok b) (take k es) \<and> \<not> edit_ok b (es ! k) \<and>
        err = (if resolve b (Anchor (es ! k)) = None then Panicked else ErrEdit k)"
proof (cases "list_all (edit_ok b) es")
  case True
  with edit_spans_cases [OF assms(1,3), of 0] have "edit_spans b es 0 = Inr (edit_order b es 0)" by simp
  from apply_edits_order [OF assms(1,2) True this] True show ?thesis
    by (cases "apply_edits b es") auto
next
  case False
  with edit_spans_cases [OF assms(1,3), of 0] obtain k where k: "k < length es" "list_all (edit_ok b) (take k es)"
    "\<not> edit_ok b (es ! k)" "edit_spans b es 0 = Inl (if resolve b (Anchor (es ! k)) = None then Panicked else ErrEdit k)"
    by auto
  then have "apply_edits b es = Inl (if resolve b (Anchor (es ! k)) = None then Panicked else ErrEdit k)"
    by (simp add: apply_edits_def)
  with k show ?thesis by auto
qed

theorem apply_replaces_all_ranges_witness:
  "\<exists>b'. apply_edits demo_buffer [\<lparr>Anchor = startAnchor, Offset = 3, Delete = 0, Text = [121]\<rparr>,
      \<lparr>Anchor = startAnchor, Offset = 1, Delete = 2, Text = [120]\<rparr>] = Inr b' \<and>
    version b' = version demo_buffer + 1 \<and> buffer_text b' = [97, 120, 121, 99, 100]"
proof -
  let ?x = "\<lparr>Anchor = startAnchor, Offset = 3, Delete = 0, Text = [121]\<rparr>"
  let ?y = "\<lparr>Anchor = startAnchor, Offset = 1, Delete = 2, Text = [120]\<rparr>"
  have r: "edit_range demo_buffer ?x = Some (3, 3)" "edit_range demo_buffer ?y = Some (1, 3)"
    by (simp_all add: edit_range_def resolve_def)
  have len: "length (buffer_text demo_buffer) = 5" by (simp add: demo_buffer_ok(2)) (simp add: demo_text_def)
  then have ok: "edit_ok demo_buffer ?x" "edit_ok demo_buffer ?y" by (simp_all add: edit_ok_def r)
  have sp: "sort_key span_key (edit_order demo_buffer [?x, ?y] 0) = [(1, 3, 1), (3, 3, 0)]"
    by (simp add: edit_span_def r span_key_def)
  have "length (buffer_text demo_buffer) < 2 ^ 63" "list_all (no_overflow demo_buffer) [?x, ?y]"
    using len by (simp_all add: no_overflow_def r)
  note A = apply_replaces_all_ranges [OF demo_buffer_ok(1) this]
  show ?thesis
  proof (cases "apply_edits demo_buffer [?x, ?y]")
    case (Inr b')
    then show ?thesis using A unfolding sp
      by (simp add: demo_buffer_ok(2) span_texts_def) (simp add: demo_text_def)
  next
    case (Inl err)
    have "edits_apart demo_buffer ?x ?y" "edits_apart demo_buffer ?y ?x" by (simp_all add: edits_apart_def r)
    moreover have "edit_ok demo_buffer ([?x, ?y] ! k)" if "k < 2" for k
      using ok that by (auto simp: less_2_cases_iff)
    ultimately show ?thesis using A Inl by (cases err) (auto simp: less_2_cases_iff numeral_2_eq_2 [symmetric])
  qed
qed

text \<open>
  Where the sum of an edit's end wraps, the end is negative and the range check passes: an edit
  that deletes as far as an int goes panics, and on an empty text it inserts past the end.
\<close>

theorem huge_delete_panics:
  "apply_edits demo_buffer [\<lparr>Anchor = startAnchor, Offset = 1, Delete = 2 ^ 63 - 1, Text = []\<rparr>] = Inl Panicked"
  "case apply_edits (new_buffer []) [\<lparr>Anchor = startAnchor, Offset = 1, Delete = 2 ^ 63 - 1, Text = [120]\<rparr>] of
     Inl _ \<Rightarrow> False | Inr b' \<Rightarrow> rope_string (brope b') = [120]"
  by code_simp+

end
