(* ===== verification/Line_Match.thy ===== *)
theory Line_Match
  imports Magus_Prelude
begin

text \<open>
  Which lines two texts keep, \<open>src/internal/textbuf/diff.go\<close> from matchLines down: the lines
  that occur once on each side are matched as in patience diff, on a longest increasing run,
  and Myers' search fills the gaps between them. Lines are the numbers that intern gave
  them; a match is a pair of indices. Loop counters that stay natural are naturals; the
  search's columns and diagonals are integers, as in the code.
\<close>

definition maxDiffEdits :: nat where
  "maxDiffEdits = 4096"

type_synonym pairs = "(nat \<times> nat) list"

section \<open>Common ends\<close>

fun commonPrefix :: "'a list \<Rightarrow> 'a list \<Rightarrow> nat" where
  "commonPrefix (x # xs) (y # ys) = (if x = y then Suc (commonPrefix xs ys) else 0)"
| "commonPrefix _ _ = 0"

definition commonSuffix :: "'a list \<Rightarrow> 'a list \<Rightarrow> nat" where
  "commonSuffix a b = commonPrefix (rev a) (rev b)"

section \<open>Myers\<close>

text \<open>
  The end of the run of equal lines along a diagonal, by its column. The row is the column
  less the diagonal; diag_rows shows it is never negative, where the code would panic.
\<close>

function follow :: "'a list \<Rightarrow> 'a list \<Rightarrow> int \<Rightarrow> int \<Rightarrow> int" where
  "follow a b x y =
     (if x < int (length a) \<and> y < int (length b) \<and> a ! nat x = b ! nat y then follow a b (x + 1) (y + 1) else x)"
  by pat_completeness auto
termination
  by (relation "measure (\<lambda>(a, b, x, y). nat (int (length a) - x))") auto

declare follow.simps [simp del]

text \<open>Where diagonal k continues in round d: down from k + 1 or across from k - 1, whichever is further.\<close>

definition goes_down :: "int list \<Rightarrow> int \<Rightarrow> int \<Rightarrow> int \<Rightarrow> bool" where
  "goes_down v off d k \<longleftrightarrow> k = - d \<or> (k \<noteq> d \<and> v ! nat (off + k - 1) < v ! nat (off + k + 1))"

definition reach_on :: "'a list \<Rightarrow> 'a list \<Rightarrow> nat \<Rightarrow> nat \<Rightarrow> int list \<Rightarrow> int \<Rightarrow> int" where
  "reach_on a b off d v k =
     (let x = (if goes_down v (int off) (int d) k then v ! nat (int off + k + 1) else v ! nat (int off + k - 1) + 1)
      in follow a b x (x - k))"

fun diag_loop :: "'a list \<Rightarrow> 'a list \<Rightarrow> nat \<Rightarrow> nat \<Rightarrow> int list \<Rightarrow> int list \<Rightarrow> int list \<times> bool" where
  "diag_loop a b off d [] v = (v, False)"
| "diag_loop a b off d (k # ks) v =
     (let x = reach_on a b off d v k; v' = v[nat (int off + k) := x]
      in if x \<ge> int (length a) \<and> x - k \<ge> int (length b) then (v', True) else diag_loop a b off d ks v')"

definition diagonals :: "nat \<Rightarrow> int list" where
  "diagonals d = map (\<lambda>i. 2 * int i - int d) [0..<Suc d]"

text \<open>Back along a diagonal to the point it was entered from.\<close>

function diag_back :: "int \<Rightarrow> int \<Rightarrow> int \<Rightarrow> int \<Rightarrow> pairs \<Rightarrow> int \<times> int \<times> pairs" where
  "diag_back px py x y ps =
     (if x > px \<and> y > py then diag_back px py (x - 1) (y - 1) (ps @ [(nat (x - 1), nat (y - 1))]) else (x, y, ps))"
  by pat_completeness auto
termination
  by (relation "measure (\<lambda>(px, py, x, y, ps). nat (x - px))") auto

declare diag_back.simps [simp del]

primrec back_rounds :: "int list list \<Rightarrow> nat \<Rightarrow> int \<Rightarrow> int \<Rightarrow> pairs \<Rightarrow> int \<times> int \<times> pairs" where
  "back_rounds trace 0 x y ps = (x, y, ps)"
| "back_rounds trace (Suc d0) x y ps =
     (let d = int (Suc d0); v = trace ! Suc d0; k = x - y;
          prev = (if goes_down v d d k then k + 1 else k - 1);
          px = v ! nat (prev + d); py = px - prev
      in back_rounds trace d0 px py (snd (snd (diag_back px py x y ps))))"

definition backtrack :: "int list list \<Rightarrow> nat \<Rightarrow> nat \<Rightarrow> pairs" where
  "backtrack trace n m =
     (case back_rounds trace (length trace - 1) (int n) (int m) [] of
        (x, y, ps) \<Rightarrow> rev (snd (snd (diag_back 0 0 x y ps))))"

function myers_loop :: "'a list \<Rightarrow> 'a list \<Rightarrow> nat \<Rightarrow> nat \<Rightarrow> int list \<Rightarrow> int list list \<Rightarrow> pairs option" where
  "myers_loop a b limit d v trace =
     (if d \<le> limit
      then
        let off = limit + 1;
            trace' = trace @ [take (2 * d + 1) (drop (off - d) v)]
        in case diag_loop a b off d (diagonals d) v of
             (v', hit) \<Rightarrow>
               if hit then Some (backtrack trace' (length a) (length b))
               else myers_loop a b limit (Suc d) v' trace'
      else None)"
  by pat_completeness auto
termination
  by (relation "measure (\<lambda>(a, b, limit, d, v, trace). Suc limit - d)") auto

declare myers_loop.simps [simp del]

text \<open>
  The search within a bound; None is the code's false, past it. \<open>src/types/hunks.go\<close> has the
  same search over strings with a bound of its own.
\<close>

definition myers_within :: "nat \<Rightarrow> 'a list \<Rightarrow> 'a list \<Rightarrow> pairs option" where
  "myers_within bound a b =
     (let limit = min (length a + length b) bound
      in myers_loop a b limit 0 (replicate (2 * limit + 3) 0) [])"

definition myers :: "nat list \<Rightarrow> nat list \<Rightarrow> pairs option" where
  "myers a b = myers_within maxDiffEdits a b"

section \<open>Filling a gap\<close>

definition fillMiddle :: "nat list \<Rightarrow> nat list \<Rightarrow> pairs" where
  "fillMiddle am bm =
     (if am = [] \<or> bm = [] then []
      else if length am = 1 then (case index_func (\<lambda>z. z = am ! 0) bm of None \<Rightarrow> [] | Some j \<Rightarrow> [(0, j)])
      else if length bm = 1 then (case index_func (\<lambda>z. z = bm ! 0) am of None \<Rightarrow> [] | Some i \<Rightarrow> [(i, 0)])
      else (case myers am bm of None \<Rightarrow> [] | Some mid \<Rightarrow> mid))"

definition fillGap :: "pairs \<Rightarrow> nat list \<Rightarrow> nat list \<Rightarrow> nat \<Rightarrow> nat \<Rightarrow> pairs" where
  "fillGap out a b x0 y0 =
     (let c = commonPrefix (drop x0 a) (drop y0 b);
          x = x0 + c; y = y0 + c;
          s = commonSuffix (drop x a) (drop y b);
          am = take (length a - s - x) (drop x a); bm = take (length b - s - y) (drop y b)
      in out @ map (\<lambda>i. (x0 + i, y0 + i)) [0..<c]
           @ map (\<lambda>(i, j). (x + i, y + j)) (fillMiddle am bm)
           @ map (\<lambda>i. (length a - i, length b - i)) (rev [1..<Suc s]))"

section \<open>The longest increasing run\<close>

text \<open>\<open>slices.BinarySearchFunc\<close>: the first position where the test no longer holds, for a test that holds on a prefix.\<close>

function search_first :: "(nat \<Rightarrow> bool) \<Rightarrow> nat \<Rightarrow> nat \<Rightarrow> nat" where
  "search_first p i j =
     (if i < j then (let h = (i + j) div 2 in if p h then search_first p (h + 1) j else search_first p i h) else i)"
  by pat_completeness auto
termination
  by (relation "measure (\<lambda>(p, i, j). j - i)") auto

declare search_first.simps [simp del]

text \<open>The state of the loop: the last index of the best run of each length, and the run's index before each.\<close>

definition run_step :: "pairs \<Rightarrow> nat list \<times> int list \<Rightarrow> nat \<Rightarrow> nat list \<times> int list" where
  "run_step ps st i =
     (case st of (tails, prev) \<Rightarrow>
        let k = search_first (\<lambda>h. snd (ps ! (tails ! h)) < snd (ps ! i)) 0 (length tails);
            prev' = prev[i := (if k > 0 then int (tails ! (k - 1)) else - 1)]
        in if k = length tails then (tails @ [i], prev') else (tails[k := i], prev'))"

primrec chase :: "pairs \<Rightarrow> int list \<Rightarrow> nat \<Rightarrow> int \<Rightarrow> pairs \<Rightarrow> pairs" where
  "chase ps prev 0 k acc = acc"
| "chase ps prev (Suc n) k acc = chase ps prev n (prev ! nat k) (ps ! nat k # acc)"

definition increasing :: "pairs \<Rightarrow> pairs" where
  "increasing ps =
     (case foldl (run_step ps) ([], replicate (length ps) 0) [0..<length ps] of
        (tails, prev) \<Rightarrow> chase ps prev (length tails) (if tails \<noteq> [] then int (last tails) else - 1) [])"

section \<open>Matching lines\<close>

definition count_lines :: "nat \<Rightarrow> nat list \<Rightarrow> nat list" where
  "count_lines ids a = foldl (\<lambda>c i. c[i := c ! i + 1]) (replicate ids 0) a"

definition last_places :: "nat \<Rightarrow> nat list \<Rightarrow> nat list" where
  "last_places ids b = foldl (\<lambda>c (j, i). c[i := j]) (replicate ids 0) (enumerate 0 b)"

definition unique_pairs :: "nat list \<Rightarrow> nat list \<Rightarrow> nat \<Rightarrow> pairs" where
  "unique_pairs a b ids =
     (let inA = count_lines ids a; inB = count_lines ids b; posB = last_places ids b
      in map (\<lambda>(i, z). (i, posB ! z)) (filter (\<lambda>(i, z). inA ! z = 1 \<and> inB ! z = 1) (enumerate 0 a)))"

fun fill_gaps :: "nat list \<Rightarrow> nat list \<Rightarrow> nat \<Rightarrow> nat \<Rightarrow> pairs \<Rightarrow> pairs \<Rightarrow> pairs" where
  "fill_gaps a b x y [] out = out"
| "fill_gaps a b x y ((p, q) # ps) out =
     fill_gaps a b (Suc p) (Suc q) ps
       (fillGap out (take p a) (take q b) x y @ (if p < length a then [(p, q)] else []))"

definition matchLines :: "nat list \<Rightarrow> nat list \<Rightarrow> nat \<Rightarrow> pairs" where
  "matchLines a b ids = fill_gaps a b 0 0 (increasing (unique_pairs a b ids) @ [(length a, length b)]) []"

end
