(* ===== verification/Line_Diff.thy ===== *)
theory Line_Diff
  imports Text_Buffer Line_Match
begin

text \<open>
  Replacing the text by a line diff, \<open>src/internal/textbuf/diff.go\<close> down to intern: the
  texts lose their common ends, their lines are numbered through a table of hashes, the
  lines that neither keeps become hunks, and each hunk is trimmed to the bytes that differ.
  The seeded hash of \<open>hash/maphash\<close> is a parameter: any function of the line's bytes.
\<close>

section \<open>Trimming a hunk\<close>

record hunk =
  a_from :: nat
  a_to :: nat
  b_from :: nat
  b_to :: nat

text \<open>\<open>utf8.RuneStart\<close>: not a continuation byte.\<close>

definition rune_start :: "byte \<Rightarrow> bool" where
  "rune_start c \<longleftrightarrow> c AND 0xC0 \<noteq> 0x80"

text \<open>A count that steps back while a test holds.\<close>

fun back_off :: "(nat \<Rightarrow> bool) \<Rightarrow> nat \<Rightarrow> nat" where
  "back_off p 0 = 0"
| "back_off p (Suc n) = (if p (Suc n) then back_off p n else Suc n)"

definition trim :: "byte list \<Rightarrow> byte list \<Rightarrow> nat \<times> nat \<times> byte list" where
  "trim a b =
     (let p = back_off (\<lambda>p. p < length a \<and> \<not> rune_start (a ! p) \<or> p < length b \<and> \<not> rune_start (b ! p)) (commonPrefix a b);
          s = back_off (\<lambda>s. \<not> rune_start (a ! (length a - s))) (commonSuffix (drop p a) (drop p b))
      in (p, length a - s, drop p (take (length b - s) b)))"

section \<open>Lines\<close>

function splitLines :: "byte list \<Rightarrow> byte list list" where
  "splitLines b =
     (if b = [] then []
      else
        let i = (case index_func (\<lambda>c. c = nl) b of None \<Rightarrow> length b | Some k \<Rightarrow> k + 1)
        in take i b # splitLines (drop i b))"
  by pat_completeness auto
termination
  by (relation "measure length") (auto split: option.splits)

declare splitLines.simps [simp del]

fun lineOffsets :: "nat \<Rightarrow> byte list list \<Rightarrow> nat list" where
  "lineOffsets base [] = [base]"
| "lineOffsets base (l # ls) = base # lineOffsets (base + length l) ls"

section \<open>Numbering lines\<close>

record interner =
  itable :: "nat list"   \<comment> \<open>id + 1, 0 when empty\<close>
  reps :: "byte list list"
  hashes :: "64 word list"

function table_size :: "nat \<Rightarrow> nat \<Rightarrow> nat" where
  "table_size n s = (if 0 < s \<and> s < n then table_size n (2 * s) else s)"
  by pat_completeness auto
termination
  by (relation "measure (\<lambda>(n, s). n - s)") auto

declare table_size.simps [simp del]

text \<open>
  The slot of a line: the one that holds its number, or the empty one where it goes. The
  fuel is the number of slots: a probe that has seen them all goes round for ever, which is
  the answer None.
\<close>

fun probe :: "interner \<Rightarrow> 64 word \<Rightarrow> byte list \<Rightarrow> 64 word \<Rightarrow> nat \<Rightarrow> 64 word option" where
  "probe st h l s 0 = None"
| "probe st h l s (Suc fuel) =
     (let i = itable st ! unat s
      in if i = 0 then Some s
         else if hashes st ! (i - 1) \<noteq> h \<or> reps st ! (i - 1) \<noteq> l
         then probe st h l ((s + 1) AND of_nat (length (itable st) - 1)) fuel
         else Some s)"

definition number_line :: "(byte list \<Rightarrow> 64 word) \<Rightarrow> interner \<Rightarrow> byte list \<Rightarrow> (interner \<times> nat) option" where
  "number_line hash st l =
     (let h = hash l; n = length (itable st)
      in case probe st h l (h AND of_nat (n - 1)) n of
           None \<Rightarrow> None
         | Some s \<Rightarrow>
             if itable st ! unat s = 0
             then Some (\<lparr>itable = (itable st)[unat s := length (reps st) + 1], reps = reps st @ [l], hashes = hashes st @ [h]\<rparr>,
                        length (reps st))
             else Some (st, itable st ! unat s - 1))"

fun number_lines :: "(byte list \<Rightarrow> 64 word) \<Rightarrow> interner \<Rightarrow> byte list list \<Rightarrow> (interner \<times> nat list) option" where
  "number_lines hash st [] = Some (st, [])"
| "number_lines hash st (l # ls) =
     (case number_line hash st l of
        None \<Rightarrow> None
      | Some (st1, i) \<Rightarrow> map_option (\<lambda>(st2, is). (st2, i # is)) (number_lines hash st1 ls))"

definition intern :: "(byte list \<Rightarrow> 64 word) \<Rightarrow> byte list list \<Rightarrow> byte list list \<Rightarrow> (nat list \<times> nat list \<times> nat) option" where
  "intern hash a b =
     (let size = table_size (2 * (length a + length b)) 1
      in case number_lines hash \<lparr>itable = replicate size 0, reps = [], hashes = []\<rparr> a of
           None \<Rightarrow> None
         | Some (st, ai) \<Rightarrow> map_option (\<lambda>(st', bi). (ai, bi, length (reps st'))) (number_lines hash st b))"

section \<open>Hunks\<close>

fun hunks_between :: "nat list \<Rightarrow> nat list \<Rightarrow> nat \<Rightarrow> nat \<Rightarrow> pairs \<Rightarrow> hunk list" where
  "hunks_between aoff boff x y [] = []"
| "hunks_between aoff boff x y ((p, q) # ms) =
     (if p > x \<or> q > y then [\<lparr>a_from = aoff ! x, a_to = aoff ! p, b_from = boff ! y, b_to = boff ! q\<rparr>] else []) @
     hunks_between aoff boff (Suc p) (Suc q) ms"

definition common_head :: "byte list \<Rightarrow> byte list \<Rightarrow> nat" where
  "common_head a b = (let pre = commonPrefix a b in pre - after_nl (take pre a))"

definition common_tail :: "byte list \<Rightarrow> byte list \<Rightarrow> nat \<Rightarrow> nat" where
  "common_tail a b pre =
     (let suf = commonSuffix (drop pre a) (drop pre b)
      in case index_func (\<lambda>c. c = nl) (drop (length a - suf) a) of
           Some i \<Rightarrow> if suf > 0 then suf - (i + 1) else 0
         | None \<Rightarrow> 0)"

definition lineDiff :: "(byte list \<Rightarrow> 64 word) \<Rightarrow> byte list \<Rightarrow> byte list \<Rightarrow> hunk list option" where
  "lineDiff hash a b =
     (let pre = common_head a b; suf = common_tail a b pre;
          am = drop pre (take (length a - suf) a); bm = drop pre (take (length b - suf) b)
      in if am = [] \<and> bm = [] then Some []
         else
           let al = splitLines am; bl = splitLines bm
           in case intern hash al bl of
                None \<Rightarrow> None
              | Some (ai, bi, n) \<Rightarrow>
                  Some (hunks_between (lineOffsets pre al) (lineOffsets pre bl) 0 0
                    (matchLines ai bi n @ [(length al, length bl)])))"

definition hunk_edit :: "byte list \<Rightarrow> byte list \<Rightarrow> hunk \<Rightarrow> edit" where
  "hunk_edit old new h =
     (case trim (drop (a_from h) (take (a_to h) old)) (drop (b_from h) (take (b_to h) new)) of
        (s, e, n) \<Rightarrow> \<lparr>Anchor = startAnchor, Offset = int (a_from h + s), Delete = int (e - s), Text = n\<rparr>)"

text \<open>None is a call that does not return, an error the code's panic.\<close>

definition apply_diff :: "(byte list \<Rightarrow> 64 word) \<Rightarrow> buffer \<Rightarrow> byte list \<Rightarrow> (buffer_error + buffer) option" where
  "apply_diff hash b text' =
     (let old = rope_bytes (brope b)
      in map_option (\<lambda>hs. apply_edits b (map (hunk_edit old text') hs)) (lineDiff hash old text'))"

end
