(* ===== verification/Intern_Correct.thy ===== *)
theory Intern_Correct
  imports Line_Diff
begin

text \<open>
  The open-addressed table that numbers lines: a probe of a table with a free slot ends, on
  the slot of the line when it has a number and on a free one when it has none, whatever the
  hash, so equal lines and only those get the same number.
\<close>

section \<open>Slots\<close>

lemma unat_masked:
  fixes w :: "64 word"
  shows "unat (w AND of_nat (2 ^ e - 1)) = unat w mod 2 ^ e"
proof -
  have "(of_nat (2 ^ e - 1) :: 64 word) = mask e" by (metis mask_eq_exp_minus_1 of_nat_mask_eq)
  then have "w AND of_nat (2 ^ e - 1) = take_bit e w" by (simp add: take_bit_eq_mask)
  moreover have "unat (take_bit e w) = take_bit e (unat w)" by (rule unsigned_take_bit_eq)
  ultimately show ?thesis by (simp only: take_bit_eq_mod [of e "unat w"])
qed

lemma next_slot:
  fixes s :: "64 word"
  assumes "e \<le> 64"
  shows "unat ((s + 1) AND of_nat (2 ^ e - 1)) = (unat s + 1) mod 2 ^ e"
proof -
  have "unat (s + 1) = (unat s + 1) mod 2 ^ 64" by (simp add: unat_word_ariths)
  moreover have "(2 :: nat) ^ e dvd 2 ^ 64" using assms by (rule le_imp_power_dvd)
  then have "(unat s + 1) mod 2 ^ 64 mod 2 ^ e = (unat s + 1) mod 2 ^ e" by (rule mod_mod_cancel)
  ultimately show ?thesis by (simp only: unat_masked)
qed

definition slot_done :: "interner \<Rightarrow> 64 word \<Rightarrow> byte list \<Rightarrow> nat \<Rightarrow> bool" where
  "slot_done st h l k \<longleftrightarrow>
     (let i = itable st ! k in i = 0 \<or> hashes st ! (i - 1) = h \<and> reps st ! (i - 1) = l)"

lemma probe_first:
  assumes "length (itable st) = 2 ^ e" "e \<le> 64" "j < fuel" "slot_done st h l ((unat s + j) mod 2 ^ e)"
    "\<forall>j' < j. \<not> slot_done st h l ((unat s + j') mod 2 ^ e)" "unat s < 2 ^ e"
  shows "\<exists>s'. probe st h l s fuel = Some s' \<and> unat s' = (unat s + j) mod 2 ^ e"
  using assms(3-)
proof (induction j arbitrary: s fuel)
  case 0
  then obtain fuel' where "fuel = Suc fuel'" by (cases fuel) auto
  then show ?case using 0 by (auto simp: slot_done_def Let_def)
next
  case (Suc j)
  then obtain fuel' where f: "fuel = Suc fuel'" "j < fuel'" by (cases fuel) auto
  let ?s = "(s + 1) AND of_nat (length (itable st) - 1)"
  have s: "unat ?s = (unat s + 1) mod 2 ^ e" using next_slot [OF assms(2)] assms(1) by simp
  then have shift: "(unat ?s + j') mod 2 ^ e = (unat s + Suc j') mod 2 ^ e" for j' by (simp add: mod_add_left_eq)
  have "\<not> slot_done st h l ((unat s + 0) mod 2 ^ e)" using Suc.prems(3) by blast
  then have "\<not> slot_done st h l (unat s)" using Suc.prems(4) by simp
  then have "probe st h l s fuel = probe st h l ?s fuel'" by (auto simp: f(1) slot_done_def Let_def)
  moreover have "slot_done st h l ((unat ?s + j) mod 2 ^ e)" using Suc.prems(2) by (simp only: shift)
  moreover have "\<forall>j' < j. \<not> slot_done st h l ((unat ?s + j') mod 2 ^ e)" using Suc.prems(3) unfolding shift by blast
  moreover have "unat ?s < 2 ^ e" unfolding s by simp
  ultimately have "\<exists>s'. probe st h l ?s fuel' = Some s' \<and> unat s' = (unat ?s + j) mod 2 ^ e"
    using Suc.IH [OF f(2)] by blast
  then show ?case using \<open>probe st h l s fuel = probe st h l ?s fuel'\<close> unfolding shift by simp
qed

section \<open>The table\<close>

text \<open>Every numbered line is found from its home slot without meeting a free one.\<close>

definition placed_at :: "(byte list \<Rightarrow> 64 word) \<Rightarrow> nat \<Rightarrow> interner \<Rightarrow> nat \<Rightarrow> nat \<Rightarrow> bool" where
  "placed_at hash e st i j \<longleftrightarrow>
     (let home = unat (hash (reps st ! i)) mod 2 ^ e
      in itable st ! ((home + j) mod 2 ^ e) = Suc i \<and> (\<forall>j' < j. itable st ! ((home + j') mod 2 ^ e) \<noteq> 0))"

definition interner_ok :: "(byte list \<Rightarrow> 64 word) \<Rightarrow> nat \<Rightarrow> interner \<Rightarrow> bool" where
  "interner_ok hash e st \<longleftrightarrow>
     length (itable st) = 2 ^ e \<and> hashes st = map hash (reps st) \<and> distinct (reps st) \<and>
     (\<forall>t \<in> set (itable st). t \<le> length (reps st)) \<and>
     length (filter (\<lambda>t. t \<noteq> 0) (itable st)) = length (reps st) \<and>
     (\<forall>i < length (reps st). \<exists>j < 2 ^ e. placed_at hash e st i j)"

lemma slot_done_line:
  assumes "interner_ok hash e st" "k < 2 ^ e"
  shows "slot_done st (hash l) l k \<longleftrightarrow> itable st ! k = 0 \<or> itable st ! k - 1 < length (reps st) \<and> reps st ! (itable st ! k - 1) = l"
proof -
  have t: "itable st ! k \<le> length (reps st)" "hashes st = map hash (reps st)" using assms by (simp_all add: interner_ok_def)
  show ?thesis
  proof (cases "itable st ! k")
    case (Suc i)
    then have "hashes st ! i = hash (reps st ! i)" "i < length (reps st)" using t by simp_all
    then show ?thesis using Suc by (auto simp: slot_done_def Let_def)
  qed (simp add: slot_done_def)
qed

lemma free_slot_exists:
  assumes "interner_ok hash e st" "length (reps st) < 2 ^ e" "home < 2 ^ e"
  shows "\<exists>j < 2 ^ e. itable st ! ((home + j) mod 2 ^ e) = 0"
proof -
  have "\<exists>t \<in> set (itable st). t = 0"
  proof (rule ccontr)
    assume "\<not> ?thesis"
    then have "\<forall>t \<in> set (itable st). t \<noteq> 0" by (simp only: bex_simps ball_simps simp_thms not_all not_ex)
    then have "filter (\<lambda>t. t \<noteq> 0) (itable st) = itable st" by (rule filter_True)
    then show False using assms(1,2) by (simp add: interner_ok_def)
  qed
  then obtain k where k: "k < 2 ^ e" "itable st ! k = 0" using assms(1) by (auto simp: in_set_conv_nth interner_ok_def)
  show ?thesis
  proof (cases "home \<le> k")
    case True
    then show ?thesis using k by (intro exI [of _ "k - home"]) simp
  next
    case False
    have "home + (2 ^ e - home + k) = k + 2 ^ e" using assms(3) by linarith
    then have "(home + (2 ^ e - home + k)) mod 2 ^ e = k" using k(1) by (simp only: mod_add_self2 mod_less)
    moreover have "2 ^ e - home + k < 2 ^ e" using False assms(3) by linarith
    ultimately show ?thesis using k(2) by (intro exI [of _ "2 ^ e - home + k"]) (simp only: simp_thms)
  qed
qed

lemma probe_line:
  assumes "interner_ok hash e st" "e \<le> 64" "\<exists>j < 2 ^ e. slot_done st (hash l) l ((unat (hash l) mod 2 ^ e + j) mod 2 ^ e)"
  shows "\<exists>s j. probe st (hash l) l (hash l AND of_nat (length (itable st) - 1)) (length (itable st)) = Some s \<and> j < 2 ^ e \<and>
    unat s = (unat (hash l) mod 2 ^ e + j) mod 2 ^ e \<and> slot_done st (hash l) l (unat s) \<and>
    (\<forall>j' < j. \<not> slot_done st (hash l) l ((unat (hash l) mod 2 ^ e + j') mod 2 ^ e))"
proof -
  let ?home = "unat (hash l) mod 2 ^ e"
  let ?P = "\<lambda>j. j < 2 ^ e \<and> slot_done st (hash l) l ((?home + j) mod 2 ^ e)"
  define j where "j = (LEAST j. ?P j)"
  have P: "?P j" unfolding j_def using assms(3) by (rule LeastI_ex)
  then have least: "\<forall>j' < j. \<not> slot_done st (hash l) l ((?home + j') mod 2 ^ e)"
    using not_less_Least [of _ ?P] by (auto simp: j_def) 
  have len: "length (itable st) = 2 ^ e" using assms(1) by (simp add: interner_ok_def)
  have s0: "unat (hash l AND of_nat (length (itable st) - 1)) = ?home" unfolding len by (rule unat_masked)
  obtain s where "probe st (hash l) l (hash l AND of_nat (length (itable st) - 1)) (length (itable st)) = Some s"
    "unat s = (?home + j) mod 2 ^ e"
    using probe_first [OF len assms(2), of j "length (itable st)" "hash l" l "hash l AND of_nat (length (itable st) - 1)"]
      P least s0 len by auto
  then show ?thesis using P least by auto
qed

lemma number_line_ok:
  assumes ok: "interner_ok hash e st" and e: "e \<le> 64" and room: "length (reps st) < 2 ^ e"
  shows "\<exists>st' i. number_line hash st l = Some (st', i) \<and> interner_ok hash e st' \<and> i < length (reps st') \<and> reps st' ! i = l \<and>
    (\<exists>more. reps st' = reps st @ more \<and> length more \<le> 1 \<and> set more \<subseteq> {l})"
proof -
  let ?home = "unat (hash l) mod 2 ^ e"
  have len: "length (itable st) = 2 ^ e" using ok by (simp add: interner_ok_def)
  have "\<exists>j < 2 ^ e. itable st ! ((?home + j) mod 2 ^ e) = 0" by (rule free_slot_exists [OF ok room]) simp
  then have "\<exists>j < 2 ^ e. slot_done st (hash l) l ((?home + j) mod 2 ^ e)" unfolding slot_done_def Let_def by blast
  then obtain s j where s: "probe st (hash l) l (hash l AND of_nat (length (itable st) - 1)) (length (itable st)) = Some s"
    "j < 2 ^ e" "unat s = (?home + j) mod 2 ^ e" "slot_done st (hash l) l (unat s)"
    "\<And>j'. j' < j \<Longrightarrow> \<not> slot_done st (hash l) l ((?home + j') mod 2 ^ e)"
    using probe_line [OF ok e, of l] by blast
  have sl: "unat s < 2 ^ e" by (simp add: s(3))
  show ?thesis
  proof (cases "itable st ! unat s = 0")
    case False
    then have "itable st ! unat s - 1 < length (reps st)" "reps st ! (itable st ! unat s - 1) = l"
      using s(4) slot_done_line [OF ok sl] by auto
    then show ?thesis using s(1) False ok by (simp add: number_line_def Let_def)
  next
    case free: True
    have new: "l \<notin> set (reps st)"
    proof
      assume "l \<in> set (reps st)"
      then obtain i where i: "i < length (reps st)" "reps st ! i = l" by (auto simp: in_set_conv_nth)
      then obtain j1 where j1: "placed_at hash e st i j1" using ok by (auto simp: interner_ok_def)
      then have "slot_done st (hash l) l ((?home + j1) mod 2 ^ e)"
        using i slot_done_line [OF ok, of "(?home + j1) mod 2 ^ e" l] by (simp add: placed_at_def Let_def)
      then have "j \<le> j1" using s(5) [of j1] by (auto simp: not_less [symmetric])
      then have "itable st ! ((?home + j) mod 2 ^ e) \<noteq> 0"
        using j1 i by (cases "j = j1") (auto simp: placed_at_def Let_def dest: le_neq_implies_less)
      then show False using free s(3) by simp
    qed
    let ?st = "\<lparr>itable = (itable st)[unat s := length (reps st) + 1], reps = reps st @ [l], hashes = hashes st @ [hash l]\<rparr>"
    have kept: "itable ?st ! k = itable st ! k" if "itable st ! k \<noteq> 0" for k
      using that free by (cases "k = unat s") simp_all
    have old: "placed_at hash e ?st i j1" if "i < length (reps st)" "placed_at hash e st i j1" for i j1
      using that kept by (auto simp: placed_at_def Let_def nth_append)
    have "placed_at hash e ?st (length (reps st)) j"
    proof -
      have "itable st ! ((?home + j') mod 2 ^ e) \<noteq> 0" if "j' < j" for j'
        using s(5) [OF that] by (auto simp: slot_done_def Let_def)
      then have "itable ?st ! ((?home + j') mod 2 ^ e) \<noteq> 0" if "j' < j" for j' using kept that by metis
      moreover have "itable ?st ! ((?home + j) mod 2 ^ e) = Suc (length (reps st))" using sl len by (simp add: s(3) [symmetric])
      ultimately show ?thesis by (simp add: placed_at_def Let_def)
    qed
    then have here: "placed_at hash e ?st (length (reps st)) j" .
    have chains: "\<exists>j < 2 ^ e. placed_at hash e ?st i j" if "i < length (reps ?st)" for i
    proof (cases "i = length (reps st)")
      case True
      then show ?thesis using here s(2) by blast
    next
      case False
      then have i: "i < length (reps st)" using that by simp
      then obtain j1 where "j1 < 2 ^ e" "placed_at hash e st i j1" using ok unfolding interner_ok_def by blast
      then show ?thesis using old [OF i] by blast
    qed
    have "length (filter (\<lambda>t. t \<noteq> 0) (itable ?st)) = Suc (length (filter (\<lambda>t. t \<noteq> 0) (itable st)))"
      using length_filter_update [of "unat s" "itable st" "\<lambda>t. t \<noteq> 0" "length (reps st) + 1"] sl len free by simp
    moreover have "\<forall>t \<in> set (itable ?st). t \<le> length (reps ?st)"
      using ok by (auto simp: interner_ok_def dest!: set_update_subset_insert [THEN subsetD])
    ultimately have "interner_ok hash e ?st" using ok new chains by (simp add: interner_ok_def)
    moreover have "number_line hash st l = Some (?st, length (reps st))" using s(1) free by (simp add: number_line_def Let_def)
    ultimately show ?thesis by (intro exI [of _ ?st] exI [of _ "length (reps st)"]) simp
  qed
qed

lemma number_lines_ok:
  assumes "interner_ok hash e st" "e \<le> 64" "length (reps st) + length ls < 2 ^ e"
  shows "\<exists>st' is. number_lines hash st ls = Some (st', is) \<and> interner_ok hash e st' \<and>
    list_all2 (\<lambda>i l. i < length (reps st') \<and> reps st' ! i = l) is ls \<and>
    (\<exists>more. reps st' = reps st @ more \<and> length more \<le> length ls \<and> set more \<subseteq> set ls)"
  using assms
proof (induction ls arbitrary: st)
  case (Cons l ls)
  obtain st1 i m1 where one: "number_line hash st l = Some (st1, i)" "interner_ok hash e st1" "i < length (reps st1)" "reps st1 ! i = l"
    "reps st1 = reps st @ m1" "length m1 \<le> 1" "set m1 \<subseteq> {l}"
    using number_line_ok [OF Cons.prems(1,2), of l] Cons.prems(3) by auto
  obtain st2 js m2 where rest: "number_lines hash st1 ls = Some (st2, js)" "interner_ok hash e st2"
    "list_all2 (\<lambda>i l. i < length (reps st2) \<and> reps st2 ! i = l) js ls" "reps st2 = reps st1 @ m2" "length m2 \<le> length ls" "set m2 \<subseteq> set ls"
    using Cons.IH [OF one(2) Cons.prems(2)] Cons.prems(3) one(5,6) by auto
  have "i < length (reps st2) \<and> reps st2 ! i = l" using one(3,4) rest(4) by (simp add: nth_append)
  then show ?case using one rest by auto
qed simp

lemma table_size_power: "\<exists>e'. table_size n (2 ^ e) = 2 ^ e' \<and> e \<le> e' \<and> n \<le> 2 ^ e' \<and> (e' = e \<or> 2 ^ e' < 2 * n)"
proof (induction "n - 2 ^ e" arbitrary: e rule: less_induct)
  case less
  show ?case
  proof (cases "2 ^ e < n")
    case True
    then have "n - 2 ^ Suc e < n - 2 ^ e" by (intro diff_less_mono2) simp_all
    then obtain e' where e': "table_size n (2 ^ Suc e) = 2 ^ e'" "Suc e \<le> e'" "n \<le> 2 ^ e'" "e' = Suc e \<or> 2 ^ e' < 2 * n"
      using less by blast
    have "table_size n (2 ^ e) = table_size n (2 ^ Suc e)" using True by (subst table_size.simps) simp
    then show ?thesis using e' True by (intro exI [of _ e']) auto
  next
    case False
    then show ?thesis by (subst table_size.simps) auto
  qed
qed

lemma intern_ok:
  assumes "length a + length b < 2 ^ 31"
  shows "\<exists>ai bi rs. intern hash a b = Some (ai, bi, length rs) \<and> distinct rs \<and>
    list_all2 (\<lambda>i l. i < length rs \<and> rs ! i = l) ai a \<and> list_all2 (\<lambda>i l. i < length rs \<and> rs ! i = l) bi b \<and>
    set rs \<subseteq> set (a @ b)"
proof -
  let ?n = "2 * (length a + length b)"
  obtain e where e: "table_size ?n 1 = 2 ^ e" "?n \<le> 2 ^ e" "e = 0 \<or> 2 ^ e < 2 * ?n"
    using table_size_power [of ?n 0] by auto
  have "(2::nat) ^ e < 2 ^ 64" using e(3) assms by (cases "e = 0") auto
  then have "e < 64" by (rule power_less_imp_less_exp [rotated]) simp
  then have e64: "e \<le> 64" by simp
  let ?st = "\<lparr>itable = replicate (2 ^ e) 0, reps = [], hashes = []\<rparr>"
  have st: "interner_ok hash e ?st" by (auto simp: interner_ok_def)
  have fit: "length a + length b < 2 ^ e" using e(2) by (cases "length a + length b") auto
  obtain st1 ai where a: "number_lines hash ?st a = Some (st1, ai)" "interner_ok hash e st1"
    "list_all2 (\<lambda>i l. i < length (reps st1) \<and> reps st1 ! i = l) ai a" "length (reps st1) \<le> length a" "set (reps st1) \<subseteq> set a"
    using number_lines_ok [OF st e64, of a] fit by auto
  obtain st2 bi more where b: "number_lines hash st1 b = Some (st2, bi)" "interner_ok hash e st2"
    "list_all2 (\<lambda>i l. i < length (reps st2) \<and> reps st2 ! i = l) bi b" "reps st2 = reps st1 @ more" "set more \<subseteq> set b"
    using number_lines_ok [OF a(2) e64, of b] fit a(4) by auto
  have "list_all2 (\<lambda>i l. i < length (reps st2) \<and> reps st2 ! i = l) ai a"
    using a(3) by (rule list_all2_mono) (simp add: b(4) nth_append)
  moreover have "intern hash a b = Some (ai, bi, length (reps st2))" using a(1) b(1) e(1) by (simp add: intern_def Let_def)
  moreover have "distinct (reps st2)" using b(2) by (simp add: interner_ok_def)
  moreover have "set (reps st2) \<subseteq> set (a @ b)" using a(5) b(4,5) by auto
  ultimately show ?thesis using b(3) by blast
qed

end
