(* ===== verification/Myers_Correct.thy ===== *)
theory Myers_Correct
  imports Line_Match
begin

text \<open>
  Myers' search finds a longest common subsequence. Edit paths live on the unbounded grid,
  where nothing matches past the ends; the search keeps, for each diagonal, the furthest
  column that a given number of edits reaches.
\<close>

section \<open>Matches\<close>

text \<open>Pairs that rise in both indices from (x, y) on and match equal lines.\<close>

fun kept :: "'a list \<Rightarrow> 'a list \<Rightarrow> nat \<Rightarrow> nat \<Rightarrow> pairs \<Rightarrow> bool" where
  "kept a b x y [] \<longleftrightarrow> True"
| "kept a b x y ((i, j) # ps) \<longleftrightarrow>
     x \<le> i \<and> y \<le> j \<and> i < length a \<and> j < length b \<and> a ! i = b ! j \<and> kept a b (Suc i) (Suc j) ps"

lemma kept_mono: "kept a b x y ps \<Longrightarrow> x' \<le> x \<Longrightarrow> y' \<le> y \<Longrightarrow> kept a b x' y' ps"
  by (cases ps) auto

lemma kept_append:
  "kept (take x' a) (take y' b) x y ps \<Longrightarrow> kept a b x' y' qs \<Longrightarrow> x \<le> x' \<Longrightarrow> y \<le> y' \<Longrightarrow> kept a b x y (ps @ qs)"
proof (induction a b x y ps rule: kept.induct)
  case (1 a b x y)
  then show ?case using kept_mono by auto
qed auto

lemma kept_take: "kept (take p a) (take q b) x y ps \<Longrightarrow> kept a b x y ps"
  using kept_append [of p a q b x y ps "[]"] by (induction a b x y ps rule: kept.induct) auto

lemma kept_takes:
  "kept (take p a) (take q b) x y ps \<Longrightarrow> p \<le> p' \<Longrightarrow> q \<le> q' \<Longrightarrow> kept (take p' a) (take q' b) x y ps"
  by (induction a b x y ps rule: kept.induct) auto

lemma kept_drop:
  "kept (drop p a) (drop q b) x y ps \<Longrightarrow> kept a b (p + x) (q + y) (map (\<lambda>(i, j). (p + i, q + j)) ps)"
  by (induction "drop p a" "drop q b" x y ps rule: kept.induct) (auto simp: less_diff_conv add.commute)

lemma kept_run:
  assumes "\<forall>i < c. x + i < length a \<and> y + i < length b \<and> a ! (x + i) = b ! (y + i)"
  shows "kept (take (x + c) a) (take (y + c) b) x y (map (\<lambda>i. (x + i, y + i)) [0..<c])"
  using assms
proof (induction c arbitrary: x y)
  case (Suc c)
  have "kept (take (Suc x + c) a) (take (Suc y + c) b) (Suc x) (Suc y) (map (\<lambda>i. (Suc x + i, Suc y + i)) [0..<c])"
  proof (rule Suc.IH, intro allI impI)
    fix i assume "i < c"
    then show "Suc x + i < length a \<and> Suc y + i < length b \<and> a ! (Suc x + i) = b ! (Suc y + i)"
      using Suc.prems [rule_format, of "Suc i"] by simp
  qed
  moreover have "map (\<lambda>i. (x + i, y + i)) [0..<Suc c] = (x, y) # map (\<lambda>i. (Suc x + i, Suc y + i)) [0..<c]"
    by (simp add: upt_conv_Cons map_Suc_upt [symmetric] del: upt_Suc)
  ultimately show ?case using Suc.prems [rule_format, of 0] by simp
qed simp

lemma kept_length: "kept a b x y ps \<Longrightarrow> x \<le> length a \<Longrightarrow> y \<le> length b \<Longrightarrow>
  length ps \<le> length a - x \<and> length ps \<le> length b - y"
  by (induction a b x y ps rule: kept.induct) auto

section \<open>Edit paths\<close>

inductive edits :: "'a list \<Rightarrow> 'a list \<Rightarrow> nat \<Rightarrow> int \<Rightarrow> int \<Rightarrow> bool" for a b where
  start: "edits a b 0 0 0"
| across: "edits a b d x y \<Longrightarrow> edits a b (Suc d) (x + 1) y"
| down: "edits a b d x y \<Longrightarrow> edits a b (Suc d) x (y + 1)"
| diag: "edits a b d x y \<Longrightarrow> x < int (length a) \<Longrightarrow> y < int (length b) \<Longrightarrow> a ! nat x = b ! nat y \<Longrightarrow>
    edits a b d (x + 1) (y + 1)"

definition on_diag :: "nat \<Rightarrow> int \<Rightarrow> bool" where
  "on_diag d k \<longleftrightarrow> - int d \<le> k \<and> k \<le> int d \<and> even (int d + k)"

lemma edits_range: "edits a b d x y \<Longrightarrow> 0 \<le> x \<and> 0 \<le> y \<and> on_diag d (x - y)"
  by (induction rule: edits.induct) (auto simp: on_diag_def)

text \<open>A path that leaves the texts is no shorter than one that stays.\<close>

lemma edits_retract:
  "edits a b d x y \<Longrightarrow> \<exists>d' \<le> d. edits a b d' (min x (int (length a))) (min y (int (length b)))"
proof (induction rule: edits.induct)
  case start
  then show ?case using edits.start by auto
next
  case (across d x y)
  then obtain d' where d': "d' \<le> d" "edits a b d' (min x (int (length a))) (min y (int (length b)))" by blast
  show ?case
  proof (cases "x < int (length a)")
    case True
    then show ?thesis using edits.across [OF d'(2)] d'(1) by (intro exI [of _ "Suc d'"]) (simp add: min_def)
  next
    case False
    then have "min (x + 1) (int (length a)) = min x (int (length a))" by simp
    then show ?thesis using d' by (intro exI [of _ d']) simp
  qed
next
  case (down d x y)
  then obtain d' where d': "d' \<le> d" "edits a b d' (min x (int (length a))) (min y (int (length b)))" by blast
  show ?case
  proof (cases "y < int (length b)")
    case True
    then show ?thesis using edits.down [OF d'(2)] d'(1) by (intro exI [of _ "Suc d'"]) (simp add: min_def)
  next
    case False
    then have "min (y + 1) (int (length b)) = min y (int (length b))" by simp
    then show ?thesis using d' by (intro exI [of _ d']) simp
  qed
next
  case (diag d x y)
  then obtain d' where d': "d' \<le> d" "edits a b d' x y" by (auto simp: min_def)
  then show ?case using edits.diag [OF d'(2) diag(2-4)] diag(2,3) by (intro exI [of _ d']) (simp add: min_def)
qed

lemma edits_steps: "edits a b (dx + dy) (int dx) (int dy)"
proof -
  have "edits a b dx (int dx) 0" by (induction dx) (use edits.start edits.across in \<open>fastforce simp: add.commute\<close>)+
  then show ?thesis by (induction dy) (use edits.down in \<open>fastforce simp: add.commute\<close>)+
qed

text \<open>Matches give an edit path around them.\<close>

lemma edits_more: "edits a b d x y \<Longrightarrow> edits a b (d + i + j) (x + int i) (y + int j)"
proof -
  assume e: "edits a b d x y"
  have "edits a b (d + i) (x + int i) y"
  proof (induction i)
    case (Suc i)
    from edits.across [OF this] show ?case by (simp add: algebra_simps)
  qed (use e in simp)
  then show ?thesis
  proof (induction j)
    case (Suc j)
    then have "edits a b (d + i + j) (x + int i) (y + int j)" by simp
    from edits.down [OF this] show ?case by (simp add: algebra_simps)
  qed simp
qed

lemma edits_kept:
  "kept a b x y ps \<Longrightarrow> edits a b d (int x) (int y) \<Longrightarrow> x \<le> length a \<Longrightarrow> y \<le> length b \<Longrightarrow>
    \<exists>d'. edits a b d' (int (length a)) (int (length b)) \<and> d' + 2 * length ps + x + y = d + length a + length b"
proof (induction a b x y ps arbitrary: d rule: kept.induct)
  case (1 a b x y)
  then show ?case using edits_more [OF 1(2), of "length a - x" "length b - y"]
    by (intro exI [of _ "d + (length a - x) + (length b - y)"]) simp
next
  case (2 a b x y i j ps)
  have "edits a b (d + (i - x) + (j - y)) (int i) (int j)"
    using edits_more [OF 2(3), of "i - x" "j - y"] 2(2) by simp
  from edits.diag [OF this] have "edits a b (d + (i - x) + (j - y)) (int (Suc i)) (int (Suc j))"
    using 2(2) by (simp add: add.commute)
  from 2(1) [OF _ this] 2(2) obtain d' where
    "edits a b d' (int (length a)) (int (length b))" "d' + 2 * length ps + Suc i + Suc j = d + (i - x) + (j - y) + length a + length b"
    by auto
  then show ?case using 2(2) by (intro exI [of _ d']) simp
qed

text \<open>The last step off the diagonal, and the equal lines after it.\<close>

lemma edits_last:
  "edits a b d' x y \<Longrightarrow> d' = Suc d \<Longrightarrow> \<exists>x1 y1. x1 - y1 = x - y \<and> x1 \<le> x \<and>
    (edits a b d (x1 - 1) y1 \<or> edits a b d x1 (y1 - 1)) \<and>
    (\<forall>i. x1 \<le> i \<and> i < x \<longrightarrow> i < int (length a) \<and> i - (x - y) < int (length b) \<and> a ! nat i = b ! nat (i - (x - y)))"
proof (induction rule: edits.induct)
  case (across d x y)
  then show ?case by (intro exI [of _ "x + 1"] exI [of _ y]) auto
next
  case (down d x y)
  then show ?case by (intro exI [of _ x] exI [of _ "y + 1"]) auto
next
  case (diag d'' x y)
  then obtain x1 y1 where e: "x1 - y1 = x - y" "x1 \<le> x" "edits a b d (x1 - 1) y1 \<or> edits a b d x1 (y1 - 1)"
    "\<And>i. x1 \<le> i \<Longrightarrow> i < x \<Longrightarrow> i < int (length a) \<and> i - (x - y) < int (length b) \<and> a ! nat i = b ! nat (i - (x - y))"
    by blast
  have "i < int (length a) \<and> i - (x + 1 - (y + 1)) < int (length b) \<and> a ! nat i = b ! nat (i - (x + 1 - (y + 1)))"
    if "x1 \<le> i" "i < x + 1" for i
    using e(4) [of i] that diag.hyps(2-4) by (cases "i = x") auto
  then show ?case using e(1-3) by (intro exI [of _ x1] exI [of _ y1]) auto
qed simp

section \<open>The furthest column\<close>

definition furthest :: "'a list \<Rightarrow> 'a list \<Rightarrow> nat \<Rightarrow> int \<Rightarrow> int \<Rightarrow> bool" where
  "furthest a b d k x \<longleftrightarrow> edits a b d x (x - k) \<and> (\<forall>x'. edits a b d x' (x' - k) \<longrightarrow> x' \<le> x)"

text \<open>An array holds the furthest columns of a round from its middle on.\<close>

definition front :: "'a list \<Rightarrow> 'a list \<Rightarrow> nat \<Rightarrow> int list \<Rightarrow> int \<Rightarrow> bool" where
  "front a b d v off \<longleftrightarrow> (\<forall>k. on_diag d k \<longrightarrow> furthest a b d k (v ! nat (off + k)))"

definition before_round :: "'a list \<Rightarrow> 'a list \<Rightarrow> nat \<Rightarrow> int list \<Rightarrow> int \<Rightarrow> bool" where
  "before_round a b d v off = (case d of 0 \<Rightarrow> v ! nat (off + 1) = 0 | Suc d' \<Rightarrow> front a b d' v off)"

lemma follow_run: "x \<le> follow a b x y \<and>
  (\<forall>i. x \<le> i \<and> i < follow a b x y \<longrightarrow> i < int (length a) \<and> i - (x - y) < int (length b) \<and> a ! nat i = b ! nat (i - (x - y)))"
proof (induction a b x y rule: follow.induct)
  case (1 a b x y)
  show ?case
  proof (cases "x < int (length a) \<and> y < int (length b) \<and> a ! nat x = b ! nat y")
    case True
    then have f: "follow a b x y = follow a b (x + 1) (y + 1)" by (subst follow.simps) argo
    note IH = 1(1) [OF True]
    have "i < int (length a) \<and> i - (x - y) < int (length b) \<and> a ! nat i = b ! nat (i - (x - y))"
      if "x \<le> i" "i < follow a b (x + 1) (y + 1)" for i
      using conjunct2 [OF IH, rule_format, of i] that True by (cases "i = x") auto
    then show ?thesis using IH f by auto
  next
    case False
    then have "follow a b x y = x" by (subst follow.simps) argo
    then show ?thesis by auto
  qed
qed

lemma follow_reaches:
  "\<forall>i. x0 \<le> i \<and> i < x \<longrightarrow> i < int (length a) \<and> i - k < int (length b) \<and> a ! nat i = b ! nat (i - k) \<Longrightarrow>
    x \<le> follow a b x0 (x0 - k)"
proof (induction a b x0 "x0 - k" rule: follow.induct)
  case (1 a b x0)
  show ?case
  proof (cases "x0 < x")
    case True
    then have c: "x0 < int (length a) \<and> x0 - k < int (length b) \<and> a ! nat x0 = b ! nat (x0 - k)" using 1(2) by simp
    have "x \<le> follow a b (x0 + 1) (x0 - k + 1)" using 1(1) [OF c] 1(2) by (simp add: algebra_simps)
    then show ?thesis using c by (subst follow.simps) simp
  next
    case False
    then show ?thesis using follow_run [of x0 a b "x0 - k"] by simp
  qed
qed

lemma edits_follow: "edits a b d x y \<Longrightarrow> edits a b d (follow a b x y) (follow a b x y - (x - y))"
proof (induction a b x y rule: follow.induct)
  case (1 a b x y)
  show ?case
  proof (cases "x < int (length a) \<and> y < int (length b) \<and> a ! nat x = b ! nat y")
    case True
    then have f: "follow a b x y = follow a b (x + 1) (y + 1)" by (subst follow.simps) argo
    have "edits a b d (x + 1) (y + 1)" using edits.diag [OF 1(2)] True by simp
    from 1(1) [OF True this] show ?thesis unfolding f by simp
  next
    case False
    then have "follow a b x y = x" by (subst follow.simps) argo
    then show ?thesis using 1(2) by simp
  qed
qed

text \<open>Where a round enters a diagonal, and the diagonal and column it comes from.\<close>

definition entry :: "int list \<Rightarrow> int \<Rightarrow> nat \<Rightarrow> int \<Rightarrow> int" where
  "entry v off d k = (if goes_down v off (int d) k then v ! nat (off + k + 1) else v ! nat (off + k - 1) + 1)"

definition came_from :: "int list \<Rightarrow> int \<Rightarrow> nat \<Rightarrow> int \<Rightarrow> int" where
  "came_from v off d k = (if goes_down v off (int d) k then k + 1 else k - 1)"

lemma came_from_diag: "on_diag (Suc d) k \<Longrightarrow> on_diag d (came_from v off (Suc d) k)"
proof -
  assume k: "on_diag (Suc d) k"
  then have "even (int (Suc d) + k)" by (simp only: on_diag_def)
  then obtain j where j: "int (Suc d) + k = 2 * j" by (rule evenE)
  show ?thesis
  proof (cases "goes_down v off (int (Suc d)) k")
    case True
    then have "k \<noteq> int (Suc d)" by (auto simp: goes_down_def)
    then have "j \<noteq> int (Suc d)" "j \<le> int (Suc d)" using j k by (auto simp: on_diag_def)
    then have "k + 1 \<le> int d" using j by simp
    moreover have "int d + (k + 1) = 2 * j" using j by simp
    then have "even (int d + (k + 1))" by (simp only: dvd_triv_left)
    ultimately show ?thesis using k True unfolding came_from_def on_diag_def by simp
  next
    case False
    then have "k \<noteq> - int (Suc d)" by (auto simp: goes_down_def)
    then have "j \<noteq> 0" "0 \<le> j" using j k by (auto simp: on_diag_def)
    then have "- int d \<le> k - 1" using j by simp
    moreover have "int d + (k - 1) = 2 * (j - 1)" using j by simp
    then have "even (int d + (k - 1))" by (simp only: dvd_triv_left)
    ultimately show ?thesis using k False unfolding came_from_def on_diag_def by simp
  qed
qed

lemma entry_edits:
  assumes "front a b d v off" "on_diag (Suc d) k"
  shows "edits a b (Suc d) (entry v off (Suc d) k) (entry v off (Suc d) k - k)"
proof -
  have f: "furthest a b d (came_from v off (Suc d) k) (v ! nat (off + came_from v off (Suc d) k))"
    using assms came_from_diag by (simp add: front_def)
  show ?thesis
  proof (cases "goes_down v off (int (Suc d)) k")
    case True
    then have "edits a b d (v ! nat (off + k + 1)) (v ! nat (off + k + 1) - (k + 1))"
      using f by (simp add: furthest_def came_from_def add.assoc)
    from edits.down [OF this] show ?thesis using True by (simp add: entry_def)
  next
    case False
    then have "edits a b d (v ! nat (off + k - 1)) (v ! nat (off + k - 1) - (k - 1))"
      using f by (simp add: furthest_def came_from_def algebra_simps)
    from edits.across [OF this] show ?thesis using False by (simp add: entry_def algebra_simps)
  qed
qed

lemma entry_furthest:
  assumes "front a b d v off" "on_diag (Suc d) k" "edits a b (Suc d) x (x - k)"
  shows "x \<le> follow a b (entry v off (Suc d) k) (entry v off (Suc d) k - k)"
proof -
  obtain x1 y1 where e: "x1 - y1 = k" "x1 \<le> x" "edits a b d (x1 - 1) y1 \<or> edits a b d x1 (y1 - 1)"
    "\<And>i. x1 \<le> i \<Longrightarrow> i < x \<Longrightarrow> i < int (length a) \<and> i - k < int (length b) \<and> a ! nat i = b ! nat (i - k)"
    using edits_last [OF assms(3) refl] by auto
  have "x1 \<le> entry v off (Suc d) k" using e(3)
  proof
    assume l: "edits a b d (x1 - 1) y1"
    have y1: "y1 = x1 - 1 - (k - 1)" using e(1) by simp
    have d: "on_diag d (k - 1)" using edits_range [OF l] y1 by simp
    then have "x1 - 1 \<le> v ! nat (off + (k - 1))" using assms(1) l y1 by (auto simp: front_def furthest_def)
    moreover have "k \<noteq> - int (Suc d)" using d by (auto simp: on_diag_def)
    ultimately show ?thesis by (auto simp: entry_def goes_down_def algebra_simps)
  next
    assume u: "edits a b d x1 (y1 - 1)"
    have y1: "y1 - 1 = x1 - (k + 1)" using e(1) by simp
    have d: "on_diag d (k + 1)" using edits_range [OF u] y1 by simp
    then have "x1 \<le> v ! nat (off + (k + 1))" using assms(1) u y1 by (auto simp: front_def furthest_def)
    moreover have "k \<noteq> int (Suc d)" using d by (auto simp: on_diag_def)
    ultimately show ?thesis by (auto simp: entry_def goes_down_def algebra_simps)
  qed
  then have "\<forall>i. entry v off (Suc d) k \<le> i \<and> i < x \<longrightarrow> i < int (length a) \<and> i - k < int (length b) \<and> a ! nat i = b ! nat (i - k)"
    using e(4) by auto
  then show ?thesis by (rule follow_reaches)
qed

lemma edits_zero:
  "edits a b d x y \<Longrightarrow> d = 0 \<Longrightarrow> x = y \<and>
    (\<forall>i. 0 \<le> i \<and> i < x \<longrightarrow> i < int (length a) \<and> i < int (length b) \<and> a ! nat i = b ! nat i)"
proof (induction rule: edits.induct)
  case (diag d x y)
  then show ?case by (metis order_le_less zless_add1_eq)
qed auto

lemma round_furthest:
  assumes "before_round a b d v (int off)" "on_diag d k"
  shows "furthest a b d k (reach_on a b off d v k)"
proof (cases d)
  case 0
  then have k: "k = 0" using assms(2) by (simp add: on_diag_def)
  have r: "reach_on a b off d v k = follow a b 0 0"
    using assms(1) 0 k by (simp add: reach_on_def goes_down_def before_round_def)
  have "edits a b 0 (follow a b 0 0) (follow a b 0 0)" using edits_follow [OF edits.start, of a b] by simp
  moreover have "x \<le> follow a b 0 0" if "edits a b 0 x y" for x y
    using edits_zero [OF that refl] follow_reaches [of 0 x a 0 b] by simp
  ultimately show ?thesis using 0 k r by (auto simp: furthest_def)
next
  case (Suc d0)
  then have f: "front a b d0 v (int off)" using assms(1) by (simp add: before_round_def)
  have r: "reach_on a b off d v k = follow a b (entry v (int off) d k) (entry v (int off) d k - k)"
    by (simp add: reach_on_def entry_def Let_def)
  have k: "on_diag (Suc d0) k" using assms(2) Suc by simp
  show ?thesis
    using edits_follow [OF entry_edits [OF f k]] entry_furthest [OF f k] unfolding r by (auto simp: furthest_def Suc)
qed

section \<open>Walking back\<close>

lemma diag_back_ends:
  assumes "px \<le> x0" "py \<le> x0 - (x - y)" "px = x0 \<or> py = x0 - (x - y)" "x0 \<le> x"
  shows "diag_back px py x y ps =
    (x0, x0 - (x - y), ps @ map (\<lambda>i. (nat (x - 1 - int i), nat (y - 1 - int i))) [0..<nat (x - x0)])"
  using assms
proof (induction "nat (x - x0)" arbitrary: x y ps)
  case 0
  then have "x = x0" by simp
  moreover from this have "\<not> (x > px \<and> y > py)" using 0 by auto
  then have "diag_back px py x y ps = (x, y, ps)" by (subst diag_back.simps) argo
  ultimately show ?case by simp
next
  case (Suc n)
  have "x > px \<and> y > py" using Suc by auto
  then have "diag_back px py x y ps = diag_back px py (x - 1) (y - 1) (ps @ [(nat (x - 1), nat (y - 1))])"
    by (subst diag_back.simps) argo
  also have "\<dots> = (x0, x0 - (x - y), (ps @ [(nat (x - 1), nat (y - 1))]) @
      map (\<lambda>i. (nat (x - 1 - 1 - int i), nat (y - 1 - 1 - int i))) [0..<nat (x - 1 - x0)])"
    using Suc(1) [of "x - 1" "y - 1" "ps @ [(nat (x - 1), nat (y - 1))]"] Suc(2-) by simp
  also have "nat (x - x0) = Suc (nat (x - 1 - x0))" using Suc(2) by simp
  then have "map (\<lambda>i. (nat (x - 1 - int i), nat (y - 1 - int i))) [0..<nat (x - x0)] =
      (nat (x - 1), nat (y - 1)) # map (\<lambda>i. (nat (x - 1 - 1 - int i), nat (y - 1 - 1 - int i))) [0..<nat (x - 1 - x0)]"
    by (simp add: upt_conv_Cons map_Suc_upt [symmetric] algebra_simps del: upt_Suc)
  then have "(ps @ [(nat (x - 1), nat (y - 1))]) @
      map (\<lambda>i. (nat (x - 1 - 1 - int i), nat (y - 1 - 1 - int i))) [0..<nat (x - 1 - x0)] =
      ps @ map (\<lambda>i. (nat (x - 1 - int i), nat (y - 1 - int i))) [0..<nat (x - x0)]" by simp
  finally show ?case .
qed

lemma run_kept:
  assumes "0 \<le> x0" "0 \<le> x0 - (x - y)" "x0 \<le> x"
    "\<forall>i. x0 \<le> i \<and> i < x \<longrightarrow> i < int (length a) \<and> i - (x - y) < int (length b) \<and> a ! nat i = b ! nat (i - (x - y))"
  shows "kept (take (nat x) a) (take (nat y) b) (nat x0) (nat (x0 - (x - y)))
    (rev (map (\<lambda>i. (nat (x - 1 - int i), nat (y - 1 - int i))) [0..<nat (x - x0)]))"
proof -
  let ?c = "nat (x - x0)" and ?y0 = "x0 - (x - y)"
  have "rev (map (\<lambda>i. (nat (x - 1 - int i), nat (y - 1 - int i))) [0..<?c]) = map (\<lambda>i. (nat x0 + i, nat ?y0 + i)) [0..<?c]"
    using assms(1-3) by (intro nth_equalityI) (auto simp: rev_nth nat_eq_iff)
  moreover have "\<forall>i < ?c. nat x0 + i < length a \<and> nat ?y0 + i < length b \<and> a ! (nat x0 + i) = b ! (nat ?y0 + i)"
  proof (intro allI impI)
    fix i assume "i < ?c"
    then have "x0 + int i < int (length a) \<and> x0 + int i - (x - y) < int (length b) \<and>
        a ! nat (x0 + int i) = b ! nat (x0 + int i - (x - y))" using assms(4) by simp
    moreover have "nat (x0 + int i) = nat x0 + i" "nat (x0 + int i - (x - y)) = nat ?y0 + i" using assms(1,2) by auto
    ultimately show "nat x0 + i < length a \<and> nat ?y0 + i < length b \<and> a ! (nat x0 + i) = b ! (nat ?y0 + i)"
      using assms(1,2) by auto
  qed
  moreover have "nat x0 + ?c = nat x" "nat ?y0 + ?c = nat y" using assms(1-3) by auto
  ultimately show ?thesis using kept_run [of ?c "nat x0" a "nat ?y0" b] by simp
qed

lemma back_rounds_kept:
  assumes "\<forall>e. 1 \<le> e \<and> e \<le> d \<longrightarrow> front a b (e - 1) (trace ! e) (int e)" "edits a b d x y"
    "0 < d \<Longrightarrow> entry (trace ! d) (int d) d (x - y) \<le> x" "x \<le> int (length a)" "y \<le> int (length b)"
    "back_rounds trace d x y ps = (x', y', ps')"
  shows "\<exists>qs. rev (snd (snd (diag_back 0 0 x' y' ps'))) = qs @ rev ps \<and>
    kept (take (nat x) a) (take (nat y) b) 0 0 qs \<and> int d + 2 * int (length qs) = x + y"
  using assms
proof (induction d arbitrary: x y ps)
  case 0
  then have z: "x = y" "\<forall>i. 0 \<le> i \<and> i < x \<longrightarrow> i < int (length a) \<and> i < int (length b) \<and> a ! nat i = b ! nat i" "0 \<le> x"
    using edits_zero [OF 0(2) refl] edits_range [OF 0(2)] by auto
  have "diag_back 0 0 x y ps = (0, 0, ps @ map (\<lambda>i. (nat (x - 1 - int i), nat (y - 1 - int i))) [0..<nat x])"
    using diag_back_ends [of 0 0 0 x y ps] z by simp
  moreover have "kept (take (nat x) a) (take (nat y) b) 0 0
      (rev (map (\<lambda>i. (nat (x - 1 - int i), nat (y - 1 - int i))) [0..<nat x]))"
    using run_kept [of 0 x y a b] z by simp
  ultimately show ?case using 0(6) z(1,3) by (intro exI conjI) auto
next
  case (Suc d)
  let ?v = "trace ! Suc d" and ?k = "x - y"
  let ?prev = "came_from ?v (int (Suc d)) (Suc d) ?k"
  let ?px = "?v ! nat (?prev + int (Suc d))"
  let ?py = "?px - ?prev"
  let ?x0 = "entry ?v (int (Suc d)) (Suc d) ?k"
  let ?seg = "map (\<lambda>i. (nat (x - 1 - int i), nat (y - 1 - int i))) [0..<nat (x - ?x0)]"
  have f: "front a b d ?v (int (Suc d))" using Suc.prems(1) [rule_format, of "Suc d"] by simp
  have k: "on_diag (Suc d) ?k" using edits_range [OF Suc.prems(2)] by simp
  have fur: "furthest a b d ?prev ?px"
    using f [unfolded front_def, rule_format, OF came_from_diag [OF k, of ?v "int (Suc d)"]]
    by (subst add.commute)
  have x0: "?x0 \<le> x" using Suc.prems(3) by simp
  have ends: "?px \<le> ?x0" "?py \<le> ?x0 - ?k" "?px = ?x0 \<or> ?py = ?x0 - ?k" "?px + ?py + 1 = ?x0 + (?x0 - ?k)"
    by (auto simp: entry_def came_from_def algebra_simps)
  have ran: "0 \<le> ?x0" "0 \<le> ?x0 - ?k" using edits_range [OF entry_edits [OF f k]] by auto
  have "x \<le> follow a b ?x0 (?x0 - ?k)" using entry_furthest [OF f k] Suc.prems(2) by simp
  then have run: "\<forall>i. ?x0 \<le> i \<and> i < x \<longrightarrow> i < int (length a) \<and> i - ?k < int (length b) \<and> a ! nat i = b ! nat (i - ?k)"
    using follow_run [of ?x0 a b "?x0 - ?k"] by auto
  have walked: "diag_back ?px ?py x y ps = (?x0, ?x0 - ?k, ps @ ?seg)"
    using diag_back_ends [OF ends(1-3) x0] .
  have rounds: "back_rounds trace d ?px ?py (ps @ ?seg) = (x', y', ps')"
    using Suc.prems(6) walked by (simp add: came_from_def Let_def)
  have e: "edits a b d ?px ?py" using fur by (simp add: furthest_def)
  have next_entry: "entry (trace ! d) (int d) d (?px - ?py) \<le> ?px" if d: "0 < d"
  proof -
    have fd: "front a b (d - 1) (trace ! d) (int d)" using Suc.prems(1) [rule_format, of d] d by simp
    have kd: "on_diag (Suc (d - 1)) ?prev" using came_from_diag [OF k] d by simp
    show ?thesis using entry_edits [OF fd kd] fur d by (auto simp: furthest_def)
  qed
  have le: "?px \<le> int (length a)" "?py \<le> int (length b)" using ends(1,2) x0 Suc.prems(4,5) by auto
  obtain qs where qs: "rev (snd (snd (diag_back 0 0 x' y' ps'))) = qs @ rev (ps @ ?seg)"
    "kept (take (nat ?px) a) (take (nat ?py) b) 0 0 qs" "int d + 2 * int (length qs) = ?px + ?py"
    using Suc.IH [OF _ e next_entry le rounds] Suc.prems(1) by auto
  have "kept (take (nat ?x0) a) (take (nat (?x0 - ?k)) b) 0 0 qs"
    using kept_takes [OF qs(2)] ends(1,2) by (simp add: nat_mono)
  then have "kept (take (nat ?x0) (take (nat x) a)) (take (nat (?x0 - ?k)) (take (nat y) b)) 0 0 qs"
    using x0 by (simp add: min_def nat_mono)
  then have "kept (take (nat x) a) (take (nat y) b) 0 0 (qs @ rev ?seg)"
    using kept_append run_kept [OF ran x0 run] by blast
  moreover have "int (Suc d) + 2 * int (length (qs @ rev ?seg)) = x + y" using qs(3) ends(4) x0 by simp
  ultimately show ?case using qs(1) by (intro exI [of _ "qs @ rev ?seg"]) simp
qed

section \<open>The rounds\<close>

lemma before_round_update:
  assumes "before_round a b d v (int off)" "on_diag d k" "d < off"
  shows "before_round a b d (v[nat (int off + k) := x]) (int off)"
proof (cases d)
  case 0
  then have "k = 0" using assms(2) by (auto simp: on_diag_def)
  then have "nat (int off + k) \<noteq> nat (int off + 1)" by simp
  then show ?thesis using assms(1) 0 by (simp add: before_round_def)
next
  case (Suc d0)
  have "v[nat (int off + k) := x] ! nat (int off + k') = v ! nat (int off + k')" if k': "on_diag d0 k'" for k'
  proof -
    have "k \<noteq> k'" using k' assms(2) Suc by (auto simp: on_diag_def)
    moreover have "0 \<le> int off + k" "0 \<le> int off + k'" using k' assms(2,3) Suc by (auto simp: on_diag_def)
    ultimately have "nat (int off + k) \<noteq> nat (int off + k')" by simp
    then show ?thesis by simp
  qed
  then show ?thesis using assms(1) Suc by (simp add: before_round_def front_def)
qed

definition past_end :: "'a list \<Rightarrow> 'a list \<Rightarrow> int \<Rightarrow> int \<Rightarrow> bool" where
  "past_end a b x k \<longleftrightarrow> x \<ge> int (length a) \<and> x - k \<ge> int (length b)"

lemma diag_loop_ok:
  assumes "before_round a b d v (int off)" "\<forall>k \<in> set ks. on_diag d k" "distinct ks" "d < off" "length v = 2 * off + 1"
    "diag_loop a b off d ks v = (v', hit)"
  shows "length v' = length v \<and>
    (hit \<longrightarrow> (\<exists>k x. furthest a b d k x \<and> past_end a b x k)) \<and>
    (\<not> hit \<longrightarrow> (\<forall>k \<in> set ks. furthest a b d k (v' ! nat (int off + k)) \<and> \<not> past_end a b (v' ! nat (int off + k)) k)) \<and>
    (\<forall>k. on_diag d k \<longrightarrow> k \<notin> set ks \<longrightarrow> v' ! nat (int off + k) = v ! nat (int off + k))"
  using assms
proof (induction ks arbitrary: v)
  case (Cons k ks)
  let ?x = "reach_on a b off d v k"
  let ?v = "v[nat (int off + k) := ?x]"
  have k: "on_diag d k" "- int d \<le> k" "k \<le> int d" using Cons.prems(2) by (auto simp: on_diag_def)
  have at: "nat (int off + k) < length v" using k Cons.prems(4,5) by auto
  have fur: "furthest a b d k ?x" using round_furthest [OF Cons.prems(1) k(1)] .
  have other: "?v ! nat (int off + k') = v ! nat (int off + k')" if "on_diag d k'" "k' \<noteq> k" for k'
  proof -
    have "0 \<le> int off + k" "0 \<le> int off + k'" using that k Cons.prems(4) by (auto simp: on_diag_def)
    then show ?thesis using that(2) by (simp add: nth_list_update_neq nat_eq_iff)
  qed
  show ?case
  proof (cases "past_end a b ?x k")
    case True
    then have "v' = ?v" "hit" using Cons.prems(6) by (auto simp: past_end_def Let_def)
    then show ?thesis using True fur other by auto
  next
    case False
    then have rest: "diag_loop a b off d ks ?v = (v', hit)" using Cons.prems(6) by (auto simp: past_end_def Let_def)
    have b: "before_round a b d ?v (int off)" by (rule before_round_update [OF Cons.prems(1) k(1) Cons.prems(4)])
    have "\<forall>k \<in> set ks. on_diag d k" "distinct ks" "length ?v = 2 * off + 1" using Cons.prems by auto
    note IH = Cons.IH [OF b this(1,2) Cons.prems(4) this(3) rest]
    have "v' ! nat (int off + k) = ?x"
      using IH k(1) Cons.prems(3) at by auto
    then show ?thesis using IH other fur False by auto
  qed
qed auto

lemma diagonals_set: "set (diagonals d) = {k. on_diag d k}" "distinct (diagonals d)"
proof -
  have "k \<in> set (diagonals d)" if "on_diag d k" for k
  proof -
    have "even (int d + k)" using that by (simp add: on_diag_def)
    then obtain j where j: "int d + k = 2 * j" by (rule evenE)
    then have "k = 2 * int (nat j) - int d" "nat j < Suc d" using that by (auto simp: on_diag_def)
    then show ?thesis unfolding diagonals_def set_map by (intro image_eqI [of _ _ "nat j"]) auto
  qed
  moreover have "on_diag d k" if "k \<in> set (diagonals d)" for k
    using that by (auto simp: diagonals_def on_diag_def simp del: upt_Suc)
  ultimately show "set (diagonals d) = {k. on_diag d k}" by blast
  show "distinct (diagonals d)" by (auto simp: diagonals_def distinct_map inj_on_def simp del: upt_Suc)
qed

text \<open>The trace keeps the middle of the array as it was before each round.\<close>

lemma trace_front:
  assumes "front a b d v (int off)" "Suc d < off" "length v = 2 * off + 1"
  shows "front a b d (take (2 * Suc d + 1) (drop (off - Suc d) v)) (int (Suc d))"
proof -
  have "take (2 * Suc d + 1) (drop (off - Suc d) v) ! nat (int (Suc d) + k) = v ! nat (int off + k)" if "on_diag d k" for k
  proof -
    have r: "- int d \<le> k" "k \<le> int d" using that by (auto simp: on_diag_def)
    then have "nat (int (Suc d) + k) < 2 * Suc d + 1" "off - Suc d + nat (int (Suc d) + k) = nat (int off + k)"
      "nat (int off + k) < length v" using assms(2,3) by auto
    then show ?thesis by simp
  qed
  then show ?thesis using assms(1) by (simp add: front_def)
qed

lemma backtrack_kept:
  assumes tr: "\<forall>e. 1 \<le> e \<and> e \<le> d \<longrightarrow> front a b (e - 1) (trace ! e) (int e)" and len: "length trace = Suc d"
    and e: "edits a b d (int (length a)) (int (length b))"
    and least: "\<forall>d' < d. \<not> edits a b d' (int (length a)) (int (length b))"
  shows "kept a b 0 0 (backtrack trace (length a) (length b)) \<and>
    d + 2 * length (backtrack trace (length a) (length b)) = length a + length b"
proof -
  let ?k = "int (length a) - int (length b)"
  have entry: "entry (trace ! d) (int d) d ?k \<le> int (length a)" if d: "0 < d"
  proof (rule ccontr)
    assume far: "\<not> entry (trace ! d) (int d) d ?k \<le> int (length a)"
    let ?prev = "came_from (trace ! d) (int d) d ?k"
    let ?px = "trace ! d ! nat (int d + ?prev)"
    have f: "front a b (d - 1) (trace ! d) (int d)" using tr d by simp
    have "on_diag (Suc (d - 1)) ?k" using edits_range [OF e] d by simp
    then have "edits a b (d - 1) ?px (?px - ?prev)"
      using f came_from_diag [of "d - 1" ?k "trace ! d" "int d"] d by (simp add: front_def furthest_def)
    from edits_retract [OF this] obtain d' where d': "d' \<le> d - 1"
      "edits a b d' (min ?px (int (length a))) (min (?px - ?prev) (int (length b)))" by blast
    have "int (length a) \<le> ?px \<and> int (length b) \<le> ?px - ?prev"
      using far by (auto simp: entry_def came_from_def algebra_simps split: if_splits)
    then have "edits a b d' (int (length a)) (int (length b))" using d'(2) by (simp only: min.absorb2)
    moreover have "d' < d" using d'(1) d by simp
    ultimately show False using least by blast
  qed
  obtain x' y' ps' where r: "back_rounds trace d (int (length a)) (int (length b)) [] = (x', y', ps')"
    by (metis prod_cases3)
  have "backtrack trace (length a) (length b) = rev (snd (snd (diag_back 0 0 x' y' ps')))"
    using r len by (simp add: backtrack_def)
  moreover obtain qs where "rev (snd (snd (diag_back 0 0 x' y' ps'))) = qs @ rev []"
    "kept (take (length a) a) (take (length b) b) 0 0 qs" "int d + 2 * int (length qs) = int (length a) + int (length b)"
    using back_rounds_kept [OF tr e entry order_refl order_refl r] by auto
  ultimately show ?thesis by simp
qed

lemma myers_loop_ok:
  assumes "before_round a b d v (int (limit + 1))" "length v = 2 * limit + 3" "length trace = d" "d \<le> Suc limit"
    "\<forall>e. 1 \<le> e \<and> e < d \<longrightarrow> front a b (e - 1) (trace ! e) (int e)"
    "\<forall>d' < d. \<not> edits a b d' (int (length a)) (int (length b))"
  shows "case myers_loop a b limit d v trace of
      Some ps \<Rightarrow> \<exists>D \<le> limit. (\<forall>d' < D. \<not> edits a b d' (int (length a)) (int (length b))) \<and>
        kept a b 0 0 ps \<and> D + 2 * length ps = length a + length b
    | None \<Rightarrow> \<forall>d' \<le> limit. \<not> edits a b d' (int (length a)) (int (length b))"
  using assms
proof (induction "Suc limit - d" arbitrary: d v trace)
  case 0
  then have "myers_loop a b limit d v trace = None" by (subst myers_loop.simps) simp
  then show ?case using 0 by auto
next
  case (Suc n)
  let ?off = "limit + 1" and ?goal = "edits a b d (int (length a)) (int (length b))"
  let ?trace = "trace @ [take (2 * d + 1) (drop (?off - d) v)]"
  have d: "d \<le> limit" "d < ?off" using Suc.hyps(2) by auto
  have len: "length v = 2 * ?off + 1" using Suc.prems(2) by simp
  obtain v' hit where dl: "diag_loop a b ?off d (diagonals d) v = (v', hit)" by force
  then have loop: "myers_loop a b limit d v trace =
      (if hit then Some (backtrack ?trace (length a) (length b)) else myers_loop a b limit (Suc d) v' ?trace)"
    using d by (subst myers_loop.simps) (simp only: Let_def prod.case if_True)
  have "\<forall>k \<in> set (diagonals d). on_diag d k" using diagonals_set(1) by blast
  note D = diag_loop_ok [OF Suc.prems(1) this diagonals_set(2) d(2) len dl]
  have tr: "\<forall>e. 1 \<le> e \<and> e \<le> d \<longrightarrow> front a b (e - 1) (?trace ! e) (int e)"
  proof (intro allI impI)
    fix e assume e: "1 \<le> e \<and> e \<le> d"
    show "front a b (e - 1) (?trace ! e) (int e)"
    proof (cases "e < d")
      case True
      then show ?thesis using Suc.prems(3,5) e by (simp add: nth_append)
    next
      case False
      then obtain d0 where "e = d" "d = Suc d0" using e by (cases d) auto
      then show ?thesis using trace_front [of a b d0 v ?off] Suc.prems(1,3) d(2) len by (simp add: before_round_def nth_append)
    qed
  qed
  show ?case
  proof (cases hit)
    case True
    then obtain k x where f: "furthest a b d k x" "past_end a b x k" using D by blast
    then have "edits a b d x (x - k)" "int (length a) \<le> x" "int (length b) \<le> x - k"
      by (simp_all add: furthest_def past_end_def)
    from edits_retract [OF this(1)] this(2,3) obtain d' where
      "d' \<le> d" "edits a b d' (int (length a)) (int (length b))" by (auto simp only: min.absorb2)
    then have e: ?goal using Suc.prems(6) by (metis le_neq_implies_less)
    show ?thesis using backtrack_kept [OF tr _ e Suc.prems(6)] Suc.prems(3) d(1) loop True
      by (auto intro!: exI [of _ d] simp: Suc.prems(6))
  next
    case False
    then have fs: "furthest a b d k (v' ! nat (int ?off + k))" "\<not> past_end a b (v' ! nat (int ?off + k)) k" if "on_diag d k" for k
      using D diagonals_set(1) that by auto
    have no: "\<not> ?goal"
    proof
      assume ?goal
      moreover from this have k: "on_diag d (int (length a) - int (length b))" using edits_range by blast
      ultimately have "int (length a) \<le> v' ! nat (int ?off + (int (length a) - int (length b)))"
        using fs(1) [OF k] by (simp add: furthest_def)
      then show False using fs(2) [OF k] by (simp add: past_end_def)
    qed
    have "before_round a b (Suc d) v' (int ?off)" using fs(1) by (simp add: before_round_def front_def)
    moreover have "\<forall>d' < Suc d. \<not> edits a b d' (int (length a)) (int (length b))" using no Suc.prems(6) by (simp add: less_Suc_eq)
    moreover have "\<forall>e. 1 \<le> e \<and> e < Suc d \<longrightarrow> front a b (e - 1) (?trace ! e) (int e)" using tr by (simp add: less_Suc_eq_le)
    moreover have "length v' = 2 * limit + 3" "length ?trace = Suc d" "Suc d \<le> Suc limit" "n = Suc limit - Suc d"
      using D Suc.prems(2,3) Suc.hyps(2) d(1) by auto
    ultimately show ?thesis using Suc.hyps(1) [of "Suc d" v' ?trace] loop False by simp
  qed
qed

lemma myers_within_ok:
  "case myers_within bound a b of
     Some ps \<Rightarrow> kept a b 0 0 ps \<and> (\<forall>qs. kept a b 0 0 qs \<longrightarrow> length qs \<le> length ps) \<and>
       length a + length b \<le> bound + 2 * length ps
   | None \<Rightarrow> \<forall>qs. kept a b 0 0 qs \<longrightarrow> bound + 2 * length qs < length a + length b"
proof -
  let ?limit = "min (length a + length b) bound"
  have "before_round a b 0 (replicate (2 * ?limit + 3) 0) (int (?limit + 1))"
    by (simp add: before_round_def nth_replicate nat_add_distrib)
  then have loop: "case myers_within bound a b of
      Some ps \<Rightarrow> \<exists>D \<le> ?limit. (\<forall>d' < D. \<not> edits a b d' (int (length a)) (int (length b))) \<and>
        kept a b 0 0 ps \<and> D + 2 * length ps = length a + length b
    | None \<Rightarrow> \<forall>d' \<le> ?limit. \<not> edits a b d' (int (length a)) (int (length b))"
    using myers_loop_ok [of a b 0 "replicate (2 * ?limit + 3) 0" ?limit "[]"] by (simp add: myers_within_def Let_def)
  have e: "\<exists>d'. edits a b d' (int (length a)) (int (length b)) \<and> d' + 2 * length qs = length a + length b"
    if "kept a b 0 0 qs" for qs
    using edits_kept [OF that, of 0] edits.start by auto
  show ?thesis
  proof (cases "myers_within bound a b")
    case None
    have "bound + 2 * length qs < length a + length b" if q: "kept a b 0 0 qs" for qs
    proof -
      obtain d' where d': "edits a b d' (int (length a)) (int (length b))" "d' + 2 * length qs = length a + length b"
        using e [OF q] by blast
      then have "\<not> d' \<le> ?limit" using loop None by auto
      then show ?thesis using d'(2) by simp
    qed
    then show ?thesis using None by simp
  next
    case (Some ps)
    then obtain D where D: "\<forall>d' < D. \<not> edits a b d' (int (length a)) (int (length b))" "kept a b 0 0 ps"
      "D + 2 * length ps = length a + length b" "D \<le> bound" using loop by auto
    have "length qs \<le> length ps" if q: "kept a b 0 0 qs" for qs
    proof -
      obtain d' where "edits a b d' (int (length a)) (int (length b))" "d' + 2 * length qs = length a + length b"
        using e [OF q] by blast
      then have "D \<le> d'" "d' + 2 * length qs = D + 2 * length ps" using D(1,3) by (auto simp: not_less [symmetric])
      then show ?thesis by simp
    qed
    then show ?thesis using Some D(2-4) by simp
  qed
qed

lemma myers_ok:
  "case myers a b of
     Some ps \<Rightarrow> kept a b 0 0 ps \<and> (\<forall>qs. kept a b 0 0 qs \<longrightarrow> length qs \<le> length ps) \<and>
       length a + length b \<le> maxDiffEdits + 2 * length ps
   | None \<Rightarrow> \<forall>qs. kept a b 0 0 qs \<longrightarrow> maxDiffEdits + 2 * length qs < length a + length b"
  using myers_within_ok [where bound = maxDiffEdits and a = a and b = b] by (simp only: myers_def)

end
