(* ===== verification/Line_Match_Correct.thy ===== *)
theory Line_Match_Correct
  imports Myers_Correct
begin

text \<open>
  The patience matching: the increasing run is a longest one, gaps are filled with
  matches only, and the whole is a rising list of equal lines.
\<close>

section \<open>Common ends\<close>

lemma commonPrefix_le: "commonPrefix a b \<le> length a" "commonPrefix a b \<le> length b"
  by (induction a b rule: commonPrefix.induct) auto

lemma commonPrefix_nth: "i < commonPrefix a b \<Longrightarrow> a ! i = b ! i"
  by (induction a b arbitrary: i rule: commonPrefix.induct) (auto simp: nth_Cons split: if_splits nat.splits)

lemma commonSuffix_le: "commonSuffix a b \<le> length a" "commonSuffix a b \<le> length b"
  using commonPrefix_le [of "rev a" "rev b"] by (simp_all add: commonSuffix_def)

lemma commonSuffix_nth:
  assumes "i < commonSuffix a b"
  shows "a ! (length a - commonSuffix a b + i) = b ! (length b - commonSuffix a b + i)"
proof -
  let ?s = "commonSuffix a b"
  have "rev a ! (?s - 1 - i) = rev b ! (?s - 1 - i)"
    using assms by (intro commonPrefix_nth) (simp add: commonSuffix_def)
  then show ?thesis using assms commonSuffix_le [of a b] by (simp add: rev_nth)
qed

section \<open>The increasing run\<close>

lemma search_first_ok:
  assumes "i \<le> j" "\<And>h h'. h \<le> h' \<Longrightarrow> h' < j \<Longrightarrow> p h' \<Longrightarrow> p h"
  shows "i \<le> search_first p i j \<and> search_first p i j \<le> j \<and>
    (\<forall>h. i \<le> h \<and> h < search_first p i j \<longrightarrow> p h) \<and> (search_first p i j < j \<longrightarrow> \<not> p (search_first p i j))"
  using assms
proof (induction p i j rule: search_first.induct)
  case (1 p i j)
  let ?h = "(i + j) div 2"
  show ?case
  proof (cases "i < j")
    case True
    then have h: "i \<le> ?h" "?h < j" by auto
    show ?thesis
    proof (cases "p ?h")
      case p: True
      then have e: "search_first p i j = search_first p (?h + 1) j" using True by (subst search_first.simps) (simp add: Let_def)
      have "?h + 1 \<le> j" using h by simp
      then have IH: "?h + 1 \<le> search_first p (?h + 1) j \<and> search_first p (?h + 1) j \<le> j \<and>
        (\<forall>h. ?h + 1 \<le> h \<and> h < search_first p (?h + 1) j \<longrightarrow> p h) \<and>
        (search_first p (?h + 1) j < j \<longrightarrow> \<not> p (search_first p (?h + 1) j))"
        by (rule 1(1) [OF True refl p]) (use 1(4) in blast)
      have "p h" if h': "i \<le> h \<and> h < search_first p (?h + 1) j" for h
      proof (cases "h \<le> ?h")
        case le: True
        then show ?thesis using 1(4) [OF le h(2) p] by simp
      next
        case False
        then show ?thesis using IH h' by simp
      qed
      then show ?thesis unfolding e using IH h(1) by auto
    next
      case False
      then have e: "search_first p i j = search_first p i ?h" using True by (subst search_first.simps) (simp add: Let_def)
      have IH: "i \<le> search_first p i ?h \<and> search_first p i ?h \<le> ?h \<and>
        (\<forall>h. i \<le> h \<and> h < search_first p i ?h \<longrightarrow> p h) \<and> (search_first p i ?h < ?h \<longrightarrow> \<not> p (search_first p i ?h))"
        by (rule 1(2) [OF True refl False h(1)]) (use 1(4) h(2) in \<open>meson order.strict_trans\<close>)
      have "search_first p i ?h < j" using IH h(2) by simp
      moreover have "\<not> p (search_first p i ?h)" using IH False by (cases "search_first p i ?h = ?h") auto
      ultimately show ?thesis unfolding e using IH by auto
    qed
  next
    case False
    then show ?thesis using 1(3) by (subst (1 2 3 4 5) search_first.simps) auto
  qed
qed

text \<open>An increasing run of a given length that ends at an index, and one that the prev links trace.\<close>

inductive run_to :: "(nat \<Rightarrow> nat) \<Rightarrow> nat \<Rightarrow> nat \<Rightarrow> bool" for val where
  one: "run_to val 1 j"
| more: "run_to val n i \<Longrightarrow> i < j \<Longrightarrow> val i < val j \<Longrightarrow> run_to val (Suc n) j"

inductive traced :: "(nat \<Rightarrow> nat) \<Rightarrow> int list \<Rightarrow> nat \<Rightarrow> nat \<Rightarrow> bool" for val prev where
  first: "traced val prev 0 j"
| linked: "traced val prev n i \<Longrightarrow> i < j \<Longrightarrow> val i < val j \<Longrightarrow> prev ! j = int i \<Longrightarrow> traced val prev (Suc n) j"

lemma run_to_pos: "run_to val n j \<Longrightarrow> 0 < n"
  by (induction rule: run_to.induct) auto

lemma traced_run: "traced val prev n j \<Longrightarrow> run_to val (Suc n) j"
  by (induction rule: traced.induct) (use run_to.one run_to.more in fastforce)+

lemma traced_update: "traced val prev n j \<Longrightarrow> j < i \<Longrightarrow> traced val (prev[i := x]) n j"
proof (induction rule: traced.induct)
  case (linked n i' j)
  then show ?case by (intro traced.linked [of val _ n i']) auto
qed (rule traced.first)

definition tails_ok :: "(nat \<Rightarrow> nat) \<Rightarrow> nat \<Rightarrow> nat list \<Rightarrow> int list \<Rightarrow> bool" where
  "tails_ok val i tails prev \<longleftrightarrow>
     (\<forall>k < length tails. tails ! k < i \<and> traced val prev k (tails ! k) \<and>
       (\<forall>j < i. run_to val (Suc k) j \<longrightarrow> val (tails ! k) \<le> val j)) \<and>
     (\<forall>j n. j < i \<longrightarrow> run_to val n j \<longrightarrow> n \<le> length tails)"

lemma tails_rise:
  assumes "tails_ok val i tails prev" "Suc k < length tails"
  shows "val (tails ! k) < val (tails ! Suc k)"
proof -
  have t: "tails ! Suc k < i" "run_to val (Suc (Suc k)) (tails ! Suc k)"
    using assms traced_run by (auto simp: tails_ok_def)
  from t(2) obtain j where j: "run_to val (Suc k) j" "j < tails ! Suc k" "val j < val (tails ! Suc k)"
    by (cases rule: run_to.cases) (auto dest: run_to_pos)
  then have "k < length tails" "j < i" using assms(2) t(1) by auto
  then have "val (tails ! k) \<le> val j" using assms(1) j(1) unfolding tails_ok_def by blast
  then show ?thesis using j(3) by simp
qed

lemma tails_mono:
  assumes "tails_ok val i tails prev" "h \<le> h'" "h' < length tails"
  shows "val (tails ! h) \<le> val (tails ! h')"
  using assms(2,3)
proof (induction h' rule: dec_induct)
  case (step n)
  then show ?case using tails_rise [OF assms(1), of n] by simp
qed simp

lemma run_step_ok:
  assumes "tails_ok (\<lambda>j. snd (ps ! j)) i tails prev" "i < length prev" "run_step ps (tails, prev) i = (tails', prev')"
  shows "tails_ok (\<lambda>j. snd (ps ! j)) (Suc i) tails' prev' \<and> length prev' = length prev"
proof -
  let ?val = "\<lambda>j. snd (ps ! j)"
  let ?k = "search_first (\<lambda>h. ?val (tails ! h) < ?val i) 0 (length tails)"
  let ?p = "prev[i := (if ?k > 0 then int (tails ! (?k - 1)) else - 1)]"
  have S: "?k \<le> length tails \<and> (\<forall>h. h < ?k \<longrightarrow> ?val (tails ! h) < ?val i) \<and> (?k < length tails \<longrightarrow> \<not> ?val (tails ! ?k) < ?val i)"
    using search_first_ok [of 0 "length tails" "\<lambda>h. ?val (tails ! h) < ?val i"] tails_mono [OF assms(1)] order.strict_trans1 by fastforce
  have res: "prev' = ?p" "tails' = (if ?k = length tails then tails @ [i] else tails[?k := i])"
    using assms(3) by (auto simp: run_step_def Let_def split: if_splits)
  have old: "tails ! k < i" "traced ?val ?p k (tails ! k)" "\<And>j. j < i \<Longrightarrow> run_to ?val (Suc k) j \<Longrightarrow> ?val (tails ! k) \<le> ?val j"
    if "k < length tails" for k
  proof -
    have t: "tails ! k < i \<and> traced ?val prev k (tails ! k) \<and> (\<forall>j < i. run_to ?val (Suc k) j \<longrightarrow> ?val (tails ! k) \<le> ?val j)"
      using assms(1) that unfolding tails_ok_def by blast
    then show "tails ! k < i" "traced ?val ?p k (tails ! k)" by (auto intro: traced_update)
    show "\<And>j. j < i \<Longrightarrow> run_to ?val (Suc k) j \<Longrightarrow> ?val (tails ! k) \<le> ?val j" using t by blast
  qed
  have bound: "n \<le> length tails" if "j < i" "run_to ?val n j" for j n
    using assms(1) that unfolding tails_ok_def by blast
  have new: "traced ?val ?p ?k i"
  proof (cases ?k)
    case (Suc k0)
    then have "k0 < length tails" "?val (tails ! k0) < ?val i" using S by auto
    then show ?thesis using old [of k0] Suc assms(2) by (auto intro!: traced.linked [of _ _ k0 "tails ! k0"])
  qed (use traced.first in simp)
  have short: "n \<le> Suc ?k" if n: "run_to ?val n i" for n
    using n
  proof (cases rule: run_to.cases)
    case (more m j)
    then have m: "0 < m" "m \<le> length tails" using run_to_pos bound by auto
    then have "?val (tails ! (m - 1)) \<le> ?val j" using old(3) [of "m - 1" j] more by simp
    then have "?val (tails ! (m - 1)) < ?val i" using more by simp
    have "m - 1 < ?k"
    proof (rule ccontr)
      assume "\<not> m - 1 < ?k"
      then have "?k \<le> m - 1" "m - 1 < length tails" using m by auto
      then have "?val (tails ! ?k) < ?val i" "?k < length tails"
        using tails_mono [OF assms(1), of ?k "m - 1"] \<open>?val (tails ! (m - 1)) < ?val i\<close> by auto
      then show False using S by blast
    qed
    then show ?thesis using more m by auto
  qed auto
  have len: "length tails' = (if ?k = length tails then Suc (length tails) else length tails)" by (simp add: res(2))
  have nth: "tails' ! k = (if k = ?k then i else tails ! k)" if "k < length tails'" for k
    using that S by (auto simp: res(2) nth_append nth_list_update split: if_splits)
  have "tails' ! k < Suc i \<and> traced ?val prev' k (tails' ! k) \<and>
      (\<forall>j < Suc i. run_to ?val (Suc k) j \<longrightarrow> ?val (tails' ! k) \<le> ?val j)" if k: "k < length tails'" for k
  proof (cases "k = ?k")
    case True
    have "?val i \<le> ?val j" if "j < i" "run_to ?val (Suc k) j" for j
    proof (cases "?k < length tails")
      case lt: True
      then show ?thesis using old(3) [OF lt, of j] that True S by simp
    next
      case False
      then show ?thesis using bound [OF that] True S by simp
    qed
    then show ?thesis using nth [OF k] True new res(1) by (auto simp: less_Suc_eq)
  next
    case False
    then have k': "k < length tails" using k len S by (auto split: if_splits)
    have "?val (tails ! k) \<le> ?val i" if "run_to ?val (Suc k) i"
      using short [OF that] False S by (simp add: less_imp_le)
    then show ?thesis using old [OF k'] nth [OF k] False res(1) by (auto simp: less_Suc_eq)
  qed
  moreover have "n \<le> length tails'" if "j < Suc i" "run_to ?val n j" for j n
  proof (cases "j = i")
    case True
    then show ?thesis using short that S len by fastforce
  next
    case False
    then show ?thesis using bound [of j n] that len by (auto split: if_splits)
  qed
  ultimately show ?thesis using res(1) by (auto simp: tails_ok_def)
qed

text \<open>A run is a list of indices that rises with its values.\<close>

definition run_of :: "(nat \<Rightarrow> nat) \<Rightarrow> nat list \<Rightarrow> bool" where
  "run_of val js \<longleftrightarrow> sorted_wrt (\<lambda>i j. i < j \<and> val i < val j) js"

lemma run_of_snoc: "run_of val (js @ [j]) \<longleftrightarrow> run_of val js \<and> (\<forall>i \<in> set js. i < j \<and> val i < val j)"
  by (simp add: run_of_def sorted_wrt_append)

lemma run_of_run_to: "run_of val js \<Longrightarrow> js \<noteq> [] \<Longrightarrow> run_to val (length js) (last js)"
proof (induction js rule: rev_induct)
  case (snoc j js)
  show ?case
  proof (cases "js = []")
    case True
    then show ?thesis using run_to.one [of val j] by simp
  next
    case False
    then have "last js < j \<and> val (last js) < val j" using snoc.prems(1) last_in_set by (auto simp: run_of_snoc)
    then show ?thesis using snoc.IH snoc.prems(1) False run_to.more by (auto simp: run_of_snoc)
  qed
qed simp

lemma chase_ok:
  assumes "traced (\<lambda>j. snd (ps ! j)) prev n j"
  shows "\<exists>js. chase ps prev (Suc n) (int j) acc = map ((!) ps) (js @ [j]) @ acc \<and> length js = n \<and>
    run_of (\<lambda>j. snd (ps ! j)) (js @ [j])"
  using assms
proof (induction arbitrary: acc rule: traced.induct)
  case (first j)
  then show ?case by (simp add: run_of_def)
next
  case (linked n i j)
  obtain js where js: "chase ps prev (Suc n) (int i) (ps ! j # acc) = map ((!) ps) (js @ [i]) @ ps ! j # acc" "length js = n"
    "run_of (\<lambda>j. snd (ps ! j)) (js @ [i])" using linked.IH [of "ps ! j # acc"] by blast
  have "chase ps prev (Suc (Suc n)) (int j) acc = chase ps prev (Suc n) (int i) (ps ! j # acc)"
    using linked.hyps(4) by simp
  also have "\<dots> = map ((!) ps) ((js @ [i]) @ [j]) @ acc" using js(1) by simp
  finally have "chase ps prev (Suc (Suc n)) (int j) acc = map ((!) ps) ((js @ [i]) @ [j]) @ acc" .
  moreover have "run_of (\<lambda>j. snd (ps ! j)) ((js @ [i]) @ [j])"
    unfolding run_of_snoc [of _ "js @ [i]"] using js(3) linked.hyps(2,3) by (auto simp: run_of_snoc)
  ultimately show ?case using js(2) by (intro exI [of _ "js @ [i]"]) simp
qed

lemma increasing_longest_run:
  "\<exists>js. increasing ps = map ((!) ps) js \<and> run_of (\<lambda>j. snd (ps ! j)) js \<and> set js \<subseteq> {..<length ps} \<and>
    (\<forall>is. run_of (\<lambda>j. snd (ps ! j)) is \<longrightarrow> set is \<subseteq> {..<length ps} \<longrightarrow> length is \<le> length js)"
proof -
  let ?val = "\<lambda>j. snd (ps ! j)"
  have loop: "case foldl (run_step ps) ([], replicate (length ps) 0) [0..<n] of
      (tails, prev) \<Rightarrow> tails_ok ?val n tails prev \<and> length prev = length ps" if "n \<le> length ps" for n
    using that
  proof (induction n)
    case (Suc n)
    then show ?case
      using run_step_ok [of ps n] by (fastforce split: prod.splits)
  qed (simp add: tails_ok_def)
  obtain tails prev where fold: "foldl (run_step ps) ([], replicate (length ps) 0) [0..<length ps] = (tails, prev)" by force
  then have ok: "tails_ok ?val (length ps) tails prev" using loop [of "length ps"] by simp
  have most: "length is \<le> length tails" if "run_of ?val is" "set is \<subseteq> {..<length ps}" for "is"
  proof (cases "is = []")
    case False
    then have "run_to ?val (length is) (last is)" "last is < length ps" using run_of_run_to that last_in_set by blast+
    then show ?thesis using ok by (auto simp: tails_ok_def)
  qed simp
  show ?thesis
  proof (cases "tails = []")
    case True
    then have "increasing ps = []" using fold by (simp add: increasing_def)
    then show ?thesis using most True by (intro exI [of _ "[]"]) (simp add: run_of_def)
  next
    case False
    define n where "n = length tails - 1"
    have n: "length tails = Suc n" "last tails = tails ! n" using False by (auto simp: n_def last_conv_nth)
    have tr: "traced ?val prev n (tails ! n)" "tails ! n < length ps" using ok n by (auto simp: tails_ok_def)
    obtain js where js: "chase ps prev (Suc n) (int (tails ! n)) [] = map ((!) ps) (js @ [tails ! n]) @ []" "length js = n"
      "run_of ?val (js @ [tails ! n])" using chase_ok [OF tr(1), of "[]"] by blast
    have "increasing ps = map ((!) ps) (js @ [tails ! n])"
      using fold js(1) n False by (simp add: increasing_def del: chase.simps)
    moreover have "set (js @ [tails ! n]) \<subseteq> {..<length ps}" using js(3) tr(2) by (auto simp: run_of_snoc)
    ultimately show ?thesis using js(2,3) most n(1) by (intro exI [of _ "js @ [tails ! n]"]) simp
  qed
qed

section \<open>Filling a gap\<close>

lemma run_ends:
  assumes "s \<le> length a" "s \<le> length b" "\<And>i. i < s \<Longrightarrow> a ! (length a - s + i) = b ! (length b - s + i)"
  shows "kept a b (length a - s) (length b - s) (map (\<lambda>i. (length a - i, length b - i)) (rev [1..<Suc s]))"
proof -
  have "map (\<lambda>i. (length a - i, length b - i)) (rev [1..<Suc s]) = map (\<lambda>i. (length a - s + i, length b - s + i)) [0..<s]"
    using assms(1,2) by (intro nth_equalityI) (auto simp: rev_nth simp del: upt_Suc)
  moreover have "\<forall>i < s. length a - s + i < length a \<and> length b - s + i < length b \<and> a ! (length a - s + i) = b ! (length b - s + i)"
    using assms by auto
  moreover have "length a - s + s = length a" "length b - s + s = length b" using assms(1,2) by simp_all
  ultimately show ?thesis using kept_run [of s "length a - s" a "length b - s" b] by simp
qed

lemma fillMiddle_kept: "kept a b 0 0 (fillMiddle a b)"
proof -
  have "kept a b 0 0 [(0, j)]" if "a \<noteq> []" "index_func (\<lambda>z. z = a ! 0) b = Some j" for j
    using index_func_Some [OF that(2)] that(1) by simp
  moreover have "kept a b 0 0 [(i, 0)]" if "b \<noteq> []" "index_func (\<lambda>z. z = b ! 0) a = Some i" for i
    using index_func_Some [OF that(2)] that(1) by simp
  moreover have "kept a b 0 0 ps" if "myers a b = Some ps" for ps using myers_ok [of a b] that by simp
  moreover have "kept a b 0 0 []" by simp
  ultimately show ?thesis unfolding fillMiddle_def by (simp del: kept.simps split: option.split)
qed

lemma fillGap_kept:
  assumes "x0 \<le> length a" "y0 \<le> length b"
  shows "\<exists>new. fillGap out a b x0 y0 = out @ new \<and> kept a b x0 y0 new"
proof -
  define c where "c = commonPrefix (drop x0 a) (drop y0 b)"
  define x where "x = x0 + c"
  define y where "y = y0 + c"
  define s where "s = commonSuffix (drop x a) (drop y b)"
  let ?am = "take (length a - s - x) (drop x a)" and ?bm = "take (length b - s - y) (drop y b)"
  let ?lead = "map (\<lambda>i. (x0 + i, y0 + i)) [0..<c]" and ?mid = "map (\<lambda>(i, j). (x + i, y + j)) (fillMiddle ?am ?bm)"
    and ?tail = "map (\<lambda>i. (length a - i, length b - i)) (rev [1..<Suc s])"
  have c: "x \<le> length a" "y \<le> length b"
    using commonPrefix_le [of "drop x0 a" "drop y0 b"] assms by (auto simp: c_def x_def y_def)
  have s: "x \<le> length a - s" "y \<le> length b - s" "s \<le> length a" "s \<le> length b"
    using commonSuffix_le [of "drop x a" "drop y b"] c by (auto simp: s_def)
  have "x0 + i < length a \<and> y0 + i < length b \<and> a ! (x0 + i) = b ! (y0 + i)" if "i < c" for i
    using that c commonPrefix_nth [of i "drop x0 a" "drop y0 b"] assms by (auto simp: c_def x_def y_def)
  then have "kept (take x a) (take y b) x0 y0 ?lead" unfolding x_def y_def by (intro kept_run) blast
  moreover have "a ! (length a - s + i) = b ! (length b - s + i)" if "i < s" for i
    using commonSuffix_nth [of i "drop x a" "drop y b"] that s c by (simp add: s_def)
  then have tail: "kept a b (length a - s) (length b - s) ?tail" using run_ends s(3,4) by blast
  have "?am = drop x (take (length a - s) a)" "?bm = drop y (take (length b - s) b)" by (simp_all add: drop_take)
  then have "kept (take (length a - s) a) (take (length b - s) b) (x + 0) (y + 0) ?mid"
    using kept_drop [of x "take (length a - s) a" y "take (length b - s) b" 0 0] fillMiddle_kept [of ?am ?bm] by simp
  then have "kept a b x y (?mid @ ?tail)" using kept_append [OF _ tail s(1,2)] by simp
  ultimately have "kept a b x0 y0 (?lead @ ?mid @ ?tail)" by (rule kept_append) (simp_all add: x_def y_def)
  moreover have "fillGap out a b x0 y0 = out @ ?lead @ ?mid @ ?tail"
    by (simp add: fillGap_def c_def x_def y_def s_def Let_def)
  ultimately show ?thesis by blast
qed

lemma fill_gaps_kept:
  assumes "kept a b x y ps" "x \<le> length a" "y \<le> length b"
  shows "\<exists>new. fill_gaps a b x y (ps @ [(length a, length b)]) out = out @ new \<and> kept a b x y new"
  using assms
proof (induction ps arbitrary: x y out)
  case Nil
  then show ?case using fillGap_kept [of x a y b out] by simp
next
  case (Cons pq ps)
  obtain p q where pq: "pq = (p, q)" by force
  then have m: "x \<le> p" "y \<le> q" "p < length a" "q < length b" "a ! p = b ! q" "kept a b (Suc p) (Suc q) ps"
    using Cons.prems(1) by auto
  obtain n1 where n1: "fillGap out (take p a) (take q b) x y = out @ n1" "kept (take p a) (take q b) x y n1"
    using fillGap_kept [of x "take p a" y "take q b" out] m by auto
  obtain n2 where n2: "fill_gaps a b (Suc p) (Suc q) (ps @ [(length a, length b)]) (out @ n1 @ [(p, q)]) = (out @ n1 @ [(p, q)]) @ n2"
    "kept a b (Suc p) (Suc q) n2" using Cons.IH [OF m(6), of "out @ n1 @ [(p, q)]"] m by auto
  have "kept a b p q ((p, q) # n2)" using m n2(2) by simp
  then have "kept a b x y (n1 @ (p, q) # n2)" using kept_append [OF n1(2)] m(1,2) by blast
  then show ?case using n1(1) n2(1) m(3) by (intro exI [of _ "n1 @ (p, q) # n2"]) (simp add: pq)
qed

section \<open>Lines that occur once\<close>

lemma count_lines_nth:
  assumes "z < ids" "\<forall>i \<in> set a. i < ids"
  shows "count_lines ids a ! z = count_list a z"
proof -
  have "foldl (\<lambda>c i. c[i := c ! i + 1]) c a ! z = c ! z + count_list a z" if "length c = ids" "\<forall>i \<in> set a. i < ids" for c a
    using that
  proof (induction a arbitrary: c)
    case (Cons i a)
    then show ?case using Cons.IH [of "c[i := c ! i + 1]"] assms(1) by (auto simp: nth_list_update)
  qed simp
  from this [of "replicate ids 0" a] show ?thesis using assms by (simp add: count_lines_def)
qed

lemma last_places_nth:
  assumes "z \<in> set b" "\<forall>i \<in> set b. i < ids"
  shows "last_places ids b ! z < length b \<and> b ! (last_places ids b ! z) = z"
proof -
  have len: "length (foldl (\<lambda>c (j, i). c[i := j]) c js) = length c" for c and js :: "(nat \<times> nat) list"
    by (induction js arbitrary: c) (auto split: prod.splits)
  have "last_places ids (take n b) ! z < n \<and> b ! (last_places ids (take n b) ! z) = z" if "z \<in> set (take n b)" "n \<le> length b" for n
    using that
  proof (induction n)
    case (Suc n)
    have e: "last_places ids (take (Suc n) b) = (last_places ids (take n b))[b ! n := n]"
      using Suc.prems(2) by (simp add: last_places_def take_Suc_conv_app_nth enumerate_append_eq)
    show ?case
    proof (cases "b ! n = z")
      case True
      have "length (last_places ids (take n b)) = ids" by (simp add: last_places_def len)
      then show ?thesis using True assms e by simp
    next
      case False
      then have "z \<in> set (take n b)" using Suc.prems by (auto simp: take_Suc_conv_app_nth)
      then show ?thesis using Suc.IH Suc.prems(2) e False by simp
    qed
  qed simp
  from this [of "length b"] show ?thesis using assms(1) by simp
qed

lemma unique_pairs_ok:
  assumes "\<forall>z \<in> set a \<union> set b. z < ids"
  shows "sorted_wrt (<) (map fst (unique_pairs a b ids))"
    "\<forall>(i, j) \<in> set (unique_pairs a b ids). i < length a \<and> j < length b \<and> a ! i = b ! j"
proof -
  let ?f = "filter (\<lambda>(i, z). count_lines ids a ! z = 1 \<and> count_lines ids b ! z = 1) (enumerate 0 a)"
  have "map fst (unique_pairs a b ids) = map fst ?f"
    by (simp add: unique_pairs_def Let_def comp_def case_prod_beta)
  moreover have "sorted_wrt (\<lambda>p q. fst p < fst q) (enumerate 0 a)"
    by (simp add: sorted_wrt_iff_nth_less nth_enumerate_eq)
  then have "sorted_wrt (<) (map fst ?f)" by (simp add: sorted_wrt_map sorted_wrt_filter)
  ultimately show "sorted_wrt (<) (map fst (unique_pairs a b ids))" by simp
  show "\<forall>(i, j) \<in> set (unique_pairs a b ids). i < length a \<and> j < length b \<and> a ! i = b ! j"
  proof clarify
    fix i j assume "(i, j) \<in> set (unique_pairs a b ids)"
    then obtain z where z: "(i, z) \<in> set (enumerate 0 a)" "count_lines ids b ! z = 1" "j = last_places ids b ! z"
      by (auto simp: unique_pairs_def Let_def)
    then have i: "i < length a" "a ! i = z" by (auto simp: in_set_enumerate_eq)
    then have "z \<in> set a" by auto
    then have "count_list b z = 1" using z(2) assms count_lines_nth [of z ids b] by auto
    then have "z \<in> set b" by (metis count_list_0_iff zero_neq_one)
    then show "i < length a \<and> j < length b \<and> a ! i = b ! j" using last_places_nth [of z b ids] assms i z(3) by auto
  qed
qed

lemma kept_rising:
  "sorted_wrt (\<lambda>p q. fst p < fst q \<and> snd p < snd q) ps \<Longrightarrow>
    \<forall>(i, j) \<in> set ps. x \<le> i \<and> y \<le> j \<and> i < length a \<and> j < length b \<and> a ! i = b ! j \<Longrightarrow> kept a b x y ps"
  by (induction ps arbitrary: x y) (auto simp: Suc_le_eq case_prod_beta)

lemma matchLines_kept:
  assumes "\<forall>z \<in> set a \<union> set b. z < ids"
  shows "kept a b 0 0 (matchLines a b ids)"
proof -
  let ?ps = "unique_pairs a b ids"
  note U = unique_pairs_ok [OF assms]
  obtain js where js: "increasing ?ps = map ((!) ?ps) js" "run_of (\<lambda>j. snd (?ps ! j)) js" "set js \<subseteq> {..<length ?ps}"
    using increasing_longest_run [of ?ps] by blast
  have "fst (?ps ! i) < fst (?ps ! j)" if "i < j" "j < length ?ps" for i j
    using sorted_wrt_nth_less [OF U(1), of i j] that by simp
  then have "sorted_wrt (\<lambda>i j. fst (?ps ! i) < fst (?ps ! j) \<and> snd (?ps ! i) < snd (?ps ! j)) js"
    using js(2,3) by (intro sorted_wrt_mono_rel [OF _ js(2) [unfolded run_of_def]]) auto
  then have "sorted_wrt (\<lambda>p q. fst p < fst q \<and> snd p < snd q) (increasing ?ps)" by (simp add: js(1) sorted_wrt_map)
  moreover have "set (increasing ?ps) \<subseteq> set ?ps" using js(1,3) by auto
  ultimately have "kept a b 0 0 (increasing ?ps)" using U(2) by (intro kept_rising) auto
  from fill_gaps_kept [OF this, of "[]"] show ?thesis by (auto simp: matchLines_def)
qed

end
