(* ===== verification/Line_Diff_Correct.thy ===== *)
theory Line_Diff_Correct
  imports Intern_Correct Line_Match_Correct Buffer_Correct
begin

text \<open>
  The line diff turns the old text into the new one: hunks in order with equal text between
  them, each trimmed without cutting a UTF-8 sequence, give edits that Apply accepts and
  that leave exactly the new text.
\<close>

section \<open>Trimming\<close>

lemma back_off_le: "back_off p n \<le> n"
  by (induction n) (auto simp: le_SucI)

lemma back_off_stops: "back_off p n = 0 \<or> \<not> p (back_off p n)"
  by (induction n) auto

lemma commonPrefix_take: "p \<le> commonPrefix a b \<Longrightarrow> take p a = take p b"
  using commonPrefix_le [of a b] commonPrefix_nth [of _ a b] by (intro nth_equalityI) auto

lemma commonSuffix_drop: "s \<le> commonSuffix a b \<Longrightarrow> drop (length a - s) a = drop (length b - s) b"
proof -
  assume s: "s \<le> commonSuffix a b"
  then have "take s (rev a) = take s (rev b)" by (simp add: commonSuffix_def commonPrefix_take)
  then show ?thesis by (simp add: take_rev)
qed

text \<open>An offset that is not inside a UTF-8 sequence.\<close>

definition at_rune :: "byte list \<Rightarrow> nat \<Rightarrow> bool" where
  "at_rune b i \<longleftrightarrow> i = 0 \<or> i \<ge> length b \<or> rune_start (b ! i)"

lemma trim_ok:
  assumes "trim a b = (p, e, n)"
  shows "p \<le> e \<and> e \<le> length a \<and> take p a @ n @ drop e a = b \<and> at_rune a p \<and> at_rune b p \<and> at_rune a e"
proof -
  let ?inside = "\<lambda>p. p < length a \<and> \<not> rune_start (a ! p) \<or> p < length b \<and> \<not> rune_start (b ! p)"
  let ?s = "back_off (\<lambda>s. \<not> rune_start (a ! (length a - s))) (commonSuffix (drop p a) (drop p b))"
  have p: "p = back_off ?inside (commonPrefix a b)" and e: "e = length a - ?s" and n: "n = drop p (take (length b - ?s) b)"
    using assms by (auto simp: trim_def Let_def)
  have pc: "p \<le> commonPrefix a b" unfolding p by (rule back_off_le)
  then have take_p: "take p a = take p b" and pl: "p \<le> length a" "p \<le> length b"
    using commonPrefix_take commonPrefix_le [of a b] by auto
  have sc: "?s \<le> commonSuffix (drop p a) (drop p b)" by (rule back_off_le)
  then have sl: "?s \<le> length a - p" "?s \<le> length b - p" using commonSuffix_le [of "drop p a" "drop p b"] by auto
  have "drop (length a - ?s) a = drop (length b - ?s) b"
    using commonSuffix_drop [OF sc] sl pl by simp
  then have "take p a @ n @ drop e a = take p b @ drop p (take (length b - ?s) b) @ drop (length b - ?s) b"
    by (simp add: take_p e n)
  also have "take p b = take p (take (length b - ?s) b)" using sl(2) pl(2) by simp
  also have "\<dots> @ drop p (take (length b - ?s) b) @ drop (length b - ?s) b = b"
    by (simp only: append_assoc [symmetric] append_take_drop_id)
  finally have whole: "take p a @ n @ drop e a = b" .
  have "p = 0 \<or> \<not> ?inside p" unfolding p by (rule back_off_stops)
  then have "at_rune a p" "at_rune b p" by (auto simp: at_rune_def)
  moreover have "?s = 0 \<or> \<not> \<not> rune_start (a ! (length a - ?s))" by (rule back_off_stops)
  then have "at_rune a e" by (auto simp: at_rune_def e)
  ultimately show ?thesis using whole sl pl by (simp add: e)
qed

section \<open>Hunks\<close>

text \<open>Hunks from two positions on: in order, within the texts, with equal text between.\<close>

fun bridges :: "byte list \<Rightarrow> byte list \<Rightarrow> nat \<Rightarrow> nat \<Rightarrow> hunk list \<Rightarrow> bool" where
  "bridges old new p q [] \<longleftrightarrow> drop p old = drop q new"
| "bridges old new p q (h # hs) \<longleftrightarrow>
     p \<le> a_from h \<and> a_from h \<le> a_to h \<and> a_to h \<le> length old \<and>
     q \<le> b_from h \<and> b_from h \<le> b_to h \<and> b_to h \<le> length new \<and>
     drop p (take (a_from h) old) = drop q (take (b_from h) new) \<and> bridges old new (a_to h) (b_to h) hs"

lemma drop_split: "p \<le> p' \<Longrightarrow> drop p xs = drop p (take p' xs) @ drop p' xs"
  by (metis append_take_drop_id drop_drop drop_take le_add_diff_inverse2)

lemma take_split: "p \<le> p' \<Longrightarrow> p' \<le> e \<Longrightarrow> drop p (take e xs) = drop p (take p' xs) @ drop p' (take e xs)"
  using drop_split [of p p' "take e xs"] by (simp add: min_absorb1)

lemma bridges_extend:
  assumes "bridges old new p' q' hs" "p \<le> p'" "q \<le> q'" "drop p (take p' old) = drop q (take q' new)"
  shows "bridges old new p q hs"
proof (cases hs)
  case Nil
  then show ?thesis using assms drop_split [of p p' old] drop_split [of q q' new] by simp
next
  case (Cons h hs')
  then show ?thesis using assms take_split [of p p' "a_from h" old] take_split [of q q' "b_from h" new] by auto
qed

lemma length_lineOffsets: "length (lineOffsets base ls) = Suc (length ls)"
  by (induction base ls rule: lineOffsets.induct) auto

lemma lineOffsets_nth: "i \<le> length ls \<Longrightarrow> lineOffsets base ls ! i = base + length (concat (take i ls))"
proof (induction base ls arbitrary: i rule: lineOffsets.induct)
  case (2 base l ls)
  then show ?case by (cases i) auto
qed simp

lemma concat_slice:
  assumes "i \<le> j" "j \<le> length ls" "base = length pre"
  shows "drop (base + length (concat (take i ls))) (take (base + length (concat (take j ls))) (pre @ concat ls @ post)) =
    concat (drop i (take j ls))"
proof -
  have "concat ls = concat (take i ls) @ concat (drop i (take j ls)) @ concat (drop j ls)"
    by (metis append_take_drop_id assms(1) concat_append drop_take le_add_diff_inverse2 drop_drop)
  moreover have "concat (take j ls) = concat (take i ls) @ concat (drop i (take j ls))"
    by (metis append_take_drop_id assms(1) concat_append min.absorb1 take_take)
  ultimately show ?thesis by (simp add: assms(3))
qed

lemma hunks_bridge:
  assumes "kept al bl x y ms" "x \<le> length al" "y \<le> length bl" "length pre = base" "length pre' = base"
  shows "bridges (pre @ concat al @ post) (pre' @ concat bl @ post)
    (lineOffsets base al ! x) (lineOffsets base bl ! y)
    (hunks_between (lineOffsets base al) (lineOffsets base bl) x y (ms @ [(length al, length bl)]))"
  using assms(1-3)
proof (induction ms arbitrary: x y)
  case Nil
  have le: "length (concat (take i ls)) \<le> length (concat ls)" for i and ls :: "byte list list"
    by (metis append_take_drop_id concat_append length_append le_add1)
  have ends: "drop (base + length (concat al)) (pre @ concat al @ post) = post"
    "drop (base + length (concat bl)) (pre' @ concat bl @ post) = post" using assms(4,5) by simp_all
  show ?case
  proof (cases "length al > x \<or> length bl > y")
    case True
    then show ?thesis using Nil le ends assms(4,5) by (auto simp: lineOffsets_nth)
  next
    case False
    then have "x = length al" "y = length bl" using Nil by auto
    then show ?thesis using ends by (simp add: lineOffsets_nth)
  qed
next
  case (Cons pq ms)
  obtain p q where pq: "pq = (p, q)" by force
  then have m: "x \<le> p" "y \<le> q" "p < length al" "q < length bl" "al ! p = bl ! q" "kept al bl (Suc p) (Suc q) ms"
    using Cons.prems(1) by auto
  let ?old = "pre @ concat al @ post" and ?new = "pre' @ concat bl @ post"
    and ?A = "lineOffsets base al" and ?B = "lineOffsets base bl"
  have A: "?A ! i = base + length (concat (take i al))" if "i \<le> length al" for i using lineOffsets_nth that .
  have B: "?B ! j = base + length (concat (take j bl))" if "j \<le> length bl" for j using lineOffsets_nth that .
  have mono: "length (concat (take i ls)) \<le> length (concat (take j ls))" if "i \<le> j" for i j and ls :: "byte list list"
    by (metis append_take_drop_id concat_append length_append le_add1 min.absorb1 take_take that)
  have line: "drop (?A ! p) (take (?A ! Suc p) ?old) = drop (?B ! q) (take (?B ! Suc q) ?new)"
    using concat_slice [of p "Suc p" al base pre post] concat_slice [of q "Suc q" bl base pre' post] m(3-5) assms(4,5)
    by (simp add: A B take_Suc_conv_app_nth)
  have "bridges ?old ?new (?A ! Suc p) (?B ! Suc q) (hunks_between ?A ?B (Suc p) (Suc q) (ms @ [(length al, length bl)]))"
    using Cons.IH [OF m(6)] m(3,4) by simp
  then have rest: "bridges ?old ?new (?A ! p) (?B ! q) (hunks_between ?A ?B (Suc p) (Suc q) (ms @ [(length al, length bl)]))"
    by (rule bridges_extend) (use m(3,4) line mono [of p "Suc p"] mono [of q "Suc q"] in \<open>simp_all add: A B\<close>)
  show ?case
  proof (cases "p > x \<or> q > y")
    case True
    have "?A ! p \<le> length ?old" "?B ! q \<le> length ?new"
      using mono [of p "length al" al] mono [of q "length bl" bl] m(3,4) assms(4,5) by (simp_all add: A B)
    moreover have "?A ! x \<le> ?A ! p" "?B ! y \<le> ?B ! q" using mono m(1-4) by (simp_all add: A B)
    ultimately show ?thesis using True rest pq by auto
  next
    case False
    then have "x = p" "y = q" using m(1,2) by auto
    then show ?thesis using rest pq by simp
  qed
qed

section \<open>The diff\<close>

lemma concat_splitLines: "concat (splitLines b) = b"
proof (induction b rule: splitLines.induct)
  case (1 b)
  then show ?case by (subst splitLines.simps) (simp add: Let_def)
qed

lemma length_splitLines: "length (splitLines b) \<le> length b"
proof (induction b rule: splitLines.induct)
  case (1 b)
  show ?case
  proof (cases "b = []")
    case True
    then show ?thesis by (simp add: splitLines.simps)
  next
    case False
    define i where "i = (case index_func (\<lambda>c. c = nl) b of None \<Rightarrow> length b | Some k \<Rightarrow> k + 1)"
    have "1 \<le> i" using False by (auto simp: i_def Suc_le_eq split: option.splits)
    moreover have "length (splitLines (drop i b)) \<le> length (drop i b)" using 1 [OF False i_def] .
    moreover have "splitLines b = take i b # splitLines (drop i b)"
      using False by (subst splitLines.simps) (simp add: i_def Let_def)
    ultimately show ?thesis using False by (cases b) auto
  qed
qed

lemma kept_numbers:
  assumes "kept ai bi x y ms" "list_all2 (\<lambda>i l. i < length rs \<and> rs ! i = l) ai a" "list_all2 (\<lambda>i l. i < length rs \<and> rs ! i = l) bi b"
  shows "kept a b x y ms"
  using assms
proof (induction ai bi x y ms rule: kept.induct)
  case (2 ai bi x y i j ps)
  then have "i < length ai" "j < length bi" "ai ! i = bi ! j" "kept a b (Suc i) (Suc j) ps" "x \<le> i" "y \<le> j" by auto
  moreover from this have "rs ! (ai ! i) = a ! i" "rs ! (bi ! j) = b ! j"
    using list_all2_nthD [OF 2(3), of i] list_all2_nthD [OF 2(4), of j] by auto
  ultimately show ?case using list_all2_lengthD [OF 2(3)] list_all2_lengthD [OF 2(4)] by simp
qed simp

lemma index_func_drop: "index_func p xs = Some i \<Longrightarrow> i < length xs"
  using index_func_Some by blast

lemma common_ends:
  assumes "pre = common_head a b" "suf = common_tail a b pre"
  shows "pre + suf \<le> length a \<and> pre + suf \<le> length b \<and> take pre a = take pre b \<and>
    drop (length a - suf) a = drop (length b - suf) b"
proof -
  have p: "pre \<le> commonPrefix a b" by (simp add: assms(1) common_head_def Let_def)
  then have "take pre a = take pre b" "pre \<le> length a" "pre \<le> length b"
    using commonPrefix_take commonPrefix_le [of a b] by auto
  moreover have s: "suf \<le> commonSuffix (drop pre a) (drop pre b)"
    by (auto simp: assms(2) common_tail_def Let_def split: option.split)
  then have sl: "suf \<le> length a - pre" "suf \<le> length b - pre"
    using commonSuffix_le [of "drop pre a" "drop pre b"] by auto
  moreover have "drop (length a - suf) a = drop (length b - suf) b"
    using commonSuffix_drop [OF s] sl \<open>pre \<le> length a\<close> \<open>pre \<le> length b\<close> by simp
  ultimately show ?thesis by auto
qed

lemma hunks_end:
  assumes "kept al bl x y ms" "x \<le> length al" "y \<le> length bl" "h \<in> set (hunks_between (lineOffsets base al) (lineOffsets base bl) x y (ms @ [(length al, length bl)]))"
  shows "a_to h \<le> base + length (concat al)"
  using assms
proof (induction ms arbitrary: x y)
  case Nil
  then show ?case by (auto simp: lineOffsets_nth split: if_splits)
next
  case (Cons pq ms)
  have "length (concat (take i al)) \<le> length (concat al)" for i
    by (metis append_take_drop_id concat_append length_append le_add1)
  then show ?case using Cons by (cases pq) (auto simp: lineOffsets_nth Suc_le_eq split: if_splits)
qed

text \<open>
  Texts under 2 GiB, so that the code's 32-bit line numbers do not overflow.
\<close>

lemma lineDiff_bridges:
  assumes "length a + length b < 2 ^ 31"
  shows "\<exists>hs. lineDiff hash a b = Some hs \<and> bridges a b (common_head a b) (common_head a b) hs \<and> (hs = [] \<longrightarrow> a = b) \<and>
    (\<forall>h \<in> set hs. a_to h \<le> length a - common_tail a b (common_head a b))"
proof -
  define pre where "pre = common_head a b"
  define suf where "suf = common_tail a b pre"
  define am where "am = drop pre (take (length a - suf) a)"
  define bm where "bm = drop pre (take (length b - suf) b)"
  note ends = common_ends [OF pre_def suf_def]
  have "drop pre a = am @ drop (length a - suf) a" unfolding am_def by (rule drop_split) (use ends in linarith)
  then have a: "a = take pre a @ am @ drop (length a - suf) a" by (metis append_take_drop_id)
  have "drop pre b = bm @ drop (length b - suf) b" unfolding bm_def by (rule drop_split) (use ends in linarith)
  then have b: "b = take pre b @ bm @ drop (length a - suf) a" using ends by (metis append_take_drop_id)
  have eq: "lineDiff hash a b =
    (if am = [] \<and> bm = [] then Some []
     else case intern hash (splitLines am) (splitLines bm) of
            None \<Rightarrow> None
          | Some (ai, bi, n) \<Rightarrow> Some (hunks_between (lineOffsets pre (splitLines am)) (lineOffsets pre (splitLines bm)) 0 0
              (matchLines ai bi n @ [(length (splitLines am), length (splitLines bm))])))"
    unfolding lineDiff_def Let_def pre_def suf_def am_def bm_def by (rule refl)
  show ?thesis
  proof (cases "am = [] \<and> bm = []")
    case True
    then have "a = b" using a b ends by (metis append_Nil)
    moreover from this have "drop (common_head a b) a = drop (common_head a b) b" by simp
    moreover have "lineDiff hash a b = Some []" unfolding eq if_P [OF True] ..
    ultimately show ?thesis by (intro exI [of _ "[]"]) (simp only: bridges.simps list.set ball_empty simp_thms)
  next
    case False
    let ?al = "splitLines am" and ?bl = "splitLines bm"
    have "length am \<le> length a" "length bm \<le> length b" by (simp_all add: am_def bm_def)
    then have few: "length ?al + length ?bl < 2 ^ 31" using length_splitLines [of am] length_splitLines [of bm] assms by linarith
    obtain ai bi rs where i: "intern hash ?al ?bl = Some (ai, bi, length rs)"
      "list_all2 (\<lambda>i l. i < length rs \<and> rs ! i = l) ai ?al" "list_all2 (\<lambda>i l. i < length rs \<and> rs ! i = l) bi ?bl"
      using intern_ok [OF few] by blast
    have "\<forall>z \<in> set ai \<union> set bi. z < length rs" using i(2,3) by (auto simp: list_all2_conv_all_nth in_set_conv_nth)
    then have k: "kept ?al ?bl 0 0 (matchLines ai bi (length rs))" using matchLines_kept kept_numbers i(2,3) by blast
    let ?hs = "hunks_between (lineOffsets pre ?al) (lineOffsets pre ?bl) 0 0 (matchLines ai bi (length rs) @ [(length ?al, length ?bl)])"
    have d: "lineDiff hash a b = Some ?hs"
      unfolding eq if_not_P [OF False] i(1) by simp
    have "length (take pre a) = pre" "length (take pre b) = pre" using ends by auto
    from hunks_bridge [OF k _ _ this, of "drop (length a - suf) a"]
    have "bridges a b (lineOffsets pre ?al ! 0) (lineOffsets pre ?bl ! 0) ?hs"
      using a b by (simp add: concat_splitLines)
    moreover have "lineOffsets pre ls ! 0 = pre" for ls by (cases ls) simp_all
    ultimately have br: "bridges a b pre pre ?hs" by simp
    then have "bridges a b 0 0 ?hs" by (rule bridges_extend) (use ends in simp_all)
    then have "?hs = [] \<longrightarrow> a = b" by (cases ?hs) simp_all
    moreover have "pre + length (concat ?al) = length a - suf" using ends by (simp add: concat_splitLines am_def)
    then have "\<forall>h \<in> set ?hs. a_to h \<le> length a - suf" using hunks_end [OF k] by (metis le0)
    ultimately show ?thesis using d br unfolding pre_def suf_def by blast
  qed
qed

end
