(* ===== verification/Diff_Edits.thy ===== *)
theory Diff_Edits
  imports Line_Diff_Correct Buffer_Edits
begin

text \<open>
  From hunks to the buffer: the edits of a diff resolve to rising spans that do not overlap,
  so Apply takes them as they are, the text becomes the new one and anchors move by one span
  after another.
\<close>

section \<open>The spans of the hunks\<close>

fun hunk_spans :: "byte list \<Rightarrow> byte list \<Rightarrow> hunk list \<Rightarrow> nat \<Rightarrow> span list" where
  "hunk_spans old new [] i = []"
| "hunk_spans old new (h # hs) i =
     (case trim (drop (a_from h) (take (a_to h) old)) (drop (b_from h) (take (b_to h) new)) of
        (s, e, n) \<Rightarrow> (int (a_from h + s), int (a_from h + e), i) # hunk_spans old new hs (Suc i))"

lemma bridges_le: "bridges old new p q hs \<Longrightarrow> p \<le> length old \<Longrightarrow> \<forall>h \<in> set hs. p \<le> a_from h \<and> a_to h \<le> length old"
  by (induction old new p q hs rule: bridges.induct) auto

lemma trim_within:
  assumes "trim (drop f (take t old)) (drop f' (take t' new)) = (s, e, n)" "f \<le> t" "t \<le> length old"
  shows "s \<le> e \<and> f + e \<le> t"
  using trim_ok [OF assms(1)] assms(2,3) by auto

lemma edit_spans_hunks:
  assumes "buffer_ok b" "bridges (buffer_text b) new p q hs" "length (buffer_text b) < 2 ^ 63"
  shows "edit_spans b (map (hunk_edit (buffer_text b) new) hs) i = Inr (hunk_spans (buffer_text b) new hs i)"
  using assms(2)
proof (induction hs arbitrary: p q i)
  case (Cons h hs)
  let ?old = "buffer_text b"
  obtain s e n where t: "trim (drop (a_from h) (take (a_to h) ?old)) (drop (b_from h) (take (b_to h) new)) = (s, e, n)"
    by (metis prod_cases3)
  have w: "s \<le> e" "a_from h + e \<le> length ?old" using trim_within [OF t] Cons.prems by auto
  have "rope_len (brope b) = length ?old" using rope_len_text [of "brope b"] assms(1) by (simp add: buffer_ok_def buffer_text_def)
  moreover have "wrap64 (int (a_from h + s)) = int (a_from h + s)" "wrap64 (int (a_from h + s) + int (e - s)) = int (a_from h + e)"
    using w assms(3) by (simp_all add: wrap64_id)
  moreover have "edit_spans b (map (hunk_edit ?old new) hs) (Suc i) = Inr (hunk_spans ?old new hs (Suc i))"
    using Cons by auto
  moreover have "hunk_edit ?old new h = \<lparr>Anchor = startAnchor, Offset = int (a_from h + s), Delete = int (e - s), Text = n\<rparr>"
    by (simp add: hunk_edit_def t)
  ultimately show ?case using w by (simp add: t resolve_def Let_def)
qed simp

lemma hunk_spans_ok:
  "bridges old new p q hs \<Longrightarrow> p \<le> length old \<Longrightarrow> spans_ok (int p) (length old) (hunk_spans old new hs i)"
proof (induction hs arbitrary: p q i)
  case (Cons h hs)
  obtain s e n where t: "trim (drop (a_from h) (take (a_to h) old)) (drop (b_from h) (take (b_to h) new)) = (s, e, n)"
    by (metis prod_cases3)
  have w: "s \<le> e" "a_from h + e \<le> a_to h" using trim_within [OF t] Cons.prems by auto
  have "spans_ok (int (a_to h)) (length old) (hunk_spans old new hs (Suc i))" using Cons by auto
  then have "spans_ok (int (a_from h + e)) (length old) (hunk_spans old new hs (Suc i))"
    by (rule spans_ok_mono) (use w in simp_all)
  then show ?case using w Cons.prems by (simp add: t)
qed simp

lemma spans_ok_sorted:
  "spans_ok p n sps \<Longrightarrow> overlap sps = None \<and> sorted (map (\<lambda>(s, e, i). (s, e)) sps) \<and> (\<forall>(s, e, i) \<in> set sps. p \<le> s)"
proof (induction sps arbitrary: p)
  case (Cons sp sps)
  obtain s e i where sp: "sp = (s, e, i)" by (metis prod_cases3)
  have c: "p \<le> s" "s \<le> e" "spans_ok e n sps" using Cons.prems sp by auto
  note IH = Cons.IH [OF c(3)]
  have "(s, e) \<le> (s', e')" if "(s', e', i') \<in> set sps" for s' e' i'
  proof -
    have "e \<le> s'" using IH that by auto
    moreover have "s' \<le> e'" using c(3) that
    proof (induction sps arbitrary: e)
      case (Cons z zs)
      then show ?case by (cases z) auto
    qed simp
    ultimately show ?thesis using c(2) by auto
  qed
  moreover have "overlap (sp # sps) = None"
  proof (cases sps)
    case (Cons z zs)
    then show ?thesis using IH sp by (cases z) auto
  qed (simp add: sp)
  ultimately show ?case using IH c(1,2) by (auto simp: sp)
qed simp

lemma spans_ok_range: "spans_ok p n sps \<Longrightarrow> (s, e, i) \<in> set sps \<Longrightarrow> p \<le> s \<and> 0 \<le> s \<and> s \<le> e \<and> e \<le> int n"
proof (induction p n sps rule: spans_ok.induct)
  case (2 p n s' e' i' sps)
  then show ?case using spans_ok_le [of e' n sps] by auto
qed simp

lemma sort_spans_id:
  assumes "spans_ok p n sps" "n < 2 ^ 63"
  shows "sort_spans sps = sps"
proof -
  have "\<forall>x \<in> set sps. plain_span x" using spans_ok_range [OF assms(1)] assms(2) by (fastforce simp: plain_span_def)
  then have "sort_spans sps = sort_key span_key sps" by (rule sort_spans_stable)
  also have "\<dots> = sps" using spans_ok_sorted [OF assms(1)] by (simp add: sort_key_id_if_sorted span_key_pair)
  finally show ?thesis .
qed

section \<open>The text\<close>

lemma spliced_hunks:
  assumes "bridges old new p q hs" "p' \<le> p" "p \<le> length old" "q \<le> length new"
  shows "spliced old p' (span_texts (es @ map (hunk_edit old new) hs) (hunk_spans old new hs (length es))) =
    drop p' (take p old) @ drop q new"
  using assms
proof (induction hs arbitrary: p' p q es)
  case Nil
  then show ?case using drop_split [of p' p old] by (simp add: span_texts_def)
next
  case (Cons h hs)
  let ?ha = "drop (a_from h) (take (a_to h) old)" and ?hb = "drop (b_from h) (take (b_to h) new)"
  obtain s e n where t: "trim ?ha ?hb = (s, e, n)" by (metis prod_cases3)
  have h: "p \<le> a_from h" "a_from h \<le> a_to h" "a_to h \<le> length old" "b_from h \<le> b_to h" "b_to h \<le> length new" "q \<le> b_from h"
    "drop p (take (a_from h) old) = drop q (take (b_from h) new)" "bridges old new (a_to h) (b_to h) hs"
    using Cons.prems(1) by auto
  have w: "s \<le> e" "a_from h + e \<le> a_to h" using trim_within [OF t h(2,3)] by auto
  have whole: "take s ?ha @ n @ drop e ?ha = ?hb" using trim_ok [OF t] by simp
  let ?es = "es @ [hunk_edit old new h]"
  have IH: "spliced old (a_from h + e) (span_texts (?es @ map (hunk_edit old new) hs) (hunk_spans old new hs (length ?es))) =
      drop (a_from h + e) (take (a_to h) old) @ drop (b_to h) new"
    by (rule Cons.IH [OF h(8) w(2) h(3,5)])
  have "Text ((?es @ map (hunk_edit old new) hs) ! length es) = n" by (simp add: hunk_edit_def t nth_append)
  moreover have "hunk_spans old new (h # hs) (length es) =
      (int (a_from h + s), int (a_from h + e), length es) # hunk_spans old new hs (length ?es)" by (simp add: t)
  ultimately have "spliced old p' (span_texts (es @ map (hunk_edit old new) (h # hs)) (hunk_spans old new (h # hs) (length es))) =
      drop p' (take (a_from h + s) old) @ n @ drop (a_from h + e) (take (a_to h) old) @ drop (b_to h) new"
    using IH by (simp add: span_texts_def nat_add_distrib)
  also have "drop p' (take (a_from h + s) old) = drop p' (take p old) @ drop p (take (a_from h) old) @ take s ?ha"
  proof -
    have "drop p' (take (a_from h + s) old) = drop p' (take p old) @ drop p (take (a_from h + s) old)"
      by (rule take_split) (use Cons.prems(2) h(1) in simp_all)
    also have "drop p (take (a_from h + s) old) = drop p (take (a_from h) old) @ drop (a_from h) (take (a_from h + s) old)"
      by (rule take_split) (use h(1) in simp_all)
    also have "drop (a_from h) (take (a_from h + s) old) = take s ?ha" using w by (simp add: take_drop add.commute)
    finally show ?thesis by simp
  qed
  also have "drop (a_from h + e) (take (a_to h) old) = drop e ?ha" by (simp add: add.commute)
  also have "(drop p' (take p old) @ drop p (take (a_from h) old) @ take s ?ha) @ n @ drop e ?ha @ drop (b_to h) new =
      drop p' (take p old) @ drop q (take (b_from h) new) @ ?hb @ drop (b_to h) new"
    by (simp only: append_assoc h(7) whole [symmetric])
  also have "drop q (take (b_from h) new) @ ?hb @ drop (b_to h) new = drop q new"
    using drop_split [OF h(6), of new] drop_split [OF h(4), of new] by simp
  finally show ?case .
qed

section \<open>The anchors\<close>

text \<open>The spans are applied from the last to the first.\<close>

fun moved_by :: "bias \<Rightarrow> edit list \<Rightarrow> span list \<Rightarrow> int \<Rightarrow> int" where
  "moved_by side es [] q = q"
| "moved_by side es ((s, e, i) # sps) q = moved side s e (int (length (Text (es ! i)))) (moved_by side es sps q)"

lemma replace_spans_resolve:
  assumes "buffer_ok b" "spans_ok p (length (buffer_text b)) sps" "a \<noteq> startAnchor"
    "replace_spans b es sps = Some b'"
  shows "resolve b' a = map_option (moved_by (anchor_side a) es sps) (resolve b a)"
  using assms(2,4)
proof (induction sps arbitrary: p b')
  case Nil
  then show ?case by (simp add: option.map_ident)
next
  case (Cons sp sps)
  obtain s e i where sp: "sp = (s, e, i)" by (metis prod_cases3)
  let ?t = "buffer_text b"
  have c: "0 \<le> p" "p \<le> s" "s \<le> e" "spans_ok e (length ?t) sps" "e \<le> int (length ?t)" using Cons.prems sp spans_ok_le by auto
  obtain b1 where b1: "replace_spans b es sps = Some b1" "buffer_ok b1"
    "buffer_text b1 = take (nat e) ?t @ spliced ?t (nat e) (span_texts es sps)"
    using replace_spans_ok [OF assms(1) c(4), of es] by blast
  have "e \<le> int (length (buffer_text b1))" using b1(3) c by simp
  moreover have "buffer_replace b1 s e (Text (es ! i)) = Some b'" using Cons.prems(2) b1(1) by (simp add: sp)
  ultimately have "resolve b' a = map_option (moved (anchor_side a) s e (int (length (Text (es ! i))))) (resolve b1 a)"
    using replace_resolve [OF b1(2) _ c(3) _ assms(3), of "Text (es ! i)"] c by auto
  then show ?case using Cons.IH [OF c(4) b1(1)] by (simp add: sp option.map_comp comp_def)
qed

lemma apply_spans_ok:
  assumes ok: "buffer_ok b" and sps: "edit_spans b es 0 = Inr sps" "spans_ok 0 (length (buffer_text b)) sps"
    and small: "length (buffer_text b) < 2 ^ 63"
  shows "\<exists>b'. apply_edits b es = Inr b' \<and> buffer_ok b' \<and> buffer_text b' = spliced (buffer_text b) 0 (span_texts es sps) \<and>
    version b' = version b + (if es = [] then 0 else 1) \<and> (es = [] \<longrightarrow> b' = b) \<and>
    (\<forall>a. a \<noteq> startAnchor \<longrightarrow> resolve b' a = map_option (moved_by (anchor_side a) es sps) (resolve b a))"
proof -
  have s: "sort_spans sps = sps" "overlap sps = None" using spans_ok_sorted [OF sps(2)] sort_spans_id [OF sps(2) small] by auto
  obtain b1 where b1: "replace_spans b es sps = Some b1" and b1_ok: "buffer_ok b1" "version b1 = version b"
    "buffer_text b1 = spliced (buffer_text b) 0 (span_texts es sps)" using replace_spans_ok [OF ok sps(2), of es] by auto
  have len: "length sps = length es" using edit_spans_any [OF ok sps(1)] by simp
  let ?b = "if sps \<noteq> [] then b1\<lparr>version := version b1 + 1\<rparr> else b1"
  have ap: "apply_edits b es = Inr ?b" using sps(1) s b1 by (simp add: apply_edits_def Let_def)
  then have "buffer_ok ?b \<and> version ?b = version b + (if es = [] then 0 else 1) \<and>
      buffer_text ?b = spliced (buffer_text b) 0 (span_texts es sps)"
    using apply_edits_keeps [OF ok ap] b1_ok len by (auto simp: buffer_text_def)
  moreover have "es = [] \<longrightarrow> ?b = b" using b1 len by auto
  moreover have "resolve ?b a = resolve b1 a" for a
    by (simp add: resolve_def side_tree_def split: bias.split)
  then have "\<forall>a. a \<noteq> startAnchor \<longrightarrow> resolve ?b a = map_option (moved_by (anchor_side a) es sps) (resolve b a)"
    using replace_spans_resolve [OF ok sps(2) _ b1] by simp
  ultimately show ?thesis using ap by blast
qed

lemma moved_by_before: "spans_ok p n sps \<Longrightarrow> q < p \<Longrightarrow> moved_by side es sps q = q"
proof (induction sps arbitrary: p)
  case (Cons sp sps)
  obtain s e i where sp: "sp = (s, e, i)" by (metis prod_cases3)
  then have "spans_ok e n sps" "q < e" "q < s" using Cons.prems by auto
  then show ?case using Cons.IH by (simp add: sp moved_def)
qed simp

definition growth :: "edit list \<Rightarrow> span list \<Rightarrow> int" where
  "growth es sps = sum_list (map (\<lambda>(s, e, i). int (length (Text (es ! i))) - (e - s)) sps)"

lemma moved_by_after:
  assumes "spans_ok p n sps" "\<forall>(s, e, i) \<in> set sps. e < q" "p < q"
  shows "moved_by side es sps q = q + growth es sps \<and> p < moved_by side es sps q"
  using assms
proof (induction sps arbitrary: p)
  case (Cons sp sps)
  obtain s e i where sp: "sp = (s, e, i)" by (metis prod_cases3)
  have c: "p \<le> s" "s \<le> e" "spans_ok e n sps" "e < q" using Cons.prems sp by auto
  have IH: "moved_by side es sps q = q + growth es sps" "e < moved_by side es sps q" using Cons.IH [OF c(3) _ c(4)] Cons.prems by auto
  then show ?case using c by (simp add: sp moved_def growth_def)
qed (simp add: growth_def)

lemma length_spliced:
  "spans_ok p (length t) sps \<Longrightarrow> int (length (spliced t (nat p) (span_texts es sps))) = int (length t) - p + growth es sps"
proof (induction sps arbitrary: p)
  case (Cons sp sps)
  obtain s e i where sp: "sp = (s, e, i)" by (metis prod_cases3)
  have c: "0 \<le> p" "p \<le> s" "s \<le> e" "spans_ok e (length t) sps" using Cons.prems sp by auto
  moreover have "e \<le> int (length t)" using spans_ok_le [OF c(4)] .
  ultimately show ?case using Cons.IH [OF c(4)] by (simp add: sp span_texts_def growth_def)
qed (auto simp: span_texts_def growth_def of_nat_diff nat_le_iff)

lemma hunk_spans_end:
  assumes "bridges old new p q hs" "\<forall>h \<in> set hs. a_to h \<le> m" "(s, e, k) \<in> set (hunk_spans old new hs i)"
  shows "e \<le> int m"
  using assms
proof (induction hs arbitrary: p q i)
  case (Cons h hs)
  obtain s' e' n where t: "trim (drop (a_from h) (take (a_to h) old)) (drop (b_from h) (take (b_to h) new)) = (s', e', n)"
    by (metis prod_cases3)
  have "a_from h + e' \<le> a_to h" using trim_within [OF t] Cons.prems(1) by auto
  then show ?case using Cons by (auto simp: t)
qed simp

lemma rope_bytes_text: "rope_ok r \<Longrightarrow> rope_bytes r = rope_text r"
  by (simp add: rope_bytes_def append_range_text rope_len_text)

section \<open>The whole diff\<close>

lemma apply_diff_ok:
  assumes ok: "buffer_ok b" and few: "length (buffer_text b) + length new < 2 ^ 31"
  shows "\<exists>b'. apply_diff hash b new = Some (Inr b') \<and> buffer_ok b' \<and> buffer_text b' = new \<and>
    (version b' = version b \<longrightarrow> new = buffer_text b) \<and>
    (\<forall>a q. a \<noteq> startAnchor \<and> resolve b a = Some q \<longrightarrow>
      (q < int (common_head (buffer_text b) new) \<longrightarrow> resolve b' a = Some q) \<and>
      (q > int (length (buffer_text b) - common_tail (buffer_text b) new (common_head (buffer_text b) new)) \<longrightarrow>
        resolve b' a = Some (q + int (length new) - int (length (buffer_text b)))))"
proof -
  let ?old = "buffer_text b"
  let ?pre = "common_head ?old new"
  let ?stop = "length ?old - common_tail ?old new ?pre"
  obtain hs where hs: "lineDiff hash ?old new = Some hs" "bridges ?old new ?pre ?pre hs" "hs = [] \<longrightarrow> ?old = new"
    "\<forall>h \<in> set hs. a_to h \<le> ?stop"
    using lineDiff_bridges [OF few] by blast
  let ?es = "map (hunk_edit ?old new) hs" and ?sps = "hunk_spans ?old new hs 0"
  have pre: "?pre \<le> length ?old" "?pre \<le> length new" "take ?pre ?old = take ?pre new" "?pre \<le> ?stop"
    using common_ends [OF refl refl, of ?old new] by auto
  have sps: "spans_ok (int ?pre) (length ?old) ?sps" by (rule hunk_spans_ok [OF hs(2) pre(1)])
  have spans: "edit_spans b ?es 0 = Inr ?sps" by (rule edit_spans_hunks [OF ok hs(2)]) (use few in simp)
  obtain b' where b': "apply_edits b ?es = Inr b'" "buffer_ok b'" "buffer_text b' = spliced ?old 0 (span_texts ?es ?sps)"
    "version b' = version b + (if ?es = [] then 0 else 1)"
    "\<And>a. a \<noteq> startAnchor \<Longrightarrow> resolve b' a = map_option (moved_by (anchor_side a) ?es ?sps) (resolve b a)"
    using apply_spans_ok [OF ok spans spans_ok_mono [OF sps]] few by auto
  have "rope_bytes (brope b) = ?old" using ok by (simp add: buffer_ok_def buffer_text_def rope_bytes_text)
  then have ap: "apply_diff hash b new = Some (Inr b')" using hs(1) b'(1) by (simp add: apply_diff_def)
  have "spliced ?old 0 (span_texts ([] @ ?es) (hunk_spans ?old new hs (length ([] :: edit list)))) = drop 0 (take ?pre ?old) @ drop ?pre new"
    by (rule spliced_hunks [OF hs(2) _ pre(1,2)]) simp
  then have whole: "buffer_text b' = new" using b'(3) pre(3) by simp
  have "version b' = version b \<longrightarrow> hs = []" using b'(4) by (cases hs) auto
  then have ver: "version b' = version b \<longrightarrow> new = ?old" using hs(3) by blast
  have grow: "int (length new) = int (length ?old) + growth ?es ?sps"
    using length_spliced [OF spans_ok_mono [OF sps], of 0 ?es] b'(3) whole by simp
  have "resolve b' a = Some q" if "a \<noteq> startAnchor" "resolve b a = Some q" "q < int ?pre" for a q
    using b'(5) [OF that(1)] that(2) moved_by_before [OF sps that(3)] by simp
  moreover have "resolve b' a = Some (q + int (length new) - int (length ?old))"
    if "a \<noteq> startAnchor" "resolve b a = Some q" "q > int ?stop" for a q
  proof -
    have "\<forall>(s, e, i) \<in> set ?sps. e < q" using hunk_spans_end [OF hs(2,4)] that(3) by fastforce
    moreover have "int ?pre < q" using pre(4) that(3) by linarith
    ultimately have "moved_by (anchor_side a) ?es ?sps q = q + growth ?es ?sps" using moved_by_after [OF sps] by blast
    then show ?thesis using b'(5) [OF that(1)] that(2) grow by simp
  qed
  ultimately show ?thesis using ap b'(2) whole ver by blast
qed

end
