(* ===== verification/Diff_Properties.thy ===== *)
theory Diff_Properties
  imports Diff_Edits Text_Properties
begin

text \<open>
  The properties of the line diff: it returns the new text whatever the hash, moves no
  anchor outside the change, and its parts do what they say.
\<close>

text \<open>
  C37. ApplyDiff always returns, never panics on its own edits, and leaves exactly the text it
  was given, in a well-formed buffer whose version it counts up unless the text was the
  same; for texts under 2 GiB together, whatever the line hash.
\<close>

theorem diff_sets_text:
  assumes "buffer_ok b" "length (buffer_text b) + length new < 2 ^ 31"
  shows "\<exists>b'. apply_diff hash b new = Some (Inr b') \<and> rope_string (brope b') = new \<and> buffer_ok b' \<and>
    (version b' = version b \<longrightarrow> new = rope_string (brope b))"
proof -
  obtain b' where b': "apply_diff hash b new = Some (Inr b')" "buffer_ok b'" "buffer_text b' = new"
    "version b' = version b \<longrightarrow> new = buffer_text b"
    using apply_diff_ok [OF assms] by blast
  have "rope_string (brope c) = buffer_text c" if "buffer_ok c" for c
    using that rope_string_text by (simp add: buffer_ok_def buffer_text_def)
  then show ?thesis using b' assms(1) by auto
qed

theorem diff_sets_text_witness:
  "\<exists>b'. apply_diff (\<lambda>_. 0) demo_buffer [97, 98, 10, 120, 10] = Some (Inr b') \<and> rope_string (brope b') = [97, 98, 10, 120, 10]"
  using diff_sets_text [OF demo_buffer_ok(1), of "[97, 98, 10, 120, 10]" "\<lambda>_. 0"] demo_buffer_ok(2)
  by (auto simp: demo_text_def)

text \<open>
  A diff leaves every anchor before the first changed line where it is and moves every
  anchor after the last one by the difference in length.
\<close>

theorem diff_keeps_outer_anchors:
  assumes "buffer_ok b" "length (buffer_text b) + length new < 2 ^ 31" "apply_diff hash b new = Some (Inr b')"
    "a \<noteq> startAnchor" "resolve b a = Some q"
  shows "(q < int (common_head (buffer_text b) new) \<longrightarrow> resolve b' a = Some q) \<and>
    (q > int (length (buffer_text b) - common_tail (buffer_text b) new (common_head (buffer_text b) new)) \<longrightarrow>
      resolve b' a = Some (q + int (length new) - int (length (buffer_text b))))"
  using apply_diff_ok [OF assms(1,2), of hash] assms(3-5) by auto

theorem diff_keeps_outer_anchors_witness:
  "\<exists>b b' a. resolve b a = Some 3 \<and> apply_diff (\<lambda>_. 0) b [120, 121, 122, 10, 99, 100] = Some (Inr b') \<and>
    resolve b' a = Some 5"
proof -
  have "length (keys (side_tree (new_buffer [97, 10, 99, 100]) right)) + 1 < 2 ^ 31"
    by (simp add: new_buffer_def side_tree_def new_anchor_tree_def)
  from make_anchor_ok [OF conjunct1 [OF new_buffer_ok] _ _ this, of 3] new_buffer_ok [of "[97, 10, 99, 100]"]
  obtain b h where b: "buffer_ok b" "buffer_text b = [97, 10, 99, 100]" "h \<noteq> startAnchor" "resolve b h = Some 3"
    by fastforce
  have few: "length (buffer_text b) + length [120, 121, 122, 10, 99, 100 :: byte] < 2 ^ 31" by (simp add: b(2))
  obtain b' where b': "apply_diff (\<lambda>_. 0) b [120, 121, 122, 10, 99, 100] = Some (Inr b')"
    using apply_diff_ok [OF b(1) few] by blast
  have "common_head [97, 10, 99, 100] [120, 121, 122, 10, 99, 100] = 0"
    "common_tail [97, 10, 99, 100] [120, 121, 122, 10, 99, 100] 0 = 2" by code_simp+
  then have "resolve b' h = Some 5" using diff_keeps_outer_anchors [OF b(1) few b' b(3,4)] by (simp add: b(2))
  then show ?thesis using b b' by auto
qed

text \<open>
  C38. Myers' search returns a longest common subsequence of the two sides, as rising pairs of
  equal lines, and gives up exactly when every common subsequence leaves more than
  maxDiffEdits lines unmatched: what it returns leaves no more than that, and where it returns
  nothing every common subsequence leaves more.
\<close>

theorem myers_longest_subsequence:
  "case myers a b of
     Some ps \<Rightarrow> kept a b 0 0 ps \<and> (\<forall>qs. length ps < length qs \<longrightarrow> \<not> kept a b 0 0 qs) \<and>
       length a + length b \<le> maxDiffEdits + 2 * length ps
   | None \<Rightarrow> (\<forall>qs. length a + length b \<le> maxDiffEdits + 2 * length qs \<longrightarrow> \<not> kept a b 0 0 qs)"
  using myers_ok [of a b] by (auto split: option.splits)

theorem myers_longest_subsequence_witness:
  "kept [1, 2, 3, 1] [2, 1, 3, 1] 0 0 (the (myers [1, 2, 3, 1] [2, 1, 3, 1])) \<and> myers [1, 2, 3, 1] [2, 1, 3, 1] \<noteq> None"
proof -
  have m: "myers [1, 2, 3, 1] [2, 1, 3, 1] = Some [(1, 0), (2, 2), (3, 3)]" by code_simp
  then show ?thesis using myers_longest_subsequence [of "[1, 2, 3, 1]" "[2, 1, 3, 1]"] by simp
qed

text \<open>
  The increasing run of the patience match is a subsequence of the pairs, given by rising
  indices, whose second parts rise, and no other such subsequence is longer.
\<close>

theorem increasing_is_longest:
  "\<exists>js. increasing ps = map ((!) ps) js \<and> run_of (\<lambda>j. snd (ps ! j)) js \<and> set js \<subseteq> {..<length ps} \<and>
    (\<forall>is. length js < length is \<longrightarrow> \<not> (run_of (\<lambda>j. snd (ps ! j)) is \<and> set is \<subseteq> {..<length ps}))"
  using increasing_longest_run [of ps] by (meson not_le)

theorem increasing_is_longest_witness:
  "increasing [(0, 4), (1, 1), (2, 7), (3, 2), (5, 3)] = [(1, 1), (3, 2), (5, 3)] \<and>
    (\<exists>js. increasing [(0, 4), (1, 1), (2, 7), (3, 2), (5, 3)] = map ((!) [(0, 4), (1, 1), (2, 7), (3, 2), (5, 3)]) js)"
proof -
  have "increasing [(0, 4), (1, 1), (2, 7), (3, 2), (5, 3)] = [(1, 1), (3, 2), (5, 3)]" by code_simp
  then show ?thesis using increasing_is_longest [of "[(0, 4), (1, 1), (2, 7), (3, 2), (5, 3)]"] by metis
qed

text \<open>
  C39. Numbering lines always ends, although a probe loops until it finds its slot, for fewer
  than 2^31 lines and whatever the hash. Each side gets one number per line, all below the
  count returned, two lines of either side or of both get the same number exactly when they
  are equal, and the count is that of the distinct lines.
\<close>

theorem intern_numbers_lines:
  assumes "length a + length b < 2 ^ 31"
  shows "case intern hash a b of
      None \<Rightarrow> False
    | Some (ai, bi, n) \<Rightarrow> length ai = length a \<and> length bi = length b \<and> n = card (set (a @ b)) \<and>
        list_all (\<lambda>i. i < n) (ai @ bi) \<and>
        list_all (\<lambda>(i, l). list_all (\<lambda>(j, l'). i = j \<longleftrightarrow> l = l') (zip (ai @ bi) (a @ b))) (zip (ai @ bi) (a @ b))"
proof -
  obtain ai bi rs where r: "intern hash a b = Some (ai, bi, length rs)" "distinct rs" "set rs \<subseteq> set (a @ b)"
    "list_all2 (\<lambda>i l. i < length rs \<and> rs ! i = l) ai a" "list_all2 (\<lambda>i l. i < length rs \<and> rs ! i = l) bi b"
    using intern_ok [OF assms(1)] by blast
  have both: "list_all2 (\<lambda>i l. i < length rs \<and> rs ! i = l) (ai @ bi) (a @ b)"
    using r(4,5) by (rule list_all2_appendI)
  then have at: "i < length rs \<and> rs ! i = l" if "(i, l) \<in> set (zip (ai @ bi) (a @ b))" for i l
    using that by (auto simp: list_all2_iff)
  have "set (a @ b) \<subseteq> set rs"
  proof
    fix l assume "l \<in> set (a @ b)"
    then obtain i where "(i, l) \<in> set (zip (ai @ bi) (a @ b))"
      using in_set_impl_in_set_zip2 [OF list_all2_lengthD [OF both]] by blast
    with at [of i l] show "l \<in> set rs" by auto
  qed
  then have "length rs = card (set (a @ b))" using r(2,3) by (metis distinct_card subset_antisym)
  moreover have "list_all (\<lambda>i. i < length rs) (ai @ bi)"
    using both by (auto simp: list_all2_conv_all_nth list_all_length)
  moreover have "(i = j) = (l = l')"
    if "(i, l) \<in> set (zip (ai @ bi) (a @ b))" "(j, l') \<in> set (zip (ai @ bi) (a @ b))" for i l j l'
    using at [OF that(1)] at [OF that(2)] nth_eq_iff_index_eq [OF r(2), of i j] by metis
  then have "list_all (\<lambda>(i, l). list_all (\<lambda>(j, l'). i = j \<longleftrightarrow> l = l') (zip (ai @ bi) (a @ b))) (zip (ai @ bi) (a @ b))"
    unfolding list_all_iff by blast
  ultimately show ?thesis using r(1) list_all2_lengthD [OF r(4)] list_all2_lengthD [OF r(5)] by simp
qed

definition demo_lines :: "byte list list" where
  "demo_lines = [[97, 10], [98, 10], [97, 10]]"

lemma demo_lines_card: "card (set demo_lines) = 2" "length demo_lines = 3"
  by code_simp+

theorem intern_numbers_lines_witness:
  "case intern (\<lambda>_. 7) [] demo_lines of
     None \<Rightarrow> False | Some (ai, bi, n) \<Rightarrow> ai = [] \<and> n = 2 \<and> bi ! 0 = bi ! 2 \<and> bi ! 0 \<noteq> bi ! 1"
proof -
  note I = intern_numbers_lines [of "[]" "demo_lines" "\<lambda>_. 7"]
  then obtain ai bi n where r: "intern (\<lambda>_. 7) [] demo_lines = Some (ai, bi, n)"
    by (cases "intern (\<lambda>_. 7) [] demo_lines") (auto simp: demo_lines_card)
  then have "case (ai, bi, n) of (ai, bi, n) \<Rightarrow> length ai = 0 \<and> length bi = 3 \<and> n = card (set demo_lines) \<and>
      list_all (\<lambda>(i, l). list_all (\<lambda>(j, l'). i = j \<longleftrightarrow> l = l') (zip (ai @ bi) demo_lines))
        (zip (ai @ bi) demo_lines)"
    using I by (auto simp: demo_lines_card)
  then have ai: "ai = []" and n: "n = 2" and len: "length bi = 3"
    and p: "list_all (\<lambda>(i, l). list_all (\<lambda>(j, l'). i = j \<longleftrightarrow> l = l') (zip (ai @ bi) demo_lines))
        (zip (ai @ bi) demo_lines)"
    by (auto simp: demo_lines_card)
  obtain x y z where bi: "bi = [x, y, z]" using len by (auto simp: length_Suc_conv numeral_3_eq_3)
  have q: "(i = j) = (l = l')" if "(i, l) \<in> set (zip bi demo_lines)" "(j, l') \<in> set (zip bi demo_lines)" for i l j l'
    using p that unfolding ai list_all_iff append_Nil by blast
  have "x = z" "x \<noteq> y" using q [of x "[97, 10]" z "[97, 10]"] q [of x "[97, 10]" y "[98, 10]"]
    by (simp_all add: bi demo_lines_def)
  then show ?thesis using r ai n bi by simp
qed

end
