(* ===== verification/Change_Regions.thy ===== *)
theory Change_Regions
  imports Line_Match Rope
begin

text \<open>
  What changed between two versions of a file: \<open>src/types/hunks.go\<close> (SplitLines, lineMatches,
  PlaceHunk, Hunks, MatchDiffDriver) and the locations of \<open>src/types/change.go\<close>. Text is
  bytes. The declarations that a driver's patterns place, which the code computes with Go's
  regexp and go/scanner, are a parameter: a function of the driver's name and the lines.
\<close>

unbundle bit_operations_syntax

section \<open>Text\<close>

definition ascii :: "string \<Rightarrow> byte list" where
  "ascii s = map of_char s"

function SplitLines :: "byte list \<Rightarrow> byte list list" where
  "SplitLines s =
     (if s = [] then []
      else case index_func (\<lambda>c. c = nl) s of
             None \<Rightarrow> [s]
           | Some i \<Rightarrow> take (i + 1) s # SplitLines (drop (i + 1) s))"
  by pat_completeness auto
termination
  by (relation "measure length") auto

declare SplitLines.simps [simp del]

text \<open>\<open>strings.TrimSpace\<close> leaves nothing: only white space, in ASCII or encoded in UTF-8.\<close>

fun blank :: "byte list \<Rightarrow> bool" where
  "blank [] \<longleftrightarrow> True"
| "blank (c # cs) \<longleftrightarrow>
     (if c \<in> {9, 10, 11, 12, 13, 32} then blank cs
      else case cs of
             d # ds \<Rightarrow>
               (if c = 0xC2 \<and> d \<in> {0x85, 0xA0} then blank ds
                else case ds of
                       e # es \<Rightarrow>
                         (c = 0xE1 \<and> d = 0x9A \<and> e = 0x80 \<or>
                          c = 0xE2 \<and> d = 0x80 \<and> (0x80 \<le> e \<and> e \<le> 0x8A \<or> e \<in> {0xA8, 0xA9, 0xAF}) \<or>
                          c = 0xE2 \<and> d = 0x81 \<and> e = 0x9F \<or> c = 0xE3 \<and> d = 0x80 \<and> e = 0x80) \<and> blank es
                     | [] \<Rightarrow> False)
           | [] \<Rightarrow> False)"

section \<open>Locations\<close>

datatype location = Location (loc_path: "byte list") (loc_decl: "byte list")

text \<open>Locations sort by path, then by declaration, both byte by byte.\<close>

instantiation location :: linorder
begin

definition less_eq_location :: "location \<Rightarrow> location \<Rightarrow> bool" where
  "x \<le> y \<longleftrightarrow> loc_path x < loc_path y \<or> loc_path x = loc_path y \<and> loc_decl x \<le> loc_decl y"

definition less_location :: "location \<Rightarrow> location \<Rightarrow> bool" where
  "x < y \<longleftrightarrow> loc_path x < loc_path y \<or> loc_path x = loc_path y \<and> loc_decl x < loc_decl y"

instance
  by standard (auto simp: less_eq_location_def less_location_def intro: location.expand)

end

datatype region_side = RegionOld | RegionNew

record region =
  rpath :: "byte list"
  rside :: region_side
  rfirst :: nat
  rlast :: nat
  rdecl :: "byte list"
  rdriver :: "byte list"

definition preamble :: "byte list" where
  "preamble = ascii ''(preamble)''"

definition region_location :: "region \<Rightarrow> location" where
  "region_location r =
     (if rdriver r = [] then Location (rpath r) []
      else if rdecl r = [] then Location (rpath r) preamble
      else Location (rpath r) (rdecl r))"

text \<open>The code collects the locations by path in a map; sorting makes its order of paths irrelevant.\<close>

definition collisions :: "location list \<Rightarrow> location list \<Rightarrow> location list" where
  "collisions a b =
     compact (sort (concat (map (\<lambda>p.
       let locsA = filter (\<lambda>l. loc_path l = p) a; locsB = filter (\<lambda>l. loc_path l = p) b;
           wholeA = list_ex (\<lambda>l. loc_decl l = []) locsA; wholeB = list_ex (\<lambda>l. loc_decl l = []) locsB
       in if locsB = [] then []
          else (if wholeA then locsB else []) @ (if wholeB then locsA else []) @
               (if \<not> wholeA \<and> \<not> wholeB then filter (\<lambda>l. l \<in> set locsB) locsA else []))
       (remdups (map loc_path a)))))"

section \<open>Drivers\<close>

definition slash :: byte where
  "slash = 47"

text \<open>\<open>path.Base\<close>.\<close>

definition path_base :: "byte list \<Rightarrow> byte list" where
  "path_base p =
     (if p = [] then ascii ''.''
      else
        let q = rev (dropWhile (\<lambda>c. c = slash) (rev p));
            e = rev (takeWhile (\<lambda>c. c \<noteq> slash) (rev q))
        in if e = [] then [slash] else e)"

text \<open>The names of the drivers with the endings of their globs, a star and the ending each.\<close>

definition diff_drivers :: "(byte list \<times> byte list list) list" where
  "diff_drivers =
     [(ascii ''golang'', [ascii ''.go'']), (ascii ''python'', [ascii ''.py'']), (ascii ''rust'', [ascii ''.rs'']),
      (ascii ''markdown'', [ascii ''.md'']), (ascii ''typescript'', [ascii ''.ts'', ascii ''.tsx'']),
      (ascii ''buzz'', [ascii ''.buzz'']), (ascii ''yaml'', [ascii ''.yaml'', ascii ''.yml''])]"

definition glob_ends :: "byte list \<Rightarrow> byte list \<Rightarrow> bool" where
  "glob_ends e base \<longleftrightarrow> length e \<le> length base \<and> drop (length base - length e) base = e \<and>
     slash \<notin> set (take (length base - length e) base)"

definition match_diff_driver :: "byte list \<Rightarrow> byte list option" where
  "match_diff_driver p = map_option fst (find (\<lambda>(name, ends). list_ex (\<lambda>e. glob_ends e (path_base p)) ends) diff_drivers)"

section \<open>Hunks\<close>

definition maxHunkEdits :: nat where
  "maxHunkEdits = 2000"

definition line_matches :: "'a list \<Rightarrow> 'a list \<Rightarrow> pairs option" where
  "line_matches a b =
     (let pre = commonPrefix a b;
          suf = commonSuffix (drop pre a) (drop pre b)
      in case myers_within maxHunkEdits (drop pre (take (length a - suf) a)) (drop pre (take (length b - suf) b)) of
           None \<Rightarrow> None
         | Some mid \<Rightarrow>
             Some (map (\<lambda>i. (i, i)) [0..<pre] @ map (\<lambda>(i, j). (pre + i, pre + j)) mid @
                   map (\<lambda>i. (length a - suf + i, length b - suf + i)) [0..<suf]))"

text \<open>The declarations of lines [from, to): leading blank lines go to the first line after them.\<close>

definition place_hunk :: "byte list list \<Rightarrow> byte list list \<Rightarrow> nat \<Rightarrow> nat \<Rightarrow> byte list list" where
  "place_hunk lines decls from' to' =
     (let out = map (\<lambda>i. if i < length decls then decls ! i else []) [from'..<to'];
          lead = from' + length (takeWhile blank (drop from' (take to' lines)))
      in if lead < to' then map (\<lambda>i. if from' + i < lead then out ! (lead - from') else out ! i) [0..<length out] else out)"

text \<open>One region per run of lines with the same declaration.\<close>

fun decl_runs :: "nat \<Rightarrow> byte list list \<Rightarrow> (nat \<times> nat \<times> byte list) list" where
  "decl_runs line [] = []"
| "decl_runs line (d # ds) =
     (let n = length (takeWhile (\<lambda>d'. d' = d) ds)
      in (line, line + n, d) # decl_runs (line + n + 1) (drop n ds))"

definition emit :: "byte list \<Rightarrow> region_side \<Rightarrow> nat \<Rightarrow> nat \<Rightarrow> byte list list \<Rightarrow> (byte list \<times> byte list list) option \<Rightarrow> region list" where
  "emit p side from' to' lines decls =
     (case decls of
        None \<Rightarrow>
          if from' < to' then [\<lparr>rpath = p, rside = side, rfirst = from' + 1, rlast = to', rdecl = [], rdriver = []\<rparr>] else []
      | Some (name, ds) \<Rightarrow>
          map (\<lambda>(line, e, d). \<lparr>rpath = p, rside = side, rfirst = line + 1, rlast = e + 1, rdecl = d, rdriver = name\<rparr>)
            (decl_runs from' (place_hunk lines ds from' to')))"

fun hunks_loop :: "byte list \<Rightarrow> byte list list \<Rightarrow> byte list list \<Rightarrow> (byte list \<times> byte list list) option \<Rightarrow>
    (byte list \<times> byte list list) option \<Rightarrow> nat \<Rightarrow> nat \<Rightarrow> pairs \<Rightarrow> region list" where
  "hunks_loop p old new oldDecls newDecls io i [] = []"
| "hunks_loop p old new oldDecls newDecls io i ((x, y) # ps) =
     emit p RegionOld io x old oldDecls @ emit p RegionNew i y new newDecls @
     hunks_loop p old new oldDecls newDecls (x + 1) (y + 1) ps"

definition hunks :: "(byte list \<Rightarrow> byte list list \<Rightarrow> byte list list) \<Rightarrow> byte list \<Rightarrow> byte list \<Rightarrow> byte list \<Rightarrow> byte list option \<Rightarrow> region list option" where
  "hunks declarations p old new driver =
     (if 0 \<in> set old \<or> 0 \<in> set new then None
      else
        let o' = SplitLines old; n = SplitLines new
        in case line_matches o' n of
             None \<Rightarrow> None
           | Some ps \<Rightarrow>
               Some (hunks_loop p o' n (map_option (\<lambda>d. (d, declarations d o')) driver) (map_option (\<lambda>d. (d, declarations d n)) driver)
                 0 0 (ps @ [(length o', length n)])))"

end
