(* ===== verification/Three_Way.thy ===== *)
theory Three_Way
  imports Change_Regions
begin

text \<open>
  The three-way merge, \<open>src/types/threeway.go\<close>: both sides aligned to the base, and a walk
  that merges region by region between the base lines that both kept. A base line that a
  side dropped is -1 in its map, as in the code.
\<close>

section \<open>Alignment\<close>

datatype merge_kind = NotSettled | MergeContained | MergeBothAdded | MergeByClaim | MergeImportSet

record merge_region =
  locations_of :: "location list"
  kind_of :: merge_kind

record merge_resolution =
  content :: "byte list option"
  regions :: "merge_region list"

record merge_alignment =
  mpath :: "byte list"
  base_lines :: "byte list list"
  our_lines :: "byte list list"
  their_lines :: "byte list list"
  ma :: "int list"
  mb :: "int list"
  hunksA :: "region list"
  hunksB :: "region list"

definition kept_lines :: "'a list \<Rightarrow> 'a list \<Rightarrow> int list option" where
  "kept_lines o' s =
     map_option (foldl (\<lambda>m (i, j). m[i := int j]) (replicate (length o') (- 1))) (line_matches o' s)"

definition align_merge :: "(byte list \<Rightarrow> byte list list \<Rightarrow> byte list list) \<Rightarrow> byte list \<Rightarrow> byte list \<Rightarrow> byte list \<Rightarrow> byte list \<Rightarrow> merge_alignment option" where
  "align_merge declarations p base ours theirs =
     (let driver = match_diff_driver p
      in case hunks declarations p base ours driver of
           None \<Rightarrow> None
         | Some ha \<Rightarrow>
             (case hunks declarations p base theirs driver of
                None \<Rightarrow> None
              | Some hb \<Rightarrow>
                  let o' = SplitLines base; a = SplitLines ours; b = SplitLines theirs
                  in case (kept_lines o' a, kept_lines o' b) of
                       (Some x, Some y) \<Rightarrow>
                         Some \<lparr>mpath = p, base_lines = o', our_lines = a, their_lines = b, ma = x, mb = y, hunksA = ha, hunksB = hb\<rparr>
                     | _ \<Rightarrow> None))"

section \<open>Naming a region\<close>

definition hunks_over :: "region list \<Rightarrow> nat \<Rightarrow> nat \<Rightarrow> nat \<Rightarrow> nat \<Rightarrow> region list" where
  "hunks_over hs lo hi sLo sHi =
     filter (\<lambda>h.
       let (from', to') = (if rside h = RegionNew then (sLo, sHi) else (lo, hi))
       in int (rfirst h) - 1 < int to' \<and> int (rlast h) - 1 \<ge> int from') hs"

definition merge_locations :: "merge_alignment \<Rightarrow> nat \<Rightarrow> nat \<Rightarrow> nat \<Rightarrow> nat \<Rightarrow> nat \<Rightarrow> nat \<Rightarrow> location list" where
  "merge_locations m lo hi aLo aHi bLo bHi =
     (let a = map region_location (hunks_over (hunksA m) lo hi aLo aHi);
          b = map region_location (hunks_over (hunksB m) lo hi bLo bHi);
          shared = collisions a b; every = compact (sort (a @ b))
      in if shared \<noteq> [] then shared
         else if every = [] then [Location (mpath m) []] else every)"

section \<open>Settling a region\<close>

fun count_along :: "'a list \<Rightarrow> nat \<Rightarrow> 'a list \<Rightarrow> nat" where
  "count_along small i [] = i"
| "count_along small i (l # ls) = count_along small (if i < length small \<and> small ! i = l then Suc i else i) ls"

definition is_subsequence :: "'a list \<Rightarrow> 'a list \<Rightarrow> bool" where
  "is_subsequence small large \<longleftrightarrow> count_along small 0 large = length small"

definition deleted_base :: "int list \<Rightarrow> bool list" where
  "deleted_base m = map (\<lambda>j. j < 0) m"

definition settle_overlap :: "'a list \<Rightarrow> 'a list \<Rightarrow> 'a list \<Rightarrow> bool list \<Rightarrow> bool list \<Rightarrow> ('a list \<times> merge_kind) option" where
  "settle_overlap o' a b da db =
     (if a = b then Some (a, MergeContained)
      else
        let (small, large, dSmall, dLarge) = (if length a > length b then (b, a, db, da) else (a, b, da, db))
        in if dSmall = dLarge \<and> is_subsequence small large \<and> (length small > 0 \<or> length o' = 0) then Some (large, MergeContained)
           else if length o' = 0 then Some (a @ b, MergeBothAdded)
           else None)"

section \<open>Conflict markers\<close>

definition marker_section :: "nat \<Rightarrow> string \<Rightarrow> string \<Rightarrow> byte list list \<Rightarrow> byte list list" where
  "marker_section width marker label' lines =
     (let out = (ascii (concat (replicate width marker) @ label') @ [nl]) # lines;
          l = last out
      in if l \<noteq> [] \<and> last l = nl then out else butlast out @ [l @ [nl]])"

definition conflict_marked :: "byte list list \<Rightarrow> byte list list \<Rightarrow> byte list list \<Rightarrow> nat \<Rightarrow> byte list list" where
  "conflict_marked o' a b width =
     marker_section width ''<'' '' ours'' a @ marker_section width ''|'' '' base'' o' @ marker_section width ''='' '''' b @
     [ascii (concat (replicate width ''>'') @ '' theirs'') @ [nl]]"

section \<open>The walk\<close>

fun next_kept :: "(int \<times> int) list \<Rightarrow> nat \<Rightarrow> nat" where
  "next_kept [] n = n"
| "next_kept ((x, y) # zs) n = (if x < 0 \<or> y < 0 then next_kept zs (Suc n) else n)"

definition part_of :: "'a list \<Rightarrow> nat \<Rightarrow> nat \<Rightarrow> 'a list" where
  "part_of xs lo hi = drop lo (take hi xs)"

text \<open>The first line both kept from iO on, and where it is on each side; the ends when there is none.\<close>

definition agreed :: "merge_alignment \<Rightarrow> nat \<Rightarrow> nat \<times> nat \<times> nat" where
  "agreed m iO =
     (let n = iO + (next_kept (drop iO (zip (ma m) (mb m))) 0)
      in if n < length (base_lines m) then (n, nat (ma m ! n), nat (mb m ! n))
         else (length (base_lines m), length (our_lines m), length (their_lines m)))"

text \<open>One region: the lines it merges to, its report when both sides changed it, and whether it is settled.\<close>

definition merge_region_at :: "merge_alignment \<Rightarrow> nat \<Rightarrow> nat \<Rightarrow> nat \<Rightarrow> nat \<Rightarrow> nat \<Rightarrow> nat \<Rightarrow> nat \<Rightarrow> byte list list \<times> merge_region list \<times> bool" where
  "merge_region_at m width iO next' iA eA iB eB =
     (let oc = part_of (base_lines m) iO next'; ac = part_of (our_lines m) iA eA; bc = part_of (their_lines m) iB eB
      in if ac = oc then (bc, [], True)
         else if bc = oc then (ac, [], True)
         else
           let locs = merge_locations m iO next' iA eA iB eB
           in case settle_overlap oc ac bc (deleted_base (part_of (ma m) iO next')) (deleted_base (part_of (mb m) iO next')) of
                Some (settled, k) \<Rightarrow> (settled, [\<lparr>locations_of = locs, kind_of = k\<rparr>], True)
              | None \<Rightarrow> (conflict_marked oc ac bc width, [\<lparr>locations_of = locs, kind_of = NotSettled\<rparr>], False))"

function walk :: "merge_alignment \<Rightarrow> nat \<Rightarrow> nat \<Rightarrow> nat \<Rightarrow> nat \<Rightarrow> byte list list \<Rightarrow> merge_region list \<Rightarrow> bool \<Rightarrow>
    byte list option \<times> merge_region list \<times> bool" where
  "walk m width iO iA iB lines regs conflicted =
     (case agreed m iO of
        (next', eA, eB) \<Rightarrow>
          case merge_region_at m width iO next' iA eA iB eB of
            (new, rs, settled) \<Rightarrow>
              if \<not> settled \<and> width = 0 then (None, regs @ rs, True)
              else if next' \<ge> length (base_lines m)
              then (Some (concat (lines @ new)), regs @ rs, conflicted \<or> \<not> settled)
              else walk m width (next' + 1) (eA + 1) (eB + 1) (lines @ new @ [base_lines m ! next']) (regs @ rs)
                (conflicted \<or> \<not> settled))"
  by pat_completeness auto
termination
  by (relation "measure (\<lambda>(m, width, iO, rest). Suc (length (base_lines m)) - iO)") (auto simp: agreed_def Let_def split: if_splits)

declare walk.simps [simp del]

definition merge_three_way :: "(byte list \<Rightarrow> byte list list \<Rightarrow> byte list list) \<Rightarrow> byte list \<Rightarrow> byte list \<Rightarrow> byte list \<Rightarrow> byte list \<Rightarrow>
    merge_resolution \<times> bool" where
  "merge_three_way declarations p base ours theirs =
     (case align_merge declarations p base ours theirs of
        None \<Rightarrow> (\<lparr>content = None, regions = []\<rparr>, False)
      | Some m \<Rightarrow>
          (case walk m 0 0 0 0 [] [] False of
             (out, rs, conflicted) \<Rightarrow>
               if conflicted then (\<lparr>content = None, regions = rs\<rparr>, False)
               else (\<lparr>content = out, regions = rs\<rparr>, True)))"

definition merge_three_way_markers :: "(byte list \<Rightarrow> byte list list \<Rightarrow> byte list list) \<Rightarrow> byte list \<Rightarrow> byte list \<Rightarrow> byte list \<Rightarrow> int \<Rightarrow>
    byte list option" where
  "merge_three_way_markers declarations base ours theirs width =
     (case align_merge declarations [] base ours theirs of
        None \<Rightarrow> None
      | Some m \<Rightarrow> fst (walk m (if width \<le> 0 then 7 else nat width) 0 0 0 [] [] False))"

definition unsettled :: "merge_resolution \<Rightarrow> location list" where
  "unsettled r = concat (map locations_of (filter (\<lambda>g. kind_of g = NotSettled) (regions r)))"

end
