(* ===== verification/Three_Way_Correct.thy ===== *)
theory Three_Way_Correct
  imports Three_Way Line_Match_Correct "HOL-Library.Sublist"
begin

text \<open>
  A merge is a weave: the lines that all three texts keep, and between them regions that
  each settle by one of the rules.
\<close>

section \<open>Lines\<close>

lemma concat_SplitLines: "concat (SplitLines s) = s"
proof (induction s rule: SplitLines.induct)
  case (1 s)
  show ?case
  proof (cases "s = [] \<or> index_func (\<lambda>c. c = nl) s = None")
    case True
    then show ?thesis by (subst SplitLines.simps) auto
  next
    case False
    then obtain i where i: "s \<noteq> []" "index_func (\<lambda>c. c = nl) s = Some i" by auto
    have "SplitLines s = take (i + 1) s # SplitLines (drop (i + 1) s)" using i by (subst SplitLines.simps) simp
    moreover have "concat (SplitLines (drop (i + 1) s)) = drop (i + 1) s" by (rule 1 [OF i])
    ultimately show ?thesis by simp
  qed
qed

section \<open>Matching lines\<close>

lemma kept_iff:
  "kept a b x y ps \<longleftrightarrow> sorted_wrt (\<lambda>p q. fst p < fst q \<and> snd p < snd q) ps \<and>
    (\<forall>(i, j) \<in> set ps. x \<le> i \<and> y \<le> j \<and> i < length a \<and> j < length b \<and> a ! i = b ! j)"
proof
  show "kept a b x y ps \<Longrightarrow> sorted_wrt (\<lambda>p q. fst p < fst q \<and> snd p < snd q) ps \<and>
    (\<forall>(i, j) \<in> set ps. x \<le> i \<and> y \<le> j \<and> i < length a \<and> j < length b \<and> a ! i = b ! j)"
    by (induction a b x y ps rule: kept.induct) (auto simp: Suc_le_eq case_prod_beta)
qed (use kept_rising in blast)

lemma line_matches_kept:
  assumes "line_matches a b = Some ps"
  shows "kept a b 0 0 ps"
proof -
  define p where "p = commonPrefix a b"
  define s where "s = commonSuffix (drop p a) (drop p b)"
  obtain mid where mid: "myers_within maxHunkEdits (drop p (take (length a - s) a)) (drop p (take (length b - s) b)) = Some mid"
    and ps: "ps = map (\<lambda>i. (i, i)) [0..<p] @ map (\<lambda>(i, j). (p + i, p + j)) mid @ map (\<lambda>i. (length a - s + i, length b - s + i)) [0..<s]"
    using assms by (auto simp: line_matches_def Let_def p_def [symmetric] s_def [symmetric] split: option.splits)
  have p: "p \<le> length a" "p \<le> length b" using commonPrefix_le [of a b] by (auto simp: p_def)
  have s: "p \<le> length a - s" "p \<le> length b - s" "s \<le> length a" "s \<le> length b"
    using commonSuffix_le [of "drop p a" "drop p b"] p by (auto simp: s_def)
  have "i < length a \<and> i < length b \<and> a ! i = b ! i" if "i < p" for i
    using that p commonPrefix_nth [of i a b] by (simp add: p_def)
  then have head: "kept (take p a) (take p b) 0 0 (map (\<lambda>i. (i, i)) [0..<p])" using kept_run [of p 0 a 0 b] by simp
  have "length a - s + i < length a \<and> length b - s + i < length b \<and> a ! (length a - s + i) = b ! (length b - s + i)" if "i < s" for i
    using commonSuffix_nth [of i "drop p a" "drop p b"] that s p unfolding s_def [symmetric] by simp arith
  then have tail: "kept a b (length a - s) (length b - s) (map (\<lambda>i. (length a - s + i, length b - s + i)) [0..<s])"
    using kept_run [of s "length a - s" a "length b - s" b] s(3,4) by simp
  have "kept (take (length a - s) a) (take (length b - s) b) (p + 0) (p + 0) (map (\<lambda>(i, j). (p + i, p + j)) mid)"
    by (rule kept_drop) (use myers_within_ok [where bound = maxHunkEdits and a = "drop p (take (length a - s) a)" and b = "drop p (take (length b - s) b)"] mid in simp)
  then have "kept a b p p (map (\<lambda>(i, j). (p + i, p + j)) mid @ map (\<lambda>i. (length a - s + i, length b - s + i)) [0..<s])"
    using kept_append [OF _ tail s(1,2)] by simp
  from kept_append [OF head this] show ?thesis by (simp add: ps)
qed

lemma line_matches_same: "line_matches a a = Some (map (\<lambda>i. (i, i)) [0..<length a])"
proof -
  have "commonPrefix a a = length a" by (induction a) simp_all
  moreover have "commonSuffix ([] :: 'a list) [] = 0" by (simp add: commonSuffix_def)
  moreover have "myers_within maxHunkEdits ([] :: 'a list) [] = Some []"
  proof (cases "myers_within maxHunkEdits ([] :: 'a list) []")
    case None
    then show ?thesis using myers_within_ok [where bound = maxHunkEdits and a = "[] :: 'a list" and b = "[]"] by (auto dest: spec [of _ "[]"])
  next
    case (Some ps)
    then have "kept ([] :: 'a list) [] 0 0 ps" using myers_within_ok [where bound = maxHunkEdits and a = "[] :: 'a list" and b = "[]"] by simp
    then have "ps = []" by (cases ps) auto
    then show ?thesis using Some by simp
  qed
  ultimately show ?thesis by (simp add: line_matches_def Let_def)
qed

text \<open>A map of the lines a side kept: rising, to equal lines.\<close>

definition kept_map :: "'a list \<Rightarrow> 'a list \<Rightarrow> int list \<Rightarrow> bool" where
  "kept_map o' s m \<longleftrightarrow> length m = length o' \<and>
     (\<forall>i < length o'. 0 \<le> m ! i \<longrightarrow> nat (m ! i) < length s \<and> o' ! i = s ! nat (m ! i)) \<and>
     (\<forall>i j. i < j \<and> j < length o' \<and> 0 \<le> m ! i \<and> 0 \<le> m ! j \<longrightarrow> m ! i < m ! j)"

lemma updates_map:
  "\<forall>(i, j) \<in> set ps. i < length m \<Longrightarrow> distinct (map fst ps) \<Longrightarrow> k < length m \<Longrightarrow>
    foldl (\<lambda>m (i, j). m[i := int j]) m ps ! k = (case map_of ps k of Some j \<Rightarrow> int j | None \<Rightarrow> m ! k)"
proof (induction ps arbitrary: m)
  case (Cons p ps)
  obtain i j where p: "p = (i, j)" by force
  have "map_of ps i = None" using Cons.prems(2) p by (auto simp: map_of_eq_None_iff)
  then show ?case using Cons.IH [of "m[i := int j]"] Cons.prems p by (auto simp: nth_list_update split: option.split)
qed simp

lemma kept_lines_map:
  assumes "kept_lines o' s = Some m"
  shows "kept_map o' s m"
proof -
  obtain ps where ps: "line_matches o' s = Some ps" "m = foldl (\<lambda>m (i, j). m[i := int j]) (replicate (length o') (- 1)) ps"
    using assms by (auto simp: kept_lines_def)
  have k: "sorted_wrt (\<lambda>p q. fst p < fst q \<and> snd p < snd q) ps" "\<forall>(i, j) \<in> set ps. i < length o' \<and> j < length s \<and> o' ! i = s ! j"
    using line_matches_kept [OF ps(1)] by (auto simp: kept_iff)
  have len: "length (foldl (\<lambda>m (i, j). m[i := int j]) m0 ps) = length m0" for m0
    by (induction ps arbitrary: m0) (auto split: prod.splits)
  have "sorted_wrt (<) (map fst ps)" unfolding sorted_wrt_map by (rule sorted_wrt_mono_rel [OF _ k(1)]) simp
  then have d: "distinct (map fst ps)" by (simp add: strict_sorted_iff)
  have nth: "m ! i = (case map_of ps i of Some j \<Rightarrow> int j | None \<Rightarrow> - 1)" if "i < length o'" for i
    unfolding ps(2) by (subst updates_map [OF _ d]) (use k(2) that in \<open>auto split: option.split\<close>)
  have at: "(i, nat (m ! i)) \<in> set ps" if "i < length o'" "0 \<le> m ! i" for i
    using nth [OF that(1)] that(2) by (auto split: option.splits dest: map_of_SomeD)
  have "m ! i < m ! j" if "i < j" "j < length o'" "0 \<le> m ! i" "0 \<le> m ! j" for i j
  proof -
    have "(i, nat (m ! i)) \<in> set ps" "(j, nat (m ! j)) \<in> set ps" using at that by auto
    then obtain x y where xy: "x < length ps" "y < length ps" "ps ! x = (i, nat (m ! i))" "ps ! y = (j, nat (m ! j))"
      by (auto simp: in_set_conv_nth)
    then have "x < y" using sorted_wrt_nth_less [OF k(1), of y x] that(1) by (cases x y rule: linorder_cases) auto
    then show ?thesis using sorted_wrt_nth_less [OF k(1), of x y] xy that by auto
  qed
  moreover have "nat (m ! i) < length s \<and> o' ! i = s ! nat (m ! i)" if "i < length o'" "0 \<le> m ! i" for i
    using at [OF that] k(2) by auto
  ultimately show ?thesis using len by (simp add: kept_map_def ps(2))
qed

section \<open>Settled regions\<close>

lemma is_subsequence_iff: "is_subsequence small large \<longleftrightarrow> subseq small large"
proof -
  have "i \<le> length small \<Longrightarrow> count_along small i large = length small \<longleftrightarrow> subseq (drop i small) large" for i
  proof (induction large arbitrary: i)
    case (Cons l ls)
    show ?case
    proof (cases "i < length small")
      case True
      then have d: "drop i small = small ! i # drop (Suc i) small" by (simp add: Cons_nth_drop_Suc)
      show ?thesis
      proof (cases "small ! i = l")
        case True
        then show ?thesis using \<open>i < length small\<close> Cons.IH [of "Suc i"] by (simp add: d)
      next
        case False
        then show ?thesis using True Cons.IH [of i] by (simp add: d)
      qed
    next
      case False
      then show ?thesis using Cons by simp
    qed
  qed (auto dest: list_emb_Nil2)
  from this [of 0] show ?thesis by (simp add: is_subsequence_def)
qed

text \<open>
  What one region may become. \<open>da\<close> and \<open>db\<close> mark the base lines of the region that each side
  removed. A side is contained in the other when they are the same, or when both removed the
  same base lines and its lines are a subsequence of the other's; a side that only removed lines
  is contained in none.
\<close>

definition contained :: "'a list \<Rightarrow> bool list \<Rightarrow> bool list \<Rightarrow> 'a list \<Rightarrow> 'a list \<Rightarrow> bool" where
  "contained oc ds dl small large \<longleftrightarrow>
     small = large \<or> ds = dl \<and> subseq small large \<and> (small \<noteq> [] \<or> oc = [])"

definition settles :: "'a list \<Rightarrow> bool list \<Rightarrow> bool list \<Rightarrow> 'a list \<Rightarrow> 'a list \<Rightarrow> 'a list \<Rightarrow> bool" where
  "settles oc da db ac bc rc \<longleftrightarrow>
     (if ac = oc then rc = bc
      else if bc = oc then rc = ac
      else if contained oc da db ac bc then rc = bc
      else if contained oc db da bc ac then rc = ac
      else oc = [] \<and> rc = ac @ bc)"

text \<open>
  A weave: a line of the base that neither side removed stands for itself, and between two of them
  is a region, every base line of which one side removed.
\<close>

inductive weave ::
  "('a list \<Rightarrow> bool list \<Rightarrow> bool list \<Rightarrow> 'a list \<Rightarrow> 'a list \<Rightarrow> 'a list \<Rightarrow> bool) \<Rightarrow>
    'a list \<Rightarrow> bool list \<Rightarrow> bool list \<Rightarrow> 'a list \<Rightarrow> 'a list \<Rightarrow> 'a list \<Rightarrow> bool" for P where
  last_region: "length da = length oc \<Longrightarrow> list_all2 (\<or>) da db \<Longrightarrow> P oc da db ac bc rc \<Longrightarrow> weave P oc da db ac bc rc"
| kept_line: "length da = length oc \<Longrightarrow> list_all2 (\<or>) da db \<Longrightarrow> P oc da db ac bc rc \<Longrightarrow>
    weave P o' da' db' a b r \<Longrightarrow>
    weave P (oc @ s # o') (da @ False # da') (db @ False # db') (ac @ s # a) (bc @ s # b) (rc @ s # r)"

lemma settle_overlap_settles:
  assumes "settle_overlap oc ac bc da db = Some (rc, k)" "ac \<noteq> oc" "bc \<noteq> oc"
  shows "settles oc da db ac bc rc \<and> k \<noteq> NotSettled"
proof -
  have "subseq xs ys \<Longrightarrow> length ys \<le> length xs \<Longrightarrow> xs = ys" for xs ys :: "'a list"
    using list_emb_length [of "(=)" xs ys] subseq_same_length [of xs ys] by simp
  then have "\<not> subseq bc ac" if "length ac \<le> length bc" "ac \<noteq> bc" using that by metis
  moreover have "\<not> subseq ac bc" if "length bc < length ac" using that list_emb_length [of "(=)" ac bc] by auto
  ultimately show ?thesis using assms
    by (auto simp: settle_overlap_def settles_def contained_def is_subsequence_iff Let_def not_less split: if_splits)
qed

lemma merge_locations_some: "merge_locations m lo hi aLo aHi bLo bHi \<noteq> []"
  by (simp add: merge_locations_def Let_def)

lemma merge_region_settles:
  assumes "merge_region_at m width iO n iA eA iB eB = (rc, rs, settled)"
  shows "(settled \<longrightarrow> settles (part_of (base_lines m) iO n) (deleted_base (part_of (ma m) iO n))
      (deleted_base (part_of (mb m) iO n)) (part_of (our_lines m) iA eA) (part_of (their_lines m) iB eB) rc) \<and>
    (\<forall>g \<in> set rs. locations_of g \<noteq> [] \<and> (kind_of g = NotSettled \<longleftrightarrow> \<not> settled)) \<and> (\<not> settled \<longrightarrow> rs \<noteq> [])"
proof -
  let ?oc = "part_of (base_lines m) iO n" and ?ac = "part_of (our_lines m) iA eA" and ?bc = "part_of (their_lines m) iB eB"
  let ?da = "deleted_base (part_of (ma m) iO n)" and ?db = "deleted_base (part_of (mb m) iO n)"
  let ?s = "settle_overlap ?oc ?ac ?bc ?da ?db"
  have a: "settles ?oc ?da ?db ?oc ?bc ?bc" and b: "settles ?oc ?da ?db ?ac ?oc ?ac" by (simp_all add: settles_def)
  consider "?ac = ?oc" | "?ac \<noteq> ?oc" "?bc = ?oc" | "?ac \<noteq> ?oc" "?bc \<noteq> ?oc" by blast
  then show ?thesis
  proof cases
    case 1
    then show ?thesis using assms a by (auto simp: merge_region_at_def Let_def)
  next
    case 2
    then show ?thesis using assms b by (auto simp: merge_region_at_def Let_def)
  next
    case 3
    show ?thesis
    proof (cases ?s)
      case None
      then show ?thesis using 3 assms merge_locations_some by (auto simp: merge_region_at_def Let_def)
    next
      case (Some rk)
      then obtain r k where s: "?s = Some (r, k)" by (cases rk) simp
      note S = settle_overlap_settles [OF s 3]
      then show ?thesis using 3 s assms merge_locations_some by (auto simp: merge_region_at_def Let_def)
    qed
  qed
qed

section \<open>The walk\<close>

lemma next_kept_first:
  "next_kept zs n = n + length (takeWhile (\<lambda>(x, y). x < 0 \<or> y < 0) zs)"
  by (induction zs n rule: next_kept.induct) auto

text \<open>An alignment, and a point of it where the three texts have been read to the same line.\<close>

definition aligned :: "merge_alignment \<Rightarrow> bool" where
  "aligned m \<longleftrightarrow> kept_map (base_lines m) (our_lines m) (ma m) \<and> kept_map (base_lines m) (their_lines m) (mb m)"

definition read_to :: "merge_alignment \<Rightarrow> nat \<Rightarrow> nat \<Rightarrow> nat \<Rightarrow> bool" where
  "read_to m iO iA iB \<longleftrightarrow> iO \<le> length (base_lines m) \<and> iA \<le> length (our_lines m) \<and> iB \<le> length (their_lines m) \<and>
     (\<forall>i. iO \<le> i \<and> i < length (base_lines m) \<longrightarrow>
       (0 \<le> ma m ! i \<longrightarrow> int iA \<le> ma m ! i) \<and> (0 \<le> mb m ! i \<longrightarrow> int iB \<le> mb m ! i))"

lemma agreed_cases:
  assumes "aligned m" "read_to m iO iA iB" "agreed m iO = (n, eA, eB)"
  shows "n = length (base_lines m) \<and> eA = length (our_lines m) \<and> eB = length (their_lines m) \<or>
    iO \<le> n \<and> n < length (base_lines m) \<and> iA \<le> eA \<and> eA < length (our_lines m) \<and> iB \<le> eB \<and> eB < length (their_lines m) \<and>
    base_lines m ! n = our_lines m ! eA \<and> base_lines m ! n = their_lines m ! eB \<and> read_to m (n + 1) (eA + 1) (eB + 1)"
proof -
  let ?z = "drop iO (zip (ma m) (mb m))"
  let ?k = "length (takeWhile (\<lambda>(x, y). x < 0 \<or> y < 0) ?z)"
  have ka: "kept_map (base_lines m) (our_lines m) (ma m)" and kb: "kept_map (base_lines m) (their_lines m) (mb m)"
    using assms(1) by (simp_all add: aligned_def)
  have len: "length (ma m) = length (base_lines m)" "length (mb m) = length (base_lines m)" using ka kb by (simp_all add: kept_map_def)
  show ?thesis
  proof (cases "iO + ?k < length (base_lines m)")
    case False
    then show ?thesis using assms(3) by (auto simp: agreed_def next_kept_first Let_def)
  next
    case True
    then have n: "n = iO + ?k" "eA = nat (ma m ! n)" "eB = nat (mb m ! n)"
      using assms(3) by (auto simp: agreed_def next_kept_first Let_def)
    have "?k < length ?z" using True len by simp
    from nth_length_takeWhile [OF this] have both: "0 \<le> ma m ! n" "0 \<le> mb m ! n" using True len n(1) by auto
    have lt: "n < length (base_lines m)" using True n(1) by simp
    have "nat (ma m ! n) < length (our_lines m) \<and> base_lines m ! n = our_lines m ! nat (ma m ! n)"
      "nat (mb m ! n) < length (their_lines m) \<and> base_lines m ! n = their_lines m ! nat (mb m ! n)"
      using ka kb lt both unfolding kept_map_def by blast+
    moreover have "int iA \<le> ma m ! n" "int iB \<le> mb m ! n" using assms(2) both lt n(1) by (auto simp: read_to_def)
    moreover have rise: "(0 \<le> ma m ! i \<longrightarrow> ma m ! n < ma m ! i) \<and> (0 \<le> mb m ! i \<longrightarrow> mb m ! n < mb m ! i)"
      if "n + 1 \<le> i" "i < length (base_lines m)" for i
    proof -
      have "n < i" using that(1) by simp
      then show ?thesis using ka kb both that(2) unfolding kept_map_def by blast
    qed
    then have "(0 \<le> ma m ! i \<longrightarrow> int (eA + 1) \<le> ma m ! i) \<and> (0 \<le> mb m ! i \<longrightarrow> int (eB + 1) \<le> mb m ! i)"
      if "n + 1 \<le> i" "i < length (base_lines m)" for i
      using rise [OF that] both n(2,3) by auto
    ultimately show ?thesis using lt n both by (auto simp: read_to_def)
  qed
qed

lemma drop_part: "lo \<le> hi \<Longrightarrow> hi < length xs \<Longrightarrow> drop lo xs = part_of xs lo hi @ xs ! hi # drop (Suc hi) xs"
  by (metis Cons_nth_drop_Suc append_take_drop_id drop_drop drop_take le_add_diff_inverse2 part_of_def)

lemma part_rest: "part_of xs lo (length xs) = drop lo xs"
  by (simp add: part_of_def)

text \<open>Up to the line both kept, one side removed each line of the base.\<close>

lemma agreed_marks:
  assumes "aligned m" "read_to m iO iA iB" "agreed m iO = (n, eA, eB)"
  shows "length (deleted_base (part_of (ma m) iO n)) = length (part_of (base_lines m) iO n)"
    "list_all2 (\<or>) (deleted_base (part_of (ma m) iO n)) (deleted_base (part_of (mb m) iO n))"
    "n < length (base_lines m) \<Longrightarrow> 0 \<le> ma m ! n \<and> 0 \<le> mb m ! n"
proof -
  let ?z = "drop iO (zip (ma m) (mb m))"
  let ?k = "length (takeWhile (\<lambda>(x, y). x < 0 \<or> y < 0) ?z)"
  have len: "length (ma m) = length (base_lines m)" "length (mb m) = length (base_lines m)"
    using assms(1) by (simp_all add: aligned_def kept_map_def)
  have n: "n = (if iO + ?k < length (base_lines m) then iO + ?k else length (base_lines m))"
    using assms(3) by (auto simp: agreed_def next_kept_first Let_def split: if_splits)
  show "length (deleted_base (part_of (ma m) iO n)) = length (part_of (base_lines m) iO n)"
    by (simp add: deleted_base_def part_of_def len)
  have "ma m ! i < 0 \<or> mb m ! i < 0" if "iO \<le> i" "i < n" for i
  proof -
    have k: "i - iO < ?k" "i < length (base_lines m)"
      using that n length_takeWhile_le [of "\<lambda>(x, y). x < 0 \<or> y < 0" ?z] len by (auto split: if_splits)
    then have "takeWhile (\<lambda>(x, y). x < 0 \<or> y < 0) ?z ! (i - iO) = (ma m ! i, mb m ! i)"
      using takeWhile_nth [OF k(1)] len that(1) by simp
    then show ?thesis using nth_mem [OF k(1)] set_takeWhileD by fastforce
  qed
  then have "\<forall>i < n - iO. ma m ! (iO + i) < 0 \<or> mb m ! (iO + i) < 0" by simp
  then show "list_all2 (\<or>) (deleted_base (part_of (ma m) iO n)) (deleted_base (part_of (mb m) iO n))"
    using len by (auto simp: list_all2_conv_all_nth deleted_base_def part_of_def drop_take)
  show "0 \<le> ma m ! n \<and> 0 \<le> mb m ! n" if "n < length (base_lines m)"
  proof -
    have "?k < length ?z" "n = iO + ?k" using that n len by (auto split: if_splits)
    with nth_length_takeWhile [OF this(1)] that len show ?thesis by auto
  qed
qed

text \<open>A walk that does not mark conflicts ends in a weave of settled regions, or at a region that is not settled.\<close>

lemma walk_weaves:
  assumes "aligned m" "read_to m iO iA iB" "\<forall>g \<in> set regs. locations_of g \<noteq> [] \<and> kind_of g \<noteq> NotSettled"
    "walk m 0 iO iA iB lines regs False = (out, rs, conflicted)"
  shows "if conflicted then out = None \<and> (\<exists>g \<in> set rs. locations_of g \<noteq> [] \<and> kind_of g = NotSettled)
    else (\<forall>g \<in> set rs. kind_of g \<noteq> NotSettled) \<and>
      (\<exists>r. out = Some (concat (lines @ r)) \<and> weave settles (drop iO (base_lines m)) (deleted_base (drop iO (ma m)))
        (deleted_base (drop iO (mb m))) (drop iA (our_lines m)) (drop iB (their_lines m)) r)"
  using assms
proof (induction "length (base_lines m) - iO" arbitrary: iO iA iB lines regs rule: less_induct)
  case less
  obtain n eA eB where ag: "agreed m iO = (n, eA, eB)" by (metis prod_cases3)
  obtain new rs1 settled where reg: "merge_region_at m 0 iO n iA eA iB eB = (new, rs1, settled)" by (metis prod_cases3)
  note step = walk.simps [of m 0 iO iA iB lines regs False, unfolded ag reg prod.case]
  note R = merge_region_settles [OF reg]
  show ?case
  proof (cases settled)
    case False
    then have "out = None" "rs = regs @ rs1" "conflicted" using less.prems(4) by (simp_all add: step)
    moreover have "\<exists>g \<in> set rs1. locations_of g \<noteq> [] \<and> kind_of g = NotSettled" using False R by (cases rs1) auto
    ultimately show ?thesis by auto
  next
    case True
    then have S: "settles (part_of (base_lines m) iO n) (deleted_base (part_of (ma m) iO n)) (deleted_base (part_of (mb m) iO n))
        (part_of (our_lines m) iA eA) (part_of (their_lines m) iB eB) new"
      and kinds: "\<forall>g \<in> set (regs @ rs1). locations_of g \<noteq> [] \<and> kind_of g \<noteq> NotSettled" using R less.prems(3) by auto
    note marks = agreed_marks [OF less.prems(1,2) ag]
    from agreed_cases [OF less.prems(1,2) ag] show ?thesis
    proof
      assume e: "n = length (base_lines m) \<and> eA = length (our_lines m) \<and> eB = length (their_lines m)"
      then have "out = Some (concat (lines @ new))" "rs = regs @ rs1" "\<not> conflicted" using less.prems(4) True by (simp_all add: step)
      moreover have "length (ma m) = n" "length (mb m) = n" using less.prems(1) e by (simp_all add: aligned_def kept_map_def)
      then have "weave settles (drop iO (base_lines m)) (deleted_base (drop iO (ma m))) (deleted_base (drop iO (mb m)))
          (drop iA (our_lines m)) (drop iB (their_lines m)) new"
        using weave.last_region [where P = settles, OF marks(1,2) S] e part_rest by metis
      ultimately show ?thesis using kinds by auto
    next
      assume e: "iO \<le> n \<and> n < length (base_lines m) \<and> iA \<le> eA \<and> eA < length (our_lines m) \<and> iB \<le> eB \<and> eB < length (their_lines m) \<and>
        base_lines m ! n = our_lines m ! eA \<and> base_lines m ! n = their_lines m ! eB \<and> read_to m (n + 1) (eA + 1) (eB + 1)"
      let ?s = "base_lines m ! n"
      have w: "walk m 0 (n + 1) (eA + 1) (eB + 1) (lines @ new @ [?s]) (regs @ rs1) False = (out, rs, conflicted)"
        using less.prems(4) e True by (simp add: step)
      have "length (base_lines m) - (n + 1) < length (base_lines m) - iO" using e by auto
      note IH = less.hyps [OF this less.prems(1) _ kinds w]
      show ?thesis
      proof (cases conflicted)
        case True
        then show ?thesis using IH e by simp
      next
        case False
        then obtain r where r: "out = Some (concat ((lines @ new @ [?s]) @ r))"
          "weave settles (drop (n + 1) (base_lines m)) (deleted_base (drop (n + 1) (ma m)))
            (deleted_base (drop (n + 1) (mb m))) (drop (eA + 1) (our_lines m)) (drop (eB + 1) (their_lines m)) r"
          "\<forall>g \<in> set rs. kind_of g \<noteq> NotSettled" using IH e by auto
        have "drop iO (base_lines m) = part_of (base_lines m) iO n @ ?s # drop (n + 1) (base_lines m)"
          "drop iA (our_lines m) = part_of (our_lines m) iA eA @ ?s # drop (eA + 1) (our_lines m)"
          using e drop_part [of iO n "base_lines m"] drop_part [of iA eA "our_lines m"] by auto
        moreover have "drop iB (their_lines m) = part_of (their_lines m) iB eB @ ?s # drop (eB + 1) (their_lines m)"
        proof -
          have "their_lines m ! eB = ?s" "iB \<le> eB" "eB < length (their_lines m)" using e by auto
          then show ?thesis using drop_part [of iB eB "their_lines m"] by simp
        qed
        moreover have "deleted_base (drop iO (ma m)) = deleted_base (part_of (ma m) iO n) @ False # deleted_base (drop (n + 1) (ma m))"
          "deleted_base (drop iO (mb m)) = deleted_base (part_of (mb m) iO n) @ False # deleted_base (drop (n + 1) (mb m))"
          using drop_part [of iO n "ma m"] drop_part [of iO n "mb m"] less.prems(1) marks(3) e
          by (auto simp: aligned_def kept_map_def deleted_base_def)
        ultimately have "weave settles (drop iO (base_lines m)) (deleted_base (drop iO (ma m))) (deleted_base (drop iO (mb m)))
            (drop iA (our_lines m)) (drop iB (their_lines m)) (new @ ?s # r)"
          using weave.kept_line [where P = settles, OF marks(1,2) S r(2), of ?s] by simp
        then show ?thesis using r(1,3) False by (intro exI [of _ "new @ ?s # r"] conjI if_not_P [THEN iffD2]) auto
      qed
    qed
  qed
qed

section \<open>A side that did not change\<close>

lemma kept_lines_same: "kept_lines o' o' = Some (map int [0..<length o'])"
proof -
  let ?ps = "map (\<lambda>i. (i, i)) [0..<length o']"
  let ?m = "foldl (\<lambda>m (i, j). m[i := int j]) (replicate (length o') (- 1)) ?ps"
  have d: "distinct (map fst ?ps)" by (simp add: comp_def)
  have "length (foldl (\<lambda>m (i, j). m[i := int j]) m0 ps) = length m0" for m0 and ps :: pairs
    by (induction ps arbitrary: m0) (auto split: prod.splits)
  then have len: "length ?m = length o'" by simp
  have "?m ! k = int k" if "k < length o'" for k
  proof -
    have "map_of ?ps k = Some k" using that d by (intro map_of_is_SomeI) auto
    then show ?thesis using updates_map [OF _ d, of "replicate (length o') (- 1)" k] that by simp
  qed
  then have "?m = map int [0..<length o']" using len by (intro nth_equalityI) auto
  then show ?thesis by (simp add: kept_lines_def line_matches_same)
qed

lemma walk_ours_unchanged:
  assumes "aligned m" "our_lines m = base_lines m" "ma m = map int [0..<length (base_lines m)]" "read_to m iO iO iB"
  shows "walk m width iO iO iB lines regs c = (Some (concat (lines @ drop iB (their_lines m))), regs, c)"
  using assms(4)
proof (induction "length (base_lines m) - iO" arbitrary: iO iB lines rule: less_induct)
  case less
  obtain n eA eB where ag: "agreed m iO = (n, eA, eB)" by (metis prod_cases3)
  have eA: "eA = n" using ag assms(2,3) by (auto simp: agreed_def Let_def split: if_splits)
  have reg: "merge_region_at m width iO n iO eA iB eB = (part_of (their_lines m) iB eB, [], True)"
    by (simp add: merge_region_at_def assms(2) eA)
  note step = walk.simps [of m width iO iO iB lines regs c, unfolded ag reg prod.case]
  from agreed_cases [OF assms(1) less.prems ag] show ?case
  proof
    assume "n = length (base_lines m) \<and> eA = length (our_lines m) \<and> eB = length (their_lines m)"
    then show ?thesis by (simp add: step part_rest)
  next
    assume e: "iO \<le> n \<and> n < length (base_lines m) \<and> iO \<le> eA \<and> eA < length (our_lines m) \<and> iB \<le> eB \<and> eB < length (their_lines m) \<and>
      base_lines m ! n = our_lines m ! eA \<and> base_lines m ! n = their_lines m ! eB \<and> read_to m (n + 1) (eA + 1) (eB + 1)"
    let ?lines = "lines @ part_of (their_lines m) iB eB @ [base_lines m ! n]"
    have "length (base_lines m) - (n + 1) < length (base_lines m) - iO" "read_to m (n + 1) (n + 1) (eB + 1)" using e eA by auto
    from less.hyps [OF this] have "walk m width (n + 1) (n + 1) (eB + 1) ?lines regs c =
        (Some (concat (?lines @ drop (eB + 1) (their_lines m))), regs, c)" .
    moreover have "drop iB (their_lines m) = part_of (their_lines m) iB eB @ base_lines m ! n # drop (eB + 1) (their_lines m)"
      using e drop_part [of iB eB "their_lines m"] by auto
    ultimately show ?thesis using e by (simp add: step eA)
  qed
qed

lemma walk_theirs_unchanged:
  assumes "aligned m" "their_lines m = base_lines m" "mb m = map int [0..<length (base_lines m)]" "read_to m iO iA iO"
  shows "walk m width iO iA iO lines regs c = (Some (concat (lines @ drop iA (our_lines m))), regs, c)"
  using assms(4)
proof (induction "length (base_lines m) - iO" arbitrary: iO iA lines rule: less_induct)
  case less
  obtain n eA eB where ag: "agreed m iO = (n, eA, eB)" by (metis prod_cases3)
  have eB: "eB = n" using ag assms(2,3) by (auto simp: agreed_def Let_def split: if_splits)
  have reg: "merge_region_at m width iO n iA eA iO eB = (part_of (our_lines m) iA eA, [], True)"
    by (simp add: merge_region_at_def assms(2) eB Let_def)
  note step = walk.simps [of m width iO iA iO lines regs c, unfolded ag reg prod.case]
  from agreed_cases [OF assms(1) less.prems ag] show ?case
  proof
    assume "n = length (base_lines m) \<and> eA = length (our_lines m) \<and> eB = length (their_lines m)"
    then show ?thesis by (simp add: step part_rest)
  next
    assume e: "iO \<le> n \<and> n < length (base_lines m) \<and> iA \<le> eA \<and> eA < length (our_lines m) \<and> iO \<le> eB \<and> eB < length (their_lines m) \<and>
      base_lines m ! n = our_lines m ! eA \<and> base_lines m ! n = their_lines m ! eB \<and> read_to m (n + 1) (eA + 1) (eB + 1)"
    let ?lines = "lines @ part_of (our_lines m) iA eA @ [base_lines m ! n]"
    have "length (base_lines m) - (n + 1) < length (base_lines m) - iO" "read_to m (n + 1) (eA + 1) (n + 1)" using e eB by auto
    from less.hyps [OF this] have "walk m width (n + 1) (eA + 1) (n + 1) ?lines regs c =
        (Some (concat (?lines @ drop (eA + 1) (our_lines m))), regs, c)" .
    moreover have "drop iA (our_lines m) = part_of (our_lines m) iA eA @ base_lines m ! n # drop (eA + 1) (our_lines m)"
      using e drop_part [of iA eA "our_lines m"] by auto
    ultimately show ?thesis using e by (simp add: step eB)
  qed
qed

lemma align_merge_ok:
  assumes "align_merge declarations p base ours theirs = Some m"
  shows "aligned m \<and> read_to m 0 0 0 \<and> base_lines m = SplitLines base \<and> our_lines m = SplitLines ours \<and>
    their_lines m = SplitLines theirs \<and> (ours = base \<longrightarrow> ma m = map int [0..<length (base_lines m)]) \<and>
    (theirs = base \<longrightarrow> mb m = map int [0..<length (base_lines m)]) \<and>
    kept_lines (SplitLines base) (SplitLines ours) = Some (ma m) \<and> kept_lines (SplitLines base) (SplitLines theirs) = Some (mb m)"
proof -
  obtain x y where xy: "kept_lines (SplitLines base) (SplitLines ours) = Some x" "kept_lines (SplitLines base) (SplitLines theirs) = Some y"
    and m: "base_lines m = SplitLines base" "our_lines m = SplitLines ours" "their_lines m = SplitLines theirs" "ma m = x" "mb m = y"
    using assms by (auto simp: align_merge_def Let_def split: option.splits)
  have "aligned m" using kept_lines_map [OF xy(1)] kept_lines_map [OF xy(2)] m by (simp add: aligned_def)
  then show ?thesis using m xy kept_lines_same [of "SplitLines base"] by (auto simp: read_to_def)
qed

lemma merge_three_way_ok:
  assumes "merge_three_way declarations p base ours theirs = (res, ok)"
  shows "(if ok then \<exists>r ka kb. content res = Some (concat r) \<and>
        kept_lines (SplitLines base) (SplitLines ours) = Some ka \<and> kept_lines (SplitLines base) (SplitLines theirs) = Some kb \<and>
        weave settles (SplitLines base) (deleted_base ka) (deleted_base kb) (SplitLines ours) (SplitLines theirs) r \<and>
        unsettled res = []
      else content res = None \<and> (align_merge declarations p base ours theirs = None \<or> unsettled res \<noteq> []))"
proof (cases "align_merge declarations p base ours theirs")
  case None
  then show ?thesis using assms by (auto simp: merge_three_way_def)
next
  case (Some m)
  note A = align_merge_ok [OF Some]
  obtain out rs conflicted where w: "walk m 0 0 0 0 [] [] False = (out, rs, conflicted)" by (metis prod_cases3)
  have al: "aligned m" "read_to m 0 0 0" using A by auto
  note W = walk_weaves [OF al _ w]
  have r: "res = (if conflicted then \<lparr>content = None, regions = rs\<rparr> else \<lparr>content = out, regions = rs\<rparr>)" "ok \<longleftrightarrow> \<not> conflicted"
    using assms Some w by (auto simp: merge_three_way_def)
  show ?thesis
  proof (cases conflicted)
    case True
    then obtain g where "g \<in> set rs" "locations_of g \<noteq> []" "kind_of g = NotSettled" using W by auto
    then have "unsettled res \<noteq> []" using r True by (auto simp: unsettled_def)
    then show ?thesis using r True by simp
  next
    case False
    then obtain r' where "out = Some (concat r')"
      "weave settles (SplitLines base) (deleted_base (ma m)) (deleted_base (mb m)) (SplitLines ours) (SplitLines theirs) r'"
      "\<forall>g \<in> set rs. kind_of g \<noteq> NotSettled" using W A by auto
    then show ?thesis using r False A by (auto simp: unsettled_def)
  qed
qed

lemma merge_one_side:
  assumes "align_merge declarations p base ours theirs \<noteq> None"
  shows "(ours = base \<longrightarrow> merge_three_way declarations p base ours theirs = (\<lparr>content = Some theirs, regions = []\<rparr>, True)) \<and>
    (theirs = base \<longrightarrow> merge_three_way declarations p base ours theirs = (\<lparr>content = Some ours, regions = []\<rparr>, True))"
proof -
  obtain m where m: "align_merge declarations p base ours theirs = Some m" using assms by blast
  note A = align_merge_ok [OF m]
  have "walk m 0 0 0 0 [] [] False = (Some theirs, [], False)" if "ours = base"
    using walk_ours_unchanged [of m 0 0 0 "[]" "[]" False] A that by (simp add: concat_SplitLines)
  moreover have "walk m 0 0 0 0 [] [] False = (Some ours, [], False)" if "theirs = base"
    using walk_theirs_unchanged [of m 0 0 0 "[]" "[]" False] A that by (simp add: concat_SplitLines)
  ultimately show ?thesis using m by (auto simp: merge_three_way_def)
qed

end
