(* ===== verification/Merge_Properties.thy ===== *)
theory Merge_Properties
  imports Three_Way_Correct
begin

text \<open>
  The property of the three-way merge: whatever it returns is built from the three texts by
  the rules, and it takes a change that only one side made.
\<close>

text \<open>
  C40. A merge that succeeds is a weave of the three texts, along the base lines that each side's
  alignment keeps: the lines both keep, and between them regions that each become the side that
  changed them; where both did, the side that contains the other, which takes that both removed
  the same base lines; and where neither contains the other, both additions, if the base has
  nothing there. It reports no unsettled region. A merge that fails returns no content and
  names an unsettled region, unless it refused to compare the texts by lines. When one side is
  the base, the merge is the other side, with no region reported.
\<close>

theorem three_way_merge_weaves:
  assumes "merge_three_way declarations p base ours theirs = (res, ok)"
  shows "(if ok then \<exists>r ka kb. content res = Some (concat r) \<and>
        kept_lines (SplitLines base) (SplitLines ours) = Some ka \<and> kept_lines (SplitLines base) (SplitLines theirs) = Some kb \<and>
        weave settles (SplitLines base) (deleted_base ka) (deleted_base kb) (SplitLines ours) (SplitLines theirs) r \<and>
        unsettled res = []
      else content res = None \<and> (align_merge declarations p base ours theirs = None \<or> unsettled res \<noteq> [])) \<and>
    (align_merge declarations p base ours theirs \<noteq> None \<longrightarrow>
      (ours = base \<longrightarrow> ok \<and> res = \<lparr>content = Some theirs, regions = []\<rparr>) \<and>
      (theirs = base \<longrightarrow> ok \<and> res = \<lparr>content = Some ours, regions = []\<rparr>))"
  using merge_three_way_ok [OF assms] merge_one_side [of declarations p base ours theirs] assms by auto

definition demo_declarations :: "byte list \<Rightarrow> byte list list \<Rightarrow> byte list list" where
  "demo_declarations name ls = map (\<lambda>_. name) ls"

theorem three_way_merge_weaves_witness:
  "\<exists>r. weave settles [[97, 10 :: byte], [98, 10]] [False, True] [False, False]
      [[97, 10], [99, 10]] [[100, 10], [97, 10], [98, 10]] r \<and> concat r = [100, 10, 97, 10, 99, 10]"
proof -
  have m: "merge_three_way demo_declarations [] [97, 10, 98, 10] [97, 10, 99, 10] [100, 10, 97, 10, 98, 10] =
    (\<lparr>content = Some [100, 10, 97, 10, 99, 10], regions = []\<rparr>, True)" by code_simp
  have s: "SplitLines [97, 10, 98, 10] = [[97, 10], [98, 10]]" "SplitLines [97, 10, 99, 10] = [[97, 10], [99, 10]]"
    "SplitLines [100, 10, 97, 10, 98, 10] = [[100, 10], [97, 10], [98, 10]]" by code_simp+
  have k: "kept_lines [[97, 10 :: byte], [98, 10]] [[97, 10], [99, 10]] = Some [0, - 1]"
    "kept_lines [[97, 10 :: byte], [98, 10]] [[100, 10], [97, 10], [98, 10]] = Some [1, 2]" by code_simp+
  from three_way_merge_weaves [OF m] show ?thesis by (auto simp: s k deleted_base_def)
qed

end
