(* ===== verification/Target_Globs.thy ===== *)
theory Target_Globs
  imports Magus_Prelude
begin

text \<open>
  The names and footprints a batch is ordered by: \<open>TargetRef\<close> of \<open>src/types/describe.go\<close>
  and the globs of \<open>src/types/project.go\<close>. \<open>doublestar.Match\<close> is a third party's: the
  parameter \<open>dm\<close> answers for a pattern and a path, \<open>None\<close> for its error.
\<close>

section \<open>Target references\<close>

datatype target_ref = TargetRef (ref_project: path) (ref_target: string)

text \<open>\<open>Compare\<close> orders by project, then by target.\<close>

instantiation target_ref :: linorder
begin

definition less_eq_target_ref :: "target_ref \<Rightarrow> target_ref \<Rightarrow> bool" where
  "x \<le> y \<longleftrightarrow> ref_project x < ref_project y \<or> ref_project x = ref_project y \<and> ref_target x \<le> ref_target y"

definition less_target_ref :: "target_ref \<Rightarrow> target_ref \<Rightarrow> bool" where
  "x < y \<longleftrightarrow> ref_project x < ref_project y \<or> ref_project x = ref_project y \<and> ref_target x < ref_target y"

instance
  by standard (auto simp: less_eq_target_ref_def less_target_ref_def intro: target_ref.expand)

end

section \<open>Globs\<close>

record glob =
  gpattern :: string
  gexcept :: "string list"

type_synonym matcher = "string \<Rightarrow> string \<Rightarrow> bool option"

text \<open>\<open>strings.ContainsAny\<close> over the two sets of metacharacters.\<close>

definition glob_meta :: "char list" where
  "glob_meta = ''*?[{''"

definition backslash :: char where
  "backslash = CHR 0x5C"

definition IsGlobMeta :: "string \<Rightarrow> bool" where
  "IsGlobMeta s \<longleftrightarrow> list_ex (\<lambda>c. c \<in> set glob_meta) s"

definition IsLiteralGlob :: "string \<Rightarrow> bool" where
  "IsLiteralGlob s \<longleftrightarrow> \<not> list_ex (\<lambda>c. c \<in> set glob_meta \<or> c = backslash) s"

text \<open>\<open>strings.HasPrefix\<close>, \<open>strings.HasSuffix\<close> and \<open>strings.Split(s, "/")\<close>.\<close>

definition has_prefix :: "'a list \<Rightarrow> 'a list \<Rightarrow> bool" where
  "has_prefix s p \<longleftrightarrow> take (length p) s = p"

definition has_suffix :: "'a list \<Rightarrow> 'a list \<Rightarrow> bool" where
  "has_suffix s p \<longleftrightarrow> has_prefix (rev s) (rev p)"

fun split_slash :: "string \<Rightarrow> string list" where
  "split_slash [] = [[]]"
| "split_slash (c # cs) =
     (if c = CHR ''/'' then [] # split_slash cs
      else case split_slash cs of x # xs \<Rightarrow> (c # x) # xs | [] \<Rightarrow> [[c]])"

definition claims_path :: "matcher \<Rightarrow> string \<Rightarrow> path \<Rightarrow> bool" where
  "claims_path dm pat p =
     (if IsLiteralGlob pat then p = pat \<or> has_prefix p (pat @ ''/'')
      else case dm pat p of Some ok \<Rightarrow> ok | None \<Rightarrow> False)"

definition glob_excludes :: "matcher \<Rightarrow> glob \<Rightarrow> path \<Rightarrow> bool" where
  "glob_excludes dm g p = list_ex (\<lambda>e. claims_path dm e p) (gexcept g)"

definition glob_match :: "matcher \<Rightarrow> glob \<Rightarrow> path \<Rightarrow> bool" where
  "glob_match dm g p = (claims_path dm (gpattern g) p \<and> \<not> glob_excludes dm g p)"

definition MatchGlobs :: "matcher \<Rightarrow> glob list \<Rightarrow> path \<Rightarrow> bool" where
  "MatchGlobs dm gs p = list_ex (\<lambda>g. glob_match dm g p) gs"

text \<open>The literal tail of a segment: what follows its last metacharacter.\<close>

definition literalSuffix :: "string \<Rightarrow> string" where
  "literalSuffix seg = rev (takeWhile (\<lambda>c. c \<notin> set ''*?[]{}'') (rev seg))"

text \<open>
  The walk over the segments of two patterns that both hold a metacharacter: \<open>Some b\<close> when it
  returns \<open>b\<close>, \<open>None\<close> when it breaks off at a segment with one.
\<close>

fun segments_differ :: "string list \<Rightarrow> string list \<Rightarrow> bool option" where
  "segments_differ (a # as) (b # bs) =
     (if IsGlobMeta a \<or> IsGlobMeta b then None
      else if a \<noteq> b then Some False
      else if as = [] \<or> bs = [] then Some True
      else segments_differ as bs)"
| "segments_differ _ _ = None"

definition GlobsOverlap :: "matcher \<Rightarrow> string \<Rightarrow> string \<Rightarrow> bool" where
  "GlobsOverlap dm a b =
     (if \<not> IsGlobMeta a \<and> \<not> IsGlobMeta b then a = b
      else if \<not> IsGlobMeta a then (case dm b a of Some ok \<Rightarrow> ok | None \<Rightarrow> True)
      else if \<not> IsGlobMeta b then (case dm a b of Some ok \<Rightarrow> ok | None \<Rightarrow> True)
      else
        let as = split_slash a; bs = split_slash b
        in case segments_differ as bs of
             Some r \<Rightarrow> r
           | None \<Rightarrow>
               if List.last as = ''**'' \<or> List.last bs = ''**'' then True
               else let sa = literalSuffix (List.last as); sb = literalSuffix (List.last bs)
                    in has_suffix sa sb \<or> has_suffix sb sa)"

text \<open>\<open>ParseGlobs\<close> reads the arguments of one declaration.\<close>

datatype glob_error = NoPattern string | NothingToNarrow string

definition bang :: string where
  "bang = ''!''"

definition parse_glob :: "string list \<times> string list \<Rightarrow> string \<Rightarrow> glob_error + string list \<times> string list" where
  "parse_glob acc raw =
     (let exclusion = has_prefix raw bang; pat = (if exclusion then drop 1 raw else raw)
      in if pat = [] then Inl (NoPattern raw)
         else if exclusion then Inr (fst acc, snd acc @ [pat])
         else if pat \<notin> set (fst acc) then Inr (fst acc @ [pat], snd acc)
         else Inr acc)"

fun parse_globs_from :: "string list \<times> string list \<Rightarrow> string list \<Rightarrow> glob_error + string list \<times> string list" where
  "parse_globs_from acc [] = Inr acc"
| "parse_globs_from acc (raw # raws) =
     (case parse_glob acc raw of Inl e \<Rightarrow> Inl e | Inr acc' \<Rightarrow> parse_globs_from acc' raws)"

definition ParseGlobs :: "string list \<Rightarrow> glob_error + glob list" where
  "ParseGlobs declared =
     (case parse_globs_from ([], []) declared of
        Inl e \<Rightarrow> Inl e
      | Inr (patterns, ex) \<Rightarrow>
          if patterns = [] \<and> ex \<noteq> [] then Inl (NothingToNarrow (bang @ hd ex))
          else Inr (map (\<lambda>p. \<lparr>gpattern = p, gexcept = compact (sort ex)\<rparr>) patterns))"

section \<open>What overlapping means\<close>

lemma has_prefix_iff: "has_prefix s p \<longleftrightarrow> (\<exists>t. s = p @ t)"
  by (metis append_eq_conv_conj append_take_drop_id has_prefix_def)

lemma has_suffix_iff: "has_suffix s p \<longleftrightarrow> (\<exists>t. s = t @ p)"
  unfolding has_suffix_def has_prefix_iff by (metis rev_append rev_rev_ident)

lemma suffixes_nest: "has_suffix x a \<Longrightarrow> has_suffix x b \<Longrightarrow> has_suffix a b \<or> has_suffix b a"
  by (auto simp: has_suffix_iff append_eq_append_conv2)

lemma split_slash_not_Nil [simp]: "split_slash s \<noteq> []"
  by (induction s) (auto split: list.split)

text \<open>
  What is relied on of \<open>doublestar.Match\<close>: a pattern without metacharacters matches itself
  alone; the literal segments a pattern starts with are the segments its paths start with; and
  what follows the last metacharacter of its last segment ends every path it matches.
\<close>

definition plain_segments :: "nat \<Rightarrow> string \<Rightarrow> bool" where
  "plain_segments k s \<longleftrightarrow> k \<le> length (split_slash s) \<and> list_all IsLiteralGlob (take k (split_slash s))"

definition matches_segments :: "matcher \<Rightarrow> bool" where
  "matches_segments dm \<longleftrightarrow>
     (\<forall>pat p. IsLiteralGlob pat \<longrightarrow> dm pat p = Some (p = pat)) \<and>
     (\<forall>pat p k. dm pat p = Some True \<longrightarrow> plain_segments k pat \<longrightarrow>
        take k (split_slash p) = take k (split_slash pat)) \<and>
     (\<forall>pat p. dm pat p = Some True \<longrightarrow> List.last (split_slash pat) \<noteq> ''**'' \<longrightarrow>
        has_suffix p (literalSuffix (List.last (split_slash pat))))"

lemma segments_differ_False:
  "segments_differ as bs = Some False \<Longrightarrow>
    \<exists>k. k < length as \<and> k < length bs \<and> take k as = take k bs \<and> as ! k \<noteq> bs ! k \<and>
      list_all (\<lambda>s. \<not> IsGlobMeta s) (take (Suc k) as) \<and> list_all (\<lambda>s. \<not> IsGlobMeta s) (take (Suc k) bs)"
proof (induction as bs rule: segments_differ.induct)
  case (1 a as b bs)
  show ?case
  proof (cases "a = b")
    case True
    with 1 obtain k where "k < length as \<and> k < length bs \<and> take k as = take k bs \<and> as ! k \<noteq> bs ! k \<and>
        list_all (\<lambda>s. \<not> IsGlobMeta s) (take (Suc k) as) \<and> list_all (\<lambda>s. \<not> IsGlobMeta s) (take (Suc k) bs)"
      by (auto split: if_splits)
    with True 1(2) show ?thesis by (intro exI [of _ "Suc k"]) (auto split: if_splits)
  next
    case False
    with 1(2) show ?thesis by (intro exI [of _ 0]) (auto split: if_splits)
  qed
qed auto

lemma literal_iff: "IsLiteralGlob s \<longleftrightarrow> \<not> IsGlobMeta s \<and> backslash \<notin> set s"
  by (auto simp: IsLiteralGlob_def IsGlobMeta_def list_ex_iff)

lemma split_slash_chars: "x \<in> set (split_slash s) \<Longrightarrow> set x \<subseteq> set s"
proof (induction s arbitrary: x)
  case IH: (Cons c s)
  show ?case
  proof (cases "split_slash s")
    case (Cons y ys)
    with IH.IH [of y] IH.IH [of x] IH.prems show ?thesis by (auto split: if_splits)
  qed simp
qed simp

lemma plain_take:
  assumes "backslash \<notin> set s" "k \<le> length (split_slash s)"
    "list_all (\<lambda>x. \<not> IsGlobMeta x) (take k (split_slash s))"
  shows "plain_segments k s"
  using assms split_slash_chars [of _ s]
  by (auto simp: plain_segments_def list_all_iff literal_iff dest!: in_set_takeD)

lemma GlobsOverlap_covers:
  assumes dm: "matches_segments dm" and esc: "backslash \<notin> set a" "backslash \<notin> set b"
    and a: "dm a p = Some True" and b: "dm b p = Some True"
  shows "GlobsOverlap dm a b"
proof -
  have lit: "p = pat" if "\<not> IsGlobMeta pat" "backslash \<notin> set pat" "dm pat p = Some True" for pat
    using dm that by (auto simp: matches_segments_def literal_iff)
  have seg: "take k (split_slash p) = take k (split_slash pat)" if "dm pat p = Some True" "plain_segments k pat" for k pat
    using dm that by (simp add: matches_segments_def)
  have tail: "has_suffix p (literalSuffix (List.last (split_slash pat)))"
    if "dm pat p = Some True" "List.last (split_slash pat) \<noteq> ''**''" for pat
    using dm that by (simp add: matches_segments_def)
  have "segments_differ (split_slash a) (split_slash b) \<noteq> Some False"
  proof
    let ?as = "split_slash a" and ?bs = "split_slash b"
    assume "segments_differ ?as ?bs = Some False"
    then obtain k where k: "k < length ?as" "k < length ?bs" "take k ?as = take k ?bs" "?as ! k \<noteq> ?bs ! k"
      "list_all (\<lambda>s. \<not> IsGlobMeta s) (take (Suc k) ?as)" "list_all (\<lambda>s. \<not> IsGlobMeta s) (take (Suc k) ?bs)"
      using segments_differ_False by blast
    have "take (Suc k) ?as = take (Suc k) ?bs"
      using seg [OF a plain_take] seg [OF b plain_take] k esc by (metis Suc_leI)
    then have "?as ! k = ?bs ! k" by (metis lessI nth_take)
    with k(4) show False ..
  qed
  then have differ: "segments_differ (split_slash a) (split_slash b) \<in> {None, Some True}"
    by (cases "segments_differ (split_slash a) (split_slash b)") auto
  show ?thesis
  proof (cases "IsGlobMeta a \<and> IsGlobMeta b")
    case True
    then show ?thesis
      using differ suffixes_nest [OF tail [OF a] tail [OF b]] by (auto simp: GlobsOverlap_def Let_def)
  next
    case False
    then show ?thesis using lit [OF _ esc(1) a] lit [OF _ esc(2) b] a b
      by (auto simp: GlobsOverlap_def)
  qed
qed

text \<open>
  A literal pattern claims the whole tree it names, which the overlap of two literal patterns
  does not see.
\<close>

theorem literal_directory_overlap_missed:
  "glob_match dm \<lparr>gpattern = ''dist'', gexcept = []\<rparr> ''dist/app.js'' \<and>
   glob_match dm \<lparr>gpattern = ''dist/app.js'', gexcept = []\<rparr> ''dist/app.js'' \<and>
   \<not> GlobsOverlap dm ''dist'' ''dist/app.js''"
  by (simp add: glob_match_def glob_excludes_def claims_path_def IsLiteralGlob_def GlobsOverlap_def
      IsGlobMeta_def glob_meta_def backslash_def has_prefix_def)

end
