(* ===== verification/Target_Nodes.thy ===== *)
theory Target_Nodes
  imports Target_Globs
begin

text \<open>
  The unit that order derivation works on: \<open>TargetNode\<close>, its \<open>ctx.needs\<close> calls and the overlap
  of two nodes' declared files, of \<open>src/internal/cache/order.go\<close>.
\<close>

section \<open>Calls\<close>

text \<open>Each \<open>ctx.needs\<close> call is the list of the members it fans out.\<close>

type_synonym calls = "target_ref list list"

definition calls_members :: "calls \<Rightarrow> target_ref list" where
  "calls_members cs = foldl (@) [] cs"

text \<open>The members of the calls before the one that names a member, none when no call does.\<close>

fun calls_before_from :: "target_ref list \<Rightarrow> calls \<Rightarrow> target_ref \<Rightarrow> target_ref list" where
  "calls_before_from out [] member = []"
| "calls_before_from out (c # cs) member =
     (if member \<in> set c then out else calls_before_from (out @ c) cs member)"

definition calls_before :: "calls \<Rightarrow> target_ref \<Rightarrow> target_ref list" where
  "calls_before cs member = calls_before_from [] cs member"

section \<open>Nodes\<close>

record target_node =
  nproject :: path
  ntarget :: string
  nsteps :: "target_ref list"
  nreads :: "glob list"
  nwrites :: "glob list"
  declaredReads :: bool
  declaredWrites :: bool
  ignoreDirs :: "string list"
  needs :: calls

definition node_key :: "target_node \<Rightarrow> target_ref" where
  "node_key n = TargetRef (nproject n) (ntarget n)"

definition sharedStep :: "target_node \<Rightarrow> target_node \<Rightarrow> target_ref option" where
  "sharedStep n other = List.find (\<lambda>s. s \<in> set (nsteps other)) (nsteps n)"

definition identicalSteps :: "target_node \<Rightarrow> target_node \<Rightarrow> bool" where
  "identicalSteps n other \<longleftrightarrow>
     length (nsteps n) = length (nsteps other) \<and> list_all (\<lambda>s. s \<in> set (nsteps other)) (nsteps n)"

section \<open>Overlap\<close>

fun under_ignored :: "string list \<Rightarrow> string list \<Rightarrow> bool" where
  "under_ignored ignore [] = False"
| "under_ignored ignore (seg # segs) =
     (if IsGlobMeta seg then False
      else if seg \<in> set ignore then True
      else under_ignored ignore segs)"

definition underIgnoredDir :: "string \<Rightarrow> string list \<Rightarrow> bool" where
  "underIgnoredDir pat ignore = (ignore \<noteq> [] \<and> under_ignored ignore (split_slash pat))"

definition excludedLiteral :: "matcher \<Rightarrow> glob \<Rightarrow> glob \<Rightarrow> bool" where
  "excludedLiteral dm wg rg =
     list_ex (\<lambda>lit. \<not> IsGlobMeta lit \<and> (glob_excludes dm wg lit \<or> glob_excludes dm rg lit))
       [gpattern wg, gpattern rg]"

definition overlap_reads :: "matcher \<Rightarrow> glob \<Rightarrow> glob list \<Rightarrow> string option" where
  "overlap_reads dm wg rgs =
     map_option gpattern
       (List.find (\<lambda>rg. GlobsOverlap dm (gpattern wg) (gpattern rg) \<and> \<not> excludedLiteral dm wg rg) rgs)"

fun overlap_writes :: "matcher \<Rightarrow> target_node \<Rightarrow> glob list \<Rightarrow> (string \<times> string) option" where
  "overlap_writes dm r [] = None"
| "overlap_writes dm r (wg # wgs) =
     (if \<not> declaredReads r \<and> underIgnoredDir (gpattern wg) (ignoreDirs r) then overlap_writes dm r wgs
      else case overlap_reads dm wg (nreads r) of
             Some rp \<Rightarrow> Some (gpattern wg, rp)
           | None \<Rightarrow> overlap_writes dm r wgs)"

definition node_overlap :: "matcher \<Rightarrow> target_node \<Rightarrow> target_node \<Rightarrow> (string \<times> string) option" where
  "node_overlap dm n r = overlap_writes dm r (nwrites n)"

section \<open>Facts about calls\<close>

lemma calls_members_eq: "calls_members cs = concat cs"
proof -
  have "foldl (@) acc cs = acc @ concat cs" for acc
    by (induction cs arbitrary: acc) auto
  then show ?thesis by (simp add: calls_members_def)
qed

lemma calls_before_set:
  "m \<in> set (concat cs) \<Longrightarrow>
    \<exists>pre c post. cs = pre @ c # post \<and> m \<in> set c \<and> m \<notin> set (concat pre) \<and>
      calls_before_from out cs m = out @ concat pre"
proof (induction out cs m rule: calls_before_from.induct)
  case (2 out c cs m)
  show ?case
  proof (cases "m \<in> set c")
    case True
    then have "c # cs = [] @ c # cs \<and> m \<in> set c \<and> m \<notin> set (concat []) \<and>
        calls_before_from out (c # cs) m = out @ concat []" by simp
    then show ?thesis by blast
  next
    case False
    with 2 obtain pre d post where "cs = pre @ d # post" "m \<in> set d" "m \<notin> set (concat pre)"
      "calls_before_from (out @ c) cs m = (out @ c) @ concat pre" by auto
    with False have "c # cs = (c # pre) @ d # post \<and> m \<in> set d \<and> m \<notin> set (concat (c # pre)) \<and>
        calls_before_from out (c # cs) m = out @ concat (c # pre)" by simp
    then show ?thesis by blast
  qed
qed simp

text \<open>A call that names a member has the member's earlier calls behind it.\<close>

lemma calls_before_prefix:
  assumes "cs = pre @ c # post" "m \<in> set c"
  shows "set (calls_before cs m) \<subseteq> set (concat pre)"
proof -
  have "set (calls_before_from out (pre @ c # post) m) \<subseteq> set out \<union> set (concat pre)" for out
    using assms(2)
  proof (induction pre arbitrary: out)
    case (Cons a pre)
    from Cons.IH [of "out @ a", OF Cons.prems] show ?case by auto
  qed simp
  from this [of "[]"] assms(1) show ?thesis by (simp add: calls_before_def)
qed

lemma sharedStep_Some: "sharedStep n r = Some s \<Longrightarrow> s \<in> set (nsteps n) \<and> s \<in> set (nsteps r)"
  by (auto simp: sharedStep_def find_Some_iff)

end
