(* ===== verification/Same_Step.thy ===== *)
theory Same_Step
  imports Target_Nodes "HOL-Library.While_Combinator"
begin

text \<open>
  The overlaps inside one step: \<open>nodeOrder\<close> and \<open>FindSameStepConflicts\<close> of
  \<open>src/internal/cache/order.go\<close>. The witness that reads the workspace tree is a parameter,
  \<open>None\<close> for the code's nil.
\<close>

section \<open>What precedes a node\<close>

text \<open>
  Everything complete once a node has completed, and everything complete before it starts. A
  key the maps do not hold reads as the empty set.
\<close>

record node_order =
  doneBy :: "target_ref \<Rightarrow> target_ref set"
  precededBy :: "target_ref \<Rightarrow> target_ref set"

definition by_key :: "target_node list \<Rightarrow> target_ref \<Rightarrow> target_node option" where
  "by_key nodes = foldl (\<lambda>m n. m(node_key n \<mapsto> n)) Map.empty nodes"

definition key_needs :: "target_node list \<Rightarrow> target_ref \<Rightarrow> calls" where
  "key_needs nodes k = (case by_key nodes k of Some n \<Rightarrow> needs n | None \<Rightarrow> [])"

definition composers_of :: "target_node list \<Rightarrow> target_ref \<Rightarrow> target_ref list" where
  "composers_of nodes k =
     concat (map (\<lambda>n. map (\<lambda>_. node_key n) (filter (\<lambda>m. m = k) (calls_members (needs n)))) nodes)"

definition start_order :: "target_node list \<Rightarrow> node_order" where
  "start_order nodes =
     \<lparr>doneBy = (\<lambda>k. if k \<in> node_key ` set nodes then {k} else {}), precededBy = (\<lambda>_. {})\<rparr>"

definition via :: "target_node list \<Rightarrow> node_order \<Rightarrow> target_ref \<Rightarrow> target_ref \<Rightarrow> target_ref set" where
  "via nodes o1 key c =
     foldl (\<lambda>acc m. acc \<union> doneBy o1 m) {} (calls_before (key_needs nodes c) key) \<union> precededBy o1 c"

definition preceding :: "target_node list \<Rightarrow> node_order \<Rightarrow> target_ref \<Rightarrow> target_ref set" where
  "preceding nodes o1 key =
     (case composers_of nodes key of
        [] \<Rightarrow> {}
      | c # cs \<Rightarrow> foldl (\<lambda>p c. p \<inter> via nodes o1 key c) (via nodes o1 key c) cs)"

text \<open>One node of one round, and one round; the flag says whether a set grew.\<close>

definition settle_node :: "target_node list \<Rightarrow> node_order \<times> bool \<Rightarrow> target_node \<Rightarrow> node_order \<times> bool" where
  "settle_node nodes s n =
     (let (o0, changed) = s; key = node_key n;
          done0 = doneBy o0 key;
          done1 = foldl (\<lambda>acc m. acc \<union> doneBy o0 m) done0 (calls_members (needs n)) \<union> precededBy o0 key;
          o1 = o0\<lparr>doneBy := (doneBy o0)(key := done1)\<rparr>;
          changed1 = (changed \<or> card done1 > card done0);
          p = preceding nodes o1 key
      in if card p > card (precededBy o1 key)
         then (o1\<lparr>precededBy := (precededBy o1)(key := p)\<rparr>, True)
         else (o1, changed1))"

definition settle_round :: "target_node list \<Rightarrow> node_order \<Rightarrow> node_order \<times> bool" where
  "settle_round nodes o0 = foldl (settle_node nodes) (o0, False) nodes"

definition newNodeOrder :: "target_node list \<Rightarrow> node_order option" where
  "newNodeOrder nodes =
     map_option fst (while_option snd (\<lambda>s. settle_round nodes (fst s)) (start_order nodes, True))"

definition runsAfter :: "target_node list \<Rightarrow> node_order \<Rightarrow> target_ref \<Rightarrow> target_ref \<Rightarrow> bool" where
  "runsAfter nodes o1 later earlier \<longleftrightarrow>
     earlier \<in> precededBy o1 later \<or>
     list_ex (\<lambda>m. earlier \<in> doneBy o1 m) (calls_members (key_needs nodes later))"

section \<open>The conflicts\<close>

record same_step_conflict =
  cstep :: target_ref
  cwriter :: target_ref
  creader :: target_ref
  cwriteGlob :: string
  creadGlob :: string

type_synonym overlap_witness = "(string \<Rightarrow> string \<Rightarrow> string list \<Rightarrow> bool) option"

definition witnessed :: "overlap_witness \<Rightarrow> string \<Rightarrow> string \<Rightarrow> string list \<Rightarrow> bool" where
  "witnessed wit wg rg ignore = (case wit of None \<Rightarrow> True | Some f \<Rightarrow> f wg rg ignore)"

definition pair_conflict ::
  "matcher \<Rightarrow> overlap_witness \<Rightarrow> target_node list \<Rightarrow> node_order \<Rightarrow> target_node \<Rightarrow> target_node \<Rightarrow> same_step_conflict option" where
  "pair_conflict dm wit nodes o1 w r =
     (if node_key w = node_key r then None
      else if \<not> declaredWrites w \<or> \<not> declaredReads r then None
      else case sharedStep w r of
             None \<Rightarrow> None
           | Some s \<Rightarrow>
               (case node_overlap dm w r of
                  None \<Rightarrow> None
                | Some (wg, rg) \<Rightarrow>
                    if \<not> witnessed wit wg rg (ignoreDirs r) then None
                    else if runsAfter nodes o1 (node_key r) (node_key w) \<or> runsAfter nodes o1 (node_key w) (node_key r) then None
                    else Some \<lparr>cstep = s, cwriter = node_key w, creader = node_key r, cwriteGlob = wg, creadGlob = rg\<rparr>))"

definition FindSameStepConflicts ::
  "matcher \<Rightarrow> overlap_witness \<Rightarrow> target_node list \<Rightarrow> same_step_conflict list option" where
  "FindSameStepConflicts dm wit nodes =
     (case newNodeOrder nodes of
        None \<Rightarrow> None
      | Some o1 \<Rightarrow>
          Some (sort_key (\<lambda>c. (cstep c, cwriter c, creader c))
            (List.map_filter
               (\<lambda>(w, r). if w = r then None else pair_conflict dm wit nodes o1 (nodes ! w) (nodes ! r))
               (List.product [0..<length nodes] [0..<length nodes]))))"

definition sameProject :: "same_step_conflict \<Rightarrow> bool" where
  "sameProject c \<longleftrightarrow> ref_project (cwriter c) = ref_project (creader c)"

definition conflicts_within :: "bool \<Rightarrow> same_step_conflict list \<Rightarrow> same_step_conflict list" where
  "conflicts_within same cs = filter (\<lambda>c. sameProject c = same) cs"

text \<open>What \<open>Refusal\<close> and \<open>Advice\<close> name: the first conflict, and how many more there are.\<close>

definition first_and_more :: "same_step_conflict list \<Rightarrow> (same_step_conflict \<times> nat) option" where
  "first_and_more cs = (case cs of [] \<Rightarrow> None | c # ds \<Rightarrow> Some (c, length ds))"

definition Refusal :: "same_step_conflict list \<Rightarrow> (same_step_conflict \<times> nat) option" where
  "Refusal cs = first_and_more (conflicts_within True cs)"

definition Advice :: "same_step_conflict list \<Rightarrow> (same_step_conflict \<times> nat) option" where
  "Advice cs = first_and_more (conflicts_within False cs)"

end
