(* ===== verification/Cycle_Search.thy ===== *)
theory Cycle_Search
  imports Magus_Prelude
begin

text \<open>
  The depth-first search for a cycle that both the batch's check and the derivation of an
  order run: three colours, a stack of the edges walked, and the cycle read off the stack at
  the first grey node. The recursion of the code goes one level deeper per grey node, so the
  fuel counts the levels; one more than the nodes there are is always enough.
\<close>

datatype colour = White | Grey | Black

datatype ('e, 'n) search_result = Exhausted | Cycle "'e list" | Clear "'n \<Rightarrow> colour" "'e list"

section \<open>The search over edges\<close>

definition close_edges :: "('e \<Rightarrow> 'n) \<Rightarrow> ('e \<Rightarrow> 'n) \<Rightarrow> 'e list \<Rightarrow> 'e \<Rightarrow> 'e list" where
  "close_edges src dst st e =
     (let t = dropWhile (\<lambda>p. src p \<noteq> dst e) st in (if t = [] then st else t) @ [e])"

text \<open>\<open>n\<close> is the grey node being visited and the list holds its edges not yet walked.\<close>

fun visit_edges ::
  "('e \<Rightarrow> 'n) \<Rightarrow> ('e \<Rightarrow> 'n) \<Rightarrow> ('n \<Rightarrow> 'e list) \<Rightarrow> nat \<Rightarrow> 'n \<Rightarrow> 'e list \<Rightarrow> ('n \<Rightarrow> colour) \<Rightarrow> 'e list
    \<Rightarrow> ('e, 'n) search_result" where
  "visit_edges src dst adj 0 n es c st = Exhausted"
| "visit_edges src dst adj (Suc k) n [] c st = Clear (c(n := Black)) st"
| "visit_edges src dst adj (Suc k) n (e # es) c st =
     (case c (dst e) of
        Grey \<Rightarrow> Cycle (close_edges src dst st e)
      | Black \<Rightarrow> visit_edges src dst adj (Suc k) n es c st
      | White \<Rightarrow>
          (case visit_edges src dst adj k (dst e) (adj (dst e)) (c(dst e := Grey)) (st @ [e]) of
             Clear c' st' \<Rightarrow> visit_edges src dst adj (Suc k) n es c' (butlast st')
           | r \<Rightarrow> r))"

fun search_edges ::
  "('e \<Rightarrow> 'n) \<Rightarrow> ('e \<Rightarrow> 'n) \<Rightarrow> ('n \<Rightarrow> 'e list) \<Rightarrow> nat \<Rightarrow> 'n list \<Rightarrow> ('n \<Rightarrow> colour) \<Rightarrow> 'e list
    \<Rightarrow> ('e, 'n) search_result" where
  "search_edges src dst adj k [] c st = Clear c st"
| "search_edges src dst adj k (n # ns) c st =
     (if c n \<noteq> White then search_edges src dst adj k ns c st
      else case visit_edges src dst adj k n (adj n) (c(n := Grey)) st of
             Clear c' st' \<Rightarrow> search_edges src dst adj k ns c' st'
           | r \<Rightarrow> r)"

lemma visit_edges_stack: "visit_edges src dst adj k n es c st = Clear c' st' \<Longrightarrow> st' = st"
proof (induction src dst adj k n es c st arbitrary: c' st' rule: visit_edges.induct)
  case (3 src dst adj k n e es c st)
  show ?case
  proof (cases "c (dst e)")
    case White
    with "3.prems" obtain c1 st1 where
      r: "visit_edges src dst adj k (dst e) (adj (dst e)) (c(dst e := Grey)) (st @ [e]) = Clear c1 st1"
      and s: "visit_edges src dst adj (Suc k) n es c1 (butlast st1) = Clear c' st'"
      by (auto split: search_result.splits)
    have "st1 = st @ [e]" using "3.IH"(1) [OF White r] .
    with "3.IH"(2) [OF White r s] show ?thesis by simp
  qed (use "3.prems" "3.IH"(3) in \<open>simp_all\<close>)
qed simp_all

lemma search_stack: "search_edges src dst adj k ns c st = Clear c' st' \<Longrightarrow> st' = st"
proof (induction ns arbitrary: c st)
  case (Cons n ns)
  then show ?case
    by (fastforce split: if_splits search_result.splits dest: visit_edges_stack)
qed simp

section \<open>What the search finds\<close>

definition edge_cycle :: "('e \<Rightarrow> 'n) \<Rightarrow> ('e \<Rightarrow> 'n) \<Rightarrow> 'e set \<Rightarrow> 'e list \<Rightarrow> bool" where
  "edge_cycle src dst E cs \<longleftrightarrow>
     cs \<noteq> [] \<and> set cs \<subseteq> E \<and> distinct cs \<and>
     successively (\<lambda>a b. dst a = src b) cs \<and> dst (List.last cs) = src (hd cs)"

definition edge_pairs :: "('e \<Rightarrow> 'n) \<Rightarrow> ('e \<Rightarrow> 'n) \<Rightarrow> 'e set \<Rightarrow> ('n \<times> 'n) set" where
  "edge_pairs src dst E = (\<lambda>e. (src e, dst e)) ` E"

lemma edge_walk_trancl:
  assumes "cs \<noteq> []" "set cs \<subseteq> E" "successively (\<lambda>a b. dst a = src b) cs"
  shows "(src (hd cs), dst (List.last cs)) \<in> (edge_pairs src dst E)\<^sup>+"
  using assms
proof (induction cs)
  case (Cons e cs)
  have e: "(src e, dst e) \<in> edge_pairs src dst E" using Cons.prems by (auto simp: edge_pairs_def)
  show ?case
  proof (cases cs)
    case Nil
    with e show ?thesis by auto
  next
    case (Cons f fs)
    then have "(dst e, dst (List.last cs)) \<in> (edge_pairs src dst E)\<^sup>+"
      using Cons.IH Cons.prems by (auto simp: successively_Cons)
    with e Cons show ?thesis by (auto intro: trancl_into_trancl2)
  qed
qed simp

lemma edge_cycle_not_acyclic: "edge_cycle src dst E cs \<Longrightarrow> \<not> acyclic (edge_pairs src dst E)"
  using edge_walk_trancl [of cs E dst src] by (fastforce simp: edge_cycle_def acyclic_def)

section \<open>The search is right\<close>

text \<open>
  A graph whose edges are labels: every label of a node's row leaves the node and leads to
  another of the nodes listed.
\<close>

locale labelled_graph =
  fixes wf_graph :: "'g \<Rightarrow> bool"
    and nodes_of :: "'g \<Rightarrow> 'n list"
    and row :: "'g \<Rightarrow> 'n \<Rightarrow> 'e list"
    and src :: "'g \<Rightarrow> 'e \<Rightarrow> 'n"
    and dst :: "'g \<Rightarrow> 'e \<Rightarrow> 'n"
  assumes row_src: "wf_graph g \<Longrightarrow> e \<in> set (row g n) \<Longrightarrow> src g e = n"
    and row_dst: "wf_graph g \<Longrightarrow> e \<in> set (row g n) \<Longrightarrow> dst g e \<noteq> n \<and> dst g e \<in> set (nodes_of g)"
begin

definition labels :: "'g \<Rightarrow> 'e set" where
  "labels g = (\<Union>n. set (row g n))"

definition black_ok :: "'g \<Rightarrow> ('n \<Rightarrow> colour) \<Rightarrow> bool" where
  "black_ok g c \<longleftrightarrow>
     (\<forall>n e. c n = Black \<longrightarrow> e \<in> set (row g n) \<longrightarrow> c (dst g e) = Black) \<and>
     acyclic {(n, m). c n = Black \<and> m \<in> dst g ` set (row g n)}"

definition on_stack :: "'g \<Rightarrow> ('n \<Rightarrow> colour) \<Rightarrow> 'n \<Rightarrow> 'e list \<Rightarrow> bool" where
  "on_stack g c n st \<longleftrightarrow>
     {x. c x = Grey} = insert n (src g ` set st) \<and> distinct (map (src g) st @ [n]) \<and>
     set st \<subseteq> labels g \<and> successively (\<lambda>a b. dst g a = src g b) st \<and>
     (st \<noteq> [] \<longrightarrow> dst g (List.last st) = n)"

definition whites :: "'g \<Rightarrow> ('n \<Rightarrow> colour) \<Rightarrow> nat" where
  "whites g c = card {x \<in> set (nodes_of g). c x = White}"

definition spread :: "('n \<Rightarrow> colour) \<Rightarrow> ('n \<Rightarrow> colour) \<Rightarrow> bool" where
  "spread c c' \<longleftrightarrow> (\<forall>x. c x = Black \<longrightarrow> c' x = Black) \<and> (\<forall>x. c x = White \<longrightarrow> c' x \<noteq> Grey)"

lemma spread_refl [simp]: "spread c c"
  by (simp add: spread_def)

lemma whites_mono: "(\<And>x. c' x = White \<Longrightarrow> c x = White) \<Longrightarrow> whites g c' \<le> whites g c"
  unfolding whites_def by (rule card_mono) auto

lemma whites_grey: "m \<in> set (nodes_of g) \<Longrightarrow> c m = White \<Longrightarrow> Suc (whites g (c(m := Grey))) = whites g c"
proof -
  assume m: "m \<in> set (nodes_of g)" "c m = White"
  then have eq: "{x \<in> set (nodes_of g). c x = White} = insert m {x \<in> set (nodes_of g). (c(m := Grey)) x = White}"
    by auto
  show ?thesis unfolding whites_def eq by (rule card_insert_disjoint [symmetric]) auto
qed

lemma black_ok_blacken:
  assumes "black_ok g c" "c n = Grey" "\<And>e. e \<in> set (row g n) \<Longrightarrow> c (dst g e) = Black"
  shows "black_ok g (c(n := Black))"
proof -
  let ?B = "{(x, m). c x = Black \<and> m \<in> dst g ` set (row g x)}"
  let ?new = "{n} \<times> dst g ` set (row g n)"
  have eq: "{(x, m). (c(n := Black)) x = Black \<and> m \<in> dst g ` set (row g x)} = ?B \<union> ?new"
    using assms(2) by (auto split: if_splits)
  have closed: "m \<noteq> n" if "(x, m) \<in> ?B \<union> ?new" for x m
    using that assms by (auto simp: black_ok_def)
  have "acyclic (?B \<union> ?new)"
    unfolding acyclic_def
  proof safe
    fix x assume xx: "(x, x) \<in> (?B \<union> ?new)\<^sup>+"
    then obtain y where "(y, x) \<in> ?B \<union> ?new" by (meson tranclE)
    then have xn: "x \<noteq> n" by (rule closed)
    have "(a, b) \<in> (?B \<union> ?new)\<^sup>+ \<Longrightarrow> a \<noteq> n \<Longrightarrow> (a, b) \<in> ?B\<^sup>+ \<and> b \<noteq> n" for a b
    proof (induction rule: trancl_induct)
      case (base y)
      with closed [OF base(1)] show ?case by blast
    next
      case (step y z)
      with closed [OF step(2)] have "(y, z) \<in> ?B" "z \<noteq> n" by auto
      with step show ?case by (meson trancl.trancl_into_trancl)
    qed
    with xx xn have "(x, x) \<in> ?B\<^sup>+" by blast
    with assms(1) show False by (auto simp: black_ok_def acyclic_def)
  qed
  with eq assms show ?thesis by (auto simp: black_ok_def)
qed

lemma close_cycle:
  assumes wf: "wf_graph g" and st: "on_stack g c n st" and e: "e \<in> set (row g n)" and grey: "c (dst g e) = Grey"
  shows "edge_cycle (src g) (dst g) (labels g) (close_edges (src g) (dst g) st e)"
proof -
  let ?m = "dst g e"
  have "?m \<noteq> n" "src g e = n" using row_src row_dst wf e by auto
  then have "?m \<in> src g ` set st" using st grey by (auto simp: on_stack_def)
  then have "\<exists>p \<in> set st. src g p = ?m" by force
  from split_list_first_prop [OF this] obtain as p bs where
    sp: "st = as @ p # bs" "src g p = ?m" "\<forall>x \<in> set as. src g x \<noteq> ?m" by blast
  then have dw: "dropWhile (\<lambda>p. src g p \<noteq> ?m) st = p # bs" by (simp add: dropWhile_append)
  have "e \<notin> set st" using st \<open>src g e = n\<close> by (auto simp: on_stack_def)
  moreover have "e \<in> labels g" using e by (auto simp: labels_def)
  moreover have "successively (\<lambda>a b. dst g a = src g b) ((p # bs) @ [e])"
  proof -
    have "successively (\<lambda>a b. dst g a = src g b) (p # bs)" "dst g (List.last (p # bs)) = n"
      using st sp(1) by (auto simp: on_stack_def successively_append_iff)
    then show ?thesis using \<open>src g e = n\<close> by (simp add: successively_append_iff del: append_Cons)
  qed
  moreover have "distinct st" using st by (auto simp: on_stack_def distinct_map)
  moreover have "set st \<subseteq> labels g" using st by (simp add: on_stack_def)
  ultimately show ?thesis
    using sp dw by (auto simp: close_edges_def Let_def edge_cycle_def)
qed

lemma visit_edges_ok:
  assumes "wf_graph g" "on_stack g c n st" "black_ok g c"
    and "row g n = ds @ es" "\<And>d. d \<in> set ds \<Longrightarrow> c (dst g d) = Black"
  shows "case visit_edges (src g) (dst g) (row g) k n es c st of
      Exhausted \<Rightarrow> k \<le> whites g c
    | Cycle cs \<Rightarrow> edge_cycle (src g) (dst g) (labels g) cs
    | Clear c' st' \<Rightarrow> black_ok g c' \<and> c' n = Black \<and> spread c c' \<and> {x. c' x = Grey} = {x. c x = Grey} - {n}"
  using assms
proof (induction "src g" "dst g" "row g" k n es c st arbitrary: ds rule: visit_edges.induct)
  case (2 k n c st)
  then have "black_ok g (c(n := Black))" by (intro black_ok_blacken) (auto simp: on_stack_def)
  moreover have "{x. (c(n := Black)) x = Grey} = {x. c x = Grey} - {n}" by auto
  ultimately show ?case by (simp add: spread_def)
next
  case (3 k n e es c st)
  have e: "e \<in> set (row g n)" using "3.prems" by simp
  have m: "dst g e \<noteq> n" "dst g e \<in> set (nodes_of g)" "src g e = n"
    using row_src row_dst "3.prems"(1) e by auto
  show ?case
  proof (cases "c (dst g e)")
    case Grey
    then show ?thesis using close_cycle [OF "3.prems"(1,2) e] by simp
  next
    case Black
    have "row g n = (ds @ [e]) @ es" "\<And>d. d \<in> set (ds @ [e]) \<Longrightarrow> c (dst g d) = Black"
      using "3.prems" Black by auto
    from "3.hyps"(3) [OF Black "3.prems"(1-3) this] Black show ?thesis by simp
  next
    case White
    let ?c = "c(dst g e := Grey)"
    let ?r = "visit_edges (src g) (dst g) (row g) k (dst g e) (row g (dst g e)) ?c (st @ [e])"
    have st: "on_stack g ?c (dst g e) (st @ [e])"
      using "3.prems"(2) White m e by (auto simp: on_stack_def labels_def successively_append_iff)
    have bl: "black_ok g ?c"
    proof -
      have "{(x, y). ?c x = Black \<and> y \<in> dst g ` set (row g x)} = {(x, y). c x = Black \<and> y \<in> dst g ` set (row g x)}"
        using White by (auto split: if_splits)
      then show ?thesis using "3.prems"(3) White unfolding black_ok_def by (auto 0 3)
    qed
    note sub = "3.hyps"(1) [OF White "3.prems"(1) st bl, of "[]", simplified]
    show ?thesis
    proof (cases ?r)
      case Exhausted
      with sub have "k \<le> whites g ?c" by simp
      then have "Suc k \<le> whites g c" using whites_grey [of "dst g e" g c] m White by simp
      with Exhausted White show ?thesis by simp
    next
      case (Cycle cs)
      with sub White show ?thesis by simp
    next
      case (Clear c1 st1)
      then have st1: "butlast st1 = st" using visit_edges_stack by fastforce
      from sub Clear have c1: "black_ok g c1" "c1 (dst g e) = Black" "spread ?c c1"
        "{x. c1 x = Grey} = {x. ?c x = Grey} - {dst g e}" by auto
      have grey1: "c1 x = Grey \<longleftrightarrow> c x = Grey" for x
      proof -
        have "x \<in> {x. c1 x = Grey} \<longleftrightarrow> x \<in> {x. ?c x = Grey} - {dst g e}" by (simp only: c1(4))
        then show ?thesis using White by auto
      qed
      then have grey: "{x. c1 x = Grey} = {x. c x = Grey}" by simp
      have sp: "spread c c1"
        using c1(2) c1(3) [unfolded spread_def] White unfolding spread_def
        by (metis (no_types, lifting) colour.distinct(3,5) fun_upd_apply)
      have "on_stack g c1 n st" using "3.prems"(2) grey by (simp add: on_stack_def)
      moreover have "row g n = (ds @ [e]) @ es" "\<And>d. d \<in> set (ds @ [e]) \<Longrightarrow> c1 (dst g d) = Black"
        using "3.prems" c1 sp by (auto simp: spread_def)
      ultimately have rest: "case visit_edges (src g) (dst g) (row g) (Suc k) n es c1 st of
          Exhausted \<Rightarrow> Suc k \<le> whites g c1
        | Cycle cs \<Rightarrow> edge_cycle (src g) (dst g) (labels g) cs
        | Clear c' st' \<Rightarrow> black_ok g c' \<and> c' n = Black \<and> spread c1 c' \<and> {x. c' x = Grey} = {x. c1 x = Grey} - {n}"
        using "3.hyps"(2) [OF White Clear "3.prems"(1), of "ds @ [e]"] c1(1) st1 by simp
      have "c x = White" if "c1 x = White" for x
        using that sp grey1 [of x] by (cases "c x") (auto simp: spread_def)
      then have "whites g c1 \<le> whites g c" by (rule whites_mono)
      moreover have "spread c c'" if "spread c1 c'" "{x. c' x = Grey} = {x. c1 x = Grey} - {n}" for c'
        using that sp grey unfolding spread_def by (metis (mono_tags) DiffD1 mem_Collect_eq)
      ultimately show ?thesis using rest White Clear st1 grey
        by (auto split: search_result.splits)
    qed
  qed
qed simp

lemma search_edges_ok:
  assumes "wf_graph g" "black_ok g c" "\<And>x. c x \<noteq> Grey" "length (nodes_of g) < k"
  shows "case search_edges (src g) (dst g) (row g) k ns c [] of
      Exhausted \<Rightarrow> False
    | Cycle cs \<Rightarrow> edge_cycle (src g) (dst g) (labels g) cs
    | Clear c' st' \<Rightarrow> black_ok g c' \<and> spread c c' \<and> (\<forall>x. c' x \<noteq> Grey) \<and> (\<forall>n \<in> set ns. c' n = Black)"
  using assms(2,3)
proof (induction ns arbitrary: c)
  case (Cons n ns)
  show ?case
  proof (cases "c n = White")
    case False
    then have "c n = Black" using Cons.prems(2) [of n] by (cases "c n") auto
    with Cons.IH [OF Cons.prems] False show ?thesis by (auto simp: spread_def split: search_result.splits)
  next
    case True
    let ?c = "c(n := Grey)"
    have st: "on_stack g ?c n []" using Cons.prems(2) by (auto simp: on_stack_def)
    have "{(x, y). ?c x = Black \<and> y \<in> dst g ` set (row g x)} = {(x, y). c x = Black \<and> y \<in> dst g ` set (row g x)}"
      using True by (auto split: if_splits)
    then have bl: "black_ok g ?c" using Cons.prems(1) True unfolding black_ok_def by (auto 0 3)
    have "whites g ?c \<le> length (nodes_of g)"
      unfolding whites_def by (rule order_trans [OF card_mono card_length]) auto
    then have fuel: "\<not> k \<le> whites g ?c" using assms(4) by simp
    note v = visit_edges_ok [OF assms(1) st bl, of "[]" "row g n" k, simplified]
    show ?thesis
    proof (cases "visit_edges (src g) (dst g) (row g) k n (row g n) ?c []")
      case (Clear c1 st1)
      then have st1: "st1 = []" by (rule visit_edges_stack)
      from v Clear have c1: "black_ok g c1" "c1 n = Black" "spread ?c c1"
        "{x. c1 x = Grey} = {x. ?c x = Grey} - {n}" by auto
      have none: "c1 x \<noteq> Grey" for x
      proof -
        have "x \<in> {x. c1 x = Grey} \<longleftrightarrow> x \<in> {x. ?c x = Grey} - {n}" by (simp only: c1(4))
        then show ?thesis using Cons.prems(2) [of x] by (auto split: if_splits)
      qed
      have sp: "spread c c1"
        using c1(3) none True unfolding spread_def by (metis colour.distinct(3) fun_upd_other)
      from Cons.IH [OF c1(1) none] Clear True sp c1(2) st1 show ?thesis
        by (auto simp: spread_def split: search_result.splits)
    qed (use v fuel True in auto)
  qed
qed auto

text \<open>
  With a level to spare the search never gives up; what it reports is a cycle, and it reports
  one exactly when there is one.
\<close>

theorem search_finds_cycles:
  assumes wf: "wf_graph g" and k: "length (nodes_of g) < k"
    and starts: "\<And>n. row g n \<noteq> [] \<Longrightarrow> n \<in> set (nodes_of g)"
  obtains (acyclic) c where
      "search_edges (src g) (dst g) (row g) k (nodes_of g) (\<lambda>_. White) [] = Clear c []"
      "acyclic (edge_pairs (src g) (dst g) (labels g))"
    | (cyclic) cs where
      "search_edges (src g) (dst g) (row g) k (nodes_of g) (\<lambda>_. White) [] = Cycle cs"
      "edge_cycle (src g) (dst g) (labels g) cs"
proof -
  let ?r = "search_edges (src g) (dst g) (row g) k (nodes_of g) (\<lambda>_. White) []"
  have "black_ok g (\<lambda>_. White)" by (simp add: black_ok_def acyclic_def)
  note s = search_edges_ok [OF wf this _ k, of "nodes_of g", simplified]
  show thesis
  proof (cases ?r)
    case (Clear c st)
    then have st: "st = []" by (rule search_stack)
    from s Clear have "black_ok g c" "\<And>n. n \<in> set (nodes_of g) \<Longrightarrow> c n = Black" by auto
    then have "acyclic {(n, m). c n = Black \<and> m \<in> dst g ` set (row g n)}" by (simp add: black_ok_def)
    moreover have "edge_pairs (src g) (dst g) (labels g) \<subseteq> {(n, m). c n = Black \<and> m \<in> dst g ` set (row g n)}"
    proof
      fix p assume "p \<in> edge_pairs (src g) (dst g) (labels g)"
      then obtain n e where e: "e \<in> set (row g n)" "p = (src g e, dst g e)"
        by (auto simp: edge_pairs_def labels_def)
      then have "row g n \<noteq> []" by auto
      then have "n \<in> set (nodes_of g)" by (rule starts)
      then have "c n = Black" by fact
      moreover have "src g e = n" using row_src wf e by auto
      ultimately show "p \<in> {(n, m). c n = Black \<and> m \<in> dst g ` set (row g n)}" using e by auto
    qed
    ultimately have "acyclic (edge_pairs (src g) (dst g) (labels g))" by (rule acyclic_subset)
    moreover have "?r = Clear c []" using Clear st by simp
    ultimately show thesis using acyclic [of c] by blast
  qed (use s cyclic in auto)
qed

end

end
