(* ===== verification/Batch_Waits.thy ===== *)
theory Batch_Waits
  imports Target_Globs Cycle_Search
begin

text \<open>
  How a batch of steps waits on itself: \<open>src/internal/cache/upstream.go\<close> with the run a step
  leaves behind (\<open>TargetRun\<close> of \<open>target_runs.go\<close>) and the goroutines of \<open>RunAll\<close>
  (\<open>src/internal/cache/cache.go\<close>). Of a step only what ordering reads is kept. What happens
  between a step's upstreams and its end (seats, slots, the body) is one move here, with any
  outcome.
\<close>

section \<open>Steps and the edges between them\<close>

record batch_step =
  sproject :: path
  starget :: string
  dependsOn :: "path list"
  runAfter :: "target_ref list"

definition stepRef :: "batch_step \<Rightarrow> target_ref" where
  "stepRef s = TargetRef (sproject s) (starget s)"

text \<open>The refs a step waits on, in the order it waits on them.\<close>

definition upstream_refs :: "batch_step \<Rightarrow> target_ref list" where
  "upstream_refs s = map (\<lambda>d. TargetRef d (starget s)) (dependsOn s) @ runAfter s"

definition in_scope :: "batch_step list \<Rightarrow> target_ref set" where
  "in_scope steps = set (map stepRef steps)"

type_synonym adjacency = "target_ref \<Rightarrow> target_ref list"

definition add_upstream :: "target_ref set \<Rightarrow> target_ref \<Rightarrow> adjacency \<Rightarrow> target_ref \<Rightarrow> adjacency" where
  "add_upstream scope self adj dep =
     (if dep = self \<or> dep \<notin> scope \<or> dep \<in> set (adj self) then adj
      else adj(self := adj self @ [dep]))"

definition add_upstreams :: "target_ref set \<Rightarrow> adjacency \<Rightarrow> batch_step \<Rightarrow> adjacency" where
  "add_upstreams scope adj s = foldl (add_upstream scope (stepRef s)) adj (upstream_refs s)"

definition inScopeUpstreams :: "batch_step list \<Rightarrow> adjacency" where
  "inScopeUpstreams steps = foldl (add_upstreams (in_scope steps)) (\<lambda>_. []) steps"

section \<open>The check for a cycle\<close>

text \<open>The stack holds the grey nodes, the one being visited last.\<close>

definition close_refs :: "'n list \<Rightarrow> 'n \<Rightarrow> 'n list" where
  "close_refs st m = (let t = dropWhile (\<lambda>p. p \<noteq> m) st in (if t = [] then st else t) @ [m])"

fun visit_refs :: "('n \<Rightarrow> 'n list) \<Rightarrow> nat \<Rightarrow> 'n \<Rightarrow> 'n list \<Rightarrow> ('n \<Rightarrow> colour) \<Rightarrow> 'n list
    \<Rightarrow> ('n, 'n) search_result" where
  "visit_refs adj 0 n ms c st = Exhausted"
| "visit_refs adj (Suc k) n [] c st = Clear (c(n := Black)) (butlast st)"
| "visit_refs adj (Suc k) n (m # ms) c st =
     (case c m of
        Grey \<Rightarrow> Cycle (close_refs st m)
      | Black \<Rightarrow> visit_refs adj (Suc k) n ms c st
      | White \<Rightarrow>
          (case visit_refs adj k m (adj m) (c(m := Grey)) (st @ [m]) of
             Clear c' st' \<Rightarrow> visit_refs adj (Suc k) n ms c' st'
           | r \<Rightarrow> r))"

fun check_refs :: "('n \<Rightarrow> 'n list) \<Rightarrow> nat \<Rightarrow> 'n list \<Rightarrow> ('n \<Rightarrow> colour) \<Rightarrow> 'n list \<Rightarrow> ('n, 'n) search_result" where
  "check_refs adj k [] c st = Clear c st"
| "check_refs adj k (n # ns) c st =
     (if c n \<noteq> White then check_refs adj k ns c st
      else case visit_refs adj k n (adj n) (c(n := Grey)) (st @ [n]) of
             Clear c' st' \<Rightarrow> check_refs adj k ns c' st'
           | r \<Rightarrow> r)"

text \<open>The error carries the cycle; an empty one would mean the search gave up.\<close>

definition checkAcyclic :: "batch_step list \<Rightarrow> target_ref list + unit" where
  "checkAcyclic steps =
     (case check_refs (inScopeUpstreams steps) (Suc (length steps)) (map stepRef steps) (\<lambda>_. White) [] of
        Clear _ _ \<Rightarrow> Inr ()
      | Cycle cs \<Rightarrow> Inl cs
      | Exhausted \<Rightarrow> Inl [])"

section \<open>The runs steps wait for\<close>

datatype step_error = OwnFailure string | ContextDone | DependencyFailed target_ref step_error

datatype target_run = Open | Closed "step_error option"

type_synonym upstream_runs = "target_ref \<Rightarrow> target_run option"

definition newUpstreamRuns :: "batch_step list \<Rightarrow> upstream_runs" where
  "newUpstreamRuns steps =
     foldl (\<lambda>runs s. if runs (stepRef s) = None then runs(stepRef s \<mapsto> Open) else runs) Map.empty steps"

text \<open>Only the first completion of a run counts.\<close>

definition complete_run :: "target_run \<Rightarrow> step_error option \<Rightarrow> target_run" where
  "complete_run r err = (case r of Open \<Rightarrow> Closed err | Closed e \<Rightarrow> Closed e)"

definition upstream_complete :: "upstream_runs \<Rightarrow> target_ref \<Rightarrow> step_error option \<Rightarrow> upstream_runs" where
  "upstream_complete runs ref err =
     (case runs ref of Some r \<Rightarrow> runs(ref \<mapsto> complete_run r err) | None \<Rightarrow> runs)"

datatype wait_outcome = Proceed | WaitsOn target_ref | WaitFailed step_error

definition wait_for :: "bool \<Rightarrow> upstream_runs \<Rightarrow> target_ref \<Rightarrow> target_ref \<Rightarrow> wait_outcome" where
  "wait_for cancelled runs self ref =
     (if ref = self then Proceed
      else case runs ref of
             None \<Rightarrow> Proceed
           | Some Open \<Rightarrow> if cancelled then WaitFailed ContextDone else WaitsOn ref
           | Some (Closed None) \<Rightarrow> Proceed
           | Some (Closed (Some e)) \<Rightarrow> WaitFailed (DependencyFailed ref e))"

fun wait_all :: "bool \<Rightarrow> upstream_runs \<Rightarrow> target_ref \<Rightarrow> target_ref list \<Rightarrow> wait_outcome" where
  "wait_all cancelled runs self [] = Proceed"
| "wait_all cancelled runs self (ref # refs) =
     (case wait_for cancelled runs self ref of
        Proceed \<Rightarrow> wait_all cancelled runs self refs
      | r \<Rightarrow> r)"

definition waitForUpstreams :: "bool \<Rightarrow> upstream_runs \<Rightarrow> batch_step \<Rightarrow> wait_outcome" where
  "waitForUpstreams cancelled runs s = wait_all cancelled runs (stepRef s) (upstream_refs s)"

section \<open>The goroutines of a batch\<close>

text \<open>\<open>Finished\<close> remembers whether the step got past its upstreams.\<close>

datatype phase = Waiting | Admitted | Finished bool

record batch =
  phases :: "phase list"
  runs :: upstream_runs
  stepErrs :: "step_error option list"
  failedCount :: nat
  cancelled :: bool
  interrupted :: bool

definition start_batch :: "batch_step list \<Rightarrow> batch" where
  "start_batch steps =
     \<lparr>phases = replicate (length steps) Waiting, runs = newUpstreamRuns steps,
      stepErrs = replicate (length steps) None, failedCount = 0, cancelled = False, interrupted = False\<rparr>"

text \<open>
  A goroutine ends: the deferred \<open>complete\<close> gets the step's own verdict, and \<open>fail\<close>
  records it when the step ran and the batch was not cancelled.
\<close>

definition end_step :: "batch_step list \<Rightarrow> nat \<Rightarrow> bool \<Rightarrow> bool \<Rightarrow> step_error option \<Rightarrow> batch \<Rightarrow> batch" where
  "end_step steps i admitted tallied err b =
     (let b' = b\<lparr>phases := (phases b)[i := Finished admitted],
                 runs := upstream_complete (runs b) (stepRef (steps ! i)) err\<rparr>
      in if err = None \<or> \<not> tallied \<or> cancelled b then b'
         else b'\<lparr>stepErrs := (stepErrs b)[i := err], failedCount := failedCount b + 1\<rparr>)"

text \<open>
  The moves. \<open>abandon\<close> is the choice \<open>select\<close> makes when an upstream completes as the batch
  is cancelled: a goroutine parked on an upstream may see the cancellation first.
\<close>

inductive move :: "batch_step list \<Rightarrow> nat \<Rightarrow> batch \<Rightarrow> batch \<Rightarrow> bool" for steps where
  admit: "i < length steps \<Longrightarrow> phases b ! i = Waiting \<Longrightarrow>
    waitForUpstreams (cancelled b) (runs b) (steps ! i) = Proceed \<Longrightarrow>
    move steps i b (b\<lparr>phases := (phases b)[i := Admitted]\<rparr>)"
| refuse: "i < length steps \<Longrightarrow> phases b ! i = Waiting \<Longrightarrow>
    waitForUpstreams (cancelled b) (runs b) (steps ! i) = WaitFailed e \<Longrightarrow>
    move steps i b (end_step steps i False False (Some e) b)"
| abandon: "i < length steps \<Longrightarrow> phases b ! i = Waiting \<Longrightarrow> cancelled b \<Longrightarrow>
    ref \<in> set (upstream_refs (steps ! i)) \<Longrightarrow> ref \<noteq> stepRef (steps ! i) \<Longrightarrow> runs b ref \<noteq> None \<Longrightarrow>
    move steps i b (end_step steps i False False (Some ContextDone) b)"
| finish: "i < length steps \<Longrightarrow> phases b ! i = Admitted \<Longrightarrow> (err = None \<Longrightarrow> tallied) \<Longrightarrow>
    move steps i b (end_step steps i True tallied err b)"

text \<open>The group is cancelled by its parent's end or by a spent failure budget, never otherwise.\<close>

inductive batch_move :: "batch_step list \<Rightarrow> nat \<Rightarrow> batch \<Rightarrow> batch \<Rightarrow> bool" for steps budget where
  work: "move steps i b b' \<Longrightarrow> batch_move steps budget b b'"
| interrupt: "batch_move steps budget b (b\<lparr>cancelled := True, interrupted := True\<rparr>)"
| spend: "0 < budget \<Longrightarrow> budget \<le> failedCount b \<Longrightarrow>
    batch_move steps budget b (b\<lparr>cancelled := True\<rparr>)"

inductive reachable_batch :: "batch_step list \<Rightarrow> nat \<Rightarrow> batch \<Rightarrow> bool" for steps budget where
  start: "reachable_batch steps budget (start_batch steps)"
| step: "reachable_batch steps budget b \<Longrightarrow> batch_move steps budget b b' \<Longrightarrow> reachable_batch steps budget b'"

text \<open>What \<open>RunAll\<close> joins into its error once every goroutine has returned.\<close>

definition joined_errors :: "batch \<Rightarrow> step_error list" where
  "joined_errors b = List.map_filter id (stepErrs b)"

end
