(* ===== verification/Target_Order.thy ===== *)
theory Target_Order
  imports Same_Step Batch_Waits Dep_Graph
begin

text \<open>
  The order a batch derives from its targets' footprints: \<open>DeriveTargetOrder\<close> and what it calls
  in \<open>src/internal/cache/order.go\<close>, and \<open>deriveBatchOrder\<close> of \<open>src/order.go\<close>, which
  writes the order into the steps.
\<close>

record derived_edge =
  writer :: nat
  reader :: nat
  weak :: bool
  ordered :: bool

datatype drop_reason = WeakSide | DeclaredCycle

section \<open>Cycles among the edges\<close>

text \<open>\<open>adj\<close> holds the indices of the edges a node writes, in insertion order.\<close>

definition edge_row :: "derived_edge list \<Rightarrow> nat \<Rightarrow> nat list" where
  "edge_row es n = filter (\<lambda>i. writer (es ! i) = n) [0..<length es]"

definition findCycle :: "nat \<Rightarrow> derived_edge list \<Rightarrow> nat list option" where
  "findCycle n es =
     (case search_edges (\<lambda>i. writer (es ! i)) (\<lambda>i. reader (es ! i)) (edge_row es) (Suc n) [0..<n] (\<lambda>_. White) [] of
        Cycle cs \<Rightarrow> Some cs
      | _ \<Rightarrow> None)"

text \<open>The edge that breaks a cycle of declared edges; the loop's \<open>best\<close>, \<open>bestW\<close>, \<open>bestR\<close>, \<open>found\<close>.\<close>

definition back_edge_step ::
  "target_node list \<Rightarrow> derived_edge list \<Rightarrow> nat \<times> target_ref \<times> target_ref \<times> bool \<Rightarrow> nat \<Rightarrow> nat \<times> target_ref \<times> target_ref \<times> bool" where
  "back_edge_step nodes es s ei =
     (case s of (best, bestW, bestR, found) \<Rightarrow>
        let w = node_key (nodes ! writer (es ! ei)); r = node_key (nodes ! reader (es ! ei))
        in if w < r then s
           else if \<not> found \<or> bestW < w \<or> bestW = w \<and> bestR < r then (ei, w, r, True)
           else s)"

definition cycleBackEdge :: "target_node list \<Rightarrow> derived_edge list \<Rightarrow> nat list \<Rightarrow> nat" where
  "cycleBackEdge nodes es cyc =
     fst (foldl (back_edge_step nodes es) (hd cyc, TargetRef [] [], TargetRef [] [], False) cyc)"

definition drops :: "target_node list \<Rightarrow> derived_edge list \<Rightarrow> nat list \<Rightarrow> nat list \<times> drop_reason" where
  "drops nodes es cyc =
     (let weaks = filter (\<lambda>ei. weak (es ! ei)) cyc
      in if weaks = [] then ([cycleBackEdge nodes es cyc], DeclaredCycle) else (weaks, WeakSide))"

text \<open>Deleting in descending order of index, each deleted edge recorded with the reason.\<close>

definition drop_edges ::
  "drop_reason \<Rightarrow> nat list \<Rightarrow> derived_edge list \<times> (derived_edge \<times> drop_reason) list
    \<Rightarrow> derived_edge list \<times> (derived_edge \<times> drop_reason) list" where
  "drop_edges reason is s =
     foldl (\<lambda>(es, dropped) ei. (delete_at ei es, dropped @ [(es ! ei, reason)])) s (rev (sort is))"

section \<open>The order of the nodes\<close>

text \<open>One edge of the node taken: its reader loses an incoming edge and is ready once it has none.\<close>

definition topo_relax :: "nat \<Rightarrow> int list \<times> nat list \<Rightarrow> derived_edge \<Rightarrow> int list \<times> nat list" where
  "topo_relax n s e = (if writer e \<noteq> n then s else relax s (reader e))"

lemma topo_relax_measure:
  "foldl (topo_relax n) (d, q) es = (d', q') \<Longrightarrow> pending_degrees d' + length q' \<le> pending_degrees d + length q"
proof (induction es arbitrary: d q)
  case (Cons e es)
  obtain d1 q1 where s1: "topo_relax n (d, q) e = (d1, q1)" by force
  then have "pending_degrees d1 + length q1 \<le> pending_degrees d + length q"
    using relax_measure [of d q "reader e" d1 q1] by (auto simp: topo_relax_def split: if_splits)
  moreover have "foldl (topo_relax n) (d1, q1) es = (d', q')" using Cons.prems s1 by simp
  ultimately show ?case using Cons.IH [of d1 q1] by linarith
qed simp

function topo_nodes :: "derived_edge list \<Rightarrow> int list \<Rightarrow> nat list \<Rightarrow> nat list \<Rightarrow> nat list" where
  "topo_nodes es d [] out = out"
| "topo_nodes es d (n # q) out =
     (case foldl (topo_relax n) (d, q) es of (d', q') \<Rightarrow> topo_nodes es d' q' (out @ [n]))"
  by pat_completeness auto
termination
  by (relation "measure (\<lambda>(es, d, q, out). pending_degrees d + length q)")
     (auto dest!: topo_relax_measure [OF sym])

definition edge_degrees :: "nat \<Rightarrow> derived_edge list \<Rightarrow> int list" where
  "edge_degrees n es = foldl (\<lambda>d e. d[reader e := d ! reader e + 1]) (replicate n 0) es"

definition TopoNodes :: "nat \<Rightarrow> derived_edge list \<Rightarrow> nat list" where
  "TopoNodes n es =
     (let d = edge_degrees n es in topo_nodes es d (filter (\<lambda>v. d ! v = 0) [0..<n]) [])"

section \<open>Onto the steps\<close>

type_synonym step_edge = "target_ref \<times> target_ref"

text \<open>The coarse edges: each project dependency in scope, from upstream to dependent.\<close>

definition coarse_edges :: "batch_step list \<Rightarrow> step_edge list" where
  "coarse_edges steps =
     concat (map (\<lambda>s. List.map_filter
       (\<lambda>dep. let k = TargetRef dep (starget s)
               in if k \<in> in_scope steps \<and> k \<noteq> stepRef s then Some (k, stepRef s) else None)
       (dependsOn s)) steps)"

definition step_pairs :: "batch_step list \<Rightarrow> target_node \<Rightarrow> target_node \<Rightarrow> step_edge list" where
  "step_pairs steps w r =
     filter (\<lambda>(sw, sr). sw \<noteq> sr \<and> sw \<in> in_scope steps \<and> sr \<in> in_scope steps)
       (List.product (nsteps w) (nsteps r))"

text \<open>The keys of \<open>induced\<close>, sorted.\<close>

definition induced_edges :: "batch_step list \<Rightarrow> target_node list \<Rightarrow> derived_edge list \<Rightarrow> step_edge list" where
  "induced_edges steps nodes es =
     compact (sort (concat (map (\<lambda>e. step_pairs steps (nodes ! writer e) (nodes ! reader e)) es)))"

text \<open>The breadth-first walk of \<open>reachable\<close> over the coarse and the kept edges.\<close>

definition see_next :: "target_ref list \<times> target_ref list \<Rightarrow> target_ref \<Rightarrow> target_ref list \<times> target_ref list" where
  "see_next s m = (if m \<in> set (fst s) then s else (m # fst s, snd s @ [m]))"

definition unseen :: "step_edge list \<Rightarrow> target_ref list \<Rightarrow> nat" where
  "unseen E seen = card (set (map snd E) - set seen)"

lemma see_next_measure:
  "set ms \<subseteq> set (map snd E) \<Longrightarrow>
    unseen E (fst (foldl see_next (seen, q) ms)) + length (snd (foldl see_next (seen, q) ms)) = unseen E seen + length q"
proof (induction ms arbitrary: seen q)
  case (Cons m ms)
  show ?case
  proof (cases "m \<in> set seen")
    case True
    with Cons show ?thesis by (simp add: see_next_def)
  next
    case False
    let ?S = "set (map snd E) - set (m # seen)"
    have eq: "set (map snd E) - set seen = insert m ?S" using False Cons.prems by auto
    have "card (insert m ?S) = Suc (card ?S)" by (rule card_insert_disjoint) simp_all
    then have "unseen E seen = Suc (unseen E (m # seen))" unfolding unseen_def eq .
    with False Cons show ?thesis by (simp add: see_next_def)
  qed
qed simp

lemma see_row_measure:
  assumes "foldl see_next (seen, q) (map snd (filter (\<lambda>e. fst e = n) E)) = (seen', q')"
  shows "unseen E seen' + length q' = unseen E seen + length q"
proof -
  have "set (map snd (filter (\<lambda>e. fst e = n) E)) \<subseteq> set (map snd E)" by auto
  from see_next_measure [OF this, of seen q] assms show ?thesis by simp
qed

function step_walk :: "step_edge list \<Rightarrow> target_ref \<Rightarrow> target_ref list \<Rightarrow> target_ref list \<Rightarrow> bool" where
  "step_walk E goal seen [] = False"
| "step_walk E goal seen (n # q) =
     (if n = goal then True
      else case foldl see_next (seen, q) (map snd (filter (\<lambda>e. fst e = n) E)) of
             (seen', q') \<Rightarrow> step_walk E goal seen' q')"
  by pat_completeness auto
termination
proof (relation "measure (\<lambda>(E, goal, seen, q). unseen E seen + length q)", goal_cases)
  case (2 E goal seen n q seen' q')
  have "foldl see_next (seen, q) (map snd (filter (\<lambda>e. fst e = n) E)) = (seen', q')" using 2 by simp
  from see_row_measure [OF this] show ?case by simp
qed simp

definition step_reachable :: "step_edge list \<Rightarrow> target_ref \<Rightarrow> target_ref \<Rightarrow> bool" where
  "step_reachable E from_step to_step = step_walk E to_step [from_step] [from_step]"

text \<open>Induced edges are admitted one at a time while the graph stays acyclic.\<close>

definition keep_edge :: "step_edge list \<Rightarrow> step_edge list \<Rightarrow> step_edge \<Rightarrow> step_edge list" where
  "keep_edge coarse kept e =
     (if step_reachable (coarse @ kept) (snd e) (fst e) then kept else kept @ [e])"

definition kept_edges :: "batch_step list \<Rightarrow> target_node list \<Rightarrow> derived_edge list \<Rightarrow> step_edge list" where
  "kept_edges steps nodes es = foldl (keep_edge (coarse_edges steps)) [] (induced_edges steps nodes es)"

definition edge_ordered :: "batch_step list \<Rightarrow> target_node list \<Rightarrow> step_edge list \<Rightarrow> derived_edge \<Rightarrow> bool" where
  "edge_ordered steps nodes kept e =
     list_all (\<lambda>p. p \<in> set kept \<or> step_reachable (coarse_edges steps @ kept) (fst p) (snd p))
       (step_pairs steps (nodes ! writer e) (nodes ! reader e))"

definition run_after :: "step_edge list \<Rightarrow> target_ref \<Rightarrow> target_ref list" where
  "run_after kept k = sort (map fst (filter (\<lambda>e. snd e = k) kept))"

section \<open>The order\<close>

record derived_order =
  onodes :: "target_node list"
  oedges :: "derived_edge list"
  odropped :: "(derived_edge \<times> drop_reason) list"
  orunAfter :: "target_ref \<Rightarrow> target_ref list"
  osameStep :: "same_step_conflict list"

text \<open>The pairs of nodes an edge derives from, writer by writer.\<close>

definition pair_edge :: "matcher \<Rightarrow> target_node list \<Rightarrow> nat \<times> nat \<Rightarrow> derived_edge option" where
  "pair_edge dm nodes p =
     (case p of (w, r) \<Rightarrow>
        if w = r \<or> node_key (nodes ! w) = node_key (nodes ! r) then None
        else if identicalSteps (nodes ! w) (nodes ! r) then None
        else if node_overlap dm (nodes ! w) (nodes ! r) = None then None
        else Some \<lparr>writer = w, reader = r,
                   weak = (\<not> declaredWrites (nodes ! w) \<or> \<not> declaredReads (nodes ! r)), ordered = False\<rparr>)"

definition footprint_edges :: "matcher \<Rightarrow> target_node list \<Rightarrow> derived_edge list" where
  "footprint_edges dm nodes =
     List.map_filter (pair_edge dm nodes) (List.product [0..<length nodes] [0..<length nodes])"

section \<open>Resolving the cycles\<close>

lemma delete_at_length: "length (delete_at i xs) \<le> length xs"
  by (simp add: delete_at_def)

lemma visit_edges_labels:
  assumes "visit_edges src dst adj k n es c st = Cycle cs"
    "\<And>n. set (adj n) \<subseteq> L" "set es \<subseteq> L" "set st \<subseteq> L"
  shows "cs \<noteq> [] \<and> set cs \<subseteq> L"
  using assms
proof (induction src dst adj k n es c st rule: visit_edges.induct)
  case (3 src dst adj k n e es c st)
  show ?case
  proof (cases "c (dst e)")
    case White
    show ?thesis
    proof (cases "visit_edges src dst adj k (dst e) (adj (dst e)) (c(dst e := Grey)) (st @ [e])")
      case (Cycle ds)
      with White "3.prems"(1) have "ds = cs" by simp
      note sub = "3.IH"(1) [OF White Cycle [unfolded this]]
      show ?thesis using "3.prems" by (intro sub) auto
    next
      case (Clear c1 st1)
      have st1: "st1 = st @ [e]" using visit_edges_stack [OF Clear] .
      have "visit_edges src dst adj (Suc k) n es c1 st = Cycle cs"
        using "3.prems"(1) White Clear st1 by simp
      with "3.IH"(2) [OF White Clear] "3.prems" st1 show ?thesis by simp
    qed (use White 3 in simp)
  next
    case Grey
    have "set (dropWhile (\<lambda>p. src p \<noteq> dst e) st) \<subseteq> L" using "3.prems"(4) by (meson set_dropWhileD subset_iff)
    with Grey 3 show ?thesis by (auto simp: close_edges_def Let_def split: if_splits)
  qed (use 3 in simp)
qed simp_all

lemma search_edges_labels:
  assumes "search_edges src dst adj k ns c [] = Cycle cs" "\<And>n. set (adj n) \<subseteq> L"
  shows "cs \<noteq> [] \<and> set cs \<subseteq> L"
  using assms(1)
proof (induction ns arbitrary: c)
  case (Cons n ns)
  show ?case
  proof (cases "c n = White")
    case True
    show ?thesis
    proof (cases "visit_edges src dst adj k n (adj n) (c(n := Grey)) []")
      case (Clear c1 st1)
      have "st1 = []" using visit_edges_stack [OF Clear] .
      with Cons Clear True show ?thesis by simp
    next
      case (Cycle ds)
      with visit_edges_labels [OF Cycle, of L] Cons.prems True assms(2) show ?thesis by simp
    qed (use Cons.prems True in simp)
  qed (use Cons in simp)
qed simp

lemma findCycle_indices: "findCycle n es = Some cs \<Longrightarrow> cs \<noteq> [] \<and> set cs \<subseteq> {..<length es}"
  by (auto simp: findCycle_def edge_row_def split: search_result.splits
      dest!: search_edges_labels [where L = "{..<length es}"])

lemma back_edge_in:
  "fst (foldl (back_edge_step nodes es) s is) \<in> insert (fst s) (set is)"
proof (induction "is" arbitrary: s)
  case (Cons i "is")
  have "fst (back_edge_step nodes es s i) \<in> {fst s, i}"
    by (auto simp: back_edge_step_def Let_def split: prod.splits)
  with Cons [of "back_edge_step nodes es s i"] show ?case by auto
qed simp

lemma drops_indices:
  assumes "cyc \<noteq> []"
  shows "fst (drops nodes es cyc) \<noteq> [] \<and> set (fst (drops nodes es cyc)) \<subseteq> set cyc"
proof -
  have "cycleBackEdge nodes es cyc \<in> set cyc"
    using back_edge_in [of nodes es "(hd cyc, TargetRef [] [], TargetRef [] [], False)" cyc] assms
    by (auto simp: cycleBackEdge_def)
  then show ?thesis by (auto simp: drops_def Let_def)
qed

lemma drop_edges_shorter:
  assumes "is \<noteq> []" "set is \<subseteq> {..<length es}"
  shows "length (fst (drop_edges reason is (es, dropped))) < length es"
proof -
  have le: "length (fst (foldl (\<lambda>(es, dropped) ei. (delete_at ei es, dropped @ [(es ! ei, reason)])) (es, dropped) js)) \<le> length es"
    for es dropped js
    by (induction js arbitrary: es dropped) (use delete_at_length le_trans in fastforce)+
  obtain j js where js: "rev (sort is) = j # js" using assms(1) by (cases "rev (sort is)") (auto dest: arg_cong [where f = set])
  then have "j < length es" using assms(2) by (metis in_mono lessThan_iff list.set_intros(1) set_rev set_sort)
  with le [of "delete_at j es" "dropped @ [(es ! j, reason)]" js] js show ?thesis
    by (auto simp: drop_edges_def)
qed

function resolveFineCycles ::
  "target_node list \<Rightarrow> derived_edge list \<times> (derived_edge \<times> drop_reason) list
    \<Rightarrow> derived_edge list \<times> (derived_edge \<times> drop_reason) list" where
  "resolveFineCycles nodes s =
     (case findCycle (length nodes) (fst s) of
        None \<Rightarrow> s
      | Some cyc \<Rightarrow>
          (case drops nodes (fst s) cyc of
             (is, reason) \<Rightarrow> resolveFineCycles nodes (drop_edges reason is s)))"
  by pat_completeness auto
termination
proof (relation "measure (\<lambda>(nodes, s). length (fst s))", goal_cases)
  case (2 nodes s cyc "is" reason)
  from findCycle_indices [OF 2(1)] have c: "cyc \<noteq> []" "set cyc \<subseteq> {..<length (fst s)}" by auto
  have "fst (drops nodes (fst s) cyc) = is" using 2(2) by (metis fst_conv)
  with drops_indices [OF c(1), of nodes "fst s"] c have "is \<noteq> []" "set is \<subseteq> {..<length (fst s)}" by auto
  from drop_edges_shorter [OF this, of reason "snd s"] show ?case by simp
qed simp

declare resolveFineCycles.simps [simp del]

section \<open>The derivation\<close>

definition DeriveTargetOrder ::
  "matcher \<Rightarrow> overlap_witness \<Rightarrow> batch_step list \<Rightarrow> target_node list \<Rightarrow> derived_order option" where
  "DeriveTargetOrder dm wit steps nodes =
     (case FindSameStepConflicts dm wit nodes of
        None \<Rightarrow> None
      | Some conflicts \<Rightarrow>
          (case resolveFineCycles nodes (footprint_edges dm nodes, []) of
             (es, dropped) \<Rightarrow>
               let kept = kept_edges steps nodes es
               in Some \<lparr>onodes = nodes,
                    oedges = map (\<lambda>e. e\<lparr>ordered := edge_ordered steps nodes kept e\<rparr>) es,
                    odropped = dropped, orunAfter = run_after kept, osameStep = conflicts\<rparr>))"

text \<open>
  \<open>deriveBatchOrder\<close>: a conflict inside one project refuses the run, otherwise the derived
  \<open>RunAfter\<close> goes into the steps. The nodes are collected from the workspace and given here.
\<close>

definition apply_run_after :: "derived_order \<Rightarrow> batch_step \<Rightarrow> batch_step" where
  "apply_run_after d s =
     s\<lparr>runAfter := foldl (\<lambda>ra up. if up \<in> set ra then ra else ra @ [up]) (runAfter s) (orunAfter d (stepRef s))\<rparr>"

definition empty_order :: derived_order where
  "empty_order = \<lparr>onodes = [], oedges = [], odropped = [], orunAfter = (\<lambda>_. []), osameStep = []\<rparr>"

definition deriveBatchOrder ::
  "matcher \<Rightarrow> overlap_witness \<Rightarrow> batch_step list \<Rightarrow> target_node list
    \<Rightarrow> ((same_step_conflict \<times> nat) + derived_order \<times> batch_step list) option" where
  "deriveBatchOrder dm wit steps nodes =
     (if steps = [] then Some (Inr (empty_order, []))
      else case DeriveTargetOrder dm wit steps nodes of
             None \<Rightarrow> None
           | Some d \<Rightarrow>
               (case Refusal (osameStep d) of
                  Some r \<Rightarrow> Some (Inl r)
                | None \<Rightarrow> Some (Inr (d, map (apply_run_after d) steps))))"

end
