(* ===== verification/Target_Order_Correct.thy ===== *)
theory Target_Order_Correct
  imports Target_Order Dep_Graph_Correct "HOL-Library.Multiset"
begin

text \<open>
  What cycle resolution leaves is acyclic, every derived edge is kept or dropped for a reason,
  and the nodes' order puts writers first.
\<close>

section \<open>The derived edges\<close>

definition edges_ok :: "target_node list \<Rightarrow> derived_edge list \<Rightarrow> bool" where
  "edges_ok nodes es \<longleftrightarrow>
     distinct (map (\<lambda>e. (writer e, reader e)) es) \<and>
     (\<forall>e \<in> set es. writer e < length nodes \<and> reader e < length nodes \<and>
        node_key (nodes ! writer e) \<noteq> node_key (nodes ! reader e))"

definition node_edges :: "derived_edge list \<Rightarrow> (nat \<times> nat) set" where
  "node_edges es = (\<lambda>e. (writer e, reader e)) ` set es"

lemma pair_edge_Some:
  "pair_edge dm nodes p = Some e \<Longrightarrow>
    (writer e, reader e) = p \<and> node_key (nodes ! writer e) \<noteq> node_key (nodes ! reader e) \<and>
    node_overlap dm (nodes ! writer e) (nodes ! reader e) \<noteq> None"
  by (auto simp: pair_edge_def split: prod.splits if_splits)

lemma map_filter_distinct:
  assumes "distinct xs" "\<And>x y. f x = Some y \<Longrightarrow> g y = x"
  shows "distinct (map g (List.map_filter f xs))"
  using assms(1)
proof (induction xs)
  case (Cons x xs)
  have "g ` set (List.map_filter f xs) \<subseteq> set xs"
    using assms(2) by (auto simp: set_map_filter_iff)
  with Cons assms(2) [of x] show ?case by (auto simp: map_filter_simps split: option.splits)
qed (simp add: map_filter_simps)

lemma footprint_edges_ok: "edges_ok nodes (footprint_edges dm nodes)"
proof -
  have "distinct (map (\<lambda>e. (writer e, reader e)) (footprint_edges dm nodes))"
    unfolding footprint_edges_def
    by (rule map_filter_distinct) (auto simp: distinct_product dest: pair_edge_Some)
  then show ?thesis
    by (auto simp: edges_ok_def footprint_edges_def set_map_filter_iff dest!: pair_edge_Some)
qed

lemma edges_ok_subseq:
  assumes "edges_ok nodes es" "set es' \<subseteq> set es" "distinct (map (\<lambda>e. (writer e, reader e)) es')"
  shows "edges_ok nodes es'"
  using assms by (auto simp: edges_ok_def)

section \<open>One cycle\<close>

interpretation derived: labelled_graph
  "\<lambda>(nodes, es). edges_ok nodes es" "\<lambda>(nodes :: target_node list, es). [0..<length nodes]"
  "\<lambda>(nodes :: target_node list, es). edge_row es"
  "\<lambda>(nodes :: target_node list, es) i. writer (es ! i)" "\<lambda>(nodes :: target_node list, es) i. reader (es ! i)"
  by unfold_locales (auto simp: edge_row_def edges_ok_def, metis nth_mem)

lemma derived_labels: "derived.labels (nodes, es) = {..<length es}"
  by (auto simp: derived.labels_def edge_row_def)

lemma findCycle_cases:
  assumes ok: "edges_ok nodes es"
  obtains (none) "findCycle (length nodes) es = None" "acyclic (node_edges es)"
    | (some) cyc where "findCycle (length nodes) es = Some cyc"
        "edge_cycle (\<lambda>i. writer (es ! i)) (\<lambda>i. reader (es ! i)) {..<length es} cyc"
proof -
  have pairs: "edge_pairs (\<lambda>i. writer (es ! i)) (\<lambda>i. reader (es ! i)) {..<length es} = node_edges es"
    unfolding edge_pairs_def node_edges_def
    by (auto simp: in_set_conv_nth intro!: imageI)
  have starts: "n \<in> set [0..<length nodes]" if "edge_row es n \<noteq> []" for n
    using that ok by (auto simp: edge_row_def edges_ok_def filter_empty_conv)
  show thesis
  proof (rule derived.search_finds_cycles [of "(nodes, es)" "Suc (length nodes)"])
    fix c assume "search_edges (case (nodes, es) of (nodes, es) \<Rightarrow> \<lambda>i. writer (es ! i))
        (case (nodes, es) of (nodes, es) \<Rightarrow> \<lambda>i. reader (es ! i)) (case (nodes, es) of (nodes, es) \<Rightarrow> edge_row es)
        (Suc (length nodes)) (case (nodes, es) of (nodes, es) \<Rightarrow> [0..<length nodes]) (\<lambda>_. White) [] = Clear c []"
      "acyclic (edge_pairs (case (nodes, es) of (nodes, es) \<Rightarrow> \<lambda>i. writer (es ! i))
        (case (nodes, es) of (nodes, es) \<Rightarrow> \<lambda>i. reader (es ! i)) (derived.labels (nodes, es)))"
    then show thesis using none pairs by (simp add: findCycle_def derived_labels)
  next
    fix cs assume "search_edges (case (nodes, es) of (nodes, es) \<Rightarrow> \<lambda>i. writer (es ! i))
        (case (nodes, es) of (nodes, es) \<Rightarrow> \<lambda>i. reader (es ! i)) (case (nodes, es) of (nodes, es) \<Rightarrow> edge_row es)
        (Suc (length nodes)) (case (nodes, es) of (nodes, es) \<Rightarrow> [0..<length nodes]) (\<lambda>_. White) [] = Cycle cs"
      "edge_cycle (case (nodes, es) of (nodes, es) \<Rightarrow> \<lambda>i. writer (es ! i))
        (case (nodes, es) of (nodes, es) \<Rightarrow> \<lambda>i. reader (es ! i)) (derived.labels (nodes, es)) cs"
    then show thesis using some by (simp add: findCycle_def derived_labels)
  qed (use ok starts in simp_all)
qed

text \<open>Around a cycle the keys fall somewhere, so an edge to break it is always found.\<close>

lemma cycle_falls:
  fixes f :: "'n \<Rightarrow> 'k :: linorder"
  assumes cyc: "edge_cycle src dst E cs"
  shows "\<exists>e \<in> set cs. f (dst e) \<le> f (src e)"
proof (rule ccontr)
  assume "\<not> ?thesis"
  then have rise: "f (src e) < f (dst e)" if "e \<in> set cs" for e using that by (meson not_le)
  have "f (src (hd cs)) < f (dst (List.last cs))"
    if "cs \<noteq> []" "successively (\<lambda>a b. dst a = src b) cs" "\<And>e. e \<in> set cs \<Longrightarrow> f (src e) < f (dst e)" for cs
    using that
  proof (induction cs)
    case (Cons e es)
    show ?case
    proof (cases es)
      case (Cons e' es')
      then have "f (src (hd es)) < f (dst (List.last es))"
        using Cons.IH Cons.prems by (auto simp: successively_Cons)
      moreover have "dst e = src (hd es)" using Cons Cons.prems(2) by (simp add: successively_Cons)
      moreover have "f (src e) < f (dst e)" using Cons.prems(3) by simp
      ultimately show ?thesis using Cons by auto
    qed (use Cons.prems in auto)
  qed simp
  from this [of cs] cyc rise show False by (auto simp: edge_cycle_def)
qed

definition key_of :: "target_node list \<Rightarrow> nat \<Rightarrow> target_ref" where
  "key_of nodes i = node_key (nodes ! i)"

lemma back_edge_falls:
  fixes nodes es
  defines "fall \<equiv> \<lambda>ei. key_of nodes (reader (es ! ei)) \<le> key_of nodes (writer (es ! ei))"
  assumes "snd (snd (snd s)) \<Longrightarrow> fall (fst s)"
  shows "(snd (snd (snd s)) \<or> (\<exists>ei \<in> set is. fall ei)) \<Longrightarrow> fall (fst (foldl (back_edge_step nodes es) s is))"
  using assms(2)
proof (induction "is" arbitrary: s)
  case (Cons i "is")
  let ?s = "back_edge_step nodes es s i"
  have "snd (snd (snd ?s)) \<longleftrightarrow> snd (snd (snd s)) \<or> fall i"
    by (auto simp: back_edge_step_def Let_def fall_def key_of_def not_less split: prod.splits)
  moreover have "snd (snd (snd ?s)) \<Longrightarrow> fall (fst ?s)"
    using Cons.prems(2) by (auto simp: back_edge_step_def Let_def fall_def key_of_def not_less split: prod.splits if_splits)
  ultimately show ?case using Cons.IH [of ?s] Cons.prems(1) by auto
qed simp

lemma cycleBackEdge_ok:
  assumes ok: "edges_ok nodes es"
    and cyc: "edge_cycle (\<lambda>i. writer (es ! i)) (\<lambda>i. reader (es ! i)) {..<length es} cyc"
  shows "cycleBackEdge nodes es cyc \<in> set cyc"
    "key_of nodes (reader (es ! cycleBackEdge nodes es cyc)) < key_of nodes (writer (es ! cycleBackEdge nodes es cyc))"
proof -
  have ne: "cyc \<noteq> []" "set cyc \<subseteq> {..<length es}" using cyc by (auto simp: edge_cycle_def)
  show c: "cycleBackEdge nodes es cyc \<in> set cyc"
    using back_edge_in [of nodes es "(hd cyc, TargetRef [] [], TargetRef [] [], False)" cyc] ne
    by (auto simp: cycleBackEdge_def)
  have "\<exists>ei \<in> set cyc. key_of nodes (reader (es ! ei)) \<le> key_of nodes (writer (es ! ei))"
    using cycle_falls [OF cyc, of "key_of nodes"] .
  then have "key_of nodes (reader (es ! cycleBackEdge nodes es cyc)) \<le> key_of nodes (writer (es ! cycleBackEdge nodes es cyc))"
    using back_edge_falls [of "(hd cyc, TargetRef [] [], TargetRef [] [], False)" nodes es cyc]
    by (simp add: cycleBackEdge_def)
  moreover have "es ! cycleBackEdge nodes es cyc \<in> set es" using c ne by auto
  ultimately show "key_of nodes (reader (es ! cycleBackEdge nodes es cyc)) < key_of nodes (writer (es ! cycleBackEdge nodes es cyc))"
    using ok by (force simp: edges_ok_def key_of_def)
qed

text \<open>The edge that is picked has the greatest keys among those that fall.\<close>

definition edge_key :: "target_node list \<Rightarrow> derived_edge \<Rightarrow> target_ref \<times> target_ref" where
  "edge_key nodes e = (key_of nodes (writer e), key_of nodes (reader e))"

definition falls :: "target_node list \<Rightarrow> derived_edge \<Rightarrow> bool" where
  "falls nodes e \<longleftrightarrow> key_of nodes (reader e) \<le> key_of nodes (writer e)"

definition best_so_far :: "target_node list \<Rightarrow> derived_edge list \<Rightarrow> nat set \<Rightarrow> nat \<times> target_ref \<times> target_ref \<times> bool \<Rightarrow> bool" where
  "best_so_far nodes es I s \<longleftrightarrow>
     (case s of (best, w, r, found) \<Rightarrow>
        (found \<longrightarrow> (w, r) = edge_key nodes (es ! best)) \<and>
        (\<forall>i \<in> I. falls nodes (es ! i) \<longrightarrow> found \<and> edge_key nodes (es ! i) \<le> (w, r)))"

lemma back_edge_step_best:
  "best_so_far nodes es I s \<Longrightarrow> best_so_far nodes es (insert i I) (back_edge_step nodes es s i)"
  by (cases s) (auto simp: best_so_far_def back_edge_step_def Let_def falls_def edge_key_def key_of_def not_less
      less_eq_prod_def split: if_splits)

lemma back_edge_best:
  "best_so_far nodes es I s \<Longrightarrow> best_so_far nodes es (I \<union> set is) (foldl (back_edge_step nodes es) s is)"
proof (induction "is" arbitrary: I s)
  case (Cons i "is")
  from Cons.IH [OF back_edge_step_best [OF Cons.prems], of i] show ?case by simp
qed simp

lemma cycleBackEdge_greatest:
  assumes "ei \<in> set cyc" "falls nodes (es ! ei)"
  shows "edge_key nodes (es ! ei) \<le> edge_key nodes (es ! cycleBackEdge nodes es cyc)"
proof -
  let ?s = "(hd cyc, TargetRef [] [], TargetRef [] [], False)"
  have "best_so_far nodes es {} ?s" by (simp add: best_so_far_def)
  from back_edge_best [OF this, of cyc] assms show ?thesis
    by (auto simp: best_so_far_def cycleBackEdge_def split: prod.splits)
qed

section \<open>Resolution\<close>

text \<open>
  How cycles are broken: while some edges form a cycle, one such cycle loses all its edges with
  a baseline for a side, and when it has none, the one edge that falls with the greatest keys.
\<close>

definition breaks :: "target_node list \<Rightarrow> derived_edge list \<Rightarrow> derived_edge set \<Rightarrow> drop_reason \<Rightarrow> bool" where
  "breaks nodes es gone reason \<longleftrightarrow>
     (\<exists>cyc. edge_cycle writer reader (set es) cyc \<and>
        (if list_ex weak cyc then reason = WeakSide \<and> gone = {e \<in> set cyc. weak e}
         else reason = DeclaredCycle \<and>
           (\<exists>e \<in> set cyc. gone = {e} \<and> key_of nodes (reader e) < key_of nodes (writer e) \<and>
              (\<forall>e' \<in> set cyc. falls nodes e' \<longrightarrow> edge_key nodes e' \<le> edge_key nodes e))))"

inductive resolves :: "target_node list \<Rightarrow> derived_edge list \<Rightarrow> (derived_edge \<times> drop_reason) list \<Rightarrow> derived_edge list \<Rightarrow> bool"
  for nodes where
  settled: "acyclic (node_edges es) \<Longrightarrow> resolves nodes es [] es"
| round: "breaks nodes es (set gone) reason \<Longrightarrow> distinct gone \<Longrightarrow> mset es = mset rest + mset gone \<Longrightarrow>
    resolves nodes rest dropped kept \<Longrightarrow> resolves nodes es (map (\<lambda>e. (e, reason)) gone @ dropped) kept"

lemma resolves_kept:
  "resolves nodes es dropped kept \<Longrightarrow> acyclic (node_edges kept) \<and> mset kept + mset (map fst dropped) = mset es"
  by (induction rule: resolves.induct) (auto simp: o_def add_ac)

lemma edge_cycle_nth:
  assumes "edge_cycle (\<lambda>i. writer (es ! i)) (\<lambda>i. reader (es ! i)) {..<length es} cyc" "distinct es"
  shows "edge_cycle writer reader (set es) (map ((!) es) cyc)"
proof -
  have "inj_on ((!) es) (set cyc)"
    using assms by (intro inj_on_nth) (auto simp: edge_cycle_def)
  with assms(1) show ?thesis
    by (auto simp: edge_cycle_def distinct_map successively_map last_map hd_map)
qed

lemma edges_ok_distinct: "edges_ok nodes es \<Longrightarrow> distinct es"
  by (simp add: edges_ok_def distinct_map)

lemma drops_ok:
  assumes ok: "edges_ok nodes es"
    and cyc: "edge_cycle (\<lambda>i. writer (es ! i)) (\<lambda>i. reader (es ! i)) {..<length es} cyc"
    and d: "drops nodes es cyc = (is, reason)"
  shows "distinct is" "set is \<subseteq> {..<length es}" "is \<noteq> []" "breaks nodes es ((!) es ` set is) reason"
proof -
  have c: "distinct cyc" "set cyc \<subseteq> {..<length es}" using cyc by (auto simp: edge_cycle_def)
  note b = cycleBackEdge_ok [OF ok cyc]
  show "distinct is" "set is \<subseteq> {..<length es}" "is \<noteq> []"
    using d c b(1) by (auto simp: drops_def Let_def split: if_splits)
  have cut: "if list_ex weak (map ((!) es) cyc) then reason = WeakSide \<and> (!) es ` set is = {e \<in> set (map ((!) es) cyc). weak e}
      else reason = DeclaredCycle \<and> is = [cycleBackEdge nodes es cyc]"
    using d by (auto simp: drops_def Let_def list_ex_iff filter_empty_conv split: if_splits)
  show "breaks nodes es ((!) es ` set is) reason"
    unfolding breaks_def
  proof (rule exI [of _ "map ((!) es) cyc"], rule conjI [OF edge_cycle_nth [OF cyc edges_ok_distinct [OF ok]]])
    show "if list_ex weak (map ((!) es) cyc) then reason = WeakSide \<and> (!) es ` set is = {e \<in> set (map ((!) es) cyc). weak e}
      else reason = DeclaredCycle \<and>
        (\<exists>e \<in> set (map ((!) es) cyc). (!) es ` set is = {e} \<and> key_of nodes (reader e) < key_of nodes (writer e) \<and>
          (\<forall>e' \<in> set (map ((!) es) cyc). falls nodes e' \<longrightarrow> edge_key nodes e' \<le> edge_key nodes e))"
      using cut b cycleBackEdge_greatest [of _ cyc nodes es] by (auto split: if_splits)
  qed
qed

lemma nth_delete_at: "i < j \<Longrightarrow> delete_at j xs ! i = xs ! i"
  by (cases "i < length xs") (auto simp: delete_at_def nth_append min_def)

lemma mset_delete_at: "i < length xs \<Longrightarrow> add_mset (xs ! i) (mset (delete_at i xs)) = mset xs"
proof -
  assume "i < length xs"
  then have "mset xs = mset (take i xs @ xs ! i # drop (Suc i) xs)" using id_take_nth_drop [of i xs] by simp
  then show ?thesis by (simp add: delete_at_def)
qed

lemma drop_edges_fold:
  assumes "sorted_wrt (>) js" "set js \<subseteq> {..<length es}"
    "foldl (\<lambda>(es, dropped) ei. (delete_at ei es, dropped @ [(es ! ei, reason)])) (es, dropped) js = (es', dropped')"
  shows "dropped' = dropped @ map (\<lambda>i. (es ! i, reason)) js \<and> mset es = mset es' + mset (map ((!) es) js)"
  using assms
proof (induction js arbitrary: es dropped)
  case (Cons j js)
  have j: "j < length es" and below: "\<forall>i \<in> set js. i < j" using Cons.prems by auto
  have len: "length (delete_at j es) = length es - 1" using j by simp
  have "set js \<subseteq> {..<length (delete_at j es)}" using below j len by auto
  with Cons.IH [of "delete_at j es" "dropped @ [(es ! j, reason)]"] Cons.prems
  have ih: "dropped' = (dropped @ [(es ! j, reason)]) @ map (\<lambda>i. (delete_at j es ! i, reason)) js"
    "mset (delete_at j es) = mset es' + mset (map ((!) (delete_at j es)) js)" by auto
  have "map ((!) (delete_at j es)) js = map ((!) es) js" "map (\<lambda>i. (delete_at j es ! i, reason)) js = map (\<lambda>i. (es ! i, reason)) js"
    using below by (auto simp: nth_delete_at)
  with ih mset_delete_at [OF j] show ?case by (metis (no_types, lifting) add_mset_add_single append.assoc append_Cons append_Nil
      list.simps(9) mset.simps(2) union_mset_add_mset_right)
qed simp

lemma drop_edges_ok:
  assumes "distinct is" "set is \<subseteq> {..<length es}" "drop_edges reason is (es, dropped) = (es', dropped')"
  shows "dropped' = dropped @ map (\<lambda>e. (e, reason)) (map ((!) es) (rev (sort is)))"
    "mset es = mset es' + mset (map ((!) es) (rev (sort is)))" "mset es' \<subseteq># mset es"
proof -
  have srt: "sorted_wrt (>) (rev (sort is))" using assms(1) by (simp add: sorted_wrt_rev strict_sorted_iff)
  have sub: "set (rev (sort is)) \<subseteq> {..<length es}" using assms(2) by simp
  note d = drop_edges_fold [OF srt sub assms(3) [unfolded drop_edges_def]]
  show "dropped' = dropped @ map (\<lambda>e. (e, reason)) (map ((!) es) (rev (sort is)))" using d by (simp add: o_def)
  show "mset es = mset es' + mset (map ((!) es) (rev (sort is)))" "mset es' \<subseteq># mset es" using d by simp_all
qed

lemma distinct_submset:
  assumes "mset xs \<subseteq># mset ys" "distinct ys"
  shows "distinct xs"
  unfolding distinct_count_atmost_1
proof
  fix a
  have "count (mset xs) a \<le> count (mset ys) a" using assms(1) by (rule mset_subset_eq_count)
  also have "\<dots> \<le> 1" using assms(2) by (auto simp: distinct_count_atmost_1)
  finally have "count (mset xs) a \<le> 1" .
  moreover have "0 < count (mset xs) a \<longleftrightarrow> a \<in> set xs" by simp
  ultimately have "a \<in> set xs \<Longrightarrow> count (mset xs) a = 1" "a \<notin> set xs \<Longrightarrow> count (mset xs) a = 0" by linarith+
  then show "count (mset xs) a = (if a \<in> set xs then 1 else 0)" by simp
qed

lemma edges_ok_sub:
  assumes "edges_ok nodes es" "mset es' \<subseteq># mset es"
  shows "edges_ok nodes es'"
proof (rule edges_ok_subseq [OF assms(1)])
  show "set es' \<subseteq> set es" using set_mset_mono [OF assms(2)] by simp
  have "image_mset (\<lambda>e. (writer e, reader e)) (mset es') \<subseteq># image_mset (\<lambda>e. (writer e, reader e)) (mset es)"
    using assms(2) by (rule image_mset_subseteq_mono)
  then have "mset (map (\<lambda>e. (writer e, reader e)) es') \<subseteq># mset (map (\<lambda>e. (writer e, reader e)) es)"
    by simp
  then show "distinct (map (\<lambda>e. (writer e, reader e)) es')"
    using assms(1) by (rule distinct_submset [OF _ conjunct1 [OF edges_ok_def [THEN iffD1]]])
qed

lemma resolveFineCycles_ok:
  assumes "edges_ok nodes (fst s)" "resolveFineCycles nodes s = (es, dropped)"
  shows "edges_ok nodes es \<and> (\<exists>ds. dropped = snd s @ ds \<and> resolves nodes (fst s) ds es)"
  using assms
proof (induction nodes s rule: resolveFineCycles.induct)
  case (1 nodes s)
  show ?case
  proof (rule findCycle_cases [OF "1.prems"(1)])
    assume "findCycle (length nodes) (fst s) = None" "acyclic (node_edges (fst s))"
    with "1.prems" show ?case by (auto simp: resolveFineCycles.simps [of nodes s] intro: resolves.settled)
  next
    fix cyc
    assume f: "findCycle (length nodes) (fst s) = Some cyc"
      and c: "edge_cycle (\<lambda>i. writer (fst s ! i)) (\<lambda>i. reader (fst s ! i)) {..<length (fst s)} cyc"
    obtain "is" reason where d: "drops nodes (fst s) cyc = (is, reason)" by force
    obtain es1 dr1 where e: "drop_edges reason is s = (es1, dr1)" by force
    let ?cut = "map ((!) (fst s)) (rev (sort is))"
    note dk = drops_ok [OF "1.prems"(1) c d]
    have "drop_edges reason is (fst s, snd s) = (es1, dr1)" using e by simp
    note de = drop_edges_ok [OF dk(1,2) this]
    have ok1: "edges_ok nodes (fst (drop_edges reason is s))"
      using edges_ok_sub [OF "1.prems"(1) de(3)] e by simp
    have "resolveFineCycles nodes (drop_edges reason is s) = (es, dropped)"
      using "1.prems"(2) f d by (simp add: resolveFineCycles.simps [of nodes s])
    from "1.IH" [OF f d [symmetric] ok1 this] e obtain ds where
      ds: "edges_ok nodes es" "dropped = dr1 @ ds" "resolves nodes es1 ds es" by auto
    have "distinct (map ((!) (fst s)) is)"
      using inj_on_nth [OF edges_ok_distinct [OF "1.prems"(1)], of "set is"] dk(1,2) by (auto simp: distinct_map)
    then have "distinct ?cut" by (simp add: distinct_map)
    moreover have "breaks nodes (fst s) (set ?cut) reason" using dk(4) by simp
    ultimately have "resolves nodes (fst s) (map (\<lambda>e. (e, reason)) ?cut @ ds) es"
      using resolves.round [OF _ _ de(2) ds(3)] by blast
    then show ?case using ds(1,2) de(1) by auto
  qed
qed

section \<open>The order of the nodes\<close>

text \<open>\<open>TopoNodes\<close> is Kahn's loop over the edges' rows.\<close>

definition reader_rows :: "nat \<Rightarrow> derived_edge list \<Rightarrow> nat list list" where
  "reader_rows n es = map (\<lambda>v. map reader (filter (\<lambda>e. writer e = v) es)) [0..<n]"

lemma reader_rows_ok:
  assumes "edges_ok nodes es"
  shows "rows_ok (length nodes) (reader_rows (length nodes) es)"
proof -
  have "distinct (map reader (filter (\<lambda>e. writer e = v) es))"
    if "distinct (map (\<lambda>e. (writer e, reader e)) es)" for v and es :: "derived_edge list"
    using that by (induction es) (auto simp: image_iff)
  then show ?thesis using assms by (auto simp: rows_ok_def reader_rows_def edges_ok_def)
qed

lemma reader_rows_edges:
  "edges_ok nodes es \<Longrightarrow> row_edges (reader_rows (length nodes) es) = node_edges es"
  by (force simp: row_edges_def reader_rows_def node_edges_def edges_ok_def)

lemma topo_relax_row: "foldl (topo_relax v) s es = foldl relax s (map reader (filter (\<lambda>e. writer e = v) es))"
  by (induction es arbitrary: s) (auto simp: topo_relax_def)

lemma topo_nodes_kahn:
  "kahn_inv n (reader_rows n es) d q out \<Longrightarrow> rows_ok n (reader_rows n es) \<Longrightarrow>
    topo_nodes es d q out = kahn (reader_rows n es) d q out"
proof (induction es d q out rule: topo_nodes.induct)
  case (2 es d v q out)
  have v: "v < n" using "2.prems"(1) by (simp add: kahn_inv_def)
  obtain d' q' where r: "foldl (topo_relax v) (d, q) es = (d', q')" by force
  then have r': "foldl relax (d, q) (reader_rows n es ! v) = (d', q')"
    using v by (simp add: topo_relax_row reader_rows_def)
  from kahn_inv_step [OF "2.prems" r'] "2.IH" [OF r [symmetric] _ "2.prems"(2)] r r' show ?case by simp
qed simp

lemma edge_degrees_eq:
  assumes ok: "edges_ok nodes es"
  shows "edge_degrees (length nodes) es = in_degrees (length nodes) (reader_rows (length nodes) es)"
proof (rule nth_equalityI)
  let ?n = "length nodes"
  have len: "length (foldl (\<lambda>d e. d[reader e := d ! reader e + 1]) d es) = length d" for d :: "int list" and es
    by (induction es arbitrary: d) auto
  show "length (edge_degrees ?n es) = length (in_degrees ?n (reader_rows ?n es))"
    by (simp add: edge_degrees_def len)
  fix w assume "w < length (edge_degrees ?n es)"
  then have w: "w < ?n" by (simp add: edge_degrees_def len)
  have fold: "foldl (\<lambda>d e. d[reader e := d ! reader e + 1]) d es ! w = d ! w + int (length (filter (\<lambda>e. reader e = w) es))"
    if "w < length d" for d :: "int list" and es
    using that by (induction es arbitrary: d) (auto simp: nth_list_update)
  have "distinct (map writer (filter (\<lambda>e. reader e = w) es))"
    if "distinct (map (\<lambda>e. (writer e, reader e)) es)" for es :: "derived_edge list"
    using that by (induction es) (auto simp: image_iff)
  then have d: "distinct (map writer (filter (\<lambda>e. reader e = w) es))" using ok by (simp add: edges_ok_def)
  have "{v. v < ?n \<and> w \<in> set (reader_rows ?n es ! v)} = set (map writer (filter (\<lambda>e. reader e = w) es))"
    using ok by (force simp: reader_rows_def edges_ok_def)
  then have "card {v. v < ?n \<and> w \<in> set (reader_rows ?n es ! v)} = length (filter (\<lambda>e. reader e = w) es)"
    using distinct_card [OF d] by simp
  then show "edge_degrees ?n es ! w = in_degrees ?n (reader_rows ?n es) ! w"
    using in_degrees_nth [OF w, of "reader_rows ?n es"] reader_rows_ok [OF ok] fold [of "replicate ?n 0" es] w
    by (simp add: edge_degrees_def rows_ok_def)
qed

lemma TopoNodes_kahn:
  assumes ok: "edges_ok nodes es"
  shows "TopoNodes (length nodes) es = kahn_order (length nodes) (reader_rows (length nodes) es)"
  unfolding TopoNodes_def kahn_order_def Let_def edge_degrees_eq [OF ok]
  by (rule topo_nodes_kahn [OF kahn_inv_init]) (rule reader_rows_ok [OF ok])+

lemma TopoNodes_ok:
  assumes ok: "edges_ok nodes es" and ac: "acyclic (node_edges es)"
  shows "distinct (TopoNodes (length nodes) es)" "set (TopoNodes (length nodes) es) = {..<length nodes}"
    "topo_sorted (node_edges es) (TopoNodes (length nodes) es)"
proof -
  let ?n = "length nodes" and ?rows = "reader_rows (length nodes) es"
  note s = kahn_order_sound [OF reader_rows_ok [OF ok]]
  have len: "length (kahn_order ?n ?rows) = ?n"
    using kahn_order_complete_iff [OF reader_rows_ok [OF ok]] ac reader_rows_edges [OF ok] by simp
  show "distinct (TopoNodes ?n es)" "topo_sorted (node_edges es) (TopoNodes ?n es)"
    using s TopoNodes_kahn [OF ok] reader_rows_edges [OF ok] by simp_all
  have "card (set (kahn_order ?n ?rows)) = card {..<?n}" using s(1) len by (simp add: distinct_card)
  then show "set (TopoNodes ?n es) = {..<?n}"
    using s(2) TopoNodes_kahn [OF ok] by (simp add: card_subset_eq)
qed

end
