(* ===== verification/Batch_Waits_Correct.thy ===== *)
theory Batch_Waits_Correct
  imports Batch_Waits
begin

text \<open>
  The check accepts exactly the batches whose waits have no cycle; an accepted batch never
  deadlocks, and its steps run behind their upstreams.
\<close>

section \<open>The edges the check reads\<close>

definition wait_edges :: "batch_step list \<Rightarrow> (target_ref \<times> target_ref) set" where
  "wait_edges steps =
     {(stepRef s, u) | s u. s \<in> set steps \<and> u \<in> set (upstream_refs s) \<and> u \<noteq> stepRef s \<and> u \<in> in_scope steps}"

lemma add_upstream_set:
  "set (foldl (add_upstream scope self) adj us r) =
    set (adj r) \<union> {u. r = self \<and> u \<in> set us \<and> u \<noteq> self \<and> u \<in> scope}"
  by (induction us arbitrary: adj) (auto simp: add_upstream_def)

lemma inScopeUpstreams_set: "set (inScopeUpstreams steps r) = {u. (r, u) \<in> wait_edges steps}"
proof -
  have "set (foldl (add_upstreams scope) adj ss r) =
      set (adj r) \<union> {u. \<exists>s \<in> set ss. r = stepRef s \<and> u \<in> set (upstream_refs s) \<and> u \<noteq> stepRef s \<and> u \<in> scope}"
    for scope adj ss
    by (induction ss arbitrary: adj) (auto simp: add_upstreams_def add_upstream_set)
  then show ?thesis by (auto simp: inScopeUpstreams_def wait_edges_def)
qed

section \<open>The check\<close>

definition ref_cycle :: "('n \<times> 'n) set \<Rightarrow> 'n list \<Rightarrow> bool" where
  "ref_cycle E cs \<longleftrightarrow> 2 \<le> length cs \<and> hd cs = List.last cs \<and> successively (\<lambda>a b. (a, b) \<in> E) cs"

definition wait_row :: "batch_step list \<Rightarrow> target_ref \<Rightarrow> (target_ref \<times> target_ref) list" where
  "wait_row steps n = map (Pair n) (inScopeUpstreams steps n)"

interpretation waits: labelled_graph "\<lambda>_. True" "map stepRef" wait_row "\<lambda>_. fst" "\<lambda>_. snd"
  by unfold_locales (auto simp: wait_row_def inScopeUpstreams_set wait_edges_def in_scope_def)

definition as_refs :: "('n \<times> 'n, 'n) search_result \<Rightarrow> 'n list \<Rightarrow> ('n, 'n) search_result" where
  "as_refs r st =
     (case r of Exhausted \<Rightarrow> Exhausted
      | Cycle cs \<Rightarrow> Cycle (map fst cs @ [snd (List.last cs)])
      | Clear c _ \<Rightarrow> Clear c st)"

lemma as_refs_simps [simp]:
  "as_refs Exhausted st = Exhausted"
  "as_refs (Cycle cs) st = Cycle (map fst cs @ [snd (List.last cs)])"
  "as_refs (Clear c st') st = Clear c st"
  by (simp_all add: as_refs_def)

lemma close_refs_edges:
  assumes "m \<noteq> n"
  shows "close_refs (map fst st @ [n]) m =
    map fst (close_edges fst snd st (n, m)) @ [snd (List.last (close_edges fst snd st (n, m)))]"
proof -
  have "dropWhile (\<lambda>p. p \<noteq> m) (map fst st @ [n]) = map fst (dropWhile (\<lambda>p. fst p \<noteq> m) st) @ [n]"
    if "m \<in> fst ` set st"
    using that dropWhile_append1 [of m "map fst st" "\<lambda>p. p \<noteq> m" "[n]"]
    by (auto simp: dropWhile_map o_def)
  moreover have "dropWhile (\<lambda>p. p \<noteq> m) (map fst st @ [n]) = []" "dropWhile (\<lambda>p. fst p \<noteq> m) st = []"
    if "m \<notin> fst ` set st"
    using that assms by (induction st) auto
  moreover have "dropWhile (\<lambda>p. fst p \<noteq> m) st \<noteq> []" if "m \<in> fst ` set st"
    using that by (induction st) auto
  ultimately show ?thesis
    by (cases "m \<in> fst ` set st") (auto simp: close_refs_def close_edges_def Let_def)
qed

lemma visit_refs_edges:
  assumes "\<And>x. x \<notin> set (adj x)" "n \<notin> set ms"
  shows "visit_refs adj k n ms c (map fst st @ [n]) =
    as_refs (visit_edges fst snd (\<lambda>n. map (Pair n) (adj n)) k n (map (Pair n) ms) c st) (map fst st)"
  using assms
proof (induction adj k n ms c "map fst st @ [n]" arbitrary: st rule: visit_refs.induct)
  case (3 adj k n m ms c)
  let ?row = "\<lambda>n. map (Pair n) (adj n)"
  show ?case
  proof (cases "c m")
    case White
    let ?r = "visit_edges fst snd ?row k m (map (Pair m) (adj m)) (c(m := Grey)) (st @ [(n, m)])"
    have sub: "visit_refs adj k m (adj m) (c(m := Grey)) ((map fst st @ [n]) @ [m]) = as_refs ?r (map fst st @ [n])"
      using "3.hyps"(1) [OF White, of "st @ [(n, m)]"] "3.prems"(1) by simp
    show ?thesis
    proof (cases ?r)
      case (Clear c1 st1)
      then have st1: "st1 = st @ [(n, m)]" by (rule visit_edges_stack)
      have "visit_refs adj k m (adj m) (c(m := Grey)) ((map fst st @ [n]) @ [m]) = Clear c1 (map fst st @ [n])"
        using sub Clear by simp
      from "3.hyps"(2) [OF White this] "3.prems" sub White Clear st1 show ?thesis by simp
    qed (use sub White in simp_all)
  next
    case Grey
    moreover have "m \<noteq> n" using "3.prems"(2) by auto
    ultimately show ?thesis using close_refs_edges [of m n st] by simp
  next
    case Black
    with "3.prems" "3.hyps"(3) [OF Black refl] show ?thesis by simp
  qed
qed (simp_all add: butlast_append)

lemma check_refs_edges:
  assumes "\<And>x. x \<notin> set (adj x)"
  shows "check_refs adj k ns c [] = as_refs (search_edges fst snd (\<lambda>n. map (Pair n) (adj n)) k ns c []) []"
proof (induction ns arbitrary: c)
  case (Cons n ns)
  have "visit_refs adj k n (adj n) (c(n := Grey)) [n] =
      as_refs (visit_edges fst snd (\<lambda>n. map (Pair n) (adj n)) k n (map (Pair n) (adj n)) (c(n := Grey)) []) []"
    using visit_refs_edges [of adj n "adj n" k _ "[]"] assms by simp
  moreover have "st' = []"
    if "visit_edges fst snd (\<lambda>n. map (Pair n) (adj n)) k n (map (Pair n) (adj n)) (c(n := Grey)) [] = Clear c' st'" for c' st'
    using visit_edges_stack [OF that] .
  ultimately show ?case using Cons.IH by (auto split: search_result.splits)
qed simp

lemma edge_cycle_refs:
  assumes "edge_cycle fst snd L cs" "L \<subseteq> E"
  shows "ref_cycle E (map fst cs @ [snd (List.last cs)])"
proof -
  have walk: "successively (\<lambda>a b. (a, b) \<in> E) (map fst cs @ [snd (List.last cs)])"
    if "cs \<noteq> []" "set cs \<subseteq> E" "successively (\<lambda>a b. snd a = fst b) cs" for cs
    using that
  proof (induction cs)
    case (Cons e es)
    then show ?case by (cases es) (auto simp: successively_Cons)
  qed simp
  have "cs \<noteq> []" using assms by (simp add: edge_cycle_def)
  then show ?thesis using assms walk [of cs]
    by (cases cs) (auto simp: edge_cycle_def ref_cycle_def)
qed

lemma wait_labels: "waits.labels steps = wait_edges steps"
  by (auto simp: waits.labels_def wait_row_def inScopeUpstreams_set)

lemma checkAcyclic_cases:
  obtains (ok) "checkAcyclic steps = Inr ()" "acyclic (wait_edges steps)"
    | (bad) cs where "checkAcyclic steps = Inl cs" "ref_cycle (wait_edges steps) cs" "\<not> acyclic (wait_edges steps)"
proof -
  have noself: "x \<notin> set (inScopeUpstreams steps x)" for x
    by (auto simp: inScopeUpstreams_set wait_edges_def)
  have row: "wait_row steps = (\<lambda>n. map (Pair n) (inScopeUpstreams steps n))" by (auto simp: wait_row_def)
  have pairs: "edge_pairs fst snd (wait_edges steps) = wait_edges steps" by (simp add: edge_pairs_def)
  have starts: "n \<in> set (map stepRef steps)" if "wait_row steps n \<noteq> []" for n
  proof -
    from that obtain u where "u \<in> set (inScopeUpstreams steps n)" by (cases "inScopeUpstreams steps n") (auto simp: wait_row_def)
    then show ?thesis by (auto simp: inScopeUpstreams_set wait_edges_def)
  qed
  have eq: "check_refs (inScopeUpstreams steps) k (map stepRef steps) (\<lambda>_. White) [] =
      as_refs (search_edges fst snd (wait_row steps) k (map stepRef steps) (\<lambda>_. White) []) []" for k
    unfolding row by (rule check_refs_edges [OF noself])
  show thesis
  proof (rule waits.search_finds_cycles [of steps "Suc (length steps)"])
    fix c assume "search_edges fst snd (wait_row steps) (Suc (length steps)) (map stepRef steps) (\<lambda>_. White) [] = Clear c []"
      "acyclic (edge_pairs fst snd (waits.labels steps))"
    then show thesis using ok eq pairs wait_labels by (simp add: checkAcyclic_def)
  next
    fix cs assume s: "search_edges fst snd (wait_row steps) (Suc (length steps)) (map stepRef steps) (\<lambda>_. White) [] = Cycle cs"
      and c: "edge_cycle fst snd (waits.labels steps) cs"
    have "ref_cycle (wait_edges steps) (map fst cs @ [snd (List.last cs)])"
      using edge_cycle_refs [OF c] wait_labels by simp
    moreover have "\<not> acyclic (wait_edges steps)"
      using edge_cycle_not_acyclic [OF c] pairs wait_labels by simp
    ultimately show thesis using bad s eq by (simp add: checkAcyclic_def)
  qed (use starts in simp_all)
qed

section \<open>The runs\<close>

lemma newUpstreamRuns_eq: "newUpstreamRuns steps r = (if r \<in> in_scope steps then Some Open else None)"
proof -
  have "foldl (\<lambda>rs s. if rs (stepRef s) = None then rs(stepRef s \<mapsto> Open) else rs) m ss r =
      (if m r = None \<and> r \<in> stepRef ` set ss then Some Open else m r)" for m ss
    by (induction ss arbitrary: m) auto
  then show ?thesis by (simp add: newUpstreamRuns_def in_scope_def)
qed

lemma upstream_complete_simps:
  "upstream_complete rs ref err r =
     (if r = ref then (case rs r of Some Open \<Rightarrow> Some (Closed err) | x \<Rightarrow> x) else rs r)"
  by (auto simp: upstream_complete_def complete_run_def split: option.splits target_run.splits)

lemma upstream_complete_closed: "rs r = Some (Closed e) \<Longrightarrow> upstream_complete rs ref err r = Some (Closed e)"
  by (auto simp: upstream_complete_simps)

lemma upstream_complete_scope: "upstream_complete rs ref err r = None \<longleftrightarrow> rs r = None"
  by (auto simp: upstream_complete_simps split: option.splits target_run.splits)

lemma wait_all_Proceed:
  "wait_all cn rs self refs = Proceed \<longleftrightarrow>
    (\<forall>u \<in> set refs. u \<noteq> self \<longrightarrow> rs u \<noteq> None \<longrightarrow> rs u = Some (Closed None))"
  by (induction refs) (auto simp: wait_for_def split: option.splits target_run.splits wait_outcome.splits if_splits)

lemma wait_all_WaitsOn:
  "wait_all cn rs self refs = WaitsOn u \<Longrightarrow> u \<in> set refs \<and> u \<noteq> self \<and> rs u = Some Open \<and> \<not> cn"
  by (induction refs) (auto simp: wait_for_def split: option.splits target_run.splits wait_outcome.splits if_splits)

lemma wait_all_WaitFailed:
  "wait_all cn rs self refs = WaitFailed e \<Longrightarrow>
    cn \<or> (\<exists>u e'. e = DependencyFailed u e' \<and> u \<in> set refs \<and> u \<noteq> self \<and> rs u = Some (Closed (Some e')))"
  by (induction refs) (auto simp: wait_for_def split: option.splits target_run.splits wait_outcome.splits if_splits)

section \<open>The batch's invariant\<close>

text \<open>
  What every reachable batch keeps: the runs are those of the steps in scope, an open run has
  no finished goroutine, a step past its upstreams found each of them succeeded, one that was
  turned away has a failed upstream or a cancelled batch to show for it, and each failure that
  counts is one recorded error.
\<close>

definition upstreams_passed :: "batch_step list \<Rightarrow> upstream_runs \<Rightarrow> nat \<Rightarrow> bool" where
  "upstreams_passed steps rs i \<longleftrightarrow>
     (\<forall>u. (stepRef (steps ! i), u) \<in> wait_edges steps \<longrightarrow> u \<in> set (upstream_refs (steps ! i)) \<longrightarrow>
        rs u = Some (Closed None))"

definition upstream_broke :: "batch_step list \<Rightarrow> upstream_runs \<Rightarrow> nat \<Rightarrow> bool" where
  "upstream_broke steps rs i \<longleftrightarrow>
     (\<exists>u e. (stepRef (steps ! i), u) \<in> wait_edges steps \<and> u \<in> set (upstream_refs (steps ! i)) \<and>
        rs u = Some (Closed (Some e)))"

definition wf_phases :: "batch_step list \<Rightarrow> nat \<Rightarrow> batch \<Rightarrow> bool" where
  "wf_phases steps budget b \<longleftrightarrow>
     length (phases b) = length steps \<and> length (stepErrs b) = length steps \<and>
     (\<forall>r. runs b r \<noteq> None \<longleftrightarrow> r \<in> in_scope steps) \<and>
     (\<forall>i < length steps. runs b (stepRef (steps ! i)) = Some Open \<longrightarrow> phases b ! i \<in> {Waiting, Admitted}) \<and>
     (\<forall>i < length steps. phases b ! i \<in> {Admitted, Finished True} \<longrightarrow> upstreams_passed steps (runs b) i) \<and>
     (\<forall>i < length steps. phases b ! i = Finished False \<longrightarrow> upstream_broke steps (runs b) i \<or> cancelled b) \<and>
     (\<forall>i < length steps. stepErrs b ! i \<noteq> None \<longrightarrow> phases b ! i = Finished True) \<and>
     failedCount b = length (joined_errors b) \<and>
     (cancelled b \<longrightarrow> interrupted b \<or> 0 < budget \<and> budget \<le> failedCount b)"

text \<open>A run that passed was some goroutine's.\<close>

definition passed_runs_ran :: "batch_step list \<Rightarrow> batch \<Rightarrow> bool" where
  "passed_runs_ran steps b \<longleftrightarrow>
     (\<forall>r. runs b r = Some (Closed None) \<longrightarrow>
        (\<exists>i < length steps. stepRef (steps ! i) = r \<and> phases b ! i = Finished True))"

definition wf_batch :: "batch_step list \<Rightarrow> nat \<Rightarrow> batch \<Rightarrow> bool" where
  "wf_batch steps budget b \<longleftrightarrow> wf_phases steps budget b \<and> passed_runs_ran steps b"

lemma passed_run_ran:
  assumes "passed_runs_ran steps b" "runs b r = Some (Closed None)"
  obtains i where "i < length steps" "stepRef (steps ! i) = r" "phases b ! i = Finished True"
  using assms unfolding passed_runs_ran_def by blast

lemma nth_in_wait_edges:
  "i < length steps \<Longrightarrow> (stepRef (steps ! i), u) \<in> wait_edges steps \<longleftrightarrow>
    (\<exists>s \<in> set steps. stepRef s = stepRef (steps ! i) \<and> u \<in> set (upstream_refs s)) \<and>
    u \<noteq> stepRef (steps ! i) \<and> u \<in> in_scope steps"
  unfolding wait_edges_def mem_Collect_eq prod.inject by metis

lemma joined_update_None:
  "i < length xs \<Longrightarrow> xs ! i = None \<Longrightarrow>
    length (List.map_filter id (xs[i := Some e])) = Suc (length (List.map_filter id xs))"
proof (induction xs arbitrary: i)
  case (Cons x xs)
  then show ?case by (cases i) (auto simp: map_filter_simps split: option.splits)
qed simp

lemma wf_start_batch [invariant_intros]: "wf_batch steps budget (start_batch steps)"
proof -
  have "List.map_filter id (replicate n (None :: step_error option)) = []" for n
    by (induction n) (simp_all add: map_filter_simps)
  then show ?thesis
    by (auto simp: wf_batch_def wf_phases_def passed_runs_ran_def start_batch_def newUpstreamRuns_eq joined_errors_def)
qed

lemma wf_phases_end_step:
  assumes wf: "wf_phases steps budget b" and i: "i < length steps" "phases b ! i \<in> {Waiting, Admitted}"
    and passed: "admitted \<Longrightarrow> upstreams_passed steps (runs b) i"
    and broke: "\<not> admitted \<Longrightarrow> upstream_broke steps (runs b) i \<or> cancelled b"
    and tally: "tallied \<Longrightarrow> admitted"
  shows "wf_phases steps budget (end_step steps i admitted tallied err b)"
proof -
  let ?rs = "upstream_complete (runs b) (stepRef (steps ! i)) err"
  have keep_passed: "upstreams_passed steps (runs b) j \<Longrightarrow> upstreams_passed steps ?rs j" for j
    by (auto simp: upstreams_passed_def upstream_complete_closed)
  have keep_broke: "upstream_broke steps (runs b) j \<Longrightarrow> upstream_broke steps ?rs j" for j
    unfolding upstream_broke_def using upstream_complete_closed by metis
  have open_run: "phases b ! j \<in> {Waiting, Admitted} \<and> j \<noteq> i"
    if "j < length steps" "?rs (stepRef (steps ! j)) = Some Open" for j
    using wf that by (auto simp: wf_phases_def upstream_complete_simps split: if_splits option.splits target_run.splits)
  have none: "stepErrs b ! i = None" using wf i by (auto simp: wf_phases_def)
  have scope: "?rs r \<noteq> None \<longleftrightarrow> r \<in> in_scope steps" for r
    using wf by (simp add: wf_phases_def upstream_complete_scope)
  have joined: "length (List.map_filter id ((stepErrs b)[i := Some e])) = Suc (length (List.map_filter id (stepErrs b)))" for e
    using joined_update_None [of i "stepErrs b" e] none i wf by (simp add: wf_phases_def)
  have ph: "(phases b)[i := Finished admitted] ! j = (if j = i then Finished admitted else phases b ! j)"
    if "j < length steps" for j
    using that wf by (simp add: wf_phases_def nth_list_update)
  show ?thesis
  proof (cases "err = None \<or> \<not> tallied \<or> cancelled b")
    case True
    then show ?thesis
      using wf i passed broke keep_passed keep_broke open_run scope none
      unfolding wf_phases_def by (auto simp: end_step_def ph joined_errors_def)
  next
    case False
    then obtain e where "err = Some e" "tallied" "\<not> cancelled b" by auto
    then show ?thesis
      using wf i passed broke keep_passed keep_broke open_run scope none joined [of e] tally
      unfolding wf_phases_def by (auto simp: end_step_def ph joined_errors_def nth_list_update)
  qed
qed

lemma end_step_fields:
  "phases (end_step steps i admitted tallied err b) = (phases b)[i := Finished admitted]"
  "runs (end_step steps i admitted tallied err b) = upstream_complete (runs b) (stepRef (steps ! i)) err"
  by (simp_all add: end_step_def Let_def)

lemma passed_runs_ran_update:
  assumes "passed_runs_ran steps b" "runs b' = runs b" "phases b' = (phases b)[i := p]"
    "phases b ! i \<noteq> Finished True"
  shows "passed_runs_ran steps b'"
  unfolding passed_runs_ran_def
proof (intro allI impI)
  fix r assume "runs b' r = Some (Closed None)"
  then have "runs b r = Some (Closed None)" using assms(2) by simp
  with assms(1) obtain j where j: "j < length steps" "stepRef (steps ! j) = r" "phases b ! j = Finished True"
    by (rule passed_run_ran)
  then have "phases b' ! j = Finished True" using assms(3,4) by (cases "i = j") auto
  with j show "\<exists>j < length steps. stepRef (steps ! j) = r \<and> phases b' ! j = Finished True" by blast
qed

lemma passed_runs_ran_end_step:
  assumes ran: "passed_runs_ran steps b" and i: "i < length steps" "i < length (phases b)"
    and ph: "phases b ! i \<noteq> Finished True" and verdict: "err = None \<Longrightarrow> admitted"
  shows "passed_runs_ran steps (end_step steps i admitted tallied err b)"
  unfolding passed_runs_ran_def end_step_fields
proof (intro allI impI)
  fix r assume r: "upstream_complete (runs b) (stepRef (steps ! i)) err r = Some (Closed None)"
  show "\<exists>j < length steps. stepRef (steps ! j) = r \<and> (phases b)[i := Finished admitted] ! j = Finished True"
  proof (cases "runs b r = Some (Closed None)")
    case True
    with ran obtain j where j: "j < length steps" "stepRef (steps ! j) = r" "phases b ! j = Finished True"
      by (rule passed_run_ran)
    with ph have "(phases b)[i := Finished admitted] ! j = Finished True" by (cases "i = j") auto
    with j show ?thesis by blast
  next
    case False
    with r have "r = stepRef (steps ! i)" "err = None"
      by (auto simp: upstream_complete_simps split: if_splits option.splits target_run.splits)
    with verdict i show ?thesis by auto
  qed
qed

lemma wf_end_step:
  assumes "wf_batch steps budget b" "i < length steps" "phases b ! i \<in> {Waiting, Admitted}"
    "admitted \<Longrightarrow> upstreams_passed steps (runs b) i"
    "\<not> admitted \<Longrightarrow> upstream_broke steps (runs b) i \<or> cancelled b"
    "tallied \<Longrightarrow> admitted" "err = None \<Longrightarrow> admitted"
  shows "wf_batch steps budget (end_step steps i admitted tallied err b)"
proof -
  have "i < length (phases b)" using assms(1,2) by (simp add: wf_batch_def wf_phases_def)
  with assms show ?thesis
    unfolding wf_batch_def by (auto intro: wf_phases_end_step passed_runs_ran_end_step)
qed

lemma wf_move [invariant_intros]:
  assumes wf: "wf_batch steps budget b" and m: "move steps i b b'"
  shows "wf_batch steps budget b'"
  using m
proof cases
  case admit
  have ph: "wf_phases steps budget b" and ran: "passed_runs_ran steps b" using wf by (simp_all add: wf_batch_def)
  have scope: "runs b r \<noteq> None \<longleftrightarrow> r \<in> in_scope steps" for r using ph by (simp add: wf_phases_def)
  have "upstreams_passed steps (runs b) i"
    using admit(4) scope unfolding waitForUpstreams_def wait_all_Proceed upstreams_passed_def
    by (auto simp: nth_in_wait_edges admit(2))
  with ph admit have "wf_phases steps budget b'"
    unfolding wf_phases_def by (auto simp: nth_list_update joined_errors_def)
  moreover have "passed_runs_ran steps b'"
    using ran admit by (intro passed_runs_ran_update [OF ran]) auto
  ultimately show ?thesis by (simp add: wf_batch_def)
next
  case (refuse e)
  have scope: "runs b r \<noteq> None \<longleftrightarrow> r \<in> in_scope steps" for r using wf by (simp add: wf_batch_def wf_phases_def)
  have "cancelled b \<or> (\<exists>u e'. u \<in> set (upstream_refs (steps ! i)) \<and> u \<noteq> stepRef (steps ! i) \<and> runs b u = Some (Closed (Some e')))"
    using wait_all_WaitFailed [OF refuse(4) [unfolded waitForUpstreams_def]] by blast
  moreover have "upstream_broke steps (runs b) i"
    if "u \<in> set (upstream_refs (steps ! i))" "u \<noteq> stepRef (steps ! i)" "runs b u = Some (Closed (Some e'))" for u e'
  proof -
    have "u \<in> in_scope steps" using scope [of u] that(3) by simp
    with that refuse(2) show ?thesis
      unfolding upstream_broke_def nth_in_wait_edges [OF refuse(2)] by (metis nth_mem)
  qed
  ultimately show ?thesis unfolding refuse(1) using wf refuse(2,3) by (intro wf_end_step) auto
next
  case (abandon ref)
  then show ?thesis using wf by (auto intro: wf_end_step)
next
  case (finish err tallied)
  then have "upstreams_passed steps (runs b) i" using wf by (auto simp: wf_batch_def wf_phases_def)
  with finish wf show ?thesis by (auto intro: wf_end_step)
qed

lemma wf_batch_move [invariant_intros]:
  assumes "wf_batch steps budget b" "batch_move steps budget b b'"
  shows "wf_batch steps budget b'"
  using assms(2)
proof cases
  case (work i)
  with assms(1) show ?thesis by (rule wf_move)
qed (use assms(1) in \<open>auto simp: wf_batch_def wf_phases_def passed_runs_ran_def joined_errors_def\<close>)

lemma wf_reachable_batch: "reachable_batch steps budget b \<Longrightarrow> wf_batch steps budget b"
  by (induction rule: reachable_batch.induct) (auto intro: invariant_intros)

lemma wf_batch_phases: "wf_batch steps budget b \<Longrightarrow> wf_phases steps budget b"
  by (simp add: wf_batch_def)

section \<open>No deadlock\<close>

definition phase_work :: "phase \<Rightarrow> nat" where
  "phase_work p = (case p of Waiting \<Rightarrow> 2 | Admitted \<Rightarrow> 1 | Finished _ \<Rightarrow> 0)"

definition work_left :: "batch \<Rightarrow> nat" where
  "work_left b = sum_list (map phase_work (phases b))"

lemma work_left_update:
  "i < length ps \<Longrightarrow> phase_work p < phase_work (ps ! i) \<Longrightarrow>
    sum_list (map phase_work (ps[i := p])) < sum_list (map phase_work ps)"
  by (induction ps arbitrary: i) (auto split: nat.splits)

lemma move_works:
  assumes "length (phases b) = length steps" "move steps i b b'"
  shows "work_left b' < work_left b"
  using assms(2,1)
  by cases (auto simp: work_left_def end_step_def Let_def phase_work_def intro!: work_left_update)

lemma move_enabled:
  assumes wb: "wf_batch steps budget b" and ac: "acyclic (wait_edges steps)"
    and i: "i < length steps" "phases b ! i \<in> {Waiting, Admitted}"
  shows "\<exists>j b'. j < length steps \<and> move steps j b b'"
proof -
  have wf: "wf_phases steps budget b" by (rule wf_batch_phases [OF wb])
  show ?thesis
  proof (cases "\<exists>j < length steps. phases b ! j = Admitted")
  case True
  then show ?thesis using move.finish [of _ steps b None True] by blast
next
  case False
  then have wait: "phases b ! j = Waiting" if "j < length steps" "phases b ! j \<in> {Waiting, Admitted}" for j
    using that by blast
  have go: "\<exists>b'. move steps j b b'"
    if "j < length steps" "phases b ! j = Waiting"
      "\<And>u. u \<in> set (upstream_refs (steps ! j)) \<Longrightarrow> u \<noteq> stepRef (steps ! j) \<Longrightarrow> runs b u \<noteq> Some Open" for j
  proof (cases "waitForUpstreams (cancelled b) (runs b) (steps ! j)")
    case Proceed
    then show ?thesis using move.admit that by blast
  next
    case (WaitsOn u)
    then show ?thesis using that(3) wait_all_WaitsOn unfolding waitForUpstreams_def by blast
  next
    case (WaitFailed e)
    then show ?thesis using move.refuse that by blast
  qed
  let ?open = "{r \<in> in_scope steps. runs b r = Some Open}"
  show ?thesis
  proof (cases "?open = {}")
    case True
    have scope: "\<forall>r. runs b r \<noteq> None \<longleftrightarrow> r \<in> in_scope steps" using wf unfolding wf_phases_def by blast
    have "runs b u \<noteq> Some Open" for u
    proof
      assume o: "runs b u = Some Open"
      with scope [rule_format, of u] have "u \<in> ?open" by simp
      with True show False by blast
    qed
    with go [OF i(1) wait [OF i]] i(1) show ?thesis by blast
  next
    case False
    have fin: "finite ?open" by (auto simp: in_scope_def)
    have "\<exists>r \<in> ?open. \<forall>u. (r, u) \<in> wait_edges steps \<longrightarrow> u \<notin> ?open"
    proof (rule ccontr)
      assume "\<not> ?thesis"
      then have "\<And>r. r \<in> ?open \<Longrightarrow> \<exists>u \<in> ?open. (u, r) \<in> (wait_edges steps)\<inverse>" by blast
      with pred_closed_cyclic [OF fin False] have "\<not> acyclic ((wait_edges steps)\<inverse>)" by blast
      with ac show False by (simp add: acyclic_converse)
    qed
    then obtain r where r0: "r \<in> ?open" "\<forall>u. (r, u) \<in> wait_edges steps \<longrightarrow> u \<notin> ?open" by blast
    have r: "r \<in> in_scope steps" "runs b r = Some Open" using r0(1) by auto
    have closed: "runs b u \<noteq> Some Open" if "(r, u) \<in> wait_edges steps" for u
    proof -
      have "u \<in> in_scope steps" using that unfolding wait_edges_def by blast
      then show ?thesis using r0(2) that by blast
    qed
    from r(1) obtain j where j: "j < length steps" "stepRef (steps ! j) = r"
      by (auto simp: in_scope_def in_set_conv_nth)
    have "phases b ! j = Waiting" using wf r(2) j wait [OF j(1)] by (auto simp: wf_phases_def)
    moreover have "runs b u \<noteq> Some Open"
      if "u \<in> set (upstream_refs (steps ! j))" "u \<noteq> stepRef (steps ! j)" for u
    proof
      assume o: "runs b u = Some Open"
      then have "u \<in> in_scope steps" using wf by (auto simp: wf_phases_def)
      then have "(r, u) \<in> wait_edges steps" using that j by (auto simp: wait_edges_def)
      with closed o show False by blast
    qed
    ultimately show ?thesis using go j(1) by blast
  qed
qed
qed

end
