(* ===== verification/Same_Step_Correct.thy ===== *)
theory Same_Step_Correct
  imports Same_Step
begin

text \<open>
  The fixpoint of \<open>newNodeOrder\<close> is reached, and what it orders is ordered in every
  execution of a chain: a node is dispatched by some composer once the calls before the one
  that names it are over, works once its own calls are over, and then ends.
\<close>

section \<open>Executions of a chain\<close>

record chain_run =
  began :: "target_ref set"
  working :: "target_ref set"
  ended :: "target_ref set"

definition empty_run :: chain_run where
  "empty_run = \<lparr>began = {}, working = {}, ended = {}\<rparr>"

inductive chain_step :: "target_node list \<Rightarrow> chain_run \<Rightarrow> chain_run \<Rightarrow> bool" for nodes where
  root: "n \<in> set nodes \<Longrightarrow> composers_of nodes (node_key n) = [] \<Longrightarrow>
    chain_step nodes run (run\<lparr>began := insert (node_key n) (began run)\<rparr>)"
| dispatch: "c \<in> set nodes \<Longrightarrow> node_key c \<in> began run \<Longrightarrow> needs c = pre @ call # post \<Longrightarrow>
    m \<in> set call \<Longrightarrow> set (concat pre) \<subseteq> ended run \<Longrightarrow>
    chain_step nodes run (run\<lparr>began := insert m (began run)\<rparr>)"
| work: "n \<in> set nodes \<Longrightarrow> node_key n \<in> began run \<Longrightarrow> set (concat (needs n)) \<subseteq> ended run \<Longrightarrow>
    chain_step nodes run (run\<lparr>working := insert (node_key n) (working run)\<rparr>)"
| finish: "k \<in> working run \<Longrightarrow> chain_step nodes run (run\<lparr>ended := insert k (ended run)\<rparr>)"

inductive chain_reaches :: "target_node list \<Rightarrow> chain_run \<Rightarrow> bool" for nodes where
  start: "chain_reaches nodes empty_run"
| step: "chain_reaches nodes run \<Longrightarrow> chain_step nodes run run' \<Longrightarrow> chain_reaches nodes run'"

section \<open>Sets that only hold what a rule proves\<close>

lemma foldl_union: "foldl (\<lambda>acc m. acc \<union> f m) A ms = A \<union> (\<Union>m \<in> set ms. f m)"
  by (induction ms arbitrary: A) auto

lemma via_eq:
  "via nodes o1 k c = (\<Union>m \<in> set (calls_before (key_needs nodes c) k). doneBy o1 m) \<union> precededBy o1 c"
  by (simp add: via_def foldl_union)

lemma preceding_Nil: "composers_of nodes k = [] \<Longrightarrow> preceding nodes o1 k = {}"
  by (simp add: preceding_def)

lemma preceding_eq:
  assumes "composers_of nodes k \<noteq> []"
  shows "preceding nodes o1 k = (\<Inter>c \<in> set (composers_of nodes k). via nodes o1 k c)"
proof -
  have fold: "foldl (\<lambda>p c. p \<inter> f c) A cs = A \<inter> (\<Inter>c \<in> set cs. f c)" for f :: "target_ref \<Rightarrow> target_ref set" and A cs
    by (induction cs arbitrary: A) auto
  obtain c cs where cs: "composers_of nodes k = c # cs" using assms by (cases "composers_of nodes k") auto
  show ?thesis by (simp add: preceding_def cs fold)
qed

definition justified :: "target_node list \<Rightarrow> node_order \<Rightarrow> bool" where
  "justified nodes o1 \<longleftrightarrow>
     (\<forall>k. doneBy o1 k \<subseteq> node_key ` set nodes \<and> precededBy o1 k \<subseteq> node_key ` set nodes) \<and>
     (\<forall>k. precededBy o1 k \<subseteq> preceding nodes o1 k) \<and>
     (\<forall>k. doneBy o1 k \<subseteq> insert k ((\<Union>m \<in> set (calls_members (key_needs nodes k)). doneBy o1 m) \<union> precededBy o1 k)) \<and>
     (\<forall>k. k \<notin> node_key ` set nodes \<longrightarrow> doneBy o1 k = {})"

definition grows :: "node_order \<Rightarrow> node_order \<Rightarrow> bool" where
  "grows o1 o2 \<longleftrightarrow> (\<forall>k. doneBy o1 k \<subseteq> doneBy o2 k \<and> precededBy o1 k \<subseteq> precededBy o2 k)"

lemma grows_refl [simp]: "grows o1 o1"
  by (simp add: grows_def)

lemma grows_trans: "grows o1 o2 \<Longrightarrow> grows o2 o3 \<Longrightarrow> grows o1 o3"
  unfolding grows_def by blast

lemma via_grows: "grows o1 o2 \<Longrightarrow> via nodes o1 k c \<subseteq> via nodes o2 k c"
  unfolding via_eq grows_def by blast

lemma preceding_lower: "c \<in> set (composers_of nodes k) \<Longrightarrow> preceding nodes o1 k \<subseteq> via nodes o1 k c"
  using preceding_eq [of nodes k o1] INT_lower [of c _ "via nodes o1 k"] by (metis list.set_cases list.distinct(1))

lemma preceding_grows:
  assumes "grows o1 o2"
  shows "preceding nodes o1 k \<subseteq> preceding nodes o2 k"
proof (cases "composers_of nodes k = []")
  case False
  show ?thesis
    unfolding preceding_eq [OF False] by (intro INT_anti_mono order_refl via_grows assms)
qed (simp add: preceding_Nil)

lemma by_key_nth:
  assumes "distinct (map node_key nodes)" "n \<in> set nodes"
  shows "by_key nodes (node_key n) = Some n"
proof -
  have "foldl (\<lambda>m n. m(node_key n \<mapsto> n)) m nodes k =
      (if k \<in> node_key ` set nodes then Some (THE n. n \<in> set nodes \<and> node_key n = k) else m k)"
    if "distinct (map node_key nodes)" for m nodes k
    using that
  proof (induction nodes arbitrary: m rule: rev_induct)
    case (snoc x xs)
    show ?case
    proof (cases "k = node_key x")
      case True
      have "(THE n. n \<in> set (xs @ [x]) \<and> node_key n = k) = x"
      proof (rule the_equality)
        fix n assume "n \<in> set (xs @ [x]) \<and> node_key n = k"
        moreover have "node_key x \<notin> node_key ` set xs" using snoc.prems by simp
        ultimately show "n = x" using True by (auto simp: image_iff)
      qed (use True in simp)
      then show ?thesis using True by simp
    next
      case False
      then have "(n \<in> set (xs @ [x]) \<and> node_key n = k) = (n \<in> set xs \<and> node_key n = k)" for n by auto
      with snoc False show ?thesis by auto
    qed
  qed simp
  moreover have "(THE m. m \<in> set nodes \<and> node_key m = node_key n) = n"
    using assms by (intro the_equality) (auto simp: distinct_map inj_on_def)
  ultimately show ?thesis using assms by (simp add: by_key_def)
qed

lemma justified_start: "justified nodes (start_order nodes)"
  by (auto simp: justified_def start_order_def)

lemma justified_keys: "justified nodes o1 \<Longrightarrow> via nodes o1 k c \<subseteq> node_key ` set nodes"
  unfolding via_eq justified_def by blast

lemma preceding_keys:
  assumes "justified nodes o1"
  shows "preceding nodes o1 k \<subseteq> node_key ` set nodes"
proof (cases "composers_of nodes k")
  case (Cons c cs)
  then have "preceding nodes o1 k \<subseteq> via nodes o1 k c" by (intro preceding_lower) simp
  also have "\<dots> \<subseteq> node_key ` set nodes" by (rule justified_keys [OF assms])
  finally show ?thesis .
qed (simp add: preceding_Nil)

text \<open>One node's turn: its set of what is done, then the set of what precedes it.\<close>

lemma justified_done:
  assumes j: "justified nodes o0" and d: "distinct (map node_key nodes)" and n: "n \<in> set nodes"
  defines "D \<equiv> doneBy o0 (node_key n) \<union> (\<Union>m \<in> set (calls_members (needs n)). doneBy o0 m) \<union> precededBy o0 (node_key n)"
  shows "justified nodes (o0\<lparr>doneBy := (doneBy o0)(node_key n := D)\<rparr>)"
    "grows o0 (o0\<lparr>doneBy := (doneBy o0)(node_key n := D)\<rparr>)"
proof -
  let ?o = "o0\<lparr>doneBy := (doneBy o0)(node_key n := D)\<rparr>"
  show g: "grows o0 ?o" by (auto simp: grows_def D_def)
  have needs: "key_needs nodes (node_key n) = needs n" using by_key_nth [OF d n] by (simp add: key_needs_def)
  have keys: "doneBy ?o k \<subseteq> node_key ` set nodes" for k
    using j n by (auto simp: justified_def D_def)
  have done_mono: "doneBy o0 m \<subseteq> doneBy ?o m" for m using g by (simp add: grows_def)
  have dn: "doneBy ?o k \<subseteq> insert k ((\<Union>m \<in> set (calls_members (key_needs nodes k)). doneBy ?o m) \<union> precededBy ?o k)" for k
  proof -
    have old: "doneBy o0 k \<subseteq> insert k ((\<Union>m \<in> set (calls_members (key_needs nodes k)). doneBy o0 m) \<union> precededBy o0 k)"
      using j by (simp add: justified_def)
    have "doneBy ?o k \<subseteq> insert k ((\<Union>m \<in> set (calls_members (key_needs nodes k)). doneBy o0 m) \<union> precededBy o0 k)"
      using old needs by (cases "k = node_key n") (auto simp: D_def)
    also have "\<dots> \<subseteq> insert k ((\<Union>m \<in> set (calls_members (key_needs nodes k)). doneBy ?o m) \<union> precededBy ?o k)"
      using done_mono by (intro insert_mono Un_mono UN_mono) auto
    finally show ?thesis .
  qed
  have pr: "precededBy ?o k \<subseteq> preceding nodes ?o k" for k
  proof -
    have "precededBy o0 k \<subseteq> preceding nodes o0 k" using j by (simp add: justified_def)
    also have "\<dots> \<subseteq> preceding nodes ?o k" by (rule preceding_grows [OF g])
    finally show ?thesis by simp
  qed
  have none: "k \<notin> node_key ` set nodes \<Longrightarrow> doneBy ?o k = {}" for k
    using j n by (auto simp: justified_def)
  show "justified nodes ?o"
    unfolding justified_def using keys dn pr none j by (simp add: justified_def)
qed

lemma justified_preceding:
  assumes j: "justified nodes o1"
  shows "justified nodes (o1\<lparr>precededBy := (precededBy o1)(k := preceding nodes o1 k)\<rparr>)"
    "grows o1 (o1\<lparr>precededBy := (precededBy o1)(k := preceding nodes o1 k)\<rparr>)"
proof -
  let ?o = "o1\<lparr>precededBy := (precededBy o1)(k := preceding nodes o1 k)\<rparr>"
  have up: "precededBy o1 x \<subseteq> preceding nodes o1 x" for x using j by (simp add: justified_def)
  show g: "grows o1 ?o" using up [of k] by (auto simp: grows_def)
  have keys: "precededBy ?o x \<subseteq> node_key ` set nodes" for x
    using j preceding_keys [OF j] by (auto simp: justified_def)
  have pr: "precededBy ?o x \<subseteq> preceding nodes ?o x" for x
    using up [of x] preceding_grows [OF g, of nodes x] by (cases "x = k") auto
  have pm: "precededBy o1 x \<subseteq> precededBy ?o x" for x using g by (simp add: grows_def)
  have dn: "doneBy ?o x \<subseteq> insert x ((\<Union>m \<in> set (calls_members (key_needs nodes x)). doneBy ?o m) \<union> precededBy ?o x)" for x
  proof -
    have "doneBy o1 x \<subseteq> insert x ((\<Union>m \<in> set (calls_members (key_needs nodes x)). doneBy o1 m) \<union> precededBy o1 x)"
      using j by (simp add: justified_def)
    also have "\<dots> \<subseteq> insert x ((\<Union>m \<in> set (calls_members (key_needs nodes x)). doneBy ?o m) \<union> precededBy ?o x)"
      using pm by (intro insert_mono Un_mono) auto
    finally show ?thesis by simp
  qed
  show "justified nodes ?o"
    unfolding justified_def using keys pr dn j by (simp add: justified_def)
qed

section \<open>The rounds end\<close>

definition missing :: "target_node list \<Rightarrow> node_order \<Rightarrow> nat" where
  "missing nodes o1 =
     (\<Sum>k \<in> node_key ` set nodes. card (node_key ` set nodes - doneBy o1 k) + card (node_key ` set nodes - precededBy o1 k))"

lemma missing_grows: "grows o1 o2 \<Longrightarrow> missing nodes o2 \<le> missing nodes o1"
  unfolding missing_def grows_def by (intro sum_mono add_mono card_mono) auto

lemma missing_less:
  assumes g: "grows o1 o2" and j: "justified nodes o2" and k: "k \<in> node_key ` set nodes"
    and gr: "card (doneBy o1 k) < card (doneBy o2 k) \<or> card (precededBy o1 k) < card (precededBy o2 k)"
  shows "missing nodes o2 < missing nodes o1"
proof -
  let ?K = "node_key ` set nodes"
  have sub: "doneBy o2 k \<subseteq> ?K" "precededBy o2 k \<subseteq> ?K" using j by (auto simp: justified_def)
  have strict: "card (?K - B) < card (?K - A)" if "A \<subseteq> B" "B \<subseteq> ?K" "card A < card B" for A B
  proof (rule psubset_card_mono)
    have "A \<noteq> B" using that(3) by auto
    then show "?K - B \<subset> ?K - A" using that by blast
  qed simp
  show ?thesis
    unfolding missing_def
  proof (rule sum_strict_mono_ex1)
    show "\<forall>x \<in> ?K. card (?K - doneBy o2 x) + card (?K - precededBy o2 x)
        \<le> card (?K - doneBy o1 x) + card (?K - precededBy o1 x)"
      using g unfolding grows_def by (intro ballI add_mono card_mono) auto
    have "card (?K - doneBy o2 k) \<le> card (?K - doneBy o1 k)" "card (?K - precededBy o2 k) \<le> card (?K - precededBy o1 k)"
      using g unfolding grows_def by (auto intro!: card_mono)
    moreover have "card (?K - doneBy o2 k) < card (?K - doneBy o1 k) \<or> card (?K - precededBy o2 k) < card (?K - precededBy o1 k)"
      using gr g sub strict unfolding grows_def by blast
    ultimately show "\<exists>a \<in> ?K. card (?K - doneBy o2 a) + card (?K - precededBy o2 a)
        < card (?K - doneBy o1 a) + card (?K - precededBy o1 a)" using k by (intro bexI [of _ k]) auto
  qed simp
qed

text \<open>A turn keeps the sets justified and lowers what is missing whenever the flag goes up.\<close>

lemma settle_node_ok:
  assumes j: "justified nodes o0" and d: "distinct (map node_key nodes)" and n: "n \<in> set nodes"
    and r: "settle_node nodes (o0, ch) n = (o2, ch2)"
  shows "justified nodes o2 \<and> grows o0 o2 \<and> (ch2 \<longrightarrow> ch \<or> missing nodes o2 < missing nodes o0) \<and> (ch \<longrightarrow> ch2)"
proof -
  let ?k = "node_key n"
  let ?D = "doneBy o0 ?k \<union> (\<Union>m \<in> set (calls_members (needs n)). doneBy o0 m) \<union> precededBy o0 ?k"
  let ?o1 = "o0\<lparr>doneBy := (doneBy o0)(?k := ?D)\<rparr>"
  let ?P = "preceding nodes ?o1 ?k"
  let ?o2 = "?o1\<lparr>precededBy := (precededBy ?o1)(?k := ?P)\<rparr>"
  have k: "?k \<in> node_key ` set nodes" using n by simp
  note j1 = justified_done [OF j d n]
  note j2 = justified_preceding [OF j1(1), of ?k]
  have eq: "settle_node nodes (o0, ch) n =
      (if card ?P > card (precededBy ?o1 ?k) then (?o2, True) else (?o1, ch \<or> card ?D > card (doneBy o0 ?k)))"
    by (simp add: settle_node_def Let_def foldl_union)
  show ?thesis
  proof (cases "card ?P > card (precededBy ?o1 ?k)")
    case True
    then have "missing nodes ?o2 < missing nodes ?o1" by (intro missing_less [OF j2(2,1) k]) simp
    then have "missing nodes ?o2 < missing nodes o0" using missing_grows [OF j1(2), of nodes] by linarith
    with True eq r j2 grows_trans [OF j1(2) j2(2)] show ?thesis by auto
  next
    case False
    have "missing nodes ?o1 < missing nodes o0" if "card ?D > card (doneBy o0 ?k)"
      using that by (intro missing_less [OF j1(2,1) k]) simp
    with False eq r j1 show ?thesis by auto
  qed
qed

lemma settle_nodes_ok:
  assumes "justified nodes o0" "distinct (map node_key nodes)" "set ns \<subseteq> set nodes"
    "foldl (settle_node nodes) (o0, ch) ns = (o2, ch2)"
  shows "justified nodes o2 \<and> grows o0 o2 \<and> (ch2 \<longrightarrow> ch \<or> missing nodes o2 < missing nodes o0)"
  using assms
proof (induction ns arbitrary: o0 ch)
  case (Cons n ns)
  obtain o1 ch1 where s: "settle_node nodes (o0, ch) n = (o1, ch1)" by force
  have n: "n \<in> set nodes" using Cons.prems(3) by simp
  note one = settle_node_ok [OF Cons.prems(1,2) n s]
  have "justified nodes o2 \<and> grows o1 o2 \<and> (ch2 \<longrightarrow> ch1 \<or> missing nodes o2 < missing nodes o1)"
    using Cons.IH [of o1 ch1] one Cons.prems s by simp
  then show ?case using one grows_trans [of o0 o1 o2] missing_grows [of o1 o2 nodes] missing_grows [of o0 o1 nodes]
    by (meson le_less_trans less_le_trans)
qed auto

lemma newNodeOrder_ok:
  assumes "distinct (map node_key nodes)"
  obtains o1 where "newNodeOrder nodes = Some o1" "justified nodes o1"
proof -
  let ?f = "\<lambda>s. settle_round nodes (fst s)"
  let ?m = "\<lambda>s :: node_order \<times> bool. 2 * missing nodes (fst s) + (if snd s then 1 else 0)"
  have round: "justified nodes (fst (?f s)) \<and> ?m (?f s) < ?m s" if "justified nodes (fst s)" "snd s" for s
  proof -
    obtain o2 ch2 where r: "settle_round nodes (fst s) = (o2, ch2)" by force
    then have "justified nodes o2 \<and> grows (fst s) o2 \<and> (ch2 \<longrightarrow> missing nodes o2 < missing nodes (fst s))"
      using settle_nodes_ok [OF that(1) assms subset_refl] by (auto simp: settle_round_def)
    then show ?thesis using r that missing_grows [of "fst s" o2 nodes] by auto
  qed
  have "\<exists>t. while_option snd ?f (start_order nodes, True) = Some t"
    by (rule measure_while_option_Some [where P = "\<lambda>s. justified nodes (fst s)" and f = ?m])
       (use round justified_start in auto)
  then obtain t where t: "while_option snd ?f (start_order nodes, True) = Some t" by blast
  have "justified nodes (fst t)"
    by (rule while_option_rule [where P = "\<lambda>s. justified nodes (fst s)", OF _ t])
       (use round justified_start in auto)
  with t show thesis using that by (simp add: newNodeOrder_def)
qed

section \<open>What the order says holds in every execution\<close>

lemma composers_of_iff:
  "c \<in> set (composers_of nodes k) \<longleftrightarrow> (\<exists>n \<in> set nodes. node_key n = c \<and> k \<in> set (concat (needs n)))"
  unfolding composers_of_def calls_members_eq by force

definition run_ok :: "target_node list \<Rightarrow> node_order \<Rightarrow> chain_run \<Rightarrow> bool" where
  "run_ok nodes o1 run \<longleftrightarrow>
     working run \<subseteq> began run \<and> ended run \<subseteq> working run \<and>
     (\<forall>k \<in> began run. precededBy o1 k \<subseteq> ended run) \<and>
     (\<forall>k \<in> working run. set (concat (key_needs nodes k)) \<subseteq> ended run) \<and>
     (\<forall>k \<in> ended run. doneBy o1 k \<subseteq> ended run)"

lemma run_ok_step:
  assumes j: "justified nodes o1" and d: "distinct (map node_key nodes)"
    and ok: "run_ok nodes o1 run" and st: "chain_step nodes run run'"
  shows "run_ok nodes o1 run'"
  using st
proof cases
  case (root n)
  have "precededBy o1 (node_key n) \<subseteq> {}"
    using j preceding_Nil [OF root(3)] unfolding justified_def by metis
  with ok root show ?thesis by (auto simp: run_ok_def)
next
  case (dispatch c pre call post m)
  have needs: "key_needs nodes (node_key c) = needs c" using by_key_nth [OF d dispatch(2)] by (simp add: key_needs_def)
  have c: "node_key c \<in> set (composers_of nodes m)"
    using dispatch(2,4,5) by (force simp: composers_of_iff)
  have "precededBy o1 m \<subseteq> preceding nodes o1 m" using j by (simp add: justified_def)
  also have "\<dots> \<subseteq> via nodes o1 m (node_key c)" by (rule preceding_lower [OF c])
  also have "\<dots> \<subseteq> ended run"
  proof -
    have "set (calls_before (needs c) m) \<subseteq> ended run"
      using calls_before_prefix [OF dispatch(4,5)] dispatch(6) by blast
    then have "(\<Union>x \<in> set (calls_before (needs c) m). doneBy o1 x) \<subseteq> ended run"
      using ok unfolding run_ok_def by blast
    moreover have "precededBy o1 (node_key c) \<subseteq> ended run" using ok dispatch(3) by (simp add: run_ok_def)
    ultimately show ?thesis by (simp add: via_eq needs)
  qed
  finally show ?thesis using ok dispatch(1) by (auto simp: run_ok_def)
next
  case (work n)
  have "key_needs nodes (node_key n) = needs n" using by_key_nth [OF d work(2)] by (simp add: key_needs_def)
  with work ok show ?thesis by (auto simp: run_ok_def)
next
  case (finish k)
  have k: "set (concat (key_needs nodes k)) \<subseteq> ended run" "precededBy o1 k \<subseteq> ended run"
    using ok finish(2) by (auto simp: run_ok_def)
  have "doneBy o1 k \<subseteq> insert k ((\<Union>m \<in> set (concat (key_needs nodes k)). doneBy o1 m) \<union> precededBy o1 k)"
    using j unfolding justified_def calls_members_eq by blast
  also have "\<dots> \<subseteq> insert k (ended run)"
    using k ok unfolding run_ok_def by blast
  finally have d1: "doneBy o1 k \<subseteq> insert k (ended run)" .
  have run: "began run' = began run" "working run' = working run" "ended run' = insert k (ended run)"
    using finish(1) by simp_all
  show ?thesis
    unfolding run_ok_def run using ok [unfolded run_ok_def] d1 finish(2) by blast
qed

lemma chain_run_ok:
  assumes "justified nodes o1" "distinct (map node_key nodes)" "chain_reaches nodes run"
  shows "run_ok nodes o1 run"
  using assms(3)
proof (induction rule: chain_reaches.induct)
  case start
  then show ?case by (simp add: run_ok_def empty_run_def)
next
  case (step run run')
  from step.IH step.hyps(2) show ?case by (rule run_ok_step [OF assms(1,2)])
qed

lemma runsAfter_ended:
  assumes "justified nodes o1" "distinct (map node_key nodes)" "chain_reaches nodes run"
    "runsAfter nodes o1 later earlier" "later \<in> working run"
  shows "earlier \<in> ended run"
proof -
  have ok: "run_ok nodes o1 run" by (rule chain_run_ok [OF assms(1-3)])
  then have pre: "precededBy o1 later \<subseteq> ended run" "set (calls_members (key_needs nodes later)) \<subseteq> ended run"
    using assms(5) unfolding run_ok_def calls_members_eq by blast+
  then have "(\<Union>m \<in> set (calls_members (key_needs nodes later)). doneBy o1 m) \<subseteq> ended run"
    using ok unfolding run_ok_def by blast
  with pre(1) assms(4) show ?thesis by (auto simp: runsAfter_def list_ex_iff)
qed

section \<open>What the conflicts leave out\<close>

lemma no_conflict_ordered:
  assumes nodes: "distinct (map node_key nodes)" and none: "FindSameStepConflicts dm wit nodes = Some cs"
    and w: "w \<in> set nodes" and r: "r \<in> set nodes" and ne: "node_key w \<noteq> node_key r"
    and decl: "declaredWrites w" "declaredReads r" and sh: "sharedStep w r \<noteq> None"
    and ov: "node_overlap dm w r = Some (wg, rg)" "witnessed wit wg rg (ignoreDirs r)"
    and free: "\<And>c. c \<in> set cs \<Longrightarrow> \<not> (cwriter c = node_key w \<and> creader c = node_key r)"
  obtains o1 where "justified nodes o1"
    "runsAfter nodes o1 (node_key r) (node_key w) \<or> runsAfter nodes o1 (node_key w) (node_key r)"
proof -
  obtain o1 where o1: "newNodeOrder nodes = Some o1" "justified nodes o1" by (rule newNodeOrder_ok [OF nodes])
  obtain i j where ij: "i < length nodes" "nodes ! i = w" "j < length nodes" "nodes ! j = r"
    using w r by (auto simp: in_set_conv_nth)
  then have "i \<noteq> j" using ne by auto
  obtain s where s: "sharedStep w r = Some s" using sh by auto
  have "runsAfter nodes o1 (node_key r) (node_key w) \<or> runsAfter nodes o1 (node_key w) (node_key r)"
  proof (rule ccontr)
    assume no: "\<not> ?thesis"
    let ?c = "\<lparr>cstep = s, cwriter = node_key w, creader = node_key r, cwriteGlob = wg, creadGlob = rg\<rparr>"
    have "pair_conflict dm wit nodes o1 w r = Some ?c"
      using no ne decl s ov by (simp add: pair_conflict_def)
    then have "?c \<in> set (List.map_filter
        (\<lambda>(w, r). if w = r then None else pair_conflict dm wit nodes o1 (nodes ! w) (nodes ! r))
        (List.product [0..<length nodes] [0..<length nodes]))"
      unfolding set_map_filter_iff using ij \<open>i \<noteq> j\<close>
      by (intro CollectI bexI [of _ "(i, j)"]) auto
    then have "?c \<in> set cs" using none o1 by (auto simp: FindSameStepConflicts_def)
    with free [of ?c] show False by simp
  qed
  with that o1(2) show thesis by blast
qed

end
