(* ===== verification/Target_Schedule_Correct.thy ===== *)
theory Target_Schedule_Correct
  imports Target_Order_Correct Batch_Waits_Correct Same_Step_Correct
begin

text \<open>
  From nodes to steps: the walk behind \<open>reachable\<close> is reachability, the kept edges leave the
  steps' graph acyclic, and the batch with the derived \<open>RunAfter\<close> passes its own check and
  runs every ordered reader behind its writer.
\<close>

section \<open>The walk\<close>

lemma see_next_fold:
  "foldl see_next (seen, q) ms = (seen', q') \<Longrightarrow>
    set seen' = set seen \<union> set ms \<and> set q' = set q \<union> (set ms - set seen)"
proof (induction ms arbitrary: seen q)
  case (Cons m ms)
  obtain s1 q1 where s1: "see_next (seen, q) m = (s1, q1)" by force
  with Cons.prems have "foldl see_next (s1, q1) ms = (seen', q')" by simp
  from Cons.IH [OF this] s1 show ?case by (auto simp: see_next_def split: if_splits)
qed simp

definition walk_inv :: "step_edge list \<Rightarrow> target_ref \<Rightarrow> target_ref \<Rightarrow> target_ref list \<Rightarrow> target_ref list \<Rightarrow> bool" where
  "walk_inv E from_step goal seen q \<longleftrightarrow>
     from_step \<in> set seen \<and> set q \<subseteq> set seen \<and> (\<forall>n \<in> set seen. (from_step, n) \<in> (set E)\<^sup>*) \<and>
     (\<forall>n \<in> set seen - set q. n \<noteq> goal \<and> (\<forall>m. (n, m) \<in> set E \<longrightarrow> m \<in> set seen))"

lemma step_walk_iff:
  "walk_inv E from_step goal seen q \<Longrightarrow> step_walk E goal seen q \<longleftrightarrow> (from_step, goal) \<in> (set E)\<^sup>*"
proof (induction E goal seen q rule: step_walk.induct)
  case (1 E goal seen)
  have "n \<in> set seen" if "(from_step, n) \<in> (set E)\<^sup>*" for n
    using that
  proof (induction rule: rtrancl_induct)
    case base
    then show ?case using 1 by (simp add: walk_inv_def)
  next
    case (step y z)
    then show ?case using 1 by (auto simp: walk_inv_def)
  qed
  moreover have "goal \<notin> set seen" using 1 by (auto simp: walk_inv_def)
  ultimately show ?case by auto
next
  case (2 E goal seen n q)
  show ?case
  proof (cases "n = goal")
    case True
    then show ?thesis using "2.prems" by (auto simp: walk_inv_def)
  next
    case False
    let ?ms = "map snd (filter (\<lambda>e. fst e = n) E)"
    obtain seen' q' where r: "foldl see_next (seen, q) ?ms = (seen', q')" by force
    note f = see_next_fold [OF r]
    have ms: "m \<in> set ?ms \<longleftrightarrow> (n, m) \<in> set E" for m by force
    have n: "(from_step, n) \<in> (set E)\<^sup>*" using "2.prems" by (auto simp: walk_inv_def)
    have "walk_inv E from_step goal seen' q'"
      unfolding walk_inv_def
    proof (intro conjI ballI)
      show "from_step \<in> set seen'" "set q' \<subseteq> set seen'" using f "2.prems" by (auto simp: walk_inv_def)
      fix x
      show "(from_step, x) \<in> (set E)\<^sup>*" if "x \<in> set seen'"
      proof (cases "x \<in> set seen")
        case True
        then show ?thesis using "2.prems" by (simp add: walk_inv_def)
      next
        case False
        with that f have "x \<in> set ?ms" by blast
        with ms have "(n, x) \<in> set E" by blast
        with n show ?thesis by (rule rtrancl.rtrancl_into_rtrancl)
      qed
      assume x: "x \<in> set seen' - set q'"
      then have old: "x \<in> set seen" "x \<notin> set q" using f by auto
      have rest: "\<forall>y \<in> set seen - set (n # q). y \<noteq> goal \<and> (\<forall>m. (y, m) \<in> set E \<longrightarrow> m \<in> set seen)"
        using "2.prems" unfolding walk_inv_def by blast
      show "x \<noteq> goal"
      proof (cases "x = n")
        case False
        with old have "x \<in> set seen - set (n # q)" by simp
        with rest show ?thesis by blast
      qed (use False in simp)
      show "\<forall>m. (x, m) \<in> set E \<longrightarrow> m \<in> set seen'"
      proof (cases "x = n")
        case True
        with ms f show ?thesis by blast
      next
        case False
        with old have "x \<in> set seen - set (n # q)" by simp
        with rest f show ?thesis by blast
      qed
    qed
    from "2.IH" [OF False r [symmetric] this] False r show ?thesis by simp
  qed
qed

lemma step_reachable_iff: "step_reachable E a b \<longleftrightarrow> (a, b) \<in> (set E)\<^sup>*"
  unfolding step_reachable_def by (rule step_walk_iff) (simp add: walk_inv_def)

section \<open>The kept edges\<close>

lemma kept_fold:
  "acyclic (set coarse \<union> set kept) \<Longrightarrow> acyclic (set coarse \<union> set (foldl (keep_edge coarse) kept es))"
proof (induction es arbitrary: kept)
  case (Cons e es)
  show ?case
  proof (cases "step_reachable (coarse @ kept) (snd e) (fst e)")
    case True
    with Cons show ?thesis by (simp add: keep_edge_def)
  next
    case False
    then have "(snd e, fst e) \<notin> (set coarse \<union> set kept)\<^sup>*" by (simp add: step_reachable_iff)
    then have "acyclic (insert e (set coarse \<union> set kept))"
      using Cons.prems by (cases e) (simp add: acyclic_insert)
    then have "acyclic (set coarse \<union> set (kept @ [e]))" by simp
    from Cons.IH [OF this] False show ?thesis by (simp add: keep_edge_def)
  qed
qed simp

lemma step_pairs_scope: "p \<in> set (step_pairs steps w r) \<Longrightarrow>
    fst p \<noteq> snd p \<and> fst p \<in> in_scope steps \<and> snd p \<in> in_scope steps"
  by (auto simp: step_pairs_def)

lemma induced_scope: "p \<in> set (induced_edges steps nodes es) \<Longrightarrow>
    fst p \<noteq> snd p \<and> fst p \<in> in_scope steps \<and> snd p \<in> in_scope steps"
  unfolding induced_edges_def compact_sort(1) by (auto dest: step_pairs_scope)

lemma kept_edges_acyclic:
  assumes "acyclic (set (coarse_edges steps))"
  shows "acyclic (set (coarse_edges steps) \<union> set (kept_edges steps nodes es))"
  unfolding kept_edges_def by (rule kept_fold) (use assms in simp)

lemma edge_ordered_iff:
  "edge_ordered steps nodes kept e \<longleftrightarrow>
    (\<forall>p \<in> set (step_pairs steps (nodes ! writer e) (nodes ! reader e)). p \<in> (set (coarse_edges steps) \<union> set kept)\<^sup>+)"
proof -
  have "p \<in> set kept \<or> step_reachable (coarse_edges steps @ kept) (fst p) (snd p) \<longleftrightarrow>
      p \<in> (set (coarse_edges steps) \<union> set kept)\<^sup>+" if "fst p \<noteq> snd p" for p
    using that by (cases p) (auto simp: step_reachable_iff rtrancl_eq_or_trancl)
  then show ?thesis
    unfolding edge_ordered_def list_all_iff using step_pairs_scope by blast
qed

section \<open>The batch with its derived order\<close>

lemma coarse_wait_edges:
  assumes "\<And>s. s \<in> set steps \<Longrightarrow> runAfter s = []"
  shows "wait_edges steps = (set (coarse_edges steps))\<inverse>"
proof -
  have "set (coarse_edges steps) = {(k, stepRef s) | k s. s \<in> set steps \<and>
      k \<in> (\<lambda>d. TargetRef d (starget s)) ` set (dependsOn s) \<and> k \<in> in_scope steps \<and> k \<noteq> stepRef s}"
    by (auto simp: coarse_edges_def set_map_filter_iff Let_def)
  then show ?thesis using assms by (auto simp: wait_edges_def upstream_refs_def)
qed

lemma run_after_set: "set (run_after kept k) = {u. (u, k) \<in> set kept}"
  by (force simp: run_after_def)

lemma append_new_set: "set (foldl (\<lambda>ra up. if up \<in> set ra then ra else ra @ [up]) ra us) = set ra \<union> set us"
  by (induction us arbitrary: ra) auto

lemma apply_run_after_simps [simp]:
  "stepRef (apply_run_after d s) = stepRef s"
  "set (upstream_refs (apply_run_after d s)) = set (upstream_refs s) \<union> set (orunAfter d (stepRef s))"
  by (auto simp: apply_run_after_def stepRef_def upstream_refs_def append_new_set)

lemma applied_scope [simp]: "in_scope (map (apply_run_after d) steps) = in_scope steps"
  by (simp add: in_scope_def o_def)

lemma applied_wait_edges:
  assumes none: "\<And>s. s \<in> set steps \<Longrightarrow> runAfter s = []"
    and kept: "\<And>p. p \<in> set kept \<Longrightarrow> fst p \<noteq> snd p \<and> fst p \<in> in_scope steps \<and> snd p \<in> in_scope steps"
    and d: "orunAfter d = run_after kept"
  shows "wait_edges (map (apply_run_after d) steps) = (set (coarse_edges steps) \<union> set kept)\<inverse>"
proof -
  have "wait_edges (map (apply_run_after d) steps) =
      wait_edges steps \<union> {(stepRef s, u) | s u. s \<in> set steps \<and> (u, stepRef s) \<in> set kept \<and> u \<noteq> stepRef s \<and> u \<in> in_scope steps}"
  proof (intro equalityI subsetI)
    fix p assume "p \<in> wait_edges (map (apply_run_after d) steps)"
    then show "p \<in> wait_edges steps \<union> {(stepRef s, u) | s u. s \<in> set steps \<and> (u, stepRef s) \<in> set kept \<and> u \<noteq> stepRef s \<and> u \<in> in_scope steps}"
      unfolding wait_edges_def by (fastforce simp: d run_after_set)
  next
    fix p assume "p \<in> wait_edges steps \<union> {(stepRef s, u) | s u. s \<in> set steps \<and> (u, stepRef s) \<in> set kept \<and> u \<noteq> stepRef s \<and> u \<in> in_scope steps}"
    then obtain s u where p: "p = (stepRef s, u)" "s \<in> set steps" "u \<noteq> stepRef s" "u \<in> in_scope steps"
      "u \<in> set (upstream_refs s) \<or> (u, stepRef s) \<in> set kept"
      unfolding wait_edges_def by blast
    let ?s = "apply_run_after d s"
    have "?s \<in> set (map (apply_run_after d) steps)" "stepRef ?s = stepRef s" "u \<in> set (upstream_refs ?s)"
      using p by (auto simp: d run_after_set)
    then show "p \<in> wait_edges (map (apply_run_after d) steps)"
      using p unfolding wait_edges_def mem_Collect_eq applied_scope by metis
  qed
  also have "{(stepRef s, u) | s u. s \<in> set steps \<and> (u, stepRef s) \<in> set kept \<and> u \<noteq> stepRef s \<and> u \<in> in_scope steps} = (set kept)\<inverse>"
    using kept by (fastforce simp: in_scope_def)
  finally show ?thesis using coarse_wait_edges [OF none] by auto
qed

section \<open>Running it\<close>

text \<open>With one step per ref, a step past its upstreams has everything it waits on transitively behind it.\<close>

lemma admitted_after:
  assumes reach: "reachable_batch steps budget b" and d: "distinct (map stepRef steps)"
    and i: "i < length steps" "phases b ! i \<in> {Admitted, Finished True}"
    and path: "(stepRef (steps ! i), u) \<in> (wait_edges steps)\<^sup>+"
  shows "runs b u = Some (Closed None)"
proof -
  have wf: "wf_phases steps budget b" "passed_runs_ran steps b"
    using wf_reachable_batch [OF reach] by (simp_all add: wf_batch_def)
  have direct: "runs b v = Some (Closed None)"
    if j: "j < length steps" "phases b ! j \<in> {Admitted, Finished True}" and e: "(stepRef (steps ! j), v) \<in> wait_edges steps" for j v
  proof -
    from e obtain s where s: "s \<in> set steps" "stepRef s = stepRef (steps ! j)" "v \<in> set (upstream_refs s)"
      by (auto simp: wait_edges_def)
    then have "s = steps ! j" using d j(1) by (metis distinct_map inj_onD nth_mem)
    moreover have "upstreams_passed steps (runs b) j" using wf j unfolding wf_phases_def by blast
    ultimately show ?thesis using s e unfolding upstreams_passed_def by blast
  qed
  from path show ?thesis
  proof (induction rule: trancl_induct)
    case (base v)
    with direct i show ?case by blast
  next
    case (step v w)
    from wf(2) step.IH obtain j where j: "j < length steps" "stepRef (steps ! j) = v" "phases b ! j = Finished True"
      by (rule passed_run_ran)
    with direct [of j w] step.hyps(2) show ?case by simp
  qed
qed

section \<open>The derivation as a whole\<close>

lemma unmark_ordered: "ordered e = False \<Longrightarrow> e\<lparr>ordered := x, ordered := False\<rparr> = e"
  by (cases e) simp

lemma footprint_unordered: "e \<in> set (footprint_edges dm nodes) \<Longrightarrow> ordered e = False"
  by (auto simp: footprint_edges_def set_map_filter_iff pair_edge_def split: if_splits)

lemma derive_cases:
  assumes "distinct (map node_key nodes)"
  obtains cs es dropped where "FindSameStepConflicts dm wit nodes = Some cs"
    "resolveFineCycles nodes (footprint_edges dm nodes, []) = (es, dropped)"
    "DeriveTargetOrder dm wit steps nodes = Some \<lparr>onodes = nodes,
       oedges = map (\<lambda>e. e\<lparr>ordered := edge_ordered steps nodes (kept_edges steps nodes es) e\<rparr>) es,
       odropped = dropped, orunAfter = run_after (kept_edges steps nodes es), osameStep = cs\<rparr>"
proof -
  obtain o1 where "newNodeOrder nodes = Some o1" by (rule newNodeOrder_ok [OF assms])
  then obtain cs where "FindSameStepConflicts dm wit nodes = Some cs" by (simp add: FindSameStepConflicts_def)
  moreover obtain es dropped where "resolveFineCycles nodes (footprint_edges dm nodes, []) = (es, dropped)" by force
  ultimately show thesis using that by (simp add: DeriveTargetOrder_def Let_def)
qed

lemma derive_resolved:
  assumes "resolveFineCycles nodes (footprint_edges dm nodes, []) = (es, dropped)"
  shows "edges_ok nodes es" "acyclic (node_edges es)" "resolves nodes (footprint_edges dm nodes) dropped es"
    "mset es + mset (map fst dropped) = mset (footprint_edges dm nodes)"
proof -
  have r: "edges_ok nodes es" "resolves nodes (footprint_edges dm nodes) dropped es"
    using resolveFineCycles_ok [of nodes "(footprint_edges dm nodes, [])", OF _ assms] footprint_edges_ok by auto
  then show "edges_ok nodes es" "acyclic (node_edges es)" "resolves nodes (footprint_edges dm nodes) dropped es"
    "mset es + mset (map fst dropped) = mset (footprint_edges dm nodes)"
    using resolves_kept [OF r(2)] by simp_all
qed

lemma relabelled_edges:
  "edges_ok nodes (map (\<lambda>e. e\<lparr>ordered := f e\<rparr>) es) \<longleftrightarrow> edges_ok nodes es"
  "node_edges (map (\<lambda>e. e\<lparr>ordered := f e\<rparr>) es) = node_edges es"
  by (auto simp: edges_ok_def node_edges_def o_def image_image)

lemma kept_scope:
  assumes "p \<in> set (kept_edges steps nodes es)"
  shows "fst p \<noteq> snd p \<and> fst p \<in> in_scope steps \<and> snd p \<in> in_scope steps"
proof (rule induced_scope)
  have "set (foldl (keep_edge coarse) kept es) \<subseteq> set kept \<union> set es" for coarse kept es
  proof (induction es arbitrary: kept)
    case (Cons e es)
    have "set (keep_edge coarse kept e) \<subseteq> insert e (set kept)" by (auto simp: keep_edge_def)
    with Cons.IH [of "keep_edge coarse kept e"] show ?case by auto
  qed simp
  from this [of "coarse_edges steps" "[]" "induced_edges steps nodes es"]
  show "p \<in> set (induced_edges steps nodes es)" using assms by (auto simp: kept_edges_def)
qed

text \<open>A batch that is not refused carries the derived order in its steps.\<close>

lemma derive_batch_cases:
  assumes "deriveBatchOrder dm wit steps nodes = Some (Inr (d, steps'))" "steps \<noteq> []"
  obtains es dropped where "steps' = map (apply_run_after d) steps"
    "resolveFineCycles nodes (footprint_edges dm nodes, []) = (es, dropped)"
    "orunAfter d = run_after (kept_edges steps nodes es)"
    "oedges d = map (\<lambda>e. e\<lparr>ordered := edge_ordered steps nodes (kept_edges steps nodes es) e\<rparr>) es"
  using assms
  by (auto simp: deriveBatchOrder_def DeriveTargetOrder_def Let_def split: option.splits prod.splits if_splits)

lemma derived_wait_edges:
  assumes "deriveBatchOrder dm wit steps nodes = Some (Inr (d, steps'))" "steps \<noteq> []"
    and "list_all (\<lambda>s. runAfter s = []) steps"
  obtains es dropped where "resolveFineCycles nodes (footprint_edges dm nodes, []) = (es, dropped)"
    "oedges d = map (\<lambda>e. e\<lparr>ordered := edge_ordered steps nodes (kept_edges steps nodes es) e\<rparr>) es"
    "wait_edges steps' = (set (coarse_edges steps) \<union> set (kept_edges steps nodes es))\<inverse>"
    "map stepRef steps' = map stepRef steps"
proof -
  from derive_batch_cases [OF assms(1,2)] obtain es dropped where
    e: "steps' = map (apply_run_after d) steps" "resolveFineCycles nodes (footprint_edges dm nodes, []) = (es, dropped)"
    "orunAfter d = run_after (kept_edges steps nodes es)"
    "oedges d = map (\<lambda>e. e\<lparr>ordered := edge_ordered steps nodes (kept_edges steps nodes es) e\<rparr>) es" .
  have none: "runAfter s = []" if "s \<in> set steps" for s using that assms(3) by (simp add: list_all_iff)
  have "wait_edges steps' = (set (coarse_edges steps) \<union> set (kept_edges steps nodes es))\<inverse>"
    unfolding e(1) by (rule applied_wait_edges [OF none kept_scope e(3)])
  moreover have "map stepRef steps' = map stepRef steps" by (simp add: e(1) o_def)
  ultimately show thesis using that e(2,4) by blast
qed

end
