(* ===== verification/Order_Properties.thy ===== *)
theory Order_Properties
  imports Target_Schedule_Correct
begin

text \<open>
  The properties of a batch's schedule: the check of its waits, the goroutines that wait, the
  order derived from the targets' footprints, what that order does to the batch, and the
  overlaps inside one step.
\<close>

section \<open>Batches to try the properties on\<close>

definition lib_step :: batch_step where
  "lib_step = \<lparr>sproject = ''lib'', starget = ''build'', dependsOn = [], runAfter = []\<rparr>"

definition app_step :: batch_step where
  "app_step = \<lparr>sproject = ''app'', starget = ''build'', dependsOn = [''lib''], runAfter = []\<rparr>"

definition lib_app :: "batch_step list" where
  "lib_app = [lib_step, app_step]"

definition docs_step :: batch_step where
  "docs_step = \<lparr>sproject = ''docs'', starget = ''build'', dependsOn = [], runAfter = []\<rparr>"

definition exact_match :: matcher where
  "exact_match pat p = Some (pat = p)"

definition file_node :: "path \<Rightarrow> string list \<Rightarrow> string list \<Rightarrow> target_node" where
  "file_node p reads writes =
     \<lparr>nproject = p, ntarget = ''build'', nsteps = [TargetRef p ''build''],
      nreads = map (\<lambda>f. \<lparr>gpattern = f, gexcept = []\<rparr>) reads,
      nwrites = map (\<lambda>f. \<lparr>gpattern = f, gexcept = []\<rparr>) writes,
      declaredReads = True, declaredWrites = True, ignoreDirs = [], needs = []\<rparr>"

text \<open>\<open>docs\<close> reads what \<open>lib\<close> writes, and no project dependency says so.\<close>

definition doc_nodes :: "target_node list" where
  "doc_nodes = [file_node ''docs'' [''api.md''] [''site''], file_node ''lib'' [''lib.go''] [''api.md'']]"

lemmas demo_batch = lib_app_def lib_step_def app_step_def stepRef_def

section \<open>The waits of a batch\<close>

text \<open>
  C10. The check of a batch decides whether its waits have a cycle: it accepts a batch whose
  waits have none, and otherwise its error carries a cycle among them. It never gives up.
\<close>

theorem check_decides_cycles:
  "case checkAcyclic steps of
     Inr _ \<Rightarrow> acyclic (wait_edges steps)
   | Inl cs \<Rightarrow> ref_cycle (wait_edges steps) cs \<and> \<not> acyclic (wait_edges steps)"
  by (rule checkAcyclic_cases [of steps]) simp_all

text \<open>
  C11. A batch that passes the check never deadlocks on its upstream waits: in every state it
  can reach with a step unfinished some goroutine can move, each move lowers the work left,
  and there are two units of it per step to begin with.
\<close>

theorem accepted_batch_never_deadlocks:
  assumes "checkAcyclic steps = Inr ()" "reachable_batch steps budget b"
    and "i < length steps" "phases b ! i \<notin> {Finished True, Finished False}"
  shows "(\<exists>j b'. j < length steps \<and> move steps j b b') \<and>
    (\<forall>j b'. move steps j b b' \<longrightarrow> work_left b' < work_left b) \<and>
    work_left (start_batch steps) = 2 * length steps"
proof -
  have ac: "acyclic (wait_edges steps)" by (rule checkAcyclic_cases [of steps]) (use assms(1) in simp_all)
  have wf: "wf_batch steps budget b" by (rule wf_reachable_batch [OF assms(2)])
  have ph: "phases b ! i \<in> {Waiting, Admitted}"
  proof (cases "phases b ! i")
    case (Finished x)
    then show ?thesis using assms(4) by (cases x) simp_all
  qed simp_all
  have len: "length (phases b) = length steps" using wf by (simp add: wf_batch_def wf_phases_def)
  have "sum_list (map phase_work (replicate n Waiting)) = 2 * n" for n
    by (induction n) (simp_all add: phase_work_def)
  then have "work_left (start_batch steps) = 2 * length steps"
    by (simp add: work_left_def start_batch_def)
  with move_enabled [OF wf ac assms(3) ph] move_works [OF len] show ?thesis by blast
qed

theorem accepted_batch_never_deadlocks_witness:
  "\<exists>j b'. j < 2 \<and> move lib_app j (start_batch lib_app) b'"
proof -
  have "checkAcyclic lib_app = Inr ()" by code_simp
  moreover have "1 < length lib_app" "phases (start_batch lib_app) ! 1 \<notin> {Finished True, Finished False}"
    by (simp_all add: lib_app_def start_batch_def)
  ultimately have "\<exists>j b'. j < length lib_app \<and> move lib_app j (start_batch lib_app) b'"
    using accepted_batch_never_deadlocks [of lib_app 0 "start_batch lib_app" 1] reachable_batch.start by blast
  moreover have "length lib_app = 2" by (simp add: lib_app_def)
  ultimately show ?thesis by metis
qed

text \<open>
  C12. A step gets past its upstreams only when each of them that the batch runs has succeeded;
  one that is turned away has an upstream that failed, or the batch was interrupted or spent
  its failure budget. Peers of a failing step are not stopped otherwise, and every failure that
  counts is one of the errors joined in the end.
\<close>

theorem steps_run_behind_upstreams:
  assumes "reachable_batch steps budget b" "i < length steps"
  shows "(phases b ! i \<in> {Admitted, Finished True} \<longrightarrow>
      (\<forall>u \<in> set (upstream_refs (steps ! i)).
        u = stepRef (steps ! i) \<or> u \<notin> in_scope steps \<or> runs b u = Some (Closed None))) \<and>
    (phases b ! i = Finished False \<longrightarrow>
      upstream_broke steps (runs b) i \<or> interrupted b \<or> 0 < budget \<and> budget \<le> failedCount b) \<and>
    failedCount b = length (joined_errors b)"
proof -
  have wf: "wf_phases steps budget b" by (rule wf_batch_phases [OF wf_reachable_batch [OF assms(1)]])
  have "runs b u = Some (Closed None)"
    if "phases b ! i \<in> {Admitted, Finished True}" "u \<in> set (upstream_refs (steps ! i))"
      "u \<noteq> stepRef (steps ! i)" "u \<in> in_scope steps" for u
  proof -
    have "(stepRef (steps ! i), u) \<in> wait_edges steps"
      using that assms(2) by (auto simp: nth_in_wait_edges [OF assms(2)])
    moreover have "upstreams_passed steps (runs b) i" using wf that(1) assms(2) unfolding wf_phases_def by blast
    ultimately show ?thesis using that(2) unfolding upstreams_passed_def by blast
  qed
  then show ?thesis using wf assms(2) unfolding wf_phases_def by blast
qed

text \<open>The state in which step \<open>j\<close> passed first and step \<open>i\<close> was then admitted.\<close>

definition admitted_first :: "batch_step list \<Rightarrow> nat \<Rightarrow> batch" where
  "admitted_first steps j = (start_batch steps)\<lparr>phases := (phases (start_batch steps))[j := Admitted]\<rparr>"

definition passed_first :: "batch_step list \<Rightarrow> nat \<Rightarrow> batch" where
  "passed_first steps j = end_step steps j True True None (admitted_first steps j)"

definition second_running :: "batch_step list \<Rightarrow> nat \<Rightarrow> nat \<Rightarrow> batch" where
  "second_running steps j i = (passed_first steps j)\<lparr>phases := (phases (passed_first steps j))[i := Admitted]\<rparr>"

lemma second_running_reachable:
  assumes "j < length steps" "i < length steps" "i \<noteq> j" "upstream_refs (steps ! j) = []"
    "waitForUpstreams False (runs (passed_first steps j)) (steps ! i) = Proceed"
  shows "reachable_batch steps 0 (second_running steps j i)" "phases (second_running steps j i) ! i = Admitted"
proof -
  have "move steps j (start_batch steps) (admitted_first steps j)"
    unfolding admitted_first_def
    using assms by (intro move.admit) (simp_all add: start_batch_def waitForUpstreams_def)
  then have "reachable_batch steps 0 (admitted_first steps j)"
    by (meson reachable_batch.start reachable_batch.step batch_move.work)
  moreover have "move steps j (admitted_first steps j) (passed_first steps j)"
    unfolding passed_first_def
    using assms by (intro move.finish) (simp_all add: admitted_first_def start_batch_def)
  ultimately have "reachable_batch steps 0 (passed_first steps j)"
    by (meson reachable_batch.step batch_move.work)
  moreover have "move steps i (passed_first steps j) (second_running steps j i)"
    unfolding second_running_def
    using assms by (intro move.admit) (simp_all add: passed_first_def end_step_def admitted_first_def start_batch_def)
  ultimately show "reachable_batch steps 0 (second_running steps j i)"
    by (meson reachable_batch.step batch_move.work)
  show "phases (second_running steps j i) ! i = Admitted"
    using assms by (simp add: second_running_def passed_first_def end_step_def admitted_first_def start_batch_def)
qed

theorem steps_run_behind_upstreams_witness:
  "runs (second_running lib_app 0 1) (TargetRef ''lib'' ''build'') = Some (Closed None)"
proof -
  have run: "reachable_batch lib_app 0 (second_running lib_app 0 1)" "phases (second_running lib_app 0 1) ! 1 = Admitted"
    by (rule second_running_reachable; code_simp)+
  have "TargetRef ''lib'' ''build'' \<in> set (upstream_refs (lib_app ! 1))"
    "TargetRef ''lib'' ''build'' \<noteq> stepRef (lib_app ! 1)" "TargetRef ''lib'' ''build'' \<in> in_scope lib_app"
    by (simp_all add: demo_batch upstream_refs_def in_scope_def)
  moreover have "(1::nat) < length lib_app" by (simp add: lib_app_def)
  ultimately show ?thesis
    using steps_run_behind_upstreams [OF run(1), of 1] run(2) by blast
qed

section \<open>The derived order\<close>

text \<open>
  C13. Deriving an order always succeeds. Every edge that two footprints imply is kept or dropped,
  and edges are dropped only round by round and only while some cycle is left: each round takes
  one cycle of the edges left so far and drops all its edges with a baseline for a side, or,
  when it has none, the one of its edges that points from the greater key to the smaller with
  the greatest keys. What is kept has no cycle, and the nodes' order lists every node once,
  writers before readers.
\<close>

theorem derived_order_resolves_cycles:
  assumes "distinct (map node_key nodes)"
  shows "\<exists>d. DeriveTargetOrder dm wit steps nodes = Some d \<and>
    mset (map (\<lambda>e. e\<lparr>ordered := False\<rparr>) (oedges d)) + mset (map fst (odropped d)) = mset (footprint_edges dm nodes) \<and>
    resolves nodes (footprint_edges dm nodes) (odropped d) (map (\<lambda>e. e\<lparr>ordered := False\<rparr>) (oedges d)) \<and>
    acyclic (node_edges (oedges d)) \<and>
    distinct (TopoNodes (length nodes) (oedges d)) \<and>
    set (TopoNodes (length nodes) (oedges d)) = {..<length nodes} \<and>
    topo_sorted (node_edges (oedges d)) (TopoNodes (length nodes) (oedges d))"
proof (rule derive_cases [OF assms, of dm wit steps])
  fix cs es dropped
  let ?es = "map (\<lambda>e. e\<lparr>ordered := edge_ordered steps nodes (kept_edges steps nodes es) e\<rparr>) es"
  let ?d = "\<lparr>onodes = nodes, oedges = ?es, odropped = dropped,
    orunAfter = run_after (kept_edges steps nodes es), osameStep = cs\<rparr>"
  assume "resolveFineCycles nodes (footprint_edges dm nodes, []) = (es, dropped)"
    and d: "DeriveTargetOrder dm wit steps nodes = Some ?d"
  note r = derive_resolved [OF this(1)]
  have ok: "edges_ok nodes ?es" "acyclic (node_edges ?es)" using r(1,2) by (simp_all add: relabelled_edges)
  have "set es \<subseteq> set (footprint_edges dm nodes)"
    using arg_cong [OF r(4), of set_mset] by auto
  then have "e\<lparr>ordered := x, ordered := False\<rparr> = e" if "e \<in> set es" for e x
    using that footprint_unordered [of e dm nodes] by (intro unmark_ordered) blast
  then have "map (\<lambda>e. e\<lparr>ordered := False\<rparr>) ?es = es"
    unfolding map_map o_def by (intro map_idI)
  then have m: "mset (map (\<lambda>e. e\<lparr>ordered := False\<rparr>) ?es) + mset (map fst dropped) = mset (footprint_edges dm nodes)"
    using r(4) by (simp only:)
  have l: "resolves nodes (footprint_edges dm nodes) dropped (map (\<lambda>e. e\<lparr>ordered := False\<rparr>) ?es)"
    using r(3) \<open>map (\<lambda>e. e\<lparr>ordered := False\<rparr>) ?es = es\<close> by (simp only:)
  show ?thesis
    by (rule exI [of _ ?d]) (use d m l ok TopoNodes_ok [OF ok] in \<open>simp del: map_map\<close>)
qed

theorem derived_order_resolves_cycles_witness:
  "\<exists>d. DeriveTargetOrder exact_match None [docs_step, lib_step] doc_nodes = Some d \<and>
    set (TopoNodes 2 (oedges d)) = {..<2} \<and> acyclic (node_edges (oedges d))"
proof -
  have "distinct (map node_key doc_nodes)" "length doc_nodes = 2" by (simp_all add: doc_nodes_def file_node_def node_key_def)
  with derived_order_resolves_cycles [of doc_nodes exact_match None "[docs_step, lib_step]"]
  show ?thesis by auto
qed

text \<open>
  C14. The derived order never makes a batch wait in a circle: a batch whose project
  dependencies pass the check still passes it with the derived order written into its steps.
\<close>

theorem derived_batch_is_accepted:
  assumes "deriveBatchOrder dm wit steps nodes = Some (Inr (d, steps'))"
    and "list_all (\<lambda>s. runAfter s = []) steps" "checkAcyclic steps = Inr ()"
  shows "checkAcyclic steps' = Inr ()"
proof (cases "steps = []")
  case True
  then show ?thesis using assms(1,3) by (simp add: deriveBatchOrder_def)
next
  case False
  from derived_wait_edges [OF assms(1) False assms(2)] obtain es where
    w: "wait_edges steps' = (set (coarse_edges steps) \<union> set (kept_edges steps nodes es))\<inverse>" by metis
  have "acyclic (wait_edges steps)" by (rule checkAcyclic_cases [of steps]) (use assms(3) in simp_all)
  then have "acyclic (set (coarse_edges steps))"
    using coarse_wait_edges [of steps] assms(2) by (simp add: list_all_iff)
  then have "acyclic (wait_edges steps')" unfolding w by (simp add: kept_edges_acyclic)
  then show ?thesis by (rule_tac checkAcyclic_cases [of steps']) simp_all
qed

text \<open>The order that \<open>docs\<close> gets: it waits for \<open>lib\<close>, whose declared output it reads.\<close>

definition docs_after_lib :: "batch_step list" where
  "docs_after_lib = [docs_step\<lparr>runAfter := [TargetRef ''lib'' ''build'']\<rparr>, lib_step]"

lemma docs_derived:
  obtains d where "deriveBatchOrder exact_match None [docs_step, lib_step] doc_nodes = Some (Inr (d, docs_after_lib))"
    "oedges d = [\<lparr>writer = 1, reader = 0, weak = False, ordered = True\<rparr>]"
proof -
  have "map_option (\<lambda>r. case r of Inl _ \<Rightarrow> None | Inr (d, s) \<Rightarrow> Some (oedges d, s))
      (deriveBatchOrder exact_match None [docs_step, lib_step] doc_nodes) =
    Some (Some ([\<lparr>writer = 1, reader = 0, weak = False, ordered = True\<rparr>], docs_after_lib))"
    by code_simp
  then obtain z where z: "deriveBatchOrder exact_match None [docs_step, lib_step] doc_nodes = Some z"
    "(case z of Inl _ \<Rightarrow> None | Inr (d, s) \<Rightarrow> Some (oedges d, s)) =
      Some ([\<lparr>writer = 1, reader = 0, weak = False, ordered = True\<rparr>], docs_after_lib)"
    unfolding map_option_eq_Some by blast
  show thesis
  proof (cases z)
    case (Inr x)
    obtain d s where x: "x = (d, s)" by force
    with Inr z(2) have "oedges d = [\<lparr>writer = 1, reader = 0, weak = False, ordered = True\<rparr>]" "s = docs_after_lib" by auto
    with that z(1) Inr x show thesis by simp
  qed (use z(2) in simp)
qed

theorem derived_batch_is_accepted_witness:
  "checkAcyclic docs_after_lib = Inr () \<and> checkAcyclic [docs_step, lib_step] = Inr ()"
proof -
  obtain d where d: "deriveBatchOrder exact_match None [docs_step, lib_step] doc_nodes = Some (Inr (d, docs_after_lib))"
    by (rule docs_derived)
  have "checkAcyclic [docs_step, lib_step] = Inr ()" by code_simp
  moreover have "list_all (\<lambda>s. runAfter s = []) [docs_step, lib_step]" by (simp add: docs_step_def lib_step_def)
  ultimately show ?thesis using derived_batch_is_accepted [OF d] by blast
qed

text \<open>
  C15. An edge that the derivation marks as ordered is ordered in every run: whenever a step
  that runs the reader has got past its upstreams, every other step of the batch that runs the
  writer has already succeeded.
\<close>

theorem ordered_readers_run_behind_writers:
  assumes "deriveBatchOrder dm wit steps nodes = Some (Inr (d, steps'))"
    and "list_all (\<lambda>s. runAfter s = []) steps" "distinct (map stepRef steps)"
    and "e \<in> set (oedges d)" "ordered e"
    and "sw \<in> set (nsteps (nodes ! writer e))" "stepRef (steps' ! i) \<in> set (nsteps (nodes ! reader e))"
    and "sw \<noteq> stepRef (steps' ! i)" "sw \<in> in_scope steps"
    and "reachable_batch steps' budget b" "i < length steps'" "phases b ! i \<in> {Admitted, Finished True}"
  shows "runs b sw = Some (Closed None)"
proof -
  have "steps \<noteq> []" using assms(9) by (auto simp: in_scope_def)
  from derived_wait_edges [OF assms(1) this assms(2)] obtain es dropped where
    "resolveFineCycles nodes (footprint_edges dm nodes, []) = (es, dropped)" and o: "oedges d = map (\<lambda>e. e\<lparr>ordered := edge_ordered steps nodes (kept_edges steps nodes es) e\<rparr>) es"
    and w: "wait_edges steps' = (set (coarse_edges steps) \<union> set (kept_edges steps nodes es))\<inverse>"
    and refs: "map stepRef steps' = map stepRef steps" .
  from assms(4) o obtain e0 where e0: "e0 \<in> set es"
    "e = e0\<lparr>ordered := edge_ordered steps nodes (kept_edges steps nodes es) e0\<rparr>" by auto
  then have "edge_ordered steps nodes (kept_edges steps nodes es) e0" using assms(5) by simp
  moreover have same: "writer e0 = writer e" "reader e0 = reader e" unfolding e0(2) by simp_all
  moreover have "stepRef (steps' ! i) \<in> in_scope steps"
    unfolding in_scope_def refs [symmetric] using assms(11) by simp
  then have "(sw, stepRef (steps' ! i)) \<in> set (step_pairs steps (nodes ! writer e0) (nodes ! reader e0))"
    unfolding same step_pairs_def using assms(6-9) by simp
  ultimately have "(sw, stepRef (steps' ! i)) \<in> (set (coarse_edges steps) \<union> set (kept_edges steps nodes es))\<^sup>+"
    unfolding edge_ordered_iff by blast
  then have "(stepRef (steps' ! i), sw) \<in> (wait_edges steps')\<^sup>+" unfolding w trancl_converse by simp
  with admitted_after [OF assms(10) _ assms(11,12)] refs assms(3) show ?thesis by simp
qed

theorem ordered_readers_run_behind_writers_witness:
  "runs (second_running docs_after_lib 1 0) (TargetRef ''lib'' ''build'') = Some (Closed None)"
proof -
  obtain d where d: "deriveBatchOrder exact_match None [docs_step, lib_step] doc_nodes = Some (Inr (d, docs_after_lib))"
    "oedges d = [\<lparr>writer = 1, reader = 0, weak = False, ordered = True\<rparr>]" by (rule docs_derived)
  have run: "reachable_batch docs_after_lib 0 (second_running docs_after_lib 1 0)"
    "phases (second_running docs_after_lib 1 0) ! 0 = Admitted"
    by (rule second_running_reachable; code_simp)+
  show ?thesis
    by (rule ordered_readers_run_behind_writers [OF d(1), of "\<lparr>writer = 1, reader = 0, weak = False, ordered = True\<rparr>" _ 0 0 "second_running docs_after_lib 1 0"])
       (use run d(2) in \<open>simp_all add: docs_after_lib_def docs_step_def lib_step_def stepRef_def doc_nodes_def file_node_def in_scope_def\<close>)
qed

section \<open>Inside one step\<close>

text \<open>
  C16. Two targets of one step whose declared files meet are reported as a conflict, unless the
  calls of their composers order them in every execution of the chain: either the writer has
  always ended before the reader's own work starts, or the reader before the writer's.
\<close>

theorem unreported_pairs_are_ordered:
  assumes "distinct (map node_key nodes)" "w \<in> set nodes" "r \<in> set nodes" "node_key w \<noteq> node_key r"
    and "declaredWrites w" "declaredReads r" "sharedStep w r \<noteq> None"
    and "node_overlap dm w r = Some (wg, rg)" "witnessed wit wg rg (ignoreDirs r)"
  shows "\<exists>cs. FindSameStepConflicts dm wit nodes = Some cs \<and>
    ((\<exists>c \<in> set cs. cwriter c = node_key w \<and> creader c = node_key r) \<or>
     (\<forall>run. chain_reaches nodes run \<longrightarrow> node_key r \<in> working run \<longrightarrow> node_key w \<in> ended run) \<or>
     (\<forall>run. chain_reaches nodes run \<longrightarrow> node_key w \<in> working run \<longrightarrow> node_key r \<in> ended run))"
proof -
  obtain cs where cs: "FindSameStepConflicts dm wit nodes = Some cs"
    using derive_cases [OF assms(1), of dm wit] by metis
  show ?thesis
  proof (cases "\<exists>c \<in> set cs. cwriter c = node_key w \<and> creader c = node_key r")
    case True
    with cs show ?thesis by blast
  next
    case False
    then have "\<not> (cwriter c = node_key w \<and> creader c = node_key r)" if "c \<in> set cs" for c using that by blast
    from no_conflict_ordered [OF assms(1) cs assms(2-9) this] obtain o1 where
      o1: "justified nodes o1" "runsAfter nodes o1 (node_key r) (node_key w) \<or> runsAfter nodes o1 (node_key w) (node_key r)" .
    with runsAfter_ended [OF o1(1) assms(1)] cs show ?thesis by blast
  qed
qed

text \<open>\<open>ci\<close> runs \<open>gen\<close> and then \<open>test\<close>, which reads what \<open>gen\<close> writes.\<close>

definition ci_ref :: "string \<Rightarrow> target_ref" where
  "ci_ref t = TargetRef ''lib'' t"

definition ci_node :: "string \<Rightarrow> string list \<Rightarrow> string list \<Rightarrow> calls \<Rightarrow> target_node" where
  "ci_node t reads writes cs =
     (file_node ''lib'' reads writes)\<lparr>ntarget := t, nsteps := [ci_ref ''ci''], needs := cs\<rparr>"

definition ci_nodes :: "target_node list" where
  "ci_nodes = [ci_node ''ci'' [] [] [[ci_ref ''gen''], [ci_ref ''test'']],
     ci_node ''gen'' [] [''gen.go''] [], ci_node ''test'' [''gen.go''] [] []]"

definition ci_run :: chain_run where
  "ci_run = \<lparr>began = {ci_ref ''test'', ci_ref ''gen'', ci_ref ''ci''},
     working = {ci_ref ''test'', ci_ref ''gen''}, ended = {ci_ref ''gen''}\<rparr>"

lemma ci_reaches: "chain_reaches ci_nodes ci_run"
proof -
  let ?r0 = "empty_run" let ?r1 = "?r0\<lparr>began := insert (ci_ref ''ci'') (began ?r0)\<rparr>"
  let ?r2 = "?r1\<lparr>began := insert (ci_ref ''gen'') (began ?r1)\<rparr>"
  let ?r3 = "?r2\<lparr>working := insert (ci_ref ''gen'') (working ?r2)\<rparr>"
  let ?r4 = "?r3\<lparr>ended := insert (ci_ref ''gen'') (ended ?r3)\<rparr>"
  let ?r5 = "?r4\<lparr>began := insert (ci_ref ''test'') (began ?r4)\<rparr>"
  let ?r6 = "?r5\<lparr>working := insert (ci_ref ''test'') (working ?r5)\<rparr>"
  have keys: "node_key (ci_node t a b c) = ci_ref t" for t a b c
    by (simp add: ci_node_def file_node_def node_key_def ci_ref_def)
  have calls: "needs (ci_node t a b c) = c" for t a b c by (simp add: ci_node_def)
  have nodes: "ci_node ''ci'' [] [] [[ci_ref ''gen''], [ci_ref ''test'']] \<in> set ci_nodes"
    "ci_node ''gen'' [] [''gen.go''] [] \<in> set ci_nodes" "ci_node ''test'' [''gen.go''] [] [] \<in> set ci_nodes"
    by (simp_all add: ci_nodes_def)
  have "composers_of ci_nodes (ci_ref ''ci'') = []" by code_simp
  then have "chain_step ci_nodes ?r0 ?r1" using chain_step.root [OF nodes(1), of ?r0] by (simp add: keys)
  moreover have "chain_step ci_nodes ?r1 ?r2"
    by (rule chain_step.dispatch [OF nodes(1), where pre = "[]" and call = "[ci_ref ''gen'']" and post = "[[ci_ref ''test'']]"])
       (simp_all add: keys calls)
  moreover have "chain_step ci_nodes ?r2 ?r3"
    using chain_step.work [OF nodes(2), of ?r2] by (simp add: keys calls)
  moreover have "chain_step ci_nodes ?r3 ?r4" by (rule chain_step.finish) simp
  moreover have "chain_step ci_nodes ?r4 ?r5"
    by (rule chain_step.dispatch [OF nodes(1), where pre = "[[ci_ref ''gen'']]" and call = "[ci_ref ''test'']" and post = "[]"])
       (simp_all add: keys calls)
  moreover have "chain_step ci_nodes ?r5 ?r6"
    using chain_step.work [OF nodes(3), of ?r5] by (simp add: keys calls)
  ultimately have "chain_reaches ci_nodes ?r6" by (meson chain_reaches.intros)
  then show ?thesis by (simp add: ci_run_def empty_run_def)
qed

theorem unreported_pairs_are_ordered_witness:
  "FindSameStepConflicts exact_match None ci_nodes = Some [] \<and>
   (ci_ref ''gen'' \<in> ended ci_run \<or> ci_ref ''test'' \<in> ended ci_run)"
proof -
  let ?w = "ci_node ''gen'' [] [''gen.go''] []" and ?r = "ci_node ''test'' [''gen.go''] [] []"
  have none: "FindSameStepConflicts exact_match None ci_nodes = Some []" by code_simp
  have hyps: "distinct (map node_key ci_nodes)" "?w \<in> set ci_nodes" "?r \<in> set ci_nodes" "node_key ?w \<noteq> node_key ?r"
    "declaredWrites ?w" "declaredReads ?r" "sharedStep ?w ?r \<noteq> None"
    "node_overlap exact_match ?w ?r = Some (''gen.go'', ''gen.go'')" "witnessed None ''gen.go'' ''gen.go'' (ignoreDirs ?r)"
    by code_simp+
  have keys: "node_key ?w = ci_ref ''gen''" "node_key ?r = ci_ref ''test''"
    by (simp_all add: ci_node_def file_node_def node_key_def ci_ref_def)
  have "ci_ref ''gen'' \<in> working ci_run" "ci_ref ''test'' \<in> working ci_run" by (simp_all add: ci_run_def)
  with unreported_pairs_are_ordered [OF hyps] ci_reaches none keys show ?thesis by auto
qed

end
