(* ===== verification/Slash_Path.thy ===== *)
theory Slash_Path
  imports Target_Globs
begin

text \<open>
  Slash-separated paths as Go's \<open>path\<close>, \<open>path/filepath\<close> (on Unix) and \<open>strings\<close> treat them:
  what \<open>src/types/project.go\<close>, \<open>src/types/job.go\<close> and \<open>src/project\<close> use to
  root, compare and trim what a project or a job declares. A path's meaning is its list of
  segments, so the lemmas say what each operation does to the segments.
\<close>

section \<open>Segments\<close>

abbreviation join_slash :: "string list \<Rightarrow> string" where
  "join_slash \<equiv> strings_join ''/''"

lemma split_slash_free: "x \<in> set (split_slash s) \<Longrightarrow> CHR ''/'' \<notin> set x"
proof (induction s arbitrary: x)
  case (Cons c s)
  then show ?case by (cases "split_slash s") (auto split: if_splits)
qed simp

lemma split_slash_append: "split_slash (a @ ''/'' @ b) = split_slash a @ split_slash b"
proof (induction a)
  case (Cons c a)
  then show ?case by (cases "split_slash a") auto
qed simp

lemma split_slash_single: "CHR ''/'' \<notin> set x \<Longrightarrow> split_slash x = [x]"
  by (induction x) auto

lemma join_split [simp]: "join_slash (split_slash s) = s"
proof (induction s)
  case (Cons c s)
  obtain x xs where x: "split_slash s = x # xs" by (meson neq_Nil_conv split_slash_not_Nil)
  with Cons show ?case by (cases xs) auto
qed simp

lemma split_join: "xs \<noteq> [] \<Longrightarrow> (\<And>x. x \<in> set xs \<Longrightarrow> CHR ''/'' \<notin> set x) \<Longrightarrow> split_slash (join_slash xs) = xs"
proof (induction xs)
  case (Cons x xs)
  show ?case
  proof (cases xs)
    case Nil
    with Cons.prems show ?thesis by (simp add: split_slash_single)
  next
    case (Cons y ys)
    have "split_slash (x @ ''/'' @ join_slash xs) = split_slash x @ split_slash (join_slash xs)"
      by (rule split_slash_append)
    moreover have "split_slash (join_slash xs) = xs" using Cons.IH Cons.prems Cons by simp
    moreover have "split_slash x = [x]" using Cons.prems by (simp add: split_slash_single)
    ultimately show ?thesis using Cons by simp
  qed
qed simp

lemma split_slash_inj: "split_slash a = split_slash b \<longleftrightarrow> a = b"
  by (metis join_split)

text \<open>A path lies at or beneath another when the other's segments start its own.\<close>

definition at_or_under :: "path \<Rightarrow> path \<Rightarrow> bool" where
  "at_or_under f p \<longleftrightarrow> f = p \<or> has_prefix f (p @ ''/'')"

lemma at_or_under_iff: "at_or_under f p \<longleftrightarrow> (\<exists>rest. split_slash f = split_slash p @ rest)"
proof
  assume "at_or_under f p"
  then show "\<exists>rest. split_slash f = split_slash p @ rest"
    using split_slash_append [of p] by (auto simp: at_or_under_def has_prefix_iff)
next
  assume "\<exists>rest. split_slash f = split_slash p @ rest"
  then obtain rest where r: "split_slash f = split_slash p @ rest" by blast
  show "at_or_under f p"
  proof (cases "rest = []")
    case True
    with r show ?thesis by (simp add: at_or_under_def split_slash_inj)
  next
    case False
    have free: "CHR ''/'' \<notin> set x" if "x \<in> set rest" for x
      using split_slash_free [of x f] that r by simp
    have "split_slash (p @ ''/'' @ join_slash rest) = split_slash f"
      unfolding split_slash_append r by (simp add: split_join [OF False free])
    then have "f = p @ ''/'' @ join_slash rest" by (simp only: split_slash_inj)
    then show ?thesis by (simp add: at_or_under_def has_prefix_iff)
  qed
qed

lemma at_or_under_refl [simp]: "at_or_under p p"
  by (simp add: at_or_under_def)

lemma at_or_under_trans: "at_or_under f p \<Longrightarrow> at_or_under p q \<Longrightarrow> at_or_under f q"
  by (auto simp: at_or_under_iff)

lemma at_or_under_nest: "at_or_under f p \<Longrightarrow> at_or_under f q \<Longrightarrow> at_or_under p q \<or> at_or_under q p"
  unfolding at_or_under_iff by (metis append_eq_append_conv2)

lemma at_or_under_length: "at_or_under f p \<Longrightarrow> length f \<le> length p \<Longrightarrow> f = p"
  by (auto simp: at_or_under_def has_prefix_iff)

lemma at_or_under_antisym: "at_or_under f p \<Longrightarrow> at_or_under p f \<Longrightarrow> f = p"
  by (auto simp: at_or_under_def has_prefix_iff)

section \<open>Cleaning\<close>

definition is_rooted :: "path \<Rightarrow> bool" where
  "is_rooted p = has_prefix p ''/''"

text \<open>One step of \<open>path.Clean\<close> over the segments read so far.\<close>

definition clean_seg :: "bool \<Rightarrow> string list \<Rightarrow> string \<Rightarrow> string list" where
  "clean_seg r acc s =
     (if s = '''' \<or> s = ''.'' then acc
      else if s = ''..'' then
        (if acc \<noteq> [] \<and> List.last acc \<noteq> ''..'' then butlast acc
         else if r then acc else acc @ [''..''])
      else acc @ [s])"

definition clean_segs :: "bool \<Rightarrow> string list \<Rightarrow> string list" where
  "clean_segs r segs = foldl (clean_seg r) [] segs"

definition Clean :: "path \<Rightarrow> path" where
  "Clean p =
     (let segs = clean_segs (is_rooted p) (split_slash p)
      in if is_rooted p then ''/'' @ join_slash segs
         else if segs = [] then ''.'' else join_slash segs)"

definition normal_segs :: "bool \<Rightarrow> string list \<Rightarrow> bool" where
  "normal_segs r segs \<longleftrightarrow>
     (\<forall>s \<in> set segs. s \<noteq> '''' \<and> s \<noteq> ''.'' \<and> CHR ''/'' \<notin> set s) \<and>
     ''..'' \<notin> set (dropWhile (\<lambda>s. s = ''..'') segs) \<and> (r \<longrightarrow> ''..'' \<notin> set segs)"

lemma dropWhile_eq_snoc:
  "x \<notin> set (dropWhile (\<lambda>s. s = x) xs) \<Longrightarrow> y \<noteq> x \<Longrightarrow> x \<notin> set (dropWhile (\<lambda>s. s = x) (xs @ [y]))"
  by (induction xs) auto

lemma dropWhile_eq_butlast:
  "x \<notin> set (dropWhile (\<lambda>s. s = x) xs) \<Longrightarrow> x \<notin> set (dropWhile (\<lambda>s. s = x) (butlast xs))"
  by (induction xs) (auto dest: in_set_butlastD)

lemma dropWhile_eq_all:
  "x \<notin> set (dropWhile (\<lambda>s. s = x) xs) \<Longrightarrow> xs = [] \<or> List.last xs = x \<Longrightarrow> set xs \<subseteq> {x}"
  by (induction xs) (auto split: if_splits)

lemma dropWhile_eq_snoc_same: "set xs \<subseteq> {x} \<Longrightarrow> dropWhile (\<lambda>s. s = x) (xs @ [x]) = []"
  by (induction xs) auto

lemma normal_clean_seg:
  assumes "normal_segs r acc" "CHR ''/'' \<notin> set s"
  shows "normal_segs r (clean_seg r acc s)"
proof -
  have "normal_segs r (butlast acc)"
    using assms(1) by (auto simp: normal_segs_def dropWhile_eq_butlast dest: in_set_butlastD)
  moreover have "normal_segs False (acc @ [''..''])" if "acc = [] \<or> List.last acc = ''..''"
    using assms(1) dropWhile_eq_snoc_same [OF dropWhile_eq_all [OF _ that]] by (auto simp: normal_segs_def)
  moreover have "normal_segs r (acc @ [s])" if "s \<noteq> ''''" "s \<noteq> ''.''" "s \<noteq> ''..''"
    using assms that by (auto simp: normal_segs_def dropWhile_eq_snoc)
  ultimately show ?thesis using assms(1) by (auto simp: clean_seg_def)
qed

lemma normal_foldl_clean:
  "\<forall>s \<in> set segs. CHR ''/'' \<notin> set s \<Longrightarrow> normal_segs r acc \<Longrightarrow> normal_segs r (foldl (clean_seg r) acc segs)"
  by (induction segs arbitrary: acc) (auto simp: normal_clean_seg)

lemma normal_Nil: "normal_segs r []"
  by (simp add: normal_segs_def)

lemma normal_clean_segs: "\<forall>s \<in> set segs. CHR ''/'' \<notin> set s \<Longrightarrow> normal_segs r (clean_segs r segs)"
  unfolding clean_segs_def by (rule normal_foldl_clean [OF _ normal_Nil])

lemma clean_segs_normal:
  assumes "normal_segs r segs"
  shows "clean_segs r segs = segs"
  using assms
proof (induction segs rule: rev_induct)
  case (snoc s segs)
  have n: "normal_segs r segs"
    using snoc.prems dropWhile_eq_butlast [of "''..''" "segs @ [s]"] by (auto simp: normal_segs_def)
  have "clean_seg r segs s = segs @ [s]"
  proof (cases "s = ''..''")
    case True
    have "set (segs @ [s]) \<subseteq> {''..''}"
      using dropWhile_eq_all [of "''..''" "segs @ [s]"] snoc.prems True by (simp add: normal_segs_def)
    then show ?thesis using True snoc.prems by (cases segs rule: rev_cases) (auto simp: clean_seg_def normal_segs_def)
  qed (use snoc.prems in \<open>simp add: clean_seg_def normal_segs_def\<close>)
  with snoc.IH [OF n] show ?case by (simp add: clean_segs_def)
qed (simp add: clean_segs_def)

lemma is_rooted_iff: "is_rooted p \<longleftrightarrow> (\<exists>cs. p = CHR ''/'' # cs)"
  by (cases p) (auto simp: is_rooted_def has_prefix_def)

lemma normal_Clean: "normal_segs r (clean_segs r (split_slash p))"
  by (rule normal_clean_segs) (use split_slash_free in blast)

lemma normal_free: "normal_segs r segs \<Longrightarrow> \<forall>x \<in> set segs. CHR ''/'' \<notin> set x \<and> x \<noteq> ''''"
  by (auto simp: normal_segs_def)

lemma split_join_normal: "normal_segs r segs \<Longrightarrow> segs \<noteq> [] \<Longrightarrow> split_slash (join_slash segs) = segs"
  using normal_free [of r segs] by (intro split_join) auto

lemma join_not_rooted: "normal_segs r segs \<Longrightarrow> \<not> is_rooted (join_slash segs)"
proof
  assume n: "normal_segs r segs" and r: "is_rooted (join_slash segs)"
  then have "segs \<noteq> []" by (auto simp: is_rooted_def has_prefix_def)
  moreover from r have "[] \<in> set (split_slash (join_slash segs))" by (auto simp: is_rooted_iff)
  ultimately show False using split_join_normal [OF n] normal_free [OF n] by auto
qed

lemma split_dot [simp]: "split_slash ''.'' = [''.'']"
  by simp

lemma split_Clean:
  assumes "\<not> is_rooted p" "Clean p \<noteq> ''.''"
  shows "split_slash (Clean p) = clean_segs False (split_slash p)"
  using assms split_join_normal [OF normal_Clean, of False p] by (auto simp: Clean_def Let_def split: if_splits)

lemma Clean_dot_iff: "\<not> is_rooted p \<Longrightarrow> Clean p = ''.'' \<longleftrightarrow> clean_segs False (split_slash p) = []"
proof
  assume r: "\<not> is_rooted p" and "Clean p = ''.''"
  show "clean_segs False (split_slash p) = []"
  proof (rule ccontr)
    assume ne: "clean_segs False (split_slash p) \<noteq> []"
    with r \<open>Clean p = ''.''\<close> have "join_slash (clean_segs False (split_slash p)) = ''.''" by (simp add: Clean_def)
    with split_join_normal [OF normal_Clean ne] have "clean_segs False (split_slash p) = [''.'']" by simp
    with normal_Clean [of False p] show False by (simp add: normal_segs_def)
  qed
qed (simp add: Clean_def)

lemma Clean_rooted: "is_rooted p \<Longrightarrow> is_rooted (Clean p)"
  by (auto simp: Clean_def is_rooted_iff)

lemma Clean_relative: "\<not> is_rooted p \<Longrightarrow> \<not> is_rooted (Clean p)"
  using join_not_rooted [OF normal_Clean, of False p]
  by (auto simp: Clean_def Let_def is_rooted_iff)

text \<open>Cleaning twice is cleaning once.\<close>

lemma clean_segs_idem:
  "clean_segs r (clean_segs r (split_slash p)) = clean_segs r (split_slash p)"
  by (rule clean_segs_normal [OF normal_Clean])

lemma clean_segs_empty: "clean_segs r ([] # segs) = clean_segs r segs"
  by (simp add: clean_segs_def clean_seg_def)

lemma Clean_idem [simp]: "Clean (Clean p) = Clean p"
proof (cases "is_rooted p")
  case True
  let ?s = "clean_segs True (split_slash p)"
  have c: "Clean p = ''/'' @ join_slash ?s" using True by (simp add: Clean_def Let_def)
  have "clean_segs True (split_slash (Clean p)) = ?s"
  proof (cases "?s = []")
    case True
    then show ?thesis by (simp add: c clean_segs_def clean_seg_def)
  next
    case False
    have "split_slash (Clean p) = [] # split_slash (join_slash ?s)" by (simp add: c)
    then show ?thesis by (simp add: split_join_normal [OF normal_Clean False] clean_segs_empty clean_segs_idem)
  qed
  then show ?thesis using Clean_rooted [OF True] c by (simp add: Clean_def Let_def)
next
  case False
  show ?thesis
  proof (cases "Clean p = ''.''")
    case True
    then show ?thesis by (simp add: Clean_def clean_segs_def clean_seg_def is_rooted_def has_prefix_def)
  next
    case ne: False
    have "clean_segs False (split_slash (Clean p)) = clean_segs False (split_slash p)"
      using split_Clean [OF False ne] clean_segs_idem by simp
    then show ?thesis using False Clean_relative [OF False] by (simp add: Clean_def)
  qed
qed

section \<open>Trimming\<close>

text \<open>Unicode's white space, encoded in UTF-8.\<close>

definition white_runes :: "string list" where
  "white_runes =
     map (\<lambda>c. [c]) [CHR 0x20, CHR 0x0D, CHR 0x0C, CHR 0x0B, CHR 0x0A, CHR 0x09] @
     [[CHR 0xC2, CHR 0x85], [CHR 0xC2, CHR 0xA0], [CHR 0xE1, CHR 0x9A, CHR 0x80]] @
     map (\<lambda>c. [CHR 0xE2, CHR 0x80, c])
       [CHR 0xAF, CHR 0xA9, CHR 0xA8, CHR 0x8A, CHR 0x89, CHR 0x88, CHR 0x87, CHR 0x86, CHR 0x85, CHR 0x84, CHR 0x83,
        CHR 0x82, CHR 0x81, CHR 0x80] @
     [[CHR 0xE2, CHR 0x81, CHR 0x9F], [CHR 0xE3, CHR 0x80, CHR 0x80]]"

function trim_lead :: "string list \<Rightarrow> string \<Rightarrow> string" where
  "trim_lead ws s =
     (case List.find (\<lambda>w. w \<noteq> [] \<and> has_prefix s w) ws of
        None \<Rightarrow> s
      | Some w \<Rightarrow> trim_lead ws (drop (length w) s))"
  by pat_completeness auto
termination
proof (relation "measure (\<lambda>(ws, s). length s)", goal_cases)
  case (2 ws s w)
  then have "w \<noteq> []" "has_prefix s w" by (auto simp: find_Some_iff)
  then show ?case by (auto simp: has_prefix_iff)
qed simp

declare trim_lead.simps [simp del]

definition TrimSpace :: "string \<Rightarrow> string" where
  "TrimSpace s = rev (trim_lead (map rev white_runes) (rev (trim_lead white_runes s)))"

section \<open>Relative to a directory\<close>

text \<open>\<open>filepath.Rel\<close> of two absolute paths, which never fails.\<close>

fun rel_segs :: "string list \<Rightarrow> string list \<Rightarrow> string list" where
  "rel_segs (b # bs) (t # ts) =
     (if b = t then rel_segs bs ts else replicate (Suc (length bs)) ''..'' @ t # ts)"
| "rel_segs bs ts = replicate (length bs) ''..'' @ ts"

definition filepath_rel :: "path \<Rightarrow> path \<Rightarrow> path" where
  "filepath_rel base targ =
     (let r = rel_segs (clean_segs True (split_slash base)) (clean_segs True (split_slash targ))
      in if r = [] then ''.'' else join_slash r)"

lemma rel_segs_under: "rel_segs bs (bs @ ts) = ts"
  by (induction bs) (cases ts; simp)+

lemma rel_segs_outside:
  "\<nexists>rest. ts = bs @ rest \<Longrightarrow> \<exists>rest. rel_segs bs ts = ''..'' # rest"
  by (induction bs ts rule: rel_segs.induct) (auto simp: neq_Nil_conv split: if_splits)

end
