(* ===== verification/Declared_Globs.thy ===== *)
theory Declared_Globs
  imports Slash_Path Project_Graph
begin

text \<open>
  What a project declares, rooted at the workspace: \<open>RootGlob\<close>, \<open>AllOutputs\<close> and \<open>DeclaredGlobs\<close>
  of \<open>src/types/project.go\<close> with the file references of \<open>src/types/describe.go\<close>. The three
  reference types have one shape and one record here. A map by target or by writer is a list
  of its entries; every list made from one is sorted, so the order of the map is not seen.
\<close>

section \<open>Rooting a glob\<close>

definition RootGlob :: "path \<Rightarrow> string \<Rightarrow> string" where
  "RootGlob p g = (if p = '''' \<or> p = ''.'' then Clean g else Clean (p @ ''/'' @ g))"

definition glob_root :: "path \<Rightarrow> glob \<Rightarrow> glob" where
  "glob_root p g = \<lparr>gpattern = RootGlob p (gpattern g), gexcept = map (RootGlob p) (gexcept g)\<rparr>"

text \<open>\<open>Compare\<close> orders by pattern, then by exclusions.\<close>

definition glob_key :: "glob \<Rightarrow> string \<times> string list" where
  "glob_key g = (gpattern g, gexcept g)"

definition CompactGlobs :: "glob list \<Rightarrow> glob list" where
  "CompactGlobs gs = compact (sort_key glob_key gs)"

lemma set_CompactGlobs [simp]: "set (CompactGlobs gs) = set gs"
  by (simp add: CompactGlobs_def)

text \<open>\<open>ValidatePattern\<close> of doublestar is a parameter.\<close>

definition note_bad :: "(string \<Rightarrow> bool) \<Rightarrow> string list \<Rightarrow> string \<Rightarrow> string list" where
  "note_bad valid bad pat = (if \<not> valid pat \<and> pat \<notin> set bad then bad @ [pat] else bad)"

definition InvalidGlobs :: "(string \<Rightarrow> bool) \<Rightarrow> glob list \<Rightarrow> string list" where
  "InvalidGlobs valid gs = foldl (\<lambda>bad g. foldl (note_bad valid) bad (gpattern g # gexcept g)) [] gs"

section \<open>What a project declares\<close>

record file_ref =
  fr_project :: path
  fr_glob :: string
  fr_except :: "string list"

definition ref_rooted :: "file_ref \<Rightarrow> path \<Rightarrow> glob" where
  "ref_rooted r p =
     glob_root (if fr_project r = '''' then p else fr_project r) \<lparr>gpattern = fr_glob r, gexcept = fr_except r\<rparr>"

record declared_project = project +
  Sources :: "glob list"
  Outputs :: "glob list"
  TargetInputs :: "(string \<times> file_ref list) list"
  TargetOutputs :: "(string \<times> file_ref list) list"
  TargetUpdates :: "(string \<times> file_ref list) list"
  InboundOutputs :: "(path \<times> glob list) list"

text \<open>A glob written into another tree is counted on the project that owns the tree.\<close>

definition own_output :: "declared_project \<Rightarrow> file_ref \<Rightarrow> glob option" where
  "own_output p r =
     (if fr_project r \<noteq> '''' \<and> fr_project r \<noteq> prj_path p then None
      else Some \<lparr>gpattern = fr_glob r, gexcept = fr_except r\<rparr>)"

definition AllOutputs :: "declared_project \<Rightarrow> glob list" where
  "AllOutputs p =
     CompactGlobs (Outputs p @
       concat (map (\<lambda>(t, rs). List.map_filter (own_output p) rs) (TargetOutputs p)) @
       concat (map snd (InboundOutputs p)))"

definition target_globs :: "path \<Rightarrow> (string \<times> file_ref list) list \<Rightarrow> glob list" where
  "target_globs p m = concat (map (\<lambda>(t, rs). map (\<lambda>r. ref_rooted r p) rs) m)"

definition DeclaredGlobs :: "declared_project \<Rightarrow> glob list" where
  "DeclaredGlobs p =
     CompactGlobs (map (glob_root (prj_path p)) (Sources p) @
       map (glob_root (prj_path p)) (AllOutputs p) @
       target_globs (prj_path p) (TargetInputs p) @ target_globs (prj_path p) (TargetOutputs p) @
       target_globs (prj_path p) (TargetUpdates p))"

section \<open>What rooting means\<close>

text \<open>A rooted glob is clean, so rooting it at the workspace again changes nothing.\<close>

lemma RootGlob_clean: "Clean (RootGlob p g) = RootGlob p g" "RootGlob ''.'' (RootGlob p g) = RootGlob p g"
  by (simp_all add: RootGlob_def)

lemma clean_segs_append:
  "normal_segs r a \<Longrightarrow> ''..'' \<notin> set a \<Longrightarrow> normal_segs r b \<Longrightarrow> ''..'' \<notin> set b \<Longrightarrow> clean_segs r (a @ b) = a @ b"
  by (rule clean_segs_normal) (auto simp: normal_segs_def dest: set_dropWhileD)

text \<open>A project's directory and a glob inside it are joined segment by segment.\<close>

lemma RootGlob_inside:
  assumes p: "\<not> is_rooted p" "Clean p = p" "p \<noteq> ''.''" "''..'' \<notin> set (split_slash p)"
    and g: "\<not> is_rooted g" "Clean g = g" "g \<noteq> ''.''" "''..'' \<notin> set (split_slash g)"
  shows "RootGlob p g = p @ ''/'' @ g"
proof -
  have sp: "clean_segs False (split_slash p) = split_slash p" using split_Clean [of p] p by simp
  have sg: "clean_segs False (split_slash g) = split_slash g" using split_Clean [of g] g by simp
  have n: "normal_segs False (split_slash p)" "normal_segs False (split_slash g)"
    using normal_Clean [of False p] normal_Clean [of False g] sp sg by simp_all
  have "p \<noteq> ''''" using p(2) by (auto simp: Clean_def clean_segs_def clean_seg_def is_rooted_def has_prefix_def)
  moreover from this have "\<not> is_rooted (p @ ''/'' @ g)" using p(1) by (cases p) (auto simp: is_rooted_iff)
  moreover have "split_slash (p @ ''/'' @ g) = split_slash p @ split_slash g" by (rule split_slash_append)
  moreover have "join_slash (split_slash p @ split_slash g) = p @ ''/'' @ g"
    using split_slash_append [of p g] join_split by metis
  ultimately show ?thesis
    using p(3) clean_segs_append [OF n(1) p(4) n(2) g(4)] by (simp add: RootGlob_def Clean_def)
qed

end
