(* ===== verification/Affected_Set.thy ===== *)
theory Affected_Set
  imports Declared_Globs
begin

text \<open>
  Which projects a change affects: \<open>src/project/affected.go\<close>. A file seeds the project that
  owns its directory and every project that declares it from outside; the affected set is
  what depends on a seed. The version control system and the file system are parameters: what
  the driver answered, and which marker paths exist.
\<close>

type_synonym declared_workspace = "(path \<times> declared_project) list"

text \<open>The part of the workspace that the graph reads.\<close>

definition graph_view :: "declared_workspace \<Rightarrow> workspace" where
  "graph_view w = map (\<lambda>(k, p). (k, project.truncate p)) w"

section \<open>The index\<close>

definition dirContains :: "path \<Rightarrow> path \<Rightarrow> bool" where
  "dirContains p f \<longleftrightarrow> p = ''.'' \<or> f = p \<or> has_prefix f (p @ ''/'')"

record project_index =
  iprojects :: "path list"
  ipaths :: "path list"
  iglobs :: "(path \<times> glob list) list"

definition newProjectIndex :: "declared_workspace \<Rightarrow> project_index" where
  "newProjectIndex w =
     \<lparr>iprojects = map fst w,
      ipaths = sort_key (\<lambda>p. - int (length p)) (filter (\<lambda>p. p \<noteq> ''.'') (map fst w)),
      iglobs = map (\<lambda>(k, p). (k, DeclaredGlobs p)) w\<rparr>"

definition projectForFile :: "project_index \<Rightarrow> path \<Rightarrow> path option" where
  "projectForFile ix f =
     (case List.find (\<lambda>p. dirContains p f) (ipaths ix) of
        Some p \<Rightarrow> Some p
      | None \<Rightarrow> if ''.'' \<in> set (iprojects ix) then Some ''.'' else None)"

section \<open>The seeds of one file\<close>

text \<open>One project of the scan: whether the owner declares the file, and who else does, from outside.\<close>

definition seed_scan :: "matcher \<Rightarrow> path \<Rightarrow> path \<Rightarrow> bool \<times> path list \<Rightarrow> path \<times> glob list \<Rightarrow> bool \<times> path list" where
  "seed_scan dm f owner s pg =
     (if \<not> MatchGlobs dm (snd pg) f then s
      else if fst pg = owner then (True, snd s)
      else if dirContains (fst pg) f then s
      else (fst s, snd s @ [fst pg]))"

definition seedsForFile :: "matcher \<Rightarrow> project_index \<Rightarrow> path \<Rightarrow> path list \<times> bool" where
  "seedsForFile dm ix f =
     (let hasOwner = projectForFile ix f \<noteq> None;
          owner = (case projectForFile ix f of Some p \<Rightarrow> p | None \<Rightarrow> '''')
      in case foldl (seed_scan dm f owner) (False, []) (iglobs ix) of
           (declared, others) \<Rightarrow>
             if hasOwner \<and> owner \<noteq> ''.'' then (sort (others @ [owner]), declared)
             else if declared \<or> others \<noteq> [] then (sort (others @ (if declared then [owner] else [])), True)
             else if hasOwner then ([owner], False)
             else ([], False))"

section \<open>Attribution\<close>

fun append_file :: "path \<Rightarrow> path \<Rightarrow> (path \<times> path list) list \<Rightarrow> (path \<times> path list) list" where
  "append_file p f [] = [(p, [f])]"
| "append_file p f ((q, fs) # m) = (if p = q then (q, fs @ [f]) # m else (q, fs) # append_file p f m)"

record attribution =
  seedSet :: "path list"
  filesBySeed :: "(path \<times> path list) list"
  undeclaredBySeed :: "(path \<times> path list) list"

definition attribute_seed :: "bool \<Rightarrow> path \<Rightarrow> attribution \<Rightarrow> path \<Rightarrow> attribution" where
  "attribute_seed declared f a p =
     a\<lparr>seedSet := List.insert p (seedSet a), filesBySeed := append_file p f (filesBySeed a),
       undeclaredBySeed := (if declared then undeclaredBySeed a else append_file p f (undeclaredBySeed a))\<rparr>"

definition attribute_file :: "matcher \<Rightarrow> project_index \<Rightarrow> attribution \<Rightarrow> path \<Rightarrow> attribution" where
  "attribute_file dm ix a f =
     (case seedsForFile dm ix f of (ps, declared) \<Rightarrow> foldl (attribute_seed declared f) a ps)"

text \<open>The seeds in order, their files, and the undeclared ones: nil when there are none.\<close>

definition attribute_changes ::
  "matcher \<Rightarrow> project_index \<Rightarrow> path list \<Rightarrow> path list \<times> (path \<times> path list) list \<times> (path \<times> path list) list option" where
  "attribute_changes dm ix files =
     (let a = foldl (attribute_file dm ix) \<lparr>seedSet = [], filesBySeed = [], undeclaredBySeed = []\<rparr> files
      in (sort (seedSet a), filesBySeed a, if undeclaredBySeed a = [] then None else Some (undeclaredBySeed a)))"

section \<open>The affected set\<close>

record affected_result =
  rbase :: string
  rchanged :: "path list"
  rseed :: "path list"
  rfiles :: "(path \<times> path list) list"
  rundeclared :: "(path \<times> path list) list option"
  raffected :: "path list"

datatype affected_error = AffectedFallback string | VcsError string | GraphError depgraph_error

definition affected_from :: "matcher \<Rightarrow> declared_workspace \<Rightarrow> string \<Rightarrow> path list \<Rightarrow> path list \<Rightarrow> affected_error + affected_result" where
  "affected_from dm w b changed files =
     (case attribute_changes dm (newProjectIndex w) files of (seed, byseed, undeclared) \<Rightarrow>
        case build_project_graph (graph_view w) of
          Inl e \<Rightarrow> Inl (GraphError e)
        | Inr g \<Rightarrow> Inr \<lparr>rbase = b, rchanged = changed, rseed = seed, rfiles = byseed, rundeclared = undeclared,
                       raffected = sort (engine_reverse_closure g seed)\<rparr>)"

text \<open>An absolute path is taken relative to the root; one that then starts with two dots is skipped.\<close>

definition relative_file :: "path \<Rightarrow> path \<Rightarrow> path option" where
  "relative_file root f =
     (if is_rooted f
      then let r = filepath_rel root f in if has_prefix r ''..'' then None else Some r
      else Some f)"

definition AffectedFromPaths :: "matcher \<Rightarrow> path \<Rightarrow> declared_workspace \<Rightarrow> path list \<Rightarrow> affected_error + affected_result" where
  "AffectedFromPaths dm root w paths =
     affected_from dm w ''paths'' paths (List.map_filter (relative_file root) paths)"

section \<open>From a diff\<close>

definition normalizeFiles :: "path list \<Rightarrow> path list" where
  "normalizeFiles files = sort (remdups (filter (\<lambda>f. f \<noteq> '''') (map TrimSpace files)))"

definition workspaceRelative :: "path \<Rightarrow> path list \<Rightarrow> path list" where
  "workspaceRelative prefix files =
     (if prefix = '''' then files
      else List.map_filter (\<lambda>f. if has_prefix f prefix then Some (drop (length prefix) f) else None) files)"

text \<open>The climb from the workspace's root, here the segments above it, innermost first.\<close>

fun root_prefix_from :: "(string list \<Rightarrow> bool) \<Rightarrow> string list \<Rightarrow> string list \<Rightarrow> path" where
  "root_prefix_from marked [] sub = (if marked [] \<and> sub \<noteq> [] then join_slash sub @ ''/'' else '''')"
| "root_prefix_from marked (d # ds) sub =
     (if marked (rev (d # ds)) then (if sub = [] then '''' else join_slash sub @ ''/'')
      else root_prefix_from marked ds (d # sub))"

definition vcsRootPrefix :: "(path \<Rightarrow> bool) \<Rightarrow> string list \<Rightarrow> path \<Rightarrow> path" where
  "vcsRootPrefix exists_at markers root =
     root_prefix_from (\<lambda>dir. list_ex (\<lambda>c. exists_at (Clean (''/'' @ join_slash dir @ ''/'' @ c))) markers)
       (rev (clean_segs True (split_slash root))) []"

text \<open>What version control answers: it does not resolve, is off, fails, or names the changed files.\<close>

datatype vcs_answer =
    Unresolved string
  | VcsDisabled
  | DiffCancelled string
  | DiffFailed string
  | Changed string "string list" "path list"   \<comment> \<open>the base, the driver's markers, the files\<close>

definition Affected :: "matcher \<Rightarrow> (path \<Rightarrow> bool) \<Rightarrow> path \<Rightarrow> declared_workspace \<Rightarrow> vcs_answer \<Rightarrow> affected_error + affected_result" where
  "Affected dm exists_at root w answer =
     (case answer of
        Unresolved e \<Rightarrow> Inl (VcsError e)
      | VcsDisabled \<Rightarrow> Inl (AffectedFallback ''vcs disabled'')
      | DiffCancelled e \<Rightarrow> Inl (VcsError e)
      | DiffFailed e \<Rightarrow> Inl (AffectedFallback e)
      | Changed b markers raw \<Rightarrow>
          let changed = workspaceRelative (vcsRootPrefix exists_at markers root) (normalizeFiles raw)
          in affected_from dm w b changed changed)"

end
