(* ===== verification/Affected_Set_Correct.thy ===== *)
theory Affected_Set_Correct
  imports Affected_Set
begin

text \<open>
  The seeds of a file are those the rules of \<open>seedsForFile\<close> name, whatever the order of the
  project map and of projects with paths of one length; the attribution is the seeds of each
  file; and the affected set is what depends on them.
\<close>

section \<open>The rules\<close>

definition wf_declared :: "declared_workspace \<Rightarrow> bool" where
  "wf_declared w \<longleftrightarrow> distinct (map fst w) \<and> (\<forall>(k, p) \<in> set w. prj_path p = k \<and> k \<noteq> '''')"

definition declares :: "matcher \<Rightarrow> declared_workspace \<Rightarrow> path \<Rightarrow> path \<Rightarrow> bool" where
  "declares dm w p f \<longleftrightarrow> (\<exists>pr. (p, pr) \<in> set w \<and> MatchGlobs dm (DeclaredGlobs pr) f)"

text \<open>The owner is the project whose directory is the innermost that holds the file.\<close>

definition innermost :: "declared_workspace \<Rightarrow> path \<Rightarrow> path \<Rightarrow> bool" where
  "innermost w p f \<longleftrightarrow> p \<in> fst ` set w \<and> dirContains p f \<and>
     (\<forall>q \<in> fst ` set w. dirContains q f \<longrightarrow> dirContains q p)"

definition seeds :: "matcher \<Rightarrow> declared_workspace \<Rightarrow> path \<Rightarrow> path \<Rightarrow> bool" where
  "seeds dm w f p \<longleftrightarrow>
     innermost w p f \<and> (p \<noteq> ''.'' \<or> declares dm w p f \<or> (\<forall>q. declares dm w q f \<longrightarrow> dirContains q f)) \<or>
     declares dm w p f \<and> \<not> dirContains p f"

text \<open>Whether the file moves the key of the project it is attributed to.\<close>

definition keyed :: "matcher \<Rightarrow> declared_workspace \<Rightarrow> path \<Rightarrow> bool" where
  "keyed dm w f \<longleftrightarrow>
     (\<exists>p. innermost w p f \<and> declares dm w p f) \<or>
     (\<forall>p. innermost w p f \<longrightarrow> p = ''.'') \<and> (\<exists>p. declares dm w p f \<and> \<not> dirContains p f)"

lemma dirContains_iff: "dirContains p f \<longleftrightarrow> p = ''.'' \<or> at_or_under f p"
  by (simp add: dirContains_def at_or_under_def)

lemma dirContains_antisym: "dirContains p q \<Longrightarrow> dirContains q p \<Longrightarrow> p = q"
  by (auto simp: dirContains_iff dest: at_or_under_antisym) (auto simp: at_or_under_def has_prefix_iff Cons_eq_append_conv)

lemma innermost_unique: "innermost w p f \<Longrightarrow> innermost w q f \<Longrightarrow> p = q"
  unfolding innermost_def by (blast intro: dirContains_antisym)

section \<open>Finding the owner\<close>

lemma find_sort_key_least:
  assumes "List.find P (sort_key k xs) = Some x"
  shows "x \<in> set xs" "P x" "\<And>y. y \<in> set xs \<Longrightarrow> P y \<Longrightarrow> k x \<le> k y"
proof -
  from assms obtain i where i: "i < length xs" "P (sort_key k xs ! i)" "x = sort_key k xs ! i"
    "\<forall>j < i. \<not> P (sort_key k xs ! j)" by (auto simp: find_Some_iff)
  then show "x \<in> set xs" "P x" using nth_mem [of i "sort_key k xs"] by simp_all
  fix y assume y: "y \<in> set xs" "P y"
  then obtain j where j: "j < length xs" "sort_key k xs ! j = y" by (metis in_set_conv_nth length_sort set_sort)
  with i y have "i \<le> j" by (meson leI)
  moreover have "sorted (map k (sort_key k xs))" by simp
  ultimately have "map k (sort_key k xs) ! i \<le> map k (sort_key k xs) ! j"
    using j(1) by (intro sorted_nth_mono) simp_all
  with i j \<open>i \<le> j\<close> show "k x \<le> k y" by simp
qed

lemma find_sort_key_None: "List.find P (sort_key k xs) = None \<longleftrightarrow> (\<forall>x \<in> set xs. \<not> P x)"
  by (auto simp: find_None_iff)

text \<open>Of the directories that hold a file, the longest lies in all the others.\<close>

lemma longest_is_innermost:
  assumes "dirContains p f" "dirContains q f" "p \<noteq> ''.''" "q = ''.'' \<or> length q \<le> length p"
  shows "dirContains q p"
proof (cases "q = ''.''")
  case False
  with assms have "at_or_under f p" "at_or_under f q" by (simp_all add: dirContains_iff)
  from at_or_under_nest [OF this] show ?thesis
    using at_or_under_length [of q p] assms(4) False by (auto simp: dirContains_iff)
qed (simp add: dirContains_iff)

text \<open>The innermost of a list of directories, as \<open>projectForFile\<close> picks it.\<close>

definition innermost_in :: "path list \<Rightarrow> path \<Rightarrow> path option" where
  "innermost_in ks f =
     (case List.find (\<lambda>p. dirContains p f) (sort_key (\<lambda>p. - int (length p)) (filter (\<lambda>p. p \<noteq> ''.'') ks)) of
        Some p \<Rightarrow> Some p
      | None \<Rightarrow> if ''.'' \<in> set ks then Some ''.'' else None)"

lemma projectForFile_eq: "projectForFile (newProjectIndex w) f = innermost_in (map fst w) f"
  by (simp add: projectForFile_def newProjectIndex_def innermost_in_def)

lemma innermost_in_cases:
  obtains (inner) p where "innermost_in ks f = Some p" "p \<in> set ks" "p \<noteq> ''.''" "dirContains p f"
      "\<And>q. q \<in> set ks \<Longrightarrow> q \<noteq> ''.'' \<Longrightarrow> dirContains q f \<Longrightarrow> length q \<le> length p"
    | (root) "innermost_in ks f = Some ''.''" "''.'' \<in> set ks"
      "\<And>q. q \<in> set ks \<Longrightarrow> q \<noteq> ''.'' \<Longrightarrow> \<not> dirContains q f"
    | (none) "innermost_in ks f = None" "\<And>q. q \<in> set ks \<Longrightarrow> \<not> dirContains q f"
proof (cases "List.find (\<lambda>p. dirContains p f) (sort_key (\<lambda>p. - int (length p)) (filter (\<lambda>p. p \<noteq> ''.'') ks))")
  case None
  then have out: "\<not> dirContains q f" if "q \<in> set ks" "q \<noteq> ''.''" for q
    using that by (simp add: find_sort_key_None)
  show ?thesis
  proof (cases "''.'' \<in> set ks")
    case True
    with None out show ?thesis by (intro root) (simp_all add: innermost_in_def)
  next
    case False
    with None out have "innermost_in ks f = None" by (simp add: innermost_in_def)
    moreover have "\<not> dirContains q f" if "q \<in> set ks" for q using out [OF that] that False by metis
    ultimately show ?thesis by (rule none)
  qed
next
  case (Some p)
  note least = find_sort_key_least [OF Some]
  have "length q \<le> length p" if "q \<in> set ks" "q \<noteq> ''.''" "dirContains q f" for q
    using least(3) [of q] that by simp
  with Some least(1,2) show ?thesis by (intro inner) (simp_all add: innermost_in_def)
qed

lemma innermost_in_Some:
  assumes "innermost_in ks f = Some p"
  shows "p \<in> set ks \<and> dirContains p f \<and> (\<forall>q \<in> set ks. dirContains q f \<longrightarrow> dirContains q p)"
proof (cases rule: innermost_in_cases [of ks f])
  case (inner x)
  with assms have x: "x = p" by simp
  have "dirContains q p" if "q \<in> set ks" "dirContains q f" for q
    using longest_is_innermost [OF inner(4) that(2) inner(3)] inner(5) [OF that(1) _ that(2)] x by metis
  with inner x show ?thesis by blast
next
  case root
  with assms have "p = ''.''" by simp
  with root show ?thesis by (metis dirContains_def)
qed (use assms in simp)

lemma innermost_in_None: "innermost_in ks f = None \<longleftrightarrow> (\<forall>p \<in> set ks. \<not> dirContains p f)"
  using innermost_in_Some [of ks f] by (cases rule: innermost_in_cases [of ks f]) (auto simp: dirContains_def)

lemma projectForFile_innermost: "projectForFile (newProjectIndex w) f = Some p \<Longrightarrow> innermost w p f"
  using innermost_in_Some [of "map fst w" f p] by (simp add: projectForFile_eq innermost_def)

lemma projectForFile_None:
  "projectForFile (newProjectIndex w) f = None \<longleftrightarrow> (\<forall>p \<in> fst ` set w. \<not> dirContains p f)"
  by (simp add: projectForFile_eq innermost_in_None)

lemma projectForFile_iff: "projectForFile (newProjectIndex w) f = Some p \<longleftrightarrow> innermost w p f"
proof
  assume o: "innermost w p f"
  then obtain q where q: "projectForFile (newProjectIndex w) f = Some q"
    using projectForFile_None [of w f] by (auto simp: innermost_def)
  with innermost_unique [OF o projectForFile_innermost [OF q]] show "projectForFile (newProjectIndex w) f = Some p" by simp
qed (rule projectForFile_innermost)

section \<open>The seeds of a file\<close>

definition outside_declarers :: "matcher \<Rightarrow> path \<Rightarrow> path \<Rightarrow> (path \<times> glob list) list \<Rightarrow> path list" where
  "outside_declarers dm f owner gs =
     map fst (filter (\<lambda>pg. MatchGlobs dm (snd pg) f \<and> fst pg \<noteq> owner \<and> \<not> dirContains (fst pg) f) gs)"

lemma seed_scan_fold:
  "foldl (seed_scan dm f owner) (d, rs) gs =
    (d \<or> (\<exists>pg \<in> set gs. MatchGlobs dm (snd pg) f \<and> fst pg = owner), rs @ outside_declarers dm f owner gs)"
  by (induction gs arbitrary: d rs) (auto simp: seed_scan_def outside_declarers_def)

lemma index_declares:
  "(\<exists>pg \<in> set (iglobs (newProjectIndex w)). MatchGlobs dm (snd pg) f \<and> fst pg = p) \<longleftrightarrow> declares dm w p f"
  by (force simp: newProjectIndex_def declares_def)

lemma set_outside_declarers:
  "set (outside_declarers dm f owner (iglobs (newProjectIndex w))) =
    {p. declares dm w p f \<and> p \<noteq> owner \<and> \<not> dirContains p f}"
  by (force simp: newProjectIndex_def declares_def outside_declarers_def)

lemma distinct_outside_declarers:
  "wf_declared w \<Longrightarrow> distinct (outside_declarers dm f owner (iglobs (newProjectIndex w)))"
proof -
  assume "wf_declared w"
  then have "distinct (map fst (iglobs (newProjectIndex w)))"
    by (simp add: wf_declared_def newProjectIndex_def comp_def case_prod_beta)
  then show ?thesis unfolding outside_declarers_def by (rule distinct_map_filter)
qed

lemma declares_known: "declares dm w p f \<Longrightarrow> p \<in> fst ` set w"
  by (force simp: declares_def)

lemma declares_nonempty: "wf_declared w \<Longrightarrow> \<not> declares dm w '''' f"
  by (auto simp: wf_declared_def declares_def)

lemma no_owner: "(\<And>p. \<not> innermost w p f) \<Longrightarrow> p \<in> fst ` set w \<Longrightarrow> \<not> dirContains p f"
  using projectForFile_None [of w f] projectForFile_iff [of w f] by (metis option.exhaust)

lemma seedsForFile_spec:
  assumes wf: "wf_declared w"
  shows "set (fst (seedsForFile dm (newProjectIndex w) f)) = {p. seeds dm w f p}"
    "distinct (fst (seedsForFile dm (newProjectIndex w) f))"
    "snd (seedsForFile dm (newProjectIndex w) f) = keyed dm w f"
proof -
  let ?ix = "newProjectIndex w"
  let ?out = "\<lambda>ow. outside_declarers dm f ow (iglobs ?ix)"
  have scan: "foldl (seed_scan dm f ow) (False, []) (iglobs ?ix) = (declares dm w ow f, ?out ow)" for ow
    using seed_scan_fold [of dm f ow False "[]" "iglobs ?ix"] index_declares [of w dm f ow] by simp
  have all: "set (fst (seedsForFile dm ?ix f)) = {p. seeds dm w f p} \<and>
    distinct (fst (seedsForFile dm ?ix f)) \<and> snd (seedsForFile dm ?ix f) = keyed dm w f"
  proof (cases "projectForFile ?ix f")
    case None
    have noown: "\<not> innermost w p f" for p using None projectForFile_iff [of w f p] by simp
    then have seeds: "seeds dm w f p \<longleftrightarrow> declares dm w p f \<and> \<not> dirContains p f" for p by (simp add: seeds_def)
    have keyed: "keyed dm w f \<longleftrightarrow> (\<exists>p. declares dm w p f \<and> \<not> dirContains p f)" using noown by (simp add: keyed_def)
    have out: "set (?out []) = {p. declares dm w p f \<and> \<not> dirContains p f}"
      using declares_nonempty [OF wf, of dm f] by (auto simp: set_outside_declarers)
    then have ne: "?out [] \<noteq> [] \<longleftrightarrow> keyed dm w f" unfolding keyed by (metis (mono_tags, lifting) empty_Collect_eq set_empty2)
    show ?thesis
      using declares_nonempty [OF wf, of dm f] distinct_outside_declarers [OF wf, of dm f "[]"] out ne
      by (simp add: seedsForFile_def None scan seeds Let_def) (auto simp: seeds)
  next
    case (Some ow)
    then have own: "innermost w p f \<longleftrightarrow> p = ow" for p using projectForFile_iff [of w f] by (metis option.inject)
    have inside: "dirContains ow f" using own [of ow] by (simp add: innermost_def)
    have seeds: "seeds dm w f p \<longleftrightarrow>
        p = ow \<and> (ow \<noteq> ''.'' \<or> declares dm w ow f \<or> (\<forall>q. declares dm w q f \<longrightarrow> dirContains q f)) \<or>
        declares dm w p f \<and> \<not> dirContains p f" for p
      unfolding seeds_def own by blast
    have keyed: "keyed dm w f \<longleftrightarrow> declares dm w ow f \<or> ow = ''.'' \<and> (\<exists>p. declares dm w p f \<and> \<not> dirContains p f)"
      unfolding keyed_def own by blast
    have out: "set (?out ow) = {p. declares dm w p f \<and> \<not> dirContains p f}"
      using inside by (auto simp: set_outside_declarers)
    then have ne: "?out ow \<noteq> [] \<longleftrightarrow> (\<exists>p. declares dm w p f \<and> \<not> dirContains p f)"
      by (metis (mono_tags, lifting) empty_Collect_eq set_empty2)
    have dist: "distinct (?out ow @ [ow])"
      using distinct_outside_declarers [OF wf, of dm f ow] out inside by auto
    show ?thesis
    proof (cases "ow = ''.'' \<and> \<not> declares dm w ow f \<and> ?out ow = []")
      case True
      then show ?thesis using ne out by (simp add: seedsForFile_def Some scan seeds keyed Let_def) blast
    next
      case False
      then show ?thesis using ne out dist inside
        by (simp add: seedsForFile_def Some scan seeds keyed Let_def) (cases "ow = ''.''"; auto)
    qed
  qed
  then show "set (fst (seedsForFile dm ?ix f)) = {p. seeds dm w f p}"
    "distinct (fst (seedsForFile dm ?ix f))" "snd (seedsForFile dm ?ix f) = keyed dm w f" by blast+
qed

section \<open>Attribution\<close>

definition files_of :: "(path \<times> path list) list \<Rightarrow> path \<Rightarrow> path list" where
  "files_of m p = (case map_of m p of None \<Rightarrow> [] | Some fs \<Rightarrow> fs)"

lemma files_of_append: "files_of (append_file p f m) q = files_of m q @ (if q = p then [f] else [])"
  by (induction p f m rule: append_file.induct) (auto simp: files_of_def)

lemma append_file_entries:
  "\<forall>e \<in> set m. snd e \<noteq> [] \<Longrightarrow> \<forall>e \<in> set (append_file p f m). snd e \<noteq> []"
  by (induction p f m rule: append_file.induct) auto

lemma append_file_keys: "fst ` set (append_file p f m) = insert p (fst ` set m)"
  by (induction p f m rule: append_file.induct) auto

lemma attribute_seeds_fold:
  assumes "distinct ps"
  shows "set (seedSet (foldl (attribute_seed d f) a ps)) = set (seedSet a) \<union> set ps"
    "distinct (seedSet a) \<Longrightarrow> distinct (seedSet (foldl (attribute_seed d f) a ps))"
    "files_of (filesBySeed (foldl (attribute_seed d f) a ps)) q = files_of (filesBySeed a) q @ (if q \<in> set ps then [f] else [])"
    "files_of (undeclaredBySeed (foldl (attribute_seed d f) a ps)) q =
      files_of (undeclaredBySeed a) q @ (if q \<in> set ps \<and> \<not> d then [f] else [])"
  using assms by (induction ps arbitrary: a) (auto simp: attribute_seed_def files_of_append)

lemma attribute_fold:
  assumes wf: "wf_declared w"
  shows "set (seedSet (foldl (attribute_file dm (newProjectIndex w)) a fs)) = set (seedSet a) \<union> {p. \<exists>f \<in> set fs. seeds dm w f p}
    \<and> (distinct (seedSet a) \<longrightarrow> distinct (seedSet (foldl (attribute_file dm (newProjectIndex w)) a fs)))
    \<and> files_of (filesBySeed (foldl (attribute_file dm (newProjectIndex w)) a fs)) q =
        files_of (filesBySeed a) q @ filter (\<lambda>f. seeds dm w f q) fs
    \<and> files_of (undeclaredBySeed (foldl (attribute_file dm (newProjectIndex w)) a fs)) q =
        files_of (undeclaredBySeed a) q @ filter (\<lambda>f. seeds dm w f q \<and> \<not> keyed dm w f) fs"
proof (induction fs arbitrary: a)
  case (Cons f fs)
  obtain ps d where s: "seedsForFile dm (newProjectIndex w) f = (ps, d)" by force
  have ps: "set ps = {p. seeds dm w f p}" "distinct ps" "d = keyed dm w f"
    using seedsForFile_spec [OF wf, of dm f] s by simp_all
  have step: "attribute_file dm (newProjectIndex w) a f = foldl (attribute_seed d f) a ps"
    by (simp add: attribute_file_def s)
  note one = attribute_seeds_fold [OF ps(2), where d = d and f = f and a = a]
  show ?case
    using Cons [of "foldl (attribute_seed d f) a ps"] one(1,2) one(3,4) [where q = q] ps
    by (simp add: step) blast
qed simp

lemma attribute_spec:
  assumes wf: "wf_declared w" and a: "attribute_changes dm (newProjectIndex w) fs = (seed, byseed, undeclared)"
  shows "seed = sorted_list_of_set {p. \<exists>f \<in> set fs. seeds dm w f p}"
    "files_of byseed q = filter (\<lambda>f. seeds dm w f q) fs"
    "files_of (case undeclared of None \<Rightarrow> [] | Some m \<Rightarrow> m) q = filter (\<lambda>f. seeds dm w f q \<and> \<not> keyed dm w f) fs"
proof -
  let ?start = "\<lparr>seedSet = [], filesBySeed = [], undeclaredBySeed = []\<rparr>"
  let ?res = "foldl (attribute_file dm (newProjectIndex w)) ?start fs"
  note all = attribute_fold [OF wf, where dm = dm and a = ?start and fs = fs and q = q]
  from a have r: "seed = sort (seedSet ?res)" "byseed = filesBySeed ?res"
    "(case undeclared of None \<Rightarrow> [] | Some m \<Rightarrow> m) = undeclaredBySeed ?res"
    by (auto simp: attribute_changes_def Let_def)
  show "seed = sorted_list_of_set {p. \<exists>f \<in> set fs. seeds dm w f p}"
    by (rule sorted_list_of_setI) (use all in \<open>simp_all add: r(1)\<close>)
  show "files_of byseed q = filter (\<lambda>f. seeds dm w f q) fs" using all by (simp add: r(2) files_of_def)
  show "files_of (case undeclared of None \<Rightarrow> [] | Some m \<Rightarrow> m) q = filter (\<lambda>f. seeds dm w f q \<and> \<not> keyed dm w f) fs"
    using all by (simp add: r(3) files_of_def)
qed

section \<open>The closure\<close>

lemma wf_graph_view: "wf_declared w \<Longrightarrow> wf_workspace (graph_view w)"
  by (force simp: wf_declared_def wf_workspace_def graph_view_def project.defs comp_def case_prod_beta)

lemma seeds_known: "seeds dm w f p \<Longrightarrow> p \<in> fst ` set w"
  by (auto simp: seeds_def innermost_def dest: declares_known)

lemma known_graph_view: "known (graph_view w) = fst ` set w"
  by (force simp: known_def graph_view_def)

lemma workspace_closure:
  assumes "wf_workspace w" "build_project_graph w = Inr g"
  shows "engine_reverse_closure g ss = sorted_list_of_set {p. \<exists>s \<in> set ss \<inter> known w. (p, s) \<in> (depends w)\<^sup>*}"
proof -
  note b = build_project_graph_Inr [OF assms]
  have "{p. \<exists>s \<in> set ss. s \<in> set (pathByID g) \<and> (p, s) \<in> (path_edges g)\<^sup>*} =
      {p. \<exists>s \<in> set ss \<inter> known w. (p, s) \<in> (depends w)\<^sup>*}" using b(2,3) by auto
  then show ?thesis using engine_reverse_closure_eq [OF b(1)] by simp
qed

lemma finite_seeds: "finite {p. \<exists>f \<in> F. seeds dm w f p}"
  by (rule finite_subset [of _ "fst ` set w"]) (auto dest: seeds_known)

lemma affected_finite:
  assumes "wf_declared w"
  shows "finite {p. \<exists>f \<in> F. \<exists>s. seeds dm w f s \<and> (p, s) \<in> (depends (graph_view w))\<^sup>*}"
proof (rule finite_subset)
  show "{p. \<exists>f \<in> F. \<exists>s. seeds dm w f s \<and> (p, s) \<in> (depends (graph_view w))\<^sup>*} \<subseteq> fst ` set w"
  proof
    fix p assume "p \<in> {p. \<exists>f \<in> F. \<exists>s. seeds dm w f s \<and> (p, s) \<in> (depends (graph_view w))\<^sup>*}"
    then obtain f s where s: "seeds dm w f s" "(p, s) \<in> (depends (graph_view w))\<^sup>*" by blast
    from s(2) seeds_known [OF s(1)] show "p \<in> fst ` set w"
      by (cases rule: converse_rtranclE) (auto simp: depends_def graph_view_def intro: rev_image_eqI)
  qed
qed simp

lemma affected_from_spec:
  assumes wf: "wf_declared w" and r: "affected_from dm w b ch fs = Inr r"
  shows "rchanged r = ch" "rseed r = sorted_list_of_set {p. \<exists>f \<in> set fs. seeds dm w f p}"
    "files_of (rfiles r) q = filter (\<lambda>f. seeds dm w f q) fs"
    "files_of (case rundeclared r of None \<Rightarrow> [] | Some m \<Rightarrow> m) q = filter (\<lambda>f. seeds dm w f q \<and> \<not> keyed dm w f) fs"
    "raffected r = sorted_list_of_set {p. \<exists>f \<in> set fs. \<exists>s. seeds dm w f s \<and> (p, s) \<in> (depends (graph_view w))\<^sup>*}"
proof -
  obtain sd by_seed und where a: "attribute_changes dm (newProjectIndex w) fs = (sd, by_seed, und)" by (metis prod_cases3)
  with r obtain g where g: "build_project_graph (graph_view w) = Inr g"
    and fields: "rchanged r = ch" "rseed r = sd" "rfiles r = by_seed" "rundeclared r = und"
      "raffected r = sort (engine_reverse_closure g sd)"
    by (auto simp: affected_from_def split: sum.splits)
  note spec = attribute_spec [OF wf a]
  show "rchanged r = ch" by (rule fields(1))
  show "rseed r = sorted_list_of_set {p. \<exists>f \<in> set fs. seeds dm w f p}" using fields(2) spec(1) by simp
  show "files_of (rfiles r) q = filter (\<lambda>f. seeds dm w f q) fs" using fields(3) spec(2) by simp
  show "files_of (case rundeclared r of None \<Rightarrow> [] | Some m \<Rightarrow> m) q = filter (\<lambda>f. seeds dm w f q \<and> \<not> keyed dm w f) fs"
    using fields(4) spec(3) by simp
  have sd: "set sd = {p. \<exists>f \<in> set fs. seeds dm w f p}" using spec(1) finite_seeds by simp
  then have "set sd \<inter> known (graph_view w) = {p. \<exists>f \<in> set fs. seeds dm w f p}"
    using seeds_known [of dm w] by (auto simp: known_graph_view)
  then have "{p. \<exists>s \<in> set sd \<inter> known (graph_view w). (p, s) \<in> (depends (graph_view w))\<^sup>*} =
      {p. \<exists>f \<in> set fs. \<exists>s. seeds dm w f s \<and> (p, s) \<in> (depends (graph_view w))\<^sup>*}" by blast
  then show "raffected r = sorted_list_of_set {p. \<exists>f \<in> set fs. \<exists>s. seeds dm w f s \<and> (p, s) \<in> (depends (graph_view w))\<^sup>*}"
    using fields(5) workspace_closure [OF wf_graph_view [OF wf] g, of sd]
    by (simp add: sorted_sort_id)
qed

text \<open>The order and the repetitions of the driver's answer do not matter.\<close>

lemma normalizeFiles_set: "set (normalizeFiles raw) = {f \<in> TrimSpace ` set raw. f \<noteq> ''''}"
  by (auto simp: normalizeFiles_def)

lemma owner_exists: "p \<in> fst ` set w \<Longrightarrow> dirContains p f \<Longrightarrow> \<exists>q. innermost w q f"
  using no_owner [of w f p] by blast

text \<open>A project that declares a file seeds with it, or lies around a project that does.\<close>

lemma declarer_seeds:
  assumes "declares dm w p f"
  shows "seeds dm w f p \<or> (\<exists>q. innermost w q f \<and> q \<noteq> p \<and> dirContains p q \<and> seeds dm w f q)"
proof (cases "dirContains p f \<and> \<not> innermost w p f")
  case True
  obtain q where q: "innermost w q f" using owner_exists [OF declares_known [OF assms]] True by blast
  then have pq: "dirContains p q" "q \<noteq> p" using True declares_known [OF assms] by (auto simp: innermost_def)
  then have "q \<noteq> ''.''"
    using True by (auto simp: dirContains_def has_prefix_iff Cons_eq_append_conv)
  with q pq show ?thesis by (auto simp: seeds_def)
next
  case False
  with assms show ?thesis by (auto simp: seeds_def)
qed

end
