(* ===== verification/Declared_Paths.thy ===== *)
theory Declared_Paths
  imports Slash_Path
begin

text \<open>
  The paths a job declares: the claim grammar of \<open>src/types/change.go\<close> (\<open>SplitClaim\<close> and the
  naming of declarations) and how two declared paths relate, \<open>src/types/job.go\<close>
  (\<open>LiteralPrefix\<close>, \<open>PathsIntersect\<close>, \<open>PathWithin\<close> and what they call). \<open>doublestar.Match\<close>
  is the parameter \<open>dm\<close>.
\<close>

section \<open>The claim grammar\<close>

definition hash :: char where
  "hash = CHR 0x23"

text \<open>\<open>strings.ReplaceAll\<close> of the escaped \<open>#\<close>.\<close>

fun unescape_hash :: "string \<Rightarrow> string" where
  "unescape_hash (c # d # cs) =
     (if c = backslash \<and> d = hash then hash # unescape_hash cs else c # unescape_hash (d # cs))"
| "unescape_hash cs = cs"

definition unescapeClaimPath :: "string \<Rightarrow> string" where
  "unescapeClaimPath p = TrimSpace (unescape_hash p)"

text \<open>The loop of \<open>cutClaim\<close>: the entry cut at its first \<open>#\<close> that is not escaped.\<close>

fun claim_cut :: "string \<Rightarrow> string \<Rightarrow> (string \<times> string) option" where
  "claim_cut acc [] = None"
| "claim_cut acc (c # cs) =
     (if c = backslash then (case cs of [] \<Rightarrow> None | d # ds \<Rightarrow> claim_cut (acc @ [c, d]) ds)
      else if c = hash then Some (acc, cs)
      else claim_cut (acc @ [c]) cs)"

definition cutClaim :: "string \<Rightarrow> path \<times> string \<times> bool" where
  "cutClaim entry =
     (let e = TrimSpace entry
      in if has_prefix e ''./'' \<and> hash \<in> set (drop 2 e) then (drop 2 e, '''', False)
         else case claim_cut [] e of
                Some (a, b) \<Rightarrow> (unescapeClaimPath a, TrimSpace b, True)
              | None \<Rightarrow> (unescapeClaimPath e, '''', False))"

definition SplitClaim :: "string \<Rightarrow> path \<times> string" where
  "SplitClaim entry = (case cutClaim entry of (p, d, found) \<Rightarrow> (p, d))"

definition HasClaim :: "string \<Rightarrow> bool" where
  "HasClaim entry = (case cutClaim entry of (p, d, found) \<Rightarrow> found)"

section \<open>Naming a declaration\<close>

definition Preamble :: string where
  "Preamble = ''(preamble)''"

definition identifierByte :: "char \<Rightarrow> bool" where
  "identifierByte c \<longleftrightarrow>
     c = CHR 0x5F \<or> c = CHR 0x24 \<or> CHR 0x80 \<le> c \<or>
     list_ex (\<lambda>(lo, hi). lo \<le> c \<and> c \<le> hi)
       [(CHR ''0'', CHR ''9''), (CHR ''a'', CHR ''z''), (CHR ''A'', CHR ''Z'')]"

text \<open>An occurrence of the claim whose ends split no identifier, each position after \<open>prev\<close> tried in turn.\<close>

fun whole_run :: "char option \<Rightarrow> string \<Rightarrow> string \<Rightarrow> bool" where
  "whole_run prev wanted [] \<longleftrightarrow> False"
| "whole_run prev wanted (c # cs) \<longleftrightarrow>
     has_prefix (c # cs) wanted \<and>
       (case prev of None \<Rightarrow> True | Some b \<Rightarrow> \<not> identifierByte b \<or> \<not> identifierByte (hd wanted)) \<and>
       (case drop (length wanted) (c # cs) of
          [] \<Rightarrow> True | b # bs \<Rightarrow> \<not> identifierByte b \<or> \<not> identifierByte (List.last wanted)) \<or>
     whole_run (Some c) wanted cs"

definition NamesDeclaration :: "string \<Rightarrow> string \<Rightarrow> bool" where
  "NamesDeclaration claimed0 declaration0 =
     (let wanted = TrimSpace claimed0; decl = TrimSpace declaration0
      in if wanted = '''' \<or> decl = '''' then False
         else if wanted = decl then True
         else if decl = Preamble then False
         else whole_run None wanted decl)"

definition contains_string :: "string \<Rightarrow> string \<Rightarrow> bool" where
  "contains_string s x = list_ex (\<lambda>i. has_prefix (drop i s) x) [0..<Suc (length s)]"

definition isKeyPath :: "string \<Rightarrow> bool" where
  "isKeyPath s \<longleftrightarrow> s \<noteq> '''' \<and> s \<noteq> Preamble \<and> \<not> list_ex (\<lambda>c. c = CHR 0x20 \<or> c = CHR 0x09 \<or> c = hash) s"

definition NamesClaimedDeclaration :: "string \<Rightarrow> string \<Rightarrow> bool" where
  "NamesClaimedDeclaration claimed0 declaration0 =
     (let wanted = TrimSpace claimed0; decl = TrimSpace declaration0
      in if \<not> isKeyPath wanted \<or> \<not> isKeyPath decl then NamesDeclaration wanted decl
         else if wanted = decl then True
         else has_prefix decl (wanted @ ''.'') \<or> has_suffix decl (''.'' @ wanted) \<or>
              contains_string decl (''.'' @ wanted @ ''.''))"

definition NamedDeclarations :: "string \<Rightarrow> string list \<Rightarrow> string list" where
  "NamedDeclarations claimed0 ds = filter (NamesClaimedDeclaration claimed0) ds"

definition ClaimsMap :: "string \<Rightarrow> string list \<Rightarrow> bool" where
  "ClaimsMap claimed0 named =
     (let wanted = TrimSpace claimed0
      in isKeyPath wanted \<and> named \<noteq> [] \<and>
         list_all (\<lambda>d. TrimSpace d = wanted \<or> has_prefix (TrimSpace d) (wanted @ ''.'')) named)"

section \<open>Prefixes and globs\<close>

definition LiteralPrefix :: "string \<Rightarrow> path" where
  "LiteralPrefix p =
     (let q = Clean (fst (SplitClaim p))
      in if q = ''.'' \<or> q = ''/'' then ''''
         else join_slash (takeWhile (\<lambda>s. \<not> IsGlobMeta s) (split_slash q)))"

definition brace_step :: "int \<times> bool \<Rightarrow> char \<Rightarrow> int \<times> bool" where
  "brace_step s c =
     (case s of (depth, slash) \<Rightarrow>
        if c = CHR 0x7B then (depth + 1, slash)
        else if c = CHR 0x7D then (depth - 1, slash)
        else if c = CHR ''/'' \<and> depth > 0 then (depth, True)
        else s)"

definition unsplittableGlob :: "string \<Rightarrow> bool" where
  "unsplittableGlob g = (case foldl brace_step (0, False) g of (depth, slash) \<Rightarrow> slash \<or> depth \<noteq> 0)"

fun reach_segs :: "matcher \<Rightarrow> string list \<Rightarrow> string list \<Rightarrow> bool" where
  "reach_segs dm [] ls = True"
| "reach_segs dm (g # gs) ls =
     (if contains_string g ''**'' then True
      else case ls of
             [] \<Rightarrow> True
           | l # ls' \<Rightarrow> (case dm g l of Some False \<Rightarrow> False | _ \<Rightarrow> reach_segs dm gs ls'))"

definition globReaches :: "matcher \<Rightarrow> string \<Rightarrow> path \<Rightarrow> bool" where
  "globReaches dm g lit = (unsplittableGlob g \<or> reach_segs dm (split_slash g) (split_slash lit))"

definition entry_file :: "string \<Rightarrow> path" where
  "entry_file e = Clean (fst (SplitClaim e))"

definition literalAgainstGlob :: "string \<Rightarrow> string \<Rightarrow> (path \<times> string) option" where
  "literalAgainstGlob a b =
     (let fa = entry_file a; fb = entry_file b
      in if IsGlobMeta fa \<and> \<not> IsGlobMeta fb \<and> fb \<noteq> ''.'' then Some (fb, fa)
         else if IsGlobMeta fb \<and> \<not> IsGlobMeta fa \<and> fa \<noteq> ''.'' then Some (fa, fb)
         else None)"

section \<open>Common ground\<close>

definition pathsShareGround :: "matcher \<Rightarrow> string \<Rightarrow> string \<Rightarrow> bool" where
  "pathsShareGround dm a b =
     (if TrimSpace a = '''' \<or> TrimSpace b = '''' then False
      else case literalAgainstGlob a b of
             Some (lit, g) \<Rightarrow> globReaches dm g lit
           | None \<Rightarrow>
               let pa = LiteralPrefix a; pb = LiteralPrefix b
               in pa = '''' \<or> pb = '''' \<or> pa = pb \<or> has_prefix pa (pb @ ''/'') \<or> has_prefix pb (pa @ ''/''))"

definition PathsIntersect :: "matcher \<Rightarrow> string \<Rightarrow> string \<Rightarrow> bool" where
  "PathsIntersect dm a b =
     (if \<not> pathsShareGround dm a b then False
      else let da = snd (SplitClaim a); db = snd (SplitClaim b)
           in da = '''' \<or> db = '''' \<or> da = db)"

text \<open>The pairs of two jobs' paths that meet, each side deduplicated in order.\<close>

definition collect_pair :: "matcher \<Rightarrow> string list \<times> string list \<Rightarrow> string \<times> string \<Rightarrow> string list \<times> string list" where
  "collect_pair dm s p =
     (if \<not> pathsShareGround dm (fst p) (snd p) then s
      else (if fst p \<in> set (fst s) then fst s else fst s @ [fst p],
            if snd p \<in> set (snd s) then snd s else snd s @ [snd p]))"

definition intersectingPaths :: "matcher \<Rightarrow> string list \<Rightarrow> string list \<Rightarrow> string list \<times> string list" where
  "intersectingPaths dm a b = foldl (collect_pair dm) ([], []) (List.product a b)"

datatype claims_verdict = NoClaims | ClaimsShared | ClaimsDisjoint

definition claimsVerdict :: "matcher \<Rightarrow> string list \<Rightarrow> string list \<Rightarrow> claims_verdict" where
  "claimsVerdict dm pathsA pathsB =
     (let claimed = (\<lambda>p. snd (SplitClaim p) \<noteq> '''')
      in if \<not> list_ex claimed pathsA \<and> \<not> list_ex claimed pathsB then NoClaims
         else if list_ex (\<lambda>pa. list_ex (PathsIntersect dm pa) pathsB) pathsA then ClaimsShared
         else ClaimsDisjoint)"

section \<open>One path within another\<close>

definition underDir :: "path \<Rightarrow> path \<Rightarrow> bool" where
  "underDir p dir \<longleftrightarrow> dir = '''' \<or> p = dir \<or> has_prefix p (dir @ ''/'')"

definition trim_prefix :: "string \<Rightarrow> string \<Rightarrow> string" where
  "trim_prefix s p = (if has_prefix s p then drop (length p) s else s)"

definition starStarShape :: "string \<Rightarrow> (path \<times> string) option" where
  "starStarShape g =
     (if unsplittableGlob g then None
      else
        let prefix = LiteralPrefix g;
            segs = split_slash (trim_prefix (trim_prefix g prefix) ''/'')
        in if hd segs \<noteq> ''**'' then None
           else if length segs = 1 then Some (prefix, '''')
           else if length segs = 2 \<and> \<not> contains_string (segs ! 1) ''**'' then Some (prefix, segs ! 1)
           else None)"

definition segmentWithin :: "string \<Rightarrow> string \<Rightarrow> bool" where
  "segmentWithin inner outer =
     (if inner = ''**'' \<or> \<not> has_prefix outer ''*'' \<or> IsGlobMeta (drop 1 outer) then False
      else if drop 1 outer = '''' then True
      else literalSuffix inner \<noteq> '''' \<and> has_suffix (literalSuffix inner) (drop 1 outer))"

text \<open>\<open>path.Dir\<close> and \<open>path.Base\<close>.\<close>

definition path_dir :: "path \<Rightarrow> path" where
  "path_dir p =
     (let segs = split_slash p in Clean (if length segs = 1 then '''' else join_slash (butlast segs) @ ''/''))"

definition path_last :: "path \<Rightarrow> path" where
  "path_last p =
     (if p = '''' then ''.''
      else let b = List.last (split_slash (rev (dropWhile (\<lambda>c. c = CHR ''/'') (rev p))))
           in if b = '''' then ''/'' else b)"

definition PathWithin :: "matcher \<Rightarrow> string \<Rightarrow> string \<Rightarrow> bool" where
  "PathWithin dm inner outer =
     (case SplitClaim inner of (innerFile0, innerDecl) \<Rightarrow> case SplitClaim outer of (outerFile0, outerDecl) \<Rightarrow>
        if innerFile0 = '''' \<or> outerFile0 = '''' then False
        else
          let innerFile = Clean innerFile0; outerFile = Clean outerFile0; innerGlob = IsGlobMeta innerFile
          in if outerDecl \<noteq> '''' then innerDecl = outerDecl \<and> innerFile = outerFile \<and> \<not> innerGlob
             else if innerFile = outerFile \<or> outerFile = ''.'' then True
             else if \<not> IsGlobMeta outerFile then underDir (LiteralPrefix innerFile) outerFile
             else if \<not> innerGlob then dm outerFile innerFile = Some True
             else case starStarShape outerFile of
                    None \<Rightarrow> False
                  | Some (prefix, last_seg) \<Rightarrow>
                      if \<not> underDir (LiteralPrefix (path_dir innerFile)) prefix then False
                      else
                        let base = path_last innerFile
                        in if last_seg = '''' \<or> base = last_seg then True
                           else if IsGlobMeta base then segmentWithin base last_seg
                           else dm last_seg base = Some True)"

end
