(* ===== verification/Focus.thy ===== *)
theory Focus
  imports Affected_Set_Correct Declared_Paths
begin

text \<open>
  What a session may read: \<open>src/project/focus.go\<close>. The file system is a parameter, the spelling
  that \<open>EvalSymlinks\<close> resolves a path to. \<open>SharedRoots\<close>, a variable nothing sets, is empty.
\<close>

section \<open>Owners\<close>

text \<open>Longest first, the root project last.\<close>

definition ownerPaths :: "declared_workspace \<Rightarrow> path list" where
  "ownerPaths w = sort_key (\<lambda>p. (p = ''.'', - int (length p), p)) (map (prj_path \<circ> snd) w)"

definition cleanRel :: "path \<Rightarrow> path" where
  "cleanRel rel = (if TrimSpace rel = '''' then '''' else Clean (TrimSpace rel))"

record focus =
  focus_seeds :: "path list"
  focus_projects :: "path list"
  focus_owners :: "path list"

definition focus_owner :: "path list \<Rightarrow> path \<Rightarrow> path" where
  "focus_owner owners rel =
     (case List.find (\<lambda>p. p = ''.'' \<or> cleanRel rel = p \<or> has_prefix (cleanRel rel) (p @ ''/'')) owners of
        Some p \<Rightarrow> p
      | None \<Rightarrow> '''')"

section \<open>The closure\<close>

text \<open>The walk of \<open>closure\<close>, its stack with the top first.\<close>

definition project_deps :: "declared_workspace \<Rightarrow> path \<Rightarrow> path list" where
  "project_deps w p = (case map_of w p of None \<Rightarrow> [] | Some pr \<Rightarrow> DependsOn pr)"

definition may_reach :: "declared_workspace \<Rightarrow> path list \<Rightarrow> path set" where
  "may_reach w stack = set stack \<union> (\<Union>(k, p) \<in> set w. set (DependsOn p))"

lemma finite_may_reach [simp]: "finite (may_reach w stack)"
  by (auto simp: may_reach_def)

lemma project_deps_reach: "set (project_deps w p) \<subseteq> may_reach w stack"
proof (cases "map_of w p")
  case (Some pr)
  then have "(p, pr) \<in> set w" by (rule map_of_SomeD)
  with Some show ?thesis by (force simp: project_deps_def may_reach_def)
qed (simp add: project_deps_def)

function focus_walk :: "declared_workspace \<Rightarrow> path list \<Rightarrow> path list \<Rightarrow> path list" where
  "focus_walk w seen [] = seen"
| "focus_walk w seen (p # stack) =
     (if p \<in> set seen then focus_walk w seen stack
      else focus_walk w (p # seen) (rev (project_deps w p) @ stack))"
  by pat_completeness auto
termination
proof (relation "measures [\<lambda>(w, seen, stack). card (may_reach w stack - set seen), \<lambda>(w, seen, stack). length stack]", goal_cases)
  case (2 w seen p stack)
  have "may_reach w stack - set seen \<subseteq> may_reach w (p # stack) - set seen" by (auto simp: may_reach_def)
  then have "card (may_reach w stack - set seen) \<le> card (may_reach w (p # stack) - set seen)"
    by (intro card_mono) simp_all
  then show ?case by auto
next
  case (3 w seen p stack)
  have "may_reach w (rev (project_deps w p) @ stack) - set (p # seen) \<subset> may_reach w (p # stack) - set seen"
    using project_deps_reach [of w p "p # stack"] 3 by (auto simp: may_reach_def)
  then have "card (may_reach w (rev (project_deps w p) @ stack) - set (p # seen)) < card (may_reach w (p # stack) - set seen)"
    by (intro psubset_card_mono) simp_all
  then show ?case by simp
qed simp

text \<open>The projects nested in a seed are part of it, unless the seed is the root.\<close>

definition nested_in :: "path list \<Rightarrow> path list \<Rightarrow> path list" where
  "nested_in owners ss = concat (map (\<lambda>s. if s = ''.'' then [] else filter (\<lambda>p. has_prefix p (s @ ''/'')) owners) ss)"

definition focus_closure :: "declared_workspace \<Rightarrow> path list \<Rightarrow> path list \<Rightarrow> path list" where
  "focus_closure w owners ss = sort (focus_walk w [] (rev (ss @ nested_in owners ss)))"

section \<open>The focus of a place\<close>

definition workspaceRel :: "(path \<Rightarrow> path option) \<Rightarrow> path \<Rightarrow> path \<Rightarrow> path option" where
  "workspaceRel resolve root p =
     (if root = '''' \<or> TrimSpace p = '''' then None
      else
        let abs0 = (if is_rooted p then p else Clean (root @ ''/'' @ p));
            abs1 = (case resolve abs0 of Some r \<Rightarrow> r | None \<Rightarrow> abs0);
            rel = filepath_rel root (Clean abs1)
        in if rel = ''..'' \<or> has_prefix rel ''../'' then None else Some rel)"

definition FocusAt :: "(path \<Rightarrow> path option) \<Rightarrow> path \<Rightarrow> declared_workspace \<Rightarrow> path \<Rightarrow> focus option" where
  "FocusAt resolve root w dir =
     (case workspaceRel resolve root dir of
        None \<Rightarrow> None
      | Some rel \<Rightarrow>
          let owners = ownerPaths w; s = focus_owner owners rel
          in if s = '''' then None
             else Some \<lparr>focus_seeds = [s], focus_projects = focus_closure w owners [s], focus_owners = owners\<rparr>)"

definition lease_seed :: "(path \<Rightarrow> path option) \<Rightarrow> path \<Rightarrow> path list \<Rightarrow> path list \<Rightarrow> string \<Rightarrow> path list" where
  "lease_seed resolve root owners ss p =
     (case workspaceRel resolve root (LiteralPrefix p) of
        None \<Rightarrow> ss
      | Some rel \<Rightarrow>
          let ow = focus_owner owners rel
          in if ow \<noteq> '''' \<and> ow \<notin> set ss then ss @ [ow] else ss)"

definition FocusForPaths :: "(path \<Rightarrow> path option) \<Rightarrow> path \<Rightarrow> declared_workspace \<Rightarrow> string list \<Rightarrow> focus option" where
  "FocusForPaths resolve root w paths =
     (let owners = ownerPaths w; ss = foldl (lease_seed resolve root owners) [] paths
      in if ss = [] then None
         else Some \<lparr>focus_seeds = sort ss, focus_projects = focus_closure w owners (sort ss), focus_owners = owners\<rparr>)"

definition focus_contains :: "focus \<Rightarrow> path \<Rightarrow> bool" where
  "focus_contains fo rel0 =
     (let rel = cleanRel rel0
      in if rel = '''' \<or> rel = ''.'' then True
         else if CHR ''/'' \<notin> set rel then True
         else let ow = focus_owner (focus_owners fo) rel
              in ow = '''' \<or> ow = ''.'' \<or> ow \<in> set (focus_projects fo))"

section \<open>What the walk reaches\<close>

lemma focus_walk_spec:
  assumes "\<forall>p \<in> set seen. set (project_deps w p) \<subseteq> set seen \<union> set stack" "distinct seen"
  shows "distinct (focus_walk w seen stack) \<and> set seen \<union> set stack \<subseteq> set (focus_walk w seen stack) \<and>
    (\<forall>p \<in> set (focus_walk w seen stack). set (project_deps w p) \<subseteq> set (focus_walk w seen stack)) \<and>
    (\<forall>p \<in> set (focus_walk w seen stack). p \<in> set seen \<or>
       (\<exists>s \<in> set stack. (s, p) \<in> {(a, b). b \<in> set (project_deps w a)}\<^sup>*))"
  using assms
proof (induction w seen stack rule: focus_walk.induct)
  case (2 w seen p stack)
  let ?E = "{(a, b). b \<in> set (project_deps w a)}"
  show ?case
  proof (cases "p \<in> set seen")
    case True
    with "2.prems" have "\<forall>q \<in> set seen. set (project_deps w q) \<subseteq> set seen \<union> set stack" by auto
    from "2.IH"(1) [OF True this "2.prems"(2)] True show ?thesis by auto
  next
    case False
    let ?seen = "p # seen" and ?stack = "rev (project_deps w p) @ stack"
    have "\<forall>q \<in> set ?seen. set (project_deps w q) \<subseteq> set ?seen \<union> set ?stack" using "2.prems"(1) by auto
    from "2.IH"(2) [OF False this] "2.prems"(2) False
    have ih: "distinct (focus_walk w ?seen ?stack)" "set ?seen \<union> set ?stack \<subseteq> set (focus_walk w ?seen ?stack)"
      "\<forall>q \<in> set (focus_walk w ?seen ?stack). set (project_deps w q) \<subseteq> set (focus_walk w ?seen ?stack)"
      "\<forall>q \<in> set (focus_walk w ?seen ?stack). q \<in> set ?seen \<or> (\<exists>s \<in> set ?stack. (s, q) \<in> ?E\<^sup>*)"
      by simp_all
    have "q \<in> set seen \<or> (\<exists>s \<in> set (p # stack). (s, q) \<in> ?E\<^sup>*)" if "q \<in> set (focus_walk w ?seen ?stack)" for q
      using ih(4) that by (auto intro: converse_rtrancl_into_rtrancl)
    with ih False show ?thesis by auto
  qed
qed auto

lemma focus_walk_start:
  "distinct (focus_walk w [] stack)"
  "set (focus_walk w [] stack) = {q. \<exists>s \<in> set stack. (s, q) \<in> {(a, b). b \<in> set (project_deps w a)}\<^sup>*}"
proof -
  note all = focus_walk_spec [of "[]" w stack]
  then show "distinct (focus_walk w [] stack)" by simp
  have "q \<in> set (focus_walk w [] stack)" if "(s, q) \<in> {(a, b). b \<in> set (project_deps w a)}\<^sup>*" "s \<in> set stack" for s q
    using that by (induction rule: rtrancl_induct) (use all in auto)
  with all show "set (focus_walk w [] stack) = {q. \<exists>s \<in> set stack. (s, q) \<in> {(a, b). b \<in> set (project_deps w a)}\<^sup>*}"
    by auto
qed

section \<open>The focus and the graph\<close>

lemma project_deps_depends:
  assumes "wf_declared w"
  shows "{(a, b). b \<in> set (project_deps w a)} = depends (graph_view w)"
proof -
  have dist: "distinct (map fst w)" using assms by (simp add: wf_declared_def)
  have "b \<in> set (project_deps w a) \<longleftrightarrow> (\<exists>pr. (a, pr) \<in> set w \<and> b \<in> set (DependsOn pr))" for a b
  proof (cases "map_of w a")
    case None
    then have "(a, pr) \<notin> set w" for pr by (force simp: map_of_eq_None_iff)
    with None show ?thesis by (simp add: project_deps_def)
  next
    case (Some pr)
    then have "(a, q) \<in> set w \<longleftrightarrow> q = pr" for q using map_of_is_SomeI [OF dist] map_of_SomeD by fastforce
    with Some show ?thesis by (simp add: project_deps_def)
  qed
  then show ?thesis by (force simp: depends_def graph_view_def project.defs)
qed

lemma focus_closure_spec:
  assumes "wf_declared w"
  shows "focus_closure w owners ss =
    sorted_list_of_set {q. \<exists>s \<in> set ss \<union> set (nested_in owners ss). (s, q) \<in> (depends (graph_view w))\<^sup>*}"
proof -
  let ?walk = "focus_walk w [] (rev (ss @ nested_in owners ss))"
  have "set ?walk = {q. \<exists>s \<in> set ss \<union> set (nested_in owners ss). (s, q) \<in> (depends (graph_view w))\<^sup>*}"
    using focus_walk_start(2) [of w "rev (ss @ nested_in owners ss)"]
    by (simp add: project_deps_depends [OF assms] del: rev_append)
  then show ?thesis
    unfolding focus_closure_def by (intro sorted_list_of_setI) (simp_all add: focus_walk_start(1) del: rev_append)
qed

lemma finite_focus: "finite {q. \<exists>s \<in> set ss. (s, q) \<in> {(a, b). b \<in> set (project_deps w a)}\<^sup>*}"
  using focus_walk_start(2) [of w ss] by (metis List.finite_set)

text \<open>The focus runs down the edges that the affected set runs up.\<close>

lemma focus_mirror:
  assumes wf: "wf_declared w" and g: "build_project_graph (graph_view w) = Inr g" and q: "q \<in> fst ` set w"
  shows "q \<in> set (focus_closure w owners ss) \<longleftrightarrow>
    (\<exists>s \<in> set ss \<union> set (nested_in owners ss). s \<in> set (engine_reverse_closure g [q]))"
proof -
  have "finite {p. \<exists>s \<in> set [q] \<inter> known (graph_view w). (p, s) \<in> (depends (graph_view w))\<^sup>*}"
  proof (rule finite_subset)
    show "{p. \<exists>s \<in> set [q] \<inter> known (graph_view w). (p, s) \<in> (depends (graph_view w))\<^sup>*} \<subseteq> insert q (fst ` set w)"
      by (auto elim: converse_rtranclE simp: depends_def graph_view_def image_iff) (force elim: converse_rtranclE simp: depends_def graph_view_def image_iff)
  qed simp
  then have "p \<in> set (engine_reverse_closure g [q]) \<longleftrightarrow> (p, q) \<in> (depends (graph_view w))\<^sup>*" for p
    using workspace_closure [OF wf_graph_view [OF wf] g, of "[q]"] q by (simp add: known_graph_view)
  moreover have "finite {q. \<exists>s \<in> set ss \<union> set (nested_in owners ss). (s, q) \<in> (depends (graph_view w))\<^sup>*}"
    using finite_focus [of "ss @ nested_in owners ss" w] by (simp add: project_deps_depends [OF wf])
  ultimately show ?thesis by (simp add: focus_closure_spec [OF wf])
qed

section \<open>One owner\<close>

lemma ownerPaths_eq: "wf_declared w \<Longrightarrow> ownerPaths w = sort_key (\<lambda>p. (p = ''.'', - int (length p), p)) (map fst w)"
proof -
  assume "wf_declared w"
  then have "map (prj_path \<circ> snd) w = map fst w" by (auto simp: wf_declared_def)
  then show ?thesis by (simp only: ownerPaths_def)
qed

lemma owners_agree:
  assumes wf: "wf_declared w" and clean: "cleanRel f = f"
  shows "focus_owner (ownerPaths w) f = (case projectForFile (newProjectIndex w) f of Some p \<Rightarrow> p | None \<Rightarrow> '''')"
proof -
  let ?key = "\<lambda>p :: path. (p = ''.'', - int (length p), p)"
  have holds: "(\<lambda>p. p = ''.'' \<or> cleanRel f = p \<or> has_prefix (cleanRel f) (p @ ''/'')) = (\<lambda>p. dirContains p f)"
    by (auto simp: clean dirContains_def)
  show ?thesis
  proof (cases "List.find (\<lambda>p. dirContains p f) (sort_key ?key (map fst w))")
    case None
    then have "\<forall>p \<in> fst ` set w. \<not> dirContains p f" by (auto simp: find_sort_key_None)
    with None show ?thesis using projectForFile_None [of w f] by (simp add: focus_owner_def holds ownerPaths_eq [OF wf])
  next
    case (Some p)
    note least = find_sort_key_least [OF Some]
    have "dirContains q p" if "q \<in> fst ` set w" "dirContains q f" for q
    proof (cases "p = ''.''")
      case True
      with least(3) [of q] that show ?thesis by (auto simp: less_eq_prod_def dirContains_def)
    next
      case False
      with least(3) [of q] that have "q = ''.'' \<or> length q \<le> length p" by (auto simp: less_eq_prod_def)
      with longest_is_innermost [OF least(2) that(2) False] show ?thesis by blast
    qed
    then have "innermost w p f" using least(1,2) by (auto simp: innermost_def)
    with Some show ?thesis using projectForFile_iff [of w f p] by (simp add: focus_owner_def holds ownerPaths_eq [OF wf])
  qed
qed

end
