(* ===== verification/Declared_Paths_Correct.thy ===== *)
theory Declared_Paths_Correct
  imports Declared_Paths
begin

text \<open>
  What an entry names, and that the two questions asked of a pair err on the side they mean to:
  a file both entries name is reported as common ground, and an entry within another names no
  file that the other does not. Where the second fails, the last section says how.
\<close>

section \<open>Matching segment by segment\<close>

text \<open>
  What is documented of doublestar: a pattern whose braces and classes stay inside a segment
  matches segment by segment, \<open>**\<close> taking any number of them; a literal matches itself; what
  follows the last metacharacter of a segment ends what the segment matches; and \<open>*\<close> before a
  literal takes every name with that end.
\<close>

fun segs_match :: "(string \<Rightarrow> string \<Rightarrow> bool) \<Rightarrow> string list \<Rightarrow> string list \<Rightarrow> bool" where
  "segs_match m [] xs = (xs = [])"
| "segs_match m (g # gs) [] = (g = ''**'' \<and> segs_match m gs [])"
| "segs_match m (g # gs) (x # xs) =
     (if g = ''**'' then segs_match m gs (x # xs) \<or> segs_match m (g # gs) xs
      else m g x \<and> segs_match m gs xs)"

fun classes_closed :: "string \<Rightarrow> bool" where
  "classes_closed [] = True"
| "classes_closed (c # cs) = ((c = CHR 0x5B \<longrightarrow> CHR 0x5D \<in> set cs) \<and> classes_closed cs)"

definition plain_segment :: "string \<Rightarrow> bool" where
  "plain_segment s \<longleftrightarrow>
     (s = ''**'' \<or> \<not> contains_string s ''**'') \<and> \<not> unsplittableGlob s \<and> classes_closed s \<and> backslash \<notin> set s"

definition by_segments :: "string \<Rightarrow> bool" where
  "by_segments g \<longleftrightarrow> \<not> unsplittableGlob g \<and> list_all plain_segment (split_slash g)"

section \<open>What an entry names\<close>

definition file_named :: "matcher \<Rightarrow> string \<Rightarrow> path \<Rightarrow> bool" where
  "file_named dm g f \<longleftrightarrow>
     (if IsGlobMeta g then dm g f = Some True else g = ''.'' \<or> at_or_under f g)"

definition entry_names :: "matcher \<Rightarrow> string \<Rightarrow> path \<Rightarrow> string \<Rightarrow> bool" where
  "entry_names dm e f d \<longleftrightarrow>
     fst (SplitClaim e) \<noteq> '''' \<and> file_named dm (entry_file e) f \<and> (snd (SplitClaim e) = '''' \<or> snd (SplitClaim e) = d)"

text \<open>An entry with none of the spellings that the grammar or the matcher treats apart.\<close>

definition reads_plainly :: "path \<Rightarrow> bool" where
  "reads_plainly f \<longleftrightarrow>
     list_all (\<lambda>k. SplitClaim (join_slash (take k (split_slash f))) = (join_slash (take k (split_slash f)), ''''))
       [1..<Suc (length (split_slash f))]"

definition plain_entry :: "string \<Rightarrow> bool" where
  "plain_entry e \<longleftrightarrow> \<not> is_rooted (entry_file e) \<and> by_segments (entry_file e) \<and> reads_plainly (entry_file e)"

lemma literal_segments: "\<not> IsGlobMeta s \<Longrightarrow> plain_segment s \<Longrightarrow> IsLiteralGlob s"
  by (simp add: plain_segment_def literal_iff)

lemma meta_Cons: "IsGlobMeta (c # cs) \<longleftrightarrow> c \<in> set glob_meta \<or> IsGlobMeta cs"
  by (simp add: IsGlobMeta_def)

lemma meta_Nil [simp]: "\<not> IsGlobMeta []"
  by (simp add: IsGlobMeta_def)

lemma meta_split: "IsGlobMeta g \<longleftrightarrow> (\<exists>s \<in> set (split_slash g). IsGlobMeta s)"
proof (induction g)
  case (Cons c g)
  have "CHR ''/'' \<notin> set glob_meta" by (simp add: glob_meta_def)
  with Cons show ?case by (cases "split_slash g") (auto simp: meta_Cons)
qed simp

text \<open>The literal segments that a glob starts with are those its files start with.\<close>

lemma segs_match_prefix:
  assumes "segs_match m (as @ gs) xs" "\<And>s x. s \<in> set as \<Longrightarrow> m s x \<Longrightarrow> x = s" "''**'' \<notin> set as"
  shows "\<exists>rest. xs = as @ rest \<and> segs_match m gs rest"
  using assms
proof (induction as arbitrary: xs)
  case (Cons a as)
  then obtain x ys where "xs = x # ys" "m a x" "segs_match m (as @ gs) ys" by (cases xs) auto
  moreover from this Cons have "x = a" by simp
  ultimately show ?case using Cons.IH [of ys] Cons.prems by auto
qed simp

lemma segs_match_literal_prefix:
  "''**'' \<notin> set as \<Longrightarrow> \<forall>s \<in> set as. m s s \<Longrightarrow> segs_match m gs rest \<Longrightarrow> segs_match m (as @ gs) (as @ rest)"
  by (induction as) auto

definition literal_segs :: "string \<Rightarrow> string list" where
  "literal_segs g = takeWhile (\<lambda>s. \<not> IsGlobMeta s) (split_slash g)"

lemma literal_segs_split: "split_slash g = literal_segs g @ dropWhile (\<lambda>s. \<not> IsGlobMeta s) (split_slash g)"
  by (simp add: literal_segs_def)

lemma literal_segs_in: "s \<in> set (literal_segs g) \<Longrightarrow> \<not> IsGlobMeta s \<and> s \<in> set (split_slash g)"
  by (auto simp: literal_segs_def dest: set_takeWhileD)

lemma star_meta: "IsGlobMeta ''**''"
  by (simp add: IsGlobMeta_def glob_meta_def)

locale segment_matcher =
  fixes dm :: matcher
  assumes literal: "IsLiteralGlob g \<Longrightarrow> dm g p = Some (p = g)"
    and segments: "by_segments g \<Longrightarrow>
      (dm g p = Some True) = segs_match (\<lambda>s x. dm s x = Some True) (split_slash g) (split_slash p)"
    and tail: "by_segments s \<Longrightarrow> CHR ''/'' \<notin> set s \<Longrightarrow> s \<noteq> ''**'' \<Longrightarrow> dm s x = Some True \<Longrightarrow>
      has_suffix x (literalSuffix s)"
    and star: "by_segments (CHR ''*'' # t) \<Longrightarrow> CHR ''/'' \<notin> set t \<Longrightarrow> CHR ''/'' \<notin> set x \<Longrightarrow> \<not> IsGlobMeta t \<Longrightarrow>
      has_suffix x t \<Longrightarrow> dm (CHR ''*'' # t) x = Some True"
begin

lemma glob_starts:
  assumes "by_segments g" "dm g f = Some True"
  shows "\<exists>rest. split_slash f = literal_segs g @ rest \<and>
    segs_match (\<lambda>s x. dm s x = Some True) (dropWhile (\<lambda>s. \<not> IsGlobMeta s) (split_slash g)) rest"
proof (rule segs_match_prefix)
  show "segs_match (\<lambda>s x. dm s x = Some True)
      (literal_segs g @ dropWhile (\<lambda>s. \<not> IsGlobMeta s) (split_slash g)) (split_slash f)"
    using segments [OF assms(1), of f] assms(2) by (simp flip: literal_segs_split)
  show "x = s" if "s \<in> set (literal_segs g)" "dm s x = Some True" for s x
  proof -
    have "IsLiteralGlob s"
      using literal_segs_in [OF that(1)] assms(1) by (intro literal_segments) (auto simp: by_segments_def list_all_iff)
    with that(2) literal [of s x] show ?thesis by simp
  qed
  show "''**'' \<notin> set (literal_segs g)" using literal_segs_in star_meta by metis
qed

text \<open>A glob that matches something at or beneath a literal reaches it.\<close>

lemma reaches:
  "list_all plain_segment gs \<Longrightarrow> segs_match (\<lambda>s x. dm s x = Some True) gs (ls @ rest) \<Longrightarrow> reach_segs dm gs ls"
proof (induction dm gs ls rule: reach_segs.induct)
  case (2 gg g gs ls)
  show ?case
  proof (cases "contains_string g ''**''")
    case False
    then have "g \<noteq> ''**''" by (auto simp: contains_string_def has_prefix_def)
    then show ?thesis using 2 False by (cases ls) auto
  qed simp
qed simp

end

section \<open>Common ground\<close>

definition splittable :: "string \<Rightarrow> bool" where
  "splittable g \<longleftrightarrow> (IsGlobMeta g \<longrightarrow> by_segments g)"

lemma LiteralPrefix_eq:
  "LiteralPrefix e =
    (if entry_file e = ''.'' \<or> entry_file e = ''/'' then '''' else join_slash (literal_segs (entry_file e)))"
  by (simp add: LiteralPrefix_def entry_file_def literal_segs_def Let_def)

lemma literal_segs_literal: "\<not> IsGlobMeta g \<Longrightarrow> literal_segs g = split_slash g"
  using meta_split [of g] by (simp add: literal_segs_def takeWhile_eq_all_conv)

lemma trim_lead_Nil: "trim_lead ws [] = []"
  by (subst trim_lead.simps) (auto simp: has_prefix_def find_Some_iff split: option.split)

lemma SplitClaim_blank: "TrimSpace e = [] \<Longrightarrow> SplitClaim e = ([], [])"
  by (simp add: SplitClaim_def cutClaim_def has_prefix_def unescapeClaimPath_def TrimSpace_def trim_lead_Nil)

lemma entry_names_not_blank: "entry_names dm e f d \<Longrightarrow> TrimSpace e \<noteq> []"
  using SplitClaim_blank [of e] by (auto simp: entry_names_def)

text \<open>Two literal prefixes of one path lie in one another.\<close>

lemma joined_prefixes:
  assumes "split_slash f = as @ x" "split_slash f = bs @ y" "as \<noteq> []" "bs \<noteq> []"
  shows "at_or_under (join_slash as) (join_slash bs) \<or> at_or_under (join_slash bs) (join_slash as)"
proof -
  have free: "CHR ''/'' \<notin> set s" if "s \<in> set as \<or> s \<in> set bs" for s
    using split_slash_free [of s f] that assms(1,2) by (metis Un_iff set_append)
  have "split_slash (join_slash as) = as" "split_slash (join_slash bs) = bs"
    using free assms(3,4) by (auto intro!: split_join)
  moreover have "(\<exists>r. as = bs @ r) \<or> (\<exists>r. bs = as @ r)"
    using assms(1,2) by (metis append_eq_append_conv2)
  ultimately show ?thesis by (simp add: at_or_under_iff)
qed

context segment_matcher
begin

lemma named_starts:
  assumes "splittable g" "file_named dm g f" "g \<noteq> ''.''"
  shows "\<exists>rest. split_slash f = literal_segs g @ rest"
proof (cases "IsGlobMeta g")
  case True
  with assms glob_starts [of g f] show ?thesis by (auto simp: splittable_def file_named_def)
next
  case False
  with assms show ?thesis by (simp add: file_named_def at_or_under_iff literal_segs_literal)
qed

lemma named_reaches:
  assumes "by_segments g" "dm g f = Some True" "at_or_under f lit"
  shows "globReaches dm g lit"
proof -
  obtain rest where "split_slash f = split_slash lit @ rest" using assms(3) by (auto simp: at_or_under_iff)
  with segments [OF assms(1), of f] assms(1,2) show ?thesis
    using reaches [of "split_slash g" "split_slash lit" rest] by (simp add: globReaches_def by_segments_def)
qed

lemma shared_ground:
  assumes "splittable (entry_file a)" "splittable (entry_file b)"
    and names: "entry_names dm a f da" "entry_names dm b f db"
  shows "pathsShareGround dm a b"
proof -
  let ?fa = "entry_file a" and ?fb = "entry_file b"
  have na: "file_named dm ?fa f" and nb: "file_named dm ?fb f" using names by (simp_all add: entry_names_def)
  note blank = entry_names_not_blank [OF names(1)] entry_names_not_blank [OF names(2)]
  show ?thesis
  proof (cases "literalAgainstGlob a b")
    case (Some lg)
    then consider "IsGlobMeta ?fa" "\<not> IsGlobMeta ?fb" "?fb \<noteq> ''.''" "lg = (?fb, ?fa)"
      | "IsGlobMeta ?fb" "\<not> IsGlobMeta ?fa" "?fa \<noteq> ''.''" "lg = (?fa, ?fb)"
      by (auto simp: literalAgainstGlob_def Let_def split: if_splits)
    then show ?thesis
      by cases (use na nb assms(1,2) blank Some named_reaches in \<open>auto simp: pathsShareGround_def file_named_def splittable_def\<close>)
  next
    case None
    show ?thesis
    proof (cases "LiteralPrefix a = '''' \<or> LiteralPrefix b = ''''")
      case True
      with None blank show ?thesis by (auto simp: pathsShareGround_def Let_def)
    next
      case False
      then have ne: "literal_segs ?fa \<noteq> []" "literal_segs ?fb \<noteq> []" "?fa \<noteq> ''.''" "?fb \<noteq> ''.''"
        and eq: "LiteralPrefix a = join_slash (literal_segs ?fa)" "LiteralPrefix b = join_slash (literal_segs ?fb)"
        by (auto simp: LiteralPrefix_eq split: if_splits)
      obtain x y where "split_slash f = literal_segs ?fa @ x" "split_slash f = literal_segs ?fb @ y"
        using named_starts assms(1,2) na nb ne(3,4) by metis
      from joined_prefixes [OF this ne(1,2)] None blank show ?thesis
        by (auto simp: pathsShareGround_def eq at_or_under_def Let_def)
    qed
  qed
qed

lemma shared_intersect:
  assumes "splittable (entry_file a)" "splittable (entry_file b)" "entry_names dm a f d" "entry_names dm b f d"
  shows "PathsIntersect dm a b"
  using shared_ground [OF assms] assms(3,4) by (auto simp: PathsIntersect_def entry_names_def Let_def)

end

section \<open>The parts of a clean path\<close>

lemma dropWhile_eq_take:
  "x \<notin> set (dropWhile (\<lambda>s. s = x) xs) \<Longrightarrow> x \<notin> set (dropWhile (\<lambda>s. s = x) (take k xs))"
proof (induction xs arbitrary: k)
  case (Cons y xs)
  then show ?case by (cases k) (auto dest: in_set_takeD split: if_splits)
qed simp

lemma normal_take: "normal_segs r segs \<Longrightarrow> normal_segs r (take k segs)"
  by (auto simp: normal_segs_def dropWhile_eq_take dest: in_set_takeD)

lemma Clean_normal:
  assumes "normal_segs False segs" "segs \<noteq> []"
  shows "Clean (join_slash segs) = join_slash segs"
  using join_not_rooted [OF assms(1)] split_join_normal [OF assms] clean_segs_normal [OF assms(1)] assms(2)
  by (simp add: Clean_def)

lemma Clean_not_Nil [simp]: "Clean p \<noteq> []"
proof
  assume c: "Clean p = []"
  then have "\<not> is_rooted p" "Clean p \<noteq> ''.''" by (auto simp: Clean_def)
  from split_Clean [OF this] c have "clean_segs False (split_slash p) = [[]]" by simp
  with normal_Clean [of False p] show False by (simp add: normal_segs_def)
qed

definition clean_path :: "path \<Rightarrow> bool" where
  "clean_path f \<longleftrightarrow> Clean f = f \<and> \<not> is_rooted f \<and> f \<noteq> ''.''"

lemma parts_normal: "clean_path f \<Longrightarrow> normal_segs False (split_slash f)"
  using split_Clean [of f] normal_Clean [of False f] by (simp add: clean_path_def)

lemma parts_clean:
  "clean_path f \<Longrightarrow> 0 < k \<Longrightarrow> Clean (join_slash (take k (split_slash f))) = join_slash (take k (split_slash f))"
  using Clean_normal [OF normal_take [OF parts_normal]] by simp

lemma split_parts: "clean_path f \<Longrightarrow> 0 < k \<Longrightarrow> split_slash (join_slash (take k (split_slash f))) = take k (split_slash f)"
  using split_join_normal [OF normal_take [OF parts_normal]] by simp

lemma segs_not_dot: "clean_path f \<Longrightarrow> s \<in> set (split_slash f) \<Longrightarrow> s \<noteq> '''' \<and> s \<noteq> ''.'' \<and> CHR ''/'' \<notin> set s"
  using parts_normal [of f] by (auto simp: normal_segs_def)

lemma parts_not_dot: "clean_path f \<Longrightarrow> 0 < k \<Longrightarrow> join_slash (take k (split_slash f)) \<noteq> ''.''"
proof
  assume cp: "clean_path f" and "0 < k" "join_slash (take k (split_slash f)) = ''.''"
  with split_parts [of f k] have "take k (split_slash f) = [''.'']" by simp
  then have "''.'' \<in> set (take k (split_slash f))" by (simp only: list.set_intros)
  then show False using segs_not_dot [OF cp, of "''.''"] in_set_takeD by fastforce
qed

lemma parts_not_root: "clean_path f \<Longrightarrow> join_slash (take k (split_slash f)) \<noteq> ''/''"
  using join_not_rooted [OF normal_take [OF parts_normal], of f k] by (auto simp: is_rooted_iff)

lemma LiteralPrefix_parts:
  assumes cp: "clean_path f" and "reads_plainly f" "0 < k" "k \<le> length (split_slash f)"
  shows "LiteralPrefix (join_slash (take k (split_slash f))) = join_slash (takeWhile (\<lambda>s. \<not> IsGlobMeta s) (take k (split_slash f)))"
proof -
  have "SplitClaim (join_slash (take k (split_slash f))) = (join_slash (take k (split_slash f)), '''')"
    using assms by (auto simp: reads_plainly_def list_all_iff)
  then show ?thesis
    using parts_clean [OF cp assms(3)] parts_not_dot [OF cp assms(3)] parts_not_root [OF cp] split_parts [OF cp assms(3)]
    by (simp add: LiteralPrefix_def Let_def)
qed

lemma LiteralPrefix_all: "clean_path f \<Longrightarrow> reads_plainly f \<Longrightarrow> LiteralPrefix f = join_slash (literal_segs f)"
  using LiteralPrefix_parts [of f "length (split_slash f)"] by (simp add: literal_segs_def)

lemma path_dir_eq:
  assumes cp: "clean_path f"
  shows "path_dir f = (if length (split_slash f) = 1 then ''.'' else join_slash (butlast (split_slash f)))"
proof (cases "length (split_slash f) = 1")
  case True
  then show ?thesis by (simp add: path_dir_def Clean_def clean_segs_def clean_seg_def is_rooted_def has_prefix_def)
next
  case False
  let ?d = "butlast (split_slash f)"
  have ne: "?d \<noteq> []" using False by (cases "split_slash f") auto
  have d: "?d = take (length (split_slash f) - 1) (split_slash f)" by (simp add: butlast_conv_take)
  have n: "normal_segs False ?d" unfolding d by (rule normal_take [OF parts_normal [OF cp]])
  have "split_slash (join_slash ?d @ ''/'') = ?d @ [[]]"
    using split_slash_append [of "join_slash ?d" "[]"] split_join_normal [OF n ne] by simp
  moreover have "clean_segs False (?d @ [[]]) = ?d"
    using clean_segs_normal [OF n] by (simp add: clean_segs_def clean_seg_def)
  moreover have "\<not> is_rooted (join_slash ?d @ ''/'')"
  proof -
    have "join_slash ?d \<noteq> []"
    proof
      assume "join_slash ?d = []"
      with split_join_normal [OF n ne] have "?d = [[]]" by simp
      then have "[] \<in> set ?d" by (simp only: list.set_intros)
      with normal_free [OF n] show False by blast
    qed
    then show ?thesis using join_not_rooted [OF n] by (cases "join_slash ?d") (auto simp: is_rooted_iff)
  qed
  ultimately show ?thesis using False ne by (simp add: path_dir_def Clean_def)
qed

lemma path_last_eq:
  assumes cp: "clean_path f"
  shows "path_last f = List.last (split_slash f)"
proof -
  have "f \<noteq> []" using cp by (metis Clean_not_Nil clean_path_def)
  have "rev f = [] \<or> hd (rev f) \<noteq> CHR ''/''"
  proof (rule ccontr)
    assume "\<not> ?thesis"
    then obtain g where "f = g @ ''/''" by (cases f rule: rev_cases) auto
    then have "[] \<in> set (split_slash f)" using split_slash_append [of g "[]"] by simp
    then show False using segs_not_dot [OF cp] by blast
  qed
  then have "dropWhile (\<lambda>c. c = CHR ''/'') (rev f) = rev f" by (cases "rev f") auto
  moreover have "List.last (split_slash f) \<noteq> []" using segs_not_dot [OF cp, of "List.last (split_slash f)"] by simp
  ultimately show ?thesis using \<open>f \<noteq> []\<close> by (simp add: path_last_def Let_def)
qed

section \<open>One path within another\<close>

lemma entry_clean_path:
  "plain_entry e \<Longrightarrow> entry_file e \<noteq> ''.'' \<Longrightarrow> clean_path (entry_file e)"
  by (simp add: plain_entry_def entry_file_def clean_path_def)

lemma segs_match_star: "segs_match m [''**''] xs"
  by (induction xs) simp_all

lemma segs_match_star_last: "xs \<noteq> [] \<Longrightarrow> l \<noteq> ''**'' \<Longrightarrow> m l (List.last xs) \<Longrightarrow> segs_match m [''**'', l] xs"
proof (induction xs)
  case (Cons x xs)
  then show ?case by (cases xs) simp_all
qed simp

lemma segs_match_last:
  "segs_match m gs xs \<Longrightarrow> gs \<noteq> [] \<Longrightarrow> List.last gs \<noteq> ''**'' \<Longrightarrow> xs \<noteq> [] \<and> m (List.last gs) (List.last xs)"
proof (induction m gs xs rule: segs_match.induct)
  case (2 m g gs)
  then show ?case by (auto split: if_splits)
next
  case (3 m g gs x xs)
  show ?case
  proof (cases "g = ''**''")
    case True
    with 3 show ?thesis by (cases "xs = []") (auto split: if_splits)
  next
    case False
    with "3.prems"(1) have x: "m g x" "segs_match m gs xs" by simp_all
    show ?thesis
    proof (cases "gs = []")
      case True
      with x have "xs = []" by simp
      with True x(1) show ?thesis by simp
    next
      case ne: False
      with "3.IH"(3) [OF False x(2)] "3.prems"(3) show ?thesis by simp
    qed
  qed
qed simp

text \<open>The shape \<open>starStarShape\<close> recognises.\<close>

lemma starStarShape_split:
  assumes cp: "clean_path g" and plain: "reads_plainly g" and meta: "IsGlobMeta g"
    and shape: "starStarShape g = Some (prefix, l)"
  shows "prefix = join_slash (literal_segs g) \<and>
    (l = '''' \<and> split_slash g = literal_segs g @ [''**''] \<or>
     l \<noteq> '''' \<and> split_slash g = literal_segs g @ [''**'', l] \<and> \<not> contains_string l ''**'')"
proof -
  let ?ls = "literal_segs g" and ?ds = "dropWhile (\<lambda>s. \<not> IsGlobMeta s) (split_slash g)"
  have split: "split_slash g = ?ls @ ?ds" by (rule literal_segs_split)
  have ds: "?ds \<noteq> []" using meta meta_split [of g] by simp
  have free: "CHR ''/'' \<notin> set s" if "s \<in> set (split_slash g)" for s
    using split_slash_free that by simp
  have prefix: "LiteralPrefix g = join_slash ?ls" by (rule LiteralPrefix_all [OF cp plain])
  have rel: "\<not> has_prefix g ''/''" using cp by (simp add: clean_path_def is_rooted_def)
  have rest: "split_slash (trim_prefix (trim_prefix g (join_slash ?ls)) ''/'') = ?ds"
  proof (cases "?ls = []")
    case True
    then have "trim_prefix g (join_slash ?ls) = g" by (simp add: trim_prefix_def has_prefix_def)
    moreover have "trim_prefix g ''/'' = g" using rel by (simp add: trim_prefix_def)
    ultimately show ?thesis using split True by simp
  next
    case False
    have "CHR ''/'' \<notin> set s" if "s \<in> set ?ls" for s using free literal_segs_in [OF that] by blast
    then have "split_slash (join_slash ?ls) = ?ls" by (rule split_join [OF False])
    have "CHR ''/'' \<notin> set s" if "s \<in> set ?ds" for s using free [OF set_dropWhileD [OF that]] .
    then have "split_slash (join_slash ?ds) = ?ds" by (rule split_join [OF ds])
    with \<open>split_slash (join_slash ?ls) = ?ls\<close> have "split_slash (join_slash ?ls @ ''/'' @ join_slash ?ds) = split_slash g"
      unfolding split_slash_append by (metis split)
    then have g: "g = join_slash ?ls @ ''/'' @ join_slash ?ds" by (simp only: split_slash_inj)
    have "trim_prefix (trim_prefix g (join_slash ?ls)) ''/'' = join_slash ?ds"
      by (subst g) (simp add: trim_prefix_def has_prefix_def)
    then show ?thesis using \<open>split_slash (join_slash ?ds) = ?ds\<close> by simp
  qed
  have "starStarShape g = (if unsplittableGlob g then None
      else if hd ?ds \<noteq> ''**'' then None
      else if length ?ds = 1 then Some (join_slash ?ls, '''')
      else if length ?ds = 2 \<and> \<not> contains_string (?ds ! 1) ''**'' then Some (join_slash ?ls, ?ds ! 1)
      else None)"
    by (simp add: starStarShape_def prefix rest Let_def)
  with shape have res: "prefix = join_slash ?ls" "hd ?ds = ''**''"
    "length ?ds = 1 \<and> l = '''' \<or> length ?ds = 2 \<and> l = ?ds ! 1 \<and> \<not> contains_string l ''**''"
    by (auto split: if_splits)
  from res(3) show ?thesis
  proof (elim disjE conjE)
    assume "length ?ds = 1" "l = ''''"
    with res(2) have "?ds = [''**'']" by (cases ?ds) auto
    with split res(1) \<open>l = ''''\<close> show ?thesis by metis
  next
    assume l: "length ?ds = 2" "l = ?ds ! 1" "\<not> contains_string l ''**''"
    then obtain d where "?ds = [d, l]" by (auto simp: length_Suc_conv numeral_2_eq_2)
    with res(2) have dl: "?ds = [''**'', l]" by simp
    with split have gs: "split_slash g = ?ls @ [''**'', l]" by metis
    then have "l \<noteq> ''''" using segs_not_dot [OF cp, of l] by auto
    with gs l(3) res(1) show ?thesis by blast
  qed
qed

lemma plain_segment_by: "plain_segment s \<Longrightarrow> CHR ''/'' \<notin> set s \<Longrightarrow> by_segments s"
  by (simp add: by_segments_def plain_segment_def split_slash_single)

lemma last_in_split: "List.last (split_slash f) \<in> set (split_slash f)"
  by simp

lemma underDir_at: "dir \<noteq> '''' \<Longrightarrow> underDir p dir \<Longrightarrow> at_or_under p dir"
  by (simp add: underDir_def at_or_under_def)

text \<open>The directory of a glob under a literal prefix: the glob's own segments start with it.\<close>

lemma dir_under_prefix:
  assumes cp: "clean_path g" and plain: "reads_plainly g" and ls: "\<And>s. s \<in> set ls \<Longrightarrow> CHR ''/'' \<notin> set s \<and> s \<noteq> ''''"
    and under: "underDir (LiteralPrefix (path_dir g)) (join_slash ls)"
  shows "\<exists>gs. split_slash g = ls @ gs \<and> gs \<noteq> [] \<and> (\<forall>s \<in> set ls. \<not> IsGlobMeta s)"
proof (cases "ls = []")
  case False
  let ?S = "split_slash g"
  have sls: "split_slash (join_slash ls) = ls" using ls False by (intro split_join) auto
  have ne: "join_slash ls \<noteq> ''''"
  proof
    assume "join_slash ls = ''''"
    with sls have "ls = [[]]" by simp
    with ls show False by simp
  qed
  have long: "length ?S \<noteq> 1"
  proof
    assume "length ?S = 1"
    then have "path_dir g = ''.''" using path_dir_eq [OF cp] by simp
    moreover have "LiteralPrefix ''.'' = ''''" by code_simp
    ultimately show False using under ne by (simp add: underDir_def has_prefix_def)
  qed
  moreover have "0 < length ?S" by simp
  ultimately have k: "0 < length ?S - 1" by linarith
  have d: "path_dir g = join_slash (take (length ?S - 1) ?S)"
    using path_dir_eq [OF cp] long by (simp add: butlast_conv_take)
  let ?lit = "takeWhile (\<lambda>s. \<not> IsGlobMeta s) (take (length ?S - 1) ?S)"
  have lp: "LiteralPrefix (path_dir g) = join_slash ?lit"
    unfolding d by (rule LiteralPrefix_parts [OF cp plain k]) simp
  have au: "at_or_under (join_slash ?lit) (join_slash ls)" using underDir_at [OF ne under] lp by simp
  have litne: "?lit \<noteq> []"
  proof
    assume "?lit = []"
    with au ne show False by (simp add: at_or_under_def has_prefix_def)
  qed
  have "CHR ''/'' \<notin> set s" if "s \<in> set ?lit" for s
    using that split_slash_free [of s g] by (meson in_set_takeD set_takeWhileD)
  then have "split_slash (join_slash ?lit) = ?lit" by (rule split_join [OF litne])
  with au sls obtain r where r: "?lit = ls @ r" by (auto simp: at_or_under_iff)
  obtain u where u: "take (length ?S - 1) ?S = ?lit @ u" by (metis takeWhile_dropWhile_id)
  have "?S = take (length ?S - 1) ?S @ drop (length ?S - 1) ?S" by simp
  with u r have "?S = ls @ (r @ u @ drop (length ?S - 1) ?S)" by (metis append.assoc)
  moreover have "r @ u @ drop (length ?S - 1) ?S \<noteq> []"
  proof -
    have "drop (length ?S - 1) ?S \<noteq> []" unfolding drop_eq_Nil using k by linarith
    then show ?thesis by blast
  qed
  moreover have "\<not> IsGlobMeta s" if "s \<in> set ls" for s
  proof -
    have "s \<in> set ?lit" using that r by simp
    from set_takeWhileD [OF this] show ?thesis by blast
  qed
  ultimately show ?thesis by blast
qed simp

context segment_matcher
begin

lemma within_star_star:
  assumes gi: "clean_path gi" "reads_plainly gi" "by_segments gi"
    and go: "clean_path go" "reads_plainly go" "by_segments go" "IsGlobMeta go"
    and shape: "starStarShape go = Some (prefix, l)" and under: "underDir (LiteralPrefix (path_dir gi)) prefix"
    and base: "l = '''' \<or> path_last gi = l \<or>
      (if IsGlobMeta (path_last gi) then segmentWithin (path_last gi) l else dm l (path_last gi) = Some True)"
    and f: "dm gi f = Some True"
  shows "dm go f = Some True"
proof -
  let ?m = "\<lambda>s x. dm s x = Some True" and ?ls = "literal_segs go"
  note sp = starStarShape_split [OF go(1,2,4) shape]
  have lsok: "CHR ''/'' \<notin> set s \<and> s \<noteq> ''''" if "s \<in> set ?ls" for s
    using segs_not_dot [OF go(1)] literal_segs_in [OF that] by blast
  have pr: "prefix = join_slash ?ls" using sp by blast
  obtain gs where gs: "split_slash gi = ?ls @ gs" "gs \<noteq> []" "\<forall>s \<in> set ?ls. \<not> IsGlobMeta s"
    using dir_under_prefix [OF gi(1,2) lsok under [unfolded pr]] by blast
  have lits: "?m s x \<longleftrightarrow> x = s" if "s \<in> set ?ls" for s x
  proof -
    have "plain_segment s" using that gi(3) gs(1) by (auto simp: by_segments_def list_all_iff)
    then have "IsLiteralGlob s" using literal_segments gs(3) that by blast
    with literal [of s x] show ?thesis by simp
  qed
  have nostar: "''**'' \<notin> set ?ls" using gs(3) star_meta by blast
  have "segs_match ?m (?ls @ gs) (split_slash f)" using segments [OF gi(3), of f] f gs(1) by simp
  from segs_match_prefix [OF this _ nostar] lits obtain rest where
    rest: "split_slash f = ?ls @ rest" "segs_match ?m gs rest" by blast
  have goal: "dm go f = Some True" if "segs_match ?m ds rest" "split_slash go = ?ls @ ds" for ds
    using segments [OF go(3), of f] segs_match_literal_prefix [OF nostar _ that(1)] lits rest(1) that(2) by simp
  from sp show ?thesis
  proof (elim conjE disjE)
    assume "split_slash go = ?ls @ [''**'']"
    then show ?thesis by (rule goal [OF segs_match_star])
  next
    assume l: "l \<noteq> ''''" "split_slash go = ?ls @ [''**'', l]" "\<not> contains_string l ''**''"
    have lstar: "l \<noteq> ''**''" using l(3) by (auto simp: contains_string_def has_prefix_def)
    let ?b = "path_last gi" and ?x = "List.last rest"
    have b: "?b = List.last gs" using path_last_eq [OF gi(1)] gs(1,2) by simp
    have bin: "?b \<in> set (split_slash gi)" using path_last_eq [OF gi(1)] by simp
    then have bplain: "plain_segment ?b" "CHR ''/'' \<notin> set ?b"
      using gi(3) split_slash_free [of ?b gi] by (auto simp: by_segments_def list_all_iff)
    have bstar: "?b \<noteq> ''**''"
    proof
      assume eq: "?b = ''**''"
      with base l(1) lstar have "segmentWithin ?b l" using star_meta by auto
      with eq show False by (simp add: segmentWithin_def)
    qed
    with segs_match_last [OF rest(2) gs(2)] b have x: "rest \<noteq> []" "?m ?b ?x" by simp_all
    have xfree: "CHR ''/'' \<notin> set ?x" using split_slash_free [of ?x f] rest(1) x(1) by simp
    have lin: "l \<in> set (split_slash go)" using l(2) by simp
    then have lplain: "plain_segment l" "CHR ''/'' \<notin> set l"
      using go(3) split_slash_free [of l go] by (auto simp: by_segments_def list_all_iff)
    have "?m l ?x"
    proof (cases "?b = l")
      case False
      show ?thesis
      proof (cases "IsGlobMeta ?b")
        case True
        with base l(1) False have sw: "segmentWithin ?b l" by simp
        then obtain t where t: "l = CHR ''*'' # t" "\<not> IsGlobMeta t" "t = '''' \<or> has_suffix (literalSuffix ?b) t"
          by (cases l) (auto simp: segmentWithin_def has_prefix_def split: if_splits)
        have "has_suffix ?x (literalSuffix ?b)"
          by (rule tail [OF plain_segment_by [OF bplain] bplain(2) bstar x(2)])
        with t(3) have "has_suffix ?x t" by (auto simp: has_suffix_iff)
        with star [of t ?x] plain_segment_by [OF lplain] lplain(2) xfree t show ?thesis by simp
      next
        case lit: False
        then have "?x = ?b" using literal [OF literal_segments [OF lit bplain(1)], of ?x] x(2) by simp
        with base l(1) False lit show ?thesis by simp
      qed
    qed (use x in simp)
    then show ?thesis by (intro goal [OF _ l(2)] segs_match_star_last [OF x(1) lstar])
  qed
qed

lemma path_within_sound:
  assumes pi: "plain_entry inner" and po: "plain_entry outer" and within: "PathWithin dm inner outer"
    and names: "entry_names dm inner f d"
    and exact: "IsGlobMeta (entry_file inner) \<or> \<not> IsGlobMeta (entry_file outer) \<or> f = entry_file inner"
  shows "entry_names dm outer f d"
proof -
  let ?fi = "entry_file inner" and ?fo = "entry_file outer"
  obtain i0 di where i0: "SplitClaim inner = (i0, di)" by force
  obtain o0 od where o0: "SplitClaim outer = (o0, od)" by force
  have fi: "?fi = Clean i0" and fo: "?fo = Clean o0" by (simp_all add: entry_file_def i0 o0)
  have ne: "i0 \<noteq> ''''" "o0 \<noteq> ''''" using within by (auto simp: PathWithin_def i0 o0)
  have nf: "file_named dm ?fi f" and nd: "di = '''' \<or> di = d" using names by (simp_all add: entry_names_def i0)
  have by_seg: "by_segments ?fi" "by_segments ?fo" using pi po by (simp_all add: plain_entry_def)
  have reads: "reads_plainly ?fi" "reads_plainly ?fo" using pi po by (simp_all add: plain_entry_def)
  have split: "splittable ?fi" "splittable ?fo" using by_seg by (simp_all add: splittable_def)
  have body: "if od \<noteq> '''' then di = od \<and> ?fi = ?fo \<and> \<not> IsGlobMeta ?fi
    else if ?fi = ?fo \<or> ?fo = ''.'' then True
    else if \<not> IsGlobMeta ?fo then underDir (LiteralPrefix ?fi) ?fo
    else if \<not> IsGlobMeta ?fi then dm ?fo ?fi = Some True
    else \<exists>prefix l. starStarShape ?fo = Some (prefix, l) \<and> underDir (LiteralPrefix (path_dir ?fi)) prefix \<and>
      (l = '''' \<or> path_last ?fi = l \<or>
       (if IsGlobMeta (path_last ?fi) then segmentWithin (path_last ?fi) l else dm l (path_last ?fi) = Some True))"
    using within ne unfolding PathWithin_def i0 o0 fi fo
    by (auto simp: Let_def split: if_splits option.splits)
  have "file_named dm ?fo f"
  proof -
    consider (same) "?fi = ?fo" | (root) "?fo = ''.''"
      | (dir) "?fo \<noteq> ''.''" "\<not> IsGlobMeta ?fo" "underDir (LiteralPrefix ?fi) ?fo"
      | (lit) "?fo \<noteq> ''.''" "IsGlobMeta ?fo" "\<not> IsGlobMeta ?fi" "dm ?fo ?fi = Some True"
      | (globs) prefix l where "IsGlobMeta ?fo" "IsGlobMeta ?fi" "starStarShape ?fo = Some (prefix, l)"
        "underDir (LiteralPrefix (path_dir ?fi)) prefix"
        "l = '''' \<or> path_last ?fi = l \<or>
         (if IsGlobMeta (path_last ?fi) then segmentWithin (path_last ?fi) l else dm l (path_last ?fi) = Some True)"
      using body by (auto split: if_splits)
    then show ?thesis
    proof cases
      case same
      with nf show ?thesis by simp
    next
      case root
      have "\<not> IsGlobMeta ''.''" by code_simp
      with root show ?thesis by (simp add: file_named_def)
    next
      case dir
      have fo_ne: "?fo \<noteq> ''''" by (simp add: fo)
      have au: "at_or_under (LiteralPrefix ?fi) ?fo" by (rule underDir_at [OF fo_ne dir(3)])
      have "LiteralPrefix ''.'' = ''''" by code_simp
      with au fo_ne have "?fi \<noteq> ''.''" by (auto simp: at_or_under_def has_prefix_def)
      from entry_clean_path [OF pi this] have lp: "LiteralPrefix ?fi = join_slash (literal_segs ?fi)"
        by (rule LiteralPrefix_all [OF _ reads(1)])
      have ls: "literal_segs ?fi \<noteq> []" using au lp fo_ne by (auto simp: at_or_under_def has_prefix_def)
      obtain rest where f: "split_slash f = literal_segs ?fi @ rest"
        using named_starts [OF split(1) nf \<open>?fi \<noteq> ''.''\<close>] by blast
      have "split_slash (join_slash (literal_segs ?fi)) = literal_segs ?fi"
        using split_slash_free [of _ ?fi] literal_segs_in [of _ ?fi] by (intro split_join [OF ls]) blast
      with f have "at_or_under f (LiteralPrefix ?fi)" by (auto simp: at_or_under_iff lp)
      with au have "at_or_under f ?fo" by (blast intro: at_or_under_trans)
      with dir(2) show ?thesis by (simp add: file_named_def)
    next
      case lit
      with exact show ?thesis by (auto simp: file_named_def)
    next
      case globs
      have dot: "\<not> IsGlobMeta ''.''" by code_simp
      with globs(1,2) have "?fi \<noteq> ''.''" "?fo \<noteq> ''.''" by auto
      note cp = entry_clean_path [OF pi this(1)] entry_clean_path [OF po this(2)]
      have "dm ?fi f = Some True" using nf globs(2) by (simp add: file_named_def)
      from within_star_star [OF cp(1) reads(1) by_seg(1) cp(2) reads(2) by_seg(2) globs(1,3,4,5) this]
      show ?thesis using globs(1) by (simp add: file_named_def)
    qed
  qed
  moreover have "od = '''' \<or> od = d" using body nd by (auto split: if_splits)
  ultimately show ?thesis using ne by (simp add: entry_names_def o0)
qed

end

section \<open>A matcher of this kind\<close>

text \<open>
  The part of doublestar that \<open>*\<close>, \<open>?\<close>, \<open>**\<close> and literals make up. It answers for patterns without
  classes, alternatives and escapes, and shows that the laws above can hold together.
\<close>

fun name_match :: "string \<Rightarrow> string \<Rightarrow> bool" where
  "name_match [] xs = (xs = [])"
| "name_match (c # cs) [] = (c = CHR ''*'' \<and> name_match cs [])"
| "name_match (c # cs) (x # xs) =
     (if c = CHR ''*'' then name_match cs (x # xs) \<or> name_match (c # cs) xs
      else (c = CHR 0x3F \<or> c = x) \<and> name_match cs xs)"

definition star_matcher :: matcher where
  "star_matcher g p =
     (if IsLiteralGlob g then Some (p = g)
      else if CHR 0x5B \<notin> set g \<and> CHR 0x7B \<notin> set g \<and> by_segments g
      then Some (segs_match name_match (split_slash g) (split_slash p))
      else None)"

lemma name_match_literal: "IsLiteralGlob s \<Longrightarrow> name_match s x \<longleftrightarrow> x = s"
proof (induction s x rule: name_match.induct)
  case (3 c cs x xs)
  then have "c \<noteq> CHR ''*''" "c \<noteq> CHR 0x3F" "IsLiteralGlob cs" by (auto simp: IsLiteralGlob_def glob_meta_def)
  with 3 show ?case by auto
qed (auto simp: IsLiteralGlob_def glob_meta_def)

definition wild_free :: "string \<Rightarrow> bool" where
  "wild_free t \<longleftrightarrow> CHR ''*'' \<notin> set t \<and> CHR 0x3F \<notin> set t"

lemma name_match_wild_free: "wild_free t \<Longrightarrow> name_match t x \<Longrightarrow> x = t"
  by (induction t x rule: name_match.induct) (auto simp: wild_free_def)

lemma name_match_star_drops: "name_match (CHR ''*'' # cs) x \<Longrightarrow> \<exists>y z. x = y @ z \<and> name_match cs z"
proof (induction x)
  case (Cons c x)
  then consider "name_match cs (c # x)" | "name_match (CHR ''*'' # cs) x" by auto
  then show ?case
  proof cases
    case 1
    then show ?thesis by (metis append_Nil)
  next
    case 2
    from Cons.IH [OF this] show ?thesis by (metis append_Cons)
  qed
qed simp

lemma name_match_tail: "name_match (a @ t) x \<Longrightarrow> wild_free t \<Longrightarrow> has_suffix x t"
proof (induction a arbitrary: x)
  case Nil
  then show ?case using name_match_wild_free [of t x] by (simp add: has_suffix_iff)
next
  case (Cons c a)
  obtain y z where "x = y @ z" "name_match (a @ t) z"
  proof (cases "c = CHR ''*''")
    case True
    with Cons.prems(1) name_match_star_drops [of "a @ t" x] that show ?thesis by auto
  next
    case False
    with Cons.prems(1) obtain d xs where "x = d # xs" "name_match (a @ t) xs" by (cases x) auto
    with that [of "[d]" xs] show ?thesis by simp
  qed
  with Cons.IH [of z] Cons.prems(2) show ?case by (auto simp: has_suffix_iff)
qed

lemma name_match_star: "IsLiteralGlob t \<Longrightarrow> name_match (CHR ''*'' # t) (y @ t)"
proof (induction y)
  case Nil
  then show ?case using name_match_literal [of t t] by (cases t) auto
qed simp

lemma segs_match_cong:
  "\<forall>s \<in> set gs. \<forall>x \<in> set xs. s \<noteq> ''**'' \<longrightarrow> m s x = m' s x \<Longrightarrow> segs_match m gs xs = segs_match m' gs xs"
  by (induction m gs xs rule: segs_match.induct) auto

lemma segs_match_uses: "segs_match m gs xs \<Longrightarrow> s \<in> set gs \<Longrightarrow> s \<noteq> ''**'' \<Longrightarrow> \<exists>x. m s x"
  by (induction m gs xs rule: segs_match.induct) (auto split: if_splits)

lemma star_matcher_segment:
  assumes "plain_segment s" "CHR ''/'' \<notin> set s" "CHR ''/'' \<notin> set x" "s \<noteq> ''**''" "CHR 0x5B \<notin> set s" "CHR 0x7B \<notin> set s"
  shows "(star_matcher s x = Some True) = name_match s x"
proof (cases "IsLiteralGlob s")
  case True
  then show ?thesis by (simp add: star_matcher_def name_match_literal)
next
  case False
  then show ?thesis
    using assms plain_segment_by [OF assms(1,2)] by (simp add: star_matcher_def split_slash_single)
qed

lemma literal_glob_segments: "IsLiteralGlob g \<Longrightarrow> s \<in> set (split_slash g) \<Longrightarrow> IsLiteralGlob s"
  using split_slash_chars [of s g] by (auto simp: IsLiteralGlob_def list_ex_iff)

lemma star_matcher_segments:
  assumes g: "by_segments g"
  shows "(star_matcher g p = Some True) =
    segs_match (\<lambda>s x. star_matcher s x = Some True) (split_slash g) (split_slash p)"
proof -
  let ?m = "\<lambda>s x. star_matcher s x = Some True"
  have plain: "plain_segment s" if "s \<in> set (split_slash g)" for s
    using g that by (simp add: by_segments_def list_all_iff)
  show ?thesis
  proof (cases "IsLiteralGlob g")
    case True
    have lit: "?m s x \<longleftrightarrow> x = s" if "s \<in> set (split_slash g)" for s x
      using literal_glob_segments [OF True that] by (simp add: star_matcher_def)
    have nostar: "''**'' \<notin> set (split_slash g)"
      using literal_glob_segments [OF True] star_meta by (auto simp: literal_iff)
    have "segs_match ?m (split_slash g @ []) (split_slash p) \<longleftrightarrow> split_slash p = split_slash g"
    proof
      assume "segs_match ?m (split_slash g @ []) (split_slash p)"
      from segs_match_prefix [OF this _ nostar] lit show "split_slash p = split_slash g" by auto
    next
      assume eq: "split_slash p = split_slash g"
      have "segs_match ?m (split_slash g @ []) (split_slash g @ [])"
        using segs_match_literal_prefix [OF nostar, of ?m "[]" "[]"] lit by simp
      then show "segs_match ?m (split_slash g @ []) (split_slash p)" using eq by simp
    qed
    with True show ?thesis by (auto simp: star_matcher_def split_slash_inj)
  next
    case False
    show ?thesis
    proof (cases "CHR 0x5B \<notin> set g \<and> CHR 0x7B \<notin> set g")
      case True
      have "segs_match ?m (split_slash g) (split_slash p) = segs_match name_match (split_slash g) (split_slash p)"
      proof (rule segs_match_cong, intro ballI impI)
        fix s x assume s: "s \<in> set (split_slash g)" "x \<in> set (split_slash p)" "s \<noteq> ''**''"
        then show "?m s x = name_match s x"
          using True split_slash_chars [OF s(1)] split_slash_free [OF s(1)] split_slash_free [OF s(2)]
          by (intro star_matcher_segment [OF plain]) auto
      qed
      with True False g show ?thesis by (simp add: star_matcher_def)
    next
      case bad: False
      have "set g \<subseteq> \<Union> (set ` set (split_slash g)) \<union> {CHR ''/''}" for g :: string
      proof (induction g)
        case (Cons c g)
        then show ?case by (cases "split_slash g") auto
      qed simp
      from this [of g] bad obtain s where s: "s \<in> set (split_slash g)" "CHR 0x5B \<in> set s \<or> CHR 0x7B \<in> set s" by force
      then have "\<not> IsLiteralGlob s" by (auto simp: IsLiteralGlob_def glob_meta_def list_ex_iff)
      with s(2) have none: "star_matcher s x = None" for x
        unfolding star_matcher_def by (simp only: if_False simp_thms) presburger
      have "s \<noteq> ''**''" using s(2) by auto
      with segs_match_uses [OF _ s(1)] none have "\<not> segs_match ?m (split_slash g) (split_slash p)" by fastforce
      with bad False show ?thesis by (auto simp: star_matcher_def)
    qed
  qed
qed

lemma star_matcher_tail:
  assumes s: "by_segments s" "CHR ''/'' \<notin> set s" "s \<noteq> ''**''" and m: "star_matcher s x = Some True"
  shows "has_suffix x (literalSuffix s)"
proof -
  have suf: "\<exists>a. s = a @ literalSuffix s"
    unfolding literalSuffix_def by (metis rev_append rev_rev_ident takeWhile_dropWhile_id)
  have free: "wild_free (literalSuffix s)"
    unfolding literalSuffix_def wild_free_def by (auto dest: set_takeWhileD)
  show ?thesis
  proof (cases "IsLiteralGlob s")
    case True
    with m suf show ?thesis by (auto simp: star_matcher_def has_suffix_iff)
  next
    case False
    with m s(2) have sm: "segs_match name_match [s] (split_slash x)"
      by (auto simp: star_matcher_def split_slash_single split: if_splits)
    obtain y ys where y: "split_slash x = y # ys" by (cases "split_slash x") auto
    with sm s(3) have "ys = []" "name_match s y" by simp_all
    with y have "name_match s x" using join_split [of x] by simp
    with suf name_match_tail free show ?thesis by metis
  qed
qed

interpretation stars: segment_matcher star_matcher
proof unfold_locales
  fix g p assume "IsLiteralGlob g"
  then show "star_matcher g p = Some (p = g)" by (simp add: star_matcher_def)
next
  fix t x assume a: "by_segments (CHR ''*'' # t)" "CHR ''/'' \<notin> set t" "CHR ''/'' \<notin> set x" "\<not> IsGlobMeta t" "has_suffix x t"
  have bs: "backslash \<notin> set t" using a(1,2) by (simp add: by_segments_def plain_segment_def split_slash_single)
  have br: "CHR 0x5B \<notin> set t" "CHR 0x7B \<notin> set t" using a(4) by (auto simp: IsGlobMeta_def glob_meta_def list_ex_iff)
  obtain y where x: "x = y @ t" using a(5) by (auto simp: has_suffix_iff)
  have "\<not> IsLiteralGlob (CHR ''*'' # t)" by (simp add: IsLiteralGlob_def glob_meta_def)
  moreover have "segs_match name_match (split_slash (CHR ''*'' # t)) (split_slash x)"
    using name_match_star [of t y] a(2,3,4) bs x by (auto simp: split_slash_single literal_iff)
  ultimately show "star_matcher (CHR ''*'' # t) x = Some True"
    using a(1) br by (simp add: star_matcher_def)
qed (rule star_matcher_segments star_matcher_tail; assumption)+

end
