(* ===== verification/Reach_Properties.thy ===== *)
theory Reach_Properties
  imports Focus Declared_Paths_Correct
begin

text \<open>
  The properties of what a change reaches and what a session may read, and of the paths a job
  declares, with witnesses on a workspace of three projects.
\<close>

section \<open>The affected set\<close>

definition demo_project :: "path \<Rightarrow> path list \<Rightarrow> glob list \<Rightarrow> declared_project" where
  "demo_project p deps srcs =
     \<lparr>prj_path = p, DependsOn = deps, Sources = srcs, Outputs = [], TargetInputs = [], TargetOutputs = [],
      TargetUpdates = [], InboundOutputs = []\<rparr>"

text \<open>\<open>docs\<close> reads the sources of \<open>lib\<close> across the boundary; \<open>app\<close> depends on \<open>lib\<close>.\<close>

definition demo_tree :: declared_workspace where
  "demo_tree =
     [(''lib'', demo_project ''lib'' [] [\<lparr>gpattern = ''**'', gexcept = []\<rparr>]),
      (''docs'', demo_project ''docs'' [] [\<lparr>gpattern = ''../lib/*.go'', gexcept = []\<rparr>]),
      (''app'', demo_project ''app'' [''lib''] [])]"

lemma wf_demo_tree: "wf_declared demo_tree"
  by (simp add: wf_declared_def demo_tree_def demo_project_def)

text \<open>
  C6. The affected set of a list of paths is exact: the seeds are the projects whose directory
  is the innermost around a changed file and those that declare one from outside (the root
  only where it declares the file or nobody else does), each with its files and with those
  that no key reads; and the affected projects are those that depend on a seed.
\<close>

theorem affected_set_exact:
  assumes "wf_declared w" "AffectedFromPaths dm root w paths = Inr r"
  shows "rseed r = sorted_list_of_set {p. \<exists>f \<in> set (List.map_filter (relative_file root) paths). seeds dm w f p} \<and>
    raffected r = sorted_list_of_set {p. \<exists>f \<in> set (List.map_filter (relative_file root) paths). \<exists>s.
      seeds dm w f s \<and> (p, s) \<in> (depends (graph_view w))\<^sup>*} \<and>
    (\<forall>q. files_of (rfiles r) q = filter (\<lambda>f. seeds dm w f q) (List.map_filter (relative_file root) paths)) \<and>
    (\<forall>q. files_of (case rundeclared r of None \<Rightarrow> [] | Some m \<Rightarrow> m) q =
      filter (\<lambda>f. seeds dm w f q \<and> \<not> keyed dm w f) (List.map_filter (relative_file root) paths))"
  using affected_from_spec [OF assms(1) assms(2) [unfolded AffectedFromPaths_def]] by blast

definition demo_affected :: affected_result where
  "demo_affected =
     \<lparr>rbase = ''paths'', rchanged = [''/w/lib/a.go''], rseed = [''docs'', ''lib''],
      rfiles = [(''docs'', [''lib/a.go'']), (''lib'', [''lib/a.go''])], rundeclared = None,
      raffected = [''app'', ''docs'', ''lib'']\<rparr>"

lemma demo_affected_runs: "AffectedFromPaths star_matcher ''/w'' demo_tree [''/w/lib/a.go''] = Inr demo_affected"
  by code_simp

theorem affected_set_exact_witness:
  "sorted_list_of_set {p. \<exists>f \<in> set [''lib/a.go'']. seeds star_matcher demo_tree f p} = [''docs'', ''lib'']"
proof -
  have files: "List.map_filter (relative_file ''/w'') [''/w/lib/a.go''] = [''lib/a.go'']" by code_simp
  have "rseed demo_affected = [''docs'', ''lib'']" by (simp add: demo_affected_def)
  with affected_set_exact [OF wf_demo_tree demo_affected_runs] show ?thesis by (simp only: files)
qed

text \<open>
  C7. No reader is missed: whichever project declares a file that a diff names is affected, or
  is a directory around the file's own project, which is affected then.
\<close>

theorem declared_inputs_are_affected:
  assumes "wf_declared w" "Affected dm exists_at root w answer = Inr r"
    and "f \<in> set (rchanged r)" "declares dm w p f"
  shows "p \<in> set (raffected r) \<or> (\<exists>q \<in> set (raffected r). innermost w q f \<and> q \<noteq> p \<and> dirContains p q)"
proof -
  obtain b fs where r: "affected_from dm w b fs fs = Inr r"
    using assms(2) by (auto simp: Affected_def Let_def split: vcs_answer.splits)
  note spec = affected_from_spec [OF assms(1) r]
  have "f \<in> set fs" using assms(3) spec(1) by simp
  have "s \<in> set (raffected r)" if "seeds dm w f s" for s
    using that \<open>f \<in> set fs\<close> affected_finite [OF assms(1), where dm = dm and F = "set fs"] unfolding spec(5) by auto
  with declarer_seeds [OF assms(4)] show ?thesis by blast
qed

lemma demo_diff_runs:
  "Affected star_matcher (\<lambda>p. p = ''/w/.git'') ''/w/sub'' demo_tree (Changed ''main'' [''.git''] [''sub/lib/a.go'', ''other/x'']) =
    Inr (demo_affected\<lparr>rbase := ''main'', rchanged := [''lib/a.go'']\<rparr>)"
  by code_simp

theorem declared_inputs_are_affected_witness:
  "''docs'' \<in> set (raffected (demo_affected\<lparr>rbase := ''main'', rchanged := [''lib/a.go'']\<rparr>))"
proof -
  let ?r = "demo_affected\<lparr>rbase := ''main'', rchanged := [''lib/a.go'']\<rparr>"
  have "MatchGlobs star_matcher (DeclaredGlobs (demo_project ''docs'' [] [\<lparr>gpattern = ''../lib/*.go'', gexcept = []\<rparr>])) ''lib/a.go''"
    by code_simp
  then have "declares star_matcher demo_tree ''docs'' ''lib/a.go''"
    unfolding declares_def by (intro exI conjI) (simp add: demo_tree_def)
  moreover have "''lib/a.go'' \<in> set (rchanged ?r)" by simp
  moreover have "\<not> dirContains ''docs'' q" if "innermost demo_tree q ''lib/a.go''" "q \<noteq> ''docs''" for q
    using that by (auto simp: innermost_def demo_tree_def dirContains_def has_prefix_def)
  ultimately show ?thesis
    using declared_inputs_are_affected [OF wf_demo_tree demo_diff_runs, of "''lib/a.go''" "''docs''"] by blast
qed

text \<open>A file inside the workspace whose first segment starts with two dots is skipped as if outside.\<close>

theorem dotted_file_inside_skipped:
  "relative_file ''/w'' ''/w/..cache/a'' = None \<and> at_or_under ''/w/..cache/a'' ''/w''"
  by code_simp

section \<open>The focus\<close>

text \<open>
  C8. The focus is the mirror of the affected set: a project is in the focus of a place or of a
  lease exactly when a change to it would affect a project the focus stands on, one of the
  seeds or one nested in them.
\<close>

theorem focus_mirrors_affected:
  assumes "wf_declared w" "build_project_graph (graph_view w) = Inr g" "q \<in> fst ` set w"
    and "FocusAt resolve root w dir = Some fo \<or> FocusForPaths resolve root w paths = Some fo"
  shows "q \<in> set (focus_projects fo) \<longleftrightarrow>
    (\<exists>s \<in> set (focus_seeds fo) \<union> set (nested_in (focus_owners fo) (focus_seeds fo)).
      s \<in> set (engine_reverse_closure g [q]))"
proof -
  have "focus_projects fo = focus_closure w (focus_owners fo) (focus_seeds fo)"
    using assms(4) by (auto simp: FocusAt_def FocusForPaths_def Let_def split: option.splits if_splits)
  then show ?thesis using focus_mirror [OF assms(1-3)] by simp
qed

definition demo_focus :: focus where
  "demo_focus = \<lparr>focus_seeds = [''app''], focus_projects = [''app'', ''lib''], focus_owners = [''docs'', ''app'', ''lib'']\<rparr>"

definition demo_tree_graph :: graph where
  "demo_tree_graph = (case build_project_graph (graph_view demo_tree) of Inr g \<Rightarrow> g | Inl e \<Rightarrow> undefined)"

lemma demo_tree_builds: "build_project_graph (graph_view demo_tree) = Inr demo_tree_graph"
proof -
  have "isl (build_project_graph (graph_view demo_tree)) = False" by code_simp
  then show ?thesis by (auto simp: demo_tree_graph_def split: sum.splits)
qed

theorem focus_mirrors_affected_witness:
  "''app'' \<in> set (engine_reverse_closure demo_tree_graph [''lib''])"
proof -
  have "FocusAt (\<lambda>_. None) ''/w'' demo_tree ''/w/app/cmd'' = Some demo_focus" by code_simp
  moreover have "''lib'' \<in> fst ` set demo_tree" by (simp add: demo_tree_def)
  ultimately have "''lib'' \<in> set (focus_projects demo_focus) \<longleftrightarrow>
    (\<exists>s \<in> set (focus_seeds demo_focus) \<union> set (nested_in (focus_owners demo_focus) (focus_seeds demo_focus)).
      s \<in> set (engine_reverse_closure demo_tree_graph [''lib'']))"
    by (rule focus_mirrors_affected [OF wf_demo_tree demo_tree_builds _ disjI1, rotated])
  moreover have "set (focus_seeds demo_focus) \<union> set (nested_in (focus_owners demo_focus) (focus_seeds demo_focus)) = {''app''}"
    "''lib'' \<in> set (focus_projects demo_focus)" by (simp_all add: demo_focus_def nested_in_def has_prefix_def)
  ultimately show ?thesis by simp
qed

text \<open>
  C9. One file has one owner: for a path spelled the way cleanRel leaves it, the focus and the
  affected set attribute it to the same project.
\<close>

theorem focus_and_affected_agree_on_owners:
  assumes "wf_declared w" "cleanRel f = f"
  shows "focus_owner (ownerPaths w) f = (case projectForFile (newProjectIndex w) f of Some p \<Rightarrow> p | None \<Rightarrow> '''')"
  by (rule owners_agree [OF assms])

theorem focus_and_affected_agree_on_owners_witness:
  "focus_owner (ownerPaths demo_tree) ''lib/x/a.go'' = ''lib''"
proof -
  have "cleanRel ''lib/x/a.go'' = ''lib/x/a.go''" by code_simp
  moreover have "projectForFile (newProjectIndex demo_tree) ''lib/x/a.go'' = Some ''lib''" by code_simp
  ultimately show ?thesis using focus_and_affected_agree_on_owners [OF wf_demo_tree] by simp
qed

section \<open>Declared paths\<close>

text \<open>
  C17. No collision is missed: two entries that both name a file, and the same declaration of it
  where each names one, intersect. A glob's braces and classes have to stay within a segment.
\<close>

theorem shared_files_are_reported:
  assumes "segment_matcher dm" "splittable (entry_file a)" "splittable (entry_file b)"
    and "entry_names dm a f d" "entry_names dm b f d"
  shows "PathsIntersect dm a b"
  by (rule segment_matcher.shared_intersect [OF assms])

theorem shared_files_are_reported_witness:
  "PathsIntersect star_matcher ''src/**/*.go#Run'' ''src/job''"
proof (rule shared_files_are_reported [OF stars.segment_matcher_axioms])
  show "splittable (entry_file ''src/**/*.go#Run'')" "splittable (entry_file ''src/job'')"
    "entry_names star_matcher ''src/**/*.go#Run'' ''src/job/a.go'' ''Run''"
    "entry_names star_matcher ''src/job'' ''src/job/a.go'' ''Run''"
    by code_simp+
qed



text \<open>
  C19. Where the spelling is not plain, narrowing can widen: the path of an entry is read by the
  claim grammar twice, so a hash sign that was escaped is cut the second time, and a file beside
  a directory's name counts as within it.
\<close>

theorem escaped_hash_widens:
  "PathWithin dm ''./notes/a#b.md'' ''notes/a'' \<and> entry_names dm ''./notes/a#b.md'' ''notes/a#b.md'' '''' \<and>
    \<not> entry_names dm ''notes/a'' ''notes/a#b.md'' ''''"
proof -
  have i: "SplitClaim ''./notes/a#b.md'' = (''notes/a#b.md'', '''')" by code_simp
  have o: "SplitClaim ''notes/a'' = (''notes/a'', '''')" by code_simp
  have "entry_file ''./notes/a#b.md'' = ''notes/a#b.md''" "entry_file ''notes/a'' = ''notes/a''"
    "\<not> IsGlobMeta ''notes/a#b.md''" "\<not> IsGlobMeta ''notes/a''" "at_or_under ''notes/a#b.md'' ''notes/a#b.md''"
    "\<not> at_or_under ''notes/a#b.md'' ''notes/a''" "underDir (LiteralPrefix ''notes/a#b.md'') ''notes/a''"
    "Clean ''notes/a#b.md'' = ''notes/a#b.md''" "Clean ''notes/a'' = ''notes/a''"
    by code_simp+
  then show ?thesis by (simp add: PathWithin_def entry_names_def file_named_def i o)
qed

text \<open>
  Two more ways to widen: the last segment of a glob is taken apart from an alternative that
  began before it; and a literal that is a directory names everything beneath it, which the
  glob that matches it need not.
\<close>

theorem split_alternative_widens:
  assumes "dm ''[!_]*.go'' ''y}.go'' = Some True" "dm ''{a/_x,b/y}.go'' ''a/_x.go'' = Some True"
    and "dm ''**/[!_]*.go'' ''a/_x.go'' = Some False"
  shows "PathWithin dm ''{a/_x,b/y}.go'' ''**/[!_]*.go'' \<and> entry_names dm ''{a/_x,b/y}.go'' ''a/_x.go'' '''' \<and>
    \<not> entry_names dm ''**/[!_]*.go'' ''a/_x.go'' ''''"
proof -
  have i: "SplitClaim ''{a/_x,b/y}.go'' = (''{a/_x,b/y}.go'', '''')" by code_simp
  have o: "SplitClaim ''**/[!_]*.go'' = (''**/[!_]*.go'', '''')" by code_simp
  have "Clean ''{a/_x,b/y}.go'' = ''{a/_x,b/y}.go''" "Clean ''**/[!_]*.go'' = ''**/[!_]*.go''"
    "entry_file ''{a/_x,b/y}.go'' = ''{a/_x,b/y}.go''" "entry_file ''**/[!_]*.go'' = ''**/[!_]*.go''"
    "IsGlobMeta ''{a/_x,b/y}.go''" "IsGlobMeta ''**/[!_]*.go''" "starStarShape ''**/[!_]*.go'' = Some ('''', ''[!_]*.go'')"
    "path_last ''{a/_x,b/y}.go'' = ''y}.go''" "\<not> IsGlobMeta ''y}.go''"
    by code_simp+
  then show ?thesis using assms by (simp add: PathWithin_def entry_names_def file_named_def underDir_def i o Let_def)
qed

theorem literal_directory_widens:
  assumes "dm ''internal/*'' ''internal/job'' = Some True" "dm ''internal/*'' ''internal/job/sub/a.go'' = Some False"
  shows "PathWithin dm ''internal/job'' ''internal/*'' \<and> entry_names dm ''internal/job'' ''internal/job/sub/a.go'' '''' \<and>
    \<not> entry_names dm ''internal/*'' ''internal/job/sub/a.go'' ''''"
proof -
  have i: "SplitClaim ''internal/job'' = (''internal/job'', '''')" by code_simp
  have o: "SplitClaim ''internal/*'' = (''internal/*'', '''')" by code_simp
  have "Clean ''internal/job'' = ''internal/job''" "Clean ''internal/*'' = ''internal/*''"
    "entry_file ''internal/job'' = ''internal/job''" "entry_file ''internal/*'' = ''internal/*''"
    "\<not> IsGlobMeta ''internal/job''" "IsGlobMeta ''internal/*''" "at_or_under ''internal/job/sub/a.go'' ''internal/job''"
    by code_simp+
  then show ?thesis using assms by (simp add: PathWithin_def entry_names_def file_named_def i o Let_def)
qed

end
